(* ===== verification/Ngx_Prelude.thy ===== *)
theory Ngx_Prelude
  imports Main "HOL-Library.Word" "HOL-Library.Sublist"
begin

text \<open>
  Shared vocabulary of the development.

  Machine types of the configured platform (64-bit pointers, little endian, two's complement):
  \<open>u_char\<close> is \<^typ>\<open>8 word\<close>, \<open>uint32_t\<close> is \<^typ>\<open>32 word\<close>, \<open>ngx_uint_t\<close>, \<open>size_t\<close>, \<open>uint64_t\<close>
  and the bit patterns of \<open>ngx_int_t\<close>, \<open>ssize_t\<close>, \<open>off_t\<close>, \<open>time_t\<close> are \<^typ>\<open>64 word\<close>.
  A pair of a pointer and a length that only delimits readable bytes is the list of these
  bytes; a null-terminated string is the list of the bytes readable from the pointer on, the
  terminator among them.  Character constants of the C source are named by abbreviations, so
  that a definition reads like the code and the simplifier works on numerals.

  The theory also holds the generic facts the components share: exhaustive checks over bytes,
  decimal and hexadecimal digits, and reads at an offset of a buffer.
\<close>

unbundle bit_operations_syntax

type_synonym u_char = "8 word"
type_synonym uint32_t = "32 word"
type_synonym uint64_t = "64 word"
type_synonym bytes = "u_char list"

named_theorems ngx_bounds \<open>range facts of bytes and digits\<close>
named_theorems ngx_steps \<open>unfolding of the steps of state machines\<close>

subsection \<open>Return codes and character constants\<close>

abbreviation NGX_OK :: int where "NGX_OK \<equiv> 0"
abbreviation NGX_ERROR :: int where "NGX_ERROR \<equiv> -1"
abbreviation NGX_AGAIN :: int where "NGX_AGAIN \<equiv> -2"
abbreviation NGX_BUSY :: int where "NGX_BUSY \<equiv> -3"
abbreviation NGX_DONE :: int where "NGX_DONE \<equiv> -4"
abbreviation NGX_DECLINED :: int where "NGX_DECLINED \<equiv> -5"

abbreviation c_NUL :: u_char where "c_NUL \<equiv> 0"
abbreviation LF :: u_char where "LF \<equiv> 10"
abbreviation CR :: u_char where "CR \<equiv> 13"
abbreviation c_space :: u_char where "c_space \<equiv> 32"
abbreviation c_excl :: u_char where "c_excl \<equiv> 33"
abbreviation c_quot :: u_char where "c_quot \<equiv> 34"
abbreviation c_hash :: u_char where "c_hash \<equiv> 35"
abbreviation c_dollar :: u_char where "c_dollar \<equiv> 36"
abbreviation c_percent :: u_char where "c_percent \<equiv> 37"
abbreviation c_amp :: u_char where "c_amp \<equiv> 38"
abbreviation c_apos :: u_char where "c_apos \<equiv> 39"
abbreviation c_lpar :: u_char where "c_lpar \<equiv> 40"
abbreviation c_rpar :: u_char where "c_rpar \<equiv> 41"
abbreviation c_star :: u_char where "c_star \<equiv> 42"
abbreviation c_plus :: u_char where "c_plus \<equiv> 43"
abbreviation c_comma :: u_char where "c_comma \<equiv> 44"
abbreviation c_minus :: u_char where "c_minus \<equiv> 45"
abbreviation c_dot :: u_char where "c_dot \<equiv> 46"
abbreviation c_slash :: u_char where "c_slash \<equiv> 47"
abbreviation c_0 :: u_char where "c_0 \<equiv> 48"
abbreviation c_1 :: u_char where "c_1 \<equiv> 49"
abbreviation c_9 :: u_char where "c_9 \<equiv> 57"
abbreviation c_colon :: u_char where "c_colon \<equiv> 58"
abbreviation c_semi :: u_char where "c_semi \<equiv> 59"
abbreviation c_lt :: u_char where "c_lt \<equiv> 60"
abbreviation c_eq :: u_char where "c_eq \<equiv> 61"
abbreviation c_gt :: u_char where "c_gt \<equiv> 62"
abbreviation c_quest :: u_char where "c_quest \<equiv> 63"
abbreviation c_A :: u_char where "c_A \<equiv> 65"
abbreviation c_H :: u_char where "c_H \<equiv> 72"
abbreviation c_P :: u_char where "c_P \<equiv> 80"
abbreviation c_T :: u_char where "c_T \<equiv> 84"
abbreviation c_Z :: u_char where "c_Z \<equiv> 90"
abbreviation c_lbrack :: u_char where "c_lbrack \<equiv> 91"
abbreviation c_rbrack :: u_char where "c_rbrack \<equiv> 93"
abbreviation c_underscore :: u_char where "c_underscore \<equiv> 95"
abbreviation c_a :: u_char where "c_a \<equiv> 97"
abbreviation c_f :: u_char where "c_f \<equiv> 102"
abbreviation c_z :: u_char where "c_z \<equiv> 122"
abbreviation c_tilde :: u_char where "c_tilde \<equiv> 126"

text \<open>A C string literal without its terminator.\<close>

definition bs :: "string \<Rightarrow> bytes" where
  "bs s = map of_char s"

lemma bs_simps [simp]: "bs [] = []" "bs (c # s) = of_char c # bs s"
  by (simp_all add: bs_def)

lemma length_bs [simp]: "length (bs s) = length s"
  by (simp add: bs_def)

lemma bs_inject: "bs s = bs t \<longleftrightarrow> s = t"
proof -
  have "unat (of_char c :: u_char) = of_char c" for c
    using unat_of_nat [where ?'a = 8, of "of_char c"] nat_of_char_less_256 [of c] by (simp add: of_nat_of_char)
  then have "(of_char c :: u_char) = of_char d \<Longrightarrow> c = d" for c d
    by (metis of_char_eq_iff)
  then have "inj (of_char :: char \<Rightarrow> u_char)" by (rule injI)
  then show ?thesis by (simp add: bs_def)
qed

subsection \<open>Bytes\<close>

text \<open>A property of all bytes is checked on the 256 values.\<close>

lemma all_u_char: "(\<forall>c::u_char. P c) \<longleftrightarrow> (\<forall>n\<in>set [0..<256]. P (word_of_nat n))"
proof
  assume *: "\<forall>n\<in>set [0..<256]. P (word_of_nat n)"
  show "\<forall>c. P c"
  proof
    fix c :: u_char
    have "unat c < 256"
      by (rule order_less_le_trans [OF unsigned_less]) simp
    then have "unat c \<in> set [0..<256]" by simp
    with * have "P (word_of_nat (unat c))" by blast
    then show "P c" by simp
  qed
qed auto

lemma u_char_eq_bits:
  "a = b \<longleftrightarrow>
    (bit a 0 \<longleftrightarrow> bit b 0) \<and> (bit a 1 \<longleftrightarrow> bit b 1) \<and> (bit a 2 \<longleftrightarrow> bit b 2) \<and> (bit a 3 \<longleftrightarrow> bit b 3) \<and>
    (bit a 4 \<longleftrightarrow> bit b 4) \<and> (bit a 5 \<longleftrightarrow> bit b 5) \<and> (bit a 6 \<longleftrightarrow> bit b 6) \<and> (bit a 7 \<longleftrightarrow> bit b 7)"
  for a b :: u_char
proof
  assume *: "(bit a 0 \<longleftrightarrow> bit b 0) \<and> (bit a 1 \<longleftrightarrow> bit b 1) \<and> (bit a 2 \<longleftrightarrow> bit b 2) \<and> (bit a 3 \<longleftrightarrow> bit b 3) \<and>
    (bit a 4 \<longleftrightarrow> bit b 4) \<and> (bit a 5 \<longleftrightarrow> bit b 5) \<and> (bit a 6 \<longleftrightarrow> bit b 6) \<and> (bit a 7 \<longleftrightarrow> bit b 7)"
  show "a = b"
  proof (rule bit_word_eqI)
    fix n :: nat
    assume "n < LENGTH(8)"
    then have "n = 0 \<or> n = 1 \<or> n = 2 \<or> n = 3 \<or> n = 4 \<or> n = 5 \<or> n = 6 \<or> n = 7" by auto
    with * show "bit a n = bit b n" by blast
  qed
qed simp

lemma not_bit_u_char [simp]: "8 \<le> n \<Longrightarrow> \<not> bit (b::u_char) n"
  by (auto dest: bit_imp_le_length)

lemma unat_u_char_less [simp, ngx_bounds]: "unat (c::u_char) < 256"
  by (rule order_less_le_trans [OF unsigned_less]) simp

lemma unat_u_char_div_16 [simp]: "unat (c::u_char) div 16 < 16"
  using unat_u_char_less [of c] by linarith

definition is_digit :: "u_char \<Rightarrow> bool" where
  "is_digit c \<longleftrightarrow> c_0 \<le> c \<and> c \<le> c_9"

text \<open>The digit byte of a number below ten, and the value of a digit byte.\<close>

definition digit_byte :: "nat \<Rightarrow> u_char" where
  "digit_byte d = of_nat (d + 48)"

definition digit_value :: "u_char \<Rightarrow> nat" where
  "digit_value c = unat c - 48"

lemma unat_digit_byte: "d < 10 \<Longrightarrow> unat (digit_byte d) = d + 48"
  by (simp add: digit_byte_def unat_of_nat del: of_nat_add)

lemma is_digit_byte [simp]: "d < 10 \<Longrightarrow> is_digit (digit_byte d)"
  by (simp add: is_digit_def word_le_nat_alt unat_digit_byte)

lemma digit_value_byte [simp]: "d < 10 \<Longrightarrow> digit_value (digit_byte d) = d"
  by (simp add: digit_value_def unat_digit_byte)

lemma digit_value_less: "is_digit c \<Longrightarrow> digit_value c < 10"
  by (auto simp: is_digit_def digit_value_def word_le_nat_alt)

lemma digit_byte_value: "is_digit c \<Longrightarrow> digit_byte (digit_value c) = c"
  by (simp add: is_digit_def digit_value_def digit_byte_def word_le_nat_alt word_unat_eq_iff unat_of_nat)

lemma unat_digit_minus: "is_digit c \<Longrightarrow> unat (c - c_0) = digit_value c"
  by (simp add: is_digit_def digit_value_def unat_sub)

lemma unat_ucast: "unat (ucast w :: 'b::len word) = unat w mod 2 ^ LENGTH('b)" for w :: "'a::len word"
  by (simp only: unsigned_ucast_eq) (simp add: take_bit_eq_mod)

lemma unat_and_15: "unat (u AND 15) = unat u mod 16" for u :: "'a::len word"
proof -
  have "u AND 15 = take_bit 4 u"
    by (simp add: take_bit_eq_mask mask_eq_exp_minus_1)
  then show ?thesis by (simp only: unsigned_take_bit_eq) (simp add: take_bit_eq_mod)
qed

lemma unat_drop_4: "unat (drop_bit 4 u) = unat u div 16" for u :: "'a::len word"
  by (simp only: unat_drop_bit_eq) (simp add: drop_bit_eq_div)

lemma uint64_of_sint: "unat (of_int (sint u) :: uint64_t) = unat (u::uint64_t)"
  by simp

lemma sint_range_64: "- (2 ^ 63) \<le> sint (u::uint64_t) \<and> sint u < 2 ^ 63"
  using sint_ge [of u] sint_lt [of u] by simp

lemma unat_of_int_64: "0 \<le> k \<Longrightarrow> k < 2 ^ 64 \<Longrightarrow> unat (of_int k :: uint64_t) = nat k"
  by (simp add: unsigned_of_int take_bit_int_eq_self)

lemma unat_nonneg_64: "0 \<le> sint u \<Longrightarrow> unat (u::uint64_t) = nat (sint u)"
  using unat_of_int_64 [of "sint u"] sint_range_64 [of u] by simp

lemma unat_minus_64: "sint u < 0 \<Longrightarrow> unat (- (u::uint64_t)) = nat (- sint u)"
  using unat_of_int_64 [of "- sint u"] sint_range_64 [of u] by simp

subsection \<open>Positional notation\<close>

text \<open>
  The value of a digit string in a base, and the canonical decimal and hexadecimal texts of a
  number: the reference definitions of the numeric parsers and printers.
\<close>

definition pos_value :: "nat \<Rightarrow> (u_char \<Rightarrow> nat) \<Rightarrow> nat \<Rightarrow> bytes \<Rightarrow> nat" where
  "pos_value b val v s = foldl (\<lambda>v c. v * b + val c) v s"

lemma pos_value_simps [simp]:
  "pos_value b val v [] = v"
  "pos_value b val v (c # s) = pos_value b val (v * b + val c) s"
  "pos_value b val v (s @ t) = pos_value b val (pos_value b val v s) t"
  by (simp_all add: pos_value_def)

lemma pos_value_shift: "pos_value b val v s = v * b ^ length s + pos_value b val 0 s"
proof (induction s arbitrary: v)
  case (Cons c s)
  have "pos_value b val v (c # s) = (v * b + val c) * b ^ length s + pos_value b val 0 s"
    using Cons.IH [of "v * b + val c"] by simp
  moreover have "pos_value b val 0 (c # s) = val c * b ^ length s + pos_value b val 0 s"
    using Cons.IH [of "val c"] by simp
  ultimately show ?case by (simp add: algebra_simps)
qed simp

lemma pos_value_mono: "v \<le> w \<Longrightarrow> pos_value b val v s \<le> pos_value b val w s"
  by (simp add: pos_value_shift [of b val v] pos_value_shift [of b val w])

lemma pos_value_ge: "0 < b \<Longrightarrow> v \<le> pos_value b val v s"
  unfolding pos_value_shift [of b val v s] by (simp add: trans_le_add1)

abbreviation dec_value :: "bytes \<Rightarrow> nat" where
  "dec_value s \<equiv> pos_value 10 digit_value 0 s"

fun digits_of :: "nat \<Rightarrow> nat \<Rightarrow> nat list" where
  "digits_of b n = (if b < 2 \<or> n < b then [n] else digits_of b (n div b) @ [n mod b])"

declare digits_of.simps [simp del]

definition decimal :: "nat \<Rightarrow> bytes" where
  "decimal n = map digit_byte (digits_of 10 n)"

lemma digits_of_nonempty [simp]: "digits_of b n \<noteq> []"
  by (subst digits_of.simps) simp

lemma digits_of_small: "n < b \<Longrightarrow> digits_of b n = [n]"
  by (subst digits_of.simps) simp

lemma digits_of_step: "2 \<le> b \<Longrightarrow> b \<le> n \<Longrightarrow> digits_of b n = digits_of b (n div b) @ [n mod b]"
  by (subst digits_of.simps) simp

lemma digits_of_less: "2 \<le> b \<Longrightarrow> d \<in> set (digits_of b n) \<Longrightarrow> d < b"
proof (induction b n rule: digits_of.induct)
  case (1 b n)
  show ?case
  proof (cases "n < b")
    case True
    with 1 show ?thesis by (simp add: digits_of_small)
  next
    case False
    with 1 show ?thesis by (auto simp: digits_of_step)
  qed
qed

lemma foldl_digits_of: "2 \<le> b \<Longrightarrow> foldl (\<lambda>v d. v * b + d) 0 (digits_of b n) = n"
proof (induction b n rule: digits_of.induct)
  case (1 b n)
  show ?case
  proof (cases "n < b")
    case False
    with 1 have "foldl (\<lambda>v d. v * b + d) 0 (digits_of b (n div b)) = n div b" by simp
    with 1 False show ?thesis by (simp add: digits_of_step)
  qed (simp add: digits_of_small)
qed

lemma foldl_map_cong:
  "(\<And>d. d \<in> set ds \<Longrightarrow> val (g d) = d) \<Longrightarrow>
    foldl (\<lambda>v c. v * b + val c) v (map g ds) = foldl (\<lambda>v d. v * b + d) v ds"
  for val :: "'a \<Rightarrow> nat"
  by (induction ds arbitrary: v) simp_all

lemma dec_value_decimal [simp]: "dec_value (decimal n) = n"
proof -
  have "dec_value (decimal n) = foldl (\<lambda>v d. v * 10 + d) 0 (digits_of 10 n)"
    unfolding decimal_def pos_value_def
    by (rule foldl_map_cong) (use digits_of_less [of 10] in simp)
  then show ?thesis by (simp add: foldl_digits_of)
qed

lemma decimal_digits: "c \<in> set (decimal n) \<Longrightarrow> is_digit c"
  using digits_of_less [of 10] by (auto simp: decimal_def)

lemma list_all_decimal [simp]: "list_all is_digit (decimal n)"
  by (simp add: list_all_iff decimal_digits)

lemma decimal_nonempty [simp]: "decimal n \<noteq> []"
  by (simp add: decimal_def)

lemma decimal_small: "n < 10 \<Longrightarrow> decimal n = [digit_byte n]"
  by (simp add: decimal_def digits_of_small)

lemma decimal_step: "10 \<le> n \<Longrightarrow> decimal n = decimal (n div 10) @ [digit_byte (n mod 10)]"
  by (simp add: decimal_def digits_of_step)

lemma length_digits_of: "2 \<le> b \<Longrightarrow> n < b ^ k \<Longrightarrow> 0 < k \<Longrightarrow> length (digits_of b n) \<le> k"
proof (induction k arbitrary: n)
  case (Suc k)
  show ?case
  proof (cases "n < b")
    case False
    then have "0 < k" using Suc.prems by (cases k) auto
    moreover have "n div b < b ^ k"
      using Suc.prems by (simp add: less_mult_imp_div_less mult.commute)
    ultimately show ?thesis using Suc False by (simp add: digits_of_step)
  qed (simp add: digits_of_small)
qed simp

lemma length_decimal: "n < 10 ^ k \<Longrightarrow> 0 < k \<Longrightarrow> length (decimal n) \<le> k"
  by (simp add: decimal_def length_digits_of)

subsection \<open>Reading a buffer\<close>

text \<open>
  A read at an offset of a buffer.  The result is \<^const>\<open>None\<close> outside of it, so a model that
  reads through \<open>byte_at\<close> shows every access the code makes.
\<close>

definition byte_at :: "bytes \<Rightarrow> nat \<Rightarrow> u_char option" where
  "byte_at b i = (if i < length b then Some (b ! i) else None)"

lemma byte_at_append [simp]: "i < length b \<Longrightarrow> byte_at (b @ d) i = byte_at b i"
  by (simp add: byte_at_def nth_append)

lemma byte_at_Some: "byte_at b i = Some c \<longleftrightarrow> i < length b \<and> b ! i = c"
  by (auto simp: byte_at_def)

end
