(* ===== verification/Ngx_Number.thy ===== *)
theory Ngx_Number
  imports Ngx_Prelude
begin

text \<open>
  Numeric conversions of \<open>core/ngx_string.c\<close>: the decimal parsers \<open>ngx_atoi\<close>, \<open>ngx_atosz\<close>,
  \<open>ngx_atoof\<close>, \<open>ngx_atotm\<close>, the fixed point parser \<open>ngx_atofp\<close>, \<open>ngx_hextoi\<close> and
  \<open>ngx_hex_dump\<close>, and the number printer \<open>ngx_sprintf_num\<close>.

  The C code accumulates in a signed 64-bit variable; the model accumulates in a \<^typ>\<open>uint64_t\<close>,
  whose arithmetic is the two's complement wrap-around that the test \<open>value < 0\<close> of the source
  relies on, and reads the sign with \<^const>\<open>sint\<close>.  The interface \<open>decimal_parser\<close> is what the callers
  of the four decimal parsers rely on; each of them is an instance.
\<close>

subsection \<open>Decimal parsers\<close>

fun atoi_loop :: "bytes \<Rightarrow> uint64_t \<Rightarrow> uint64_t option" where
  "atoi_loop [] value = Some value"
| "atoi_loop (c # line) value =
     (if c < c_0 \<or> c > c_9 then None
      else atoi_loop line (value * 10 + ucast (c - c_0)))"

definition ngx_atoi :: "bytes \<Rightarrow> int" where
  "ngx_atoi line =
     (if length line = 0 then NGX_ERROR
      else case atoi_loop line 0 of
             None \<Rightarrow> NGX_ERROR
           | Some value \<Rightarrow> if sint value < 0 then NGX_ERROR else sint value)"

definition ngx_atosz :: "bytes \<Rightarrow> int" where
  "ngx_atosz line =
     (if length line = 0 then NGX_ERROR
      else case atoi_loop line 0 of
             None \<Rightarrow> NGX_ERROR
           | Some value \<Rightarrow> if sint value < 0 then NGX_ERROR else sint value)"

definition ngx_atoof :: "bytes \<Rightarrow> int" where
  "ngx_atoof line =
     (if length line = 0 then NGX_ERROR
      else case atoi_loop line 0 of
             None \<Rightarrow> NGX_ERROR
           | Some value \<Rightarrow> if sint value < 0 then NGX_ERROR else sint value)"

definition ngx_atotm :: "bytes \<Rightarrow> int" where
  "ngx_atotm line =
     (if length line = 0 then NGX_ERROR
      else case atoi_loop line 0 of
             None \<Rightarrow> NGX_ERROR
           | Some value \<Rightarrow> if sint value < 0 then NGX_ERROR else sint value)"

text \<open>
  \<open>ngx_atofp\<close> reads a fixed point number with \<open>point\<close> digits after the dot.  The loop keeps the
  remaining \<open>point\<close> and whether the dot was seen; afterwards the value is scaled by ten for each
  digit that was not given.
\<close>

fun atofp_loop :: "bytes \<Rightarrow> nat \<Rightarrow> nat \<Rightarrow> uint64_t \<Rightarrow> (uint64_t \<times> nat) option" where
  "atofp_loop [] point dot value = Some (value, point)"
| "atofp_loop (c # line) point dot value =
     (if point = 0 then None
      else if c = c_dot then
        (if dot \<noteq> 0 then None else atofp_loop line point 1 value)
      else if c < c_0 \<or> c > c_9 then None
      else atofp_loop line (point - dot) dot (value * 10 + ucast (c - c_0)))"

fun atofp_scale :: "nat \<Rightarrow> uint64_t \<Rightarrow> uint64_t" where
  "atofp_scale 0 value = value"
| "atofp_scale (Suc point) value = atofp_scale point (value * 10)"

definition ngx_atofp :: "bytes \<Rightarrow> nat \<Rightarrow> int" where
  "ngx_atofp line point =
     (if length line = 0 then NGX_ERROR
      else case atofp_loop line point 0 0 of
             None \<Rightarrow> NGX_ERROR
           | Some (value, point') \<Rightarrow>
               let value' = atofp_scale point' value in
               if sint value' < 0 then NGX_ERROR else sint value')"

subsection \<open>Hexadecimal\<close>

fun hextoi_loop :: "bytes \<Rightarrow> uint64_t \<Rightarrow> uint64_t option" where
  "hextoi_loop [] value = Some value"
| "hextoi_loop (ch # line) value =
     (if ch \<ge> c_0 \<and> ch \<le> c_9 then hextoi_loop line (value * 16 + ucast (ch - c_0))
      else let c = ch OR 0x20 in
        if c \<ge> c_a \<and> c \<le> c_f then hextoi_loop line (value * 16 + ucast (c - c_a + 10))
        else None)"

definition ngx_hextoi :: "bytes \<Rightarrow> int" where
  "ngx_hextoi line =
     (if length line = 0 then NGX_ERROR
      else case hextoi_loop line 0 of
             None \<Rightarrow> NGX_ERROR
           | Some value \<Rightarrow> if sint value < 0 then NGX_ERROR else sint value)"

definition hex :: bytes where
  "hex = bs ''0123456789abcdef''"

definition HEX :: bytes where
  "HEX = bs ''0123456789ABCDEF''"

fun ngx_hex_dump :: "bytes \<Rightarrow> bytes" where
  "ngx_hex_dump [] = []"
| "ngx_hex_dump (c # src) =
     hex ! unat (drop_bit 4 c) # hex ! unat (c AND 0xf) # ngx_hex_dump src"

subsection \<open>Printing a number\<close>

text \<open>
  \<open>ngx_sprintf_num\<close> builds the digits from the end of a temporary array; the model conses them on
  the list \<open>p\<close>.  The source divides 32-bit numbers in a variable of their own.
\<close>

function sprintf_dec32 :: "uint32_t \<Rightarrow> bytes \<Rightarrow> bytes" where
  "sprintf_dec32 ui32 p =
     (let p' = (ucast (ui32 mod 10) + c_0) # p; ui32' = ui32 div 10 in
      if ui32' \<noteq> 0 then sprintf_dec32 ui32' p' else p')"
  by pat_completeness auto
termination
proof (relation "measure (\<lambda>(u, p). unat u)")
  fix u :: uint32_t and p x y
  assume "y = u div 10" and "y \<noteq> 0"
  then have "0 < unat u"
    by (metis div_0 unat_gt_0)
  with \<open>y = u div 10\<close> show "((y, x), u, p) \<in> measure (\<lambda>(u, p). unat u)"
    by (simp add: unat_div)
qed simp

function sprintf_dec64 :: "uint64_t \<Rightarrow> bytes \<Rightarrow> bytes" where
  "sprintf_dec64 ui64 p =
     (let p' = (ucast (ui64 mod 10) + c_0) # p; ui64' = ui64 div 10 in
      if ui64' \<noteq> 0 then sprintf_dec64 ui64' p' else p')"
  by pat_completeness auto
termination
proof (relation "measure (\<lambda>(u, p). unat u)")
  fix u :: uint64_t and p x y
  assume "y = u div 10" and "y \<noteq> 0"
  then have "0 < unat u"
    by (metis div_0 unat_gt_0)
  with \<open>y = u div 10\<close> show "((y, x), u, p) \<in> measure (\<lambda>(u, p). unat u)"
    by (simp add: unat_div)
qed simp

function sprintf_hex :: "bytes \<Rightarrow> uint64_t \<Rightarrow> bytes \<Rightarrow> bytes" where
  "sprintf_hex tab ui64 p =
     (let p' = (tab ! unat (ui64 AND 0xf)) # p; ui64' = drop_bit 4 ui64 in
      if ui64' \<noteq> 0 then sprintf_hex tab ui64' p' else p')"
  by pat_completeness auto
termination
proof (relation "measure (\<lambda>(t, u, p). unat u)")
  fix t :: bytes and u :: uint64_t and p x y
  assume "y = drop_bit 4 u" and "y \<noteq> 0"
  then have "0 < unat u"
    by (metis drop_bit_of_0 unat_gt_0)
  with \<open>y = drop_bit 4 u\<close> show "((t, y, x), t, u, p) \<in> measure (\<lambda>(t, u, p). unat u)"
    by (simp add: drop_bit_eq_div unat_div)
qed simp

definition NGX_MAX_UINT32_VALUE :: uint64_t where
  "NGX_MAX_UINT32_VALUE = 0xffffffff"

definition sprintf_digits :: "uint64_t \<Rightarrow> nat \<Rightarrow> bytes" where
  "sprintf_digits ui64 hexadecimal =
     (if hexadecimal = 0 then
        (if ui64 \<le> NGX_MAX_UINT32_VALUE then sprintf_dec32 (ucast ui64) []
         else sprintf_dec64 ui64 [])
      else if hexadecimal = 1 then sprintf_hex hex ui64 []
      else sprintf_hex HEX ui64 [])"

text \<open>
  The output so far is \<open>buf\<close>, and \<open>lst\<close> (the distance of the source's \<open>last\<close>) the number of bytes that fit.  First the padding loop
  \<open>while (len++ < width && buf < last)\<close>, then the bounded copy of the digits.
\<close>

function sprintf_pad :: "bytes \<Rightarrow> nat \<Rightarrow> nat \<Rightarrow> nat \<Rightarrow> u_char \<Rightarrow> bytes" where
  "sprintf_pad buf lst len width zero =
     (if len < width \<and> length buf < lst
      then sprintf_pad (buf @ [zero]) lst (Suc len) width zero else buf)"
  by pat_completeness auto
termination
  by (relation "measure (\<lambda>(buf, lst, len, width, zero). width - len)") auto

definition ngx_sprintf_num :: "bytes \<Rightarrow> nat \<Rightarrow> uint64_t \<Rightarrow> u_char \<Rightarrow> nat \<Rightarrow> nat \<Rightarrow> bytes" where
  "ngx_sprintf_num buf lst ui64 zero hexadecimal width =
     (let p = sprintf_digits ui64 hexadecimal;
          buf' = sprintf_pad buf lst (length p) width zero;
          len = (if length buf' + length p > lst then lst - length buf' else length p)
      in buf' @ take len p)"


declare sprintf_dec32.simps [simp del] sprintf_dec64.simps [simp del] sprintf_hex.simps [simp del]
  sprintf_pad.simps [simp del]

subsection \<open>What the decimal parsers compute\<close>

abbreviation all_digits :: "bytes \<Rightarrow> bool" where
  "all_digits s \<equiv> list_all is_digit s"

lemma not_digit_iff: "(c < c_0 \<or> c > c_9) \<longleftrightarrow> \<not> is_digit c"
  by (auto simp: is_digit_def)

lemma ucast_digit: "is_digit c \<Longrightarrow> (ucast (c - c_0) :: uint64_t) = of_nat (digit_value c)"
  by (simp add: word_unat_eq_iff unat_ucast unat_digit_minus unat_of_nat digit_value_less)

lemma atoi_loop_None: "\<not> all_digits s \<Longrightarrow> atoi_loop s v = None"
  by (induction s arbitrary: v) (auto simp: not_digit_iff)

lemma atoi_loop_Some:
  "all_digits s \<Longrightarrow> atoi_loop s (of_nat v) = Some (of_nat (pos_value 10 digit_value v s))"
proof (induction s arbitrary: v)
  case (Cons c s)
  from Cons.prems have c: "is_digit c" and s: "all_digits s" by simp_all
  have "atoi_loop (c # s) (of_nat v) = atoi_loop s (of_nat (v * 10 + digit_value c))"
    using c by (simp add: not_digit_iff ucast_digit)
  also have "\<dots> = Some (of_nat (pos_value 10 digit_value (v * 10 + digit_value c) s))"
    using s by (rule Cons.IH)
  finally show ?case by simp
qed simp

lemmas atoi_loop_0 = atoi_loop_Some [where v = 0, simplified]

lemma sint_of_nat_64: "n < 2 ^ 63 \<Longrightarrow> sint (of_nat n :: uint64_t) = int n"
  by (simp add: sint_uint unsigned_of_nat signed_take_bit_int_eq_self_iff take_bit_nat_eq_self)

subsection \<open>The interface of a decimal parser\<close>

text \<open>
  What the callers of \<open>ngx_atoi\<close> and its kin rely on: an empty or a non-digit text is refused,
  and a digit string that fits a signed 64-bit integer has its value.
\<close>

locale decimal_parser =
  fixes parse :: "bytes \<Rightarrow> int"
  assumes parse_empty: "parse [] = NGX_ERROR"
    and parse_nondigit: "\<not> all_digits s \<Longrightarrow> parse s = NGX_ERROR"
    and parse_value: "s \<noteq> [] \<Longrightarrow> all_digits s \<Longrightarrow> dec_value s < 2 ^ 63 \<Longrightarrow> parse s = int (dec_value s)"
    and parse_range: "- 1 \<le> parse s \<and> parse s < 2 ^ 63"
begin

lemma parse_decimal: "n < 2 ^ 63 \<Longrightarrow> parse (decimal n) = int n"
  using parse_value [of "decimal n"] by simp

lemma parse_ok: "parse s \<noteq> NGX_ERROR \<Longrightarrow> s \<noteq> [] \<and> all_digits s \<and> 0 \<le> parse s"
  using parse_empty parse_nondigit [of s] parse_range [of s] by fastforce

lemma parse_leading_zeros: "n < 2 ^ 63 \<Longrightarrow> parse (replicate k c_0 @ decimal n) = int n"
proof -
  assume n: "n < 2 ^ 63"
  have "dec_value (replicate k c_0) = 0"
    by (induction k) (simp_all add: digit_value_def)
  then have "dec_value (replicate k c_0 @ decimal n) = n" by simp
  moreover have "all_digits (replicate k c_0 @ decimal n)"
    by (simp add: is_digit_def list_all_iff [of _ "replicate k c_0"])
  ultimately show ?thesis using n parse_value [of "replicate k c_0 @ decimal n"] by simp
qed

end

lemma signed_result_parser:
  assumes "\<And>s. parse s = (if length s = 0 then NGX_ERROR
      else case atoi_loop s 0 of None \<Rightarrow> NGX_ERROR
         | Some value \<Rightarrow> if sint value < 0 then NGX_ERROR else sint value)"
  shows "decimal_parser parse"
proof
  fix s
  show "parse [] = NGX_ERROR" by (simp add: assms)
  show "\<not> all_digits s \<Longrightarrow> parse s = NGX_ERROR"
    by (simp add: assms atoi_loop_None)
  show "s \<noteq> [] \<Longrightarrow> all_digits s \<Longrightarrow> dec_value s < 2 ^ 63 \<Longrightarrow> parse s = int (dec_value s)"
    by (simp add: assms atoi_loop_0 sint_of_nat_64)
  have "sint v < 2 ^ 63" for v :: uint64_t
    using sint_lt [of v] by simp
  then show "- 1 \<le> parse s \<and> parse s < 2 ^ 63"
    by (auto simp: assms split: option.splits)
qed

interpretation atoi: decimal_parser ngx_atoi
  by (rule signed_result_parser) (simp add: ngx_atoi_def)

interpretation atosz: decimal_parser ngx_atosz
  by (rule signed_result_parser) (simp add: ngx_atosz_def)

interpretation atoof: decimal_parser ngx_atoof
  by (rule signed_result_parser) (simp add: ngx_atoof_def)

interpretation atotm: decimal_parser ngx_atotm
  by (rule signed_result_parser) (simp add: ngx_atotm_def)

subsection \<open>What the number printer computes\<close>

lemma ucast_digit_byte: "n < 10 \<Longrightarrow> unat w = n \<Longrightarrow> ucast w + c_0 = digit_byte n"
  for w :: "'a::len word"
  by (simp add: digit_byte_def word_unat_eq_iff unat_word_ariths unat_ucast unat_of_nat)

lemma sprintf_dec32_decimal: "sprintf_dec32 u p = decimal (unat u) @ p"
proof (induction u p rule: sprintf_dec32.induct)
  case (1 u p)
  have m: "ucast (u mod 10) + c_0 = digit_byte (unat u mod 10)"
    by (rule ucast_digit_byte) (simp_all add: unat_mod)
  have z: "u div 10 = 0 \<longleftrightarrow> unat u < 10"
    by (simp add: word_unat_eq_iff unat_div div_eq_0_iff)
  show ?case
  proof (cases "unat u < 10")
    case True
    then show ?thesis by (subst sprintf_dec32.simps) (simp add: m z decimal_small)
  next
    case False
    then have "sprintf_dec32 u p = sprintf_dec32 (u div 10) (digit_byte (unat u mod 10) # p)"
      by (subst sprintf_dec32.simps) (simp add: m z)
    also have "\<dots> = decimal (unat (u div 10)) @ digit_byte (unat u mod 10) # p"
      using 1 False by (simp add: m z)
    also have "\<dots> = decimal (unat u) @ p"
      using False by (simp add: decimal_step [of "unat u"] unat_div)
    finally show ?thesis .
  qed
qed

lemma sprintf_dec64_decimal: "sprintf_dec64 u p = decimal (unat u) @ p"
proof (induction u p rule: sprintf_dec64.induct)
  case (1 u p)
  have m: "ucast (u mod 10) + c_0 = digit_byte (unat u mod 10)"
    by (rule ucast_digit_byte) (simp_all add: unat_mod)
  have z: "u div 10 = 0 \<longleftrightarrow> unat u < 10"
    by (simp add: word_unat_eq_iff unat_div div_eq_0_iff)
  show ?case
  proof (cases "unat u < 10")
    case True
    then show ?thesis by (subst sprintf_dec64.simps) (simp add: m z decimal_small)
  next
    case False
    then have "sprintf_dec64 u p = sprintf_dec64 (u div 10) (digit_byte (unat u mod 10) # p)"
      by (subst sprintf_dec64.simps) (simp add: m z)
    also have "\<dots> = decimal (unat (u div 10)) @ digit_byte (unat u mod 10) # p"
      using 1 False by (simp add: m z)
    also have "\<dots> = decimal (unat u) @ p"
      using False by (simp add: decimal_step [of "unat u"] unat_div)
    finally show ?thesis .
  qed
qed

text \<open>Both branches, the 32-bit one and the 64-bit one, print the decimal text.\<close>

lemma sprintf_digits_decimal [simp]: "sprintf_digits u 0 = decimal (unat u)"
proof (cases "u \<le> NGX_MAX_UINT32_VALUE")
  case True
  then have "unat u < 2 ^ 32"
    by (simp add: NGX_MAX_UINT32_VALUE_def word_le_nat_alt)
  then have "unat (ucast u :: uint32_t) = unat u"
    by (simp add: unat_ucast)
  with True show ?thesis by (simp add: sprintf_digits_def sprintf_dec32_decimal)
qed (simp add: sprintf_digits_def sprintf_dec64_decimal)

lemma sprintf_hex_digits: "sprintf_hex tab u p = map ((!) tab) (digits_of 16 (unat u)) @ p"
proof (induction tab u p rule: sprintf_hex.induct)
  case (1 tab u p)
  have z: "drop_bit 4 u = 0 \<longleftrightarrow> unat u < 16"
    by (simp add: word_unat_eq_iff unat_drop_4 div_eq_0_iff)
  show ?case
  proof (cases "unat u < 16")
    case True
    then show ?thesis by (subst sprintf_hex.simps) (simp add: z unat_and_15 digits_of_small)
  next
    case False
    then have "sprintf_hex tab u p = sprintf_hex tab (drop_bit 4 u) (tab ! (unat u mod 16) # p)"
      by (subst sprintf_hex.simps) (simp add: z unat_and_15)
    also have "\<dots> = map ((!) tab) (digits_of 16 (unat u div 16)) @ tab ! (unat u mod 16) # p"
      using 1 False by (simp add: z unat_and_15 unat_drop_4)
    also have "\<dots> = map ((!) tab) (digits_of 16 (unat u)) @ p"
      using False by (simp add: digits_of_step [of 16 "unat u"])
    finally show ?thesis .
  qed
qed

lemma sprintf_pad_replicate:
  "sprintf_pad buf lst len width zero = buf @ replicate (min (width - len) (lst - length buf)) zero"
proof (induction buf lst len width zero rule: sprintf_pad.induct)
  case (1 buf lst len width zero)
  show ?case
  proof (cases "len < width \<and> length buf < lst")
    case True
    then have "sprintf_pad buf lst len width zero = sprintf_pad (buf @ [zero]) lst (Suc len) width zero"
      by (subst sprintf_pad.simps) simp
    also have "\<dots> = buf @ zero # replicate (min (width - Suc len) (lst - Suc (length buf))) zero"
      using 1 True by simp
    also have "\<dots> = buf @ replicate (Suc (min (width - Suc len) (lst - Suc (length buf)))) zero"
      by simp
    also have "Suc (min (width - Suc len) (lst - Suc (length buf))) = min (width - len) (lst - length buf)"
      using True by linarith
    finally show ?thesis .
  next
    case False
    then show ?thesis by (subst sprintf_pad.simps) auto
  qed
qed

text \<open>The printer in closed form: the padded text, cut at the end of the buffer.\<close>

definition padded :: "u_char \<Rightarrow> nat \<Rightarrow> bytes \<Rightarrow> bytes" where
  "padded zero width s = replicate (width - length s) zero @ s"

lemma ngx_sprintf_num_take:
  assumes "length buf \<le> lst"
  shows "ngx_sprintf_num buf lst u zero h width =
    buf @ take (lst - length buf) (padded zero width (sprintf_digits u h))"
  using assms
  by (simp add: ngx_sprintf_num_def Let_def sprintf_pad_replicate padded_def min_def)

lemma ngx_sprintf_num_length:
  "length buf \<le> lst \<Longrightarrow> length (ngx_sprintf_num buf lst u zero h width) \<le> lst"
  by (simp add: ngx_sprintf_num_take)

text \<open>The temporary array of \<open>NGX_INT64_LEN + 1 = 21\<close> bytes holds every number.\<close>

lemma sprintf_digits_fit: "length (sprintf_digits u h) \<le> 20"
proof -
  have u: "unat u < 2 ^ 64" by (rule order_less_le_trans [OF unsigned_less]) simp
  have "length (decimal (unat u)) \<le> 20"
    by (rule length_decimal) (use u in simp_all)
  moreover have "length (digits_of 16 (unat u)) \<le> 16"
    by (rule length_digits_of) (use u in simp_all)
  ultimately show ?thesis
    by (cases "h = 0") (simp, simp add: sprintf_digits_def sprintf_hex_digits)
qed

subsection \<open>Hexadecimal round trip\<close>

definition hex_value :: "u_char \<Rightarrow> nat" where
  "hex_value c = (if is_digit c then digit_value c else unat (c OR 0x20) - 87)"

definition is_hex :: "u_char \<Rightarrow> bool" where
  "is_hex c \<longleftrightarrow> is_digit c \<or> (c_a \<le> c OR 0x20 \<and> c OR 0x20 \<le> c_f)"

lemma hex_letter_value:
  "c_a \<le> c OR 0x20 \<Longrightarrow> c OR 0x20 \<le> c_f \<Longrightarrow>
    unat ((c OR 0x20) - c_a + 10) = unat (c OR 0x20) - 87"
  unfolding word_le_nat_alt by (simp add: unat_word_ariths unat_sub word_le_nat_alt)

lemma hex_value_less: "is_hex c \<Longrightarrow> hex_value c < 16"
  by (auto simp: is_hex_def hex_value_def word_le_nat_alt dest: digit_value_less)

lemma hextoi_loop_Some:
  "list_all is_hex s \<Longrightarrow> hextoi_loop s (of_nat v) = Some (of_nat (pos_value 16 hex_value v s))"
proof (induction s arbitrary: v)
  case (Cons c s)
  from Cons.prems have c: "is_hex c" and s: "list_all is_hex s" by simp_all
  have "hextoi_loop (c # s) (of_nat v) = hextoi_loop s (of_nat (v * 16 + hex_value c))"
  proof (cases "is_digit c")
    case True
    then show ?thesis by (simp add: ucast_digit hex_value_def) (simp add: is_digit_def)
  next
    case False
    then have l: "c_a \<le> c OR 0x20" "c OR 0x20 \<le> c_f" using c by (auto simp: is_hex_def)
    have "(ucast ((c OR 0x20) - c_a + 10) :: uint64_t) = of_nat (hex_value c)"
      using hex_letter_value [OF l] False hex_value_less [OF c]
      by (simp add: word_unat_eq_iff unat_ucast unat_of_nat hex_value_def)
    then show ?thesis using False l by (auto simp: Let_def is_digit_def)
  qed
  also have "\<dots> = Some (of_nat (pos_value 16 hex_value (v * 16 + hex_value c) s))"
    using s by (rule Cons.IH)
  finally show ?case by simp
qed simp

lemma hextoi_loop_None: "\<not> list_all is_hex s \<Longrightarrow> hextoi_loop s v = None"
  by (induction s arbitrary: v) (auto simp: is_hex_def is_digit_def Let_def)

lemma hex_table: "list_all (\<lambda>d. is_hex (hex ! d) \<and> hex_value (hex ! d) = d) [0..<16]"
  by code_simp

lemma hex_nth: "d < 16 \<Longrightarrow> is_hex (hex ! d) \<and> hex_value (hex ! d) = d"
  using hex_table by (simp add: list_all_iff)

lemma ngx_hex_dump_hex: "list_all is_hex (ngx_hex_dump src)"
  by (induction src) (simp_all add: unat_drop_4 unat_and_15 hex_nth)

lemma ngx_hex_dump_value:
  "pos_value 16 hex_value v (ngx_hex_dump src) = pos_value 256 unat v src"
proof (induction src arbitrary: v)
  case (Cons c src)
  have "(v * 16 + unat c div 16) * 16 + unat c mod 16 = v * 256 + unat c"
    by (simp add: algebra_simps)
  then show ?case
    by (simp add: Cons.IH unat_drop_4 unat_and_15 hex_nth ac_simps)
qed simp

lemma length_ngx_hex_dump [simp]: "length (ngx_hex_dump src) = 2 * length src"
  by (induction src) simp_all

lemma pos_value_less: "(\<And>c. c \<in> set s \<Longrightarrow> val c < b) \<Longrightarrow> pos_value b val 0 s < b ^ length s"
proof (induction s rule: rev_induct)
  case (snoc c s)
  then have "pos_value b val 0 s < b ^ length s" and "val c < b" by simp_all
  then have "(pos_value b val 0 s + 1) * b \<le> b ^ length s * b"
    by (intro mult_le_mono1) simp
  with \<open>val c < b\<close> show ?case by (simp add: algebra_simps)
qed simp

subsection \<open>Fixed point numbers\<close>

lemma atofp_scale_power: "atofp_scale k (of_nat v) = of_nat (v * 10 ^ k)"
proof (induction k arbitrary: v)
  case (Suc k)
  have "atofp_scale (Suc k) (of_nat v) = atofp_scale k (of_nat (v * 10))" by simp
  also have "\<dots> = of_nat (v * 10 * 10 ^ k)" by (rule Suc.IH)
  finally show ?case by (simp only: power_Suc mult.assoc)
qed simp

lemma dot_not_digit: "is_digit c \<Longrightarrow> c \<noteq> c_dot"
  by (auto simp: is_digit_def)

lemma atofp_loop_integer:
  assumes "0 < point" and "all_digits s"
  shows "atofp_loop (s @ t) point 0 (of_nat v) = atofp_loop t point 0 (of_nat (pos_value 10 digit_value v s))"
  using assms(2)
proof (induction s arbitrary: v)
  case (Cons c s)
  from Cons.prems have c: "is_digit c" and s: "all_digits s" by simp_all
  have "atofp_loop ((c # s) @ t) point 0 (of_nat v) = atofp_loop (s @ t) point 0 (of_nat (v * 10 + digit_value c))"
    using c assms(1) by (simp add: not_digit_iff ucast_digit dot_not_digit)
  also have "\<dots> = atofp_loop t point 0 (of_nat (pos_value 10 digit_value (v * 10 + digit_value c) s))"
    using s by (rule Cons.IH)
  finally show ?case by simp
qed simp

lemma atofp_loop_fraction:
  "all_digits s \<Longrightarrow> length s \<le> point \<Longrightarrow>
    atofp_loop s point 1 (of_nat v) = Some (of_nat (pos_value 10 digit_value v s), point - length s)"
proof (induction s arbitrary: v point)
  case (Cons c s)
  from Cons.prems have c: "is_digit c" and s: "all_digits s" "length s \<le> point - 1" and p: "0 < point"
    by simp_all
  have "atofp_loop (c # s) point 1 (of_nat v) = atofp_loop s (point - 1) 1 (of_nat (v * 10 + digit_value c))"
    using c p by (simp add: not_digit_iff ucast_digit dot_not_digit)
  also have "\<dots> = Some (of_nat (pos_value 10 digit_value (v * 10 + digit_value c) s), point - 1 - length s)"
    using s by (rule Cons.IH)
  finally show ?case by simp
qed simp

subsection \<open>Properties\<close>

text \<open>
  Printing a number with \<open>ngx_sprintf_num\<close> (decimal, zero padded to any width) into a buffer
  that has room for it, and reading the text back with \<open>ngx_atoi\<close>, gives the number, for every
  number a signed 64-bit integer holds.
\<close>

theorem sprintf_num_atoi_roundtrip:
  assumes "unat u < 2 ^ 63" and "max width 20 \<le> lst"
  shows "ngx_atoi (ngx_sprintf_num [] lst u c_0 0 width) = int (unat u)"
proof -
  have "length (decimal (unat u)) \<le> 20"
    using sprintf_digits_fit [of u 0] by simp
  then have "length (padded c_0 width (decimal (unat u))) \<le> lst"
    using assms(2) unfolding padded_def length_append length_replicate by linarith
  then have "ngx_sprintf_num [] lst u c_0 0 width = padded c_0 width (decimal (unat u))"
    by (simp add: ngx_sprintf_num_take)
  then show ?thesis
    using assms(1) by (simp add: padded_def atoi.parse_leading_zeros)
qed

theorem sprintf_num_atoi_roundtrip_witness:
  "ngx_atoi (ngx_sprintf_num [] 25 1050 c_0 0 7) = 1050"
  using sprintf_num_atoi_roundtrip [of 1050 7 25] by simp

text \<open>
  The overflow test of \<open>ngx_atoi\<close> only looks at the sign of the wrapped value, so a decimal text
  that exceeds \<open>2^64\<close> by less than \<open>2^63\<close> is accepted and silently reads as the excess.
\<close>

theorem ngx_atoi_wraps:
  assumes "n < 2 ^ 63"
  shows "ngx_atoi (decimal (2 ^ 64 + n)) = int n"
proof -
  have "(of_nat (2 ^ 64 + n) :: uint64_t) = of_nat n"
    by (simp add: word_unat_eq_iff unat_of_nat del: of_nat_add)
  then have "atoi_loop (decimal (2 ^ 64 + n)) 0 = Some (of_nat n)"
    by (simp only: atoi_loop_0 list_all_decimal dec_value_decimal)
  then show ?thesis
    using assms by (simp only: ngx_atoi_def) (simp add: sint_of_nat_64)
qed

theorem ngx_atoi_wraps_witness:
  "ngx_atoi (bs ''18446744073709551617'') = 1"
proof -
  have "decimal (2 ^ 64 + 1) = bs ''18446744073709551617''"
    by (simp add: decimal_def digits_of_step digits_of_small digit_byte_def)
  then show ?thesis using ngx_atoi_wraps [of 1] by simp
qed

text \<open>
  \<open>ngx_hextoi\<close> reads back what \<open>ngx_hex_dump\<close> writes: the dump of at most seven bytes has the
  value of these bytes in base 256, most significant first.
\<close>

theorem hextoi_hex_dump:
  assumes "src \<noteq> []" and "length src \<le> 7"
  shows "ngx_hextoi (ngx_hex_dump src) = int (pos_value 256 unat 0 src)"
proof -
  have "pos_value 256 unat 0 src < 256 ^ length src"
    by (rule pos_value_less) simp
  also have "\<dots> \<le> (256::nat) ^ 7"
    using assms(2) by (rule power_increasing) simp
  finally have "pos_value 256 unat 0 src < 2 ^ 63" by simp
  moreover have "hextoi_loop (ngx_hex_dump src) 0 = Some (of_nat (pos_value 256 unat 0 src))"
    using hextoi_loop_Some [OF ngx_hex_dump_hex, where v = 0] by (simp add: ngx_hex_dump_value)
  moreover have "length (ngx_hex_dump src) \<noteq> 0"
    using assms(1) by simp
  ultimately show ?thesis
    by (simp add: ngx_hextoi_def sint_of_nat_64 del: length_0_conv length_ngx_hex_dump)
qed

theorem hextoi_hex_dump_witness:
  "ngx_hextoi (ngx_hex_dump [0x12, 0xab, 0xff]) = 0x12abff"
  using hextoi_hex_dump [of "[0x12, 0xab, 0xff]"] by simp

text \<open>
  \<open>ngx_atofp\<close> on a text with an integer part, a dot and at most \<open>point\<close> decimals returns the
  number scaled by \<open>10^point\<close>, whenever that fits a signed 64-bit integer.
\<close>

theorem ngx_atofp_value:
  assumes "0 < point" and "all_digits i" and "all_digits f" and "length f \<le> point"
    and "dec_value i * 10 ^ point + dec_value f * 10 ^ (point - length f) < 2 ^ 63"
  shows "ngx_atofp (i @ c_dot # f) point
    = int (dec_value i * 10 ^ point + dec_value f * 10 ^ (point - length f))"
proof -
  let ?v = "pos_value 10 digit_value (dec_value i) f"
  have "atofp_loop (i @ c_dot # f) point 0 (of_nat 0) = atofp_loop f point 1 (of_nat (dec_value i))"
    using assms(1,2) by (simp only: atofp_loop_integer) simp
  also have "\<dots> = Some (of_nat ?v, point - length f)"
    using assms(3,4) by (rule atofp_loop_fraction)
  finally have loop: "atofp_loop (i @ c_dot # f) point 0 0 = Some (of_nat ?v, point - length f)" by simp
  have "?v * 10 ^ (point - length f) = dec_value i * (10 ^ length f * 10 ^ (point - length f))
      + dec_value f * 10 ^ (point - length f)"
    by (simp add: pos_value_shift [of _ _ "dec_value i"] algebra_simps)
  also have "(10::nat) ^ length f * 10 ^ (point - length f) = 10 ^ point"
    using assms(4) by (simp flip: power_add)
  finally show ?thesis
    using loop assms(5) by (simp add: ngx_atofp_def Let_def atofp_scale_power sint_of_nat_64 del: of_nat_mult of_nat_add)
qed

theorem ngx_atofp_value_witness:
  "ngx_atofp (bs ''10.5'') 2 = 1050"
  using ngx_atofp_value [of 2 "bs ''10''" "bs ''5''"] by (simp add: is_digit_def digit_value_def)

end
