(* ===== verification/Ngx_Printf.thy ===== *)
theory Ngx_Printf
  imports Ngx_Number
begin

text \<open>
  The formatted printer of \<open>core/ngx_string.c\<close>: \<open>ngx_vslprintf\<close> and its wrappers.

  The format is the list of its bytes with the terminating zero; the \<open>va_list\<close> is a list of typed
  arguments.  The output so far is \<open>buf\<close>, and \<open>lst\<close> the number of bytes between the start of the
  buffer and the source's \<open>last\<close>.  The result is \<^const>\<open>None\<close> where the C code has no defined
  behaviour: reading the format past its terminator, an argument of another type or a missing
  one, a string read past its memory, a floating point number converted to an integer type that does not hold it.
\<close>

subsection \<open>Floating point numbers\<close>

text \<open>
  A finite \<open>double\<close> is a pair of a mantissa of at most 53 bits and an exponent of two.  Sums and products are exact and
  then rounded to 53 bits, to the nearest and to the even one of two nearest.  None of the numbers computed for
  \<open>%f\<close> leaves the range of the exponents: products are with integers, and sums with one half.
\<close>

type_synonym double = "int \<times> int"

function bit_count :: "int \<Rightarrow> nat" where
  "bit_count n = (if n \<le> 0 then 0 else Suc (bit_count (n div 2)))"
  by pat_completeness auto
termination
  by (relation "measure nat") (auto simp: nat_less_eq_zless)

declare bit_count.simps [simp del]

definition dbl_round :: "double \<Rightarrow> double" where
  "dbl_round x =
     (let (m, e) = x; k = bit_count \<bar>m\<bar> - 53; q = \<bar>m\<bar> div 2 ^ k; r = \<bar>m\<bar> mod 2 ^ k
      in (sgn m * (if 2 ^ k < 2 * r \<or> (2 * r = 2 ^ k \<and> odd q) then q + 1 else q), e + int k))"

definition dbl_sum :: "double \<Rightarrow> double \<Rightarrow> double" where
  "dbl_sum x y =
     (let (m, e) = x; (n, f) = y; g = min e f in (m * 2 ^ nat (e - g) + n * 2 ^ nat (f - g), g))"

definition dbl_add :: "double \<Rightarrow> double \<Rightarrow> double" where
  "dbl_add x y = dbl_round (dbl_sum x y)"

definition dbl_neg :: "double \<Rightarrow> double" where
  "dbl_neg x = (- fst x, snd x)"

definition dbl_mult :: "double \<Rightarrow> double \<Rightarrow> double" where
  "dbl_mult x y = dbl_round (fst x * fst y, snd x + snd y)"

text \<open>The conversions between \<open>double\<close> and the integers; a number outside the range of the type has no defined conversion.\<close>

definition dbl_of_word :: "uint64_t \<Rightarrow> double" where
  "dbl_of_word w = dbl_round (uint w, 0)"

definition dbl_trunc :: "double \<Rightarrow> int" where
  "dbl_trunc x = (let (m, e) = x in sgn m * (if 0 \<le> e then \<bar>m\<bar> * 2 ^ nat e else \<bar>m\<bar> div 2 ^ nat (- e)))"

definition dbl_to_int64 :: "double \<Rightarrow> uint64_t option" where
  "dbl_to_int64 x =
     (let n = dbl_trunc x in if - (2 ^ 63) \<le> n \<and> n < 2 ^ 63 then Some (word_of_int n) else None)"

definition dbl_to_uint64 :: "double \<Rightarrow> uint64_t option" where
  "dbl_to_uint64 x = (let n = dbl_trunc x in if 0 \<le> n \<and> n < 2 ^ 64 then Some (word_of_int n) else None)"

subsection \<open>Arguments and conversion flags\<close>

text \<open>
  On the modelled platform \<open>off_t\<close>, \<open>time_t\<close>, \<open>size_t\<close>, \<open>ssize_t\<close>, \<open>ngx_int_t\<close>, \<open>long\<close>, \<open>int64_t\<close>,
  the atomic types, \<open>ngx_msec_t\<close>, \<open>rlim_t\<close> and pointers have 64 bits, and \<open>int\<close>, \<open>u_int\<close>, \<open>int32_t\<close>,
  \<open>uint32_t\<close> and \<open>ngx_pid_t\<close> have 32.
\<close>

datatype va_arg =
    VA_word64 uint64_t
  | VA_word32 uint32_t
  | VA_str bytes      \<comment> \<open>\<open>ngx_str_t *\<close>, for \<open>%V\<close>\<close>
  | VA_variable bytes \<comment> \<open>\<open>ngx_variable_value_t *\<close>, for \<open>%v\<close>\<close>
  | VA_chars bytes    \<comment> \<open>\<open>u_char *\<close>: the bytes readable from it, for \<open>%s\<close>\<close>
  | VA_double double  \<comment> \<open>a finite \<open>double\<close>, for \<open>%f\<close>\<close>

record conv =
  cv_zero :: u_char
  cv_width :: nat
  cv_sign :: bool
  cv_hex :: nat
  cv_max_width :: bool
  cv_frac_width :: nat
  cv_slen :: "nat option"

text \<open>\<open>while (*fmt >= '0' && *fmt <= '9') width = width * 10 + *fmt++ - '0';\<close>\<close>

fun vs_number :: "nat \<Rightarrow> bytes \<Rightarrow> (nat \<times> bytes) option" where
  "vs_number n [] = None"
| "vs_number n (c # fmt) =
     (if c \<ge> c_0 \<and> c \<le> c_9 then vs_number ((n * 10 + unat (c - c_0)) mod 2 ^ 64) fmt
      else Some (n, c # fmt))"

fun vs_flags :: "conv \<Rightarrow> bytes \<Rightarrow> va_arg list \<Rightarrow> (conv \<times> bytes \<times> va_arg list) option" where
  "vs_flags cv [] args = None"
| "vs_flags cv (c # fmt) args =
     (if c = 117 \<comment> \<open>u\<close> then vs_flags (cv\<lparr>cv_sign := False\<rparr>) fmt args
      else if c = 109 \<comment> \<open>m\<close> then vs_flags (cv\<lparr>cv_max_width := True\<rparr>) fmt args
      else if c = 88 \<comment> \<open>X\<close> then vs_flags (cv\<lparr>cv_hex := 2, cv_sign := False\<rparr>) fmt args
      else if c = 120 \<comment> \<open>x\<close> then vs_flags (cv\<lparr>cv_hex := 1, cv_sign := False\<rparr>) fmt args
      else if c = c_dot then
        (case vs_number (cv_frac_width cv) fmt of
           None \<Rightarrow> None
         | Some (n, fmt') \<Rightarrow> Some (cv\<lparr>cv_frac_width := n\<rparr>, fmt', args))
      else if c = c_star then
        (case args of
           VA_word64 w # args' \<Rightarrow>
             vs_flags (cv\<lparr>cv_slen := (if w = -1 then None else Some (unat w))\<rparr>) fmt args'
         | _ \<Rightarrow> None)
      else Some (cv, c # fmt, args))"

text \<open>
  The start of a conversion, after the \<open>%\<close>: the reset of the flags, the padding character, the
  width and the flags.
\<close>

definition vs_start :: "bytes \<Rightarrow> va_arg list \<Rightarrow> (conv \<times> bytes \<times> va_arg list) option" where
  "vs_start fmt args =
     (case fmt of
        [] \<Rightarrow> None
      | c # _ \<Rightarrow>
          let zero = (if c = c_0 then c_0 else c_space) in
          case vs_number 0 fmt of
            None \<Rightarrow> None
          | Some (width, fmt') \<Rightarrow>
              vs_flags \<lparr>cv_zero = zero, cv_width = width, cv_sign = True, cv_hex = 0,
                cv_max_width = False, cv_frac_width = 0, cv_slen = None\<rparr> fmt' args)"

subsection \<open>Conversions\<close>

text \<open>\<open>while (*p && buf < last) *buf++ = *p++;\<close>\<close>

fun vs_cstring :: "bytes \<Rightarrow> nat \<Rightarrow> bytes \<Rightarrow> bytes option" where
  "vs_cstring buf lst [] = None"
| "vs_cstring buf lst (c # p) =
     (if c \<noteq> 0 \<and> length buf < lst then vs_cstring (buf @ [c]) lst p else Some buf)"

text \<open>\<open>len = ngx_min((size_t) (last - buf), n); buf = ngx_cpymem(buf, data, len);\<close>\<close>

definition vs_copy :: "bytes \<Rightarrow> nat \<Rightarrow> bytes \<Rightarrow> nat \<Rightarrow> bytes option" where
  "vs_copy buf lst data n =
     (let len = min (lst - length buf) n in
      if length data < len then None else Some (buf @ take len data))"

text \<open>The integer a conversion prints: the sign and the two variables \<open>i64\<close>, \<open>ui64\<close>.\<close>

datatype vs_int = VS_signed uint64_t | VS_unsigned uint64_t

definition NGX_INT64_LEN :: nat where
  "NGX_INT64_LEN = 20"

definition vs_word64 :: "bool \<Rightarrow> uint64_t \<Rightarrow> vs_int" where
  "vs_word64 sg w = (if sg then VS_signed w else VS_unsigned w)"

definition vs_word32 :: "bool \<Rightarrow> uint32_t \<Rightarrow> vs_int" where
  "vs_word32 sg w = (if sg then VS_signed (scast w) else VS_unsigned (ucast w))"

text \<open>
  The integer conversions.  The result holds the flags, since \<open>%mi\<close>, \<open>%mA\<close> and \<open>%p\<close> change the
  width and \<open>%p\<close> the padding and the base.
\<close>

definition vs_integer :: "u_char \<Rightarrow> conv \<Rightarrow> va_arg list \<Rightarrow> (vs_int \<times> conv \<times> va_arg list) option" where
  "vs_integer c cv args =
     (case args of
        VA_word64 w # args' \<Rightarrow>
          (if c = 79 \<comment> \<open>O\<close> \<or> c = 84 \<comment> \<open>T\<close> \<or> c = 114 \<comment> \<open>r\<close> then Some (VS_signed w, cv, args')
           else if c = 77 \<comment> \<open>M\<close> then
             Some (if sint w = -1 then VS_signed (-1) else VS_unsigned w, cv, args')
           else if c = 122 \<comment> \<open>z\<close> \<or> c = 108 \<comment> \<open>l\<close> \<or> c = 76 \<comment> \<open>L\<close> then
             Some (vs_word64 (cv_sign cv) w, cv, args')
           else if c = 105 \<comment> \<open>i\<close> \<or> c = 65 \<comment> \<open>A\<close> then
             Some (vs_word64 (cv_sign cv) w,
               (if cv_max_width cv then cv\<lparr>cv_width := NGX_INT64_LEN\<rparr> else cv), args')
           else if c = 112 \<comment> \<open>p\<close> then
             Some (VS_unsigned w,
               cv\<lparr>cv_hex := 2, cv_sign := False, cv_zero := c_0, cv_width := 8 * 2\<rparr>, args')
           else None)
      | VA_word32 w # args' \<Rightarrow>
          (if c = 80 \<comment> \<open>P\<close> then Some (VS_signed (scast w), cv, args')
           else if c = 100 \<comment> \<open>d\<close> \<or> c = 68 \<comment> \<open>D\<close> then Some (vs_word32 (cv_sign cv) w, cv, args')
           else None)
      | _ \<Rightarrow> None)"

definition is_integer_conv :: "u_char \<Rightarrow> bool" where
  "is_integer_conv c \<longleftrightarrow> c \<in> set (map of_char ''OPTMzidlDLArp'')"

text \<open>The end of the loop body: the minus sign, and \<open>ngx_sprintf_num\<close>.\<close>

definition vs_print_int :: "bytes \<Rightarrow> nat \<Rightarrow> vs_int \<Rightarrow> conv \<Rightarrow> bytes" where
  "vs_print_int buf lst n cv =
     (case n of
        VS_signed i64 \<Rightarrow>
          if sint i64 < 0
          then ngx_sprintf_num (buf @ [c_minus]) lst (- i64) (cv_zero cv) (cv_hex cv) (cv_width cv)
          else ngx_sprintf_num buf lst i64 (cv_zero cv) (cv_hex cv) (cv_width cv)
      | VS_unsigned ui64 \<Rightarrow>
          ngx_sprintf_num buf lst ui64 (cv_zero cv) (cv_hex cv) (cv_width cv))"

text \<open>\<open>scale = 1; for (n = frac_width; n; n--) scale *= 10;\<close>\<close>

primrec vs_scale :: "nat \<Rightarrow> uint64_t \<Rightarrow> uint64_t" where
  "vs_scale 0 scale = scale"
| "vs_scale (Suc n) scale = vs_scale n (scale * 10)"

text \<open>The fraction of \<open>%f\<close>, rounded to \<open>frac_width\<close> digits, and the integer, which it can carry into.\<close>

definition vs_frac :: "double \<Rightarrow> uint64_t \<Rightarrow> nat \<Rightarrow> (uint64_t \<times> uint64_t) option" where
  "vs_frac f ui64 frac_width =
     (if frac_width \<noteq> 0 then
        let scale = vs_scale frac_width 1 in
        case dbl_to_uint64 (dbl_add (dbl_mult (dbl_add f (dbl_neg (dbl_of_word ui64))) (dbl_of_word scale)) (1, - 1)) of
          None \<Rightarrow> None
        | Some frac \<Rightarrow> Some (if frac = scale then (ui64 + 1, 0) else (ui64, frac))
      else Some (ui64, 0))"

text \<open>The number, and the point and the fraction when there is a width for it.\<close>

definition vs_print_float :: "bytes \<Rightarrow> nat \<Rightarrow> conv \<Rightarrow> uint64_t \<Rightarrow> uint64_t \<Rightarrow> bytes" where
  "vs_print_float buf lst cv ui64 frac =
     (let buf = ngx_sprintf_num buf lst ui64 (cv_zero cv) 0 (cv_width cv) in
      if cv_frac_width cv \<noteq> 0 then
        ngx_sprintf_num (if length buf < lst then buf @ [c_dot] else buf) lst frac c_0 0 (cv_frac_width cv)
      else buf)"

definition vs_float :: "bytes \<Rightarrow> nat \<Rightarrow> conv \<Rightarrow> double \<Rightarrow> bytes option" where
  "vs_float buf lst cv f =
     (let (buf, f) = (if fst f < 0 then (buf @ [c_minus], dbl_neg f) else (buf, f)) in
      case dbl_to_int64 f of
        None \<Rightarrow> None
      | Some ui64 \<Rightarrow>
          (case vs_frac f ui64 (cv_frac_width cv) of
             None \<Rightarrow> None
           | Some (ui64, frac) \<Rightarrow> Some (vs_print_float buf lst cv ui64 frac)))"

text \<open>
  One conversion, from the conversion character on: the new output, the rest of the format and
  of the arguments.
\<close>

definition vs_convert ::
  "bytes \<Rightarrow> nat \<Rightarrow> conv \<Rightarrow> bytes \<Rightarrow> va_arg list \<Rightarrow> (bytes \<times> bytes \<times> va_arg list) option" where
  "vs_convert buf lst cv fmt args =
     (case fmt of
        [] \<Rightarrow> None
      | c # fmt' \<Rightarrow>
          if c = 86 \<comment> \<open>V\<close> then
            (case args of
               VA_str v # args' \<Rightarrow> map_option (\<lambda>buf'. (buf', fmt', args')) (vs_copy buf lst v (length v))
             | _ \<Rightarrow> None)
          else if c = 118 \<comment> \<open>v\<close> then
            (case args of
               VA_variable vv \<comment> \<open>its \<open>len:28\<close> bytes\<close> # args' \<Rightarrow>
                 map_option (\<lambda>buf'. (buf', fmt', args')) (vs_copy buf lst vv (length vv))
             | _ \<Rightarrow> None)
          else if c = 115 \<comment> \<open>s\<close> then
            (case args of
               VA_chars p # args' \<Rightarrow>
                 map_option (\<lambda>buf'. (buf', fmt', args'))
                   (case cv_slen cv of None \<Rightarrow> vs_cstring buf lst p | Some slen \<Rightarrow> vs_copy buf lst p slen)
             | _ \<Rightarrow> None)
          else if is_integer_conv c then
            (case vs_integer c cv args of
               None \<Rightarrow> None
             | Some (n, cv', args') \<Rightarrow> Some (vs_print_int buf lst n cv', fmt', args'))
          else if c = 102 \<comment> \<open>f\<close> then
            (case args of
               VA_double f # args' \<Rightarrow> map_option (\<lambda>buf'. (buf', fmt', args')) (vs_float buf lst cv f)
             | _ \<Rightarrow> None)
          else if c = 99 \<comment> \<open>c\<close> then
            (case args of
               VA_word32 d # args' \<Rightarrow> Some (buf @ [ucast (d AND 0xff)], fmt', args')
             | _ \<Rightarrow> None)
          else if c = 90 \<comment> \<open>Z\<close> then Some (buf @ [0], fmt', args)
          else if c = 78 \<comment> \<open>N\<close> then Some (buf @ [LF], fmt', args)
          else if c = c_percent then Some (buf @ [c_percent], fmt', args)
          else Some (buf @ [c], fmt', args))"

subsection \<open>The loop\<close>

lemma vs_number_length: "vs_number n fmt = Some (m, fmt') \<Longrightarrow> length fmt' \<le> length fmt"
  by (induction n fmt rule: vs_number.induct) (auto split: if_splits)

lemma vs_flags_length: "vs_flags cv fmt args = Some (cv', fmt', args') \<Longrightarrow> length fmt' \<le> length fmt"
proof (induction cv fmt args rule: vs_flags.induct)
  case (2 cv c fmt args)
  then show ?case
    by (auto split: if_splits option.splits list.splits va_arg.splits dest: vs_number_length)
qed simp

lemma vs_start_length: "vs_start fmt args = Some (cv', fmt', args') \<Longrightarrow> length fmt' \<le> length fmt"
  by (auto simp: vs_start_def Let_def simp del: vs_number.simps split: list.splits option.splits
      dest!: vs_number_length vs_flags_length)

lemma vs_convert_length:
  "vs_convert buf lst cv fmt args = Some (buf', fmt', args') \<Longrightarrow> length fmt' < length fmt"
  by (auto simp: vs_convert_def split: list.splits va_arg.splits option.splits if_splits)

function ngx_vslprintf :: "bytes \<Rightarrow> nat \<Rightarrow> bytes \<Rightarrow> va_arg list \<Rightarrow> bytes option" where
  "ngx_vslprintf buf lst [] args = None"
| "ngx_vslprintf buf lst (c # fmt) args =
     (if c \<noteq> 0 \<and> length buf < lst then
        (if c = c_percent then
           (case vs_start fmt args of
              None \<Rightarrow> None
            | Some (cv, fmt1, args1) \<Rightarrow>
                (case vs_convert buf lst cv fmt1 args1 of
                   None \<Rightarrow> None
                 | Some (buf', fmt', args') \<Rightarrow> ngx_vslprintf buf' lst fmt' args'))
         else ngx_vslprintf (buf @ [c]) lst fmt args)
      else Some buf)"
  by pat_completeness auto
termination
  by (relation "measure (\<lambda>(buf, lst, fmt, args). length fmt)")
    (auto dest!: vs_start_length vs_convert_length)

declare ngx_vslprintf.simps [simp del]

definition ngx_snprintf :: "nat \<Rightarrow> bytes \<Rightarrow> va_arg list \<Rightarrow> bytes option" where
  "ngx_snprintf max_len fmt args = ngx_vslprintf [] max_len fmt args"

text \<open>\<open>ngx_slprintf\<close> writes up to \<open>last\<close>; buffer and limit are addresses.\<close>

definition ngx_slprintf :: "nat \<Rightarrow> nat \<Rightarrow> bytes \<Rightarrow> va_arg list \<Rightarrow> bytes option" where
  "ngx_slprintf buf lst fmt args = ngx_vslprintf [] (lst - buf) fmt args"

text \<open>\<open>ngx_sprintf\<close> passes \<open>(void *) -1\<close> as the limit.\<close>

definition ngx_sprintf :: "nat \<Rightarrow> bytes \<Rightarrow> va_arg list \<Rightarrow> bytes option" where
  "ngx_sprintf buf fmt args = ngx_vslprintf [] (2 ^ 64 - 1 - buf) fmt args"

subsection \<open>No output past the limit\<close>

text \<open>
  The invariant of the loop: the output stays a prefix of itself and within the limit.
\<close>

definition writes_within :: "bytes \<Rightarrow> nat \<Rightarrow> bytes \<Rightarrow> bool" where
  "writes_within buf lst buf' \<longleftrightarrow> prefix buf buf' \<and> (length buf \<le> lst \<longrightarrow> length buf' \<le> lst)"

lemma writes_within_refl [simp, intro]: "writes_within buf lst buf"
  by (simp add: writes_within_def)

lemma writes_within_trans:
  "writes_within a lst b \<Longrightarrow> writes_within b lst c \<Longrightarrow> writes_within a lst c"
  by (auto simp: writes_within_def)

lemma writes_within_snoc [intro]: "length buf < lst \<Longrightarrow> writes_within buf lst (buf @ [c])"
  by (simp add: writes_within_def)

lemma vs_cstring_within: "vs_cstring buf lst p = Some buf' \<Longrightarrow> writes_within buf lst buf'"
proof (induction buf lst p rule: vs_cstring.induct)
  case (2 buf lst c p)
  show ?case
  proof (cases "c \<noteq> 0 \<and> length buf < lst")
    case True
    with 2 have "writes_within (buf @ [c]) lst buf'" by simp
    with True show ?thesis by (blast intro: writes_within_trans)
  next
    case False
    with 2 show ?thesis by (simp split: if_splits)
  qed
qed simp

lemma vs_copy_within: "vs_copy buf lst data n = Some buf' \<Longrightarrow> writes_within buf lst buf'"
  by (auto simp: vs_copy_def Let_def writes_within_def split: if_splits)

lemma ngx_sprintf_num_within:
  "length buf \<le> lst \<Longrightarrow> writes_within buf lst (ngx_sprintf_num buf lst u zero h width)"
  by (auto simp: writes_within_def ngx_sprintf_num_take)

lemma vs_print_int_within:
  assumes "length buf < lst"
  shows "writes_within buf lst (vs_print_int buf lst n cv)"
proof -
  have "writes_within buf lst (ngx_sprintf_num (buf @ [c_minus]) lst u z h w)" for u z h w
    by (rule writes_within_trans [OF writes_within_snoc ngx_sprintf_num_within]) (use assms in simp_all)
  then show ?thesis
    using assms by (auto simp: vs_print_int_def intro: ngx_sprintf_num_within split: vs_int.split)
qed

text \<open>The text of a number with a fraction, and the part of it that fits.\<close>

definition vs_float_text :: "conv \<Rightarrow> uint64_t \<Rightarrow> uint64_t \<Rightarrow> bytes" where
  "vs_float_text cv ui64 frac =
     padded (cv_zero cv) (cv_width cv) (sprintf_digits ui64 0) @
     (if cv_frac_width cv \<noteq> 0 then c_dot # padded c_0 (cv_frac_width cv) (sprintf_digits frac 0) else [])"

lemma vs_print_float_take:
  assumes "length buf \<le> lst"
  shows "vs_print_float buf lst cv ui64 frac = buf @ take (lst - length buf) (vs_float_text cv ui64 frac)"
proof -
  let ?num = "padded (cv_zero cv) (cv_width cv) (sprintf_digits ui64 0)"
  let ?b = "buf @ take (lst - length buf) ?num"
  have b: "ngx_sprintf_num buf lst ui64 (cv_zero cv) 0 (cv_width cv) = ?b" "length ?b \<le> lst"
    using assms by (auto simp: ngx_sprintf_num_take)
  show ?thesis
  proof (cases "length ?b < lst")
    case True
    then have "length ?num < lst - length buf" by (simp add: min_def split: if_splits)
    then show ?thesis using True b
      by (simp add: vs_print_float_def vs_float_text_def ngx_sprintf_num_take take_Cons' Let_def)
  next
    case False
    then have "lst - length buf \<le> length ?num" using assms by (simp add: min_def split: if_splits)
    then show ?thesis using False b
      by (simp add: vs_print_float_def vs_float_text_def ngx_sprintf_num_take Let_def)
  qed
qed

lemma vs_print_float_within: "length buf \<le> lst \<Longrightarrow> writes_within buf lst (vs_print_float buf lst cv ui64 frac)"
  by (simp add: vs_print_float_take writes_within_def)

lemma vs_float_within:
  assumes "length buf < lst" "vs_float buf lst cv f = Some buf'"
  shows "writes_within buf lst buf'"
proof -
  have "writes_within buf lst (vs_print_float (buf @ [c_minus]) lst cv ui64 frac)" for ui64 frac
    by (rule writes_within_trans [OF writes_within_snoc vs_print_float_within]) (use assms(1) in simp_all)
  then show ?thesis
    using assms vs_print_float_within [of buf lst] by (auto simp: vs_float_def Let_def split: option.splits if_splits)
qed

lemma vs_convert_within:
  assumes "length buf < lst" and "vs_convert buf lst cv fmt args = Some (buf', fmt', args')"
  shows "writes_within buf lst buf'"
  using assms
  by (auto simp: vs_convert_def vs_print_int_within writes_within_snoc
      dest: vs_cstring_within vs_copy_within vs_float_within
      split: list.splits va_arg.splits option.splits if_splits)

lemma ngx_vslprintf_within: "ngx_vslprintf buf lst fmt args = Some out \<Longrightarrow> writes_within buf lst out"
proof (induction buf lst fmt args rule: ngx_vslprintf.induct)
  case (2 buf lst c fmt args)
  consider (stop) "\<not> (c \<noteq> 0 \<and> length buf < lst)" | (plain) "c \<noteq> 0" "length buf < lst" "c \<noteq> c_percent"
    | (conv) "c = c_percent" "length buf < lst" by auto
  then show ?case
  proof cases
    case stop
    with 2 show ?thesis by (auto simp: ngx_vslprintf.simps split: if_splits)
  next
    case plain
    with 2 have "writes_within (buf @ [c]) lst out" by (simp add: ngx_vslprintf.simps)
    with plain show ?thesis by (blast intro: writes_within_trans)
  next
    case conv
    with "2.prems" obtain cv fmt1 args1 buf' fmt' args' where
      s: "vs_start fmt args = Some (cv, fmt1, args1)" and
      c: "vs_convert buf lst cv fmt1 args1 = Some (buf', fmt', args')" and
      l: "ngx_vslprintf buf' lst fmt' args' = Some out"
      by (auto simp: ngx_vslprintf.simps split: option.splits)
    have "writes_within buf' lst out"
      using 2(1) conv s c l by auto
    with conv c show ?thesis by (blast intro: writes_within_trans vs_convert_within)
  qed
qed (simp add: ngx_vslprintf.simps)

subsection \<open>Symbolic execution of formats\<close>

text \<open>
  With these rules the simplifier runs a format with symbolic arguments: the text written is the
  concatenation of the texts of its parts, when the buffer is large enough.
\<close>

lemma padded_nonempty: "s \<noteq> [] \<Longrightarrow> padded z w s \<noteq> []"
  by (simp add: padded_def)

lemma sprintf_num_fits:
  "length buf + length (padded zero width (sprintf_digits u h)) \<le> lst \<Longrightarrow>
    ngx_sprintf_num buf lst u zero h width = buf @ padded zero width (sprintf_digits u h)"
  by (simp add: ngx_sprintf_num_take)

lemmas vs_run = ngx_vslprintf.simps vs_start_def vs_convert_def vs_integer_def vs_word64_def
  vs_word32_def is_integer_conv_def vs_print_int_def

subsection \<open>The text of a format\<close>

text \<open>
  The text that a format and its arguments stand for, without a buffer.  There is none where the arguments do not fit the format, the
  format ends in a lone \<open>%\<close>, a string is shorter than its length or has no end, or a number of \<open>%f\<close> is out of range.
\<close>

definition vs_int_text :: "vs_int \<Rightarrow> conv \<Rightarrow> bytes" where
  "vs_int_text n cv =
     (let (neg, u) = (case n of VS_signed i64 \<Rightarrow> if sint i64 < 0 then (True, - i64) else (False, i64) | VS_unsigned ui64 \<Rightarrow> (False, ui64))
      in (if neg then [c_minus] else []) @ padded (cv_zero cv) (cv_width cv) (sprintf_digits u (cv_hex cv)))"

definition vs_double_text :: "conv \<Rightarrow> double \<Rightarrow> bytes option" where
  "vs_double_text cv f =
     (let g = (if fst f < 0 then dbl_neg f else f) in
      case dbl_to_int64 g of
        None \<Rightarrow> None
      | Some ui64 \<Rightarrow>
          map_option (\<lambda>(ui64, frac). (if fst f < 0 then [c_minus] else []) @ vs_float_text cv ui64 frac)
            (vs_frac g ui64 (cv_frac_width cv)))"

definition vs_string_text :: "nat option \<Rightarrow> bytes \<Rightarrow> bytes option" where
  "vs_string_text slen p =
     (case slen of
        None \<Rightarrow> if 0 \<in> set p then Some (takeWhile (\<lambda>c. c \<noteq> 0) p) else None
      | Some n \<Rightarrow> if n \<le> length p then Some (take n p) else None)"

definition vs_conv_text :: "conv \<Rightarrow> bytes \<Rightarrow> va_arg list \<Rightarrow> (bytes \<times> bytes \<times> va_arg list) option" where
  "vs_conv_text cv fmt args =
     (case fmt of
        [] \<Rightarrow> None
      | c # fmt' \<Rightarrow>
          if c = 0 then None
          else if c = 86 then (case args of VA_str v # args' \<Rightarrow> Some (v, fmt', args') | _ \<Rightarrow> None)
          else if c = 118 then (case args of VA_variable vv # args' \<Rightarrow> Some (vv, fmt', args') | _ \<Rightarrow> None)
          else if c = 115 then
            (case args of VA_chars p # args' \<Rightarrow> map_option (\<lambda>t. (t, fmt', args')) (vs_string_text (cv_slen cv) p) | _ \<Rightarrow> None)
          else if is_integer_conv c then map_option (\<lambda>(n, cv', args'). (vs_int_text n cv', fmt', args')) (vs_integer c cv args)
          else if c = 102 then
            (case args of VA_double f # args' \<Rightarrow> map_option (\<lambda>t. (t, fmt', args')) (vs_double_text cv f) | _ \<Rightarrow> None)
          else if c = 99 then (case args of VA_word32 d # args' \<Rightarrow> Some ([ucast (d AND 0xff)], fmt', args') | _ \<Rightarrow> None)
          else Some ([if c = 90 then 0 else if c = 78 then LF else c], fmt', args))"

lemma vs_conv_text_length: "vs_conv_text cv fmt args = Some (t, fmt', args') \<Longrightarrow> length fmt' < length fmt"
  by (auto simp: vs_conv_text_def split: list.splits va_arg.splits option.splits if_splits)

function vs_text :: "bytes \<Rightarrow> va_arg list \<Rightarrow> bytes option" where
  "vs_text [] args = None"
| "vs_text (c # fmt) args =
     (if c = 0 then Some []
      else if c = c_percent then
        (case vs_start fmt args of
           None \<Rightarrow> None
         | Some (cv, fmt1, args1) \<Rightarrow>
             (case vs_conv_text cv fmt1 args1 of
                None \<Rightarrow> None
              | Some (t, fmt', args') \<Rightarrow> map_option ((@) t) (vs_text fmt' args')))
      else map_option ((#) c) (vs_text fmt args))"
  by pat_completeness auto
termination
  by (relation "measure (\<lambda>(fmt, args). length fmt)") (auto dest!: vs_start_length vs_conv_text_length)

declare vs_text.simps [simp del]

lemma vs_print_int_take:
  "length buf < lst \<Longrightarrow> vs_print_int buf lst n cv = buf @ take (lst - length buf) (vs_int_text n cv)"
  by (auto simp: vs_print_int_def vs_int_text_def ngx_sprintf_num_take take_Cons' split: vs_int.split)

lemma vs_float_take:
  "length buf < lst \<Longrightarrow> vs_float buf lst cv f = map_option (\<lambda>t. buf @ take (lst - length buf) t) (vs_double_text cv f)"
  by (auto simp: vs_float_def vs_double_text_def vs_print_float_take take_Cons' Let_def split: option.split)

lemma vs_cstring_take:
  "0 \<in> set p \<Longrightarrow> length buf \<le> lst \<Longrightarrow> vs_cstring buf lst p = Some (buf @ take (lst - length buf) (takeWhile (\<lambda>c. c \<noteq> 0) p))"
proof (induction p arbitrary: buf)
  case (Cons c p)
  then show ?case by (cases "length buf < lst") (auto simp: take_Cons')
qed simp

lemma vs_string_take:
  "length buf < lst \<Longrightarrow> vs_string_text slen p = Some t \<Longrightarrow>
    (case slen of None \<Rightarrow> vs_cstring buf lst p | Some n \<Rightarrow> vs_copy buf lst p n) = Some (buf @ take (lst - length buf) t)"
  by (auto simp: vs_string_text_def vs_cstring_take vs_copy_def Let_def min_def split: option.splits if_splits)

lemma vs_convert_text:
  assumes "length buf < lst" "vs_conv_text cv fmt args = Some (t, fmt', args')"
  shows "vs_convert buf lst cv fmt args = Some (buf @ take (lst - length buf) t, fmt', args')"
proof -
  obtain c f where fmt: "fmt = c # f" "c \<noteq> 0" using assms(2) by (auto simp: vs_conv_text_def split: list.splits if_splits)
  have one: "take (lst - length buf) [d] = [d]" for d using assms(1) by (simp add: take_Cons')
  have copy: "vs_copy buf lst v (length v) = Some (buf @ take (lst - length buf) v)" for v
    by (simp add: vs_copy_def Let_def min_def)
  note d = assms(2) [unfolded vs_conv_text_def fmt(1) list.case]
  consider "c = 86" | "c = 118" | "c = 115" | "c \<notin> {86, 118, 115}" "is_integer_conv c" | "c \<notin> {86, 118, 115}" "\<not> is_integer_conv c" "c = 102"
    | "c \<notin> {86, 118, 115}" "\<not> is_integer_conv c" "c \<noteq> 102" by blast
  then show ?thesis
  proof cases
    case 1
    then show ?thesis using d by (simp add: fmt(1) vs_convert_def copy split: list.splits va_arg.splits)
  next
    case 2
    then show ?thesis using d by (simp add: fmt(1) vs_convert_def copy split: list.splits va_arg.splits)
  next
    case 3
    then show ?thesis using d by (auto simp: fmt(1) vs_convert_def dest: vs_string_take [OF assms(1)] split: list.splits va_arg.splits)
  next
    case 4
    then show ?thesis using d fmt(2) by (auto simp: fmt(1) vs_convert_def vs_print_int_take [OF assms(1)])
  next
    case 5
    then show ?thesis using d by (auto simp: fmt(1) vs_convert_def vs_float_take [OF assms(1)] split: list.splits va_arg.splits)
  next
    case 6
    then show ?thesis using d fmt(2) by (auto simp: fmt(1) vs_convert_def one split: list.splits va_arg.splits if_splits)
  qed
qed

lemma ngx_vslprintf_text:
  "vs_text fmt args = Some t \<Longrightarrow> length buf \<le> lst \<Longrightarrow> ngx_vslprintf buf lst fmt args = Some (buf @ take (lst - length buf) t)"
proof (induction fmt args arbitrary: buf t rule: vs_text.induct)
  case (2 c fmt args)
  consider (stop) "c = 0 \<or> length buf = lst" | (plain) "c \<noteq> 0" "length buf < lst" "c \<noteq> c_percent"
    | (conv) "c = c_percent" "length buf < lst" using "2.prems"(2) by linarith
  then show ?case
  proof cases
    case stop
    with "2.prems" show ?thesis by (auto simp: ngx_vslprintf.simps vs_text.simps)
  next
    case plain
    with "2.prems" obtain u where u: "vs_text fmt args = Some u" "t = c # u" by (auto simp: vs_text.simps)
    with plain "2.IH"(2) [of u "buf @ [c]"] show ?thesis by (simp add: ngx_vslprintf.simps take_Cons')
  next
    case conv
    with "2.prems"(1) obtain cv fmt1 args1 u fmt' args' v where
      s: "vs_start fmt args = Some (cv, fmt1, args1)" "vs_conv_text cv fmt1 args1 = Some (u, fmt', args')"
        "vs_text fmt' args' = Some v" "t = u @ v"
      by (auto simp: vs_text.simps split: option.splits)
    let ?b = "buf @ take (lst - length buf) u"
    have "ngx_vslprintf buf lst (c # fmt) args = ngx_vslprintf ?b lst fmt' args'"
      using conv s(1) vs_convert_text [OF conv(2) s(2)] by (simp add: ngx_vslprintf.simps)
    also have "\<dots> = Some (?b @ take (lst - length ?b) v)"
      by (rule "2.IH"(1) [OF _ _ s(1) refl refl s(2) refl refl s(3)]) (use conv in simp_all)
    also have "?b @ take (lst - length ?b) v = buf @ take (lst - length buf) t"
      using conv(2) by (simp add: s(4) min_def)
    finally show ?thesis .
  qed
qed (simp add: vs_text.simps)

subsection \<open>The range of floating point numbers\<close>

text \<open>The value of a number in units of \<open>2\<^sup>-\<^sup>K\<close>, for a \<open>K\<close> that makes it an integer.\<close>

definition dbl_units :: "nat \<Rightarrow> double \<Rightarrow> int" where
  "dbl_units K x = fst x * 2 ^ nat (snd x + int K)"

lemma bit_count_ge: "0 < n \<Longrightarrow> 2 ^ bit_count n \<le> 2 * n"
proof (induction n rule: bit_count.induct)
  case (1 n)
  have bc: "bit_count n = Suc (bit_count (n div 2))" using 1(2) by (subst bit_count.simps) simp
  show ?case
  proof (cases "0 < n div 2")
    case True
    then show ?thesis using 1 bc by simp
  next
    case False
    then show ?thesis using 1(2) bc by (simp add: bit_count.simps [of 0])
  qed
qed

lemma bit_count_le: "n < 2 ^ k \<Longrightarrow> bit_count n \<le> k"
proof (induction k arbitrary: n)
  case 0
  then show ?case by (simp add: bit_count.simps [of n])
next
  case (Suc k)
  then have "n div 2 < 2 ^ k" by simp
  then have "bit_count (n div 2) \<le> k" by (rule Suc.IH)
  then show ?case by (simp add: bit_count.simps [of n])
qed

text \<open>A mantissa of 53 bits is not rounded; rounding at most doubles a number.\<close>

lemma dbl_round_exact: "\<bar>m\<bar> < 2 ^ 53 \<Longrightarrow> dbl_round (m, e) = (m, e)"
  using bit_count_le [of "\<bar>m\<bar>" 53] by (simp add: dbl_round_def Let_def abs_mult_sgn mult.commute)

lemma dbl_round_units:
  assumes "0 \<le> fst x" "0 \<le> snd x + int K"
  shows "0 \<le> fst (dbl_round x) \<and> snd x \<le> snd (dbl_round x) \<and> dbl_units K (dbl_round x) \<le> 2 * dbl_units K x"
proof -
  obtain m e where x: "x = (m, e)" by force
  define k where "k = bit_count m - 53"
  define q where "q = m div 2 ^ k"
  define p where "p = (if 2 ^ k < 2 * (m mod 2 ^ k) \<or> (2 * (m mod 2 ^ k) = 2 ^ k \<and> odd q) then q + 1 else q)"
  have m: "0 \<le> m" and e: "0 \<le> e + int K" using assms by (simp_all add: x)
  have r: "dbl_round x = (sgn m * p, e + int k)" using m by (simp add: x dbl_round_def Let_def k_def q_def p_def)
  have q: "0 \<le> q" "q * 2 ^ k \<le> m" using m by (simp_all add: q_def pos_imp_zdiv_nonneg_iff minus_mod_eq_div_mult [symmetric])
  have "p * 2 ^ k \<le> 2 * m \<and> 0 \<le> p"
  proof (cases k)
    case 0
    then show ?thesis using m by (simp add: p_def q_def)
  next
    case (Suc j)
    then have bc: "bit_count m = k + 53" by (simp add: k_def)
    then have "0 < m" by (cases "0 < m") (simp_all add: bit_count.simps [of m])
    then have "2 ^ (k + 53) \<le> 2 * m" using bit_count_ge [of m] bc by simp
    then have big: "2 ^ 52 * 2 ^ k \<le> m" by (simp add: power_add)
    have "(1::int) * 2 ^ k \<le> 2 ^ 52 * 2 ^ k" by (rule mult_right_mono) simp_all
    from order_trans [OF this big] have "2 ^ k \<le> m" by simp
    then have "1 \<le> q" using zdiv_mono1 [of "2 ^ k" m "2 ^ k"] by (simp add: q_def)
    then have "p \<le> 2 * q" "0 \<le> p" by (simp_all add: p_def)
    moreover from this(1) have "p * 2 ^ k \<le> 2 * q * 2 ^ k" by (rule mult_right_mono) simp
    ultimately show ?thesis using q(2) by linarith
  qed
  then have p: "p * 2 ^ k \<le> 2 * m" "0 \<le> p" by simp_all
  have "nat (e + int k + int K) = k + nat (e + int K)" using e by simp
  then have "dbl_units K (dbl_round x) \<le> p * 2 ^ k * 2 ^ nat (e + int K)"
    using p(2) m by (simp add: r dbl_units_def power_add sgn_if)
  also have "\<dots> \<le> 2 * m * 2 ^ nat (e + int K)" by (rule mult_right_mono [OF p(1)]) simp
  finally have "dbl_units K (dbl_round x) \<le> 2 * dbl_units K x" by (simp add: x dbl_units_def mult.assoc)
  moreover have "0 \<le> fst (dbl_round x) \<and> snd x \<le> snd (dbl_round x)" unfolding r using p(2) m by (simp add: x sgn_if)
  ultimately show ?thesis by blast
qed

lemma dbl_sum_units:
  assumes "0 \<le> snd x + int K" "0 \<le> snd y + int K"
  shows "dbl_units K (dbl_sum x y) = dbl_units K x + dbl_units K y" "snd (dbl_sum x y) = min (snd x) (snd y)"
proof -
  obtain m e n f where xy: "x = (m, e)" "y = (n, f)" by force
  have "nat (a - min e f) + nat (min e f + int K) = nat (a + int K)" if "a = e \<or> a = f" for a using that assms by (auto simp: xy)
  then show "dbl_units K (dbl_sum x y) = dbl_units K x + dbl_units K y"
    by (simp add: xy dbl_sum_def dbl_units_def Let_def distrib_right mult.assoc flip: power_add)
  show "snd (dbl_sum x y) = min (snd x) (snd y)" by (simp add: xy dbl_sum_def Let_def)
qed

lemma dbl_trunc_units:
  assumes "0 \<le> fst x" "0 \<le> snd x + int K" "dbl_units K x \<le> N * 2 ^ K"
  shows "0 \<le> dbl_trunc x \<and> dbl_trunc x \<le> N"
proof -
  obtain m e where x: "x = (m, e)" by force
  have m: "0 \<le> m" and u: "m * 2 ^ nat (e + int K) \<le> N * 2 ^ K" using assms by (simp_all add: x dbl_units_def)
  show ?thesis
  proof (cases "0 \<le> e")
    case True
    then have "m * 2 ^ nat e * 2 ^ K \<le> N * 2 ^ K" using u by (simp add: nat_add_distrib power_add mult.assoc)
    then have "m * 2 ^ nat e \<le> N" by simp
    moreover have "dbl_trunc x = m * 2 ^ nat e" using m True by (simp add: x dbl_trunc_def sgn_if)
    ultimately show ?thesis using m by simp
  next
    case False
    define j where "j = nat (- e)"
    have K: "K = nat (e + int K) + j" using False assms(2) by (simp add: j_def x)
    have "m * 2 ^ nat (e + int K) \<le> N * 2 ^ j * 2 ^ nat (e + int K)" using u by (subst (asm) (2) K) (simp add: power_add mult.assoc mult.commute)
    then have "m \<le> N * 2 ^ j" by simp
    then have "m div 2 ^ j \<le> N" using zdiv_mono1 [of m "N * 2 ^ j" "2 ^ j"] by simp
    moreover have "dbl_trunc x = m div 2 ^ j" using m False by (simp add: x dbl_trunc_def sgn_if j_def)
    ultimately show ?thesis using m by (simp add: pos_imp_zdiv_nonneg_iff)
  qed
qed

text \<open>A number of at most 53 bits is printed whenever it is below \<open>2\<^sup>5\<^sup>3\<close> and asks for at most 18 digits behind the point.\<close>

lemma uint_vs_scale: "n \<le> 18 \<Longrightarrow> uint (vs_scale n 1) = 10 ^ n"
proof -
  assume n: "n \<le> 18"
  have "vs_scale n s = s * 10 ^ n" for s by (induction n arbitrary: s) simp_all
  then have "vs_scale n 1 = word_of_int (10 ^ n)" by (simp add: word_of_int_power_hom)
  then have "uint (vs_scale n 1) = 10 ^ n mod 2 ^ 64" by (simp only: uint_word_of_int) simp
  moreover have "(10::int) ^ n \<le> 10 ^ 18" using n by (intro power_increasing) simp_all
  then have "(10::int) ^ n mod 2 ^ 64 = 10 ^ n" by (intro mod_pos_pos_trivial) simp_all
  ultimately show ?thesis by simp
qed

lemma vs_frac_in_range:
  assumes "0 \<le> m" "m < 2 ^ 53" "dbl_trunc (m, e) < 2 ^ 53" "n \<le> 18"
  shows "vs_frac (m, e) (word_of_int (dbl_trunc (m, e))) n \<noteq> None"
proof -
  let ?i = "dbl_trunc (m, e)"
  have i: "0 \<le> ?i" "?i < 2 ^ 53" using assms(1,3) by (simp_all add: dbl_trunc_def sgn_if pos_imp_zdiv_nonneg_iff)
  then have w: "dbl_of_word (word_of_int ?i) = (?i, 0)"
    by (simp add: dbl_of_word_def uint_word_of_int dbl_round_exact)
  obtain r f where y: "dbl_add (m, e) (dbl_neg (?i, 0)) = (r, f)" "f \<le> 0" "0 \<le> r" "r < 2 ^ nat (- f)"
  proof (cases "0 \<le> e")
    case True
    then have "dbl_sum (m, e) (dbl_neg (?i, 0)) = (0, 0)"
      using assms(1) by (simp add: dbl_sum_def dbl_neg_def dbl_trunc_def sgn_if Let_def)
    then show ?thesis using that [of 0 0] by (simp add: dbl_add_def dbl_round_exact)
  next
    case False
    let ?r = "m mod 2 ^ nat (- e)"
    have "dbl_sum (m, e) (dbl_neg (?i, 0)) = (?r, e)"
      using assms(1) False by (simp add: dbl_sum_def dbl_neg_def dbl_trunc_def sgn_if Let_def minus_div_mult_eq_mod)
    moreover have "0 \<le> ?r" "?r \<le> m" using assms(1) by (simp_all add: zmod_le_nonneg_dividend)
    ultimately show ?thesis using that [of ?r e] False assms(2) by (simp add: dbl_add_def dbl_round_exact)
  qed
  let ?s = "(10::int) ^ n"
  have s: "?s \<le> 10 ^ 18" using assms(4) by (intro power_increasing) simp_all
  define K where "K = nat (- f) + 1"
  obtain q k where d: "dbl_of_word (vs_scale n 1) = (q, k)" by force
  have q: "0 \<le> q" "0 \<le> k" "q * 2 ^ nat k \<le> 2 * ?s"
    using dbl_round_units [of "(?s, 0)" 0] d by (simp_all add: dbl_of_word_def uint_vs_scale [OF assms(4)] dbl_units_def)
  have fK: "f + int K = 1" using y(2) by (simp add: K_def)
  let ?a = "(r * q, f + k)"
  have a: "dbl_units K ?a \<le> 2 * ?s * 2 ^ K"
  proof -
    have "nat (f + k + int K) = Suc (nat k)" using fK q(2) by simp
    then have "dbl_units K ?a = 2 * r * (q * 2 ^ nat k)" by (simp add: dbl_units_def)
    also have "\<dots> \<le> 2 * r * (2 * ?s)" using q(3) y(3) by (intro mult_left_mono) simp_all
    also have "\<dots> \<le> 2 * ?s * 2 ^ K" using y(4) by (simp add: K_def)
    finally show ?thesis .
  qed
  let ?b = "dbl_round ?a"
  have b: "0 \<le> fst ?b" "f + k \<le> snd ?b" "dbl_units K ?b \<le> 4 * ?s * 2 ^ K"
    using dbl_round_units [of ?a K] a y(3) q fK by simp_all
  let ?c = "dbl_sum ?b (1, - 1)"
  have bK: "0 \<le> snd ?b + int K" using b(2) fK q(2) by simp
  have half: "0 \<le> snd (1, - 1) + int K" "dbl_units K (1, - 1) \<le> 2 ^ K" by (simp_all add: dbl_units_def K_def)
  have c: "dbl_units K ?c \<le> (4 * ?s + 1) * 2 ^ K" "0 \<le> snd ?c + int K"
    using dbl_sum_units [OF bK half(1)] bK half b(3) by (simp_all add: distrib_right)
  have c0: "0 \<le> fst ?c" using b(1) by (auto simp: dbl_sum_def Let_def split: prod.split)
  have "dbl_units K (dbl_round ?c) \<le> (8 * ?s + 2) * 2 ^ K" "0 \<le> fst (dbl_round ?c)" "0 \<le> snd (dbl_round ?c) + int K"
    using dbl_round_units [OF c0 c(2)] c by (simp_all add: distrib_right)
  then have t: "0 \<le> dbl_trunc (dbl_round ?c)" "dbl_trunc (dbl_round ?c) \<le> 8 * ?s + 2"
    using dbl_trunc_units by blast+
  have "dbl_add (dbl_mult (dbl_add (m, e) (dbl_neg (dbl_of_word (word_of_int ?i)))) (dbl_of_word (vs_scale n 1))) (1, - 1) = dbl_round ?c"
    by (simp only: w y(1) d dbl_mult_def fst_conv snd_conv) (simp add: dbl_add_def)
  then show ?thesis using t s by (simp add: vs_frac_def Let_def dbl_to_uint64_def)
qed

lemma vs_double_in_range:
  assumes "\<bar>m\<bar> < 2 ^ 53" "\<bar>dbl_trunc (m, e)\<bar> < 2 ^ 53" "cv_frac_width cv \<le> 18"
  shows "vs_double_text cv (m, e) \<noteq> None"
proof -
  have "dbl_trunc (\<bar>m\<bar>, e) = \<bar>dbl_trunc (m, e)\<bar>"
    by (auto simp: dbl_trunc_def abs_mult sgn_if pos_imp_zdiv_nonneg_iff)
  then have "0 \<le> dbl_trunc (\<bar>m\<bar>, e)" "dbl_trunc (\<bar>m\<bar>, e) < 2 ^ 53" using assms(2) by simp_all
  moreover have "(if m < 0 then dbl_neg (m, e) else (m, e)) = (\<bar>m\<bar>, e)" by (simp add: dbl_neg_def)
  ultimately show ?thesis
    using vs_frac_in_range [of "\<bar>m\<bar>" e "cv_frac_width cv"] assms(1,3)
    by (simp add: vs_double_text_def Let_def dbl_to_int64_def)
qed

text \<open>Rounding to the last digit: 1.25 is 1.3, and 9.96 carries into the integer.\<close>

lemma vs_frac_example: "vs_frac (5, - 2) 1 1 = Some (1, 3)" "vs_frac (5606981536076268, - 49) 9 1 = Some (10, 0)"
  by code_simp+

subsection \<open>Properties\<close>

text \<open>
  C28: \<open>ngx_snprintf\<close> writes the text that the format and the arguments stand for, cut at \<open>max\<close> bytes; where they stand for no text,
  and the code still ends, it has written at most \<open>max\<close> bytes: no conversion, padding or copy passes the \<open>last\<close> pointer.
\<close>

theorem ngx_snprintf_bounded:
  "case vs_text fmt args of
     Some t \<Rightarrow> ngx_snprintf max_len fmt args = Some (take max_len t)
   | None \<Rightarrow> (case ngx_snprintf max_len fmt args of None \<Rightarrow> True | Some out \<Rightarrow> length out \<le> max_len)"
proof (cases "vs_text fmt args")
  case None
  then show ?thesis
    using ngx_vslprintf_within [of "[]" max_len fmt args] by (auto simp: ngx_snprintf_def writes_within_def split: option.split)
next
  case (Some t)
  then show ?thesis using ngx_vslprintf_text [OF Some, of "[]" max_len] by (simp add: ngx_snprintf_def)
qed

lemma vslprintf_plain:
  assumes "\<forall>c\<in>set s. c \<noteq> 0 \<and> c \<noteq> c_percent" and "length buf + length s \<le> lst"
  shows "ngx_vslprintf buf lst (s @ fmt) args = ngx_vslprintf (buf @ s) lst fmt args"
  using assms
proof (induction s arbitrary: buf)
  case (Cons c s)
  then have "ngx_vslprintf buf lst ((c # s) @ fmt) args = ngx_vslprintf (buf @ [c]) lst (s @ fmt) args"
    by (simp add: ngx_vslprintf.simps)
  also have "\<dots> = ngx_vslprintf ((buf @ [c]) @ s) lst fmt args"
    by (rule Cons.IH) (use Cons.prems in simp_all)
  finally show ?case by simp
qed simp

text \<open>
  A format that ends in a lone \<open>%\<close> has no defined behaviour: the conversion character is the
  terminating zero, which the default branch copies and steps over, and the loop goes on reading
  behind the format.  This happens whenever the buffer has room for one more byte than the text
  before the \<open>%\<close> and this copied byte.
\<close>

theorem ngx_snprintf_lone_percent:
  assumes "\<forall>c\<in>set s. c \<noteq> 0 \<and> c \<noteq> c_percent" and "length s < max_len"
  shows "ngx_snprintf max_len (s @ [c_percent, 0]) args = None"
  using assms
  by (simp add: ngx_snprintf_def vslprintf_plain vs_run is_digit_def)

theorem ngx_snprintf_lone_percent_witness:
  "ngx_snprintf 10 (bs ''100%'' @ [0]) [] = None"
  using ngx_snprintf_lone_percent [of "bs ''100''" 10 "[]"] by simp

lemma decimal_fits: "length (decimal (unat (u::uint64_t))) \<le> 20"
  using sprintf_digits_fit [of u 0] by simp

lemma snprintf_ui:
  "ngx_snprintf 21 (bs ''%ui'' @ [0]) [VA_word64 u] = Some (decimal (unat u))"
  using decimal_fits [of u]
  by (simp add: ngx_snprintf_def vs_run sprintf_num_fits padded_def)

text \<open>
  In a buffer of 21 bytes \<open>%i\<close> prints the sign and the decimal representation of the absolute
  value of every signed 64-bit integer, the least one included, without losing a digit.
\<close>

theorem snprintf_i:
  "ngx_snprintf 21 (bs ''%i'' @ [0]) [VA_word64 u]
    = Some ((if sint u < 0 then [c_minus] else []) @ decimal (nat \<bar>sint u\<bar>))"
  using decimal_fits [of u] decimal_fits [of "- u"]
  by (auto simp: ngx_snprintf_def vs_run sprintf_num_fits padded_def unat_minus_64 unat_nonneg_64)

end
