(* ===== verification/Ngx_Base64.thy ===== *)
theory Ngx_Base64
  imports Ngx_Prelude
begin

text \<open>
  The base64 codec of \<open>core/ngx_string.c\<close>: \<open>ngx_encode_base64\<close>, \<open>ngx_decode_base64\<close>,
  \<open>ngx_decode_base64url\<close> and their common loop \<open>ngx_decode_base64_internal\<close>, with the macros
  \<open>ngx_base64_encoded_length\<close> and \<open>ngx_base64_decoded_length\<close> that size the destination buffers.
  \<^const>\<open>None\<close> is the return code \<open>NGX_ERROR\<close>.  The interface \<open>base64_table\<close> states what a decoding
  table owes to an encoding alphabet; the round trip is proved once inside it.
\<close>

subsection \<open>Encoding\<close>

definition basis64 :: bytes where
  "basis64 = bs ''ABCDEFGHIJKLMNOPQRSTUVWXYZabcdefghijklmnopqrstuvwxyz0123456789+/''"

fun ngx_encode_base64 :: "bytes \<Rightarrow> bytes" where
  "ngx_encode_base64 (s0 # s1 # s2 # s) =
     [basis64 ! unat (drop_bit 2 s0 AND 0x3f),
      basis64 ! unat (push_bit 4 (s0 AND 3) OR drop_bit 4 s1),
      basis64 ! unat (push_bit 2 (s1 AND 0x0f) OR drop_bit 6 s2),
      basis64 ! unat (s2 AND 0x3f)] @ ngx_encode_base64 s"
| "ngx_encode_base64 [s0] =
     [basis64 ! unat (drop_bit 2 s0 AND 0x3f),
      basis64 ! unat (push_bit 4 (s0 AND 3)), c_eq, c_eq]"
| "ngx_encode_base64 [s0, s1] =
     [basis64 ! unat (drop_bit 2 s0 AND 0x3f),
      basis64 ! unat (push_bit 4 (s0 AND 3) OR drop_bit 4 s1),
      basis64 ! unat (push_bit 2 (s1 AND 0x0f)), c_eq]"
| "ngx_encode_base64 [] = []"

definition ngx_base64_encoded_length :: "nat \<Rightarrow> nat" where
  "ngx_base64_encoded_length len = (len + 2) div 3 * 4"

definition ngx_base64_decoded_length :: "nat \<Rightarrow> nat" where
  "ngx_base64_decoded_length len = (len + 3) div 4 * 3"

subsection \<open>Decoding\<close>

definition decode_table :: bytes where
  "decode_table =
    [77, 77, 77, 77, 77, 77, 77, 77, 77, 77, 77, 77, 77, 77, 77, 77,
     77, 77, 77, 77, 77, 77, 77, 77, 77, 77, 77, 77, 77, 77, 77, 77,
     77, 77, 77, 77, 77, 77, 77, 77, 77, 77, 77, 62, 77, 77, 77, 63,
     52, 53, 54, 55, 56, 57, 58, 59, 60, 61, 77, 77, 77, 77, 77, 77,
     77, 0, 1, 2, 3, 4, 5, 6, 7, 8, 9, 10, 11, 12, 13, 14,
     15, 16, 17, 18, 19, 20, 21, 22, 23, 24, 25, 77, 77, 77, 77, 77,
     77, 26, 27, 28, 29, 30, 31, 32, 33, 34, 35, 36, 37, 38, 39, 40,
     41, 42, 43, 44, 45, 46, 47, 48, 49, 50, 51, 77, 77, 77, 77, 77,
     77, 77, 77, 77, 77, 77, 77, 77, 77, 77, 77, 77, 77, 77, 77, 77,
     77, 77, 77, 77, 77, 77, 77, 77, 77, 77, 77, 77, 77, 77, 77, 77,
     77, 77, 77, 77, 77, 77, 77, 77, 77, 77, 77, 77, 77, 77, 77, 77,
     77, 77, 77, 77, 77, 77, 77, 77, 77, 77, 77, 77, 77, 77, 77, 77,
     77, 77, 77, 77, 77, 77, 77, 77, 77, 77, 77, 77, 77, 77, 77, 77,
     77, 77, 77, 77, 77, 77, 77, 77, 77, 77, 77, 77, 77, 77, 77, 77,
     77, 77, 77, 77, 77, 77, 77, 77, 77, 77, 77, 77, 77, 77, 77, 77,
     77, 77, 77, 77, 77, 77, 77, 77, 77, 77, 77, 77, 77, 77, 77, 77]"

definition decode_table_url :: bytes where
  "decode_table_url =
    [77, 77, 77, 77, 77, 77, 77, 77, 77, 77, 77, 77, 77, 77, 77, 77,
     77, 77, 77, 77, 77, 77, 77, 77, 77, 77, 77, 77, 77, 77, 77, 77,
     77, 77, 77, 77, 77, 77, 77, 77, 77, 77, 77, 77, 77, 62, 77, 77,
     52, 53, 54, 55, 56, 57, 58, 59, 60, 61, 77, 77, 77, 77, 77, 77,
     77, 0, 1, 2, 3, 4, 5, 6, 7, 8, 9, 10, 11, 12, 13, 14,
     15, 16, 17, 18, 19, 20, 21, 22, 23, 24, 25, 77, 77, 77, 77, 63,
     77, 26, 27, 28, 29, 30, 31, 32, 33, 34, 35, 36, 37, 38, 39, 40,
     41, 42, 43, 44, 45, 46, 47, 48, 49, 50, 51, 77, 77, 77, 77, 77,
     77, 77, 77, 77, 77, 77, 77, 77, 77, 77, 77, 77, 77, 77, 77, 77,
     77, 77, 77, 77, 77, 77, 77, 77, 77, 77, 77, 77, 77, 77, 77, 77,
     77, 77, 77, 77, 77, 77, 77, 77, 77, 77, 77, 77, 77, 77, 77, 77,
     77, 77, 77, 77, 77, 77, 77, 77, 77, 77, 77, 77, 77, 77, 77, 77,
     77, 77, 77, 77, 77, 77, 77, 77, 77, 77, 77, 77, 77, 77, 77, 77,
     77, 77, 77, 77, 77, 77, 77, 77, 77, 77, 77, 77, 77, 77, 77, 77,
     77, 77, 77, 77, 77, 77, 77, 77, 77, 77, 77, 77, 77, 77, 77, 77,
     77, 77, 77, 77, 77, 77, 77, 77, 77, 77, 77, 77, 77, 77, 77, 77]"

text \<open>The first loop: the characters before a \<open>=\<close>, or an error at a character outside the alphabet.\<close>

fun base64_scan :: "bytes \<Rightarrow> bytes \<Rightarrow> bytes option" where
  "base64_scan basis [] = Some []"
| "base64_scan basis (c # src) =
     (if c = c_eq then Some []
      else if basis ! unat c = 77 then None
      else map_option ((#) c) (base64_scan basis src))"

fun base64_decode_loop :: "bytes \<Rightarrow> bytes \<Rightarrow> bytes" where
  "base64_decode_loop basis (s0 # s1 # s2 # s3 # s) =
     [push_bit 2 (basis ! unat s0) OR drop_bit 4 (basis ! unat s1),
      push_bit 4 (basis ! unat s1) OR drop_bit 2 (basis ! unat s2),
      push_bit 6 (basis ! unat s2) OR basis ! unat s3] @ base64_decode_loop basis s"
| "base64_decode_loop basis [s0, s1, s2] =
     [push_bit 2 (basis ! unat s0) OR drop_bit 4 (basis ! unat s1),
      push_bit 4 (basis ! unat s1) OR drop_bit 2 (basis ! unat s2)]"
| "base64_decode_loop basis [s0, s1] =
     [push_bit 2 (basis ! unat s0) OR drop_bit 4 (basis ! unat s1)]"
| "base64_decode_loop basis [s0] = []"
| "base64_decode_loop basis [] = []"

definition ngx_decode_base64_internal :: "bytes \<Rightarrow> bytes \<Rightarrow> bytes option" where
  "ngx_decode_base64_internal basis src =
     (case base64_scan basis src of
        None \<Rightarrow> None
      | Some s \<Rightarrow> if length s mod 4 = 1 then None else Some (base64_decode_loop basis s))"

definition ngx_decode_base64 :: "bytes \<Rightarrow> bytes option" where
  "ngx_decode_base64 src = ngx_decode_base64_internal decode_table src"

definition ngx_decode_base64url :: "bytes \<Rightarrow> bytes option" where
  "ngx_decode_base64url src = ngx_decode_base64_internal decode_table_url src"

subsection \<open>Sextets\<close>

definition sextet1 :: "u_char \<Rightarrow> u_char" where
  "sextet1 a = drop_bit 2 a AND 0x3f"

definition sextet2 :: "u_char \<Rightarrow> u_char \<Rightarrow> u_char" where
  "sextet2 a b = push_bit 4 (a AND 3) OR drop_bit 4 b"

definition sextet3 :: "u_char \<Rightarrow> u_char \<Rightarrow> u_char" where
  "sextet3 b c = push_bit 2 (b AND 0x0f) OR drop_bit 6 c"

definition sextet4 :: "u_char \<Rightarrow> u_char" where
  "sextet4 c = c AND 0x3f"

lemmas sextet_defs = sextet1_def sextet2_def sextet3_def sextet4_def

lemma ngx_encode_base64_sextets:
  "ngx_encode_base64 (s0 # s1 # s2 # s) =
     map (\<lambda>x. basis64 ! unat x) [sextet1 s0, sextet2 s0 s1, sextet3 s1 s2, sextet4 s2] @ ngx_encode_base64 s"
  "ngx_encode_base64 [s0] = map (\<lambda>x. basis64 ! unat x) [sextet1 s0, sextet2 s0 0] @ [c_eq, c_eq]"
  "ngx_encode_base64 [s0, s1] =
     map (\<lambda>x. basis64 ! unat x) [sextet1 s0, sextet2 s0 s1, sextet3 s1 0] @ [c_eq]"
  by (simp_all add: sextet_defs)

lemma sextets_join:
  "push_bit 2 (sextet1 a) OR drop_bit 4 (sextet2 a b) = a"
  "push_bit 4 (sextet2 a b) OR drop_bit 2 (sextet3 b c) = b"
  "push_bit 6 (sextet3 b c) OR sextet4 c = c"
  by (simp_all add: u_char_eq_bits bit_simps sextet_defs)

lemma sextet_less:
  "unat (sextet1 a) < 64" "unat (sextet2 a b) < 64" "unat (sextet3 b c) < 64" "unat (sextet4 c) < 64"
proof -
  have *: "unat x < 64" if "x = take_bit 6 x" for x :: u_char
  proof -
    have "unat x = take_bit 6 (unat x)"
      by (subst that) (rule unsigned_take_bit_eq)
    then show ?thesis using take_bit_nat_less_exp [of 6 "unat x"] by simp
  qed
  show "unat (sextet1 a) < 64" by (rule *) (simp add: u_char_eq_bits bit_simps sextet_defs)
  show "unat (sextet2 a b) < 64" by (rule *) (simp add: u_char_eq_bits bit_simps sextet_defs)
  show "unat (sextet3 b c) < 64" by (rule *) (simp add: u_char_eq_bits bit_simps sextet_defs)
  show "unat (sextet4 c) < 64" by (rule *) (simp add: u_char_eq_bits bit_simps sextet_defs)
qed

subsection \<open>The interface of a decoding table\<close>

text \<open>
  A decoding table serves the encoder up to a renaming \<open>tr\<close> of its alphabet: it maps the renamed
  character of each sextet back to the sextet, and leaves the padding alone.
\<close>

locale base64_table =
  fixes basis :: bytes and tr :: "u_char \<Rightarrow> u_char"
  assumes table: "i < 64 \<Longrightarrow> basis ! unat (tr (basis64 ! i)) = of_nat i \<and> tr (basis64 ! i) \<noteq> c_eq"
    and pad: "tr c_eq = c_eq"
begin

lemma sextet: "unat x < 64 \<Longrightarrow> basis ! unat (tr (basis64 ! unat x)) = x \<and> tr (basis64 ! unat x) \<noteq> c_eq"
  for x :: u_char
  using table [of "unat x"] by simp

lemma sextet_ok: "unat x < 64 \<Longrightarrow> x \<noteq> 77" for x :: u_char
  by auto

definition stripped :: "bytes \<Rightarrow> bytes" where
  "stripped src = takeWhile (\<lambda>c. c \<noteq> c_eq) (map tr (ngx_encode_base64 src))"

lemmas encode_rules = ngx_encode_base64_sextets sextet sextet_ok sextet_less pad stripped_def

lemma scan: "base64_scan basis (map tr (ngx_encode_base64 src)) = Some (stripped src)"
  by (induction src rule: ngx_encode_base64.induct)
    (simp_all add: encode_rules del: ngx_encode_base64.simps(1-3))

lemma decode: "base64_decode_loop basis (stripped src) = src"
  by (induction src rule: ngx_encode_base64.induct)
    (simp_all add: encode_rules sextets_join del: ngx_encode_base64.simps(1-3))

lemma stripped_length: "length (stripped src) mod 4 \<noteq> 1"
  by (induction src rule: ngx_encode_base64.induct)
    (simp_all add: encode_rules del: ngx_encode_base64.simps(1-3))

lemma roundtrip: "ngx_decode_base64_internal basis (map tr (ngx_encode_base64 src)) = Some src"
  by (simp add: ngx_decode_base64_internal_def scan decode stripped_length [simplified])

end

lemma decode_table_check: "map (\<lambda>c. decode_table ! unat c) basis64 = map of_nat [0..<64]"
  by (simp add: decode_table_def basis64_def upt_rec)

lemma length_basis64: "length basis64 = 64"
  by (simp add: basis64_def)

lemma basis64_chars: "\<forall>c\<in>set basis64. c \<noteq> c_eq"
  by (simp add: basis64_def)

lemma map_nth_basis64:
  "map f basis64 = map g [0..<64] \<Longrightarrow> i < 64 \<Longrightarrow> f (basis64 ! i) = g i"
  using length_basis64 by (metis add_0 diff_zero length_upt nth_map nth_upt)

interpretation base64_std: base64_table decode_table id
  using map_nth_basis64 [OF decode_table_check] basis64_chars
  by unfold_locales (simp_all add: length_basis64)

text \<open>The URL-safe alphabet replaces \<open>+\<close> by \<open>-\<close> and \<open>/\<close> by \<open>_\<close>.\<close>

definition url_char :: "u_char \<Rightarrow> u_char" where
  "url_char c = (if c = c_plus then c_minus else if c = c_slash then c_underscore else c)"

lemma decode_table_url_check:
  "map (\<lambda>c. decode_table_url ! unat (url_char c)) basis64 = map of_nat [0..<64]"
  by (simp add: decode_table_url_def basis64_def url_char_def upt_rec)

interpretation base64_url: base64_table decode_table_url url_char
  using map_nth_basis64 [OF decode_table_url_check] basis64_chars
  by unfold_locales (simp_all add: length_basis64 url_char_def)

subsection \<open>Properties\<close>

text \<open>
  C26: decoding what \<open>ngx_encode_base64\<close> wrote returns the source bytes, for every byte string;
  with the two characters of the URL-safe alphabet exchanged, so does \<open>ngx_decode_base64url\<close>.
\<close>

theorem base64_roundtrip:
  "ngx_decode_base64 (ngx_encode_base64 src) = Some src \<and>
   ngx_decode_base64url (map url_char (ngx_encode_base64 src)) = Some src"
  using base64_std.roundtrip [of src] base64_url.roundtrip [of src]
  by (simp add: ngx_decode_base64_def ngx_decode_base64url_def)

lemma base64_decode_loop_length: "length (base64_decode_loop basis s) \<le> (length s + 3) div 4 * 3"
proof (induction basis s rule: base64_decode_loop.induct)
  case (1 basis s0 s1 s2 s3 s)
  have "(length s + 3 + 4) div 4 = (length s + 3) div 4 + 1" by simp
  with 1 show ?case by (simp add: add.commute)
qed simp_all

lemma base64_scan_length: "base64_scan basis src = Some s \<Longrightarrow> length s \<le> length src"
  by (induction src arbitrary: s) (auto split: if_splits)

lemma base64_encode_length: "length (ngx_encode_base64 src) = (length src + 2) div 3 * 4"
proof (induction src rule: ngx_encode_base64.induct)
  case (1 s0 s1 s2 s)
  have "(length s + 2 + 3) div 3 = (length s + 2) div 3 + 1" by simp
  with 1 show ?case by (simp add: add.commute)
qed simp_all

text \<open>
  The macros that size the destination buffers are right: an encoding has exactly
  \<open>ngx_base64_encoded_length\<close> bytes, and a successful decoding of any text, well-formed or not,
  writes at most \<open>ngx_base64_decoded_length\<close> bytes.
\<close>

theorem base64_buffers_suffice:
  "length (ngx_encode_base64 src) = ngx_base64_encoded_length (length src) \<and>
   (case ngx_decode_base64 txt of None \<Rightarrow> True
    | Some out \<Rightarrow> length out \<le> ngx_base64_decoded_length (length txt))"
proof
  show "length (ngx_encode_base64 src) = ngx_base64_encoded_length (length src)"
    by (simp add: base64_encode_length ngx_base64_encoded_length_def)
  have "length (base64_decode_loop decode_table s) \<le> (length txt + 3) div 4 * 3"
    if "base64_scan decode_table txt = Some s" for s
  proof -
    have "(length s + 3) div 4 * 3 \<le> (length txt + 3) div 4 * 3"
      using base64_scan_length [OF that] by (intro mult_le_mono1 div_le_mono) simp
    with base64_decode_loop_length show ?thesis by (rule order_trans)
  qed
  then show "case ngx_decode_base64 txt of None \<Rightarrow> True
    | Some out \<Rightarrow> length out \<le> ngx_base64_decoded_length (length txt)"
    by (auto simp: ngx_decode_base64_def ngx_decode_base64_internal_def ngx_base64_decoded_length_def
        split: option.splits if_splits)
qed

end
