(* ===== verification/Ngx_Bitmap.thy ===== *)
theory Ngx_Bitmap
  imports Ngx_Prelude
begin

text \<open>
  Tests of a byte in a bitmap of eight 32-bit words, the idiom \<open>map[ch >> 5] & (1 << (ch & 0x1f))\<close>
  of the escaping tables and of the request parser, with what is needed to read off the bytes a
  bitmap contains.
\<close>

text \<open>\<open>escape[*src >> 5] & (1 << (*src & 0x1f))\<close>\<close>

definition bitmap_test :: "uint32_t list \<Rightarrow> u_char \<Rightarrow> bool" where
  "bitmap_test escape c \<longleftrightarrow>
     (escape ! unat (drop_bit 5 c)) AND push_bit (unat (c AND 0x1f)) 1 \<noteq> 0"

text \<open>The members of a bitmap word.\<close>

definition members :: "uint32_t \<Rightarrow> nat list" where
  "members w = filter (bit w) [0..<32]"

lemma bit_members: "m < 32 \<Longrightarrow> bit w m \<longleftrightarrow> m \<in> set (members w)"
  by (simp add: members_def)

lemma bitmap_test_bit: "bitmap_test escape c \<longleftrightarrow> bit (escape ! (unat c div 32)) (unat c mod 32)"
proof -
  have "c AND 0x1f = take_bit 5 c"
    by (simp add: take_bit_eq_mask mask_eq_exp_minus_1)
  then have m: "unat (c AND 0x1f) = unat c mod 32"
    by (simp only: unsigned_take_bit_eq) (simp add: take_bit_eq_mod)
  have d: "unat (drop_bit 5 c) = unat c div 32"
    by (simp only: unat_drop_bit_eq) (simp add: drop_bit_eq_div)
  show ?thesis
    unfolding bitmap_test_def m d bit_iff_and_push_bit_not_eq_0 by (simp add: push_bit_eq_mult)
qed

lemma bitmap_test_members:
  "bitmap_test escape c \<longleftrightarrow> unat c mod 32 \<in> set (members (escape ! (unat c div 32)))"
  unfolding bitmap_test_bit by (rule bit_members) simp

lemma byte_rows:
  fixes c :: u_char
  obtains k m where "unat c = 32 * k + m" "m < 32" "k \<in> {0, 1, 2, 3, 4, 5, 6, 7}"
proof
  show "unat c = 32 * (unat c div 32) + unat c mod 32" "unat c mod 32 < 32" by simp_all
  have "unat c div 32 < 8" using unat_u_char_less [of c] by linarith
  then show "unat c div 32 \<in> {0, 1, 2, 3, 4, 5, 6, 7}" by auto
qed


lemma row_cases:
  fixes c :: u_char
  assumes "\<And>m. unat c = m \<Longrightarrow> m < 32 \<Longrightarrow> P" "\<And>m. unat c = 32 + m \<Longrightarrow> m < 32 \<Longrightarrow> P"
    "\<And>m. unat c = 64 + m \<Longrightarrow> m < 32 \<Longrightarrow> P" "\<And>m. unat c = 96 + m \<Longrightarrow> m < 32 \<Longrightarrow> P"
    "\<And>k m. unat c = 32 * k + m \<Longrightarrow> m < 32 \<Longrightarrow> k \<in> {4, 5, 6, 7} \<Longrightarrow> P"
  shows P
proof (rule byte_rows [of c])
  fix k m assume c: "unat c = 32 * k + m" "m < 32" and "k \<in> {0, 1, 2, 3, 4, 5, 6, 7}"
  then consider "k = 0" | "k = 1" | "k = 2" | "k = 3" | "k \<in> {4, 5, 6, 7}" by auto
  then show P by cases (use c assms in auto)
qed

lemma bitmap_row:
  assumes "unat c = 32 * k + m" "m < 32"
  shows "bitmap_test escape c \<longleftrightarrow> m \<in> set (members (escape ! k))"
  using assms by (simp add: bitmap_test_members)

end
