(* ===== verification/Ngx_Escape.thy ===== *)
theory Ngx_Escape
  imports Ngx_Number Ngx_Bitmap
begin

text \<open>
  Escaping of \<open>core/ngx_string.c\<close>: \<open>ngx_escape_uri\<close> with its bitmaps, \<open>ngx_unescape_uri\<close> and
  \<open>ngx_escape_html\<close>.

  The two escaping functions are called twice by their users: with a null destination they
  return how many bytes grow, so that the caller can allocate, and with a destination they
  write.  The model has one definition for each mode; the interface \<open>byte_escaper\<close> states the
  contract between the two, and both functions are instances of it.
\<close>

subsection \<open>The escape bitmaps\<close>

definition esc_uri :: "uint32_t list" where
  "esc_uri = [0xffffffff, 0x80000029, 0x00000000, 0x80000000,
    0xffffffff, 0xffffffff, 0xffffffff, 0xffffffff]"

definition esc_args :: "uint32_t list" where
  "esc_args = [0xffffffff, 0x88000869, 0x00000000, 0x80000000,
    0xffffffff, 0xffffffff, 0xffffffff, 0xffffffff]"

definition esc_uri_component :: "uint32_t list" where
  "esc_uri_component = [0xffffffff, 0xfc009fff, 0x78000001, 0xb8000001,
    0xffffffff, 0xffffffff, 0xffffffff, 0xffffffff]"

definition esc_html :: "uint32_t list" where
  "esc_html = [0xffffffff, 0x000000ad, 0x00000000, 0x80000000,
    0xffffffff, 0xffffffff, 0xffffffff, 0xffffffff]"

definition esc_refresh :: "uint32_t list" where
  "esc_refresh = [0xffffffff, 0x00000085, 0x00000000, 0x80000000,
    0xffffffff, 0xffffffff, 0xffffffff, 0xffffffff]"

definition esc_memcached :: "uint32_t list" where
  "esc_memcached = [0xffffffff, 0x00000021, 0x00000000, 0x00000000,
    0x00000000, 0x00000000, 0x00000000, 0x00000000]"

definition escape_map :: "uint32_t list list" where
  "escape_map = [esc_uri, esc_args, esc_uri_component, esc_html, esc_refresh, esc_memcached, esc_memcached]"

abbreviation NGX_ESCAPE_URI :: nat where "NGX_ESCAPE_URI \<equiv> 0"
abbreviation NGX_ESCAPE_ARGS :: nat where "NGX_ESCAPE_ARGS \<equiv> 1"
abbreviation NGX_ESCAPE_URI_COMPONENT :: nat where "NGX_ESCAPE_URI_COMPONENT \<equiv> 2"
abbreviation NGX_ESCAPE_HTML :: nat where "NGX_ESCAPE_HTML \<equiv> 3"
abbreviation NGX_ESCAPE_REFRESH :: nat where "NGX_ESCAPE_REFRESH \<equiv> 4"
abbreviation NGX_ESCAPE_MEMCACHED :: nat where "NGX_ESCAPE_MEMCACHED \<equiv> 5"
abbreviation NGX_ESCAPE_MAIL_AUTH :: nat where "NGX_ESCAPE_MAIL_AUTH \<equiv> 6"

subsection \<open>\<open>ngx_escape_uri\<close>\<close>

fun escape_uri_count :: "uint32_t list \<Rightarrow> bytes \<Rightarrow> nat" where
  "escape_uri_count escape [] = 0"
| "escape_uri_count escape (c # src) =
     (if bitmap_test escape c then Suc (escape_uri_count escape src) else escape_uri_count escape src)"

definition ngx_escape_uri_count :: "bytes \<Rightarrow> nat \<Rightarrow> nat" where
  "ngx_escape_uri_count src type = escape_uri_count (escape_map ! type) src"

fun escape_uri_loop :: "uint32_t list \<Rightarrow> bytes \<Rightarrow> bytes" where
  "escape_uri_loop escape [] = []"
| "escape_uri_loop escape (c # src) =
     (if bitmap_test escape c
      then c_percent # hex ! unat (drop_bit 4 c) # hex ! unat (c AND 0xf) # escape_uri_loop escape src
      else c # escape_uri_loop escape src)"

definition ngx_escape_uri :: "bytes \<Rightarrow> nat \<Rightarrow> bytes" where
  "ngx_escape_uri src type = escape_uri_loop (escape_map ! type) src"

subsection \<open>\<open>ngx_escape_html\<close>\<close>

definition html_entity :: "u_char \<Rightarrow> bytes" where
  "html_entity ch =
     (if ch = c_lt then bs ''&lt;''
      else if ch = c_gt then bs ''&gt;''
      else if ch = c_amp then bs ''&amp;''
      else if ch = c_quot then bs ''&quot;''
      else [ch])"

text \<open>The counting pass adds \<open>sizeof("&lt;") - 2\<close>, the literal's terminator and the character replaced.\<close>

fun ngx_escape_html_count :: "bytes \<Rightarrow> nat" where
  "ngx_escape_html_count [] = 0"
| "ngx_escape_html_count (ch # src) =
     (if ch = c_lt then (5 - 2) + ngx_escape_html_count src
      else if ch = c_gt then (5 - 2) + ngx_escape_html_count src
      else if ch = c_amp then (6 - 2) + ngx_escape_html_count src
      else if ch = c_quot then (7 - 2) + ngx_escape_html_count src
      else ngx_escape_html_count src)"

fun ngx_escape_html :: "bytes \<Rightarrow> bytes" where
  "ngx_escape_html [] = []"
| "ngx_escape_html (ch # src) = html_entity ch @ ngx_escape_html src"

subsection \<open>\<open>ngx_unescape_uri\<close>\<close>

abbreviation NGX_UNESCAPE_URI :: uint64_t where "NGX_UNESCAPE_URI \<equiv> 1"
abbreviation NGX_UNESCAPE_REDIRECT :: uint64_t where "NGX_UNESCAPE_REDIRECT \<equiv> 2"

datatype unescape_state = un_usual | un_quoted | un_quoted_second

text \<open>
  One pass of the loop body: the new state and \<open>decoded\<close>, the bytes written, and whether the body
  jumps to \<open>done\<close>.  \<open>prev\<close> is \<open>*(s - 2)\<close>, the byte before the current one.
\<close>

definition unescape_step ::
  "uint64_t \<Rightarrow> unescape_state \<Rightarrow> u_char \<Rightarrow> u_char \<Rightarrow> u_char \<Rightarrow> unescape_state \<times> u_char \<times> bytes \<times> bool" where
  "unescape_step type state decoded prev ch =
     (case state of
        un_usual \<Rightarrow>
          if ch = c_quest \<and> type AND (NGX_UNESCAPE_URI OR NGX_UNESCAPE_REDIRECT) \<noteq> 0
          then (un_usual, decoded, [ch], True)
          else if ch = c_percent then (un_quoted, decoded, [], False)
          else (un_usual, decoded, [ch], False)
      | un_quoted \<Rightarrow>
          if ch \<ge> c_0 \<and> ch \<le> c_9 then (un_quoted_second, ch - c_0, [], False)
          else let c = ch OR 0x20 in
            if c \<ge> c_a \<and> c \<le> c_f then (un_quoted_second, c - c_a + 10, [], False)
            else (un_usual, decoded, [ch], False)
      | un_quoted_second \<Rightarrow>
          if ch \<ge> c_0 \<and> ch \<le> c_9 then
            let ch' = push_bit 4 decoded + ch - c_0 in
            if type AND NGX_UNESCAPE_REDIRECT \<noteq> 0 then
              if ch' > c_percent \<and> ch' < 0x7f then (un_usual, decoded, [ch'], False)
              else (un_usual, decoded, [c_percent, prev, ch], False)
            else (un_usual, decoded, [ch'], False)
          else let c = ch OR 0x20 in
            if c \<ge> c_a \<and> c \<le> c_f then
              let ch' = push_bit 4 decoded + c - c_a + 10 in
              if type AND NGX_UNESCAPE_URI \<noteq> 0 then
                if ch' = c_quest then (un_usual, decoded, [ch'], True)
                else (un_usual, decoded, [ch'], False)
              else if type AND NGX_UNESCAPE_REDIRECT \<noteq> 0 then
                if ch' = c_quest then (un_usual, decoded, [ch'], True)
                else if ch' > c_percent \<and> ch' < 0x7f then (un_usual, decoded, [ch'], False)
                else (un_usual, decoded, [c_percent, prev, ch], False)
              else (un_usual, decoded, [ch'], False)
            else (un_usual, decoded, [], False))"

text \<open>The loop: the bytes written and the rest of the source (\<open>*dst\<close> and \<open>*src\<close> on return).\<close>

fun unescape_loop ::
  "uint64_t \<Rightarrow> unescape_state \<Rightarrow> u_char \<Rightarrow> u_char \<Rightarrow> bytes \<Rightarrow> bytes \<times> bytes" where
  "unescape_loop type state decoded prev [] = ([], [])"
| "unescape_loop type state decoded prev (ch # s) =
     (case unescape_step type state decoded prev ch of
        (state', decoded', written, finished) \<Rightarrow>
          if finished then (written, s)
          else case unescape_loop type state' decoded' ch s of (d, s') \<Rightarrow> (written @ d, s'))"

definition ngx_unescape_uri :: "bytes \<Rightarrow> uint64_t \<Rightarrow> bytes \<times> bytes" where
  "ngx_unescape_uri src type = unescape_loop type un_usual 0 0 src"

subsection \<open>The contract of the two modes\<close>

text \<open>
  An escaper replaces each byte by a non-empty text; its counting mode returns the growth,
  measured in units of \<open>unit\<close> bytes.
\<close>

locale byte_escaper =
  fixes enc :: "u_char \<Rightarrow> bytes" and out :: "bytes \<Rightarrow> bytes" and growth :: "bytes \<Rightarrow> nat" and unit :: nat
  assumes out_Nil: "out [] = []"
    and out_Cons: "out (c # s) = enc c @ out s"
    and growth_Nil: "growth [] = 0"
    and growth_Cons: "length (enc c) + unit * growth s = 1 + unit * growth (c # s)"
begin

lemma out_concat: "out s = concat (map enc s)"
  by (induction s) (simp_all add: out_Nil out_Cons)

lemma out_append: "out (s @ t) = out s @ out t"
  by (simp add: out_concat)

text \<open>The buffer a caller allocates from the counting mode is filled exactly.\<close>

lemma exact_length: "length (out s) = length s + unit * growth s"
proof (induction s)
  case (Cons c s)
  then show ?case using growth_Cons [of c s] by (simp add: out_Cons)
qed (simp add: out_Nil growth_Nil)

lemma in_out: "b \<in> set (out s) \<longleftrightarrow> (\<exists>c\<in>set s. b \<in> set (enc c))"
  by (simp add: out_concat)

end

definition percent_encode :: "uint32_t list \<Rightarrow> u_char \<Rightarrow> bytes" where
  "percent_encode escape c =
     (if bitmap_test escape c then [c_percent, hex ! unat (drop_bit 4 c), hex ! unat (c AND 0xf)] else [c])"

interpretation uri: byte_escaper "percent_encode (escape_map ! type)"
  "\<lambda>src. ngx_escape_uri src type" "\<lambda>src. ngx_escape_uri_count src type" 2 for type
  by unfold_locales (simp_all add: percent_encode_def ngx_escape_uri_def ngx_escape_uri_count_def)

interpretation html: byte_escaper html_entity ngx_escape_html ngx_escape_html_count 1
  by unfold_locales (simp_all add: html_entity_def)

subsection \<open>What the bitmaps contain\<close>

text \<open>The sets named in the comments above the bitmaps.\<close>

definition documented :: "nat \<Rightarrow> u_char \<Rightarrow> bool" where
  "documented type c \<longleftrightarrow>
     (if type = NGX_ESCAPE_URI then
        c \<in> {c_space, c_hash, c_percent, c_quest} \<or> c \<le> 0x1f \<or> 0x7f \<le> c
      else if type = NGX_ESCAPE_ARGS then
        c \<in> {c_space, c_hash, c_percent, c_amp, c_plus, c_quest} \<or> c \<le> 0x1f \<or> 0x7f \<le> c
      else if type = NGX_ESCAPE_URI_COMPONENT then
        \<not> (c_a \<le> c \<and> c \<le> c_z \<or> c_A \<le> c \<and> c \<le> c_Z \<or> is_digit c \<or>
           c \<in> {c_minus, c_dot, c_underscore, c_tilde})
      else if type = NGX_ESCAPE_HTML then
        c \<in> {c_space, c_hash, c_quot, c_percent, c_apos} \<or> c \<le> 0x1f \<or> 0x7f \<le> c
      else if type = NGX_ESCAPE_REFRESH then
        c \<in> {c_space, c_quot, c_percent, c_apos} \<or> c \<le> 0x1f \<or> 0x7f \<le> c
      else c \<in> {c_space, c_percent} \<or> c \<le> 0x1f)"

text \<open>The two places where a bitmap and its comment differ.\<close>

definition undocumented :: "nat \<Rightarrow> u_char \<Rightarrow> bool" where
  "undocumented type c \<longleftrightarrow>
     (type = NGX_ESCAPE_ARGS \<and> c = c_semi) \<or> (type = NGX_ESCAPE_REFRESH \<and> c = c_percent)"


lemma members_values:
  "members 0xffffffff = [0..<32]" "members 0 = []"
  "members 0x80000029 = [0, 3, 5, 31]" "members 0x80000000 = [31]"
  "members 0x88000869 = [0, 3, 5, 6, 11, 27, 31]"
  "members 0xfc009fff = [0, 1, 2, 3, 4, 5, 6, 7, 8, 9, 10, 11, 12, 15, 26, 27, 28, 29, 30, 31]"
  "members 0x78000001 = [0, 27, 28, 29, 30]" "members 0xb8000001 = [0, 27, 28, 29, 31]"
  "members 0x000000ad = [0, 2, 3, 5, 7]" "members 0x00000085 = [0, 2, 7]" "members 0x00000021 = [0, 5]"
  by code_simp+

lemmas bitmap_words = esc_uri_def esc_args_def esc_uri_component_def esc_html_def
  esc_refresh_def esc_memcached_def

lemma bitmap_uri: "bitmap_test esc_uri c \<longleftrightarrow> unat c \<in> {32, 35, 37, 63} \<or> unat c \<le> 31 \<or> 127 \<le> unat c"
  by (cases c rule: row_cases) (auto simp: bitmap_row [of _ 0] bitmap_row [of _ 1] bitmap_row [of _ 2] bitmap_row [of _ 3] bitmap_row bitmap_words members_values)

lemma bitmap_args: "bitmap_test esc_args c \<longleftrightarrow> unat c \<in> {32, 35, 37, 38, 43, 59, 63} \<or> unat c \<le> 31 \<or> 127 \<le> unat c"
  by (cases c rule: row_cases) (auto simp: bitmap_row [of _ 0] bitmap_row [of _ 1] bitmap_row [of _ 2] bitmap_row [of _ 3] bitmap_row bitmap_words members_values)

lemma component_rows:
  assumes "m < 32"
  shows "m \<in> set (members 0xfc009fff) \<longleftrightarrow> \<not> (m = 13 \<or> m = 14 \<or> 16 \<le> m \<and> m \<le> 25)"
    and "m \<in> set (members 0x78000001) \<longleftrightarrow> m = 0 \<or> 27 \<le> m \<and> m \<le> 30"
    and "m \<in> set (members 0xb8000001) \<longleftrightarrow> m = 0 \<or> 27 \<le> m \<and> m \<noteq> 30"
proof -
  show "m \<in> set (members 0xfc009fff) \<longleftrightarrow> \<not> (m = 13 \<or> m = 14 \<or> 16 \<le> m \<and> m \<le> 25)"
    using assms unfolding members_values by simp presburger
qed (use assms in \<open>auto simp: members_values\<close>)

lemma bitmap_uri_component: "bitmap_test esc_uri_component c \<longleftrightarrow>
  \<not> (97 \<le> unat c \<and> unat c \<le> 122 \<or> 65 \<le> unat c \<and> unat c \<le> 90 \<or> 48 \<le> unat c \<and> unat c \<le> 57 \<or>
     unat c \<in> {45, 46, 95, 126})"
proof (cases c rule: row_cases)
  case (2 m)
  then show ?thesis
    by (simp add: bitmap_row [of _ 1 m] bitmap_words component_rows) linarith
next
  case (3 m)
  then show ?thesis
    by (simp add: bitmap_row [of _ 2 m] bitmap_words component_rows) linarith
next
  case (4 m)
  then show ?thesis
    by (simp add: bitmap_row [of _ 3 m] bitmap_words component_rows) linarith
qed (auto simp: bitmap_row [of _ 0] bitmap_row bitmap_words members_values)

lemma bitmap_html: "bitmap_test esc_html c \<longleftrightarrow> unat c \<in> {32, 34, 35, 37, 39} \<or> unat c \<le> 31 \<or> 127 \<le> unat c"
  by (cases c rule: row_cases) (auto simp: bitmap_row [of _ 0] bitmap_row [of _ 1] bitmap_row [of _ 2] bitmap_row [of _ 3] bitmap_row bitmap_words members_values)

lemma bitmap_refresh: "bitmap_test esc_refresh c \<longleftrightarrow> unat c \<in> {32, 34, 39} \<or> unat c \<le> 31 \<or> 127 \<le> unat c"
  by (cases c rule: row_cases) (auto simp: bitmap_row [of _ 0] bitmap_row [of _ 1] bitmap_row [of _ 2] bitmap_row [of _ 3] bitmap_row bitmap_words members_values)

lemma bitmap_memcached: "bitmap_test esc_memcached c \<longleftrightarrow> unat c \<in> {32, 37} \<or> unat c \<le> 31"
  by (cases c rule: row_cases) (auto simp: bitmap_row [of _ 0] bitmap_row [of _ 1] bitmap_row [of _ 2] bitmap_row [of _ 3] bitmap_row bitmap_words members_values)

lemma bitmap_iff:
  assumes "type < 7"
  shows "bitmap_test (escape_map ! type) c \<longleftrightarrow> documented type c \<noteq> undocumented type c"
proof -
  have "type \<in> {0, 1, 2, 3, 4, 5, 6}" using assms by auto
  then show ?thesis
    by (elim insertE emptyE)
      (auto simp: escape_map_def bitmap_uri bitmap_args bitmap_uri_component bitmap_html bitmap_refresh
        bitmap_memcached documented_def undocumented_def is_digit_def word_unat_eq_iff word_le_nat_alt)
qed


lemma bitmap_percent:
  assumes "type < 7" "type \<noteq> NGX_ESCAPE_REFRESH"
  shows "bitmap_test (escape_map ! type) c_percent"
  using assms by (auto simp: bitmap_iff documented_def undocumented_def is_digit_def)

subsection \<open>Decoding a percent sequence\<close>

lemma upt_allD: "list_all P [a..<b] \<Longrightarrow> a \<le> d \<Longrightarrow> d < b \<Longrightarrow> P d"
  by (simp add: list_all_iff)

lemma hex_low:
  assumes "d < 10"
  shows "c_0 \<le> hex ! d" "hex ! d \<le> c_9" "hex ! d - c_0 = of_nat d"
proof -
  have "list_all (\<lambda>d. c_0 \<le> hex ! d \<and> hex ! d \<le> c_9 \<and> hex ! d - c_0 = of_nat d) [0..<10]" by code_simp
  then show "c_0 \<le> hex ! d" "hex ! d \<le> c_9" "hex ! d - c_0 = of_nat d"
    using assms by (simp_all only: list_all_iff) simp_all
qed

lemma hex_high:
  assumes "10 \<le> d" "d < 16"
  shows "\<not> hex ! d \<le> c_9" "hex ! d OR 0x20 = hex ! d" "c_a \<le> hex ! d" "hex ! d \<le> c_f"
    "hex ! d - c_a + 10 = of_nat d"
proof -
  have *: "list_all (\<lambda>d. \<not> hex ! d \<le> c_9 \<and> hex ! d OR 0x20 = hex ! d \<and> c_a \<le> hex ! d \<and> hex ! d \<le> c_f \<and>
    hex ! d - c_a + 10 = of_nat d) [10..<16]" by code_simp
  then show "\<not> hex ! d \<le> c_9" "hex ! d OR 0x20 = hex ! d" "c_a \<le> hex ! d" "hex ! d \<le> c_f"
    "hex ! d - c_a + 10 = of_nat d"
    using upt_allD [OF * assms] by simp_all
qed

lemma unescape_first:
  assumes "d < 16"
  shows "unescape_step type un_quoted dec prev (hex ! d) = (un_quoted_second, of_nat d, [], False)"
proof (cases "d < 10")
  case True
  then show ?thesis using hex_low [of d] by (simp add: unescape_step_def)
next
  case False
  then show ?thesis using assms hex_high [of d] by (simp add: unescape_step_def Let_def)
qed

lemma unescape_second:
  assumes "d < 16" "type AND NGX_UNESCAPE_REDIRECT = 0"
  shows "unescape_step type un_quoted_second w prev (hex ! d) =
    (un_usual, w, [push_bit 4 w + of_nat d],
     type AND NGX_UNESCAPE_URI \<noteq> 0 \<and> push_bit 4 w + of_nat d = c_quest \<and> 10 \<le> d)"
proof (cases "d < 10")
  case True
  have "push_bit 4 w + hex ! d - c_0 = push_bit 4 w + (hex ! d - c_0)" by simp
  then show ?thesis using True assms hex_low [of d] by (simp add: unescape_step_def Let_def)
next
  case False
  have "hex ! d = of_nat d + 87" using False assms hex_high(5) [of d] by (simp add: algebra_simps)
  then show ?thesis using False assms hex_high(1-4) [of d]
    by (auto simp: unescape_step_def Let_def)
qed

lemma byte_of_nibbles: "push_bit 4 (of_nat (unat c div 16)) + of_nat (unat c mod 16) = (c :: u_char)"
proof -
  have "push_bit 4 (of_nat (unat c div 16)) + of_nat (unat c mod 16) =
      (of_nat (16 * (unat c div 16)) + of_nat (unat c mod 16) :: u_char)"
    by (simp add: push_bit_eq_mult mult.commute)
  also have "\<dots> = of_nat (16 * (unat c div 16) + unat c mod 16)" by (simp only: of_nat_add)
  also have "\<dots> = c" by (simp only: mult_div_mod_eq) simp
  finally show ?thesis .
qed

lemma last_nibble_quest: "unat c_quest mod 16 = 15"
  by simp

text \<open>In the usual state neither \<open>decoded\<close> nor the byte before matters.\<close>

lemma unescape_usual: "unescape_loop type un_usual d p s = unescape_loop type un_usual 0 0 s"
  and unescape_quoted: "unescape_loop type un_quoted d p s = unescape_loop type un_quoted 0 0 s"
proof (induction s arbitrary: d p)
  case (Cons c s)
  { case 1
    show ?case
      by (simp add: unescape_step_def Cons.IH(1) [of d c] Cons.IH(1) [of 0 c] Cons.IH(2) [of d c_percent] Cons.IH(2) [of 0 c_percent])
  next
    case 2
    show ?case by (simp add: unescape_step_def Let_def Cons.IH(1) [of d c] Cons.IH(1) [of 0 c]) }
qed simp_all

lemma nibbles_less: "unat (c :: u_char) div 16 < 16" "unat c mod 16 < 16"
  using unat_u_char_less [of c] by auto

text \<open>A percent sequence decodes to its byte and, under \<open>NGX_UNESCAPE_URI\<close>, ends the loop when it is a question mark.\<close>

lemma unescape_percent:
  assumes "type AND NGX_UNESCAPE_REDIRECT = 0"
  shows "unescape_loop type un_usual d p (c_percent # hex ! unat (drop_bit 4 c) # hex ! unat (c AND 0xf) # s) =
    (if c = c_quest \<and> type AND NGX_UNESCAPE_URI \<noteq> 0 then ([c], s)
     else map_prod ((#) c) id (unescape_loop type un_usual 0 0 s))"
proof -
  have q: "c = c_quest \<Longrightarrow> 10 \<le> unat c mod 16" by simp
  have "c_percent \<noteq> c_quest" by simp
  then show ?thesis
    using nibbles_less [of c] q
    by (simp add: unescape_step_def [of _ un_usual] unescape_first unescape_second assms unat_drop_4 unat_and_15
        byte_of_nibbles unescape_usual [of _ "of_nat _"] split: prod.split)
qed

lemma percent_encode_not_percent:
  assumes "type < 7" "type \<noteq> NGX_ESCAPE_REFRESH" "\<not> bitmap_test (escape_map ! type) c"
  shows "c \<noteq> c_percent"
  using assms bitmap_percent by blast

lemma and_three: "(type :: uint64_t) AND 3 = (type AND NGX_UNESCAPE_URI) OR (type AND NGX_UNESCAPE_REDIRECT)"
proof -
  have "(3 :: uint64_t) = NGX_UNESCAPE_URI OR NGX_UNESCAPE_REDIRECT" by simp
  then show ?thesis by (metis bit.conj_disj_distrib)
qed

lemma unescape_encoded:
  assumes "etype < 7" "etype \<noteq> NGX_ESCAPE_REFRESH" "type AND NGX_UNESCAPE_REDIRECT = 0"
  shows "unescape_loop type un_usual d p (percent_encode (escape_map ! etype) c @ s) =
    (if c = c_quest \<and> type AND NGX_UNESCAPE_URI \<noteq> 0 then ([c], s)
     else map_prod ((#) c) id (unescape_loop type un_usual 0 0 s))"
proof (cases "bitmap_test (escape_map ! etype) c")
  case True
  then show ?thesis using unescape_percent [OF assms(3)] by (simp add: percent_encode_def)
next
  case False
  have t: "type AND 3 \<noteq> 0 \<longleftrightarrow> type AND NGX_UNESCAPE_URI \<noteq> 0"
    using assms(3) by (simp add: and_three)
  show ?thesis using False percent_encode_not_percent [OF assms(1,2) False]
    by (simp add: percent_encode_def unescape_step_def t unescape_usual [of _ d] split: prod.split)
qed


lemma unescape_escape:
  assumes "etype < 7" "etype \<noteq> NGX_ESCAPE_REFRESH" "type AND NGX_UNESCAPE_REDIRECT = 0"
    "type AND NGX_UNESCAPE_URI \<noteq> 0 \<longrightarrow> c_quest \<notin> set s"
  shows "unescape_loop type un_usual d p (ngx_escape_uri s etype @ t) =
    (case unescape_loop type un_usual 0 0 t of (u, r) \<Rightarrow> (s @ u, r))"
  using assms(4)
proof (induction s arbitrary: d p)
  case Nil
  then show ?case by (simp add: uri.out_Nil unescape_usual [of _ d])
next
  case (Cons c s)
  then show ?case
    by (auto simp: uri.out_Cons unescape_encoded [OF assms(1-3)] split: prod.split)
qed

text \<open>
  C27: un-escaping what \<open>ngx_escape_uri\<close> wrote gives the original bytes back and consumes
  everything, for every escape type but \<open>NGX_ESCAPE_REFRESH\<close>; with the type
  \<open>NGX_UNESCAPE_URI\<close> the decoder stops right behind the first question mark and leaves the
  escaped rest untouched, whether the escaper had escaped that question mark or not.
\<close>

theorem escape_uri_roundtrip:
  assumes "etype < 7" "etype \<noteq> NGX_ESCAPE_REFRESH"
  shows "ngx_unescape_uri (ngx_escape_uri s etype) 0 = (s, []) \<and>
    (c_quest \<notin> set s \<longrightarrow>
      ngx_unescape_uri (ngx_escape_uri s etype) NGX_UNESCAPE_URI = (s, []) \<and>
      ngx_unescape_uri (ngx_escape_uri (s @ c_quest # t) etype) NGX_UNESCAPE_URI =
        (s @ [c_quest], ngx_escape_uri t etype))"
  using unescape_escape [OF assms, of 0 s 0 0 "[]"] unescape_escape [OF assms, of NGX_UNESCAPE_URI s 0 0]
    unescape_encoded [OF assms, of NGX_UNESCAPE_URI]
  by (auto simp: ngx_unescape_uri_def uri.out_append uri.out_Cons dest: spec [of _ "[]"]
      intro: trans [OF _ unescape_escape [OF assms, of NGX_UNESCAPE_URI s 0 0 "[]", simplified]])

theorem escape_uri_roundtrip_witness:
  "ngx_unescape_uri (ngx_escape_uri (bs ''/a b%'') NGX_ESCAPE_URI) 0 = (bs ''/a b%'', []) \<and>
   ngx_unescape_uri (ngx_escape_uri (bs ''/a b%'') NGX_ESCAPE_URI) NGX_UNESCAPE_URI = (bs ''/a b%'', []) \<and>
   ngx_unescape_uri (ngx_escape_uri (bs ''/a b%'' @ c_quest # bs ''x y'') NGX_ESCAPE_ARGS) NGX_UNESCAPE_URI =
     (bs ''/a b%'' @ [c_quest], ngx_escape_uri (bs ''x y'') NGX_ESCAPE_ARGS)"
  using escape_uri_roundtrip [of NGX_ESCAPE_URI "bs ''/a b%''"]
    escape_uri_roundtrip [of NGX_ESCAPE_ARGS "bs ''/a b%''" "bs ''x y''"]
  by (simp add: bs_simps)

text \<open>
  The bytes each escape type replaces are the ones listed in the comment above its bitmap,
  with two differences: \<open>NGX_ESCAPE_ARGS\<close> also replaces the semicolon, and
  \<open>NGX_ESCAPE_REFRESH\<close> does not replace the percent sign.
\<close>

theorem escape_bitmaps_documented:
  assumes "type < 7"
  shows "ngx_escape_uri [c] type =
    (if documented type c \<noteq> undocumented type c
     then [c_percent, hex ! (unat c div 16), hex ! (unat c mod 16)] else [c])"
  using bitmap_iff [OF assms, of c] by (simp add: ngx_escape_uri_def unat_drop_4 unat_and_15)

theorem escape_bitmaps_documented_witness:
  "ngx_escape_uri [c_percent] NGX_ESCAPE_REFRESH = [c_percent] \<and> ngx_escape_uri [c_semi] NGX_ESCAPE_ARGS = bs ''%3b''"
  using escape_bitmaps_documented [of NGX_ESCAPE_REFRESH c_percent] escape_bitmaps_documented [of NGX_ESCAPE_ARGS c_semi]
  by (simp add: documented_def undocumented_def bs_simps hex_def)

text \<open>Un-escaping writes at most as many bytes as it reads, so it can run in place.\<close>

fun pending :: "unescape_state \<Rightarrow> nat" where
  "pending un_usual = 0"
| "pending un_quoted = 1"
| "pending un_quoted_second = 2"

lemma unescape_step_written:
  assumes "unescape_step type st d p ch = (st', d', w, fin)"
  shows "length w + pending st' \<le> Suc (pending st)"
  using assms by (cases st) (auto simp: unescape_step_def Let_def split: if_splits)

lemma unescape_loop_length:
  "unescape_loop type st d p s = (w, r) \<Longrightarrow> length w + length r \<le> length s + pending st"
proof (induction s arbitrary: st d p w r)
  case (Cons ch s)
  obtain st' d' v fin where step: "unescape_step type st d p ch = (st', d', v, fin)"
    using prod_cases4 by blast
  obtain u q where rest: "unescape_loop type st' d' ch s = (u, q)"
    by (cases "unescape_loop type st' d' ch s")
  show ?case
    using Cons.prems unescape_step_written [OF step] Cons.IH [OF rest]
    by (auto simp: step rest split: if_splits)
qed simp

lemma unescape_loop_suffix: "unescape_loop type st d p s = (w, r) \<Longrightarrow> suffix r s"
proof (induction s arbitrary: st d p w r)
  case (Cons ch s)
  then show ?case by (force split: if_splits prod.splits intro: suffix_ConsI)
qed simp


text \<open>
  C29: the two-call protocol of the escapers is exact: a buffer of the source's length plus twice
  the count returned by the first call of \<open>ngx_escape_uri\<close>, or plus the growth returned by
  \<open>ngx_escape_html\<close>, is filled completely; and \<open>ngx_unescape_uri\<close> never writes more bytes
  than it has read, so that it can run in place, and leaves a tail of its source.
\<close>

theorem escape_buffers_exact:
  "length (ngx_escape_uri src etype) = length src + 2 * ngx_escape_uri_count src etype \<and>
   length (ngx_escape_html src) = length src + ngx_escape_html_count src \<and>
   (case ngx_unescape_uri src type of (dst, rest) \<Rightarrow>
      suffix rest src \<and> length dst \<le> length src - length rest)"
proof -
  obtain d r where u: "ngx_unescape_uri src type = (d, r)" by fastforce
  then have "length d + length r \<le> length src" "suffix r src"
    using unescape_loop_length [of type un_usual 0 0 src d r] unescape_loop_suffix
    by (auto simp: ngx_unescape_uri_def)
  then show ?thesis using u by (simp add: uri.exact_length html.exact_length)
qed

lemma html_entity_inj: "html_entity c @ x = html_entity d @ y \<Longrightarrow> c = d \<and> x = y"
  by (auto simp: html_entity_def bs_simps split: if_splits)

lemma html_entity_nonempty: "html_entity c \<noteq> []"
  by (simp add: html_entity_def bs_simps)

lemma html_entity_safe: "b \<in> set (html_entity c) \<Longrightarrow> b \<notin> {c_lt, c_gt, c_quot}"
  by (auto simp: html_entity_def bs_simps split: if_splits)

text \<open>
  The output of \<open>ngx_escape_html\<close> holds no angle bracket and no quote, and the escaping
  loses nothing: distinct inputs have distinct outputs.
\<close>

theorem escape_html_safe_injective:
  "set (ngx_escape_html s) \<inter> {c_lt, c_gt, c_quot} = {} \<and> inj ngx_escape_html"
proof
  show "set (ngx_escape_html s) \<inter> {c_lt, c_gt, c_quot} = {}"
    using html_entity_safe by (fastforce simp: html.out_concat)
  show "inj ngx_escape_html"
  proof (rule injI)
    fix s t
    show "ngx_escape_html s = ngx_escape_html t \<Longrightarrow> s = t"
    proof (induction s arbitrary: t)
      case (Cons c s)
      then show ?case
        by (cases t) (auto simp: html_entity_nonempty dest: html_entity_inj)
    qed (metis append_is_Nil_conv html_entity_nonempty list.exhaust ngx_escape_html.simps)
  qed
qed

end
