(* ===== verification/Ngx_Http.thy ===== *)
theory Ngx_Http
  imports Ngx_Prelude
begin

text \<open>
  What the parsers of \<open>http/ngx_http_parse.c\<close> share: memory and pointers, the fields of
  \<open>ngx_http_request_t\<close> and \<open>ngx_buf_t\<close> they use, and the loop over the buffer.

  A pointer is an address and \<open>NULL\<close> the address 0; memory maps every address to a byte.  The
  three resumable parsers (request line, header line, status line) have the same loop,
  \<open>for (p = b->pos; p < b->last; p++)\<close> around a \<open>switch\<close> on the state; each leaves it by a
  return, by a jump to one of its labels, or at the end of the buffer.  The loop is modelled
  once, over the step function of a parser; \<open>scanner\<close> is the interface of a step function: an
  invariant it keeps, and the part of the memory it may look at.
\<close>

subsection \<open>Memory\<close>

type_synonym ptr = nat
type_synonym memory = "ptr \<Rightarrow> u_char"

abbreviation NULL :: ptr where "NULL \<equiv> 0"

text \<open>A memory that holds a text at an address, for the examples.\<close>

definition mem_at :: "ptr \<Rightarrow> bytes \<Rightarrow> memory" where
  "mem_at a s = (\<lambda>i. if a \<le> i \<and> i - a < length s then s ! (i - a) else 0)"

text \<open>The memory holds a text at an address.\<close>

fun holds :: "memory \<Rightarrow> ptr \<Rightarrow> bytes \<Rightarrow> bool" where
  "holds mem a [] \<longleftrightarrow> True"
| "holds mem a (c # s) \<longleftrightarrow> mem a = c \<and> holds mem (Suc a) s"

definition same_mem :: "ptr \<Rightarrow> ptr \<Rightarrow> memory \<Rightarrow> memory \<Rightarrow> bool" where
  "same_mem lo hi mem mem' \<longleftrightarrow> (\<forall>a. lo \<le> a \<longrightarrow> a < hi \<longrightarrow> mem a = mem' a)"

lemma holds_append: "holds mem a (s @ t) \<longleftrightarrow> holds mem a s \<and> holds mem (a + length s) t"
  by (induction s arbitrary: a) auto

lemma holds_nth: "holds mem a s \<longleftrightarrow> (\<forall>i < length s. mem (a + i) = s ! i)"
proof (induction s arbitrary: a)
  case (Cons c s)
  show ?case by (auto simp: Cons.IH less_Suc_eq_0_disj)
qed simp

lemma holds_mem_at: "holds (mem_at a s) a s"
  by (simp add: holds_nth mem_at_def)

lemma holds_unique: "holds mem m s \<Longrightarrow> length t = length s \<Longrightarrow> holds mem m t \<longleftrightarrow> t = s"
  by (auto simp: holds_nth nth_equalityI)

lemma same_mem_mono: "same_mem lo hi mem mem' \<Longrightarrow> lo \<le> lo' \<Longrightarrow> hi' \<le> hi \<Longrightarrow> same_mem lo' hi' mem mem'"
  by (auto simp: same_mem_def)

subsection \<open>Buffers and requests\<close>

record ngx_buf_t =
  buf_pos :: ptr
  buf_last :: ptr

text \<open>The enumerations of the parsers that keep their state in \<open>r->state\<close>.\<close>

datatype rl_state =
    rl_start | rl_method | rl_spaces_before_uri | rl_schema | rl_schema_slash
  | rl_schema_slash_slash | rl_host_start | rl_host | rl_host_end | rl_host_ip_literal
  | rl_port | rl_host_http_09 | rl_after_slash_in_uri | rl_check_uri | rl_check_uri_http_09
  | rl_uri | rl_http_09 | rl_http_H | rl_http_HT | rl_http_HTT | rl_http_HTTP
  | rl_first_major_digit | rl_major_digit | rl_first_minor_digit | rl_minor_digit
  | rl_spaces_after_digit | rl_almost_done

datatype hl_state =
    hl_start | hl_name | hl_space_before_value | hl_value | hl_space_after_value
  | hl_ignore_line | hl_almost_done | hl_header_almost_done

datatype sl_state =
    sl_start | sl_H | sl_HT | sl_HTT | sl_HTTP | sl_first_major_digit | sl_major_digit
  | sl_first_minor_digit | sl_minor_digit | sl_status | sl_space_after_status
  | sl_status_text | sl_almost_done

text \<open>
  The request.  \<open>r->state\<close> is one field of the C structure, with one enumeration per parser; a
  parser leaves it at \<open>sw_start\<close> for the next one.  The model has a field per enumeration.
\<close>

record ngx_http_request_t =
  request_line_state :: rl_state
  header_line_state :: hl_state
  status_line_state :: sl_state
  http_method :: nat
  http_version :: uint64_t
  http_major :: "16 word"
  http_minor :: "16 word"
  complex_uri :: bool
  quoted_uri :: bool
  plus_in_uri :: bool
  space_in_uri :: bool
  invalid_header :: bool
  has_upstream :: bool
  request_start :: ptr
  request_end :: ptr
  method_end :: ptr
  schema_start :: ptr
  schema_end :: ptr
  host_start :: ptr
  host_end :: ptr
  port_end :: ptr
  uri_start :: ptr
  uri_end :: ptr
  uri_ext :: ptr
  args_start :: ptr
  http_protocol_data :: ptr
  header_hash :: uint64_t
  lowcase_index :: nat
  lowcase_header :: bytes
  header_name_start :: ptr
  header_name_end :: ptr
  header_start :: ptr
  header_end :: ptr

abbreviation NGX_HTTP_LC_HEADER_LEN :: nat where "NGX_HTTP_LC_HEADER_LEN \<equiv> 32"

abbreviation NGX_HTTP_UNKNOWN :: nat where "NGX_HTTP_UNKNOWN \<equiv> 0x1"
abbreviation NGX_HTTP_GET :: nat where "NGX_HTTP_GET \<equiv> 0x2"
abbreviation NGX_HTTP_HEAD :: nat where "NGX_HTTP_HEAD \<equiv> 0x4"
abbreviation NGX_HTTP_POST :: nat where "NGX_HTTP_POST \<equiv> 0x8"
abbreviation NGX_HTTP_PUT :: nat where "NGX_HTTP_PUT \<equiv> 0x10"
abbreviation NGX_HTTP_DELETE :: nat where "NGX_HTTP_DELETE \<equiv> 0x20"
abbreviation NGX_HTTP_MKCOL :: nat where "NGX_HTTP_MKCOL \<equiv> 0x40"
abbreviation NGX_HTTP_COPY :: nat where "NGX_HTTP_COPY \<equiv> 0x80"
abbreviation NGX_HTTP_MOVE :: nat where "NGX_HTTP_MOVE \<equiv> 0x100"
abbreviation NGX_HTTP_OPTIONS :: nat where "NGX_HTTP_OPTIONS \<equiv> 0x200"
abbreviation NGX_HTTP_PROPFIND :: nat where "NGX_HTTP_PROPFIND \<equiv> 0x400"
abbreviation NGX_HTTP_PROPPATCH :: nat where "NGX_HTTP_PROPPATCH \<equiv> 0x800"
abbreviation NGX_HTTP_LOCK :: nat where "NGX_HTTP_LOCK \<equiv> 0x1000"
abbreviation NGX_HTTP_UNLOCK :: nat where "NGX_HTTP_UNLOCK \<equiv> 0x2000"
abbreviation NGX_HTTP_PATCH :: nat where "NGX_HTTP_PATCH \<equiv> 0x4000"
abbreviation NGX_HTTP_TRACE :: nat where "NGX_HTTP_TRACE \<equiv> 0x8000"

abbreviation NGX_HTTP_PARSE_HEADER_DONE :: int where "NGX_HTTP_PARSE_HEADER_DONE \<equiv> 1"
abbreviation NGX_HTTP_PARSE_INVALID_METHOD :: int where "NGX_HTTP_PARSE_INVALID_METHOD \<equiv> 10"
abbreviation NGX_HTTP_PARSE_INVALID_REQUEST :: int where "NGX_HTTP_PARSE_INVALID_REQUEST \<equiv> 11"
abbreviation NGX_HTTP_PARSE_INVALID_09_METHOD :: int where "NGX_HTTP_PARSE_INVALID_09_METHOD \<equiv> 12"
abbreviation NGX_HTTP_PARSE_INVALID_HEADER :: int where "NGX_HTTP_PARSE_INVALID_HEADER \<equiv> 13"

text \<open>A request as \<open>ngx_http_init_request\<close> leaves it: zeroed, with the method unknown.\<close>

definition init_request :: ngx_http_request_t where
  "init_request = \<lparr>
     request_line_state = rl_start, header_line_state = hl_start, status_line_state = sl_start,
     http_method = NGX_HTTP_UNKNOWN, http_version = 0, http_major = 0, http_minor = 0,
     complex_uri = False, quoted_uri = False, plus_in_uri = False, space_in_uri = False,
     invalid_header = False, has_upstream = False,
     request_start = NULL, request_end = NULL, method_end = NULL, schema_start = NULL,
     schema_end = NULL, host_start = NULL, host_end = NULL, port_end = NULL,
     uri_start = NULL, uri_end = NULL, uri_ext = NULL, args_start = NULL,
     http_protocol_data = NULL, header_hash = 0, lowcase_index = 0,
     lowcase_header = replicate NGX_HTTP_LC_HEADER_LEN 0,
     header_name_start = NULL, header_name_end = NULL, header_start = NULL, header_end = NULL\<rparr>"

text \<open>\<open>#define ngx_hash(key, c) ((ngx_uint_t) key * 31 + c)\<close>\<close>

definition ngx_hash :: "uint64_t \<Rightarrow> u_char \<Rightarrow> uint64_t" where
  "ngx_hash key c = key * 31 + ucast c"

subsection \<open>Version numbers\<close>

lemma ucast_digit16: "is_digit c \<Longrightarrow> (ucast (c - c_0) :: 16 word) = of_nat (digit_value c)"
  by (simp add: word_unat_eq_iff unat_ucast unat_of_nat unat_digit_minus)

lemma version_value:
  "unat (ucast (of_nat a :: 16 word) * 1000 + ucast (of_nat b :: 16 word) :: uint64_t) = (a mod 65536) * 1000 + b mod 65536"
proof -
  have "a mod 65536 < 65536" "b mod 65536 < 65536" by simp_all
  then have "(a mod 65536) * 1000 + b mod 65536 < 2 ^ 64" by simp
  then show ?thesis by (simp add: unat_word_ariths unat_ucast unat_of_nat)
qed


subsection \<open>The loop over the buffer\<close>

datatype scan_label = l_done | l_header_done

datatype ('st, 'r) step_outcome =
    Next 'st 'r        \<comment> \<open>the \<open>switch\<close> ends, the loop goes on in a state\<close>
  | Goto scan_label 'r \<comment> \<open>\<open>goto done\<close>, \<open>goto header_done\<close>\<close>
  | Return int 'r

datatype ('st, 'r) scan_result =
    Scan_again ptr 'st 'r
  | Scan_goto scan_label ptr 'r
  | Scan_return int 'r

function scan_loop ::
  "(memory \<Rightarrow> 'st \<Rightarrow> u_char \<Rightarrow> ptr \<Rightarrow> 'r \<Rightarrow> ('st, 'r) step_outcome) \<Rightarrow>
    memory \<Rightarrow> ptr \<Rightarrow> ptr \<Rightarrow> 'st \<Rightarrow> 'r \<Rightarrow> ('st, 'r) scan_result" where
  "scan_loop step mem lst p st r =
     (if p < lst then
        case step mem st (mem p) p r of
          Next st' r' \<Rightarrow> scan_loop step mem lst (Suc p) st' r'
        | Goto l r' \<Rightarrow> Scan_goto l p r'
        | Return c r' \<Rightarrow> Scan_return c r'
      else Scan_again p st r)"
  by pat_completeness auto
termination by (relation "measure (\<lambda>(step, mem, lst, p, st, r). lst - p)") auto

declare scan_loop.simps [simp del]

lemma scan_loop_end: "lst \<le> p \<Longrightarrow> scan_loop step mem lst p st r = Scan_again p st r"
  by (subst scan_loop.simps) simp

lemma scan_loop_step:
  "p < lst \<Longrightarrow> scan_loop step mem lst p st r =
    (case step mem st (mem p) p r of
       Next st' r' \<Rightarrow> scan_loop step mem lst (Suc p) st' r'
     | Goto l r' \<Rightarrow> Scan_goto l p r'
     | Return c r' \<Rightarrow> Scan_return c r')"
  by (subst scan_loop.simps) simp

lemma scan_next:
  "p < lst \<Longrightarrow> step mem st (mem p) p r = Next st' r' \<Longrightarrow> q = Suc p \<Longrightarrow>
    scan_loop step mem lst p st r = scan_loop step mem lst q st' r'"
  by (simp add: scan_loop_step)

lemma scan_goto:
  "p < lst \<Longrightarrow> step mem st (mem p) p r = Goto l r' \<Longrightarrow>
    scan_loop step mem lst p st r = Scan_goto l p r'"
  by (simp add: scan_loop_step)

lemma scan_loop_again:
  "scan_loop step mem lst p st r = Scan_again q st' r' \<Longrightarrow> q = max p lst"
proof (induction step mem lst p st r rule: scan_loop.induct)
  case (1 step mem lst p st r)
  show ?case
  proof (cases "p < lst")
    case True
    then show ?thesis using 1
      by (auto simp: scan_loop_step split: step_outcome.splits)
  qed (use 1 in \<open>auto simp: scan_loop_end\<close>)
qed

lemma scan_loop_return:
  "scan_loop step mem lst p st r = Scan_return c r' \<Longrightarrow> \<exists>mem st p r. step mem st (mem p) p r = Return c r'"
proof (induction "lst - p" arbitrary: p st r)
  case (Suc n)
  then have "p < lst" "n = lst - Suc p" by simp_all
  then show ?case using Suc.hyps(1) Suc.prems by (auto simp: scan_loop_step split: step_outcome.splits)
qed (simp add: scan_loop_end)

text \<open>
  The interface of a parser step: an invariant \<open>inv\<close> over the position, relative to the lowest
  address \<open>lo\<close> the parser may look at, and the restriction that a step reads only memory from
  \<open>lo\<close> up to the current position.
\<close>

locale scanner =
  fixes step :: "memory \<Rightarrow> 'st \<Rightarrow> u_char \<Rightarrow> ptr \<Rightarrow> 'r \<Rightarrow> ('st, 'r) step_outcome"
    and inv :: "memory \<Rightarrow> ptr \<Rightarrow> ptr \<Rightarrow> 'st \<Rightarrow> 'r \<Rightarrow> bool"
  assumes inv_step: "inv mem lo p st r \<Longrightarrow> lo \<le> p \<Longrightarrow> step mem st (mem p) p r = Next st' r' \<Longrightarrow>
      inv mem lo (Suc p) st' r'"
    and step_local: "inv mem lo p st r \<Longrightarrow> lo \<le> p \<Longrightarrow> same_mem lo (Suc p) mem mem' \<Longrightarrow>
      step mem' st (mem p) p r = step mem st (mem p) p r"
begin

abbreviation "run \<equiv> scan_loop step"

lemma run_inv:
  "inv mem lo p st r \<Longrightarrow> lo \<le> p \<Longrightarrow> run mem lst p st r = Scan_again q st' r' \<Longrightarrow> inv mem lo q st' r'"
proof (induction "lst - p" arbitrary: p st r)
  case (Suc n)
  then obtain st1 r1 where s: "step mem st (mem p) p r = Next st1 r1"
    and rest: "run mem lst (Suc p) st1 r1 = Scan_again q st' r'"
    by (auto simp: scan_loop_step split: step_outcome.splits)
  show ?case
    by (rule Suc.hyps(1) [OF _ inv_step [OF Suc.prems(1,2) s] _ rest]) (use Suc.hyps(2) Suc.prems in auto)
qed (simp add: scan_loop_end)

text \<open>A run that leaves the loop does so by a step from a state with the invariant.\<close>

lemma run_goto:
  "inv mem lo p st r \<Longrightarrow> lo \<le> p \<Longrightarrow> run mem lst p st r = Scan_goto l q r' \<Longrightarrow>
    \<exists>st1 r1. p \<le> q \<and> q < lst \<and> inv mem lo q st1 r1 \<and> step mem st1 (mem q) q r1 = Goto l r'"
proof (induction "lst - p" arbitrary: p st r)
  case (Suc n)
  then have p: "p < lst" by simp
  show ?case
  proof (cases "step mem st (mem p) p r")
    case (Next st1 r1)
    then have "run mem lst (Suc p) st1 r1 = Scan_goto l q r'"
      using Suc.prems p by (simp add: scan_loop_step)
    then show ?thesis
      using Suc.hyps(1) [OF _ inv_step [OF Suc.prems(1,2) Next]] Suc.hyps(2) Suc.prems p
      by (metis Suc_leD diff_Suc_Suc diff_Suc_eq_diff_pred le_SucI Suc_diff_Suc Suc_inject)
  qed (use Suc p in \<open>auto simp: scan_loop_step\<close>)
qed (simp add: scan_loop_end)

text \<open>Two memories that agree on the buffer give the same run.\<close>

lemma run_local:
  "inv mem lo p st r \<Longrightarrow> lo \<le> p \<Longrightarrow> same_mem lo lst mem mem' \<Longrightarrow> run mem' lst p st r = run mem lst p st r"
proof (induction "lst - p" arbitrary: p st r)
  case (Suc n)
  then have p: "p < lst" by simp
  have m: "mem' p = mem p" using Suc.prems(2,3) p by (simp add: same_mem_def)
  have s: "step mem' st (mem p) p r = step mem st (mem p) p r"
    by (rule step_local [OF Suc.prems(1,2) same_mem_mono [OF Suc.prems(3)]]) (use p in auto)
  have n: "n = lst - Suc p" using Suc.hyps(2) by simp
  show ?case
  proof (cases "step mem st (mem p) p r")
    case (Next st1 r1)
    then show ?thesis
      using Suc.hyps(1) [OF n inv_step [OF Suc.prems(1,2) Next] _ Suc.prems(3)] Suc.prems(2) p
      by (simp add: scan_loop_step m s)
  qed (use p in \<open>simp_all add: scan_loop_step m s\<close>)
qed (simp add: scan_loop_end)

text \<open>
  Resumption: a run that stops at the end of a first part of the input and is continued when
  more has arrived ends like one run over the whole input.
\<close>

lemma run_split:
  "run mem lst1 p st r = Scan_again q st' r' \<Longrightarrow> lst1 \<le> lst2 \<Longrightarrow>
    run mem lst2 p st r = run mem lst2 q st' r'"
proof (induction "lst1 - p" arbitrary: p st r)
  case (Suc n)
  then have p: "p < lst1" "n = lst1 - Suc p" by simp_all
  then obtain st1 r1 where "step mem st (mem p) p r = Next st1 r1"
    and "run mem lst1 (Suc p) st1 r1 = Scan_again q st' r'"
    using Suc.prems(1) by (auto simp: scan_loop_step split: step_outcome.splits)
  then show ?case using Suc.hyps(1) [OF p(2)] Suc.prems(2) p(1) by (simp add: scan_loop_step)
qed (simp add: scan_loop_end)

lemma run_resume:
  assumes "inv mem lo p st r" "lo \<le> p" "run mem lst1 p st r = Scan_again q st' r'"
    and "lst1 \<le> lst2" "same_mem lo lst1 mem mem'"
  shows "run mem' lst2 q st' r' = run mem' lst2 p st r"
  using run_split [of mem' lst1 p st r q st' r' lst2] run_local [OF assms(1,2,5)] assms(3,4) by simp

lemma run_decided:
  assumes "inv mem lo p st r" "lo \<le> p" "run mem lst1 p st r = x" "\<And>q st' r'. x \<noteq> Scan_again q st' r'"
    and "lst1 \<le> lst2" "same_mem lo lst1 mem mem'"
  shows "run mem' lst2 p st r = x"
proof -
  have "run mem lst1 p st r = x \<Longrightarrow> (\<And>q st' r'. x \<noteq> Scan_again q st' r') \<Longrightarrow> run mem lst2 p st r = x" for mem
  proof (induction "lst1 - p" arbitrary: p st r)
    case (Suc n)
    then have "p < lst1" "n = lst1 - Suc p" by simp_all
    then show ?case using Suc.hyps(1) Suc.prems assms(5)
      by (auto simp: scan_loop_step split: step_outcome.splits)
  qed (simp add: scan_loop_end, blast)
  then show ?thesis using run_local [OF assms(1,2,6)] assms(3,4) by simp
qed

end

text \<open>A parser that saves its variables in fields of the request that its steps do not look at.\<close>

locale saving_scanner = scanner step inv
  for step :: "memory \<Rightarrow> 'st \<Rightarrow> u_char \<Rightarrow> ptr \<Rightarrow> 'r \<Rightarrow> ('st, 'r) step_outcome"
    and inv :: "memory \<Rightarrow> ptr \<Rightarrow> ptr \<Rightarrow> 'st \<Rightarrow> 'r \<Rightarrow> bool" +
  fixes save :: "'c \<Rightarrow> 'r \<Rightarrow> 'r"
  assumes step_save: "step mem st c p (save s r) = map_step_outcome id (save s) (step mem st c p r)"
    and inv_save: "inv mem lo p st (save s r) \<longleftrightarrow> inv mem lo p st r"
begin

lemma run_save: "run mem lst p st (save s r) = map_scan_result id (save s) (run mem lst p st r)"
proof (induction "lst - p" arbitrary: p st r)
  case (Suc n)
  then have "p < lst" "n = lst - Suc p" by simp_all
  then show ?case using Suc.hyps(1)
    by (cases "step mem st (mem p) p r") (simp_all add: scan_loop_step step_save)
qed (simp add: scan_loop_end)

end

end
