(* ===== verification/Ngx_Http_Status_Line.thy ===== *)
theory Ngx_Http_Status_Line
  imports Ngx_Http
begin

text \<open>
  \<open>ngx_http_parse_status_line\<close> of \<open>http/ngx_http_parse.c\<close>, the parser of the first line of an
  upstream's response.
\<close>

record ngx_http_status_t =
  status_http_version :: uint64_t
  status_code :: uint64_t
  status_count :: uint64_t
  status_start :: ptr
  status_end :: ptr

type_synonym sl_vars = "ngx_http_request_t \<times> ngx_http_status_t"
type_synonym sl_outcome = "(sl_state, sl_vars) step_outcome"

text \<open>The states that expect one character of \<open>HTTP/\<close>.\<close>

definition sl_sw_expect :: "u_char \<Rightarrow> sl_state \<Rightarrow> u_char \<Rightarrow> sl_vars \<Rightarrow> sl_outcome" where
  "sl_sw_expect c st ch v = (if ch = c then Next st v else Return NGX_ERROR v)"

definition sl_sw_first_major_digit :: "u_char \<Rightarrow> sl_vars \<Rightarrow> sl_outcome" where
  "sl_sw_first_major_digit ch = (\<lambda>(r, status).
     if ch < c_1 \<or> ch > c_9 then Return NGX_ERROR (r, status)
     else Next sl_major_digit (r\<lparr>http_major := ucast (ch - c_0)\<rparr>, status))"

definition sl_sw_major_digit :: "u_char \<Rightarrow> sl_vars \<Rightarrow> sl_outcome" where
  "sl_sw_major_digit ch = (\<lambda>(r, status).
     if ch = c_dot then Next sl_first_minor_digit (r, status)
     else if ch < c_0 \<or> ch > c_9 then Return NGX_ERROR (r, status)
     else Next sl_major_digit (r\<lparr>http_major := http_major r * 10 + ucast (ch - c_0)\<rparr>, status))"

definition sl_sw_first_minor_digit :: "u_char \<Rightarrow> sl_vars \<Rightarrow> sl_outcome" where
  "sl_sw_first_minor_digit ch = (\<lambda>(r, status).
     if ch < c_0 \<or> ch > c_9 then Return NGX_ERROR (r, status)
     else Next sl_minor_digit (r\<lparr>http_minor := ucast (ch - c_0)\<rparr>, status))"

definition sl_sw_minor_digit :: "u_char \<Rightarrow> sl_vars \<Rightarrow> sl_outcome" where
  "sl_sw_minor_digit ch = (\<lambda>(r, status).
     if ch = c_space then Next sl_status (r, status)
     else if ch < c_0 \<or> ch > c_9 then Return NGX_ERROR (r, status)
     else Next sl_minor_digit (r\<lparr>http_minor := http_minor r * 10 + ucast (ch - c_0)\<rparr>, status))"

definition sl_sw_status :: "u_char \<Rightarrow> ptr \<Rightarrow> sl_vars \<Rightarrow> sl_outcome" where
  "sl_sw_status ch p = (\<lambda>(r, status).
     if ch = c_space then Next sl_status (r, status)
     else if ch < c_0 \<or> ch > c_9 then Return NGX_ERROR (r, status)
     else
       let status = status\<lparr>status_code := status_code status * 10 + ucast (ch - c_0),
                           status_count := status_count status + 1\<rparr> in
       if status_count status = 3
       then Next sl_space_after_status (r, status\<lparr>status_start := p - 2\<rparr>)
       else Next sl_status (r, status))"

definition sl_sw_space_after_status :: "u_char \<Rightarrow> sl_vars \<Rightarrow> sl_outcome" where
  "sl_sw_space_after_status ch v =
     (if ch = c_space then Next sl_status_text v
      else if ch = c_dot then Next sl_status_text v
      else if ch = CR then Next sl_almost_done v
      else if ch = LF then Goto l_done v
      else Return NGX_ERROR v)"

definition sl_sw_status_text :: "u_char \<Rightarrow> sl_vars \<Rightarrow> sl_outcome" where
  "sl_sw_status_text ch v =
     (if ch = CR then Next sl_almost_done v
      else if ch = LF then Goto l_done v
      else Next sl_status_text v)"

definition sl_sw_almost_done :: "u_char \<Rightarrow> ptr \<Rightarrow> sl_vars \<Rightarrow> sl_outcome" where
  "sl_sw_almost_done ch p = (\<lambda>(r, status).
     let status = status\<lparr>status_end := p - 1\<rparr> in
     if ch = LF then Goto l_done (r, status) else Return NGX_ERROR (r, status))"

definition sl_step :: "memory \<Rightarrow> sl_state \<Rightarrow> u_char \<Rightarrow> ptr \<Rightarrow> sl_vars \<Rightarrow> sl_outcome" where
  "sl_step mem st ch p v =
     (case st of
        sl_start \<Rightarrow> sl_sw_expect c_H sl_H ch v
      | sl_H \<Rightarrow> sl_sw_expect c_T sl_HT ch v
      | sl_HT \<Rightarrow> sl_sw_expect c_T sl_HTT ch v
      | sl_HTT \<Rightarrow> sl_sw_expect c_P sl_HTTP ch v
      | sl_HTTP \<Rightarrow> sl_sw_expect c_slash sl_first_major_digit ch v
      | sl_first_major_digit \<Rightarrow> sl_sw_first_major_digit ch v
      | sl_major_digit \<Rightarrow> sl_sw_major_digit ch v
      | sl_first_minor_digit \<Rightarrow> sl_sw_first_minor_digit ch v
      | sl_minor_digit \<Rightarrow> sl_sw_minor_digit ch v
      | sl_status \<Rightarrow> sl_sw_status ch p v
      | sl_space_after_status \<Rightarrow> sl_sw_space_after_status ch v
      | sl_status_text \<Rightarrow> sl_sw_status_text ch v
      | sl_almost_done \<Rightarrow> sl_sw_almost_done ch p v)"

definition ngx_http_parse_status_line ::
  "memory \<Rightarrow> ngx_http_request_t \<Rightarrow> ngx_buf_t \<Rightarrow> ngx_http_status_t \<Rightarrow>
    int \<times> ngx_http_request_t \<times> ngx_buf_t \<times> ngx_http_status_t" where
  "ngx_http_parse_status_line mem r b status =
     (case scan_loop sl_step mem (buf_last b) (buf_pos b) (status_line_state r) (r, status) of
        Scan_again p st (r, status) \<Rightarrow> (NGX_AGAIN, r\<lparr>status_line_state := st\<rparr>, b\<lparr>buf_pos := p\<rparr>, status)
      | Scan_return c (r, status) \<Rightarrow> (c, r, b, status)
      | Scan_goto _ p (r, status) \<Rightarrow>
          let status = (if status_end status = NULL then status\<lparr>status_end := p\<rparr> else status) in
          (NGX_OK, r\<lparr>status_line_state := sl_start\<rparr>, b\<lparr>buf_pos := p + 1\<rparr>,
           status\<lparr>status_http_version := ucast (http_major r) * 1000 + ucast (http_minor r)\<rparr>))"

lemmas sl_defs = sl_sw_expect_def sl_sw_first_major_digit_def sl_sw_major_digit_def sl_sw_first_minor_digit_def
  sl_sw_minor_digit_def sl_sw_status_def sl_sw_space_after_status_def sl_sw_status_text_def sl_sw_almost_done_def

subsection \<open>The invariant: at most three digits\<close>

definition sl_inv :: "memory \<Rightarrow> ptr \<Rightarrow> ptr \<Rightarrow> sl_state \<Rightarrow> sl_vars \<Rightarrow> bool" where
  "sl_inv mem lo p st v \<longleftrightarrow> unat (status_code (snd v)) < 10 ^ unat (status_count (snd v)) \<and>
     (if st \<in> {sl_space_after_status, sl_status_text, sl_almost_done} then unat (status_count (snd v)) = 3
      else unat (status_count (snd v)) < 3)"

lemma code_step:
  assumes "\<not> ch < c_0" "\<not> c_9 < ch" "unat code < 10 ^ n" "n < 3"
  shows "unat (code * 10 + ucast (ch - c_0) :: uint64_t) < 10 ^ Suc n"
proof -
  have d: "unat (ch - c_0) < 10" using assms(1,2) digit_value_less [of ch] unat_digit_minus [of ch] by (simp add: is_digit_def not_less)
  have "(10::nat) ^ n \<le> 10 ^ 2" using assms(4) by (intro power_increasing) auto
  then have c: "unat code * 10 + unat (ch - c_0) < 2 ^ 64" using assms(3) d by simp
  have "unat (ucast (ch - c_0) :: uint64_t) = unat (ch - c_0)" using d by (simp add: unat_ucast)
  then have "unat (code * 10 + ucast (ch - c_0) :: uint64_t) = unat code * 10 + unat (ch - c_0)"
    using c by (simp add: unat_word_ariths)
  then show ?thesis using assms(3) d by simp
qed

lemma count_step: "unat n < 3 \<Longrightarrow> unat (n + 1 :: uint64_t) = Suc (unat n)"
  by (simp add: unat_word_ariths)

lemma sl_inv_status:
  assumes "sl_inv mem lo p sl_status v" "sl_sw_status ch p v = Next st' v'"
  shows "sl_inv mem lo (Suc p) st' v'"
proof -
  obtain r s where v: "v = (r, s)" by (cases v)
  have i: "unat (status_code s) < 10 ^ unat (status_count s)" "unat (status_count s) < 3"
    using assms(1) by (simp_all add: sl_inv_def v)
  show ?thesis
  proof (cases "ch = c_space")
    case True
    then show ?thesis using assms(2) i by (auto simp: v sl_sw_status_def sl_inv_def)
  next
    case False
    then have d: "\<not> ch < c_0" "\<not> c_9 < ch" using assms(2) by (auto simp: v sl_sw_status_def split: if_splits)
    have "status_count s + 1 = 3 \<longleftrightarrow> unat (status_count s) = 2"
      using count_step [OF i(2)] by (auto simp: word_unat_eq_iff)
    then show ?thesis using False d assms(2) i code_step [OF d i] count_step [OF i(2)]
      by (auto simp: v sl_sw_status_def sl_inv_def Let_def split: if_splits)
  qed
qed

interpretation sl: scanner sl_step sl_inv
proof unfold_locales
  fix mem lo p st v st' v'
  assume "sl_inv mem lo p st v" "sl_step mem st (mem p) p v = Next st' v'"
  then show "sl_inv mem lo (Suc p) st' v'"
    by (cases st; hypsubst; auto simp: sl_step_def sl_inv_status)
      (auto simp: sl_defs sl_inv_def Let_def split: if_splits prod.splits)
qed (simp add: sl_step_def)


lemma sl_done_count:
  assumes "sl_inv mem lo p st v" "sl_step mem st (mem p) p v = Goto l v'"
  shows "unat (status_count (snd v')) = 3 \<and> unat (status_code (snd v')) < 1000"
  using assms
  by (cases st; hypsubst; auto simp: sl_step_def sl_defs sl_inv_def Let_def split: if_splits prod.splits)

lemma sl_step_return: "\<exists>mem st p v. sl_step mem st (mem p) p v = Return c v' \<Longrightarrow> c = NGX_ERROR"
proof (elim exE)
  fix mem st p v
  assume "sl_step mem st (mem p) p v = Return c v'"
  then show "c = NGX_ERROR"
    by (cases st; hypsubst; auto simp: sl_step_def sl_defs Let_def split: if_splits prod.splits)
qed

definition fresh_status :: "ngx_http_status_t \<Rightarrow> bool" where
  "fresh_status s \<longleftrightarrow> status_code s = 0 \<and> status_count s = 0 \<and> status_end s = NULL"

lemma sl_inv_fresh: "fresh_status s \<Longrightarrow> sl_inv mem lo p sl_start (r, s)"
  by (simp add: sl_inv_def fresh_status_def)

lemma sl_http_scan:
  assumes "holds mem p (bs ''HTTP/'')" "p + 5 \<le> lst"
  shows "scan_loop sl_step mem lst p sl_start v = scan_loop sl_step mem lst (p + 5) sl_first_major_digit v"
proof -
  have m: "mem p = c_H" "mem (p + 1) = c_T" "mem (p + 2) = c_T" "mem (p + 3) = c_P" "mem (p + 4) = c_slash"
    using assms(1) by (simp_all add: numeral_eq_Suc)
  have "scan_loop sl_step mem lst p sl_start v = scan_loop sl_step mem lst (p + 1) sl_H v"
    by (rule scan_next) (use m(1) assms(2) in \<open>simp_all add: sl_step_def sl_sw_expect_def\<close>)
  also have "\<dots> = scan_loop sl_step mem lst (p + 2) sl_HT v"
    by (rule scan_next) (use m(2) assms(2) in \<open>simp_all add: sl_step_def sl_sw_expect_def\<close>)
  also have "\<dots> = scan_loop sl_step mem lst (p + 3) sl_HTT v"
    by (rule scan_next) (use m(3) assms(2) in \<open>simp_all add: sl_step_def sl_sw_expect_def\<close>)
  also have "\<dots> = scan_loop sl_step mem lst (p + 4) sl_HTTP v"
    by (rule scan_next) (use m(4) assms(2) in \<open>simp_all add: sl_step_def sl_sw_expect_def\<close>)
  also have "\<dots> = scan_loop sl_step mem lst (p + 5) sl_first_major_digit v"
    by (rule scan_next) (use m(5) assms(2) in \<open>simp_all add: sl_step_def sl_sw_expect_def\<close>)
  finally show ?thesis .
qed

lemma sl_digit_scan:
  "list_all is_digit s \<Longrightarrow> holds mem p s \<Longrightarrow> p + length s \<le> lst \<Longrightarrow>
    scan_loop sl_step mem lst p sl_major_digit (r\<lparr>http_major := of_nat v\<rparr>, st) =
    scan_loop sl_step mem lst (p + length s) sl_major_digit (r\<lparr>http_major := of_nat (pos_value 10 digit_value v s)\<rparr>, st)"
  "list_all is_digit s \<Longrightarrow> holds mem p s \<Longrightarrow> p + length s \<le> lst \<Longrightarrow>
    scan_loop sl_step mem lst p sl_minor_digit (r\<lparr>http_minor := of_nat v\<rparr>, st) =
    scan_loop sl_step mem lst (p + length s) sl_minor_digit (r\<lparr>http_minor := of_nat (pos_value 10 digit_value v s)\<rparr>, st)"
proof (induction s arbitrary: p v)
  case (Cons c s)
  { case 1
    then have "sl_step mem sl_major_digit (mem p) p (r\<lparr>http_major := of_nat v\<rparr>, st) =
        Next sl_major_digit (r\<lparr>http_major := of_nat (v * 10 + digit_value c)\<rparr>, st)"
      by (auto simp: sl_step_def sl_sw_major_digit_def is_digit_def ucast_digit16 [unfolded is_digit_def])
    with 1 Cons.IH(1) [of "Suc p" "v * 10 + digit_value c"] show ?case by (simp add: scan_loop_step)
  next
    case 2
    then have "sl_step mem sl_minor_digit (mem p) p (r\<lparr>http_minor := of_nat v\<rparr>, st) =
        Next sl_minor_digit (r\<lparr>http_minor := of_nat (v * 10 + digit_value c)\<rparr>, st)"
      by (auto simp: sl_step_def sl_sw_minor_digit_def is_digit_def ucast_digit16 [unfolded is_digit_def])
    with 2 Cons.IH(2) [of "Suc p" "v * 10 + digit_value c"] show ?case by (simp add: scan_loop_step) }
qed simp_all

lemma ucast64_digit: "is_digit c \<Longrightarrow> (ucast (c - c_0) :: uint64_t) = of_nat (digit_value c)"
  using digit_value_less [of c] by (simp add: word_unat_eq_iff unat_ucast unat_of_nat unat_digit_minus)

lemma sl_text_scan:
  "\<forall>c\<in>set s. c \<notin> {CR, LF} \<Longrightarrow> holds mem p s \<Longrightarrow> p + length s \<le> lst \<Longrightarrow>
    scan_loop sl_step mem lst p sl_status_text v = scan_loop sl_step mem lst (p + length s) sl_status_text v"
proof (induction s arbitrary: p)
  case (Cons c s)
  then have "sl_step mem sl_status_text (mem p) p v = Next sl_status_text v"
    by (auto simp: sl_step_def sl_sw_status_text_def)
  with Cons show ?case by (simp add: scan_loop_step)
qed simp

lemma status_line_run:
  assumes "status_line_state r = sl_start" "fresh_status s"
    and "holds mem pos (bs ''HTTP/'' @ maj @ c_dot # mnr @ c_space # [d1, d2, d3] @ c_space # txt @ [CR, LF])"
    and "list_all is_digit maj" "hd maj \<noteq> c_0" "maj \<noteq> []" "list_all is_digit mnr" "mnr \<noteq> []"
    and "list_all is_digit [d1, d2, d3]" "\<forall>c\<in>set txt. c \<notin> {CR, LF}"
    and "pos + length maj + length mnr + length txt + 13 \<le> lst"
  shows "\<exists>r' s'. ngx_http_parse_status_line mem r \<lparr>buf_pos = pos, buf_last = lst\<rparr> s =
      (NGX_OK, r', \<lparr>buf_pos = pos + length maj + length mnr + length txt + 13, buf_last = lst\<rparr>, s') \<and>
    unat (status_code s') = dec_value [d1, d2, d3] \<and>
    unat (status_http_version s') = (dec_value maj mod 65536) * 1000 + dec_value mnr mod 65536 \<and>
    holds mem (status_start s') ([d1, d2, d3] @ c_space # txt) \<and> status_end s' = status_start s' + 4 + length txt"
proof -
  obtain c t where maj: "maj = c # t" using assms(6) by (cases maj) auto
  obtain d u where mnr: "mnr = d # u" using assms(8) by (cases mnr) auto
  have c: "is_digit c" "c \<noteq> c_0" "list_all is_digit t" "is_digit d" "list_all is_digit u"
    using assms(4,5,7) by (simp_all add: maj mnr)
  have dd: "is_digit d1" "is_digit d2" "is_digit d3" using assms(9) by simp_all
  have c1: "c_1 \<le> c" "c \<le> c_9" using c by (auto simp: is_digit_def word_le_nat_alt word_unat_eq_iff)
  have nd: "x \<noteq> c_space \<and> \<not> x < c_0 \<and> \<not> c_9 < x" if "is_digit x" for x
    using that by (auto simp: is_digit_def not_less)
  let ?p = "pos + 5" let ?a = "Suc ?p + length t" let ?b = "Suc (Suc ?a) + length u"
  let ?e = "?b + 5 + length txt"
  have lv: "pos + length (bs ''HTTP/'') = ?p" by simp
  have H: "holds mem pos (bs ''HTTP/'')" "holds mem ?p (maj @ c_dot # mnr @ c_space # [d1, d2, d3] @ c_space # txt @ [CR, LF])"
    using assms(3) unfolding holds_append [of _ _ "bs ''HTTP/''"] lv by blast+
  have m: "mem ?p = c" "holds mem (Suc ?p) t" "mem ?a = c_dot" "mem (Suc ?a) = d" "holds mem (Suc (Suc ?a)) u"
      "mem ?b = c_space" "mem (Suc ?b) = d1" "mem (Suc (Suc ?b)) = d2" "mem (Suc (Suc (Suc ?b))) = d3" "mem (?b + 4) = c_space"
      "holds mem (?b + 5) txt" "mem ?e = CR" "mem (Suc ?e) = LF"
    using H(2) by (simp_all add: maj mnr holds_append eval_nat_numeral)
  have l: "Suc ?e < lst" using assms(11) by (simp add: maj mnr)
  let ?r = "r\<lparr>http_major := of_nat (dec_value maj), http_minor := of_nat (dec_value mnr)\<rparr>"
  let ?s1 = "s\<lparr>status_code := of_nat (digit_value d1), status_count := 1\<rparr>"
  let ?s2 = "s\<lparr>status_code := of_nat (digit_value d1 * 10 + digit_value d2), status_count := 2\<rparr>"
  let ?s3 = "s\<lparr>status_code := of_nat (dec_value [d1, d2, d3]), status_count := 3, status_start := Suc ?b\<rparr>"
  have "scan_loop sl_step mem lst pos sl_start (r, s) = scan_loop sl_step mem lst ?p sl_first_major_digit (r, s)"
    using sl_http_scan [OF H(1)] l by simp
  also have "\<dots> = scan_loop sl_step mem lst (Suc ?p) sl_major_digit (r\<lparr>http_major := of_nat (digit_value c)\<rparr>, s)"
    by (rule scan_next) (use m(1) l c1 c in \<open>auto simp: sl_step_def sl_sw_first_major_digit_def ucast_digit16 not_less\<close>)
  also have "\<dots> = scan_loop sl_step mem lst ?a sl_major_digit (r\<lparr>http_major := of_nat (dec_value maj)\<rparr>, s)"
    using sl_digit_scan(1) [OF c(3) m(2), of lst "digit_value c" r] l by (simp add: maj)
  also have "\<dots> = scan_loop sl_step mem lst (Suc ?a) sl_first_minor_digit (r\<lparr>http_major := of_nat (dec_value maj)\<rparr>, s)"
    by (rule scan_next) (use m(3) l in \<open>simp_all add: sl_step_def sl_sw_major_digit_def\<close>)
  also have "\<dots> = scan_loop sl_step mem lst (Suc (Suc ?a)) sl_minor_digit
      (r\<lparr>http_major := of_nat (dec_value maj), http_minor := of_nat (digit_value d)\<rparr>, s)"
    by (rule scan_next) (use m(4) l c(4) nd [of d] in \<open>auto simp: sl_step_def sl_sw_first_minor_digit_def ucast_digit16\<close>)
  also have "\<dots> = scan_loop sl_step mem lst ?b sl_minor_digit (?r, s)"
    using sl_digit_scan(2) [OF c(5) m(5), of lst "digit_value d" "r\<lparr>http_major := of_nat (dec_value maj)\<rparr>"] l by (simp add: mnr)
  also have "\<dots> = scan_loop sl_step mem lst (Suc ?b) sl_status (?r, s)"
    by (rule scan_next) (use m(6) l in \<open>simp_all add: sl_step_def sl_sw_minor_digit_def\<close>)
  also have "\<dots> = scan_loop sl_step mem lst (Suc (Suc ?b)) sl_status (?r, ?s1)"
    by (rule scan_next) (use m(7) l dd nd assms(2) in \<open>auto simp: sl_step_def sl_sw_status_def ucast64_digit fresh_status_def Let_def\<close>)
  also have "\<dots> = scan_loop sl_step mem lst (Suc (Suc (Suc ?b))) sl_status (?r, ?s2)"
    by (rule scan_next) (use m(8) l dd nd in \<open>auto simp: sl_step_def sl_sw_status_def ucast64_digit Let_def\<close>)
  also have "\<dots> = scan_loop sl_step mem lst (?b + 4) sl_space_after_status (?r, ?s3)"
    by (rule scan_next) (use m(9) l dd nd in \<open>auto simp: sl_step_def sl_sw_status_def ucast64_digit Let_def\<close>)
  also have "\<dots> = scan_loop sl_step mem lst (?b + 5) sl_status_text (?r, ?s3)"
    by (rule scan_next) (use m(10) l in \<open>simp_all add: sl_step_def sl_sw_space_after_status_def\<close>)
  also have "\<dots> = scan_loop sl_step mem lst ?e sl_status_text (?r, ?s3)"
    using sl_text_scan [OF assms(10) m(11)] l by simp
  also have "\<dots> = scan_loop sl_step mem lst (Suc ?e) sl_almost_done (?r, ?s3)"
    by (rule scan_next) (use m(12) l in \<open>simp_all add: sl_step_def sl_sw_status_text_def\<close>)
  also have "\<dots> = Scan_goto l_done (Suc ?e) (?r, ?s3\<lparr>status_end := ?e\<rparr>)"
    by (rule scan_goto) (use m(13) l in \<open>simp_all add: sl_step_def sl_sw_almost_done_def Let_def\<close>)
  finally have run: "scan_loop sl_step mem lst pos sl_start (r, s) = \<dots>" .
  have "dec_value [d1, d2, d3] < 2 ^ 64"
    using digit_value_less [OF dd(1)] digit_value_less [OF dd(2)] digit_value_less [OF dd(3)] by simp
  then have code: "unat (of_nat (dec_value [d1, d2, d3]) :: uint64_t) = dec_value [d1, d2, d3]"
    by (simp only: unat_of_nat) simp
  have "holds mem (Suc ?b) ([d1, d2, d3] @ c_space # txt)"
    using m(7-11) by (simp add: eval_nat_numeral)
  then show ?thesis
    using run assms(1) code version_value [of "dec_value maj" "dec_value mnr"]
    by (simp add: ngx_http_parse_status_line_def Let_def maj mnr del: pos_value_simps)
qed

text \<open>
  The status line of a response, \<open>HTTP/\<close> with two numbers, three digits, a text and a line
  end, is accepted with the code the three digits denote; \<open>start\<close> points at the digits and
  \<open>end\<close> behind the text.
\<close>

theorem status_line_accepts:
  assumes "status_line_state r = sl_start" "fresh_status s"
    and "holds mem pos (bs ''HTTP/'' @ maj @ c_dot # mnr @ c_space # [d1, d2, d3] @ c_space # txt @ [CR, LF])"
    and "list_all is_digit maj" "hd maj \<noteq> c_0" "maj \<noteq> []" "list_all is_digit mnr" "mnr \<noteq> []"
    and "list_all is_digit [d1, d2, d3]" "\<forall>c\<in>set txt. c \<notin> {CR, LF}"
    and "pos + length maj + length mnr + length txt + 13 \<le> lst"
  shows "\<exists>r' s'. ngx_http_parse_status_line mem r \<lparr>buf_pos = pos, buf_last = lst\<rparr> s =
      (NGX_OK, r', \<lparr>buf_pos = pos + length maj + length mnr + length txt + 13, buf_last = lst\<rparr>, s') \<and>
    unat (status_code s') = dec_value [d1, d2, d3] \<and>
    unat (status_http_version s') = (dec_value maj mod 65536) * 1000 + dec_value mnr mod 65536 \<and>
    holds mem (status_start s') ([d1, d2, d3] @ c_space # txt) \<and> status_end s' = status_start s' + 4 + length txt"
  using status_line_run [OF assms] .


definition zero_status :: ngx_http_status_t where
  "zero_status = \<lparr>status_http_version = 0, status_code = 0, status_count = 0, status_start = NULL, status_end = NULL\<rparr>"

text \<open>An example response.\<close>

lemma response_example:
  "status_line_state init_request = sl_start" "fresh_status zero_status"
  "holds (mem_at 1 (bs ''HTTP/1.1 404 Not Found'' @ [CR, LF])) 1
     (bs ''HTTP/'' @ bs ''1'' @ c_dot # bs ''1'' @ c_space # [52, c_0, 52] @ c_space # bs ''Not Found'' @ [CR, LF])"
  "list_all is_digit (bs ''1'')" "hd (bs ''1'') \<noteq> c_0" "bs ''1'' \<noteq> []" "list_all is_digit (bs ''1'')" "bs ''1'' \<noteq> []"
  "list_all is_digit [52, c_0, 52]" "\<forall>c\<in>set (bs ''Not Found''). c \<notin> {CR, LF}"
  "1 + length (bs ''1'') + length (bs ''1'') + length (bs ''Not Found'') + 13 \<le> (25 :: nat)"
proof -
  have "bs ''HTTP/1.1 404 Not Found'' @ [CR, LF] =
      bs ''HTTP/'' @ bs ''1'' @ c_dot # bs ''1'' @ c_space # [52, c_0, 52] @ c_space # bs ''Not Found'' @ [CR, LF]"
    by simp
  then show "holds (mem_at 1 (bs ''HTTP/1.1 404 Not Found'' @ [CR, LF])) 1
     (bs ''HTTP/'' @ bs ''1'' @ c_dot # bs ''1'' @ c_space # [52, c_0, 52] @ c_space # bs ''Not Found'' @ [CR, LF])"
    using holds_mem_at by metis
qed (simp_all add: init_request_def fresh_status_def zero_status_def is_digit_def)

theorem status_line_accepts_witness:
  "\<exists>r' s'. ngx_http_parse_status_line (mem_at 1 (bs ''HTTP/1.1 404 Not Found'' @ [CR, LF])) init_request \<lparr>buf_pos = 1, buf_last = 25\<rparr>
      zero_status = (NGX_OK, r', \<lparr>buf_pos = 25, buf_last = 25\<rparr>, s') \<and> unat (status_code s') = 404 \<and> unat (status_http_version s') = 1001"
proof -
  have "dec_value [52, c_0, 52] = 404" "dec_value (bs ''1'') = 1" by (simp_all add: digit_value_def)
  note v = this
  obtain r' s' where "ngx_http_parse_status_line (mem_at 1 (bs ''HTTP/1.1 404 Not Found'' @ [CR, LF])) init_request
      \<lparr>buf_pos = 1, buf_last = 25\<rparr> zero_status =
      (NGX_OK, r', \<lparr>buf_pos = 1 + length (bs ''1'') + length (bs ''1'') + length (bs ''Not Found'') + 13, buf_last = 25\<rparr>, s')"
    "unat (status_code s') = dec_value [52, c_0, 52]"
    "unat (status_http_version s') = (dec_value (bs ''1'') mod 65536) * 1000 + dec_value (bs ''1'') mod 65536"
    using status_line_accepts [OF response_example] by blast
  then show ?thesis
    unfolding v by (intro exI [of _ r'] exI [of _ s']) (simp del: bs_simps)
qed

text \<open>
  Whatever a response sends as its status line, an accepted one has read exactly three
  digits, so the code is below 1000.
\<close>

theorem status_line_code_bound:
  assumes "status_line_state r = sl_start" "fresh_status s"
    and "ngx_http_parse_status_line mem r b s = (NGX_OK, r', b', s')"
  shows "unat (status_count s') = 3 \<and> unat (status_code s') < 1000"
proof (cases "scan_loop sl_step mem (buf_last b) (buf_pos b) sl_start (r, s)")
  case (Scan_goto l q v)
  then obtain st1 v1 where "sl_inv mem (buf_pos b) q st1 v1" "sl_step mem st1 (mem q) q v1 = Goto l v"
    using sl.run_goto [OF sl_inv_fresh [OF assms(2)] order_refl] by blast
  then show ?thesis using sl_done_count assms(1,3) Scan_goto
    by (cases v) (fastforce simp: ngx_http_parse_status_line_def Let_def split: if_splits)
next
  case (Scan_return c v)
  then show ?thesis using assms(1,3) sl_step_return [OF scan_loop_return [of sl_step, OF Scan_return]]
    by (cases v) (simp add: ngx_http_parse_status_line_def)
qed (use assms in \<open>auto simp: ngx_http_parse_status_line_def split: prod.splits\<close>)


theorem status_line_code_bound_witness:
  "\<exists>r' b' s'. ngx_http_parse_status_line (mem_at 1 (bs ''HTTP/1.1 404 Not Found'' @ [CR, LF])) init_request \<lparr>buf_pos = 1, buf_last = 25\<rparr>
      zero_status = (NGX_OK, r', b', s') \<and> unat (status_count s') = 3 \<and> unat (status_code s') < 1000"
proof -
  obtain r' b' s' where run: "ngx_http_parse_status_line (mem_at 1 (bs ''HTTP/1.1 404 Not Found'' @ [CR, LF])) init_request
      \<lparr>buf_pos = 1, buf_last = 25\<rparr> zero_status = (NGX_OK, r', b', s')"
    using status_line_run [OF response_example] by blast
  show ?thesis
    using status_line_code_bound [OF response_example(1,2) run] run by blast
qed

end
