(* ===== verification/Ngx_Http_Header_Line.thy ===== *)
theory Ngx_Http_Header_Line
  imports Ngx_Http
begin

text \<open>
  \<open>ngx_http_parse_header_line\<close> of \<open>http/ngx_http_parse.c\<close>: one definition per state of its
  \<open>switch\<close>, the dispatch, and the function around the loop.  The local variables \<open>hash\<close> and \<open>i\<close>
  live in the request while the loop runs; the function writes them back on the paths the code
  does.
\<close>

text \<open>The table \<open>lowcase\<close>: minus, digits and letters, the latter in lower case; zero elsewhere.\<close>

definition lowcase :: bytes where
  "lowcase =
     replicate 32 0 @
     replicate 13 0 @ [c_minus, 0, 0] @ bs ''0123456789'' @ replicate 6 0 @
     [0] @ bs ''abcdefghijklmnopqrstuvwxyz'' @ replicate 5 0 @
     [0] @ bs ''abcdefghijklmnopqrstuvwxyz'' @ replicate 5 0 @
     replicate 128 0"

text \<open>The request, \<open>hash\<close> and \<open>i\<close>.\<close>

record hl_vars =
  hl_r :: ngx_http_request_t
  hl_hash :: uint64_t
  hl_i :: nat

type_synonym hl_outcome = "(hl_state, hl_vars) step_outcome"

text \<open>\<open>r->lowcase_header[i++] = c; i &= (NGX_HTTP_LC_HEADER_LEN - 1);\<close>\<close>

definition hl_store :: "u_char \<Rightarrow> hl_vars \<Rightarrow> hl_vars" where
  "hl_store c v = v\<lparr>hl_r := (hl_r v)\<lparr>lowcase_header := (lowcase_header (hl_r v))[hl_i v := c]\<rparr>,
     hl_i := (hl_i v + 1) AND (NGX_HTTP_LC_HEADER_LEN - 1)\<rparr>"

definition hl_sw_start :: "u_char \<Rightarrow> ptr \<Rightarrow> hl_vars \<Rightarrow> hl_outcome" where
  "hl_sw_start ch p v =
     (let r = (hl_r v)\<lparr>header_name_start := p, invalid_header := False\<rparr>; v = v\<lparr>hl_r := r\<rparr> in
      if ch = CR then Next hl_header_almost_done (v\<lparr>hl_r := r\<lparr>header_end := p\<rparr>\<rparr>)
      else if ch = LF then Goto l_header_done (v\<lparr>hl_r := r\<lparr>header_end := p\<rparr>\<rparr>)
      else
        let c = lowcase ! unat ch in
        if c \<noteq> 0 then
          Next hl_name (v\<lparr>hl_hash := ngx_hash 0 c, hl_i := 1,
            hl_r := r\<lparr>lowcase_header := (lowcase_header r)[0 := c]\<rparr>\<rparr>)
        else if ch = c_NUL then Return NGX_HTTP_PARSE_INVALID_HEADER v
        else Next hl_name (v\<lparr>hl_r := r\<lparr>invalid_header := True\<rparr>\<rparr>))"

definition hl_sw_name :: "memory \<Rightarrow> bool \<Rightarrow> u_char \<Rightarrow> ptr \<Rightarrow> hl_vars \<Rightarrow> hl_outcome" where
  "hl_sw_name mem allow_underscores ch p v =
     (let r = hl_r v; c = lowcase ! unat ch in
      if c \<noteq> 0 then Next hl_name (hl_store c (v\<lparr>hl_hash := ngx_hash (hl_hash v) c\<rparr>))
      else if ch = c_underscore then
        if allow_underscores then Next hl_name (hl_store ch (v\<lparr>hl_hash := ngx_hash (hl_hash v) ch\<rparr>))
        else Next hl_name (v\<lparr>hl_r := r\<lparr>invalid_header := True\<rparr>\<rparr>)
      else if ch = c_colon then Next hl_space_before_value (v\<lparr>hl_r := r\<lparr>header_name_end := p\<rparr>\<rparr>)
      else if ch = CR then
        Next hl_almost_done (v\<lparr>hl_r := r\<lparr>header_name_end := p, header_start := p, header_end := p\<rparr>\<rparr>)
      else if ch = LF then
        Goto l_done (v\<lparr>hl_r := r\<lparr>header_name_end := p, header_start := p, header_end := p\<rparr>\<rparr>)
      else if ch = c_slash \<and> has_upstream r \<and> p - header_name_start r = 4 \<and>
          holds mem (header_name_start r) (bs ''HTTP'') then Next hl_ignore_line v
      else if ch = c_NUL then Return NGX_HTTP_PARSE_INVALID_HEADER v
      else Next hl_name (v\<lparr>hl_r := r\<lparr>invalid_header := True\<rparr>\<rparr>))"

definition hl_sw_space_before_value :: "u_char \<Rightarrow> ptr \<Rightarrow> hl_vars \<Rightarrow> hl_outcome" where
  "hl_sw_space_before_value ch p v =
     (let r = hl_r v in
      if ch = c_space then Next hl_space_before_value v
      else if ch = CR then Next hl_almost_done (v\<lparr>hl_r := r\<lparr>header_start := p, header_end := p\<rparr>\<rparr>)
      else if ch = LF then Goto l_done (v\<lparr>hl_r := r\<lparr>header_start := p, header_end := p\<rparr>\<rparr>)
      else if ch = c_NUL then Return NGX_HTTP_PARSE_INVALID_HEADER v
      else Next hl_value (v\<lparr>hl_r := r\<lparr>header_start := p\<rparr>\<rparr>))"

definition hl_sw_value :: "u_char \<Rightarrow> ptr \<Rightarrow> hl_vars \<Rightarrow> hl_outcome" where
  "hl_sw_value ch p v =
     (let r = hl_r v in
      if ch = c_space then Next hl_space_after_value (v\<lparr>hl_r := r\<lparr>header_end := p\<rparr>\<rparr>)
      else if ch = CR then Next hl_almost_done (v\<lparr>hl_r := r\<lparr>header_end := p\<rparr>\<rparr>)
      else if ch = LF then Goto l_done (v\<lparr>hl_r := r\<lparr>header_end := p\<rparr>\<rparr>)
      else if ch = c_NUL then Return NGX_HTTP_PARSE_INVALID_HEADER v
      else Next hl_value v)"

definition hl_sw_space_after_value :: "u_char \<Rightarrow> hl_vars \<Rightarrow> hl_outcome" where
  "hl_sw_space_after_value ch v =
     (if ch = c_space then Next hl_space_after_value v
      else if ch = CR then Next hl_almost_done v
      else if ch = LF then Goto l_done v
      else if ch = c_NUL then Return NGX_HTTP_PARSE_INVALID_HEADER v
      else Next hl_value v)"

definition hl_sw_ignore_line :: "u_char \<Rightarrow> hl_vars \<Rightarrow> hl_outcome" where
  "hl_sw_ignore_line ch v = (if ch = LF then Next hl_start v else Next hl_ignore_line v)"

definition hl_sw_almost_done :: "u_char \<Rightarrow> hl_vars \<Rightarrow> hl_outcome" where
  "hl_sw_almost_done ch v =
     (if ch = LF then Goto l_done v
      else if ch = CR then Next hl_almost_done v
      else Return NGX_HTTP_PARSE_INVALID_HEADER v)"

definition hl_sw_header_almost_done :: "u_char \<Rightarrow> hl_vars \<Rightarrow> hl_outcome" where
  "hl_sw_header_almost_done ch v =
     (if ch = LF then Goto l_header_done v else Return NGX_HTTP_PARSE_INVALID_HEADER v)"

definition hl_step :: "bool \<Rightarrow> memory \<Rightarrow> hl_state \<Rightarrow> u_char \<Rightarrow> ptr \<Rightarrow> hl_vars \<Rightarrow> hl_outcome" where
  "hl_step allow_underscores mem st ch p v =
     (case st of
        hl_start \<Rightarrow> hl_sw_start ch p v
      | hl_name \<Rightarrow> hl_sw_name mem allow_underscores ch p v
      | hl_space_before_value \<Rightarrow> hl_sw_space_before_value ch p v
      | hl_value \<Rightarrow> hl_sw_value ch p v
      | hl_space_after_value \<Rightarrow> hl_sw_space_after_value ch v
      | hl_ignore_line \<Rightarrow> hl_sw_ignore_line ch v
      | hl_almost_done \<Rightarrow> hl_sw_almost_done ch v
      | hl_header_almost_done \<Rightarrow> hl_sw_header_almost_done ch v)"

definition hl_save :: "hl_state \<Rightarrow> hl_vars \<Rightarrow> ngx_http_request_t" where
  "hl_save st v = (hl_r v)\<lparr>header_line_state := st, header_hash := hl_hash v, lowcase_index := hl_i v\<rparr>"

definition ngx_http_parse_header_line ::
  "memory \<Rightarrow> ngx_http_request_t \<Rightarrow> ngx_buf_t \<Rightarrow> bool \<Rightarrow> int \<times> ngx_http_request_t \<times> ngx_buf_t" where
  "ngx_http_parse_header_line mem r b allow_underscores =
     (case scan_loop (hl_step allow_underscores) mem (buf_last b) (buf_pos b) (header_line_state r)
          \<lparr>hl_r = r, hl_hash = header_hash r, hl_i = lowcase_index r\<rparr> of
        Scan_again p st v \<Rightarrow> (NGX_AGAIN, hl_save st v, b\<lparr>buf_pos := p\<rparr>)
      | Scan_return c v \<Rightarrow> (c, hl_r v, b)
      | Scan_goto l_done p v \<Rightarrow> (NGX_OK, hl_save hl_start v, b\<lparr>buf_pos := p + 1\<rparr>)
      | Scan_goto l_header_done p v \<Rightarrow>
          (NGX_HTTP_PARSE_HEADER_DONE, (hl_r v)\<lparr>header_line_state := hl_start\<rparr>, b\<lparr>buf_pos := p + 1\<rparr>))"

lemmas hl_defs = hl_sw_start_def hl_sw_name_def hl_sw_space_before_value_def hl_sw_value_def
  hl_sw_space_after_value_def hl_sw_ignore_line_def hl_sw_almost_done_def hl_sw_header_almost_done_def

subsection \<open>The invariant\<close>

definition hl_inv :: "memory \<Rightarrow> ptr \<Rightarrow> ptr \<Rightarrow> hl_state \<Rightarrow> hl_vars \<Rightarrow> bool" where
  "hl_inv mem lo p st v \<longleftrightarrow>
     hl_i v < NGX_HTTP_LC_HEADER_LEN \<and> length (lowcase_header (hl_r v)) = NGX_HTTP_LC_HEADER_LEN \<and>
     (st \<notin> {hl_start, hl_ignore_line, hl_header_almost_done} \<longrightarrow> lo \<le> header_name_start (hl_r v) \<and> header_name_start (hl_r v) < p)"

lemma and_31: "n AND 31 < (32 :: nat)"
proof -
  have "n AND 31 = take_bit 5 n" by (simp add: take_bit_eq_mask mask_eq_exp_minus_1)
  then show ?thesis using take_bit_nat_less_exp [of 5 n] by simp
qed

lemma hl_inv_step:
  assumes "hl_inv mem lo p st v" "lo \<le> p" "hl_step au mem st (mem p) p v = Next st' v'"
  shows "hl_inv mem lo (Suc p) st' v'"
  using assms
  by (cases st; hypsubst; auto simp: hl_step_def hl_defs hl_inv_def hl_store_def Let_def and_31 split: if_splits)

lemma hl_inv_done:
  assumes "hl_inv mem lo p st v" "lo \<le> p" "hl_step au mem st (mem p) p v = Goto l v'"
  shows "hl_i v' < NGX_HTTP_LC_HEADER_LEN \<and> length (lowcase_header (hl_r v')) = NGX_HTTP_LC_HEADER_LEN"
  using assms
  by (cases st; hypsubst; auto simp: hl_step_def hl_defs hl_inv_def hl_store_def Let_def and_31 split: if_splits)

lemma holds_local: "same_mem lo hi mem mem' \<Longrightarrow> lo \<le> a \<Longrightarrow> a + length s \<le> hi \<Longrightarrow> holds mem' a s \<longleftrightarrow> holds mem a s"
  by (auto simp: holds_nth same_mem_def)

lemma hl_step_local:
  assumes "hl_inv mem lo p st v" "same_mem lo (Suc p) mem mem'"
  shows "hl_step au mem' st c p v = hl_step au mem st c p v"
proof (cases st)
  case hl_name
  then have "p - header_name_start (hl_r v) = 4 \<Longrightarrow>
      holds mem' (header_name_start (hl_r v)) (bs ''HTTP'') \<longleftrightarrow> holds mem (header_name_start (hl_r v)) (bs ''HTTP'')"
    using assms by (intro holds_local) (auto simp: hl_inv_def)
  then show ?thesis using hl_name by (simp add: hl_step_def hl_sw_name_def Let_def del: bs_simps cong: conj_cong)
qed (simp_all add: hl_step_def)

interpretation hl: scanner "hl_step au" hl_inv for au
  by unfold_locales (blast intro: hl_inv_step, blast intro: hl_step_local)


definition hl_save_vars :: "hl_state \<times> uint64_t \<times> nat \<Rightarrow> hl_vars \<Rightarrow> hl_vars" where
  "hl_save_vars = (\<lambda>(st, h, i) v. v\<lparr>hl_r := (hl_r v)\<lparr>header_line_state := st, header_hash := h, lowcase_index := i\<rparr>\<rparr>)"

lemma hl_save_proj:
  "header_name_start (hl_r (hl_save_vars s v)) = header_name_start (hl_r v)"
  "has_upstream (hl_r (hl_save_vars s v)) = has_upstream (hl_r v)"
  "hl_hash (hl_save_vars s v) = hl_hash v" "hl_i (hl_save_vars s v) = hl_i v"
  by (simp_all add: hl_save_vars_def split: prod.split)

lemma hl_save_upd:
  "(hl_save_vars s v)\<lparr>hl_hash := h\<rparr> = hl_save_vars s (v\<lparr>hl_hash := h\<rparr>)"
  "hl_store ch (hl_save_vars s v) = hl_save_vars s (hl_store ch v)"
  "(hl_save_vars s v)\<lparr>hl_r := (hl_r (hl_save_vars s v))\<lparr>invalid_header := x\<rparr>\<rparr> = hl_save_vars s (v\<lparr>hl_r := (hl_r v)\<lparr>invalid_header := x\<rparr>\<rparr>)"
  "(hl_save_vars s v)\<lparr>hl_r := (hl_r (hl_save_vars s v))\<lparr>header_name_end := p\<rparr>\<rparr> = hl_save_vars s (v\<lparr>hl_r := (hl_r v)\<lparr>header_name_end := p\<rparr>\<rparr>)"
  "(hl_save_vars s v)\<lparr>hl_r := (hl_r (hl_save_vars s v))\<lparr>header_name_end := p, header_start := p, header_end := p\<rparr>\<rparr> =
     hl_save_vars s (v\<lparr>hl_r := (hl_r v)\<lparr>header_name_end := p, header_start := p, header_end := p\<rparr>\<rparr>)"
  by (simp_all add: hl_save_vars_def hl_store_def split: prod.split)

lemma hl_step_save:
  "hl_step au mem st c p (hl_save_vars s v) = map_step_outcome id (hl_save_vars s) (hl_step au mem st c p v)"
proof (cases st)
  case hl_start
  then show ?thesis by (simp add: hl_step_def hl_sw_start_def Let_def hl_save_vars_def split: prod.split)
next
  case hl_name
  then show ?thesis
    by (simp only: hl_step_def hl_state.case hl_sw_name_def Let_def hl_save_proj hl_save_upd
        if_distrib [of "map_step_outcome id (hl_save_vars s)"] step_outcome.map id_apply)
qed (simp_all add: hl_step_def hl_defs Let_def hl_save_vars_def split: prod.split)

interpretation hl_save: saving_scanner "hl_step au" hl_inv hl_save_vars for au
proof unfold_locales
  show "hl_inv mem lo p st (hl_save_vars s v) = hl_inv mem lo p st v" for mem lo p st s v
    by (cases s) (simp add: hl_inv_def hl_save_vars_def)
qed (rule hl_step_save)

subsection \<open>Header lines\<close>


definition low :: "u_char \<Rightarrow> u_char" where
  "low c = (if c = c_underscore then c else lowcase ! unat c)"

definition name_char :: "bool \<Rightarrow> u_char \<Rightarrow> bool" where
  "name_char au c \<longleftrightarrow> lowcase ! unat c \<noteq> 0 \<or> (c = c_underscore \<and> au)"


lemma lowcase_special: "lowcase ! 0 = 0" "lowcase ! 10 = 0" "lowcase ! 13 = 0" "lowcase ! 32 = 0" "lowcase ! 58 = 0" "lowcase ! 95 = 0"
  by code_simp+

text \<open>Storing a name: the index wraps at the length of \<open>lowcase_header\<close>.\<close>

fun store_name :: "bytes \<Rightarrow> nat \<Rightarrow> bytes \<Rightarrow> bytes" where
  "store_name lc i [] = lc"
| "store_name lc i (c # s) = store_name (lc[i := c]) ((i + 1) AND (NGX_HTTP_LC_HEADER_LEN - 1)) s"

lemma and_31_mod: "n AND 31 = n mod (32 :: nat)"
proof -
  have "n AND 31 = take_bit 5 n" by (simp add: take_bit_eq_mask mask_eq_exp_minus_1)
  then show ?thesis by (simp add: take_bit_eq_mod)
qed


lemma hl_name_scan:
  "\<forall>c\<in>set s. name_char au c \<Longrightarrow> holds mem p s \<Longrightarrow> p + length s \<le> lst \<Longrightarrow> i < 32 \<Longrightarrow>
    scan_loop (hl_step au) mem lst p hl_name \<lparr>hl_r = r\<lparr>lowcase_header := lc\<rparr>, hl_hash = h, hl_i = i\<rparr> =
    scan_loop (hl_step au) mem lst (p + length s) hl_name
      \<lparr>hl_r = r\<lparr>lowcase_header := store_name lc i (map low s)\<rparr>, hl_hash = foldl ngx_hash h (map low s),
       hl_i = (i + length s) mod 32\<rparr>"
proof (induction s arbitrary: p lc h i)
  case (Cons c s)
  let ?v = "\<lparr>hl_r = r\<lparr>lowcase_header := lc\<rparr>, hl_hash = h, hl_i = i\<rparr>"
  have c: "mem p = c" using Cons.prems(2) by simp
  have s: "hl_step au mem hl_name c p ?v =
      Next hl_name \<lparr>hl_r = r\<lparr>lowcase_header := lc[i := low c]\<rparr>, hl_hash = ngx_hash h (low c), hl_i = (i + 1) mod 32\<rparr>"
  proof (cases "c = c_underscore")
    case True
    then show ?thesis using Cons.prems(1)
      by (simp add: hl_step_def hl_sw_name_def hl_store_def low_def name_char_def lowcase_special and_31_mod)
  next
    case False
    then show ?thesis using Cons.prems(1)
      by (simp add: hl_step_def hl_sw_name_def hl_store_def low_def name_char_def and_31_mod Let_def)
  qed
  have m: "(Suc i mod 32 + length s) mod 32 = Suc (i + length s) mod 32" by (simp add: mod_simps)
  have "(i + 1) mod 32 < (32 :: nat)" by simp
  then show ?case
    using Cons.prems Cons.IH [of "Suc p" "(i + 1) mod 32" "lc[i := low c]" "ngx_hash h (low c)"]
    by (simp add: scan_loop_step c s and_31_mod m)
qed simp










text \<open>
  A name that begins with an underscore is marked invalid even when underscores are allowed,
  and its hash is not started afresh: the header that follows inherits \<open>header_hash\<close> and
  \<open>lowcase_index\<close> of the line before.
\<close>

theorem header_line_underscore_first:
  assumes "header_line_state r = hl_start"
    and "holds mem pos (c_underscore # name @ [c_colon, LF])" "\<forall>c\<in>set name. name_char True c"
    and "lowcase_index r < NGX_HTTP_LC_HEADER_LEN" "pos + length name + 3 \<le> lst"
  shows "\<exists>r'. ngx_http_parse_header_line mem r \<lparr>buf_pos = pos, buf_last = lst\<rparr> True =
      (NGX_OK, r', \<lparr>buf_pos = pos + length name + 3, buf_last = lst\<rparr>) \<and>
    invalid_header r' \<and> header_hash r' = foldl ngx_hash (header_hash r) (map low name) \<and>
    lowcase_index r' = (lowcase_index r + length name) mod NGX_HTTP_LC_HEADER_LEN"
proof -
  let ?n = "Suc pos + length name"
  have m: "mem pos = c_underscore" "holds mem (Suc pos) name" "mem ?n = c_colon" "mem (Suc ?n) = LF"
    using assms(2) by (simp_all add: holds_append)
  let ?r = "r\<lparr>header_name_start := pos, invalid_header := True\<rparr>"
  let ?v = "\<lparr>hl_r = ?r\<lparr>lowcase_header := store_name (lowcase_header r) (lowcase_index r) (map low name)\<rparr>,
      hl_hash = foldl ngx_hash (header_hash r) (map low name), hl_i = (lowcase_index r + length name) mod 32\<rparr>"
  let ?w = "?v\<lparr>hl_r := (hl_r ?v)\<lparr>header_name_end := ?n\<rparr>\<rparr>"
  have "scan_loop (hl_step True) mem lst pos hl_start \<lparr>hl_r = r, hl_hash = header_hash r, hl_i = lowcase_index r\<rparr> =
      scan_loop (hl_step True) mem lst (Suc pos) hl_name
        \<lparr>hl_r = ?r\<lparr>lowcase_header := lowcase_header r\<rparr>, hl_hash = header_hash r, hl_i = lowcase_index r\<rparr>"
    by (rule scan_next) (use m(1) assms(5) lowcase_special in \<open>simp_all add: hl_step_def hl_sw_start_def Let_def\<close>)
  also have "\<dots> = scan_loop (hl_step True) mem lst ?n hl_name ?v"
    using hl_name_scan [OF assms(3) m(2), where lst = lst and i = "lowcase_index r" and r = ?r and lc = "lowcase_header r"] assms(4,5)
    by simp
  also have "\<dots> = scan_loop (hl_step True) mem lst (Suc ?n) hl_space_before_value ?w"
    by (rule scan_next) (use m(3) assms(5) lowcase_special in \<open>simp_all add: hl_step_def hl_sw_name_def Let_def\<close>)
  also have "\<dots> = Scan_goto l_done (Suc ?n) (?w\<lparr>hl_r := (hl_r ?w)\<lparr>header_start := Suc ?n, header_end := Suc ?n\<rparr>\<rparr>)"
    by (rule scan_goto) (use m(4) assms(5) in \<open>simp_all add: hl_step_def hl_sw_space_before_value_def Let_def\<close>)
  finally show ?thesis
    using assms(1) by (simp add: ngx_http_parse_header_line_def hl_save_def)
qed

theorem header_line_underscore_first_witness:
  "\<exists>r'. ngx_http_parse_header_line (mem_at 1 (bs ''_a:'' @ [LF])) (init_request\<lparr>header_hash := 7\<rparr>) \<lparr>buf_pos = 1, buf_last = 5\<rparr> True =
      (NGX_OK, r', \<lparr>buf_pos = 5, buf_last = 5\<rparr>) \<and> invalid_header r' \<and> header_hash r' = 7 * 31 + 97"
proof -
  have h: "holds (mem_at 1 (bs ''_a:'' @ [LF])) 1 (c_underscore # [c_a] @ [c_colon, LF])"
    using holds_mem_at [of 1 "bs ''_a:'' @ [LF]"] by simp
  have "low c_a = c_a" "name_char True c_a" unfolding name_char_def by code_simp+
  then show ?thesis
    using header_line_underscore_first [OF _ h, where lst = 5 and r = "init_request\<lparr>header_hash := 7\<rparr>"]
    by (auto simp: init_request_def ngx_hash_def)
qed

text \<open>
  What a caller sees of a result: the end of the header and a failing call leave the saved
  variables (and, on failure, the position) as they were before the call.
\<close>

definition hl_visible :: "int \<times> ngx_http_request_t \<times> ngx_buf_t \<Rightarrow> int \<times> ngx_http_request_t \<times> ngx_buf_t option" where
  "hl_visible x = (case x of (c, r, b) \<Rightarrow>
     if c = NGX_HTTP_PARSE_INVALID_HEADER
     then (c, r\<lparr>header_line_state := hl_start, header_hash := 0, lowcase_index := 0\<rparr>, None)
     else if c = NGX_HTTP_PARSE_HEADER_DONE
     then (c, r\<lparr>header_line_state := hl_start, header_hash := 0, lowcase_index := 0\<rparr>, Some b)
     else (c, r, Some b))"

lemma hl_step_return: "\<exists>mem st p r. hl_step au mem st (mem p) p r = Return c r' \<Longrightarrow> c = NGX_HTTP_PARSE_INVALID_HEADER"
proof (elim exE)
  fix mem st p r
  assume "hl_step au mem st (mem p) p r = Return c r'"
  then show "c = NGX_HTTP_PARSE_INVALID_HEADER"
    by (cases st; hypsubst; simp add: hl_step_def hl_defs Let_def del: bs_simps split: if_splits)
qed

text \<open>
  The header-line parser can be stopped at the end of the received bytes and resumed: a call
  that returns \<open>NGX_AGAIN\<close>, followed by a call on the longer buffer, gives the code, request and
  position of one call on the longer buffer, and the request in between satisfies the parser's
  invariant (among it that \<open>lowcase_index\<close> stays below the length of \<open>lowcase_header\<close>).
\<close>

theorem header_line_resume:
  assumes "hl_inv mem lo (buf_pos b) (header_line_state r) \<lparr>hl_r = r, hl_hash = header_hash r, hl_i = lowcase_index r\<rparr>"
    and "lo \<le> buf_pos b" and "ngx_http_parse_header_line mem r b au = (NGX_AGAIN, r1, b1)"
    and "buf_last b \<le> lst" and "same_mem lo (buf_last b) mem mem'"
  shows "hl_visible (ngx_http_parse_header_line mem' r1 (b1\<lparr>buf_last := lst\<rparr>) au) =
      hl_visible (ngx_http_parse_header_line mem' r (b\<lparr>buf_last := lst\<rparr>) au) \<and>
    hl_inv mem lo (buf_pos b1) (header_line_state r1) \<lparr>hl_r = r1, hl_hash = header_hash r1, hl_i = lowcase_index r1\<rparr>"
proof -
  let ?v = "\<lparr>hl_r = r, hl_hash = header_hash r, hl_i = lowcase_index r\<rparr>"
  obtain q st' v where again: "scan_loop (hl_step au) mem (buf_last b) (buf_pos b) (header_line_state r) ?v = Scan_again q st' v"
  proof (cases "scan_loop (hl_step au) mem (buf_last b) (buf_pos b) (header_line_state r) ?v")
    case (Scan_return c v')
    then show ?thesis using assms(3) hl_step_return [of au, OF scan_loop_return [of "hl_step au", OF Scan_return]]
      by (simp add: ngx_http_parse_header_line_def)
  next
    case (Scan_goto l p v')
    then show ?thesis using assms(3) by (cases l) (simp_all add: ngx_http_parse_header_line_def)
  qed
  let ?w = "hl_save_vars (st', hl_hash v, hl_i v) v"
  have r1: "r1 = hl_save st' v" "b1 = b\<lparr>buf_pos := q\<rparr>"
    using assms(3) again by (auto simp: ngx_http_parse_header_line_def)
  then have w: "\<lparr>hl_r = r1, hl_hash = header_hash r1, hl_i = lowcase_index r1\<rparr> = ?w" "header_line_state r1 = st'"
    by (simp_all add: hl_save_def hl_save_vars_def)
  have inv: "hl_inv mem lo q st' ?w"
    using hl.run_inv [OF assms(1,2) again] hl_save.inv_save by blast
  have run: "scan_loop (hl_step au) mem' lst q st' ?w =
      map_scan_result id (hl_save_vars (st', hl_hash v, hl_i v))
        (scan_loop (hl_step au) mem' lst (buf_pos b) (header_line_state r) ?v)"
    using hl.run_resume [OF assms(1,2) again assms(4,5)] hl_save.run_save by metis
  have "hl_visible (ngx_http_parse_header_line mem' r1 (b1\<lparr>buf_last := lst\<rparr>) au) =
      hl_visible (ngx_http_parse_header_line mem' r (b\<lparr>buf_last := lst\<rparr>) au)"
  proof (cases "scan_loop (hl_step au) mem' lst (buf_pos b) (header_line_state r) ?v")
    case (Scan_return c v')
    then show ?thesis using hl_step_return [of au, OF scan_loop_return [of "hl_step au", OF Scan_return]]
      by (simp add: w r1(2) run ngx_http_parse_header_line_def) (simp add: hl_visible_def hl_save_vars_def)
  next
    case (Scan_goto l p v')
    then show ?thesis
      by (cases l; simp add: w r1(2) run ngx_http_parse_header_line_def; simp add: hl_visible_def hl_save_vars_def hl_save_def)
  qed (simp add: w r1(2) run ngx_http_parse_header_line_def, simp add: hl_visible_def hl_save_vars_def hl_save_def)
  then show ?thesis using inv by (simp add: w r1(2))
qed


theorem header_line_resume_witness:
  "\<exists>r1 b1. ngx_http_parse_header_line (mem_at 1 (bs ''A'')) init_request \<lparr>buf_pos = 1, buf_last = 2\<rparr> False = (NGX_AGAIN, r1, b1) \<and>
    hl_visible (ngx_http_parse_header_line (mem_at 1 (bs ''Ab:'')) r1 (b1\<lparr>buf_last := 4\<rparr>) False) =
    hl_visible (ngx_http_parse_header_line (mem_at 1 (bs ''Ab:'')) init_request \<lparr>buf_pos = 1, buf_last = 4\<rparr> False)"
proof -
  let ?b = "\<lparr>buf_pos = 1, buf_last = 2\<rparr>"
  have i: "hl_inv (mem_at 1 (bs ''A'')) 1 (buf_pos ?b) (header_line_state init_request)
      \<lparr>hl_r = init_request, hl_hash = header_hash init_request, hl_i = lowcase_index init_request\<rparr>"
    by (simp add: hl_inv_def init_request_def)
  have "mem_at 1 (bs ''A'') 1 = c_A" "lowcase ! unat c_A = c_a" by (simp add: mem_at_def) code_simp
  then obtain r1 b1 where run: "ngx_http_parse_header_line (mem_at 1 (bs ''A'')) init_request ?b False = (NGX_AGAIN, r1, b1)"
    by (simp add: ngx_http_parse_header_line_def scan_loop_step scan_loop_end hl_step_def hl_sw_start_def Let_def init_request_def)
  have "same_mem 1 2 (mem_at 1 (bs ''A'')) (mem_at 1 (bs ''Ab:''))"
    by (auto simp: same_mem_def mem_at_def)
  then show ?thesis
    using header_line_resume [OF i _ run, of 4 "mem_at 1 (bs ''Ab:'')"] run by (auto simp del: bs_simps)
qed

end
