(* ===== verification/Ngx_Http_Request_Line.thy ===== *)
theory Ngx_Http_Request_Line
  imports Ngx_Http Ngx_Bitmap
begin

text \<open>
  \<open>ngx_http_parse_request_line\<close> of \<open>http/ngx_http_parse.c\<close>: one definition per state of its
  \<open>switch\<close>, the dispatch, and the function around the loop.
\<close>

subsection \<open>The comparison macros\<close>

text \<open>
  The configured platform is little endian and allows unaligned reads, so the macros compare
  32-bit words.  The byte-wise variants are the ones of the other platforms.
\<close>

definition load32 :: "memory \<Rightarrow> ptr \<Rightarrow> uint32_t" where
  "load32 mem m = push_bit 24 (ucast (mem (m + 3))) OR push_bit 16 (ucast (mem (m + 2)))
     OR push_bit 8 (ucast (mem (m + 1))) OR ucast (mem m)"

definition word4 :: "u_char \<Rightarrow> u_char \<Rightarrow> u_char \<Rightarrow> u_char \<Rightarrow> uint32_t" where
  "word4 c0 c1 c2 c3 = push_bit 24 (ucast c3) OR push_bit 16 (ucast c2) OR push_bit 8 (ucast c1) OR ucast c0"

definition ngx_str4cmp :: "memory \<Rightarrow> ptr \<Rightarrow> string \<Rightarrow> bool" where
  "ngx_str4cmp mem m s \<longleftrightarrow> load32 mem m = word4 (bs s ! 0) (bs s ! 1) (bs s ! 2) (bs s ! 3)"

definition ngx_str5cmp :: "memory \<Rightarrow> ptr \<Rightarrow> string \<Rightarrow> bool" where
  "ngx_str5cmp mem m s \<longleftrightarrow>
     load32 mem m = word4 (bs s ! 0) (bs s ! 1) (bs s ! 2) (bs s ! 3) \<and> mem (m + 4) = bs s ! 4"

definition ngx_str6cmp :: "memory \<Rightarrow> ptr \<Rightarrow> string \<Rightarrow> bool" where
  "ngx_str6cmp mem m s \<longleftrightarrow>
     load32 mem m = word4 (bs s ! 0) (bs s ! 1) (bs s ! 2) (bs s ! 3) \<and>
     load32 mem (m + 4) AND 0xffff = push_bit 8 (ucast (bs s ! 5)) OR ucast (bs s ! 4)"

definition ngx_str8cmp :: "memory \<Rightarrow> ptr \<Rightarrow> string \<Rightarrow> bool" where
  "ngx_str8cmp mem m s \<longleftrightarrow>
     load32 mem m = word4 (bs s ! 0) (bs s ! 1) (bs s ! 2) (bs s ! 3) \<and>
     load32 mem (m + 4) = word4 (bs s ! 4) (bs s ! 5) (bs s ! 6) (bs s ! 7)"

definition ngx_str9cmp :: "memory \<Rightarrow> ptr \<Rightarrow> string \<Rightarrow> bool" where
  "ngx_str9cmp mem m s \<longleftrightarrow>
     load32 mem m = word4 (bs s ! 0) (bs s ! 1) (bs s ! 2) (bs s ! 3) \<and>
     load32 mem (m + 4) = word4 (bs s ! 4) (bs s ! 5) (bs s ! 6) (bs s ! 7) \<and> mem (m + 8) = bs s ! 8"

text \<open>The \<open>switch (p - m)\<close>: the method of a name of \<open>n\<close> bytes at \<open>m\<close>, or the one set before.\<close>

definition rl_method_of :: "memory \<Rightarrow> ptr \<Rightarrow> nat \<Rightarrow> nat \<Rightarrow> nat" where
  "rl_method_of mem m n cur =
     (if n = 3 then
        if ngx_str4cmp mem m ''GET '' then NGX_HTTP_GET
        else if ngx_str4cmp mem m ''PUT '' then NGX_HTTP_PUT
        else cur
      else if n = 4 then
        if mem (m + 1) = 79 \<comment> \<open>O\<close> then
          if ngx_str4cmp mem m ''POST'' then NGX_HTTP_POST
          else if ngx_str4cmp mem m ''COPY'' then NGX_HTTP_COPY
          else if ngx_str4cmp mem m ''MOVE'' then NGX_HTTP_MOVE
          else if ngx_str4cmp mem m ''LOCK'' then NGX_HTTP_LOCK
          else cur
        else if ngx_str4cmp mem m ''HEAD'' then NGX_HTTP_HEAD
        else cur
      else if n = 5 then
        let cur = (if ngx_str5cmp mem m ''MKCOL'' then NGX_HTTP_MKCOL else cur);
            cur = (if ngx_str5cmp mem m ''PATCH'' then NGX_HTTP_PATCH else cur)
        in if ngx_str5cmp mem m ''TRACE'' then NGX_HTTP_TRACE else cur
      else if n = 6 then
        if ngx_str6cmp mem m ''DELETE'' then NGX_HTTP_DELETE
        else if ngx_str6cmp mem m ''UNLOCK'' then NGX_HTTP_UNLOCK
        else cur
      else if n = 7 then
        if ngx_str8cmp mem m ''OPTIONS '' then NGX_HTTP_OPTIONS else cur
      else if n = 8 then
        if ngx_str8cmp mem m ''PROPFIND'' then NGX_HTTP_PROPFIND else cur
      else if n = 9 then
        if ngx_str9cmp mem m ''PROPPATCH'' then NGX_HTTP_PROPPATCH else cur
      else cur)"

subsection \<open>The states\<close>

type_synonym rl_outcome = "(rl_state, ngx_http_request_t) step_outcome"

definition usual :: "uint32_t list" where
  "usual = [0xffffdbfe, 0x7fff37d6, 0xffffffff, 0xffffffff,
     0xffffffff, 0xffffffff, 0xffffffff, 0xffffffff]"

text \<open>\<open>usual[ch >> 5] & (1 << (ch & 0x1f))\<close>\<close>

definition is_usual :: "u_char \<Rightarrow> bool" where
  "is_usual ch \<longleftrightarrow> bitmap_test usual ch"

definition rl_sw_start :: "u_char \<Rightarrow> ptr \<Rightarrow> ngx_http_request_t \<Rightarrow> rl_outcome" where
  "rl_sw_start ch p r =
     (let r = r\<lparr>request_start := p\<rparr> in
      if ch = CR \<or> ch = LF then Next rl_start r
      else if (ch < c_A \<or> ch > c_Z) \<and> ch \<noteq> c_underscore then Return NGX_HTTP_PARSE_INVALID_METHOD r
      else Next rl_method r)"

definition rl_sw_method :: "memory \<Rightarrow> u_char \<Rightarrow> ptr \<Rightarrow> ngx_http_request_t \<Rightarrow> rl_outcome" where
  "rl_sw_method mem ch p r =
     (if ch = c_space then
        let m = request_start r in
        Next rl_spaces_before_uri
          (r\<lparr>method_end := p - 1, http_method := rl_method_of mem m (p - m) (http_method r)\<rparr>)
      else if (ch < c_A \<or> ch > c_Z) \<and> ch \<noteq> c_underscore then Return NGX_HTTP_PARSE_INVALID_METHOD r
      else Next rl_method r)"

definition rl_sw_spaces_before_uri :: "u_char \<Rightarrow> ptr \<Rightarrow> ngx_http_request_t \<Rightarrow> rl_outcome" where
  "rl_sw_spaces_before_uri ch p r =
     (if ch = c_slash then Next rl_after_slash_in_uri (r\<lparr>uri_start := p\<rparr>)
      else let c = ch OR 0x20 in
        if c \<ge> c_a \<and> c \<le> c_z then Next rl_schema (r\<lparr>schema_start := p\<rparr>)
        else if ch = c_space then Next rl_spaces_before_uri r
        else Return NGX_HTTP_PARSE_INVALID_REQUEST r)"

definition rl_sw_schema :: "u_char \<Rightarrow> ptr \<Rightarrow> ngx_http_request_t \<Rightarrow> rl_outcome" where
  "rl_sw_schema ch p r =
     (let c = ch OR 0x20 in
      if c \<ge> c_a \<and> c \<le> c_z then Next rl_schema r
      else if ch = c_colon then Next rl_schema_slash (r\<lparr>schema_end := p\<rparr>)
      else Return NGX_HTTP_PARSE_INVALID_REQUEST r)"

definition rl_sw_schema_slash :: "u_char \<Rightarrow> ptr \<Rightarrow> ngx_http_request_t \<Rightarrow> rl_outcome" where
  "rl_sw_schema_slash ch p r =
     (if ch = c_slash then Next rl_schema_slash_slash r else Return NGX_HTTP_PARSE_INVALID_REQUEST r)"

definition rl_sw_schema_slash_slash :: "u_char \<Rightarrow> ptr \<Rightarrow> ngx_http_request_t \<Rightarrow> rl_outcome" where
  "rl_sw_schema_slash_slash ch p r =
     (if ch = c_slash then Next rl_host_start r else Return NGX_HTTP_PARSE_INVALID_REQUEST r)"

definition rl_sw_host_end :: "u_char \<Rightarrow> ptr \<Rightarrow> ngx_http_request_t \<Rightarrow> rl_outcome" where
  "rl_sw_host_end ch p r =
     (let r = r\<lparr>host_end := p\<rparr> in
      if ch = c_colon then Next rl_port r
      else if ch = c_slash then Next rl_after_slash_in_uri (r\<lparr>uri_start := p\<rparr>)
      else if ch = c_space then
        Next rl_host_http_09 (r\<lparr>uri_start := schema_end r + 1, uri_end := schema_end r + 2\<rparr>)
      else Return NGX_HTTP_PARSE_INVALID_REQUEST r)"

definition rl_sw_host :: "u_char \<Rightarrow> ptr \<Rightarrow> ngx_http_request_t \<Rightarrow> rl_outcome" where
  "rl_sw_host ch p r =
     (let c = ch OR 0x20 in
      if c \<ge> c_a \<and> c \<le> c_z then Next rl_host r
      else if (ch \<ge> c_0 \<and> ch \<le> c_9) \<or> ch = c_dot \<or> ch = c_minus then Next rl_host r
      else rl_sw_host_end ch p r)"

definition rl_sw_host_start :: "u_char \<Rightarrow> ptr \<Rightarrow> ngx_http_request_t \<Rightarrow> rl_outcome" where
  "rl_sw_host_start ch p r =
     (let r = r\<lparr>host_start := p\<rparr> in
      if ch = c_lbrack then Next rl_host_ip_literal r else rl_sw_host ch p r)"

definition rl_sw_host_ip_literal :: "u_char \<Rightarrow> ptr \<Rightarrow> ngx_http_request_t \<Rightarrow> rl_outcome" where
  "rl_sw_host_ip_literal ch p r =
     (if ch \<ge> c_0 \<and> ch \<le> c_9 then Next rl_host_ip_literal r
      else let c = ch OR 0x20 in
        if c \<ge> c_a \<and> c \<le> c_z then Next rl_host_ip_literal r
        else if ch = c_colon then Next rl_host_ip_literal r
        else if ch = c_rbrack then Next rl_host_end r
        else if ch = c_minus \<or> ch = c_dot \<or> ch = c_underscore \<or> ch = c_tilde then Next rl_host_ip_literal r
        else if ch = c_excl \<or> ch = c_dollar \<or> ch = c_amp \<or> ch = c_apos \<or> ch = c_lpar \<or> ch = c_rpar \<or>
          ch = c_star \<or> ch = c_plus \<or> ch = c_comma \<or> ch = c_semi \<or> ch = c_eq then Next rl_host_ip_literal r
        else Return NGX_HTTP_PARSE_INVALID_REQUEST r)"

definition rl_sw_port :: "u_char \<Rightarrow> ptr \<Rightarrow> ngx_http_request_t \<Rightarrow> rl_outcome" where
  "rl_sw_port ch p r =
     (if ch \<ge> c_0 \<and> ch \<le> c_9 then Next rl_port r
      else if ch = c_slash then Next rl_after_slash_in_uri (r\<lparr>port_end := p, uri_start := p\<rparr>)
      else if ch = c_space then
        Next rl_host_http_09
          (r\<lparr>port_end := p, uri_start := schema_end r + 1, uri_end := schema_end r + 2\<rparr>)
      else Return NGX_HTTP_PARSE_INVALID_REQUEST r)"

definition rl_sw_host_http_09 :: "u_char \<Rightarrow> ptr \<Rightarrow> ngx_http_request_t \<Rightarrow> rl_outcome" where
  "rl_sw_host_http_09 ch p r =
     (if ch = c_space then Next rl_host_http_09 r
      else if ch = CR then Next rl_almost_done (r\<lparr>http_minor := 9\<rparr>)
      else if ch = LF then Goto l_done (r\<lparr>http_minor := 9\<rparr>)
      else if ch = c_H then Next rl_http_H (r\<lparr>http_protocol_data := p\<rparr>)
      else Return NGX_HTTP_PARSE_INVALID_REQUEST r)"

definition rl_sw_after_slash_in_uri :: "u_char \<Rightarrow> ptr \<Rightarrow> ngx_http_request_t \<Rightarrow> rl_outcome" where
  "rl_sw_after_slash_in_uri ch p r =
     (if is_usual ch then Next rl_check_uri r
      else if ch = c_space then Next rl_check_uri_http_09 (r\<lparr>uri_end := p\<rparr>)
      else if ch = CR then Next rl_almost_done (r\<lparr>uri_end := p, http_minor := 9\<rparr>)
      else if ch = LF then Goto l_done (r\<lparr>uri_end := p, http_minor := 9\<rparr>)
      else if ch = c_dot then Next rl_uri (r\<lparr>complex_uri := True\<rparr>)
      else if ch = c_percent then Next rl_uri (r\<lparr>quoted_uri := True\<rparr>)
      else if ch = c_slash then Next rl_uri (r\<lparr>complex_uri := True\<rparr>)
      else if ch = c_quest then Next rl_uri (r\<lparr>args_start := p + 1\<rparr>)
      else if ch = c_hash then Next rl_uri (r\<lparr>complex_uri := True\<rparr>)
      else if ch = c_plus then Next rl_after_slash_in_uri (r\<lparr>plus_in_uri := True\<rparr>)
      else if ch = c_NUL then Return NGX_HTTP_PARSE_INVALID_REQUEST r
      else Next rl_check_uri r)"

definition rl_sw_check_uri :: "u_char \<Rightarrow> ptr \<Rightarrow> ngx_http_request_t \<Rightarrow> rl_outcome" where
  "rl_sw_check_uri ch p r =
     (if is_usual ch then Next rl_check_uri r
      else if ch = c_slash then Next rl_after_slash_in_uri (r\<lparr>uri_ext := NULL\<rparr>)
      else if ch = c_dot then Next rl_check_uri (r\<lparr>uri_ext := p + 1\<rparr>)
      else if ch = c_space then Next rl_check_uri_http_09 (r\<lparr>uri_end := p\<rparr>)
      else if ch = CR then Next rl_almost_done (r\<lparr>uri_end := p, http_minor := 9\<rparr>)
      else if ch = LF then Goto l_done (r\<lparr>uri_end := p, http_minor := 9\<rparr>)
      else if ch = c_percent then Next rl_uri (r\<lparr>quoted_uri := True\<rparr>)
      else if ch = c_quest then Next rl_uri (r\<lparr>args_start := p + 1\<rparr>)
      else if ch = c_hash then Next rl_uri (r\<lparr>complex_uri := True\<rparr>)
      else if ch = c_plus then Next rl_check_uri (r\<lparr>plus_in_uri := True\<rparr>)
      else if ch = c_NUL then Return NGX_HTTP_PARSE_INVALID_REQUEST r
      else Next rl_check_uri r)"

definition rl_sw_check_uri_http_09 :: "u_char \<Rightarrow> ptr \<Rightarrow> ngx_http_request_t \<Rightarrow> rl_outcome" where
  "rl_sw_check_uri_http_09 ch p r =
     (if ch = c_space then Next rl_check_uri_http_09 r
      else if ch = CR then Next rl_almost_done (r\<lparr>http_minor := 9\<rparr>)
      else if ch = LF then Goto l_done (r\<lparr>http_minor := 9\<rparr>)
      else if ch = c_H then Next rl_http_H (r\<lparr>http_protocol_data := p\<rparr>)
      else Next rl_check_uri (r\<lparr>space_in_uri := True\<rparr>))"

definition rl_sw_uri :: "u_char \<Rightarrow> ptr \<Rightarrow> ngx_http_request_t \<Rightarrow> rl_outcome" where
  "rl_sw_uri ch p r =
     (if is_usual ch then Next rl_uri r
      else if ch = c_space then Next rl_http_09 (r\<lparr>uri_end := p\<rparr>)
      else if ch = CR then Next rl_almost_done (r\<lparr>uri_end := p, http_minor := 9\<rparr>)
      else if ch = LF then Goto l_done (r\<lparr>uri_end := p, http_minor := 9\<rparr>)
      else if ch = c_hash then Next rl_uri (r\<lparr>complex_uri := True\<rparr>)
      else if ch = c_NUL then Return NGX_HTTP_PARSE_INVALID_REQUEST r
      else Next rl_uri r)"

definition rl_sw_http_09 :: "u_char \<Rightarrow> ptr \<Rightarrow> ngx_http_request_t \<Rightarrow> rl_outcome" where
  "rl_sw_http_09 ch p r =
     (if ch = c_space then Next rl_http_09 r
      else if ch = CR then Next rl_almost_done (r\<lparr>http_minor := 9\<rparr>)
      else if ch = LF then Goto l_done (r\<lparr>http_minor := 9\<rparr>)
      else if ch = c_H then Next rl_http_H (r\<lparr>http_protocol_data := p\<rparr>)
      else Next rl_uri (r\<lparr>space_in_uri := True\<rparr>))"

text \<open>The states that expect one character of \<open>HTTP/\<close>.\<close>

definition rl_sw_expect :: "u_char \<Rightarrow> rl_state \<Rightarrow> u_char \<Rightarrow> ngx_http_request_t \<Rightarrow> rl_outcome" where
  "rl_sw_expect c st ch r =
     (if ch = c then Next st r else Return NGX_HTTP_PARSE_INVALID_REQUEST r)"

definition rl_sw_first_major_digit :: "u_char \<Rightarrow> ngx_http_request_t \<Rightarrow> rl_outcome" where
  "rl_sw_first_major_digit ch r =
     (if ch < c_1 \<or> ch > c_9 then Return NGX_HTTP_PARSE_INVALID_REQUEST r
      else Next rl_major_digit (r\<lparr>http_major := ucast (ch - c_0)\<rparr>))"

definition rl_sw_major_digit :: "u_char \<Rightarrow> ngx_http_request_t \<Rightarrow> rl_outcome" where
  "rl_sw_major_digit ch r =
     (if ch = c_dot then Next rl_first_minor_digit r
      else if ch < c_0 \<or> ch > c_9 then Return NGX_HTTP_PARSE_INVALID_REQUEST r
      else Next rl_major_digit (r\<lparr>http_major := http_major r * 10 + ucast (ch - c_0)\<rparr>))"

definition rl_sw_first_minor_digit :: "u_char \<Rightarrow> ngx_http_request_t \<Rightarrow> rl_outcome" where
  "rl_sw_first_minor_digit ch r =
     (if ch < c_0 \<or> ch > c_9 then Return NGX_HTTP_PARSE_INVALID_REQUEST r
      else Next rl_minor_digit (r\<lparr>http_minor := ucast (ch - c_0)\<rparr>))"

definition rl_sw_minor_digit :: "u_char \<Rightarrow> ngx_http_request_t \<Rightarrow> rl_outcome" where
  "rl_sw_minor_digit ch r =
     (if ch = CR then Next rl_almost_done r
      else if ch = LF then Goto l_done r
      else if ch = c_space then Next rl_spaces_after_digit r
      else if ch < c_0 \<or> ch > c_9 then Return NGX_HTTP_PARSE_INVALID_REQUEST r
      else Next rl_minor_digit (r\<lparr>http_minor := http_minor r * 10 + ucast (ch - c_0)\<rparr>))"

definition rl_sw_spaces_after_digit :: "u_char \<Rightarrow> ngx_http_request_t \<Rightarrow> rl_outcome" where
  "rl_sw_spaces_after_digit ch r =
     (if ch = c_space then Next rl_spaces_after_digit r
      else if ch = CR then Next rl_almost_done r
      else if ch = LF then Goto l_done r
      else Return NGX_HTTP_PARSE_INVALID_REQUEST r)"

definition rl_sw_almost_done :: "u_char \<Rightarrow> ptr \<Rightarrow> ngx_http_request_t \<Rightarrow> rl_outcome" where
  "rl_sw_almost_done ch p r =
     (let r = r\<lparr>request_end := p - 1\<rparr> in
      if ch = LF then Goto l_done r else Return NGX_HTTP_PARSE_INVALID_REQUEST r)"

definition rl_step :: "memory \<Rightarrow> rl_state \<Rightarrow> u_char \<Rightarrow> ptr \<Rightarrow> ngx_http_request_t \<Rightarrow> rl_outcome" where
  "rl_step mem st ch p r =
     (case st of
        rl_start \<Rightarrow> rl_sw_start ch p r
      | rl_method \<Rightarrow> rl_sw_method mem ch p r
      | rl_spaces_before_uri \<Rightarrow> rl_sw_spaces_before_uri ch p r
      | rl_schema \<Rightarrow> rl_sw_schema ch p r
      | rl_schema_slash \<Rightarrow> rl_sw_schema_slash ch p r
      | rl_schema_slash_slash \<Rightarrow> rl_sw_schema_slash_slash ch p r
      | rl_host_start \<Rightarrow> rl_sw_host_start ch p r
      | rl_host \<Rightarrow> rl_sw_host ch p r
      | rl_host_end \<Rightarrow> rl_sw_host_end ch p r
      | rl_host_ip_literal \<Rightarrow> rl_sw_host_ip_literal ch p r
      | rl_port \<Rightarrow> rl_sw_port ch p r
      | rl_host_http_09 \<Rightarrow> rl_sw_host_http_09 ch p r
      | rl_after_slash_in_uri \<Rightarrow> rl_sw_after_slash_in_uri ch p r
      | rl_check_uri \<Rightarrow> rl_sw_check_uri ch p r
      | rl_check_uri_http_09 \<Rightarrow> rl_sw_check_uri_http_09 ch p r
      | rl_uri \<Rightarrow> rl_sw_uri ch p r
      | rl_http_09 \<Rightarrow> rl_sw_http_09 ch p r
      | rl_http_H \<Rightarrow> rl_sw_expect c_T rl_http_HT ch r
      | rl_http_HT \<Rightarrow> rl_sw_expect c_T rl_http_HTT ch r
      | rl_http_HTT \<Rightarrow> rl_sw_expect c_P rl_http_HTTP ch r
      | rl_http_HTTP \<Rightarrow> rl_sw_expect c_slash rl_first_major_digit ch r
      | rl_first_major_digit \<Rightarrow> rl_sw_first_major_digit ch r
      | rl_major_digit \<Rightarrow> rl_sw_major_digit ch r
      | rl_first_minor_digit \<Rightarrow> rl_sw_first_minor_digit ch r
      | rl_minor_digit \<Rightarrow> rl_sw_minor_digit ch r
      | rl_spaces_after_digit \<Rightarrow> rl_sw_spaces_after_digit ch r
      | rl_almost_done \<Rightarrow> rl_sw_almost_done ch p r)"

subsection \<open>The parser\<close>

definition ngx_http_parse_request_line ::
  "memory \<Rightarrow> ngx_http_request_t \<Rightarrow> ngx_buf_t \<Rightarrow> int \<times> ngx_http_request_t \<times> ngx_buf_t" where
  "ngx_http_parse_request_line mem r b =
     (case scan_loop rl_step mem (buf_last b) (buf_pos b) (request_line_state r) r of
        Scan_again p st r \<Rightarrow> (NGX_AGAIN, r\<lparr>request_line_state := st\<rparr>, b\<lparr>buf_pos := p\<rparr>)
      | Scan_return c r \<Rightarrow> (c, r, b)
      | Scan_goto _ p r \<Rightarrow>
          let r = (if request_end r = NULL then r\<lparr>request_end := p\<rparr> else r);
              r = r\<lparr>http_version := ucast (http_major r) * 1000 + ucast (http_minor r),
                    request_line_state := rl_start\<rparr>;
              b = b\<lparr>buf_pos := p + 1\<rparr>
          in if http_version r = 9 \<and> http_method r \<noteq> NGX_HTTP_GET
             then (NGX_HTTP_PARSE_INVALID_09_METHOD, r, b)
             else (NGX_OK, r, b))"

subsection \<open>Ranks of the states\<close>

text \<open>How far a state has come: method, schema, URI, end of the URI.\<close>

fun rl_rank :: "rl_state \<Rightarrow> nat" where
  "rl_rank rl_start = 0"
| "rl_rank rl_method = 1"
| "rl_rank rl_spaces_before_uri = 2"
| "rl_rank rl_schema = 2"
| "rl_rank rl_schema_slash = 3"
| "rl_rank rl_schema_slash_slash = 3"
| "rl_rank rl_host_start = 3"
| "rl_rank rl_host = 3"
| "rl_rank rl_host_end = 3"
| "rl_rank rl_host_ip_literal = 3"
| "rl_rank rl_port = 3"
| "rl_rank rl_after_slash_in_uri = 4"
| "rl_rank rl_check_uri = 4"
| "rl_rank rl_uri = 4"
| "rl_rank _ = 5"

lemma is_usual_iff: "is_usual c \<longleftrightarrow> c \<notin> {c_NUL, LF, CR, c_space, c_hash, c_percent, c_plus, c_dot, c_slash, c_quest}"
proof -
  have m: "members 0xffffdbfe = [1, 2, 3, 4, 5, 6, 7, 8, 9, 11, 12, 14, 15, 16, 17, 18, 19, 20, 21, 22, 23, 24, 25,
      26, 27, 28, 29, 30, 31]"
    "members 0x7fff37d6 = [1, 2, 4, 6, 7, 8, 9, 10, 12, 13, 16, 17, 18, 19, 20, 21, 22, 23, 24, 25, 26, 27, 28, 29, 30]"
    "members 0xffffffff = [0..<32]"
    by code_simp+
  have w0: "m < 32 \<Longrightarrow> m \<in> set (members 0xffffdbfe) \<longleftrightarrow> m \<notin> {0, 10, 13}" for m
    unfolding m by simp presburger
  have w1: "m < 32 \<Longrightarrow> m \<in> set (members 0x7fff37d6) \<longleftrightarrow> m \<notin> {0, 3, 5, 11, 14, 15, 31}" for m
    unfolding m by simp presburger
  show ?thesis
    by (cases c rule: row_cases; simp add: is_usual_def word_unat_eq_iff)
      (auto simp: bitmap_row [of _ 0] bitmap_row [of _ 1] bitmap_row [of _ 2] bitmap_row [of _ 3]
        bitmap_row usual_def w0 w1 m(3))
qed

subsection \<open>URIs that need no normalisation\<close>

definition plain_uri :: "ngx_http_request_t \<Rightarrow> bool" where
  "plain_uri r \<longleftrightarrow> \<not> complex_uri r \<and> \<not> quoted_uri r \<and> \<not> space_in_uri r"

definition clean :: "memory \<Rightarrow> ptr \<Rightarrow> ptr \<Rightarrow> bool" where
  "clean mem a b \<longleftrightarrow> (\<forall>i. a \<le> i \<and> i < b \<longrightarrow>
     mem i \<notin> {c_NUL, CR, LF, c_space, c_percent, c_hash, c_quest} \<and>
     (mem i = c_slash \<and> Suc i < b \<longrightarrow> mem (Suc i) \<notin> {c_slash, c_dot}))"

lemma clean_single: "mem a = c_slash \<Longrightarrow> clean mem a (Suc a)"
  by (auto simp: clean_def less_Suc_eq)

lemma clean_snoc:
  assumes "clean mem a p" "mem p \<notin> {c_NUL, CR, LF, c_space, c_percent, c_hash, c_quest}"
    "mem (p - 1) = c_slash \<longrightarrow> mem p \<notin> {c_slash, c_dot}"
  shows "clean mem a (Suc p)"
  unfolding clean_def
proof (intro allI impI)
  fix i assume i: "a \<le> i \<and> i < Suc p"
  show "mem i \<notin> {c_NUL, CR, LF, c_space, c_percent, c_hash, c_quest} \<and>
     (mem i = c_slash \<and> Suc i < Suc p \<longrightarrow> mem (Suc i) \<notin> {c_slash, c_dot})"
  proof (cases "i = p")
    case False
    then have "i < p" using i by simp
    then show ?thesis using assms i unfolding clean_def
      by (cases "Suc i = p") auto
  qed (use assms in simp)
qed


definition no_args_clean :: "memory \<Rightarrow> ptr \<Rightarrow> ptr \<Rightarrow> ptr \<Rightarrow> bool" where
  "no_args_clean mem u a p \<longleftrightarrow> a = NULL \<and> u < p \<and> clean mem u p"

definition args_clean :: "memory \<Rightarrow> ptr \<Rightarrow> ptr \<Rightarrow> ptr \<Rightarrow> bool" where
  "args_clean mem u a p \<longleftrightarrow> mem (a - 1) = c_quest \<and> u < a - 1 \<and> a \<le> p \<and> clean mem u (a - 1)"

fun rl_clean :: "memory \<Rightarrow> ptr \<Rightarrow> rl_state \<Rightarrow> ngx_http_request_t \<Rightarrow> bool" where
  "rl_clean mem p rl_after_slash_in_uri r \<longleftrightarrow> no_args_clean mem (uri_start r) (args_start r) p"
| "rl_clean mem p rl_check_uri r \<longleftrightarrow> no_args_clean mem (uri_start r) (args_start r) p \<and> mem (p - 1) \<noteq> c_slash"
| "rl_clean mem p rl_uri r \<longleftrightarrow> args_clean mem (uri_start r) (args_start r) p"
| "rl_clean mem p rl_schema_slash r \<longleftrightarrow> args_start r = NULL \<and> schema_end r + 1 = p"
| "rl_clean mem p st r \<longleftrightarrow>
     (if rl_rank st < 3 then args_start r = NULL
      else if rl_rank st = 3 then args_start r = NULL \<and> mem (schema_end r + 1) = c_slash
      else no_args_clean mem (uri_start r) (args_start r) (uri_end r) \<or> args_clean mem (uri_start r) (args_start r) (uri_end r))"

lemma is_usualD: "is_usual c \<Longrightarrow> c \<notin> {c_NUL, LF, CR, c_space, c_hash, c_percent, c_plus, c_dot, c_slash, c_quest}"
  by (simp add: is_usual_iff)

lemma no_args_clean_snoc:
  "no_args_clean mem u a p \<Longrightarrow> mem p \<notin> {c_NUL, CR, LF, c_space, c_percent, c_hash, c_quest} \<Longrightarrow>
    mem (p - 1) = c_slash \<longrightarrow> mem p \<notin> {c_slash, c_dot} \<Longrightarrow> no_args_clean mem u a (Suc p)"
  by (simp add: no_args_clean_def clean_snoc)

lemma no_args_clean_usual: "no_args_clean mem u a p \<Longrightarrow> is_usual (mem p) \<Longrightarrow> no_args_clean mem u a (Suc p)"
  using is_usualD [of "mem p"] by (intro no_args_clean_snoc) auto

lemma no_args_clean_start: "mem u = c_slash \<Longrightarrow> no_args_clean mem u NULL (Suc u)"
  by (simp add: no_args_clean_def clean_single)

lemma args_clean_start: "no_args_clean mem u a p \<Longrightarrow> mem p = c_quest \<Longrightarrow> args_clean mem u (Suc p) (Suc p)"
  by (simp add: no_args_clean_def args_clean_def)

lemma args_clean_Suc: "args_clean mem u a p \<Longrightarrow> args_clean mem u a (Suc p)"
  by (simp add: args_clean_def)

lemma rl_host_ip_literal_next:
  "rl_sw_host_ip_literal ch p r = Next st' r' \<Longrightarrow> r' = r \<and> (st' = rl_host_ip_literal \<or> st' = rl_host_end)"
  by (simp add: rl_sw_host_ip_literal_def Let_def split: if_splits)

lemma rl_host_next:
  "rl_sw_host ch p r = Next st' r' \<Longrightarrow> st' = rl_host \<and> r' = r \<or> rl_sw_host_end ch p r = Next st' r'"
  by (simp add: rl_sw_host_def Let_def split: if_splits)

lemma rl_host_start_next:
  "rl_sw_host_start ch p r = Next st' r' \<Longrightarrow>
    st' \<in> {rl_host_ip_literal, rl_host} \<and> r' = r\<lparr>host_start := p\<rparr> \<or> rl_sw_host_end ch p (r\<lparr>host_start := p\<rparr>) = Next st' r'"
  by (auto simp: rl_sw_host_start_def Let_def dest: rl_host_next split: if_splits)

lemmas rl_defs = rl_sw_start_def rl_sw_method_def rl_sw_spaces_before_uri_def rl_sw_schema_def
  rl_sw_schema_slash_def rl_sw_schema_slash_slash_def rl_sw_host_end_def rl_sw_port_def rl_sw_host_http_09_def
  rl_sw_after_slash_in_uri_def rl_sw_check_uri_def rl_sw_check_uri_http_09_def rl_sw_uri_def
  rl_sw_http_09_def rl_sw_expect_def rl_sw_first_major_digit_def rl_sw_major_digit_def
  rl_sw_first_minor_digit_def rl_sw_minor_digit_def rl_sw_spaces_after_digit_def rl_sw_almost_done_def
lemma rl_clean_step:
  assumes "plain_uri r \<longrightarrow> rl_clean mem p st r" "rl_step mem st (mem p) p r = Next st' r'"
  shows "plain_uri r' \<longrightarrow> rl_clean mem (Suc p) st' r'"
  using assms
  by (cases st; hypsubst; auto simp: rl_step_def plain_uri_def rl_defs Let_def no_args_clean_usual no_args_clean_snoc
      no_args_clean_start args_clean_start args_clean_Suc
      dest: is_usualD dest!: rl_host_ip_literal_next rl_host_start_next rl_host_next split: if_splits)

lemma rl_host_ip_literal_done: "rl_sw_host_ip_literal ch p r \<noteq> Goto l r'"
  by (simp add: rl_sw_host_ip_literal_def Let_def)

lemma rl_host_done: "rl_sw_host ch p r \<noteq> Goto l r'" "rl_sw_host_start ch p r \<noteq> Goto l r'"
  by (simp_all add: rl_sw_host_def rl_sw_host_start_def rl_sw_host_end_def Let_def)

lemma rl_clean_done:
  assumes "plain_uri r \<longrightarrow> rl_clean mem p st r" "rl_step mem st (mem p) p r = Goto l r'" "plain_uri r'"
  shows "no_args_clean mem (uri_start r') (args_start r') (uri_end r') \<or> args_clean mem (uri_start r') (args_start r') (uri_end r')"
  using assms
  by (cases st; hypsubst; auto simp: rl_step_def plain_uri_def rl_defs Let_def rl_host_ip_literal_done rl_host_done split: if_splits)

definition rl_order :: "memory \<Rightarrow> ptr \<Rightarrow> ptr \<Rightarrow> rl_state \<Rightarrow> ngx_http_request_t \<Rightarrow> bool" where
  "rl_order mem lo p st r \<longleftrightarrow>
     0 < lo \<and> request_end r = NULL \<and>
     (1 \<le> rl_rank st \<longrightarrow> lo \<le> request_start r \<and> request_start r < p) \<and>
     (2 \<le> rl_rank st \<longrightarrow> request_start r \<le> method_end r \<and> method_end r < p) \<and>
     (rl_rank st = 3 \<longrightarrow> method_end r < schema_end r \<and> schema_end r < p \<and>
        (st = rl_schema_slash \<longrightarrow> schema_end r + 1 = p) \<and>
        (st = rl_schema_slash_slash \<longrightarrow> schema_end r + 2 = p) \<and>
        (st \<noteq> rl_schema_slash \<longrightarrow> mem (schema_end r + 1) = c_slash) \<and>
        (st \<notin> {rl_schema_slash, rl_schema_slash_slash} \<longrightarrow> schema_end r + 2 < p)) \<and>
     (4 \<le> rl_rank st \<longrightarrow> method_end r < uri_start r \<and> uri_start r < p \<and> mem (uri_start r) = c_slash) \<and>
     (rl_rank st = 5 \<longrightarrow> uri_start r < uri_end r \<and> uri_end r < p)"

lemma rl_order_step:
  assumes "rl_order mem lo p st r" "lo \<le> p" "rl_step mem st (mem p) p r = Next st' r'"
  shows "rl_order mem lo (Suc p) st' r'"
  using assms
  by (cases st; hypsubst; auto simp: rl_step_def rl_order_def rl_defs Let_def rl_host_ip_literal_done rl_host_done dest!: rl_host_ip_literal_next rl_host_start_next rl_host_next split: if_splits)

lemma rl_order_done:
  assumes "rl_order mem lo p st r" "lo \<le> p" "rl_step mem st (mem p) p r = Goto l r'"
  shows "mem p = LF \<and> lo \<le> request_start r' \<and> request_start r' \<le> method_end r' \<and> method_end r' < uri_start r' \<and>
    uri_start r' < uri_end r' \<and> uri_end r' \<le> (if request_end r' = NULL then p else request_end r') \<and>
    request_end r' \<le> p \<and> mem (uri_start r') = c_slash"
  using assms
  by (cases st; hypsubst; auto simp: rl_step_def rl_order_def rl_defs Let_def rl_host_ip_literal_done rl_host_done dest!: rl_host_ip_literal_next rl_host_start_next rl_host_next split: if_splits)

subsection \<open>The comparison macros compare bytes\<close>

lemma word4_bytes:
  "ucast (word4 a b c d) = a" "ucast (drop_bit 8 (word4 a b c d)) = b"
  "ucast (drop_bit 16 (word4 a b c d)) = c" "ucast (drop_bit 24 (word4 a b c d)) = d"
  by (rule bit_word_eqI, auto simp: word4_def bit_simps)+

lemma word4_inject: "word4 a b c d = word4 a' b' c' d' \<longleftrightarrow> a = a' \<and> b = b' \<and> c = c' \<and> d = d'"
  using word4_bytes [of a b c d] word4_bytes [of a' b' c' d'] by metis

lemma load32_word4: "load32 mem m = word4 (mem m) (mem (m + 1)) (mem (m + 2)) (mem (m + 3))"
  by (simp add: load32_def word4_def)

lemma word4_low: "word4 a b c d AND 0xffff = word4 a b 0 0"
proof -
  have "(0xffff :: uint32_t) = mask 16" by (simp add: mask_eq_exp_minus_1)
  then show ?thesis by (auto simp: bit_eq_iff bit_simps word4_def)
qed

lemma word4_half: "push_bit 8 (ucast b) OR ucast a = word4 a b 0 0"
  by (simp add: word4_def)

lemmas ngx_strcmp_bytes = load32_word4 word4_inject word4_low word4_half

lemma holds_bs_nth: "holds mem m (bs s) \<longleftrightarrow> (\<forall>i\<in>set [0..<length s]. mem (m + i) = bs s ! i)"
  by (auto simp: holds_nth)

lemma ngx_strcmp_holds:
  "length s = 4 \<Longrightarrow> ngx_str4cmp mem m s \<longleftrightarrow> holds mem m (bs s)"
  "length s = 5 \<Longrightarrow> ngx_str5cmp mem m s \<longleftrightarrow> holds mem m (bs s)"
  "length s = 6 \<Longrightarrow> ngx_str6cmp mem m s \<longleftrightarrow> holds mem m (bs s)"
  "length s = 8 \<Longrightarrow> ngx_str8cmp mem m s \<longleftrightarrow> holds mem m (bs s)"
  "length s = 9 \<Longrightarrow> ngx_str9cmp mem m s \<longleftrightarrow> holds mem m (bs s)"
  by (simp add: holds_bs_nth upt_rec ngx_str4cmp_def ngx_str5cmp_def ngx_str6cmp_def ngx_str8cmp_def
      ngx_str9cmp_def ngx_strcmp_bytes; simp add: numeral_eq_Suc)+

text \<open>The method names and their codes.\<close>

definition http_methods :: "(bytes \<times> nat) list" where
  "http_methods =
    [(bs ''GET'', NGX_HTTP_GET), (bs ''PUT'', NGX_HTTP_PUT), (bs ''POST'', NGX_HTTP_POST), (bs ''COPY'', NGX_HTTP_COPY),
     (bs ''MOVE'', NGX_HTTP_MOVE), (bs ''LOCK'', NGX_HTTP_LOCK), (bs ''HEAD'', NGX_HTTP_HEAD),
     (bs ''MKCOL'', NGX_HTTP_MKCOL), (bs ''PATCH'', NGX_HTTP_PATCH), (bs ''TRACE'', NGX_HTTP_TRACE),
     (bs ''DELETE'', NGX_HTTP_DELETE), (bs ''UNLOCK'', NGX_HTTP_UNLOCK), (bs ''OPTIONS'', NGX_HTTP_OPTIONS),
     (bs ''PROPFIND'', NGX_HTTP_PROPFIND), (bs ''PROPPATCH'', NGX_HTTP_PROPPATCH)]"

definition method_code :: "nat \<Rightarrow> bytes \<Rightarrow> nat" where
  "method_code cur name = (case map_of http_methods name of Some code \<Rightarrow> code | None \<Rightarrow> cur)"


lemma map_of_length: "map_of xs k = map_of (filter (\<lambda>x. length (fst x) = length k) xs) k"
  by (induction xs) auto

lemma rl_method_of_name:
  assumes "holds mem m (name @ [c_space])"
  shows "rl_method_of mem m (length name) cur = method_code cur name"
proof -
  have n: "length s = length name \<Longrightarrow> holds mem m (bs s) \<longleftrightarrow> bs s = name" for s
    using assms by (simp add: holds_append holds_unique)
  have b: "length s = length name \<Longrightarrow> holds mem m (bs (s @ '' '')) \<longleftrightarrow> bs s = name" for s
    using assms holds_unique [OF assms, of "bs (s @ '' '')"] by (simp add: bs_def)
  have sp: "length name = 3 \<Longrightarrow> holds mem m (bs ''GET '') \<longleftrightarrow> name = bs ''GET''"
    "length name = 3 \<Longrightarrow> holds mem m (bs ''PUT '') \<longleftrightarrow> name = bs ''PUT''"
    "length name = 7 \<Longrightarrow> holds mem m (bs ''OPTIONS '') \<longleftrightarrow> name = bs ''OPTIONS''"
    using b [of "''GET''"] b [of "''PUT''"] b [of "''OPTIONS''"] by (auto simp del: bs_simps)
  have O: "length name = 4 \<Longrightarrow> mem (Suc m) = name ! 1"
    using assms by (auto simp: holds_nth nth_append dest: spec [of _ 1])
  have mc: "method_code cur name = (case map_of (filter (\<lambda>x. length (fst x) = length name) http_methods) name of
      Some code \<Rightarrow> code | None \<Rightarrow> cur)"
    unfolding method_code_def by (subst map_of_length) rule
  consider "length name = 3" | "length name = 4" | "length name = 5" | "length name = 6" | "length name = 7"
    | "length name = 8" | "length name = 9" | "length name \<notin> {3, 4, 5, 6, 7, 8, 9}" by auto
  then show ?thesis
  proof cases
    case 1
    then show ?thesis
      by (simp add: rl_method_of_def mc ngx_strcmp_holds sp http_methods_def del: bs_simps)
  next
    case 2
    show ?thesis
    proof (cases "name \<in> {bs ''POST'', bs ''COPY'', bs ''MOVE'', bs ''LOCK'', bs ''HEAD''}")
      case True
      then show ?thesis using O 2
        by (elim insertE emptyE; simp add: rl_method_of_def mc ngx_strcmp_holds n http_methods_def bs_inject
            del: bs_simps; simp add: method_code_def http_methods_def)
    next
      case False
      then show ?thesis using 2
        by (auto simp: rl_method_of_def mc ngx_strcmp_holds n http_methods_def simp del: bs_simps)
    qed
  next
    case 3
    then show ?thesis
      by (simp add: rl_method_of_def mc ngx_strcmp_holds n http_methods_def Let_def del: bs_simps)
        (auto simp: bs_inject simp del: bs_simps)
  next
    case 8
    then show ?thesis by (simp add: mc http_methods_def rl_method_of_def)
  qed (simp_all add: rl_method_of_def mc ngx_strcmp_holds n sp http_methods_def Let_def del: bs_simps)
qed

text \<open>The comparisons read no byte behind the space that ends the name.\<close>

lemma rl_method_of_local:
  assumes "same_mem m (Suc (m + n)) mem mem'"
  shows "rl_method_of mem' m n cur = rl_method_of mem m n cur"
proof -
  have e: "length s \<le> Suc n \<Longrightarrow> holds mem' m (bs s) \<longleftrightarrow> holds mem m (bs s)" for s
    using assms by (auto simp: same_mem_def holds_nth)
  have "n = 4 \<Longrightarrow> mem' (m + 1) = mem (m + 1)" using assms by (simp add: same_mem_def)
  then show ?thesis
    by (simp add: rl_method_of_def Let_def ngx_strcmp_holds e del: bs_simps)
qed


subsection \<open>The parser as a scanner\<close>

definition rl_inv :: "memory \<Rightarrow> ptr \<Rightarrow> ptr \<Rightarrow> rl_state \<Rightarrow> ngx_http_request_t \<Rightarrow> bool" where
  "rl_inv mem lo p st r \<longleftrightarrow> rl_order mem lo p st r \<and> (plain_uri r \<longrightarrow> rl_clean mem p st r)"

lemma rl_step_local:
  assumes "rl_order mem lo p st r" "same_mem lo (Suc p) mem mem'"
  shows "rl_step mem' st c p r = rl_step mem st c p r"
proof (cases st)
  case rl_method
  then have "lo \<le> request_start r" "request_start r < p" using assms(1) by (simp_all add: rl_order_def)
  then have "same_mem (request_start r) (Suc (request_start r + (p - request_start r))) mem mem'"
    using same_mem_mono [OF assms(2)] by simp
  then show ?thesis using rl_method
    by (simp add: rl_step_def rl_sw_method_def Let_def rl_method_of_local)
qed (simp_all add: rl_step_def)

interpretation rl: scanner rl_step rl_inv
proof unfold_locales
  fix mem lo p st r st' r'
  assume "rl_inv mem lo p st r" "lo \<le> p" "rl_step mem st (mem p) p r = Next st' r'"
  then show "rl_inv mem lo (Suc p) st' r'"
    using rl_order_step rl_clean_step unfolding rl_inv_def by blast
next
  fix mem lo p st r mem'
  assume "rl_inv mem lo p st r" "same_mem lo (Suc p) mem mem'"
  then show "rl_step mem' st (mem p) p r = rl_step mem st (mem p) p r"
    unfolding rl_inv_def by (intro rl_step_local) auto
qed

lemma rl_step_return:
  "\<exists>mem st p r. rl_step mem st (mem p) p r = Return c r' \<Longrightarrow> c \<in> {NGX_HTTP_PARSE_INVALID_METHOD, NGX_HTTP_PARSE_INVALID_REQUEST}"
proof (elim exE)
  fix mem st p r
  assume "rl_step mem st (mem p) p r = Return c r'"
  then show "c \<in> {NGX_HTTP_PARSE_INVALID_METHOD, NGX_HTTP_PARSE_INVALID_REQUEST}"
    by (cases st; hypsubst; simp add: rl_step_def rl_defs rl_sw_host_def rl_sw_host_start_def rl_sw_host_ip_literal_def
        Let_def split: if_splits)
qed

text \<open>A request before its first byte.\<close>

definition fresh_request :: "ngx_http_request_t \<Rightarrow> bool" where
  "fresh_request r \<longleftrightarrow> request_line_state r = rl_start \<and> request_end r = NULL \<and> args_start r = NULL"

lemma rl_inv_fresh: "fresh_request r \<Longrightarrow> 0 < lo \<Longrightarrow> rl_inv mem lo p rl_start r"
  by (simp add: rl_inv_def rl_order_def fresh_request_def)

text \<open>What the code behind the label \<open>done\<close> does.\<close>

lemma request_line_ok:
  assumes "ngx_http_parse_request_line mem r b = (NGX_OK, r', b')"
    and "rl_inv mem lo (buf_pos b) (request_line_state r) r" "lo \<le> buf_pos b"
  obtains q st1 r1 r2 l where "buf_pos b \<le> q" "q < buf_last b" "rl_inv mem lo q st1 r1" "rl_step mem st1 (mem q) q r1 = Goto l r2"
    "r' = r2\<lparr>request_end := (if request_end r2 = NULL then q else request_end r2),
        http_version := ucast (http_major r2) * 1000 + ucast (http_minor r2), request_line_state := rl_start\<rparr>"
    "b' = b\<lparr>buf_pos := q + 1\<rparr>" "http_version r' \<noteq> 9 \<or> http_method r' = NGX_HTTP_GET"
proof (cases "scan_loop rl_step mem (buf_last b) (buf_pos b) (request_line_state r) r")
  case (Scan_goto l q r2)
  obtain st1 r1 where "buf_pos b \<le> q" "q < buf_last b" "rl_inv mem lo q st1 r1" "rl_step mem st1 (mem q) q r1 = Goto l r2"
    using rl.run_goto [OF assms(2,3) Scan_goto] by blast
  then show ?thesis
    using that [of q st1 r1 l r2] assms(1)
    by (auto simp: ngx_http_parse_request_line_def Scan_goto Let_def split: if_splits)
next
  case (Scan_return c r2)
  then show ?thesis
    using assms(1) rl_step_return [OF scan_loop_return [OF Scan_return]]
    by (auto simp: ngx_http_parse_request_line_def)
qed (use assms(1) in \<open>simp add: ngx_http_parse_request_line_def\<close>)


text \<open>
  C23: when the parser accepts a request line, the pointers it leaves in the request are in the
  buffer and in order: method, URI, end of the URI, end of the line, new position; the URI
  starts with a slash, the line ends with a line feed, and a request without a version is a
  \<open>GET\<close>.
\<close>

theorem request_line_pointers:
  assumes "fresh_request r" and "0 < buf_pos b"
    and "ngx_http_parse_request_line mem r b = (NGX_OK, r', b')"
  shows "buf_pos b \<le> request_start r' \<and> request_start r' \<le> method_end r' \<and> method_end r' < uri_start r' \<and>
    uri_start r' < uri_end r' \<and> uri_end r' \<le> request_end r' \<and> request_end r' < buf_pos b' \<and>
    buf_pos b' \<le> buf_last b \<and> mem (uri_start r') = c_slash \<and> mem (buf_pos b' - 1) = LF \<and>
    (http_version r' = 9 \<longrightarrow> http_method r' = NGX_HTTP_GET)"
proof -
  have i: "rl_inv mem (buf_pos b) (buf_pos b) (request_line_state r) r"
    using rl_inv_fresh [OF assms(1,2)] assms(1) by (simp add: fresh_request_def)
  show ?thesis
  proof (rule request_line_ok [OF assms(3) i order_refl], goal_cases)
    case (1 q st1 r1 r2 l)
    then show ?thesis using rl_order_done [of mem "buf_pos b" q st1 r1 l r2]
      by (auto simp: rl_inv_def split: if_splits)
  qed
qed

lemma accepted_plain_uri:
  assumes "fresh_request r" and "0 < buf_pos b"
    and "ngx_http_parse_request_line mem r b = (NGX_OK, r', b')" and "plain_uri r'"
  shows "no_args_clean mem (uri_start r') (args_start r') (uri_end r') \<or> args_clean mem (uri_start r') (args_start r') (uri_end r')"
proof -
  have i: "rl_inv mem (buf_pos b) (buf_pos b) (request_line_state r) r"
    using rl_inv_fresh [OF assms(1,2)] assms(1) by (simp add: fresh_request_def)
  show ?thesis
  proof (rule request_line_ok [OF assms(3) i order_refl], goal_cases)
    case (1 q st1 r1 r2 l)
    then have "plain_uri r2" using assms(4) by (auto simp: plain_uri_def)
    then show ?thesis using 1 rl_clean_done [of r1 mem q st1 l r2]
      by (auto simp: rl_inv_def)
  qed
qed

text \<open>
  When the parser accepts a request line and has marked the URI neither complex nor quoted
  nor as holding a space, the bytes up to the question mark (or to the end of the URI) need no
  normalisation: no percent sign, no zero byte, no fragment, and no slash followed by a slash
  or a dot.  This is what lets the caller use the raw bytes as the URI.
\<close>

theorem request_line_plain_uri:
  assumes "fresh_request r" and "0 < buf_pos b"
    and "ngx_http_parse_request_line mem r b = (NGX_OK, r', b')"
    and "\<not> complex_uri r'" "\<not> quoted_uri r'" "\<not> space_in_uri r'"
  shows "if args_start r' = NULL then clean mem (uri_start r') (uri_end r')
    else mem (args_start r' - 1) = c_quest \<and> args_start r' \<le> uri_end r' \<and> clean mem (uri_start r') (args_start r' - 1)"
  using accepted_plain_uri [OF assms(1-3)] assms(4-6)
  by (auto simp: plain_uri_def no_args_clean_def args_clean_def)

lemma rl_step_save:
  "rl_step mem st c p (r\<lparr>request_line_state := s\<rparr>) =
    map_step_outcome id (\<lambda>r. r\<lparr>request_line_state := s\<rparr>) (rl_step mem st c p r)"
  by (cases st; simp add: rl_step_def rl_defs rl_sw_host_def rl_sw_host_start_def rl_sw_host_ip_literal_def Let_def
      if_distrib [of "map_step_outcome id (\<lambda>r. r\<lparr>request_line_state := s\<rparr>)"] cong: if_cong)

interpretation rl_save: saving_scanner rl_step rl_inv "\<lambda>s r. r\<lparr>request_line_state := s\<rparr>"
proof unfold_locales
  fix mem lo p st s r
  have "rl_clean mem p st (r\<lparr>request_line_state := s\<rparr>) = rl_clean mem p st r"
    by (cases st) simp_all
  then show "rl_inv mem lo p st (r\<lparr>request_line_state := s\<rparr>) \<longleftrightarrow> rl_inv mem lo p st r"
    by (simp add: rl_inv_def rl_order_def plain_uri_def)
qed (rule rl_step_save)

text \<open>
  What a caller sees of a result: a failing call leaves the saved state and the position of the
  buffer as they were before it, everything else is set.
\<close>

definition visible :: "int \<times> ngx_http_request_t \<times> ngx_buf_t \<Rightarrow> int \<times> ngx_http_request_t \<times> ngx_buf_t option" where
  "visible x = (case x of (c, r, b) \<Rightarrow>
     if c \<in> {NGX_HTTP_PARSE_INVALID_METHOD, NGX_HTTP_PARSE_INVALID_REQUEST}
     then (c, r\<lparr>request_line_state := rl_start\<rparr>, None) else (c, r, Some b))"

text \<open>
  Parsing may stop at the end of the received bytes and be resumed when more have arrived:
  a call that returns \<open>NGX_AGAIN\<close>, followed by a call on the longer buffer, gives the same code,
  request and position as one call on the longer buffer; and the intermediate request satisfies
  the parser's invariant again, so this holds for any number of pieces.
\<close>

theorem request_line_resume:
  assumes "rl_inv mem lo (buf_pos b) (request_line_state r) r" and "lo \<le> buf_pos b"
    and "ngx_http_parse_request_line mem r b = (NGX_AGAIN, r1, b1)"
    and "buf_last b \<le> lst" and "same_mem lo (buf_last b) mem mem'"
  shows "visible (ngx_http_parse_request_line mem' r1 (b1\<lparr>buf_last := lst\<rparr>)) =
      visible (ngx_http_parse_request_line mem' r (b\<lparr>buf_last := lst\<rparr>)) \<and>
    rl_inv mem lo (buf_pos b1) (request_line_state r1) r1"
proof (cases "scan_loop rl_step mem (buf_last b) (buf_pos b) (request_line_state r) r")
  case (Scan_again q st' r2)
  have r1: "r1 = r2\<lparr>request_line_state := st'\<rparr>" "b1 = b\<lparr>buf_pos := q\<rparr>"
    using assms(3) Scan_again by (auto simp: ngx_http_parse_request_line_def)
  have "rl_inv mem lo q st' r2"
    by (rule rl.run_inv [OF assms(1,2) Scan_again])
  then have inv: "rl_inv mem lo (buf_pos b1) (request_line_state r1) r1"
    using rl_save.inv_save [of mem lo q st' st' r2] by (simp add: r1)
  have "scan_loop rl_step mem' lst q st' r2 = scan_loop rl_step mem' lst (buf_pos b) (request_line_state r) r"
    by (rule rl.run_resume [OF assms(1,2) Scan_again assms(4,5)])
  then have run: "scan_loop rl_step mem' lst q st' (r2\<lparr>request_line_state := st'\<rparr>) =
      map_scan_result id (\<lambda>r. r\<lparr>request_line_state := st'\<rparr>) (scan_loop rl_step mem' lst (buf_pos b) (request_line_state r) r)"
    using rl_save.run_save [of mem' lst q st' st' r2] by simp
  have "visible (ngx_http_parse_request_line mem' r1 (b1\<lparr>buf_last := lst\<rparr>)) =
      visible (ngx_http_parse_request_line mem' r (b\<lparr>buf_last := lst\<rparr>))"
  proof (cases "scan_loop rl_step mem' lst (buf_pos b) (request_line_state r) r")
    case (Scan_return c r3)
    then show ?thesis using rl_step_return [OF scan_loop_return [OF Scan_return]]
      by (auto simp: r1 run ngx_http_parse_request_line_def visible_def)
  qed (simp_all add: r1 run ngx_http_parse_request_line_def visible_def Let_def)
  then show ?thesis using inv by simp
next
  case (Scan_return c r2)
  then show ?thesis using assms(3) rl_step_return [OF scan_loop_return [OF Scan_return]]
    by (auto simp: ngx_http_parse_request_line_def)
qed (use assms(3) in \<open>auto simp: ngx_http_parse_request_line_def Let_def split: if_splits\<close>)

subsection \<open>Accepted request lines\<close>

definition method_char :: "u_char \<Rightarrow> bool" where
  "method_char c \<longleftrightarrow> c_A \<le> c \<and> c \<le> c_Z \<or> c = c_underscore"

lemma method_charD:
  "method_char c \<Longrightarrow> c \<noteq> CR \<and> c \<noteq> LF \<and> ((c < c_A \<or> c_Z < c) \<longrightarrow> c = c_underscore)"
  by (auto simp: method_char_def)

lemma rl_method_scan:
  "\<forall>c\<in>set s. method_char c \<Longrightarrow> holds mem p s \<Longrightarrow> p + length s \<le> lst \<Longrightarrow>
    scan_loop rl_step mem lst p rl_method r = scan_loop rl_step mem lst (p + length s) rl_method r"
proof (induction s arbitrary: p)
  case (Cons c s)
  then have "rl_step mem rl_method (mem p) p r = Next rl_method r"
    by (auto simp: rl_step_def rl_sw_method_def method_char_def)
  with Cons show ?case by (simp add: scan_loop_step)
qed simp

lemma rl_major_scan:
  "list_all is_digit s \<Longrightarrow> holds mem p s \<Longrightarrow> p + length s \<le> lst \<Longrightarrow>
    scan_loop rl_step mem lst p rl_major_digit (r\<lparr>http_major := of_nat v\<rparr>) =
    scan_loop rl_step mem lst (p + length s) rl_major_digit (r\<lparr>http_major := of_nat (pos_value 10 digit_value v s)\<rparr>)"
proof (induction s arbitrary: p v)
  case (Cons c s)
  then have "rl_step mem rl_major_digit (mem p) p (r\<lparr>http_major := of_nat v\<rparr>) =
      Next rl_major_digit (r\<lparr>http_major := of_nat (v * 10 + digit_value c)\<rparr>)"
    by (auto simp: rl_step_def rl_sw_major_digit_def is_digit_def ucast_digit16 [unfolded is_digit_def])
  with Cons.prems Cons.IH [of "Suc p" "v * 10 + digit_value c"] show ?case by (simp add: scan_loop_step)
qed simp

lemma rl_minor_scan:
  "list_all is_digit s \<Longrightarrow> holds mem p s \<Longrightarrow> p + length s \<le> lst \<Longrightarrow>
    scan_loop rl_step mem lst p rl_minor_digit (r\<lparr>http_minor := of_nat v\<rparr>) =
    scan_loop rl_step mem lst (p + length s) rl_minor_digit (r\<lparr>http_minor := of_nat (pos_value 10 digit_value v s)\<rparr>)"
proof (induction s arbitrary: p v)
  case (Cons c s)
  then have "rl_step mem rl_minor_digit (mem p) p (r\<lparr>http_minor := of_nat v\<rparr>) =
      Next rl_minor_digit (r\<lparr>http_minor := of_nat (v * 10 + digit_value c)\<rparr>)"
    by (auto simp: rl_step_def rl_sw_minor_digit_def is_digit_def ucast_digit16 [unfolded is_digit_def])
  with Cons.prems Cons.IH [of "Suc p" "v * 10 + digit_value c"] show ?case by (simp add: scan_loop_step)
qed simp

text \<open>\<open>clean\<close> over the bytes of a path.\<close>

fun clean_path :: "bytes \<Rightarrow> bool" where
  "clean_path [] \<longleftrightarrow> True"
| "clean_path (c # s) \<longleftrightarrow> c \<notin> {c_NUL, CR, LF, c_space, c_percent, c_hash, c_quest} \<and>
     (c = c_slash \<and> s \<noteq> [] \<longrightarrow> hd s \<notin> {c_slash, c_dot}) \<and> clean_path s"

lemma clean_path: "holds mem a s \<Longrightarrow> clean_path s \<Longrightarrow> clean mem a (a + length s)"
proof (induction s arbitrary: a)
  case (Cons c s)
  then have IH: "clean mem (Suc a) (Suc a + length s)" by (intro Cons.IH) auto
  show ?case
    unfolding clean_def
  proof (intro allI impI)
    fix i assume i: "a \<le> i \<and> i < a + length (c # s)"
    show "mem i \<notin> {c_NUL, CR, LF, c_space, c_percent, c_hash, c_quest} \<and>
      (mem i = c_slash \<and> Suc i < a + length (c # s) \<longrightarrow> mem (Suc i) \<notin> {c_slash, c_dot})"
    proof (cases "i = a")
      case True
      then show ?thesis using Cons.prems by (cases s) auto
    next
      case False
      then have "Suc a \<le> i \<and> i < Suc a + length s" using i by auto
      then show ?thesis using IH by (simp add: clean_def)
    qed
  qed
qed (auto simp: clean_def)

definition path_state :: "memory \<Rightarrow> ptr \<Rightarrow> rl_state" where
  "path_state mem p = (if mem (p - 1) = c_slash then rl_after_slash_in_uri else rl_check_uri)"

lemma rl_path_step:
  assumes "clean mem u e" "u < p" "p < e" "mem p \<noteq> c_plus"
  shows "\<exists>ext. rl_step mem (path_state mem p) (mem p) p r = Next (path_state mem (Suc p)) (r\<lparr>uri_ext := ext\<rparr>)"
proof -
  have c: "mem p \<notin> {c_NUL, CR, LF, c_space, c_percent, c_hash, c_quest}"
    using assms by (simp add: clean_def)
  obtain i where i: "p = Suc i" using assms(2) by (cases p) auto
  then have d: "mem (p - 1) = c_slash \<Longrightarrow> mem p \<notin> {c_slash, c_dot}"
    using assms(1-3) by (simp add: clean_def)
  have k: "\<exists>ext. r = r\<lparr>uri_ext := ext\<rparr>" by (rule exI [of _ "uri_ext r"]) simp
  show ?thesis
  proof (cases "mem (p - 1) = c_slash")
    case True
    then show ?thesis using c d assms(4) i k
      by (simp add: path_state_def rl_step_def rl_sw_after_slash_in_uri_def is_usual_iff)
  next
    case False
    then show ?thesis using c assms(4) i k
      by (auto simp: path_state_def rl_step_def rl_sw_check_uri_def is_usual_iff)
  qed
qed

lemma rl_path_scan:
  assumes "clean mem u e" "u < p" "p \<le> e" "e \<le> lst" "\<forall>i. u \<le> i \<and> i < e \<longrightarrow> mem i \<noteq> c_plus"
  shows "\<exists>ext. scan_loop rl_step mem lst p (path_state mem p) r =
    scan_loop rl_step mem lst e (path_state mem e) (r\<lparr>uri_ext := ext\<rparr>)"
  using assms(2,3)
proof (induction "e - p" arbitrary: p r)
  case 0
  then have "p = e" by simp
  then show ?case by (intro exI [of _ "uri_ext r"]) simp
next
  case (Suc n)
  then have p: "p < e" "n = e - Suc p" "u < Suc p" "Suc p \<le> e" by simp_all
  obtain ext where "rl_step mem (path_state mem p) (mem p) p r = Next (path_state mem (Suc p)) (r\<lparr>uri_ext := ext\<rparr>)"
    using rl_path_step [OF assms(1) Suc.prems(1) p(1)] assms(5) Suc.prems(1) p(1) by auto
  then have "scan_loop rl_step mem lst p (path_state mem p) r =
      scan_loop rl_step mem lst (Suc p) (path_state mem (Suc p)) (r\<lparr>uri_ext := ext\<rparr>)"
    using p(1) assms(4) by (simp add: scan_loop_step)
  then show ?case using Suc.hyps(1) [OF p(2-4), of "r\<lparr>uri_ext := ext\<rparr>"] by simp
qed

lemma rl_http_scan:
  assumes "holds mem p (bs ''HTTP/'')" "p + 5 \<le> lst"
  shows "scan_loop rl_step mem lst p rl_check_uri_http_09 r =
    scan_loop rl_step mem lst (p + 5) rl_first_major_digit (r\<lparr>http_protocol_data := p\<rparr>)"
proof -
  let ?r = "r\<lparr>http_protocol_data := p\<rparr>"
  have m: "mem p = c_H" "mem (p + 1) = c_T" "mem (p + 2) = c_T" "mem (p + 3) = c_P" "mem (p + 4) = c_slash"
    using assms(1) by (simp_all add: numeral_eq_Suc)
  have "scan_loop rl_step mem lst p rl_check_uri_http_09 r = scan_loop rl_step mem lst (p + 1) rl_http_H ?r"
    by (rule scan_next) (use m(1) assms(2) in \<open>simp_all add: rl_step_def rl_sw_check_uri_http_09_def\<close>)
  also have "\<dots> = scan_loop rl_step mem lst (p + 2) rl_http_HT ?r"
    by (rule scan_next) (use m(2) assms(2) in \<open>simp_all add: rl_step_def rl_sw_expect_def\<close>)
  also have "\<dots> = scan_loop rl_step mem lst (p + 3) rl_http_HTT ?r"
    by (rule scan_next) (use m(3) assms(2) in \<open>simp_all add: rl_step_def rl_sw_expect_def\<close>)
  also have "\<dots> = scan_loop rl_step mem lst (p + 4) rl_http_HTTP ?r"
    by (rule scan_next) (use m(4) assms(2) in \<open>simp_all add: rl_step_def rl_sw_expect_def\<close>)
  also have "\<dots> = scan_loop rl_step mem lst (p + 5) rl_first_major_digit ?r"
    by (rule scan_next) (use m(5) assms(2) in \<open>simp_all add: rl_step_def rl_sw_expect_def\<close>)
  finally show ?thesis .
qed

lemma rl_version_scan:
  assumes "list_all is_digit maj" "hd maj \<noteq> c_0" "maj \<noteq> []" "list_all is_digit mnr" "mnr \<noteq> []"
    and "holds mem p (maj @ c_dot # mnr @ [CR, LF])" "p + length maj + length mnr + 3 \<le> lst"
  shows "scan_loop rl_step mem lst p rl_first_major_digit r =
    Scan_goto l_done (p + length maj + length mnr + 2)
      (r\<lparr>http_major := of_nat (dec_value maj), http_minor := of_nat (dec_value mnr),
         request_end := p + length maj + length mnr + 1\<rparr>)"
proof -
  obtain c s where maj: "maj = c # s" using assms(3) by (cases maj) auto
  obtain d t where mnr: "mnr = d # t" using assms(5) by (cases mnr) auto
  have c: "is_digit c" "c \<noteq> c_0" and s: "list_all is_digit s" and d: "is_digit d" and t: "list_all is_digit t"
    using assms(1,2,4) by (simp_all add: maj mnr)
  have c1: "c_1 \<le> c" "c \<le> c_9" using c by (auto simp: is_digit_def word_le_nat_alt word_unat_eq_iff)
  let ?a = "Suc p + length s" let ?e = "?a + 2 + length t"
  let ?r1 = "r\<lparr>http_major := of_nat (dec_value maj)\<rparr>"
  let ?r2 = "?r1\<lparr>http_minor := of_nat (dec_value mnr)\<rparr>"
  have m: "mem p = c" "holds mem (Suc p) s" "mem ?a = c_dot" "mem (Suc ?a) = d" "holds mem (Suc (Suc ?a)) t"
      "mem ?e = CR" "mem (Suc ?e) = LF"
    using assms(6) by (simp_all add: maj mnr holds_append)
  have l: "Suc ?e < lst" using assms(7) by (simp add: maj mnr)
  have "scan_loop rl_step mem lst p rl_first_major_digit r =
      scan_loop rl_step mem lst (Suc p) rl_major_digit (r\<lparr>http_major := of_nat (digit_value c)\<rparr>)"
    by (rule scan_next)
      (use m(1) l c1 c in \<open>auto simp: rl_step_def rl_sw_first_major_digit_def ucast_digit16 not_less\<close>)
  also have "\<dots> = scan_loop rl_step mem lst ?a rl_major_digit ?r1"
    using rl_major_scan [OF s m(2), of lst "digit_value c" r] l by (simp add: maj)
  also have "\<dots> = scan_loop rl_step mem lst (Suc ?a) rl_first_minor_digit ?r1"
    by (rule scan_next) (use m(3) l in \<open>simp_all add: rl_step_def rl_sw_major_digit_def\<close>)
  also have "\<dots> = scan_loop rl_step mem lst (Suc (Suc ?a)) rl_minor_digit (?r1\<lparr>http_minor := of_nat (digit_value d)\<rparr>)"
    by (rule scan_next)
      (use m(4) l d in \<open>auto simp: rl_step_def rl_sw_first_minor_digit_def ucast_digit16 is_digit_def not_less\<close>)
  also have "\<dots> = scan_loop rl_step mem lst ?e rl_minor_digit ?r2"
    using rl_minor_scan [OF t m(5), of lst "digit_value d" ?r1] l by (simp add: mnr)
  also have "\<dots> = scan_loop rl_step mem lst (Suc ?e) rl_almost_done ?r2"
    by (rule scan_next) (use m(6) l in \<open>simp_all add: rl_step_def rl_sw_minor_digit_def\<close>)
  also have "\<dots> = Scan_goto l_done (Suc ?e) (?r2\<lparr>request_end := ?e\<rparr>)"
    by (rule scan_goto) (use m(7) l in \<open>simp_all add: rl_step_def rl_sw_almost_done_def Let_def\<close>)
  finally show ?thesis by (simp add: maj mnr)
qed


text \<open>A request line up to the first byte of its path, and from the space behind the path on.\<close>

lemma request_prefix:
  assumes "holds mem pos (name @ [c_space, c_slash])" "name \<noteq> []" "\<forall>c\<in>set name. method_char c"
    and "pos + length name + 2 \<le> lst"
  shows "scan_loop rl_step mem lst pos rl_start r =
    scan_loop rl_step mem lst (pos + length name + 2) (path_state mem (pos + length name + 2))
      (r\<lparr>request_start := pos, method_end := pos + length name - 1,
         http_method := method_code (http_method r) name, uri_start := pos + length name + 1\<rparr>)"
proof -
  obtain c s where name: "name = c # s" using assms(2) by (cases name) auto
  let ?sp = "pos + length name"
  have m: "mem pos = c" "holds mem (Suc pos) s" "holds mem pos (name @ [c_space])" "mem ?sp = c_space" "mem (Suc ?sp) = c_slash"
    using assms(1) by (auto simp: name holds_append)
  let ?r1 = "r\<lparr>request_start := pos\<rparr>"
  let ?r2 = "?r1\<lparr>method_end := ?sp - 1, http_method := method_code (http_method r) name\<rparr>"
  have "scan_loop rl_step mem lst pos rl_start r = scan_loop rl_step mem lst (Suc pos) rl_method ?r1"
    by (rule scan_next) (use m(1) assms(3,4) method_charD [of c] in \<open>auto simp: name rl_step_def rl_sw_start_def Let_def\<close>)
  also have "\<dots> = scan_loop rl_step mem lst ?sp rl_method ?r1"
    using rl_method_scan [OF _ m(2), of lst] assms(3,4) by (simp add: name)
  also have "\<dots> = scan_loop rl_step mem lst (Suc ?sp) rl_spaces_before_uri ?r2"
    by (rule scan_next) (use m(4) assms(4) rl_method_of_name [OF m(3)] in \<open>auto simp: rl_step_def rl_sw_method_def Let_def\<close>)
  also have "\<dots> = scan_loop rl_step mem lst (Suc (Suc ?sp)) (path_state mem (Suc (Suc ?sp))) (?r2\<lparr>uri_start := Suc ?sp\<rparr>)"
    by (rule scan_next) (use m(5) assms(4) in \<open>auto simp: rl_step_def rl_sw_spaces_before_uri_def path_state_def\<close>)
  finally show ?thesis by simp
qed

lemma request_suffix:
  assumes "holds mem e (c_space # bs ''HTTP/'' @ maj @ c_dot # mnr @ [CR, LF])"
    and "list_all is_digit maj" "hd maj \<noteq> c_0" "maj \<noteq> []" "list_all is_digit mnr" "mnr \<noteq> []"
    and "e + length maj + length mnr + 9 \<le> lst"
  shows "scan_loop rl_step mem lst e (path_state mem e) r = Scan_goto l_done (e + 8 + length maj + length mnr)
    (r\<lparr>uri_end := e, http_protocol_data := Suc e, http_major := of_nat (dec_value maj),
       http_minor := of_nat (dec_value mnr), request_end := e + 7 + length maj + length mnr\<rparr>)"
proof -
  have s: "mem e = c_space" "holds mem (Suc e) (bs ''HTTP/'' @ maj @ c_dot # mnr @ [CR, LF])"
    using assms(1) by (simp_all del: bs_simps)
  moreover have lv: "Suc e + length (bs ''HTTP/'') = Suc e + 5" by simp
  ultimately have V: "holds mem (Suc e) (bs ''HTTP/'')" "holds mem (Suc e + 5) (maj @ c_dot # mnr @ [CR, LF])"
    unfolding holds_append [of _ _ "bs ''HTTP/''"] lv by blast+
  have "scan_loop rl_step mem lst e (path_state mem e) r = scan_loop rl_step mem lst (Suc e) rl_check_uri_http_09 (r\<lparr>uri_end := e\<rparr>)"
    by (rule scan_next)
      (use s(1) assms(7) in \<open>auto simp: rl_step_def path_state_def rl_sw_after_slash_in_uri_def rl_sw_check_uri_def is_usual_iff\<close>)
  also have "\<dots> = scan_loop rl_step mem lst (Suc e + 5) rl_first_major_digit (r\<lparr>uri_end := e, http_protocol_data := Suc e\<rparr>)"
    using rl_http_scan [OF V(1), of lst] assms(7) by simp
  finally show ?thesis
    using rl_version_scan [OF assms(2-6) V(2), of lst] assms(7) by (simp add: add.commute add.left_commute)
qed

lemma no_plus: "holds mem u s \<Longrightarrow> c_plus \<notin> set s \<Longrightarrow> u \<le> i \<Longrightarrow> i < u + length s \<Longrightarrow> mem i \<noteq> c_plus"
proof -
  assume a: "holds mem u s" "c_plus \<notin> set s" "u \<le> i" "i < u + length s"
  then have "i - u < length s" by auto
  then have "mem (u + (i - u)) = s ! (i - u)" "s ! (i - u) \<in> set s" using a(1) unfolding holds_nth by simp_all
  then show ?thesis using a by force
qed

text \<open>The end of a successful call.\<close>

lemma request_line_result:
  assumes "request_line_state r = rl_start"
    and "scan_loop rl_step mem lst pos rl_start r = Scan_goto l q r2" "request_end r2 \<noteq> NULL"
    and "http_major r2 = of_nat a" "http_minor r2 = of_nat b" "(a mod 65536) * 1000 + b mod 65536 = v" "v \<noteq> 9"
  shows "\<exists>ver. unat ver = v \<and> ngx_http_parse_request_line mem r \<lparr>buf_pos = pos, buf_last = lst\<rparr> =
    (NGX_OK, r2\<lparr>http_version := ver, request_line_state := rl_start\<rparr>, \<lparr>buf_pos = q + 1, buf_last = lst\<rparr>)"
proof -
  let ?ver = "ucast (of_nat a :: 16 word) * 1000 + ucast (of_nat b :: 16 word) :: uint64_t"
  have "unat ?ver = v" using version_value assms(6) by simp
  moreover from this have "?ver \<noteq> 9" using assms(7) by auto
  ultimately show ?thesis using assms(1-5)
    by (intro exI [of _ ?ver]) (simp add: ngx_http_parse_request_line_def Let_def)
qed

lemma request_line_simple:
  assumes "fresh_request r" and "plain_uri r"
    and "holds mem pos (name @ c_space # path @ c_space # bs ''HTTP/'' @ maj @ c_dot # mnr @ [CR, LF])"
    and "name \<noteq> []" and "\<forall>c\<in>set name. method_char c"
    and "hd path = c_slash" and "path \<noteq> []" and "c_plus \<notin> set path" and "clean_path path"
    and "list_all is_digit maj" "hd maj \<noteq> c_0" "maj \<noteq> []" "list_all is_digit mnr" "mnr \<noteq> []"
    and "pos + length name + length path + length maj + length mnr + 10 \<le> lst"
    and "(dec_value maj mod 65536) * 1000 + dec_value mnr mod 65536 = v" "v \<noteq> 9"
  shows "\<exists>r'. ngx_http_parse_request_line mem r \<lparr>buf_pos = pos, buf_last = lst\<rparr> =
      (NGX_OK, r', \<lparr>buf_pos = pos + length name + length path + length maj + length mnr + 10, buf_last = lst\<rparr>) \<and>
    http_method r' = method_code (http_method r) name \<and> unat (http_version r') = v \<and>
    request_start r' = pos \<and> method_end r' = pos + length name - 1 \<and>
    uri_start r' = pos + length name + 1 \<and> uri_end r' = uri_start r' + length path \<and>
    args_start r' = NULL \<and> plain_uri r' \<and>
    request_end r' = pos + length name + length path + length maj + length mnr + 8"
proof -
  let ?sp = "pos + length name" let ?u = "?sp + 1" let ?e = "?u + length path"
  let ?ver = "maj @ c_dot # mnr @ [CR, LF]"
  obtain s where path: "path = c_slash # s" using assms(6,7) by (cases path) auto
  have P: "holds mem ?u path" "holds mem ?e (c_space # bs ''HTTP/'' @ ?ver)" "holds mem pos (name @ [c_space, c_slash])"
    using assms(3) by (simp_all add: holds_append path del: bs_simps)
  have l: "?e + length maj + length mnr + 9 \<le> lst" using assms(15) by simp
  let ?r3 = "r\<lparr>request_start := pos, method_end := ?sp - 1, http_method := method_code (http_method r) name, uri_start := ?u\<rparr>"
  have "scan_loop rl_step mem lst pos rl_start r = scan_loop rl_step mem lst (?u + 1) (path_state mem (?u + 1)) ?r3"
    using request_prefix [OF P(3) assms(4,5), of lst r] l by (simp add: path)
  also obtain ext where "\<dots> = scan_loop rl_step mem lst ?e (path_state mem ?e) (?r3\<lparr>uri_ext := ext\<rparr>)"
    using rl_path_scan [OF clean_path [OF P(1) assms(9)], of "?u + 1" lst ?r3] no_plus [OF P(1) assms(8)] l by (auto simp: path)
  finally have run: "scan_loop rl_step mem lst pos rl_start r = \<dots>" .
  note run = trans [OF run request_suffix [OF P(2) assms(10-14) l]]
  show ?thesis
    using request_line_result [OF _ run _ _ _ assms(16,17)] assms(1,2) by (auto simp: fresh_request_def plain_uri_def)
qed




lemma rl_check_uri_any:
  assumes "p < lst" "mem p \<notin> {c_NUL, CR, LF, c_space, c_percent, c_hash, c_quest, c_plus}"
  shows "\<exists>ext. scan_loop rl_step mem lst p rl_check_uri r = scan_loop rl_step mem lst (Suc p) (path_state mem (Suc p)) (r\<lparr>uri_ext := ext\<rparr>)"
proof -
  have "\<exists>ext. r = r\<lparr>uri_ext := ext\<rparr>" by (rule exI [of _ "uri_ext r"]) simp
  then have "\<exists>ext. rl_step mem rl_check_uri (mem p) p r = Next (path_state mem (Suc p)) (r\<lparr>uri_ext := ext\<rparr>)"
    using assms(2) by (auto simp: path_state_def rl_step_def rl_sw_check_uri_def is_usual_iff)
  then show ?thesis using assms(1) by (auto simp: scan_loop_step)
qed

text \<open>
  The byte behind a space in the URI is not looked at: the state \<open>sw_check_uri_http_09\<close> goes
  back to \<open>sw_check_uri\<close> without classifying it.  So a slash hidden there, followed by a dot,
  or a percent sign or a zero byte is accepted with \<open>complex_uri\<close> and \<open>quoted_uri\<close> both unset, and
  a URI such as \<open>/a /../b\<close> counts as needing no normalisation.
\<close>

theorem request_line_space_hides_byte:
  assumes "fresh_request r" and "plain_uri r"
    and "holds mem pos (name @ c_space # path @ c_space # c # rest @ c_space # bs ''HTTP/'' @ maj @ c_dot # mnr @ [CR, LF])"
    and "name \<noteq> []" and "\<forall>c\<in>set name. method_char c"
    and "hd path = c_slash" and "path \<noteq> []" and "c_plus \<notin> set path" and "clean_path path"
    and "c \<notin> {c_space, CR, LF, c_H}" and "rest \<noteq> []" "c_plus \<notin> set rest" "clean_path rest"
    and "list_all is_digit maj" "hd maj \<noteq> c_0" "maj \<noteq> []" "list_all is_digit mnr" "mnr \<noteq> []"
    and "pos + length name + length path + length rest + length maj + length mnr + 12 \<le> lst"
    and "(dec_value maj mod 65536) * 1000 + dec_value mnr mod 65536 = v" "v \<noteq> 9"
  shows "\<exists>r'. ngx_http_parse_request_line mem r \<lparr>buf_pos = pos, buf_last = lst\<rparr> =
      (NGX_OK, r', \<lparr>buf_pos = pos + length name + length path + length rest + length maj + length mnr + 12, buf_last = lst\<rparr>) \<and>
    \<not> complex_uri r' \<and> \<not> quoted_uri r' \<and> args_start r' = NULL \<and>
    holds mem (uri_start r') (path @ c_space # c # rest) \<and> uri_end r' = uri_start r' + length path + length rest + 2"
proof -
  let ?sp = "pos + length name" let ?u = "?sp + 1" let ?e = "?u + length path"
  let ?q = "?e + 2" let ?f = "?q + length rest"
  let ?ver = "maj @ c_dot # mnr @ [CR, LF]"
  obtain s where path: "path = c_slash # s" using assms(6,7) by (cases path) auto
  obtain d t where rest: "rest = d # t" using assms(11) by (cases rest) auto
  have P: "holds mem ?u path" "mem ?e = c_space" "mem (Suc ?e) = c" "holds mem ?q rest"
      "holds mem ?f (c_space # bs ''HTTP/'' @ ?ver)" "holds mem pos (name @ [c_space, c_slash])"
    using assms(3) by (simp_all add: holds_append path del: bs_simps)
  have l: "?f + length maj + length mnr + 9 \<le> lst" using assms(19) by simp
  have q: "?q < lst" "mem ?q \<notin> {c_NUL, CR, LF, c_space, c_percent, c_hash, c_quest, c_plus}"
    using P(4) assms(12,13) l by (simp_all add: rest)
  let ?r3 = "r\<lparr>request_start := pos, method_end := ?sp - 1, http_method := method_code (http_method r) name, uri_start := ?u\<rparr>"
  have "scan_loop rl_step mem lst pos rl_start r = scan_loop rl_step mem lst (?u + 1) (path_state mem (?u + 1)) ?r3"
    using request_prefix [OF P(6) assms(4,5), of lst r] l by (simp add: path)
  also obtain ext where "\<dots> = scan_loop rl_step mem lst ?e (path_state mem ?e) (?r3\<lparr>uri_ext := ext\<rparr>)"
    using rl_path_scan [OF clean_path [OF P(1) assms(9)], of "?u + 1" lst ?r3] no_plus [OF P(1) assms(8)] l by (auto simp: path)
  also have "\<dots> = scan_loop rl_step mem lst (Suc ?e) rl_check_uri_http_09 (?r3\<lparr>uri_ext := ext, uri_end := ?e\<rparr>)"
    by (rule scan_next)
      (use P(2) l in \<open>auto simp: rl_step_def path_state_def rl_sw_after_slash_in_uri_def rl_sw_check_uri_def is_usual_iff\<close>)
  also have "\<dots> = scan_loop rl_step mem lst ?q rl_check_uri (?r3\<lparr>uri_ext := ext, uri_end := ?e, space_in_uri := True\<rparr>)"
    by (rule scan_next) (use P(3) l assms(10) in \<open>auto simp: rl_step_def rl_sw_check_uri_http_09_def\<close>)
  also obtain ext' where "\<dots> = scan_loop rl_step mem lst (Suc ?q) (path_state mem (Suc ?q))
        (?r3\<lparr>uri_ext := ext, uri_end := ?e, space_in_uri := True, uri_ext := ext'\<rparr>)"
    using rl_check_uri_any [where p = ?q and mem = mem, OF q] by blast
  also obtain ext'' where "\<dots> = scan_loop rl_step mem lst ?f (path_state mem ?f)
      (?r3\<lparr>uri_ext := ext, uri_end := ?e, space_in_uri := True, uri_ext := ext''\<rparr>)"
    using rl_path_scan [OF clean_path [OF P(4) assms(13)], of "Suc ?q" lst "?r3\<lparr>uri_ext := ext, uri_end := ?e, space_in_uri := True, uri_ext := ext'\<rparr>"]
      no_plus [OF P(4) assms(12)] l by (auto simp: rest)
  finally have run: "scan_loop rl_step mem lst pos rl_start r = \<dots>" .
  note run = trans [OF run request_suffix [OF P(5) assms(14-18) l]]
  show ?thesis
    using request_line_result [OF _ run _ _ _ assms(20,21)] assms(1,2) P(1-4)
    by (auto simp: fresh_request_def plain_uri_def holds_append)
qed

theorem request_line_space_hides_byte_witness:
  "\<exists>r'. ngx_http_parse_request_line (mem_at 1 (bs ''GET /a /../b HTTP/1.1'' @ [CR, LF])) init_request \<lparr>buf_pos = 1, buf_last = 30\<rparr> =
      (NGX_OK, r', \<lparr>buf_pos = 24, buf_last = 30\<rparr>) \<and> \<not> complex_uri r' \<and> \<not> quoted_uri r'"
proof -
  let ?mem = "mem_at 1 (bs ''GET /a /../b HTTP/1.1'' @ [CR, LF])"
  have r: "fresh_request init_request" "plain_uri init_request"
    by (simp_all add: init_request_def fresh_request_def plain_uri_def)
  have "bs ''GET /a /../b HTTP/1.1'' @ [CR, LF] =
      bs ''GET'' @ c_space # bs ''/a'' @ c_space # c_slash # bs ''../b'' @ c_space # bs ''HTTP/'' @ bs ''1'' @ c_dot # bs ''1'' @ [CR, LF]"
    by simp
  then have h: "holds ?mem 1 (bs ''GET'' @ c_space # bs ''/a'' @ c_space # c_slash # bs ''../b'' @ c_space # bs ''HTTP/'' @
      bs ''1'' @ c_dot # bs ''1'' @ [CR, LF])"
    using holds_mem_at by metis
  have n: "bs ''GET'' \<noteq> []" "\<forall>c\<in>set (bs ''GET''). method_char c" "hd (bs ''/a'') = c_slash" "bs ''/a'' \<noteq> []"
      "c_plus \<notin> set (bs ''/a'')" "clean_path (bs ''/a'')" "c_slash \<notin> {c_space, CR, LF, c_H}" "bs ''../b'' \<noteq> []"
      "c_plus \<notin> set (bs ''../b'')" "clean_path (bs ''../b'')" "list_all is_digit (bs ''1'')"
      "hd (bs ''1'') \<noteq> c_0" "bs ''1'' \<noteq> []" "list_all is_digit (bs ''1'')" "bs ''1'' \<noteq> []"
      "1 + length (bs ''GET'') + length (bs ''/a'') + length (bs ''../b'') + length (bs ''1'') + length (bs ''1'') + 12 \<le> (30 :: nat)"
      "(dec_value (bs ''1'') mod 65536) * 1000 + dec_value (bs ''1'') mod 65536 = 1001" "(1001 :: nat) \<noteq> 9"
    by (simp_all add: digit_value_def is_digit_def method_char_def)
  show ?thesis
    using request_line_space_hides_byte [OF r h n] by (auto simp del: bs_simps)
qed

lemma example_run:
  "\<exists>r'. ngx_http_parse_request_line (mem_at 1 (bs ''PUT /a/b.c HTTP/65537.1'' @ [CR, LF])) init_request \<lparr>buf_pos = 1, buf_last = 30\<rparr> =
      (NGX_OK, r', \<lparr>buf_pos = 26, buf_last = 30\<rparr>) \<and> http_method r' = NGX_HTTP_PUT \<and> unat (http_version r') = 1001 \<and> plain_uri r' \<and> uri_start r' = 5 \<and> uri_end r' = 11 \<and> args_start r' = NULL"
proof -
  let ?mem = "mem_at 1 (bs ''PUT /a/b.c HTTP/65537.1'' @ [CR, LF])"
  have r: "fresh_request init_request" "plain_uri init_request"
    by (simp_all add: init_request_def fresh_request_def plain_uri_def)
  have "bs ''PUT /a/b.c HTTP/65537.1'' @ [CR, LF] =
      bs ''PUT'' @ c_space # bs ''/a/b.c'' @ c_space # bs ''HTTP/'' @ bs ''65537'' @ c_dot # bs ''1'' @ [CR, LF]"
    by simp
  then have h: "holds ?mem 1 (bs ''PUT'' @ c_space # bs ''/a/b.c'' @ c_space # bs ''HTTP/'' @ bs ''65537'' @ c_dot # bs ''1'' @ [CR, LF])"
    using holds_mem_at by metis
  have n: "bs ''PUT'' \<noteq> []" "\<forall>c\<in>set (bs ''PUT''). method_char c" "hd (bs ''/a/b.c'') = c_slash" "bs ''/a/b.c'' \<noteq> []"
      "c_plus \<notin> set (bs ''/a/b.c'')" "clean_path (bs ''/a/b.c'')" "list_all is_digit (bs ''65537'')"
      "hd (bs ''65537'') \<noteq> c_0" "bs ''65537'' \<noteq> []" "list_all is_digit (bs ''1'')" "bs ''1'' \<noteq> []"
      "1 + length (bs ''PUT'') + length (bs ''/a/b.c'') + length (bs ''65537'') + length (bs ''1'') + 10 \<le> (30 :: nat)"
      "(dec_value (bs ''65537'') mod 65536) * 1000 + dec_value (bs ''1'') mod 65536 = 1001" "(1001 :: nat) \<noteq> 9"
    by (simp_all add: digit_value_def is_digit_def method_char_def)
  have "method_code (http_method init_request) (bs ''PUT'') = NGX_HTTP_PUT"
    by (simp add: method_code_def http_methods_def bs_inject del: bs_simps)
  then show ?thesis
    using request_line_simple [OF r h n] by (auto simp del: bs_simps)
qed

theorem request_line_pointers_witness:
  "\<exists>r' b'. ngx_http_parse_request_line (mem_at 1 (bs ''PUT /a/b.c HTTP/65537.1'' @ [CR, LF])) init_request \<lparr>buf_pos = 1, buf_last = 30\<rparr> =
      (NGX_OK, r', b') \<and> 1 \<le> request_start r' \<and> request_start r' \<le> method_end r' \<and> method_end r' < uri_start r' \<and>
      uri_start r' < uri_end r' \<and> uri_end r' \<le> request_end r' \<and> request_end r' < buf_pos b'"
proof -
  have r: "fresh_request init_request" by (simp add: init_request_def fresh_request_def)
  obtain r' where run: "ngx_http_parse_request_line (mem_at 1 (bs ''PUT /a/b.c HTTP/65537.1'' @ [CR, LF])) init_request
      \<lparr>buf_pos = 1, buf_last = 30\<rparr> = (NGX_OK, r', \<lparr>buf_pos = 26, buf_last = 30\<rparr>)"
    using example_run by blast
  show ?thesis
    using request_line_pointers [OF r _ run] run by (auto simp del: bs_simps)
qed

theorem request_line_plain_uri_witness:
  "\<exists>r' b'. ngx_http_parse_request_line (mem_at 1 (bs ''PUT /a/b.c HTTP/65537.1'' @ [CR, LF])) init_request \<lparr>buf_pos = 1, buf_last = 30\<rparr> =
      (NGX_OK, r', b') \<and> clean (mem_at 1 (bs ''PUT /a/b.c HTTP/65537.1'' @ [CR, LF])) (uri_start r') (uri_end r')"
proof -
  have r: "fresh_request init_request" by (simp add: init_request_def fresh_request_def)
  obtain r' where run: "ngx_http_parse_request_line (mem_at 1 (bs ''PUT /a/b.c HTTP/65537.1'' @ [CR, LF])) init_request
      \<lparr>buf_pos = 1, buf_last = 30\<rparr> = (NGX_OK, r', \<lparr>buf_pos = 26, buf_last = 30\<rparr>)"
    and "plain_uri r'" "args_start r' = NULL"
    using example_run by blast
  then show ?thesis
    using request_line_plain_uri [OF r _ run] by (auto simp: plain_uri_def simp del: bs_simps)
qed

theorem request_line_resume_witness:
  "\<exists>r1 b1. ngx_http_parse_request_line (mem_at 1 (bs ''G'')) init_request \<lparr>buf_pos = 1, buf_last = 2\<rparr> = (NGX_AGAIN, r1, b1) \<and>
    visible (ngx_http_parse_request_line (mem_at 1 (bs ''GET'')) r1 (b1\<lparr>buf_last := 4\<rparr>)) =
    visible (ngx_http_parse_request_line (mem_at 1 (bs ''GET'')) init_request \<lparr>buf_pos = 1, buf_last = 4\<rparr>)"
proof -
  let ?b = "\<lparr>buf_pos = 1, buf_last = 2\<rparr>"
  have i: "rl_inv (mem_at 1 (bs ''G'')) 1 (buf_pos ?b) (request_line_state init_request) init_request"
    using rl_inv_fresh [of init_request 1 "mem_at 1 (bs ''G'')" 1] by (simp add: init_request_def fresh_request_def)
  have "mem_at 1 (bs ''G'') 1 = 71" by (simp add: mem_at_def)
  then obtain r1 b1 where run: "ngx_http_parse_request_line (mem_at 1 (bs ''G'')) init_request ?b = (NGX_AGAIN, r1, b1)"
    by (simp add: ngx_http_parse_request_line_def scan_loop_step scan_loop_end rl_step_def rl_sw_start_def Let_def init_request_def)
  have "same_mem 1 2 (mem_at 1 (bs ''G'')) (mem_at 1 (bs ''GET''))"
    by (auto simp: same_mem_def mem_at_def)
  then show ?thesis
    using request_line_resume [OF i _ run, of 4 "mem_at 1 (bs ''GET'')"] run by (auto simp del: bs_simps)
qed

end
