(* ===== verification/Ngx_Http_Complex_Uri.thy ===== *)
theory Ngx_Http_Complex_Uri
  imports Ngx_Http_Request_Line Ngx_Escape
begin

text \<open>
  \<open>ngx_http_parse_complex_uri\<close> of \<open>http/ngx_http_parse.c\<close>: percent decoding and removal of dot
  segments.  The output is the list of the bytes from \<open>r->uri.data\<close> up to \<open>u\<close>; \<open>r->uri_ext\<close>, which
  points into it, is an offset.  \<open>quoted_state\<close> only ever holds one of the four states outside a
  percent sequence; the model gives these a type of their own, so that the loop terminates.
\<close>

datatype cu_pos = cu_usual | cu_slash | cu_dot | cu_dot_dot

datatype cu_state = cu_in cu_pos | cu_quoted | cu_quoted_second

record cu_vars =
  cu_p :: ptr
  cu_ch :: u_char
  cu_st :: cu_state
  cu_qst :: cu_pos
  cu_decoded :: u_char
  cu_out :: bytes
  cu_ext :: "nat option"
  cu_args :: ptr
  cu_plus :: bool
  cu_quoted_uri :: bool

datatype cu_outcome =
    CU_next cu_vars
  | CU_done cu_vars
  | CU_args cu_vars
  | CU_return int

text \<open>\<open>ch = *p++;\<close> and \<open>*u++ = c;\<close>\<close>

definition cu_read :: "memory \<Rightarrow> cu_vars \<Rightarrow> cu_vars" where
  "cu_read mem v = v\<lparr>cu_ch := mem (cu_p v), cu_p := cu_p v + 1\<rparr>"

definition cu_put :: "u_char \<Rightarrow> cu_vars \<Rightarrow> cu_vars" where
  "cu_put c v = v\<lparr>cu_out := cu_out v @ [c]\<rparr>"

definition cu_goto :: "cu_pos \<Rightarrow> cu_vars \<Rightarrow> cu_vars" where
  "cu_goto st v = v\<lparr>cu_st := cu_in st\<rparr>"

definition cu_quote :: "cu_pos \<Rightarrow> cu_vars \<Rightarrow> cu_vars" where
  "cu_quote st v = v\<lparr>cu_qst := st, cu_st := cu_quoted\<rparr>"

definition cu_sw_usual :: "memory \<Rightarrow> cu_vars \<Rightarrow> cu_outcome" where
  "cu_sw_usual mem v =
     (let ch = cu_ch v in
      if is_usual ch then CU_next (cu_read mem (cu_put ch v))
      else if ch = c_slash then CU_next (cu_read mem (cu_put ch (cu_goto cu_slash (v\<lparr>cu_ext := None\<rparr>))))
      else if ch = c_percent then CU_next (cu_read mem (cu_quote cu_usual v))
      else if ch = c_quest then CU_args (v\<lparr>cu_args := cu_p v\<rparr>)
      else if ch = c_hash then CU_done v
      else if ch = c_dot then CU_next (cu_read mem (cu_put ch (v\<lparr>cu_ext := Some (length (cu_out v) + 1)\<rparr>)))
      else if ch = c_plus then CU_next (cu_read mem (cu_put ch (v\<lparr>cu_plus := True\<rparr>)))
      else CU_next (cu_read mem (cu_put ch v)))"

definition cu_sw_slash :: "memory \<Rightarrow> bool \<Rightarrow> cu_vars \<Rightarrow> cu_outcome" where
  "cu_sw_slash mem merge_slashes v =
     (let ch = cu_ch v in
      if is_usual ch then CU_next (cu_read mem (cu_put ch (cu_goto cu_usual v)))
      else if ch = c_slash then
        (if \<not> merge_slashes then CU_next (cu_read mem (cu_put ch v)) else CU_next (cu_read mem v))
      else if ch = c_dot then CU_next (cu_read mem (cu_put ch (cu_goto cu_dot v)))
      else if ch = c_percent then CU_next (cu_read mem (cu_quote cu_slash v))
      else if ch = c_quest then CU_args (v\<lparr>cu_args := cu_p v\<rparr>)
      else if ch = c_hash then CU_done v
      else if ch = c_plus then CU_next (cu_read mem (cu_put ch (cu_goto cu_usual (v\<lparr>cu_plus := True\<rparr>))))
      else CU_next (cu_read mem (cu_put ch (cu_goto cu_usual v))))"

definition cu_sw_dot :: "memory \<Rightarrow> cu_vars \<Rightarrow> cu_outcome" where
  "cu_sw_dot mem v =
     (let ch = cu_ch v in
      if is_usual ch then CU_next (cu_read mem (cu_put ch (cu_goto cu_usual v)))
      else if ch = c_slash then CU_next (cu_read mem (cu_goto cu_slash (v\<lparr>cu_out := butlast (cu_out v)\<rparr>)))
      else if ch = c_dot then CU_next (cu_read mem (cu_put ch (cu_goto cu_dot_dot v)))
      else if ch = c_percent then CU_next (cu_read mem (cu_quote cu_dot v))
      else if ch = c_quest then CU_args (v\<lparr>cu_args := cu_p v\<rparr>)
      else if ch = c_hash then CU_done v
      else if ch = c_plus then CU_next (cu_read mem (cu_put ch (cu_goto cu_usual (v\<lparr>cu_plus := True\<rparr>))))
      else CU_next (cu_read mem (cu_put ch (cu_goto cu_usual v))))"

text \<open>
  The search for the slash before the last segment, from offset \<open>u\<close> downwards: the result is \<open>u\<close>
  behind it, or \<^const>\<open>None\<close> when the search leaves the buffer.
\<close>

fun cu_back :: "bytes \<Rightarrow> nat \<Rightarrow> nat option" where
  "cu_back out 0 = (if out ! 0 = c_slash then Some 1 else None)"
| "cu_back out (Suc u) = (if out ! Suc u = c_slash then Some (Suc u + 1) else cu_back out u)"

definition cu_sw_dot_dot :: "memory \<Rightarrow> cu_vars \<Rightarrow> cu_outcome" where
  "cu_sw_dot_dot mem v =
     (let ch = cu_ch v in
      if is_usual ch then CU_next (cu_read mem (cu_put ch (cu_goto cu_usual v)))
      else if ch = c_slash then
        (if length (cu_out v) < 5 then CU_return NGX_HTTP_PARSE_INVALID_REQUEST
         else case cu_back (cu_out v) (length (cu_out v) - 5) of
             None \<Rightarrow> CU_return NGX_HTTP_PARSE_INVALID_REQUEST
           | Some u \<Rightarrow> CU_next (cu_read mem (cu_goto cu_slash (v\<lparr>cu_out := take u (cu_out v)\<rparr>))))
      else if ch = c_percent then CU_next (cu_read mem (cu_quote cu_dot_dot v))
      else if ch = c_quest then CU_args (v\<lparr>cu_args := cu_p v\<rparr>)
      else if ch = c_hash then CU_done v
      else if ch = c_plus then CU_next (cu_read mem (cu_put ch (cu_goto cu_usual (v\<lparr>cu_plus := True\<rparr>))))
      else CU_next (cu_read mem (cu_put ch (cu_goto cu_usual v))))"

definition cu_sw_quoted :: "memory \<Rightarrow> cu_vars \<Rightarrow> cu_outcome" where
  "cu_sw_quoted mem v =
     (let ch = cu_ch v; v = v\<lparr>cu_quoted_uri := True\<rparr> in
      if ch \<ge> c_0 \<and> ch \<le> c_9 then
        CU_next (cu_read mem (v\<lparr>cu_decoded := ch - c_0, cu_st := cu_quoted_second\<rparr>))
      else let c = ch OR 0x20 in
        if c \<ge> c_a \<and> c \<le> c_f then
          CU_next (cu_read mem (v\<lparr>cu_decoded := c - c_a + 10, cu_st := cu_quoted_second\<rparr>))
        else CU_return NGX_HTTP_PARSE_INVALID_REQUEST)"

definition cu_sw_quoted_second :: "memory \<Rightarrow> cu_vars \<Rightarrow> cu_outcome" where
  "cu_sw_quoted_second mem v =
     (let ch = cu_ch v in
      if ch \<ge> c_0 \<and> ch \<le> c_9 then
        let ch = push_bit 4 (cu_decoded v) + ch - c_0 in
        if ch = c_percent \<or> ch = c_hash then CU_next (cu_read mem (cu_put ch (cu_goto cu_usual v)))
        else if ch = c_NUL then CU_return NGX_HTTP_PARSE_INVALID_REQUEST
        else CU_next (cu_goto (cu_qst v) (v\<lparr>cu_ch := ch\<rparr>))
      else let c = ch OR 0x20 in
        if c \<ge> c_a \<and> c \<le> c_f then
          let ch = push_bit 4 (cu_decoded v) + c - c_a + 10 in
          if ch = c_quest then CU_next (cu_read mem (cu_put ch (cu_goto cu_usual v)))
          else if ch = c_plus then CU_next (cu_goto (cu_qst v) (v\<lparr>cu_ch := ch, cu_plus := True\<rparr>))
          else CU_next (cu_goto (cu_qst v) (v\<lparr>cu_ch := ch\<rparr>))
        else CU_return NGX_HTTP_PARSE_INVALID_REQUEST)"

definition cu_step :: "memory \<Rightarrow> bool \<Rightarrow> cu_vars \<Rightarrow> cu_outcome" where
  "cu_step mem merge_slashes v =
     (case cu_st v of
        cu_in cu_usual \<Rightarrow> cu_sw_usual mem v
      | cu_in cu_slash \<Rightarrow> cu_sw_slash mem merge_slashes v
      | cu_in cu_dot \<Rightarrow> cu_sw_dot mem v
      | cu_in cu_dot_dot \<Rightarrow> cu_sw_dot_dot mem v
      | cu_quoted \<Rightarrow> cu_sw_quoted mem v
      | cu_quoted_second \<Rightarrow> cu_sw_quoted_second mem v)"

text \<open>A step reads the next character, or it leaves a percent sequence.\<close>

definition cu_measure :: "ptr \<Rightarrow> cu_vars \<Rightarrow> nat" where
  "cu_measure uend v = 2 * (Suc uend - cu_p v) + (if cu_st v = cu_quoted_second then 1 else 0)"

lemmas cu_ops = cu_read_def cu_put_def cu_goto_def cu_quote_def

lemmas cu_sw_defs = cu_sw_usual_def cu_sw_slash_def cu_sw_dot_def cu_sw_dot_dot_def cu_sw_quoted_def
  cu_sw_quoted_second_def

lemma cu_step_measure:
  assumes "cu_step mem m v = CU_next v'" "cu_p v \<le> uend"
  shows "cu_measure uend v' < cu_measure uend v"
proof -
  have "cu_p v' = Suc (cu_p v) \<or> (cu_p v' = cu_p v \<and> cu_st v = cu_quoted_second \<and> cu_st v' \<noteq> cu_quoted_second)"
    using assms(1)
    by (auto simp: cu_step_def cu_sw_defs cu_ops Let_def
        split: cu_state.splits cu_pos.splits if_splits option.splits)
  then show ?thesis using assms(2) by (auto simp: cu_measure_def)
qed

function cu_loop :: "memory \<Rightarrow> bool \<Rightarrow> ptr \<Rightarrow> cu_vars \<Rightarrow> cu_outcome" where
  "cu_loop mem merge_slashes uend v =
     (if cu_p v \<le> uend then
        case cu_step mem merge_slashes v of
          CU_next v' \<Rightarrow> cu_loop mem merge_slashes uend v'
        | out \<Rightarrow> out
      else CU_done v)"
  by pat_completeness auto
termination
  by (relation "measure (\<lambda>(mem, m, uend, v). cu_measure uend v)") (auto intro: cu_step_measure)

declare cu_loop.simps [simp del]

text \<open>The label \<open>args\<close>: the search for a fragment behind the arguments.\<close>

function cu_fragment :: "memory \<Rightarrow> ptr \<Rightarrow> ptr \<Rightarrow> ptr option" where
  "cu_fragment mem p uend =
     (if p < uend then if mem p \<noteq> c_hash then cu_fragment mem (p + 1) uend else Some (p + 1) else None)"
  by pat_completeness auto
termination by (relation "measure (\<lambda>(mem, p, uend). uend - p)") auto

declare cu_fragment.simps [simp del]

text \<open>
  What the function leaves in the request: \<open>r->uri\<close>, \<open>r->exten\<close>, \<open>r->args\<close> as an address and a
  length, \<open>r->args_start\<close> and the two flags it can set.
\<close>

record cu_result =
  cu_uri :: bytes
  cu_exten :: "bytes option"
  cu_args_str :: "(ptr \<times> nat) option"
  cu_args_start :: ptr
  cu_plus_in_uri :: bool
  cu_quoted_in_uri :: bool

definition cu_finish :: "cu_vars \<Rightarrow> (ptr \<times> nat) option \<Rightarrow> ptr \<Rightarrow> cu_result" where
  "cu_finish v args astart =
     \<lparr>cu_uri = cu_out v, cu_exten = map_option (\<lambda>e. drop e (cu_out v)) (cu_ext v),
      cu_args_str = args, cu_args_start = astart,
      cu_plus_in_uri = cu_plus v, cu_quoted_in_uri = cu_quoted_uri v\<rparr>"

definition cu_init :: "memory \<Rightarrow> ngx_http_request_t \<Rightarrow> cu_vars" where
  "cu_init mem r =
     \<lparr>cu_p = uri_start r + 1, cu_ch = mem (uri_start r), cu_st = cu_in cu_usual, cu_qst = cu_usual,
      cu_decoded = 0, cu_out = [], cu_ext = None, cu_args = NULL,
      cu_plus = plus_in_uri r, cu_quoted_uri = quoted_uri r\<rparr>"

definition ngx_http_parse_complex_uri ::
  "memory \<Rightarrow> ngx_http_request_t \<Rightarrow> bool \<Rightarrow> int \<times> cu_result option" where
  "ngx_http_parse_complex_uri mem r merge_slashes =
     (case cu_loop mem merge_slashes (uri_end r) (cu_init mem r) of
        CU_return c \<Rightarrow> (c, None)
      | CU_done v \<Rightarrow> (NGX_OK, Some (cu_finish v None (cu_args v)))
      | CU_args v \<Rightarrow>
          (case cu_fragment mem (cu_p v) (uri_end r) of
             Some p \<Rightarrow> (NGX_OK, Some (cu_finish v (Some (cu_args v, p - 1 - cu_args v)) NULL))
           | None \<Rightarrow> (NGX_OK, Some (cu_finish v None (cu_args v))))
      | CU_next v \<Rightarrow> (NGX_ERROR, None))"

subsection \<open>What the output can hold\<close>

text \<open>\<open>..\<close> and \<open>.\<close> as a complete segment followed by a slash, and, with \<open>merge_slashes\<close>, an empty segment.\<close>

definition dots_removed :: "bool \<Rightarrow> bytes \<Rightarrow> bool" where
  "dots_removed merge_slashes s \<longleftrightarrow>
     \<not> sublist (bs ''/./'') s \<and> \<not> sublist (bs ''/../'') s \<and> (merge_slashes \<longrightarrow> \<not> sublist (bs ''//'') s)"

text \<open>Each position of the parser is a fact about the last segment of what has been written.\<close>

fun cu_at :: "cu_pos \<Rightarrow> bytes \<Rightarrow> bool" where
  "cu_at cu_usual s \<longleftrightarrow> \<not> suffix (bs ''/'') s \<and> \<not> suffix (bs ''/.'') s \<and> \<not> suffix (bs ''/..'') s"
| "cu_at cu_slash s \<longleftrightarrow> suffix (bs ''/'') s"
| "cu_at cu_dot s \<longleftrightarrow> suffix (bs ''/.'') s"
| "cu_at cu_dot_dot s \<longleftrightarrow> suffix (bs ''/..'') s"

text \<open>The position that a percent sequence returns to, and how far the output is behind the input.\<close>

definition cu_position :: "cu_vars \<Rightarrow> cu_pos" where
  "cu_position v = (case cu_st v of cu_in q \<Rightarrow> q | _ \<Rightarrow> cu_qst v)"

definition cu_lag :: "cu_state \<Rightarrow> nat" where
  "cu_lag st = (case st of cu_in _ \<Rightarrow> 1 | cu_quoted \<Rightarrow> 2 | cu_quoted_second \<Rightarrow> 3)"

definition exten_at :: "bytes \<Rightarrow> nat \<Rightarrow> bool" where
  "exten_at s e \<longleftrightarrow> 0 < e \<and> e \<le> length s \<and> s ! (e - 1) = c_dot \<and> c_dot \<notin> set (drop e s) \<and> c_slash \<notin> set (drop e s)"

definition cu_inv :: "bool \<Rightarrow> ptr \<Rightarrow> cu_vars \<Rightarrow> bool" where
  "cu_inv merge_slashes start v \<longleftrightarrow>
     dots_removed merge_slashes (cu_out v) \<and> cu_at (cu_position v) (cu_out v) \<and>
     start + length (cu_out v) + cu_lag (cu_st v) \<le> cu_p v \<and>
     (\<forall>e. cu_ext v = Some e \<longrightarrow> cu_position v = cu_usual \<and> exten_at (cu_out v) e)"

lemma dots_removed_take: "dots_removed m s \<Longrightarrow> dots_removed m (take n s)"
  unfolding dots_removed_def by (meson sublist_order.order_trans sublist_take)

lemma dots_removed_butlast: "dots_removed m s \<Longrightarrow> dots_removed m (butlast s)"
  by (simp add: butlast_conv_take dots_removed_take)

lemma dots_removed_snoc: "dots_removed m s \<Longrightarrow> c \<noteq> c_slash \<Longrightarrow> dots_removed m (s @ [c])"
  by (auto simp: dots_removed_def sublist_snoc Cons_eq_append_conv)

lemma dots_removed_slash:
  "dots_removed m s \<Longrightarrow> cu_at cu_usual s \<or> (cu_at cu_slash s \<and> \<not> m) \<Longrightarrow> dots_removed m (s @ [c_slash])"
  by (auto simp: dots_removed_def sublist_snoc Cons_eq_append_conv suffix_def)

lemma cu_at_usual_snoc:
  "c \<noteq> c_slash \<Longrightarrow> c \<noteq> c_dot \<Longrightarrow> cu_at cu_usual (s @ [c])"
  "c \<noteq> c_slash \<Longrightarrow> cu_at cu_usual s \<or> cu_at cu_dot_dot s \<Longrightarrow> cu_at cu_usual (s @ [c])"
  by (auto simp: Cons_eq_append_conv suffix_def)

lemma cu_at_snoc:
  "cu_at cu_slash (s @ [c_slash])"
  "cu_at cu_slash s \<Longrightarrow> cu_at cu_dot (s @ [c_dot])"
  "cu_at cu_dot s \<Longrightarrow> cu_at cu_dot_dot (s @ [c_dot])"
  "cu_at cu_dot s \<Longrightarrow> cu_at cu_slash (butlast s)"
  by (auto simp: suffix_def butlast_append)

lemma cu_back_Some:
  assumes "cu_back s u = Some n"
  shows "0 < n \<and> n \<le> Suc u \<and> s ! (n - 1) = c_slash"
  using assms by (induction s u rule: cu_back.induct) (auto split: if_splits)

lemma cu_at_take: "0 < n \<Longrightarrow> n \<le> length s \<Longrightarrow> s ! (n - 1) = c_slash \<Longrightarrow> cu_at cu_slash (take n s)"
  by (cases n) (auto simp: take_Suc_conv_app_nth)

lemma cu_back_at:
  assumes "cu_back s (length s - 5) = Some n" "5 \<le> length s"
  shows "cu_at cu_slash (take n s) \<and> n < length s"
proof -
  have n: "0 < n" "n \<le> Suc (length s - 5)" "s ! (n - 1) = c_slash" using cu_back_Some [OF assms(1)] by auto
  then show ?thesis using assms(2) cu_at_take [of n s] by simp
qed

lemma exten_at_snoc:
  "exten_at (s @ [c_dot]) (Suc (length s))"
  "exten_at s e \<Longrightarrow> c \<notin> {c_dot, c_slash} \<Longrightarrow> exten_at (s @ [c]) e"
  by (auto simp: exten_at_def nth_append)

lemma cu_inv_step:
  assumes "cu_inv m start v" "cu_step mem m v = CU_next v'"
  shows "cu_inv m start v'"
proof -
  have i: "dots_removed m (cu_out v)" "cu_at (cu_position v) (cu_out v)"
      "start + length (cu_out v) + cu_lag (cu_st v) \<le> cu_p v"
      "cu_ext v = Some e \<Longrightarrow> cu_position v = cu_usual \<and> exten_at (cu_out v) e" for e
    using assms(1) by (auto simp: cu_inv_def)
  show ?thesis
  proof (cases "cu_st v")
    case (cu_in q)
    then have q: "cu_position v = q" by (simp add: cu_position_def)
    show ?thesis
    proof (cases q)
      case cu_usual
      then show ?thesis using assms(2) cu_in q i
        by (auto simp: cu_inv_def cu_step_def cu_sw_usual_def cu_ops Let_def cu_position_def cu_lag_def is_usual_iff
            dots_removed_snoc dots_removed_slash cu_at_snoc cu_at_usual_snoc exten_at_snoc simp del: cu_at.simps split: if_splits)
    next
      case cu_slash
      then show ?thesis using assms(2) cu_in q i
        by (auto simp: cu_inv_def cu_step_def cu_sw_slash_def cu_ops Let_def cu_position_def cu_lag_def is_usual_iff
            dots_removed_snoc dots_removed_slash cu_at_snoc cu_at_usual_snoc exten_at_snoc simp del: cu_at.simps split: if_splits)
    next
      case cu_dot
      then show ?thesis using assms(2) cu_in q i
        by (auto simp: cu_inv_def cu_step_def cu_sw_dot_def cu_ops Let_def cu_position_def cu_lag_def is_usual_iff
            dots_removed_snoc dots_removed_butlast cu_at_snoc cu_at_usual_snoc exten_at_snoc simp del: cu_at.simps split: if_splits)
    next
      case cu_dot_dot
      then show ?thesis using assms(2) cu_in q i
        by (auto simp: cu_inv_def cu_step_def cu_sw_dot_dot_def cu_ops Let_def cu_position_def cu_lag_def is_usual_iff
            dots_removed_snoc dots_removed_take cu_at_snoc cu_at_usual_snoc exten_at_snoc simp del: cu_at.simps
            split: if_splits option.splits dest: cu_back_at)
    qed
  next
    case cu_quoted
    then show ?thesis using assms(2) i
      by (auto simp: cu_inv_def cu_step_def cu_sw_quoted_def cu_ops Let_def cu_position_def cu_lag_def split: if_splits)
  next
    case cu_quoted_second
    then show ?thesis using assms(2) i
      by (auto simp: cu_inv_def cu_step_def cu_sw_quoted_second_def cu_ops Let_def cu_position_def cu_lag_def
          dots_removed_snoc cu_at_usual_snoc exten_at_snoc simp del: cu_at.simps split: if_splits)
  qed
qed

lemma cu_step_ends:
  "cu_step mem m v = CU_next v' \<Longrightarrow> cu_p v' \<le> Suc (cu_p v)"
  "cu_step mem m v = CU_return c \<Longrightarrow> c = NGX_HTTP_PARSE_INVALID_REQUEST"
  "cu_step mem m v = CU_done w \<Longrightarrow> w = v"
  "cu_step mem m v = CU_args w \<Longrightarrow> w = v\<lparr>cu_args := cu_p v\<rparr>"
  by (auto simp: cu_step_def cu_sw_defs cu_ops Let_def split: cu_state.splits cu_pos.splits if_splits option.splits)

lemma cu_loop_cases:
  assumes "P v" "\<And>v v'. P v \<Longrightarrow> cu_step mem m v = CU_next v' \<Longrightarrow> P v'" "cu_p v \<le> Suc uend"
  shows "cu_loop mem m uend v = CU_return NGX_HTTP_PARSE_INVALID_REQUEST \<or>
    (\<exists>w. P w \<and> cu_p w \<le> Suc uend \<and>
      (cu_loop mem m uend v = CU_done w \<or> (cu_loop mem m uend v = CU_args (w\<lparr>cu_args := cu_p w\<rparr>) \<and> cu_p w \<le> uend)))"
  using assms
proof (induction mem m uend v rule: cu_loop.induct)
  case (1 mem m uend v)
  show ?case
  proof (cases "cu_p v \<le> uend")
    case False
    then show ?thesis using 1(2,4) by (subst (1 2 3) cu_loop.simps) auto
  next
    case True
    consider (n) v' where "cu_step mem m v = CU_next v'" "cu_p v' \<le> Suc (cu_p v)"
      | (r) "cu_step mem m v = CU_return NGX_HTTP_PARSE_INVALID_REQUEST" | (d) "cu_step mem m v = CU_done v"
      | (a) "cu_step mem m v = CU_args (v\<lparr>cu_args := cu_p v\<rparr>)"
      using cu_step_ends [of mem m v] by (cases "cu_step mem m v") auto
    then show ?thesis
    proof cases
      case n
      then have "cu_loop mem m uend v = cu_loop mem m uend v'" using True by (simp add: cu_loop.simps [of mem m uend v])
      moreover have "P v'" using 1(3) [OF 1(2) n(1)] .
      moreover have "cu_p v' \<le> Suc uend" using n(2) True by simp
      ultimately show ?thesis using 1(1) [OF True n(1)] 1(3) by simp
    next
      case r
      then show ?thesis using True by (simp add: cu_loop.simps [of mem m uend v])
    next
      case d
      then show ?thesis using True 1(2) by (auto simp add: cu_loop.simps [of mem m uend v] intro!: exI [of _ v])
    next
      case a
      then show ?thesis using True 1(2) by (auto simp add: cu_loop.simps [of mem m uend v] intro!: exI [of _ v])
    qed
  qed
qed

lemma hd_butlast: "suffix (bs ''/.'') s \<Longrightarrow> butlast s \<noteq> [] \<and> hd (butlast s) = hd s"
  by (auto simp: suffix_def butlast_append hd_append)

lemma cu_out_hd:
  assumes "cu_out v \<noteq> []" "cu_inv m start v" "cu_step mem m v = CU_next v'"
  shows "cu_out v' \<noteq> [] \<and> hd (cu_out v') = hd (cu_out v)"
proof (cases "cu_st v = cu_in cu_dot \<and> cu_ch v = c_slash")
  case True
  then have "suffix (bs ''/.'') (cu_out v)" using assms(2) by (simp add: cu_inv_def cu_position_def)
  then show ?thesis using hd_butlast [of "cu_out v"] assms(3) True
    by (auto simp: cu_step_def cu_sw_dot_def cu_ops is_usual_iff)
next
  case False
  have "cu_back (cu_out v) n = Some u \<Longrightarrow> 0 < u \<and> take u (cu_out v) \<noteq> [] \<and> hd (take u (cu_out v)) = hd (cu_out v)" for n u
    using cu_back_Some [of "cu_out v" n u] assms(1) by simp
  moreover from this have "cu_back (cu_out v) n \<noteq> Some 0" for n by blast
  ultimately show ?thesis using False assms(1,3)
    by (auto simp: cu_step_def cu_sw_defs cu_ops Let_def
        split: cu_state.splits cu_pos.splits if_splits option.splits)
qed

lemma cu_inv_init: "cu_inv m (uri_start r) (cu_init mem r)"
  by (simp add: cu_inv_def cu_init_def dots_removed_def cu_position_def cu_lag_def)

lemma exten_split:
  assumes "exten_at s e"
  shows "\<exists>stem. s = stem @ [c_dot] @ drop e s \<and> c_dot \<notin> set (drop e s) \<and> c_slash \<notin> set (drop e s)"
proof (intro exI [of _ "take (e - 1) s"] conjI)
  have "take e s = take (e - 1) s @ [c_dot]" using assms
    by (cases e) (auto simp: exten_at_def take_Suc_conv_app_nth)
  then show "s = take (e - 1) s @ [c_dot] @ drop e s" by (metis append.assoc append_take_drop_id)
qed (use assms in \<open>auto simp: exten_at_def\<close>)

text \<open>What every result satisfies.\<close>

definition cu_result_ok :: "bool \<Rightarrow> ngx_http_request_t \<Rightarrow> cu_result \<Rightarrow> bool" where
  "cu_result_ok merge_slashes r res \<longleftrightarrow>
     dots_removed merge_slashes (cu_uri res) \<and> length (cu_uri res) \<le> uri_end r - uri_start r \<and>
     (\<forall>e. cu_exten res = Some e \<longrightarrow>
        c_dot \<notin> set e \<and> c_slash \<notin> set e \<and> (\<exists>stem. cu_uri res = stem @ [c_dot] @ e))"

lemma cu_finish_ok:
  assumes "cu_inv m (uri_start r) v" "cu_p v \<le> Suc (uri_end r)"
  shows "cu_result_ok m r (cu_finish (v\<lparr>cu_args := a\<rparr>) x y)"
  using assms exten_split [of "cu_out v"]
  by (auto simp: cu_result_ok_def cu_finish_def cu_inv_def cu_lag_def split: cu_state.splits)

lemma complex_uri_cases:
  assumes "mem (uri_start r) = c_slash" "uri_start r < uri_end r"
  shows "ngx_http_parse_complex_uri mem r m = (NGX_HTTP_PARSE_INVALID_REQUEST, None) \<or>
    (\<exists>res. ngx_http_parse_complex_uri mem r m = (NGX_OK, Some res) \<and> cu_result_ok m r res \<and>
      (\<exists>s. cu_uri res = c_slash # s))"
proof -
  let ?P = "\<lambda>v. cu_inv m (uri_start r) v \<and> cu_out v \<noteq> [] \<and> hd (cu_out v) = c_slash"
  obtain v where v: "cu_step mem m (cu_init mem r) = CU_next v" "cu_out v = [c_slash]" "cu_p v = uri_start r + 2"
    using assms(1) by (simp add: cu_step_def cu_init_def cu_sw_usual_def is_usual_iff cu_ops)
  have loop: "cu_loop mem m (uri_end r) (cu_init mem r) = cu_loop mem m (uri_end r) v"
    using v(1) assms(2) by (simp add: cu_loop.simps [of mem m "uri_end r" "cu_init mem r"]) (simp add: cu_init_def)
  have P: "?P v" using cu_inv_step [OF cu_inv_init v(1)] v(2) by simp
  have p: "cu_p v \<le> Suc (uri_end r)" using assms(2) v(3) by simp
  have step: "\<And>v v'. ?P v \<Longrightarrow> cu_step mem m v = CU_next v' \<Longrightarrow> ?P v'"
    using cu_inv_step cu_out_hd by (metis (no_types))
  have "cu_loop mem m (uri_end r) v = CU_return NGX_HTTP_PARSE_INVALID_REQUEST \<or>
      (\<exists>w. ?P w \<and> cu_p w \<le> Suc (uri_end r) \<and>
        (cu_loop mem m (uri_end r) v = CU_done w \<or>
          (cu_loop mem m (uri_end r) v = CU_args (w\<lparr>cu_args := cu_p w\<rparr>) \<and> cu_p w \<le> uri_end r)))"
    by (rule cu_loop_cases [where P = ?P]) (fact P, fact step, fact p)
  then consider (r) "cu_loop mem m (uri_end r) v = CU_return NGX_HTTP_PARSE_INVALID_REQUEST"
    | (d) w where "?P w" "cu_p w \<le> Suc (uri_end r)" "cu_loop mem m (uri_end r) v = CU_done w"
    | (a) w where "?P w" "cu_p w \<le> Suc (uri_end r)" "cu_loop mem m (uri_end r) v = CU_args (w\<lparr>cu_args := cu_p w\<rparr>)"
    by blast
  then show ?thesis
  proof cases
    case r
    then show ?thesis by (simp add: ngx_http_parse_complex_uri_def loop)
  next
    case d
    have "cu_result_ok m r (cu_finish (w\<lparr>cu_args := cu_args w\<rparr>) x y)" for x y using cu_finish_ok d(1,2) by blast
    moreover have "\<exists>s. cu_uri (cu_finish w x y) = c_slash # s" for x y
      using d(1) by (cases "cu_out w") (simp_all add: cu_finish_def)
    ultimately show ?thesis using d(3) by (simp add: ngx_http_parse_complex_uri_def loop)
  next
    case a
    have "cu_result_ok m r (cu_finish (w\<lparr>cu_args := k\<rparr>) x y)" for k x y using cu_finish_ok a(1,2) by blast
    moreover have "\<exists>s. cu_uri (cu_finish (w\<lparr>cu_args := k\<rparr>) x y) = c_slash # s" for k x y
      using a(1) by (cases "cu_out w") (simp_all add: cu_finish_def)
    ultimately show ?thesis using a(3)
      by (simp add: ngx_http_parse_complex_uri_def loop split: option.splits)
  qed
qed

subsection \<open>Decoding and the positions\<close>

text \<open>Percent decoding of a path on its own.\<close>

fun percent_decode :: "bytes \<Rightarrow> bytes option" where
  "percent_decode [] = Some []"
| "percent_decode (c # s) =
     (if c = c_percent then
        (case s of
           h # l # t \<Rightarrow>
             if is_hex h \<and> is_hex l \<and> 0 < 16 * hex_value h + hex_value l
             then map_option ((#) (of_nat (16 * hex_value h + hex_value l))) (percent_decode t) else None
         | _ \<Rightarrow> None)
      else if c = c_quest \<or> c = c_hash then None
      else map_option ((#) c) (percent_decode s))"

text \<open>The parser over decoded characters.\<close>

fun cu_feed :: "bool \<Rightarrow> cu_pos \<Rightarrow> bytes \<Rightarrow> u_char \<Rightarrow> (cu_pos \<times> bytes) option" where
  "cu_feed m cu_usual s c = Some (if c = c_slash then cu_slash else cu_usual, s @ [c])"
| "cu_feed m cu_slash s c =
     (if c = c_slash then Some (cu_slash, if m then s else s @ [c])
      else Some (if c = c_dot then cu_dot else cu_usual, s @ [c]))"
| "cu_feed m cu_dot s c =
     (if c = c_slash then Some (cu_slash, butlast s)
      else Some (if c = c_dot then cu_dot_dot else cu_usual, s @ [c]))"
| "cu_feed m cu_dot_dot s c =
     (if c = c_slash then
        if length s < 5 then None else map_option (\<lambda>u. (cu_slash, take u s)) (cu_back s (length s - 5))
      else Some (cu_usual, s @ [c]))"

fun cu_feeds :: "bool \<Rightarrow> cu_pos \<Rightarrow> bytes \<Rightarrow> bytes \<Rightarrow> (cu_pos \<times> bytes) option" where
  "cu_feeds m q s [] = Some (q, s)"
| "cu_feeds m q s (c # t) = (case cu_feed m q s c of None \<Rightarrow> None | Some (q', s') \<Rightarrow> cu_feeds m q' s' t)"

definition cu_ready :: "memory \<Rightarrow> cu_vars \<Rightarrow> cu_pos \<Rightarrow> bytes \<Rightarrow> ptr \<Rightarrow> bool" where
  "cu_ready mem v q s i \<longleftrightarrow> cu_st v = cu_in q \<and> cu_out v = s \<and> cu_p v = Suc i \<and> cu_ch v = mem i"

definition cu_reached :: "memory \<Rightarrow> bool \<Rightarrow> ptr \<Rightarrow> cu_vars \<Rightarrow> (cu_pos \<times> bytes) option \<Rightarrow> ptr \<Rightarrow> bool" where
  "cu_reached mem m uend v res i =
     (case res of
        None \<Rightarrow> cu_loop mem m uend v = CU_return NGX_HTTP_PARSE_INVALID_REQUEST
      | Some (q, s) \<Rightarrow> \<exists>v'. cu_loop mem m uend v = cu_loop mem m uend v' \<and> cu_ready mem v' q s i)"

lemma cu_loop_next:
  "cu_p v \<le> uend \<Longrightarrow> cu_step mem m v = CU_next v' \<Longrightarrow> cu_loop mem m uend v = cu_loop mem m uend v'"
  by (simp add: cu_loop.simps [of mem m uend v])

lemma cu_reached_next:
  "cu_p v \<le> uend \<Longrightarrow> cu_step mem m v = CU_next v' \<Longrightarrow> cu_reached mem m uend v res i = cu_reached mem m uend v' res i"
  by (simp add: cu_reached_def cu_loop_next [of v] split: option.split)

lemma cu_feed_step:
  assumes "cu_st v = cu_in q" "cu_ch v \<notin> {c_percent, c_quest, c_hash}" "cu_p v \<le> uend"
  shows "cu_reached mem m uend v (cu_feed m q (cu_out v) (cu_ch v)) (cu_p v)"
proof -
  have "(cu_feed m q (cu_out v) (cu_ch v) = None \<and> cu_step mem m v = CU_return NGX_HTTP_PARSE_INVALID_REQUEST) \<or>
    (\<exists>q' s' v'. cu_feed m q (cu_out v) (cu_ch v) = Some (q', s') \<and> cu_step mem m v = CU_next v' \<and> cu_ready mem v' q' s' (cu_p v))"
    using assms(1,2)
    by (cases q; auto simp: cu_step_def cu_sw_defs cu_ops Let_def is_usual_iff cu_ready_def split: option.splits)
  then show ?thesis using assms(3)
    by (auto simp: cu_reached_def cu_loop_next cu_loop.simps [of mem m uend v])
qed

lemma letter_not_digit: "c_a \<le> h OR 0x20 \<Longrightarrow> \<not> h \<le> c_9"
proof -
  have "list_all (\<lambda>n. (word_of_nat n :: u_char) OR 0x20 < c_a) [0..<58]" by code_simp
  then have "h \<le> c_9 \<Longrightarrow> h OR 0x20 < c_a"
    using upt_allD [of "\<lambda>n. (word_of_nat n :: u_char) OR 0x20 < c_a" 0 58 "unat h"] by (simp add: word_le_nat_alt)
  then show "c_a \<le> h OR 0x20 \<Longrightarrow> \<not> h \<le> c_9" by fastforce
qed

lemma hex_digit_cases:
  assumes "is_hex h"
  shows "(c_0 \<le> h \<and> h \<le> c_9 \<and> h - c_0 = of_nat (hex_value h) \<and> hex_value h < 10) \<or>
    (\<not> h \<le> c_9 \<and> c_a \<le> h OR 0x20 \<and> h OR 0x20 \<le> c_f \<and> (h OR 0x20) - c_a + 10 = of_nat (hex_value h) \<and>
      10 \<le> hex_value h \<and> hex_value h < 16)"
proof (cases "is_digit h")
  case True
  then have "h - c_0 = of_nat (hex_value h)"
    by (simp add: hex_value_def unat_digit_minus [symmetric])
  then show ?thesis using True digit_value_less [of h] by (simp add: is_digit_def hex_value_def)
next
  case False
  then have h: "c_a \<le> h OR 0x20" "h OR 0x20 \<le> c_f" using assms by (auto simp: is_hex_def)
  then have "(h OR 0x20) - c_a + 10 = of_nat (hex_value h)"
    using False by (simp add: hex_value_def hex_letter_value [OF h, symmetric])
  moreover have "10 \<le> hex_value h" using h False by (simp add: hex_value_def word_le_nat_alt)
  ultimately show ?thesis using h letter_not_digit hex_value_less [OF assms] by blast
qed


lemma cu_percent_token:
  assumes "cu_ready mem v q s i" "mem i = c_percent" "mem (Suc i) = h" "mem (Suc (Suc i)) = l"
    and "is_hex h" "is_hex l" "0 < 16 * hex_value h + hex_value l" "i + 3 \<le> uend"
  shows "cu_reached mem m uend v (cu_feed m q s (of_nat (16 * hex_value h + hex_value l))) (i + 3)"
proof -
  let ?d = "of_nat (16 * hex_value h + hex_value l) :: u_char"
  have h: "hex_value h < 16" "hex_value l < 16" using hex_value_less assms(5,6) by auto
  then have d: "?d \<noteq> c_NUL" using assms(7) by (simp add: word_unat_eq_iff unat_of_nat del: of_nat_add of_nat_mult)
  have u: "?d = c_quest \<Longrightarrow> hex_value l = 15" "?d = c_percent \<Longrightarrow> hex_value l = 5" "?d = c_hash \<Longrightarrow> hex_value l = 3"
    using h by (simp_all add: word_unat_eq_iff unat_of_nat del: of_nat_add of_nat_mult, presburger+)
  obtain v1 where v1: "cu_step mem m v = CU_next v1" "cu_st v1 = cu_quoted" "cu_qst v1 = q" "cu_out v1 = s"
      "cu_p v1 = i + 2" "cu_ch v1 = h"
    using assms(1-3) by (cases q) (auto simp: cu_step_def cu_sw_defs cu_ops is_usual_iff cu_ready_def)
  obtain v2 where v2: "cu_step mem m v1 = CU_next v2" "cu_st v2 = cu_quoted_second" "cu_qst v2 = q" "cu_out v2 = s"
      "cu_p v2 = i + 3" "cu_ch v2 = l" "cu_decoded v2 = of_nat (hex_value h)"
    using v1(2-6) assms(4) hex_digit_cases [OF assms(5)]
    by (auto simp: cu_step_def cu_sw_quoted_def cu_ops Let_def numeral_eq_Suc)
  have p: "cu_p v \<le> uend" "cu_p v1 \<le> uend" "cu_p v2 \<le> uend"
    using assms(1,8) v1(5) v2(5) by (auto simp: cu_ready_def)
  have d1: "push_bit 4 (of_nat (hex_value h)) + l - c_0 = ?d" if "l - c_0 = of_nat (hex_value l)"
  proof -
    have "push_bit 4 (of_nat (hex_value h)) + l - c_0 = push_bit 4 (of_nat (hex_value h)) + (l - c_0)" by simp
    then show ?thesis unfolding that by (simp add: push_bit_eq_mult mult.commute)
  qed
  have d2: "push_bit 4 (of_nat (hex_value h)) + (l OR 0x20) - c_a + 10 = ?d" if "(l OR 0x20) - c_a + 10 = of_nat (hex_value l)"
  proof -
    have "push_bit 4 (of_nat (hex_value h)) + (l OR 0x20) - c_a + 10 = push_bit 4 (of_nat (hex_value h)) + ((l OR 0x20) - c_a + 10)"
      by simp
    then show ?thesis unfolding that by (simp add: push_bit_eq_mult mult.commute)
  qed
  have "(?d \<in> {c_percent, c_hash, c_quest} \<and> (\<exists>v3. cu_step mem m v2 = CU_next v3 \<and> cu_ready mem v3 cu_usual (s @ [?d]) (i + 3))) \<or>
    (?d \<notin> {c_percent, c_hash, c_quest} \<and>
     (\<exists>v3. cu_step mem m v2 = CU_next v3 \<and> cu_st v3 = cu_in q \<and> cu_out v3 = s \<and> cu_p v3 = i + 3 \<and> cu_ch v3 = ?d))"
    using hex_digit_cases [OF assms(6)]
  proof (elim disjE conjE)
    assume l: "c_0 \<le> l" "l \<le> c_9" "l - c_0 = of_nat (hex_value l)" "hex_value l < 10"
    have "?d \<noteq> c_quest" using u l(4) by auto
    then show ?thesis using v2(2-7) l(1,2) d d1 [OF l(3)]
      by (auto simp: cu_step_def cu_sw_quoted_second_def cu_ops Let_def cu_ready_def)
  next
    assume l: "\<not> l \<le> c_9" "c_a \<le> l OR 0x20" "l OR 0x20 \<le> c_f" "(l OR 0x20) - c_a + 10 = of_nat (hex_value l)"
        "10 \<le> hex_value l"
    have "?d \<noteq> c_percent" "?d \<noteq> c_hash" using u l(5) by auto
    then show ?thesis using v2(2-7) l(1-3) d d2 [OF l(4)]
      by (auto simp: cu_step_def cu_sw_quoted_second_def cu_ops Let_def cu_ready_def)
  qed
  then show ?thesis
  proof (elim disjE conjE exE)
    fix v3 assume e: "?d \<in> {c_percent, c_hash, c_quest}" "cu_step mem m v2 = CU_next v3" "cu_ready mem v3 cu_usual (s @ [?d]) (i + 3)"
    have "cu_feed m q s ?d = Some (cu_usual, s @ [?d])" using e(1) by (cases q) auto
    then have "cu_reached mem m uend v3 (cu_feed m q s ?d) (i + 3)" using e(3) by (auto simp: cu_reached_def)
    then show ?thesis
      by (simp only: cu_reached_next [OF p(1) v1(1)] cu_reached_next [OF p(2) v2(1)] cu_reached_next [OF p(3) e(2)])
  next
    fix v3 assume e: "?d \<notin> {c_percent, c_hash, c_quest}" "cu_step mem m v2 = CU_next v3" "cu_st v3 = cu_in q"
        "cu_out v3 = s" "cu_p v3 = i + 3" "cu_ch v3 = ?d"
    have "cu_reached mem m uend v3 (cu_feed m q s ?d) (i + 3)"
      using cu_feed_step [OF e(3), of uend mem m] e assms(8) by auto
    then show ?thesis
      by (simp only: cu_reached_next [OF p(1) v1(1)] cu_reached_next [OF p(2) v2(1)] cu_reached_next [OF p(3) e(2)])
  qed
qed

lemma cu_loop_decode:
  assumes "percent_decode xs = Some t" "holds mem i xs" "i + length xs \<le> uend" "cu_ready mem v q s i"
  shows "cu_reached mem m uend v (cu_feeds m q s t) (i + length xs)"
  using assms
proof (induction xs arbitrary: t i v q s rule: percent_decode.induct)
  case 1
  then show ?case by (auto simp: cu_reached_def)
next
  case (2 c xs)
  have chain: "cu_reached mem m uend v (cu_feeds m q s (d # t')) j"
    if f: "cu_reached mem m uend v (cu_feed m q s d) k"
      and r: "\<And>v' q' s'. cu_ready mem v' q' s' k \<Longrightarrow> cu_reached mem m uend v' (cu_feeds m q' s' t') j" for d t' k j
  proof (cases "cu_feed m q s d")
    case None
    then show ?thesis using f by (simp add: cu_reached_def)
  next
    case (Some z)
    then obtain q' s' where z: "cu_feed m q s d = Some (q', s')" by (cases z) auto
    then obtain v' where v': "cu_loop mem m uend v = cu_loop mem m uend v'" "cu_ready mem v' q' s' k"
      using f by (auto simp: cu_reached_def)
    have "cu_reached mem m uend v' (cu_feeds m q' s' t') j" by (rule r) (fact v'(2))
    then show ?thesis using z v'(1) by (auto simp add: cu_reached_def split: option.splits)
  qed
  show ?case
  proof (cases "c = c_percent")
    case True
    then obtain h l ys t' where x: "xs = h # l # ys" "is_hex h" "is_hex l" "0 < 16 * hex_value h + hex_value l"
        "percent_decode ys = Some t'" "t = of_nat (16 * hex_value h + hex_value l) # t'"
      using 2(3) by (auto split: list.splits if_splits)
    have m: "mem i = c_percent" "mem (Suc i) = h" "mem (Suc (Suc i)) = l" "holds mem (i + 3) ys"
      using 2(4) True x(1) by (auto simp: numeral_eq_Suc)
    have "cu_reached mem m uend v (cu_feed m q s (of_nat (16 * hex_value h + hex_value l))) (i + 3)"
      by (rule cu_percent_token [OF 2(6) m(1-3) x(2-4)]) (use 2(5) x(1) in simp)
    then show ?thesis unfolding x(6)
    proof (rule chain)
      show "cu_reached mem m uend v' (cu_feeds m q' s' t') (i + length (c # xs))"
        if "cu_ready mem v' q' s' (i + 3)" for v' q' s'
      proof -
        have "cu_reached mem m uend v' (cu_feeds m q' s' t') (i + 3 + length ys)"
          by (rule 2(1) [OF True x(1) refl _ x(5) m(4) _ that]) (use x(2-4) 2(5) x(1) in auto)
        then show ?thesis using x(1) by (simp add: numeral_eq_Suc)
      qed
    qed
  next
    case False
    then obtain t' where x: "c \<notin> {c_percent, c_quest, c_hash}" "percent_decode xs = Some t'" "t = c # t'"
      using 2(3) by (auto split: if_splits)
    have "cu_reached mem m uend v (cu_feed m q s c) (Suc i)"
      using cu_feed_step [of v q uend mem m] x(1) 2(4-6) by (auto simp: cu_ready_def)
    then show ?thesis unfolding x(3)
    proof (rule chain)
      show "cu_reached mem m uend v' (cu_feeds m q' s' t') (i + length (c # xs))"
        if "cu_ready mem v' q' s' (Suc i)" for v' q' s'
        using 2(2) [OF False _ x(2) _ _ that] x(1) 2(4,5) by simp
    qed
  qed
qed

subsection \<open>The segments of a path\<close>

text \<open>
  The specification: the path behind the first slash is split at the slashes; an empty segment and
  \<open>.\<close> are dropped, \<open>..\<close> drops the segment before it and fails at the root; the last segment stays.
\<close>

fun segments :: "bytes \<Rightarrow> bytes list" where
  "segments [] = [[]]"
| "segments (c # s) = (if c = c_slash then [] # segments s else (c # hd (segments s)) # tl (segments s))"

fun resolve :: "bytes list \<Rightarrow> bytes list \<Rightarrow> bytes list option" where
  "resolve stack [] = Some (rev stack)"
| "resolve stack [seg] = Some (rev (seg # stack))"
| "resolve stack (seg # segs) =
     (if seg = [] \<or> seg = bs ''.'' then resolve stack segs
      else if seg = bs ''..'' then (case stack of [] \<Rightarrow> None | _ # rest \<Rightarrow> resolve rest segs)
      else resolve (seg # stack) segs)"

definition join :: "bytes list \<Rightarrow> bytes" where
  "join segs = concat (map ((#) c_slash) segs)"

definition remove_dots :: "bytes \<Rightarrow> bytes option" where
  "remove_dots path = map_option join (resolve [] (segments path))"

definition cu_pos_of :: "bytes \<Rightarrow> cu_pos" where
  "cu_pos_of seg = (if seg = [] then cu_slash else if seg = [c_dot] then cu_dot
     else if seg = [c_dot, c_dot] then cu_dot_dot else cu_usual)"

lemma segments_nonempty [simp]: "segments s \<noteq> []"
  by (induction s) auto

lemma resolve_more:
  "segs \<noteq> [] \<Longrightarrow> resolve stack (seg # segs) =
     (if seg = [] \<or> seg = [c_dot] then resolve stack segs
      else if seg = [c_dot, c_dot] then (case stack of [] \<Rightarrow> None | _ # rest \<Rightarrow> resolve rest segs)
      else resolve (seg # stack) segs)"
  by (cases segs) auto

lemma join_snoc: "join (segs @ [g]) = join segs @ c_slash # g"
  by (simp add: join_def)

lemma cu_back_segment:
  assumes "c_slash \<notin> set g" "length a \<le> n" "n \<le> length a + length g"
  shows "cu_back (a @ c_slash # g @ b) n = Some (Suc (length a))"
  using assms(2,3)
proof (induction n)
  case 0
  then show ?case by simp
next
  case (Suc n)
  show ?case
  proof (cases "Suc n = length a")
    case False
    then have n: "length a \<le> n" "n - length a < length g" using Suc.prems by auto
    have "(a @ c_slash # g @ b) ! Suc n = g ! (n - length a)"
      using n by (simp add: nth_append Suc_diff_le)
    then have "(a @ c_slash # g @ b) ! Suc n \<noteq> c_slash" using assms(1) n(2) by (metis nth_mem)
    then show ?thesis using Suc.IH n(1) Suc.prems by simp
  next
    case True
    then have "(a @ c_slash # g @ b) ! Suc n = c_slash" by (simp add: nth_append)
    then have "cu_back (a @ c_slash # g @ b) (Suc n) = Some (Suc (Suc n))" by simp
    then show ?thesis using True by metis
  qed
qed

lemma cu_feed_dot_dot:
  assumes "g \<noteq> []" "c_slash \<notin> set g"
  shows "cu_feed m cu_dot_dot (a @ c_slash # g @ [c_slash, c_dot, c_dot]) c_slash = Some (cu_slash, a @ [c_slash])"
proof -
  obtain n where n: "length g = Suc n" using assms(1) by (cases g) auto
  have "cu_back (a @ c_slash # g @ [c_slash, c_dot, c_dot]) (length a + n) = Some (Suc (length a))"
    by (rule cu_back_segment) (use assms(2) n in auto)
  then show ?thesis using n by simp
qed

lemma cu_feeds_segments:
  assumes "c_slash \<notin> set cur" "\<forall>g\<in>set stack. g \<noteq> [] \<and> c_slash \<notin> set g"
  shows "map_option snd (cu_feeds True (cu_pos_of cur) (join (rev stack) @ c_slash # cur) t) =
    map_option join (resolve stack ((cur @ hd (segments t)) # tl (segments t)))"
  using assms
proof (induction t arbitrary: cur stack)
  case Nil
  then show ?case by (simp add: join_def)
next
  case (Cons c t)
  have s: "hd (segments t) # tl (segments t) = segments t" by (simp add: list.collapse)
  show ?case
  proof (cases "c = c_slash")
    case False
    have "cu_feed True (cu_pos_of cur) (join (rev stack) @ c_slash # cur) c =
        Some (cu_pos_of (cur @ [c]), join (rev stack) @ c_slash # cur @ [c])"
      using False by (auto simp: cu_pos_of_def append_eq_Cons_conv)
    then show ?thesis using Cons.IH [of "cur @ [c]" stack] Cons.prems False by simp
  next
    case True
    have IH: "map_option snd (cu_feeds True cu_slash (join (rev st) @ [c_slash]) t) = map_option join (resolve st (segments t))"
      if "\<forall>g\<in>set st. g \<noteq> [] \<and> c_slash \<notin> set g" for st
      using Cons.IH [of "[]" st] that s by (simp add: cu_pos_of_def)
    consider (e) "cur = []" | (d) "cur = [c_dot]" | (dd) "cur = [c_dot, c_dot]" | (u) "cu_pos_of cur = cu_usual"
      by (metis cu_pos_of_def)
    then show ?thesis
    proof cases
      case e
      then show ?thesis using True IH Cons.prems by (simp add: cu_pos_of_def resolve_more)
    next
      case d
      then show ?thesis using True IH Cons.prems by (simp add: cu_pos_of_def resolve_more butlast_append)
    next
      case dd
      show ?thesis
      proof (cases stack)
        case Nil
        then show ?thesis using True dd by (simp add: cu_pos_of_def resolve_more join_def)
      next
        case (Cons g st)
        have "join (rev stack) @ c_slash # cur = join (rev st) @ c_slash # g @ [c_slash, c_dot, c_dot]"
          using Cons dd by (simp add: join_def)
        then have "cu_feed True (cu_pos_of cur) (join (rev stack) @ c_slash # cur) c = Some (cu_slash, join (rev st) @ [c_slash])"
          using True dd Cons.prems Cons cu_feed_dot_dot [of g True "join (rev st)"]
          by (simp add: cu_pos_of_def del: cu_feed.simps)
        then show ?thesis using True dd IH [of st] Cons.prems Cons
          by (simp add: resolve_more del: cu_feed.simps)
      qed
    next
      case u
      then have "cur \<noteq> []" "cur \<noteq> [c_dot]" "cur \<noteq> [c_dot, c_dot]" by (auto simp: cu_pos_of_def)
      then show ?thesis using True u IH [of "cur # stack"] Cons.prems
        by (simp add: resolve_more join_snoc)
    qed
  qed
qed

lemma cu_feeds_remove_dots:
  "map_option snd (cu_feeds True cu_slash [c_slash] path) = remove_dots path"
  using cu_feeds_segments [of "[]" "[]" path]
  by (simp add: cu_pos_of_def join_def remove_dots_def list.collapse)

text \<open>The query behind the path: \<open>r->args\<close> and \<open>r->args_start\<close>.\<close>

definition query_of :: "ptr \<Rightarrow> bytes \<Rightarrow> (ptr \<times> nat) option \<times> ptr" where
  "query_of a rest =
     (if rest = [] \<or> hd rest = c_hash then (None, NULL)
      else if c_hash \<in> set (tl rest) then (Some (Suc a, length (takeWhile (\<lambda>c. c \<noteq> c_hash) (tl rest))), NULL)
      else (None, Suc a))"

lemma cu_fragment_index:
  "holds mem p s \<Longrightarrow> cu_fragment mem p (p + length s) =
    (if c_hash \<in> set s then Some (p + length (takeWhile (\<lambda>c. c \<noteq> c_hash) s) + 1) else None)"
proof (induction s arbitrary: p)
  case Nil
  then show ?case by (simp add: cu_fragment.simps)
next
  case (Cons c s)
  then show ?case using Cons.IH [of "Suc p"] by (simp add: cu_fragment.simps [of mem p])
qed

lemma cu_step_args: "cu_step mem m v = CU_next v' \<Longrightarrow> cu_args v' = cu_args v"
  by (auto simp: cu_step_def cu_sw_defs cu_ops Let_def split: cu_state.splits cu_pos.splits if_splits option.splits)

lemma cu_loop_args:
  "cu_args v = NULL \<Longrightarrow> cu_p v \<le> Suc uend \<Longrightarrow> cu_loop mem m uend v = CU_done w \<Longrightarrow> cu_args w = NULL"
  using cu_loop_cases [of "\<lambda>v. cu_args v = NULL" v mem m uend] cu_step_args by fastforce

lemma cu_loop_end:
  assumes "cu_ready mem v q s i" "i + length rest = uend" "holds mem i rest" "rest = [] \<or> hd rest \<in> {c_quest, c_hash}"
  shows "cu_loop mem m uend v =
    (if rest = [] \<or> hd rest = c_hash then CU_done v else CU_args (v\<lparr>cu_args := Suc i\<rparr>))"
proof (cases rest)
  case Nil
  then show ?thesis using assms(1,2) by (simp add: cu_loop.simps [of mem m uend v] cu_ready_def)
next
  case (Cons c t)
  then have c: "c = c_quest \<or> c = c_hash" "cu_p v \<le> uend" "cu_ch v = c" using assms by (auto simp: cu_ready_def)
  have "cu_step mem m v = (if c = c_hash then CU_done v else CU_args (v\<lparr>cu_args := Suc i\<rparr>))"
    using c(1,3) assms(1) by (cases q) (auto simp: cu_step_def cu_sw_defs is_usual_iff cu_ready_def)
  then show ?thesis using Cons c(2) by (simp add: cu_loop.simps [of mem m uend v])
qed

text \<open>The result on a path, its query and its fragment, in terms of the decoded characters.\<close>

lemma complex_uri_feeds:
  assumes "holds mem (uri_start r) (xs @ rest)" "uri_end r = uri_start r + length (xs @ rest)"
    and "percent_decode xs = Some path" "rest = [] \<or> hd rest \<in> {c_quest, c_hash}"
  shows "case cu_feeds m cu_usual [] path of
      None \<Rightarrow> ngx_http_parse_complex_uri mem r m = (NGX_HTTP_PARSE_INVALID_REQUEST, None)
    | Some (q, s) \<Rightarrow> \<exists>res. ngx_http_parse_complex_uri mem r m = (NGX_OK, Some res) \<and> cu_uri res = s \<and>
        (cu_args_str res, cu_args_start res) = query_of (uri_start r + length xs) rest"
proof -
  let ?v = "cu_init mem r" and ?u = "uri_end r" and ?i = "uri_start r + length xs"
  have h: "holds mem (uri_start r) xs" "holds mem ?i rest" using assms(1) by (simp_all add: holds_append)
  have "cu_ready mem ?v cu_usual [] (uri_start r)" by (simp add: cu_ready_def cu_init_def)
  then have r: "cu_reached mem m ?u ?v (cu_feeds m cu_usual [] path) ?i"
    using cu_loop_decode [OF assms(3) h(1)] assms(2) by simp
  show ?thesis
  proof (cases "cu_feeds m cu_usual [] path")
    case None
    then show ?thesis using r by (simp add: cu_reached_def ngx_http_parse_complex_uri_def)
  next
    case (Some z)
    obtain q s where z: "z = (q, s)" by (cases z)
    obtain v' where v': "cu_loop mem m ?u ?v = cu_loop mem m ?u v'" "cu_ready mem v' q s ?i"
      using r Some z by (auto simp: cu_reached_def)
    have e: "cu_loop mem m ?u ?v = (if rest = [] \<or> hd rest = c_hash then CU_done v' else CU_args (v'\<lparr>cu_args := Suc ?i\<rparr>))"
      unfolding v'(1) by (rule cu_loop_end [OF v'(2) _ h(2) assms(4)]) (use assms(2) in simp)
    have out: "cu_out v' = s" "cu_p v' = Suc ?i" using v'(2) by (simp_all add: cu_ready_def)
    show ?thesis
    proof (cases "rest = [] \<or> hd rest = c_hash")
      case True
      then have d: "cu_loop mem m ?u ?v = CU_done v'" using e by simp
      have "cu_args v' = NULL" 
        by (rule cu_loop_args [OF _ _ d]) (auto simp: cu_init_def assms(2))
      then show ?thesis using True d out Some z
        by (auto simp: ngx_http_parse_complex_uri_def cu_finish_def query_of_def)
    next
      case False
      then obtain t where t: "rest = c_quest # t" using assms(4) by (cases rest) auto
      have "cu_fragment mem (Suc ?i) ?u =
          (if c_hash \<in> set t then Some (Suc ?i + length (takeWhile (\<lambda>c. c \<noteq> c_hash) t) + 1) else None)"
        using cu_fragment_index [of mem "Suc ?i" t] h(2) assms(2) t by (simp add: add.assoc)
      then show ?thesis using False e out Some z t
        by (auto simp: ngx_http_parse_complex_uri_def cu_finish_def query_of_def)
    qed
  qed
qed

text \<open>A path without dot segments goes through unchanged.\<close>

lemma dots_removed_append: "dots_removed m (s @ t) \<Longrightarrow> dots_removed m s"
  using dots_removed_take [of m "s @ t" "length s"] by simp

lemma cu_feed_canonical:
  assumes "cu_at q s" "dots_removed m (s @ [c])"
  shows "\<exists>q'. cu_feed m q s c = Some (q', s @ [c]) \<and> cu_at q' (s @ [c])"
proof (cases "c = c_slash")
  case True
  have a: "cu_at cu_slash (s @ [c])" using cu_at_snoc(1) True by simp
  show ?thesis
  proof (cases q)
    case cu_slash
    then show ?thesis using assms True a by (auto simp: dots_removed_def suffix_def)
  qed (use assms True a in \<open>auto simp: dots_removed_def suffix_def\<close>)
next
  case False
  show ?thesis
  proof (cases "c = c_dot")
    case True
    then show ?thesis using False assms(1) cu_at_snoc(2,3) [of s] cu_at_usual_snoc(2) [of c s]
      by (cases q) (auto simp del: cu_at.simps)
  next
    case F: False
    then show ?thesis using False cu_at_usual_snoc(1) [of c s]
      by (cases q) (auto simp del: cu_at.simps)
  qed
qed

lemma cu_feeds_canonical:
  "cu_at q s \<Longrightarrow> dots_removed m (s @ t) \<Longrightarrow> \<exists>q'. cu_feeds m q s t = Some (q', s @ t)"
proof (induction t arbitrary: q s)
  case (Cons c t)
  have "dots_removed m (s @ [c])" using dots_removed_append [of m "s @ [c]" t] Cons.prems(2) by simp
  then obtain q' where q: "cu_feed m q s c = Some (q', s @ [c])" "cu_at q' (s @ [c])"
    using cu_feed_canonical Cons.prems(1) by blast
  then show ?case using Cons.IH [OF q(2)] Cons.prems(2) by simp
qed simp

lemma hex_digit_of:
  assumes "d < 16"
  shows "is_hex (hex ! d)" "hex_value (hex ! d) = d"
proof -
  have *: "list_all (\<lambda>d. is_hex (hex ! d) \<and> hex_value (hex ! d) = d) [0..<16]" by code_simp
  show "is_hex (hex ! d)" "hex_value (hex ! d) = d" using upt_allD [OF * _ assms] by simp_all
qed

lemma percent_decode_escape:
  assumes "c_NUL \<notin> set s"
  shows "percent_decode (ngx_escape_uri s NGX_ESCAPE_URI) = Some s"
  unfolding ngx_escape_uri_def using assms
proof (induction s)
  case (Cons c s)
  have IH: "percent_decode (escape_uri_loop (escape_map ! NGX_ESCAPE_URI) s) = Some s" using Cons by simp
  have n: "16 * (unat c div 16) + unat c mod 16 = unat c" by simp
  have "0 < unat c" using Cons.prems by (auto simp: word_unat_eq_iff)
  then have z: "0 < unat c div 16 \<or> 0 < unat c mod 16" by presburger
  show ?case
  proof (cases "bitmap_test (escape_map ! NGX_ESCAPE_URI) c")
    case True
    then show ?thesis using IH nibbles_less [of c] z
      by (simp add: unat_drop_4 unat_and_15 hex_digit_of n del: of_nat_add of_nat_mult)
  next
    case False
    have "c \<notin> {c_percent, c_quest, c_hash}" using False by (auto simp: bitmap_iff documented_def undocumented_def)
    then show ?thesis using False IH by simp
  qed
qed simp

lemma percent_decode_plain:
  "c_percent \<notin> set s \<Longrightarrow> c_quest \<notin> set s \<Longrightarrow> c_hash \<notin> set s \<Longrightarrow> percent_decode s = Some s"
  by (induction s) auto

lemma percent_decode_slash: "percent_decode (c_slash # s) = map_option ((#) c_slash) (percent_decode s)"
  by simp

lemma complex_uri_canonical:
  assumes "holds mem (uri_start r) (xs @ rest)" "uri_end r = uri_start r + length (xs @ rest)"
    and "percent_decode xs = Some path" "rest = [] \<or> hd rest \<in> {c_quest, c_hash}" "dots_removed m path"
  shows "\<exists>res. ngx_http_parse_complex_uri mem r m = (NGX_OK, Some res) \<and> cu_uri res = path \<and>
        (cu_args_str res, cu_args_start res) = query_of (uri_start r + length xs) rest"
  using complex_uri_feeds [OF assms(1-4), of m] cu_feeds_canonical [of cu_usual "[]" m path] assms(5) by auto

text \<open>
  C1: percent decoding and dot removal are those of the specification.  For a path that begins
  with a slash, percent-encoded in any way, followed by a query or a fragment or nothing, and
  with \<open>merge_slashes\<close> on: \<open>r->uri\<close> is the decoded path resolved segment by segment, a \<open>..\<close> above
  the root is refused, and \<open>r->args\<close> and \<open>r->args_start\<close> delimit the query.  The last segment is
  left as it is, also when it is \<open>..\<close>.
\<close>

theorem complex_uri_refines:
  assumes "holds mem (uri_start r) (xs @ rest)" "uri_end r = uri_start r + length (xs @ rest)"
    and "percent_decode xs = Some (c_slash # path)" "rest = [] \<or> hd rest \<in> {c_quest, c_hash}"
  shows "case remove_dots path of
      None \<Rightarrow> ngx_http_parse_complex_uri mem r True = (NGX_HTTP_PARSE_INVALID_REQUEST, None)
    | Some s \<Rightarrow> \<exists>res. ngx_http_parse_complex_uri mem r True = (NGX_OK, Some res) \<and> cu_uri res = s \<and>
        (cu_args_str res, cu_args_start res) = query_of (uri_start r + length xs) rest"
proof -
  have "cu_feeds True cu_usual [] (c_slash # path) = cu_feeds True cu_slash [c_slash] path" by simp
  then show ?thesis
    using complex_uri_feeds [OF assms, of True] cu_feeds_remove_dots [of path]
    by (cases "cu_feeds True cu_slash [c_slash] path"; cases "remove_dots path") auto
qed

text \<open>
  C21: whatever follows the slash that a raw URI begins with, the path that the parser returns begins with a slash too and
  holds no \<open>/./\<close>, no \<open>/../\<close> and, with \<open>merge_slashes\<close>, no \<open>//\<close>; a \<open>.\<close> or \<open>..\<close> that nothing follows
  is kept as the last segment.  The path is no longer than the raw URI, so it fits the buffer of the caller, and the
  extension, when there is one, is what follows the last dot of the last segment.
\<close>

theorem complex_uri_output:
  assumes "mem (uri_start r) = c_slash" "uri_start r < uri_end r"
    and "ngx_http_parse_complex_uri mem r merge_slashes = (c, Some res)"
  shows "c = NGX_OK \<and> (\<exists>s. cu_uri res = c_slash # s) \<and> dots_removed merge_slashes (cu_uri res) \<and>
    length (cu_uri res) \<le> uri_end r - uri_start r \<and>
    (\<forall>e. cu_exten res = Some e \<longrightarrow>
      c_dot \<notin> set e \<and> c_slash \<notin> set e \<and> (\<exists>stem. cu_uri res = stem @ [c_dot] @ e))"
  using complex_uri_cases [of mem r merge_slashes, OF assms(1,2)] assms(3) by (auto simp: cu_result_ok_def)

text \<open>
  C25: normalisation is stable under escaping.  When the path that one request produced is escaped
  by \<open>ngx_escape_uri\<close> and parsed as another request, as when it is sent in a redirect or to an
  upstream nginx, the second parser returns the same path.
\<close>

theorem complex_uri_stable:
  assumes "mem (uri_start r) = c_slash" "uri_start r < uri_end r"
    and "ngx_http_parse_complex_uri mem r merge_slashes = (NGX_OK, Some res)" "c_NUL \<notin> set (cu_uri res)"
    and "holds mem' (uri_start r') (ngx_escape_uri (cu_uri res) NGX_ESCAPE_URI)"
    and "uri_end r' = uri_start r' + length (ngx_escape_uri (cu_uri res) NGX_ESCAPE_URI)"
  shows "\<exists>res'. ngx_http_parse_complex_uri mem' r' merge_slashes = (NGX_OK, Some res') \<and> cu_uri res' = cu_uri res"
proof -
  have "dots_removed merge_slashes (cu_uri res)"
    using complex_uri_cases [of mem r merge_slashes, OF assms(1,2)] assms(3) by (auto simp: cu_result_ok_def)
  then show ?thesis
    using complex_uri_canonical [of mem' r' "ngx_escape_uri (cu_uri res) NGX_ESCAPE_URI" "[]" "cu_uri res" merge_slashes]
      assms(5,6) percent_decode_escape [OF assms(4)] by auto
qed

lemma holds_map: "holds mem a (map mem [a..<b])"
  by (auto simp: holds_nth)

lemma clean_canonical:
  assumes "clean mem a b"
  shows "dots_removed m (map mem [a..<b])" "percent_decode (map mem [a..<b]) = Some (map mem [a..<b])"
proof -
  have d: "False" if sub: "sublist (c_slash # d # t) (map mem [a..<b])" and dd: "d \<in> {c_slash, c_dot}" for d t
  proof -
    obtain p s where e: "map mem [a..<b] = p @ c_slash # d # t @ s" using sub unfolding sublist_def by fastforce
    let ?i = "length p"
    have l: "Suc ?i < b - a" using arg_cong [OF e, of length] by simp
    have "mem (a + ?i) = c_slash" "mem (Suc (a + ?i)) = d"
      using arg_cong [OF e, of "\<lambda>s. s ! ?i"] arg_cong [OF e, of "\<lambda>s. s ! Suc ?i"] l
      by (simp_all add: nth_append)
    then show False using assms l dd unfolding clean_def by (auto dest: spec [of _ "a + ?i"])
  qed
  show "dots_removed m (map mem [a..<b])" using d unfolding dots_removed_def by (auto simp del: sublist_code)
  show "percent_decode (map mem [a..<b]) = Some (map mem [a..<b])"
    by (rule percent_decode_plain) (use assms in \<open>auto simp: clean_def\<close>)
qed

text \<open>
  C2: the caller's short cut is right.  The caller runs \<open>ngx_http_parse_complex_uri\<close> only when the
  request line parser has set \<open>complex_uri\<close> or \<open>quoted_uri\<close>, and takes the raw bytes up to the
  question mark otherwise.  For every request line accepted with neither flag and without a space in the
  URI (\<open>space_in_uri\<close> is not set either) the full parser returns those same bytes.  With a space it need not: the
  character behind the space is not looked at, and in \<open>/a /../b\<close> neither flag is set.
\<close>

theorem complex_uri_short_cut:
  assumes "fresh_request r" and "0 < buf_pos b"
    and "ngx_http_parse_request_line mem r b = (NGX_OK, r', b')"
    and "\<not> complex_uri r'" "\<not> quoted_uri r'" "\<not> space_in_uri r'"
  shows "\<exists>res. ngx_http_parse_complex_uri mem r' merge_slashes = (NGX_OK, Some res) \<and>
    cu_uri res = map mem [uri_start r'..<(if args_start r' = NULL then uri_end r' else args_start r' - 1)]"
proof -
  let ?e = "if args_start r' = NULL then uri_end r' else args_start r' - 1"
  let ?xs = "map mem [uri_start r'..<?e]" and ?rest = "map mem [?e..<uri_end r']"
  have c: "clean mem (uri_start r') ?e" "uri_start r' < ?e" "?e \<le> uri_end r'"
      "args_start r' \<noteq> NULL \<longrightarrow> ?e < uri_end r' \<and> mem ?e = c_quest"
    using accepted_plain_uri [OF assms(1-3)] assms(4-6)
    by (auto simp: plain_uri_def no_args_clean_def args_clean_def)
  have xs: "?xs @ ?rest = map mem [uri_start r'..<uri_end r']"
    using c(2,3) using upt_add_eq_append [of "uri_start r'" ?e "uri_end r' - ?e"] by (simp flip: map_append)
  have "?rest = [] \<or> hd ?rest \<in> {c_quest, c_hash}" using c(4) by (auto simp: hd_map)
  then show ?thesis
    using complex_uri_canonical [of mem r' ?xs ?rest ?xs merge_slashes] clean_canonical [OF c(1)] c(2,3)
    unfolding xs by (auto simp: holds_map)
qed

subsection \<open>Witnesses\<close>

abbreviation uri_at :: "ptr \<Rightarrow> nat \<Rightarrow> ngx_http_request_t" where
  "uri_at a n \<equiv> init_request\<lparr>uri_start := a, uri_end := a + n\<rparr>"

theorem complex_uri_refines_witness:
  "\<exists>res. ngx_http_parse_complex_uri (mem_at 1 (bs ''/a/%2e./b/..'' @ bs ''?q'')) (uri_at 1 14) True = (NGX_OK, Some res) \<and>
    cu_uri res = bs ''/b/..'' \<and> cu_args_start res = 14"
proof -
  have d: "percent_decode (bs ''/a/%2e./b/..'') = Some (c_slash # bs ''a/../b/..'')"
    by (simp add: is_hex_def hex_value_def is_digit_def digit_value_def)
  have r: "remove_dots (bs ''a/../b/..'') = Some (bs ''/b/..'')" by (simp add: remove_dots_def join_def)
  have q: "query_of (1 + length (bs ''/a/%2e./b/..'')) (bs ''?q'') = (None, 14)" "hd (bs ''?q'') = c_quest"
    by (simp_all add: query_of_def)
  show ?thesis
    using complex_uri_refines [OF _ _ d, of "mem_at 1 (bs ''/a/%2e./b/..'' @ bs ''?q'')" "uri_at 1 14" "bs ''?q''"] r q
    by (auto simp: holds_mem_at simp del: bs_simps)
qed

theorem complex_uri_output_witness:
  "\<exists>res. ngx_http_parse_complex_uri (mem_at 1 (bs ''/a.b'')) (uri_at 1 4) True = (NGX_OK, Some res) \<and>
    dots_removed True (cu_uri res) \<and> length (cu_uri res) \<le> 4"
proof -
  have d: "percent_decode (bs ''/a.b'') = Some (bs ''/a.b'')" "dots_removed True (bs ''/a.b'')"
    by (simp_all add: dots_removed_def sublist_code)
  obtain res where run: "ngx_http_parse_complex_uri (mem_at 1 (bs ''/a.b'')) (uri_at 1 4) True = (NGX_OK, Some res)"
    using complex_uri_canonical [of "mem_at 1 (bs ''/a.b'')" "uri_at 1 4" "bs ''/a.b''" "[]", OF _ _ d(1) _ d(2)]
    by (auto simp: holds_mem_at simp del: bs_simps)
  have m: "mem_at 1 (bs ''/a.b'') 1 = c_slash" by (simp add: mem_at_def)
  show ?thesis
    using complex_uri_output [OF _ _ run] run m by (simp del: bs_simps)
qed

theorem complex_uri_stable_witness:
  "\<exists>res res'. ngx_http_parse_complex_uri (mem_at 1 (bs ''/a%20b'')) (uri_at 1 6) False = (NGX_OK, Some res) \<and>
    cu_uri res = bs ''/a b'' \<and>
    ngx_http_parse_complex_uri (mem_at 9 (ngx_escape_uri (bs ''/a b'') NGX_ESCAPE_URI))
      (uri_at 9 (length (ngx_escape_uri (bs ''/a b'') NGX_ESCAPE_URI))) False = (NGX_OK, Some res') \<and>
    cu_uri res' = bs ''/a b''"
proof -
  have d: "percent_decode (bs ''/a%20b'') = Some (bs ''/a b'')" "dots_removed False (bs ''/a b'')"
    by (simp_all add: dots_removed_def sublist_code is_hex_def hex_value_def is_digit_def digit_value_def)
  obtain res where run: "ngx_http_parse_complex_uri (mem_at 1 (bs ''/a%20b'')) (uri_at 1 6) False = (NGX_OK, Some res)"
      "cu_uri res = bs ''/a b''"
    using complex_uri_canonical [of "mem_at 1 (bs ''/a%20b'')" "uri_at 1 6" "bs ''/a%20b''" "[]", OF _ _ d(1) _ d(2)]
    by (auto simp: holds_mem_at simp del: bs_simps)
  have m: "mem_at 1 (bs ''/a%20b'') (uri_start (uri_at 1 6)) = c_slash" by (simp add: mem_at_def)
  have z: "c_NUL \<notin> set (cu_uri res)" by (simp add: run(2))
  show ?thesis
    using complex_uri_stable [OF m _ run(1) z, of "mem_at 9 (ngx_escape_uri (cu_uri res) NGX_ESCAPE_URI)"
        "uri_at 9 (length (ngx_escape_uri (cu_uri res) NGX_ESCAPE_URI))"] run
    by (simp add: holds_mem_at del: bs_simps)
qed

theorem complex_uri_short_cut_witness:
  "\<exists>r' b' res. ngx_http_parse_request_line (mem_at 1 (bs ''PUT /a/b.c HTTP/65537.1'' @ [CR, LF])) init_request
      \<lparr>buf_pos = 1, buf_last = 30\<rparr> = (NGX_OK, r', b') \<and>
    ngx_http_parse_complex_uri (mem_at 1 (bs ''PUT /a/b.c HTTP/65537.1'' @ [CR, LF])) r' True = (NGX_OK, Some res) \<and>
    cu_uri res = bs ''/a/b.c''"
proof -
  let ?mem = "mem_at 1 (bs ''PUT /a/b.c HTTP/65537.1'' @ [CR, LF])"
  have r: "fresh_request init_request" by (simp add: init_request_def fresh_request_def)
  obtain r' where run: "ngx_http_parse_request_line ?mem init_request
      \<lparr>buf_pos = 1, buf_last = 30\<rparr> = (NGX_OK, r', \<lparr>buf_pos = 26, buf_last = 30\<rparr>)"
    and f: "plain_uri r'" "args_start r' = NULL" "uri_start r' = 5" "uri_end r' = 11"
    using example_run by blast
  have "map ?mem [5..<11] = bs ''/a/b.c''" by (simp add: upt_rec mem_at_def)
  then show ?thesis
    using complex_uri_short_cut [OF r _ run, of True] run f by (auto simp: plain_uri_def simp del: bs_simps)
qed

subsection \<open>Malformed percent escapes\<close>

lemma hex_ranges: "is_hex h \<longleftrightarrow> (c_0 \<le> h \<and> h \<le> c_9) \<or> (c_a \<le> h OR 0x20 \<and> h OR 0x20 \<le> c_f)"
  by (auto simp: is_hex_def is_digit_def)

lemma cu_quoted_step:
  assumes "cu_ready mem v q s i" "mem i = c_percent"
  shows "\<exists>v1. cu_step mem m v = CU_next v1 \<and> cu_st v1 = cu_quoted \<and> cu_out v1 = s \<and> cu_p v1 = Suc (Suc i) \<and>
    cu_ch v1 = mem (Suc i) \<and> cu_args v1 = cu_args v"
  using assms by (cases q) (auto simp: cu_step_def cu_sw_defs cu_ops is_usual_iff cu_ready_def)

lemma cu_quoted_digit:
  assumes "cu_st v = cu_quoted" "is_hex (cu_ch v)"
  shows "\<exists>v1. cu_step mem m v = CU_next v1 \<and> cu_st v1 = cu_quoted_second \<and> cu_out v1 = cu_out v \<and> cu_p v1 = Suc (cu_p v) \<and>
    cu_ch v1 = mem (cu_p v) \<and> cu_decoded v1 = of_nat (hex_value (cu_ch v)) \<and> cu_args v1 = cu_args v"
  using assms(1) hex_digit_cases [OF assms(2)] by (auto simp: cu_step_def cu_sw_quoted_def cu_ops Let_def)

lemma cu_quoted_refuses:
  "cu_st v = cu_quoted \<Longrightarrow> \<not> is_hex (cu_ch v) \<Longrightarrow> cu_step mem m v = CU_return NGX_HTTP_PARSE_INVALID_REQUEST"
  by (simp add: cu_step_def cu_sw_quoted_def hex_ranges Let_def)

lemma cu_second_refuses:
  assumes "cu_st v = cu_quoted_second" "\<not> is_hex (cu_ch v) \<or> (cu_ch v = c_0 \<and> cu_decoded v = 0)"
  shows "cu_step mem m v = CU_return NGX_HTTP_PARSE_INVALID_REQUEST"
  using assms by (auto simp: cu_step_def cu_sw_quoted_second_def hex_ranges Let_def)

lemma hex_value_0: "is_hex l \<Longrightarrow> hex_value l = 0 \<Longrightarrow> l = c_0"
  using hex_digit_cases [of l] by auto

text \<open>
  An escape that is no byte or the byte zero, and one that the end of the URI cuts off.
\<close>

fun bad_escape :: "bytes \<Rightarrow> bool" where
  "bad_escape [] \<longleftrightarrow> False"
| "bad_escape [p] \<longleftrightarrow> False"
| "bad_escape [p, h] \<longleftrightarrow> p = c_percent \<and> \<not> is_hex h"
| "bad_escape (p # h # l # t) \<longleftrightarrow> p = c_percent \<and> (\<not> is_hex h \<or> \<not> is_hex l \<or> 16 * hex_value h + hex_value l = 0)"

definition cut_escape :: "bytes \<Rightarrow> bool" where
  "cut_escape s \<longleftrightarrow> s = [c_percent] \<or> (length s = 2 \<and> hd s = c_percent \<and> is_hex (s ! 1))"

lemma cu_loop_return:
  "cu_p v \<le> uend \<Longrightarrow> cu_step mem m v = CU_return c \<Longrightarrow> cu_loop mem m uend v = CU_return c"
  by (simp add: cu_loop.simps [of mem m uend v])

lemma cu_loop_stop: "uend < cu_p v \<Longrightarrow> cu_loop mem m uend v = CU_done v"
  by (simp add: cu_loop.simps [of mem m uend v])

lemma cu_loop_bad_escape:
  assumes "cu_ready mem v q s i" "holds mem i esc" "bad_escape esc" "i + length esc \<le> uend"
  shows "cu_loop mem m uend v = CU_return NGX_HTTP_PARSE_INVALID_REQUEST"
proof -
  obtain h t where e: "esc = c_percent # h # t" using assms(3) by (cases esc rule: bad_escape.cases) auto
  then have mem: "mem i = c_percent" "mem (Suc i) = h" "holds mem (Suc (Suc i)) t" "i + 2 + length t \<le> uend"
    using assms(2,4) by auto
  obtain v1 where v1: "cu_step mem m v = CU_next v1" "cu_st v1 = cu_quoted" "cu_p v1 = Suc (Suc i)" "cu_ch v1 = h"
    using cu_quoted_step [OF assms(1) mem(1)] mem(2) by auto
  have l1: "cu_loop mem m uend v = cu_loop mem m uend v1"
    using cu_loop_next [OF _ v1(1)] assms(1) mem(4) by (simp add: cu_ready_def)
  show ?thesis
  proof (cases "is_hex h")
    case False
    then show ?thesis unfolding l1 by (intro cu_loop_return cu_quoted_refuses) (use v1 mem(4) in simp_all)
  next
    case True
    then obtain l t' where t: "t = l # t'" "\<not> is_hex l \<or> 16 * hex_value h + hex_value l = 0"
      using assms(3) e by (cases t) auto
    obtain v2 where v2: "cu_step mem m v1 = CU_next v2" "cu_st v2 = cu_quoted_second" "cu_p v2 = Suc (Suc (Suc i))" "cu_ch v2 = l"
        "cu_decoded v2 = of_nat (hex_value h)"
      using cu_quoted_digit [OF v1(2), of mem m] v1(3,4) True mem(3) t(1) by auto
    have "cu_loop mem m uend v1 = cu_loop mem m uend v2" using cu_loop_next [OF _ v2(1)] v1(3) mem(4) by simp
    moreover have "\<not> is_hex (cu_ch v2) \<or> (cu_ch v2 = c_0 \<and> cu_decoded v2 = 0)"
      using t(2) v2(4,5) hex_value_0 [of l] by auto
    ultimately show ?thesis unfolding l1
      using cu_loop_return [OF _ cu_second_refuses [OF v2(2)]] v2(3) mem(4) t(1) by simp
  qed
qed

lemma cu_loop_cut_escape:
  assumes "cu_ready mem v q s i" "holds mem i esc" "cut_escape esc" "i + length esc = uend"
  shows "\<exists>w. cu_loop mem m uend v = CU_done w \<and> cu_out w = s \<and> cu_args w = cu_args v"
proof -
  have mem: "mem i = c_percent" "Suc i \<le> uend" using assms(2,3,4) by (cases esc; auto simp: cut_escape_def)+
  obtain v1 where v1: "cu_step mem m v = CU_next v1" "cu_st v1 = cu_quoted" "cu_p v1 = Suc (Suc i)" "cu_ch v1 = mem (Suc i)"
      "cu_out v1 = s" "cu_args v1 = cu_args v"
    using cu_quoted_step [OF assms(1) mem(1)] by auto
  have l1: "cu_loop mem m uend v = cu_loop mem m uend v1"
    using cu_loop_next [OF _ v1(1)] assms(1) mem(2) by (simp add: cu_ready_def)
  show ?thesis
  proof (cases "esc = [c_percent]")
    case True
    then show ?thesis unfolding l1 using cu_loop_stop [of uend v1] v1 assms(4) by simp
  next
    case False
    then obtain h where h: "esc = [c_percent, h]" "is_hex h"
      using assms(3) by (auto simp: cut_escape_def length_Suc_conv numeral_2_eq_2)
    then have "mem (Suc i) = h" using assms(2) by simp
    then obtain v2 where v2: "cu_step mem m v1 = CU_next v2" "cu_p v2 = Suc (Suc (Suc i))" "cu_out v2 = s" "cu_args v2 = cu_args v"
      using cu_quoted_digit [OF v1(2), of mem m] v1(3-6) h(2) by auto
    have "cu_loop mem m uend v1 = cu_loop mem m uend v2" using cu_loop_next [OF _ v2(1)] v1(3) h(1) assms(4) by simp
    then show ?thesis unfolding l1 using cu_loop_stop [of uend v2] v2 h(1) assms(4) by simp
  qed
qed

text \<open>
  C22: malformed escapes are refused.  Behind any well-formed beginning of a path, a percent sign with a byte behind it that
  is no hexadecimal digit, one with a digit and then a byte that is none, or one that encodes the byte zero makes the parser
  return an error, whatever comes after it.  An escape that the end of the URI cuts off is not refused
  (\<open>complex_uri_cut_escape\<close>).
\<close>

theorem complex_uri_bad_escape:
  assumes "holds mem (uri_start r) (xs @ esc)" "uri_end r = uri_start r + length (xs @ esc)"
    and "percent_decode xs = Some path" "bad_escape esc"
  shows "ngx_http_parse_complex_uri mem r merge_slashes = (NGX_HTTP_PARSE_INVALID_REQUEST, None)"
proof -
  let ?v = "cu_init mem r" and ?i = "uri_start r + length xs"
  have h: "holds mem (uri_start r) xs" "holds mem ?i esc" using assms(1) by (simp_all add: holds_append)
  have "cu_ready mem ?v cu_usual [] (uri_start r)" by (simp add: cu_ready_def cu_init_def)
  then have "cu_reached mem merge_slashes (uri_end r) ?v (cu_feeds merge_slashes cu_usual [] path) ?i"
    using cu_loop_decode [OF assms(3) h(1)] assms(2) by simp
  then have "cu_loop mem merge_slashes (uri_end r) ?v = CU_return NGX_HTTP_PARSE_INVALID_REQUEST"
    using cu_loop_bad_escape [OF _ h(2) assms(4), of _ _ _ "uri_end r" merge_slashes] assms(2)
    by (auto simp: cu_reached_def split: option.splits)
  then show ?thesis by (simp add: ngx_http_parse_complex_uri_def)
qed

text \<open>
  An escape that the end of the URI cuts off is not refused.  For a path followed by a lone percent sign
  or by a percent sign and one digit, the parser returns the path without the escape.
\<close>

theorem complex_uri_cut_escape:
  assumes "holds mem (uri_start r) (xs @ esc)" "uri_end r = uri_start r + length (xs @ esc)"
    and "percent_decode xs = Some (c_slash # path)" "cut_escape esc" "remove_dots path = Some s"
  shows "\<exists>res. ngx_http_parse_complex_uri mem r True = (NGX_OK, Some res) \<and> cu_uri res = s \<and> cu_args_str res = None"
proof -
  let ?v = "cu_init mem r" and ?i = "uri_start r + length xs"
  have h: "holds mem (uri_start r) xs" "holds mem ?i esc" using assms(1) by (simp_all add: holds_append)
  have f: "map_option snd (cu_feeds True cu_usual [] (c_slash # path)) = Some s"
    using cu_feeds_remove_dots [of path] assms(5) by simp
  have i: "cu_ready mem ?v cu_usual [] (uri_start r)" by (simp add: cu_ready_def cu_init_def)
  have "cu_reached mem True (uri_end r) ?v (cu_feeds True cu_usual [] (c_slash # path)) ?i"
    by (rule cu_loop_decode [OF assms(3) h(1) _ i]) (simp add: assms(2))
  then obtain q v where v: "cu_loop mem True (uri_end r) ?v = cu_loop mem True (uri_end r) v" "cu_ready mem v q s ?i"
    using f by (auto simp: cu_reached_def split: option.splits)
  obtain w where w: "cu_loop mem True (uri_end r) v = CU_done w" "cu_out w = s"
    using cu_loop_cut_escape [OF v(2) h(2) assms(4), of "uri_end r" True] assms(2) by auto
  then show ?thesis using v(1) by (simp add: ngx_http_parse_complex_uri_def cu_finish_def)
qed

lemma complex_uri_bad_escape_witness:
  "ngx_http_parse_complex_uri (mem_at 1 (bs ''/a%2e'' @ bs ''%0gx'')) (uri_at 1 9) True = (NGX_HTTP_PARSE_INVALID_REQUEST, None)"
proof -
  have d: "percent_decode (bs ''/a%2e'') = Some (bs ''/a.'')"
    by (simp add: is_hex_def hex_value_def is_digit_def digit_value_def)
  have b: "bad_escape (bs ''%0gx'')" by (simp add: is_hex_def is_digit_def)
  show ?thesis
    using complex_uri_bad_escape [OF _ _ d b, of "mem_at 1 (bs ''/a%2e'' @ bs ''%0gx'')" "uri_at 1 9" True]
    by (auto simp: holds_mem_at simp del: bs_simps)
qed

lemma complex_uri_cut_escape_witness:
  "\<exists>res. ngx_http_parse_complex_uri (mem_at 1 (bs ''/a'' @ bs ''%4'')) (uri_at 1 4) True = (NGX_OK, Some res) \<and>
    cu_uri res = bs ''/a'' \<and> cu_args_str res = None"
proof -
  have d: "percent_decode (bs ''/a'') = Some (c_slash # bs ''a'')" by simp
  have r: "remove_dots (bs ''a'') = Some (bs ''/a'')" by (simp add: remove_dots_def join_def)
  have c: "cut_escape (bs ''%4'')" by (simp add: cut_escape_def is_hex_def is_digit_def)
  show ?thesis
    using complex_uri_cut_escape [OF _ _ d c r, of "mem_at 1 (bs ''/a'' @ bs ''%4'')" "uri_at 1 4"]
    by (auto simp: holds_mem_at simp del: bs_simps)
qed

end
