(* ===== verification/Ngx_Time.thy ===== *)
theory Ngx_Time
  imports Ngx_Printf "HOL-Library.Signed_Division"
begin

text \<open>
  Dates of \<open>core/ngx_times.c\<close>: \<open>ngx_gmtime\<close>, \<open>ngx_http_time\<close> and \<open>ngx_http_cookie_time\<close>.
  \<open>time_t\<close> and \<open>ngx_uint_t\<close> are 64-bit words, the fields of \<open>struct tm\<close> 32-bit words.  The Gauss
  formula is compared with a calendar that counts days one by one.
\<close>

unbundle bit_operations_syntax

record ngx_tm_t =
  ngx_tm_sec :: uint32_t
  ngx_tm_min :: uint32_t
  ngx_tm_hour :: uint32_t
  ngx_tm_mday :: uint32_t
  ngx_tm_mon :: uint32_t
  ngx_tm_year :: uint32_t
  ngx_tm_wday :: uint32_t

text \<open>The Gauss formula: days before March 1 of a year.\<close>

definition gm_march :: "uint64_t \<Rightarrow> uint64_t" where
  "gm_march year = 365 * year + year div 4 - year div 100 + year div 400"

text \<open>The year that begins on March 1, and the day in it.\<close>

definition gm_yday :: "uint64_t \<Rightarrow> int \<times> uint64_t" where
  "gm_yday days =
     (let year = (days + 2) * 400 div (365 * 400 + 100 - 4 + 1);
          yday = sint (days - gm_march year)
      in if yday < 0 then
           let leap = (if year mod 4 = 0 \<and> (year mod 100 \<noteq> 0 \<or> year mod 400 = 0) then 1 else 0)
           in (365 + leap + yday, year - 1)
         else (yday, year))"

text \<open>The year, the month and the day of the month.\<close>

definition gm_date :: "uint64_t \<Rightarrow> uint64_t \<times> uint64_t \<times> uint64_t" where
  "gm_date days =
     (let (yday, year) = gm_yday days;
          mon = word_of_int ((yday + 31) * 10 div 306);
          mday = word_of_int yday - (367 * mon div 12 - 30) + 1
      in if 306 \<le> yday then (year + 1, mon - 10, mday) else (year, mon + 2, mday))"

definition ngx_gmtime :: "uint64_t \<Rightarrow> ngx_tm_t" where
  "ngx_gmtime t =
     (let n = t;
          days = n div 86400;
          wday = (4 + days) mod 7;
          n = n mod 86400;
          hour = n div 3600;
          n = n mod 3600;
          min = n div 60;
          sec = n mod 60;
          (year, mon, mday) = gm_date (days - (31 + 28) + 719527)
      in \<lparr>ngx_tm_sec = ucast sec, ngx_tm_min = ucast min, ngx_tm_hour = ucast hour,
          ngx_tm_mday = ucast mday, ngx_tm_mon = ucast mon, ngx_tm_year = ucast year,
          ngx_tm_wday = ucast wday\<rparr>)"

definition is_leap :: "nat \<Rightarrow> bool" where
  "is_leap y \<longleftrightarrow> 4 dvd y \<and> (\<not> 100 dvd y \<or> 400 dvd y)"

definition month_days :: "nat \<Rightarrow> nat \<Rightarrow> nat" where
  "month_days y m = (if m = 2 then if is_leap y then 29 else 28 else if m \<in> {4, 6, 9, 11} then 30 else 31)"

fun next_day :: "nat \<times> nat \<times> nat \<Rightarrow> nat \<times> nat \<times> nat" where
  "next_day (y, m, d) =
     (if d < month_days y m then (y, m, d + 1) else if m < 12 then (y, m + 1, 1) else (y + 1, 1, 1))"

primrec date_of_day :: "nat \<Rightarrow> nat \<times> nat \<times> nat" where
  "date_of_day 0 = (1970, 1, 1)"
| "date_of_day (Suc n) = next_day (date_of_day n)"

text \<open>Days before March 1 of a year.\<close>

definition march_days :: "nat \<Rightarrow> nat" where
  "march_days y = 365 * y + y div 4 - y div 100 + y div 400"

lemma year_parts_unique:
  assumes "y = 400 * a + 100 * b + 4 * c + d" "b < 4" "c < 25" "d < (4 :: nat)"
  shows "y div 400 = a" "y div 100 = 4 * a + b" "y div 4 = 100 * a + 25 * b + c"
    "is_leap y \<longleftrightarrow> d = 0 \<and> (c \<noteq> 0 \<or> b = 0)"
proof -
  show q1: "y div 400 = a" using assms by (intro div_nat_eqI) simp_all
  show q2: "y div 100 = 4 * a + b" using assms by (intro div_nat_eqI) simp_all
  show q3: "y div 4 = 100 * a + 25 * b + c" using assms by (intro div_nat_eqI) simp_all
  note q = q1 q2 q3
  have "y mod 400 = 100 * b + 4 * c + d" "y mod 100 = 4 * c + d" "y mod 4 = d"
    using q div_mult_mod_eq [of y 400] div_mult_mod_eq [of y 100] div_mult_mod_eq [of y 4] assms(1) by linarith+
  then show "is_leap y \<longleftrightarrow> d = 0 \<and> (c \<noteq> 0 \<or> b = 0)"
    unfolding is_leap_def dvd_eq_mod_eq_0 by auto
qed

lemma year_parts:
  obtains a b c d where "y = 400 * a + 100 * b + 4 * c + d" "b < 4" "c < 25" "d < (4 :: nat)"
proof
  show "y = 400 * (y div 400) + 100 * (y mod 400 div 100) + 4 * (y mod 400 mod 100 div 4) + y mod 400 mod 100 mod 4"
    using div_mult_mod_eq [of y 400] div_mult_mod_eq [of "y mod 400" 100] div_mult_mod_eq [of "y mod 400 mod 100" 4]
    by linarith
qed (simp_all add: div_less_iff_less_mult)

lemma march_days_parts:
  assumes "y = 400 * a + 100 * b + 4 * c + d" "b < 4" "c < 25" "d < (4 :: nat)"
  shows "march_days y = 146097 * a + 36524 * b + 1461 * c + 365 * d"
  using year_parts_unique [OF assms] by (simp add: march_days_def) (simp add: assms(1))

lemma march_days_Suc: "march_days (Suc y) = march_days y + 365 + (if is_leap (Suc y) then 1 else 0)"
proof -
  obtain a b c d where p: "y = 400 * a + 100 * b + 4 * c + d" "b < 4" "c < 25" "d < (4 :: nat)"
    by (rule year_parts [of y])
  note m = march_days_parts [OF p]
  consider "d < 3" | "d = 3" "c < 24" | "d = 3" "c = 24" "b < 3" | "d = 3" "c = 24" "b = 3" using p by linarith
  then show ?thesis
  proof cases
    case 1
    then have s: "Suc y = 400 * a + 100 * b + 4 * c + Suc d" "Suc d < 4" using p(1) by simp_all
    show ?thesis using m march_days_parts [OF s(1) p(2,3) s(2)] year_parts_unique(4) [OF s(1) p(2,3) s(2)] by simp
  next
    case 2
    then have s: "Suc y = 400 * a + 100 * b + 4 * Suc c + 0" "Suc c < 25" "(0::nat) < 4" using p(1) by simp_all
    show ?thesis using m march_days_parts [OF s(1) p(2) s(2,3)] year_parts_unique(4) [OF s(1) p(2) s(2,3)] 2 by simp
  next
    case 3
    then have s: "Suc y = 400 * a + 100 * Suc b + 4 * 0 + 0" "Suc b < 4" "(0::nat) < 25" "(0::nat) < 4" using p(1) by simp_all
    show ?thesis using m march_days_parts [OF s] year_parts_unique(4) [OF s] 3 by simp
  next
    case 4
    then have s: "Suc y = 400 * Suc a + 100 * 0 + 4 * 0 + 0" "(0::nat) < 4" "(0::nat) < 25" using p(1) by simp_all
    show ?thesis using m march_days_parts [OF s(1,2,3,2)] year_parts_unique(4) [OF s(1,2,3,2)] 4 by simp
  qed
qed

text \<open>The estimate of the year is the year or the one behind it.\<close>

lemma year_estimate:
  fixes D :: nat
  defines "e \<equiv> (D + 2) * 400 div 146097"
  shows "D < march_days (Suc e)" "D < march_days e \<Longrightarrow> 0 < e \<and> march_days (e - 1) \<le> D"
proof -
  have "(D + 2) * 400 = e * 146097 + (D + 2) * 400 mod 146097" "(D + 2) * 400 mod 146097 < 146097"
    unfolding e_def by (simp_all only: div_mult_mod_eq mod_less_divisor)
  then have e: "e * 146097 \<le> (D + 2) * 400" "(D + 2) * 400 < (e + 1) * 146097" by (simp_all add: algebra_simps)
  obtain a b c d where p: "e = 400 * a + 100 * b + 4 * c + d" "b < 4" "c < 25" "d < (4 :: nat)"
    by (rule year_parts [of e])
  have m: "march_days e = 146097 * a + 36524 * b + 1461 * c + 365 * d" by (rule march_days_parts [OF p])
  show "D < march_days (Suc e)" using march_days_Suc [of e] m e p by (simp split: if_splits)
  assume l: "D < march_days e"
  have "0 < e"
  proof (rule ccontr)
    assume "\<not> 0 < e"
    then show False using l by (simp add: march_days_def)
  qed
  then obtain y where y: "e = Suc y" by (cases e) auto
  have "march_days y \<le> D"
    using march_days_Suc [of y] m e p y by (simp split: if_splits)
  then show "0 < e \<and> march_days (e - 1) \<le> D" using y by simp
qed

text \<open>The formula for the month, on every day of a year that begins on March 1.\<close>

definition month_of_yday :: "nat \<Rightarrow> nat" where
  "month_of_yday yd = (yd + 31) * 10 div 306"

definition mday_of_yday :: "nat \<Rightarrow> nat" where
  "mday_of_yday yd = yd - (367 * month_of_yday yd div 12 - 30) + 1"

definition civil :: "nat \<Rightarrow> nat \<Rightarrow> nat \<times> nat \<times> nat" where
  "civil y yd = (if 306 \<le> yd then (y + 1, month_of_yday yd - 10, mday_of_yday yd) else (y, month_of_yday yd + 2, mday_of_yday yd))"

lemma month_of_yday_iff: "month_of_yday yd = m \<longleftrightarrow> 306 * m \<le> (yd + 31) * 10 \<and> (yd + 31) * 10 < 306 * Suc m"
  unfolding month_of_yday_def using div_nat_eqI [of 306 m "(yd + 31) * 10"] div_mult_mod_eq [of "(yd + 31) * 10" 306]
    mod_less_divisor [of 306 "(yd + 31) * 10"] by auto

lemma yday_cases:
  assumes "yd < 366"
  obtains (m1) "month_of_yday yd = 1" "yd \<le> 30"
  | (m2) "month_of_yday yd = 2" "31 \<le> yd" "yd \<le> 60"
  | (m3) "month_of_yday yd = 3" "61 \<le> yd" "yd \<le> 91"
  | (m4) "month_of_yday yd = 4" "92 \<le> yd" "yd \<le> 121"
  | (m5) "month_of_yday yd = 5" "122 \<le> yd" "yd \<le> 152"
  | (m6) "month_of_yday yd = 6" "153 \<le> yd" "yd \<le> 183"
  | (m7) "month_of_yday yd = 7" "184 \<le> yd" "yd \<le> 213"
  | (m8) "month_of_yday yd = 8" "214 \<le> yd" "yd \<le> 244"
  | (m9) "month_of_yday yd = 9" "245 \<le> yd" "yd \<le> 274"
  | (m10) "month_of_yday yd = 10" "275 \<le> yd" "yd \<le> 305"
  | (m11) "month_of_yday yd = 11" "306 \<le> yd" "yd \<le> 336"
  | (m12) "month_of_yday yd = 12" "337 \<le> yd" "yd \<le> 365"
  using assms unfolding month_of_yday_iff by (simp; linarith)

lemma mday_of_yday_month:
  "yd < 366 \<Longrightarrow> mday_of_yday yd = yd - [0, 0, 31, 61, 92, 122, 153, 184, 214, 245, 275, 306, 337] ! month_of_yday yd + 1"
  by (erule yday_cases) (simp_all add: mday_of_yday_def)

lemma civil_Suc:
  assumes "yd < 364 \<or> (yd = 364 \<and> is_leap (Suc y))"
  shows "civil y (Suc yd) = next_day (civil y yd)"
proof -
  have l: "yd < 366" "Suc yd < 366" using assms by auto
  show ?thesis
    by (rule yday_cases [OF l(1)]; rule yday_cases [OF l(2)]; insert assms;
        simp add: civil_def mday_of_yday_month l month_days_def; arith)
qed

lemma civil_year_end:
  "civil (Suc y) 0 = next_day (civil y (if is_leap (Suc y) then 365 else 364))"
  by (simp add: civil_def month_of_yday_def mday_of_yday_def month_days_def)


lemma date_of_day_civil:
  "march_days y \<le> n + 719468 \<Longrightarrow> n + 719468 < march_days (Suc y) \<Longrightarrow>
    date_of_day n = civil y (n + 719468 - march_days y)"
proof (induction n arbitrary: y)
  case 0
  have m: "march_days 1969 = 719162" "march_days 1970 = 719527" by (simp_all add: march_days_def)
  have mono: "march_days a \<le> march_days b" if "a \<le> b" for a b
    using that by (induction rule: dec_induct) (simp_all add: march_days_Suc)
  have "y = 1969"
    using 0 m mono [of "Suc y" 1969] mono [of 1970 y] by linarith
  then show ?case by (simp add: m civil_def month_of_yday_def mday_of_yday_def)
next
  case (Suc n)
  show ?case
  proof (cases "march_days y \<le> n + 719468")
    case True
    let ?yd = "n + 719468 - march_days y"
    have "date_of_day n = civil y ?yd" using Suc True by simp
    moreover have "?yd < 364 \<or> (?yd = 364 \<and> is_leap (Suc y))"
      using Suc.prems(2) True by (simp add: march_days_Suc split: if_splits) linarith
    moreover have "Suc n + 719468 - march_days y = Suc ?yd" using True by simp
    ultimately show ?thesis using civil_Suc [of ?yd y] by (simp only: date_of_day.simps)
  next
    case False
    then have e: "march_days y = Suc (n + 719468)" using Suc.prems(1) by simp
    then obtain z where z: "y = Suc z" by (cases y) (auto simp: march_days_def)
    have "date_of_day n = civil z (n + 719468 - march_days z)"
      by (rule Suc.IH) (use e z march_days_Suc [of z] in \<open>auto\<close>)
    moreover have "n + 719468 = march_days z + (if is_leap (Suc z) then 365 else 364)"
      using e z march_days_Suc [of z] by (cases "is_leap (Suc z)") simp_all
    then have "n + 719468 - march_days z = (if is_leap (Suc z) then 365 else 364)" by simp
    ultimately show ?thesis using civil_year_end [of z] e z by simp
  qed
qed

lemma word_of_nat_div:
  "a < 2 ^ 64 \<Longrightarrow> b < 2 ^ 64 \<Longrightarrow> (of_nat a :: uint64_t) div of_nat b = of_nat (a div b)"
  by (simp add: word_arith_nat_div unat_of_nat)

lemma word_of_nat_mod:
  "a < 2 ^ 64 \<Longrightarrow> b < 2 ^ 64 \<Longrightarrow> (of_nat a :: uint64_t) mod of_nat b = of_nat (a mod b)"
  by (simp add: word_arith_nat_mod unat_of_nat)


lemma march_days_le: "march_days y \<le> 366 * y"
  by (induction y) (simp_all add: march_days_Suc, simp add: march_days_def)

lemma gm_march_nat:
  assumes "e < 2 ^ 48"
  shows "gm_march (of_nat e) = of_nat (march_days e)"
proof -
  have "(of_nat (march_days e) :: uint64_t) = 365 * of_nat e + of_nat (e div 4) - of_nat (e div 100) + of_nat (e div 400)"
  proof -
    have "e div 100 \<le> 365 * e + e div 4" by simp
    then show ?thesis by (simp add: march_days_def of_nat_diff)
  qed
  moreover have "(of_nat e :: uint64_t) div 4 = of_nat (e div 4)" "(of_nat e :: uint64_t) div 100 = of_nat (e div 100)"
      "(of_nat e :: uint64_t) div 400 = of_nat (e div 400)"
    using word_of_nat_div [of e 4] word_of_nat_div [of e 100] word_of_nat_div [of e 400] assms by simp_all
  ultimately show ?thesis by (simp add: gm_march_def)
qed

lemma gm_leap_nat:
  assumes "e < 2 ^ 48"
  shows "((of_nat e :: uint64_t) mod 4 = 0 \<and> ((of_nat e :: uint64_t) mod 100 \<noteq> 0 \<or> (of_nat e :: uint64_t) mod 400 = 0)) \<longleftrightarrow> is_leap e"
proof -
  have z: "(of_nat e :: uint64_t) mod of_nat b = 0 \<longleftrightarrow> b dvd e" if "0 < b" "b < 401" for b
  proof -
    have "e mod b < 2 ^ 64" by (rule le_less_trans [OF mod_less_eq_dividend]) (use assms in simp)
    then have "(of_nat (e mod b) :: uint64_t) = 0 \<longleftrightarrow> e mod b = 0"
      by (simp add: word_unat_eq_iff unat_of_nat)
    then show ?thesis using that assms by (simp add: word_of_nat_mod dvd_eq_mod_eq_0)
  qed
  show ?thesis using z [of 4] z [of 100] z [of 400] by (auto simp: is_leap_def)
qed

lemma sint_of_int_64: "- (2 ^ 63) \<le> z \<Longrightarrow> z < 2 ^ 63 \<Longrightarrow> sint (word_of_int z :: uint64_t) = z"
  by (simp add: sint_sbintrunc' signed_take_bit_int_eq_self)

lemma sint_diff_nat: "a < 2 ^ 62 \<Longrightarrow> b < 2 ^ 62 \<Longrightarrow> sint (of_nat a - of_nat b :: uint64_t) = int a - int b"
  using sint_of_int_64 [of "int a - int b"] by simp

text \<open>What the two formulas compute.\<close>

lemma gm_yday_nat:
  assumes "D < 2 ^ 40"
  obtains y where "march_days y \<le> D" "D < march_days (Suc y)" "y < 2 ^ 41"
    "gm_yday (of_nat D) = (int (D - march_days y), of_nat y)"
proof -
  define e where "e = (D + 2) * 400 div 146097"
  note est = year_estimate [of D, folded e_def]
  have e: "e < 2 ^ 41" using assms by (simp add: e_def div_less_iff_less_mult)
  have y: "(of_nat D + 2 :: uint64_t) * 400 div (365 * 400 + 100 - 4 + 1) = of_nat e"
    unfolding e_def using word_of_nat_div [of "(D + 2) * 400" 146097] assms by (simp add: algebra_simps)
  have m: "march_days e < 2 ^ 62" using march_days_le [of e] e by simp
  have s: "sint (of_nat D - gm_march (of_nat e)) = int D - int (march_days e)"
    using sint_diff_nat [of D "march_days e"] m assms gm_march_nat [of e] e by simp
  show thesis
  proof (cases "march_days e \<le> D")
    case True
    then have "gm_yday (of_nat D) = (int (D - march_days e), of_nat e)"
      unfolding gm_yday_def y s Let_def by (simp add: of_nat_diff)
    then show thesis using that [of e] est(1) e True by simp
  next
    case False
    then obtain z where z: "e = Suc z" "march_days z \<le> D" using est(2) by (cases e) auto
    have l: "((of_nat e :: uint64_t) mod 4 = 0 \<and> ((of_nat e :: uint64_t) mod 100 \<noteq> 0 \<or> (of_nat e :: uint64_t) mod 400 = 0)) \<longleftrightarrow> is_leap e"
      by (rule gm_leap_nat) (use e in simp)
    have "gm_yday (of_nat D) = (int (D - march_days z), of_nat z)"
      unfolding gm_yday_def y s Let_def l using False z march_days_Suc [of z] by (auto simp: of_nat_diff)
    then show thesis using that [of z] z False e by simp
  qed
qed

text \<open>A date with a sane year is a date of the calendar.\<close>

lemma civil_bounds: "yd < 366 \<Longrightarrow> civil y yd = (Y, m, d) \<Longrightarrow> 1 \<le> m \<and> m \<le> 12 \<and> 1 \<le> d \<and> d \<le> 31 \<and> Y \<le> Suc y"
  by (erule yday_cases) (auto simp: civil_def mday_of_yday_month)

lemma gm_date_nat:
  assumes "n < 2 ^ 39"
  obtains y m d where "date_of_day n = (y, m, d)" "gm_date (of_nat n - (31 + 28) + 719527) = (of_nat y, of_nat m, of_nat d)"
    "y \<le> 2 ^ 41" "1 \<le> m" "m \<le> 12" "1 \<le> d" "d \<le> 31"
proof -
  let ?D = "n + 719468"
  have D: "(of_nat n - (31 + 28) + 719527 :: uint64_t) = of_nat ?D" by simp
  have "?D < 2 ^ 40" using assms by simp
  then obtain y where y: "march_days y \<le> ?D" "?D < march_days (Suc y)" "y < 2 ^ 41"
      "gm_yday (of_nat ?D) = (int (?D - march_days y), of_nat y)"
    by (rule gm_yday_nat)
  define yd where "yd = ?D - march_days y"
  have yd: "yd < 366" using y(1,2) by (simp add: yd_def march_days_Suc split: if_splits)
  have date: "date_of_day n = civil y yd" using date_of_day_civil [OF y(1,2)] by (simp add: yd_def)
  have mon: "word_of_int ((int yd + 31) * 10 div 306) = (of_nat (month_of_yday yd) :: uint64_t)"
  proof -
    have "(int yd + 31) * 10 div 306 = int (month_of_yday yd)" by (simp add: month_of_yday_def zdiv_int)
    then show ?thesis by simp
  qed
  have mb: "1 \<le> month_of_yday yd" "month_of_yday yd \<le> 12" using yd by (auto elim!: yday_cases)
  have "(367 * of_nat (month_of_yday yd) :: uint64_t) div 12 = of_nat (367 * month_of_yday yd div 12)"
    using word_of_nat_div [of "367 * month_of_yday yd" 12] mb by simp
  then have mday: "of_nat yd - (367 * of_nat (month_of_yday yd) div 12 - 30) + 1 = (of_nat (mday_of_yday yd) :: uint64_t)"
    using yd by (elim yday_cases) (simp_all add: mday_of_yday_def of_nat_diff)
  have "gm_date (of_nat ?D) = (case civil y yd of (Y, m, d) \<Rightarrow> (of_nat Y, of_nat m, of_nat d))"
    using yd unfolding gm_date_def y(4) yd_def [symmetric] Let_def prod.case mon
    by (elim yday_cases) (simp_all add: civil_def mday [symmetric])
  moreover obtain Y m d where c: "civil y yd = (Y, m, d)" by (cases "civil y yd")
  ultimately have "gm_date (of_nat n - (31 + 28) + 719527) = (of_nat Y, of_nat m, of_nat d)" unfolding D by (simp only: c prod.case)
  then show thesis
    using that [of Y m d] date civil_bounds [OF yd c] y(3) by (simp only: c) simp
qed

text \<open>\<open>ngx_gmtime\<close> on a positive \<open>time_t\<close>.\<close>

lemma gmtime_fields:
  assumes "t < 2 ^ 55"
  obtains y m d where "date_of_day (t div 86400) = (y, m, d)" "1 \<le> m" "m \<le> 12" "1 \<le> d" "d \<le> 31" "y \<le> 2 ^ 41"
    "ngx_gmtime (of_nat t) =
      \<lparr>ngx_tm_sec = of_nat (t mod 60), ngx_tm_min = of_nat (t mod 3600 div 60), ngx_tm_hour = of_nat (t mod 86400 div 3600),
       ngx_tm_mday = of_nat d, ngx_tm_mon = of_nat m, ngx_tm_year = of_nat y,
       ngx_tm_wday = of_nat ((4 + t div 86400) mod 7)\<rparr>"
proof -
  have t: "t < 2 ^ 64" using assms by simp
  have n: "t div 86400 < 2 ^ 39" using assms by (simp add: div_less_iff_less_mult)
  have le: "x mod b < 2 ^ 64" if "x < 2 ^ 64" for x b :: nat
    by (rule le_less_trans [OF mod_less_eq_dividend that])
  have ops: "(of_nat t :: uint64_t) div 86400 = of_nat (t div 86400)" "(of_nat t :: uint64_t) mod 86400 = of_nat (t mod 86400)"
    using word_of_nat_div [of t 86400] word_of_nat_mod [of t 86400] t by simp_all
  have m: "t mod 86400 mod 3600 = t mod 3600" "t mod 3600 mod 60 = t mod 60"
    by (simp_all add: mod_mod_cancel)
  have ops2: "(of_nat (t mod 86400) :: uint64_t) div 3600 = of_nat (t mod 86400 div 3600)"
      "(of_nat (t mod 86400) :: uint64_t) mod 3600 = of_nat (t mod 3600)"
      "(of_nat (t mod 3600) :: uint64_t) div 60 = of_nat (t mod 3600 div 60)"
      "(of_nat (t mod 3600) :: uint64_t) mod 60 = of_nat (t mod 60)"
    using word_of_nat_div [OF le [OF t, of 86400], of 3600] word_of_nat_mod [OF le [OF t, of 86400], of 3600]
      word_of_nat_div [OF le [OF t, of 3600], of 60] word_of_nat_mod [OF le [OF t, of 3600], of 60]
    by (simp_all only: m) simp_all
  have w: "(4 + of_nat (t div 86400) :: uint64_t) mod 7 = of_nat ((4 + t div 86400) mod 7)"
    using word_of_nat_mod [of "4 + t div 86400" 7] n by simp
  obtain y mo d where g: "date_of_day (t div 86400) = (y, mo, d)"
      "gm_date (of_nat (t div 86400) - (31 + 28) + 719527) = (of_nat y, of_nat mo, of_nat d)"
      "y \<le> 2 ^ 41" "1 \<le> mo" "mo \<le> 12" "1 \<le> d" "d \<le> 31"
    using gm_date_nat [OF n] by metis
  have u: "(ucast (of_nat k :: uint64_t) :: uint32_t) = of_nat k" for k
    by (simp add: word_unat_eq_iff unat_ucast unat_of_nat mod_mod_cancel)
  have "ngx_gmtime (of_nat t) =
      \<lparr>ngx_tm_sec = of_nat (t mod 60), ngx_tm_min = of_nat (t mod 3600 div 60), ngx_tm_hour = of_nat (t mod 86400 div 3600),
       ngx_tm_mday = of_nat d, ngx_tm_mon = of_nat mo, ngx_tm_year = of_nat y,
       ngx_tm_wday = of_nat ((4 + t div 86400) mod 7)\<rparr>"
    unfolding ngx_gmtime_def Let_def ops ops2 w g(2) prod.case u ..
  then show thesis using that g by blast
qed

text \<open>
  C31: for every time of less than \<open>2\<^sup>5\<^sup>5\<close> seconds from the epoch on, whose years fit an \<open>int\<close>, \<open>ngx_gmtime\<close> returns the date that
  counting the days of the Gregorian calendar from January 1, 1970 gives, the time of that day and
  the day of the week.
\<close>

theorem ngx_gmtime_calendar:
  assumes "t < 2 ^ 55"
  shows "case date_of_day (t div 86400) of (y, m, d) \<Rightarrow>
    ngx_gmtime (of_nat t) =
      \<lparr>ngx_tm_sec = of_nat (t mod 60), ngx_tm_min = of_nat (t mod 3600 div 60), ngx_tm_hour = of_nat (t mod 86400 div 3600),
       ngx_tm_mday = of_nat d, ngx_tm_mon = of_nat m, ngx_tm_year = of_nat y,
       ngx_tm_wday = of_nat ((4 + t div 86400) mod 7)\<rparr>"
  by (rule gmtime_fields [OF assms]) simp

theorem ngx_gmtime_calendar_witness:
  "ngx_gmtime (of_nat 86400) = \<lparr>ngx_tm_sec = 0, ngx_tm_min = 0, ngx_tm_hour = 0, ngx_tm_mday = 2, ngx_tm_mon = 1,
     ngx_tm_year = 1970, ngx_tm_wday = 5\<rparr>"
  using ngx_gmtime_calendar [of 86400] by (simp add: month_days_def)

subsection \<open>Printing\<close>

definition week :: "bytes list" where
  "week = map bs [''Sun'', ''Mon'', ''Tue'', ''Wed'', ''Thu'', ''Fri'', ''Sat'']"

definition months :: "bytes list" where
  "months = map bs [''Jan'', ''Feb'', ''Mar'', ''Apr'', ''May'', ''Jun'', ''Jul'', ''Aug'', ''Sep'', ''Oct'', ''Nov'', ''Dec'']"

text \<open>The strings carry their terminating zero.\<close>

definition ngx_http_time :: "nat \<Rightarrow> uint64_t \<Rightarrow> bytes option" where
  "ngx_http_time buf t =
     (let tm = ngx_gmtime t in
      ngx_sprintf buf (bs ''%s, %02d %s %4d %02d:%02d:%02d GMT'' @ [0])
        [VA_chars (week ! unat (ngx_tm_wday tm) @ [0]), VA_word32 (ngx_tm_mday tm),
         VA_chars (months ! unat (ngx_tm_mon tm - 1) @ [0]), VA_word32 (ngx_tm_year tm),
         VA_word32 (ngx_tm_hour tm), VA_word32 (ngx_tm_min tm), VA_word32 (ngx_tm_sec tm)])"

definition ngx_http_cookie_time :: "nat \<Rightarrow> uint64_t \<Rightarrow> bytes option" where
  "ngx_http_cookie_time buf t =
     (let tm = ngx_gmtime t in
      ngx_sprintf buf
        (if 2037 <s ngx_tm_year tm then bs ''%s, %02d-%s-%d %02d:%02d:%02d GMT'' @ [0]
         else bs ''%s, %02d-%s-%02d %02d:%02d:%02d GMT'' @ [0])
        [VA_chars (week ! unat (ngx_tm_wday tm) @ [0]), VA_word32 (ngx_tm_mday tm),
         VA_chars (months ! unat (ngx_tm_mon tm - 1) @ [0]),
         VA_word32 (if 2037 <s ngx_tm_year tm then ngx_tm_year tm else of_int (sint (ngx_tm_year tm) smod 100)),
         VA_word32 (ngx_tm_hour tm), VA_word32 (ngx_tm_min tm), VA_word32 (ngx_tm_sec tm)])"


definition two :: "nat \<Rightarrow> bytes" where
  "two d = [digit_byte (d div 10), digit_byte (d mod 10)]"

definition four :: "nat \<Rightarrow> bytes" where
  "four y = two (y div 100) @ two (y mod 100)"

lemma decimal_two: "10 \<le> d \<Longrightarrow> d < 100 \<Longrightarrow> decimal d = two d"
  by (simp add: two_def decimal_step decimal_small)

lemma decimal_four:
  assumes "1000 \<le> y" "y < 10000"
  shows "decimal y = four y"
proof -
  have d: "y div 10 div 10 = y div 100" "y div 10 mod 10 = y mod 100 div 10" "y mod 100 mod 10 = y mod 10"
    using div_mult2_eq [of y 10 10] mod_mult2_eq [of y 10 10] by (simp_all add: mod_mod_cancel)
  have "decimal y = decimal (y div 100) @ [digit_byte (y div 10 mod 10), digit_byte (y mod 10)]"
    using assms by (simp add: decimal_step [of y] decimal_step [of "y div 10"] d)
  moreover have "decimal (y div 100) = two (y div 100)" by (rule decimal_two) (use assms in simp_all)
  ultimately show ?thesis by (simp add: four_def two_def d)
qed

lemma scast_nat:
  assumes "d < 2 ^ 31"
  shows "(scast (of_nat d :: uint32_t) :: uint64_t) = of_nat d"
proof -
  have "sint (word_of_int (int d) :: uint32_t) = int d"
    using assms by (simp only: sint_sbintrunc') (simp add: signed_take_bit_int_eq_self)
  then show ?thesis by (simp add: scast_eq)
qed

lemma sint_nat: "d < 2 ^ 31 \<Longrightarrow> \<not> sint (of_nat d :: uint64_t) < 0"
  using sint_of_int_64 [of "int d"] by simp

lemma decimal_nat: "d < 2 ^ 31 \<Longrightarrow> sprintf_digits (of_nat d) 0 = decimal d"
  by (simp add: sprintf_digits_decimal unat_of_nat)

lemma fmt_02d:
  assumes "d < 100" "length buf + 2 < lst"
  shows "ngx_vslprintf buf lst (bs ''%02d'' @ fmt) (VA_word32 (of_nat d) # args) = ngx_vslprintf (buf @ two d) lst fmt args"
proof -
  have "padded c_0 (Suc (Suc 0)) (decimal d) = two d"
    using assms(1) by (cases "d < 10") (simp_all add: padded_def decimal_two decimal_small two_def digit_byte_def)
  then show ?thesis
    using assms decimal_nat [of d] sint_nat [of d] scast_nat [of d] sprintf_num_fits [of buf c_0 "Suc (Suc 0)" "of_nat d" 0 lst]
    by (simp add: vs_run two_def)
qed

lemma fmt_4d:
  assumes "1000 \<le> y" "y < 10000" "length buf + 4 < lst"
  shows "ngx_vslprintf buf lst (bs ''%4d'' @ fmt) (VA_word32 (of_nat y) # args) = ngx_vslprintf (buf @ four y) lst fmt args"
proof -
  have "padded c_space 4 (decimal y) = four y" by (simp add: padded_def decimal_four assms four_def two_def)
  then show ?thesis
    using assms decimal_nat [of y] sint_nat [of y] scast_nat [of y] sprintf_num_fits [of buf c_space 4 "of_nat y" 0 lst]
    by (simp add: vs_run four_def two_def)
qed

lemma cstring_fits:
  "0 \<notin> set s \<Longrightarrow> length buf + length s < lst \<Longrightarrow> vs_cstring buf lst (s @ [0]) = Some (buf @ s)"
  by (induction s arbitrary: buf) auto

lemma fmt_s:
  assumes "0 \<notin> set s" "length buf + length s < lst"
  shows "ngx_vslprintf buf lst (bs ''%s'' @ fmt) (VA_chars (s @ [0]) # args) = ngx_vslprintf (buf @ s) lst fmt args"
  using assms cstring_fits [OF assms] by (simp add: vs_run)

lemma fmt_c:
  "c \<noteq> 0 \<Longrightarrow> c \<noteq> c_percent \<Longrightarrow> length buf < lst \<Longrightarrow>
    ngx_vslprintf buf lst (c # fmt) args = ngx_vslprintf (buf @ [c]) lst fmt args"
  by (simp add: ngx_vslprintf.simps)


text \<open>The fixed-length date of HTTP.\<close>

definition http_date :: "nat \<Rightarrow> bytes" where
  "http_date t =
     (case date_of_day (t div 86400) of (y, m, d) \<Rightarrow>
        week ! ((4 + t div 86400) mod 7) @ bs '', '' @ two d @ c_space # months ! (m - 1) @ c_space # four y @
        c_space # two (t mod 86400 div 3600) @ c_colon # two (t mod 3600 div 60) @ c_colon # two (t mod 60) @ bs '' GMT'')"

lemma date_of_day_year:
  assumes "n < 2932897" "date_of_day n = (y, m, d)"
  shows "1970 \<le> y \<and> y < 10000"
proof -
  let ?D = "n + 719468"
  have mono: "march_days a \<le> march_days b" if "a \<le> b" for a b
    using that by (induction rule: dec_induct) (simp_all add: march_days_Suc)
  have "?D < 2 ^ 40" using assms(1) by simp
  then obtain Y where Y: "march_days Y \<le> ?D" "?D < march_days (Suc Y)" by (rule gm_yday_nat)
  have c: "civil Y (?D - march_days Y) = (y, m, d)" using date_of_day_civil [OF Y] assms(2) by simp
  have v: "march_days 1969 = 719162" "march_days 1970 = 719527" "march_days 9999 = 3652059" "march_days 10000 = 3652425"
    by (simp_all add: march_days_def)
  have b: "1969 \<le> Y" "Y \<le> 9999"
    using mono [of "Suc Y" 1969] mono [of 10000 Y] Y v assms(1) by linarith+
  show ?thesis
  proof (cases "Y = 1969 \<or> Y = 9999")
    case True
    then show ?thesis using c v assms(1) by (auto simp: civil_def split: if_splits)
  next
    case False
    then show ?thesis using c b by (auto simp: civil_def split: if_splits)
  qed
qed

lemma week_months:
  "k < 7 \<Longrightarrow> length (week ! k) = 3 \<and> 0 \<notin> set (week ! k)"
  "k < 12 \<Longrightarrow> length (months ! k) = 3 \<and> 0 \<notin> set (months ! k)"
  by (simp_all add: week_def months_def numeral_eq_Suc less_Suc_eq) auto

lemma length_two [simp]: "length (two d) = 2"
  by (simp add: two_def)

lemma length_four [simp]: "length (four y) = 4"
  by (simp add: four_def)

lemma http_date_format:
  assumes "60 < lst" "length w = 3" "0 \<notin> set w" "length mo = 3" "0 \<notin> set mo" "1000 \<le> y" "y < 10000"
    "d < 100" "h < 100" "mi < 100" "se < 100"
  shows "ngx_vslprintf [] lst (bs ''%s, %02d %s %4d %02d:%02d:%02d GMT'' @ [0])
      [VA_chars (w @ [0]), VA_word32 (of_nat d), VA_chars (mo @ [0]), VA_word32 (of_nat y),
       VA_word32 (of_nat h), VA_word32 (of_nat mi), VA_word32 (of_nat se)] =
    Some (w @ bs '', '' @ two d @ c_space # mo @ c_space # four y @ c_space # two h @ c_colon # two mi @ c_colon # two se @ bs '' GMT'')"
proof -
  have f: "bs ''%s, %02d %s %4d %02d:%02d:%02d GMT'' @ [0] = bs ''%s'' @ c_comma # c_space # bs ''%02d'' @ c_space # bs ''%s'' @
      c_space # bs ''%4d'' @ c_space # bs ''%02d'' @ c_colon # bs ''%02d'' @ c_colon # bs ''%02d'' @ c_space # bs ''GMT'' @ [0]"
    by simp
  have e: "ngx_vslprintf buf lst (bs ''GMT'' @ [0]) [] = Some (buf @ bs ''GMT'')" if "length buf + 3 < lst" for buf
    using that by (simp add: ngx_vslprintf.simps)
  have l: "n + 3 \<le> 60 \<Longrightarrow> n < lst" "n + 3 \<le> 60 \<Longrightarrow> n + 2 < lst" "n + 3 \<le> 60 \<Longrightarrow> n + 3 < lst" "n + 4 \<le> 60 \<Longrightarrow> n + 4 < lst" for n
    using assms(1) by linarith+
  show ?thesis
    unfolding f
    by (simp add: fmt_02d fmt_4d fmt_s fmt_c e assms(2-) l del: bs_simps)
      simp
qed

lemma http_time_text:
  assumes "t < 253402300800" "buf < 2 ^ 63"
  shows "ngx_http_time buf (of_nat t) = Some (http_date t)"
proof -
  have t55: "t < 2 ^ 55" using assms(1) by simp
  obtain y m d where g: "date_of_day (t div 86400) = (y, m, d)" "1 \<le> m" "m \<le> 12" "1 \<le> d" "d \<le> 31" and "y \<le> 2 ^ 41"
    and gm: "ngx_gmtime (of_nat t) =
      \<lparr>ngx_tm_sec = of_nat (t mod 60), ngx_tm_min = of_nat (t mod 3600 div 60), ngx_tm_hour = of_nat (t mod 86400 div 3600),
       ngx_tm_mday = of_nat d, ngx_tm_mon = of_nat m, ngx_tm_year = of_nat y,
       ngx_tm_wday = of_nat ((4 + t div 86400) mod 7)\<rparr>"
    by (rule gmtime_fields [OF t55])
  have y: "1000 \<le> y" "y < 10000"
    using date_of_day_year [OF _ g(1)] assms(1) by (simp_all add: div_less_iff_less_mult)
  let ?w = "week ! ((4 + t div 86400) mod 7)" and ?m = "months ! (m - 1)"
  have w: "length ?w = 3" "0 \<notin> set ?w" "length ?m = 3" "0 \<notin> set ?m"
    using week_months(1) [of "(4 + t div 86400) mod 7"] week_months(2) [of "m - 1"] g(2,3) by simp_all
  have i: "unat (of_nat ((4 + t div 86400) mod 7) :: uint32_t) = (4 + t div 86400) mod 7"
      "unat (of_nat m - 1 :: uint32_t) = m - 1"
  proof -
    have "(4 + t div 86400) mod 7 < 7" by simp
    then have "(4 + t div 86400) mod 7 < 2 ^ 32" by (rule less_trans) simp
    then show "unat (of_nat ((4 + t div 86400) mod 7) :: uint32_t) = (4 + t div 86400) mod 7"
      by (simp only: unat_of_nat) simp
    have "(of_nat m - 1 :: uint32_t) = of_nat (m - 1)" using g(2) by (simp add: of_nat_diff)
    then show "unat (of_nat m - 1 :: uint32_t) = m - 1" using g(3) by (simp only: unat_of_nat) simp
  qed
  let ?l = "2 ^ 64 - 1 - buf"
  have l: "60 < ?l" using assms(2) by simp
  have b: "t mod 60 < 100" "t mod 3600 div 60 < 100" "t mod 86400 div 3600 < 100" "d < 100"
    using g(5) by (simp_all add: div_less_iff_less_mult less_trans [OF mod_less_divisor])
  show ?thesis
    unfolding ngx_http_time_def Let_def ngx_sprintf_def gm ngx_tm_t.simps i http_date_def g(1) prod.case
    by (rule http_date_format [OF l w y b(4,3,2,1)])
qed

end
