(* ===== verification/Ngx_Http_Parse_Time.thy ===== *)
theory Ngx_Http_Parse_Time
  imports Ngx_Time
begin

text \<open>
  \<open>http/ngx_http_parse_time.c\<close>: the parser of the three date formats of HTTP.  Every access to
  the value is checked by the model, so that a read outside of it would be a result of its own.
\<close>

subsection \<open>Parsing\<close>

datatype time_fmt = fmt_no | rfc822 | rfc850 | isoc

text \<open>The outcome of a piece of the parser: a read outside the value, \<open>return NGX_ERROR\<close>, or a result.\<close>

datatype 'a pt = PT_fault | PT_error | PT_ok 'a

primrec pt_bind :: "'a pt \<Rightarrow> ('a \<Rightarrow> 'b pt) \<Rightarrow> 'b pt" where
  "pt_bind PT_fault f = PT_fault"
| "pt_bind PT_error f = PT_error"
| "pt_bind (PT_ok x) f = f x"

definition pt_read :: "bytes \<Rightarrow> nat \<Rightarrow> u_char pt" where
  "pt_read v p = (if p < length v then PT_ok (v ! p) else PT_fault)"

text \<open>\<open>*p < '0' || *p > '9'\<close>, and the value of the digits of a field.\<close>

definition pt_digit :: "bytes \<Rightarrow> nat \<Rightarrow> uint64_t pt" where
  "pt_digit v p = pt_bind (pt_read v p) (\<lambda>c. if c < c_0 \<or> c > c_9 then PT_error else PT_ok (ucast (c - c_0)))"

definition pt_two :: "bytes \<Rightarrow> nat \<Rightarrow> uint64_t pt" where
  "pt_two v p = pt_bind (pt_digit v p) (\<lambda>a. pt_bind (pt_digit v (p + 1)) (\<lambda>b. PT_ok (a * 10 + b)))"

definition pt_four :: "bytes \<Rightarrow> nat \<Rightarrow> uint64_t pt" where
  "pt_four v p =
     pt_bind (pt_digit v p) (\<lambda>a. pt_bind (pt_digit v (p + 1)) (\<lambda>b.
     pt_bind (pt_digit v (p + 2)) (\<lambda>c. pt_bind (pt_digit v (p + 3)) (\<lambda>d.
       PT_ok (a * 1000 + b * 100 + c * 10 + d)))))"

definition pt_expect :: "bytes \<Rightarrow> nat \<Rightarrow> u_char \<Rightarrow> unit pt" where
  "pt_expect v p ch = pt_bind (pt_read v p) (\<lambda>c. if c \<noteq> ch then PT_error else PT_ok ())"

text \<open>The two loops at the start: up to the comma or the space behind the day of the week, and over spaces.\<close>

fun pt_scan :: "bytes \<Rightarrow> nat \<Rightarrow> nat \<times> time_fmt" where
  "pt_scan [] p = (p, fmt_no)"
| "pt_scan (c # s) p = (if c = c_comma then (p, fmt_no) else if c = c_space then (p, isoc) else pt_scan s (p + 1))"

fun pt_spaces :: "bytes \<Rightarrow> nat \<Rightarrow> nat" where
  "pt_spaces [] p = p"
| "pt_spaces (c # s) p = (if c \<noteq> c_space then p else pt_spaces s (p + 1))"

text \<open>The day of the month where it comes first; \<open>end - p\<close> is a signed difference.\<close>

definition pt_day :: "bytes \<Rightarrow> nat \<Rightarrow> (uint64_t \<times> time_fmt \<times> nat) pt" where
  "pt_day v p =
     pt_bind (pt_two v p) (\<lambda>day. pt_bind (pt_read v (p + 2)) (\<lambda>c.
       if c = c_space then
         if int (length v) - int (p + 2) < 18 then PT_error else PT_ok (day, rfc822, p + 3)
       else if c = c_minus then PT_ok (day, rfc850, p + 3)
       else PT_error))"

definition pt_month :: "bytes \<Rightarrow> nat \<Rightarrow> int pt" where
  "pt_month v p =
     pt_bind (pt_read v p) (\<lambda>c.
       if c = 74 \<comment> \<open>J\<close> then
         pt_bind (pt_read v (p + 1)) (\<lambda>c1. if c1 = c_a then PT_ok 0
           else pt_bind (pt_read v (p + 2)) (\<lambda>c2. PT_ok (if c2 = 110 \<comment> \<open>n\<close> then 5 else 6)))
       else if c = 70 \<comment> \<open>F\<close> then PT_ok 1
       else if c = 77 \<comment> \<open>M\<close> then pt_bind (pt_read v (p + 2)) (\<lambda>c2. PT_ok (if c2 = 114 \<comment> \<open>r\<close> then 2 else 4))
       else if c = c_A then pt_bind (pt_read v (p + 1)) (\<lambda>c1. PT_ok (if c1 = 112 \<comment> \<open>p\<close> then 3 else 7))
       else if c = 83 \<comment> \<open>S\<close> then PT_ok 8
       else if c = 79 \<comment> \<open>O\<close> then PT_ok 9
       else if c = 78 \<comment> \<open>N\<close> then PT_ok 10
       else if c = 68 \<comment> \<open>D\<close> then PT_ok 11
       else PT_error)"

text \<open>The day of the month of the format of \<open>asctime\<close>: one or two digits, with a check of what is left.\<close>

definition pt_isoc_day :: "bytes \<Rightarrow> nat \<Rightarrow> (uint64_t \<times> nat) pt" where
  "pt_isoc_day v p =
     pt_bind (pt_read v p) (\<lambda>c. let p = (if c = c_space then p + 1 else p) in
       pt_bind (pt_digit v p) (\<lambda>day. let p = p + 1 in
       pt_bind (pt_read v p) (\<lambda>c.
       pt_bind (if c \<noteq> c_space then pt_bind (pt_digit v p) (\<lambda>d. PT_ok (day * 10 + d, p + 1)) else PT_ok (day, p)) (\<lambda>(day, p).
         if int (length v) - int p < 14 then PT_error else PT_ok (day, p)))))"

text \<open>The year in front of the time of day, of the first two formats.\<close>

definition pt_year :: "bytes \<Rightarrow> nat \<Rightarrow> time_fmt \<Rightarrow> (uint64_t \<times> nat) pt" where
  "pt_year v p fmt =
     (if fmt = rfc822 then pt_bind (pt_four v p) (\<lambda>year. PT_ok (year, p + 4))
      else if fmt = rfc850 then
        pt_bind (pt_two v p) (\<lambda>year. PT_ok (year + (if year < 70 then 2000 else 1900), p + 2))
      else PT_ok (2038, p))"

text \<open>\<open>hh:mm:ss\<close>.\<close>

definition pt_clock :: "bytes \<Rightarrow> nat \<Rightarrow> (uint64_t \<times> uint64_t \<times> uint64_t) pt" where
  "pt_clock v p =
     pt_bind (pt_two v p) (\<lambda>hour. pt_bind (pt_expect v (p + 2) c_colon) (\<lambda>_.
     pt_bind (pt_two v (p + 3)) (\<lambda>minute. pt_bind (pt_expect v (p + 5) c_colon) (\<lambda>_.
     pt_bind (pt_two v (p + 6)) (\<lambda>sec. PT_ok (hour, minute, sec))))))"

text \<open>Where the date begins: behind the comma or the space after the day of the week, and the spaces.\<close>

definition pt_start :: "bytes \<Rightarrow> nat \<times> time_fmt" where
  "pt_start v = (let (p, fmt) = pt_scan v 0 in (pt_spaces (drop (p + 1) v) (p + 1), fmt))"

text \<open>From there to the time of day, for the first two formats; to the day of the month for the third.\<close>

definition pt_date :: "bytes \<Rightarrow> nat \<Rightarrow> time_fmt \<Rightarrow> (uint64_t \<times> int \<times> uint64_t \<times> time_fmt \<times> nat) pt" where
  "pt_date v p fmt =
     pt_bind (if fmt \<noteq> isoc then pt_day v p else PT_ok (32, fmt, p)) (\<lambda>(day, fmt, p).
     pt_bind (pt_month v p) (\<lambda>month.
     pt_bind (if fmt = rfc822 then pt_expect v (p + 3) c_space else if fmt = rfc850 then pt_expect v (p + 3) c_minus
       else PT_ok ()) (\<lambda>_.
     pt_bind (pt_year v (p + 4) fmt) (\<lambda>(year, p). PT_ok (year, month, day, fmt, p)))))"

definition pt_rest ::
  "bytes \<Rightarrow> uint64_t \<times> int \<times> uint64_t \<times> time_fmt \<times> nat \<Rightarrow> (uint64_t \<times> int \<times> uint64_t \<times> uint64_t \<times> uint64_t \<times> uint64_t) pt" where
  "pt_rest v = (\<lambda>(year, month, day, fmt, p).
     pt_bind (if fmt = isoc then pt_isoc_day v p else PT_ok (day, p)) (\<lambda>(day, p).
     pt_bind (pt_expect v p c_space) (\<lambda>_.
     pt_bind (pt_clock v (p + 1)) (\<lambda>(hour, minute, sec).
     pt_bind (if fmt = isoc then pt_bind (pt_expect v (p + 9) c_space) (\<lambda>_. pt_four v (p + 10)) else PT_ok year) (\<lambda>year.
       PT_ok (year, month, day, hour, minute, sec))))))"

text \<open>All the fields: year, month, day and time of day.\<close>

definition pt_fields :: "bytes \<Rightarrow> (uint64_t \<times> int \<times> uint64_t \<times> uint64_t \<times> uint64_t \<times> uint64_t) pt" where
  "pt_fields v =
     (let (p, fmt) = pt_start v in
      if int (length v) - int p < 18 then PT_error else pt_bind (pt_date v p fmt) (pt_rest v))"

definition mday :: "uint64_t list" where
  "mday = [31, 28, 31, 30, 31, 30, 31, 31, 30, 31, 30, 31]"

text \<open>The checks of the fields, and the Gauss formula.\<close>

definition pt_valid :: "uint64_t \<Rightarrow> int \<Rightarrow> uint64_t \<Rightarrow> uint64_t \<Rightarrow> uint64_t \<Rightarrow> uint64_t \<Rightarrow> bool" where
  "pt_valid year month day hour minute sec \<longleftrightarrow>
     \<not> (hour > 23 \<or> minute > 59 \<or> sec > 59) \<and>
     (if day = 29 \<and> month = 1 then \<not> (year AND 3 \<noteq> 0 \<or> (year mod 100 = 0 \<and> year mod 400 \<noteq> 0))
      else \<not> day > mday ! nat month)"

definition pt_time :: "uint64_t \<Rightarrow> int \<Rightarrow> uint64_t \<Rightarrow> uint64_t \<Rightarrow> uint64_t \<Rightarrow> uint64_t \<Rightarrow> uint64_t" where
  "pt_time year month day hour minute sec =
     (let (month, year) = (if month - 1 \<le> 0 then (month - 1 + 12, year - 1) else (month - 1, year)) in
      (365 * year + year div 4 - year div 100 + year div 400 + word_of_int (367 * month div 12 - 30)
        + day - 1 - 719527 + 31 + 28) * 86400 + hour * 3600 + minute * 60 + sec)"

definition ngx_http_parse_time :: "bytes \<Rightarrow> int option" where
  "ngx_http_parse_time v =
     (case pt_fields v of
        PT_fault \<Rightarrow> None
      | PT_error \<Rightarrow> Some NGX_ERROR
      | PT_ok (year, month, day, hour, minute, sec) \<Rightarrow>
          if pt_valid year month day hour minute sec then Some (sint (pt_time year month day hour minute sec))
          else Some NGX_ERROR)"



subsection \<open>No read outside the value\<close>

definition pt_safe :: "'a pt \<Rightarrow> ('a \<Rightarrow> bool) \<Rightarrow> bool" where
  "pt_safe m Q = (case m of PT_fault \<Rightarrow> False | PT_error \<Rightarrow> True | PT_ok x \<Rightarrow> Q x)"

lemma pt_safe_simps [simp]: "pt_safe PT_error Q" "pt_safe (PT_ok x) Q = Q x"
  by (simp_all add: pt_safe_def)

lemma pt_safe_bind: "pt_safe m P \<Longrightarrow> (\<And>x. P x \<Longrightarrow> pt_safe (f x) Q) \<Longrightarrow> pt_safe (pt_bind m f) Q"
  by (cases m) (auto simp: pt_safe_def)

lemma pt_safe_read: "p < length v \<Longrightarrow> (\<And>c. Q c) \<Longrightarrow> pt_safe (pt_read v p) Q"
  by (simp add: pt_read_def)

lemma pt_safe_pieces:
  "p < length v \<Longrightarrow> pt_safe (pt_digit v p) (\<lambda>_. True)"
  "p + 1 < length v \<Longrightarrow> pt_safe (pt_two v p) (\<lambda>_. True)"
  "p + 3 < length v \<Longrightarrow> pt_safe (pt_four v p) (\<lambda>_. True)"
  "p < length v \<Longrightarrow> pt_safe (pt_expect v p c) (\<lambda>_. True)"
  "p + 2 < length v \<Longrightarrow> pt_safe (pt_month v p) (\<lambda>_. True)"
  "p + 7 < length v \<Longrightarrow> pt_safe (pt_clock v p) (\<lambda>_. True)"
proof -
  show d: "pt_safe (pt_digit v p) (\<lambda>_. True)" if "p < length v" for p
    using that by (simp add: pt_digit_def pt_read_def)
  show t: "pt_safe (pt_two v p) (\<lambda>_. True)" if "p + 1 < length v" for p
    using that d unfolding pt_two_def by (auto intro!: pt_safe_bind [where P = "\<lambda>_. True"])
  show "pt_safe (pt_four v p) (\<lambda>_. True)" if "p + 3 < length v"
    using that d unfolding pt_four_def by (auto intro!: pt_safe_bind [where P = "\<lambda>_. True"])
  show e: "pt_safe (pt_expect v p c) (\<lambda>_. True)" if "p < length v" for p c
    using that by (simp add: pt_expect_def pt_read_def)
  show "pt_safe (pt_month v p) (\<lambda>_. True)" if "p + 2 < length v"
    using that by (simp add: pt_month_def pt_read_def)
  show "pt_safe (pt_clock v p) (\<lambda>_. True)" if "p + 7 < length v"
    using that t e unfolding pt_clock_def by (auto intro!: pt_safe_bind [where P = "\<lambda>_. True"])
qed

lemma pt_safe_day:
  assumes "p + 18 \<le> length v"
  shows "pt_safe (pt_day v p) (\<lambda>(day, fmt, p'). p' = p + 3 \<and> (fmt = rfc822 \<and> p + 20 \<le> length v \<or> fmt = rfc850))"
  unfolding pt_day_def
proof (rule pt_safe_bind)
  show "pt_safe (pt_two v p) (\<lambda>_. True)" using assms by (intro pt_safe_pieces) simp
qed (use assms in \<open>auto simp: pt_read_def\<close>)

lemma pt_safe_isoc_day:
  assumes "p + 4 \<le> length v"
  shows "pt_safe (pt_isoc_day v p) (\<lambda>(day, p'). p' + 14 \<le> length v)"
proof -
  have d: "pt_safe (pt_digit v q) (\<lambda>_. True)" if "q \<le> p + 3" for q
    using assms that by (intro pt_safe_pieces) simp
  have r: "pt_safe (pt_read v q) (\<lambda>_. True)" if "q \<le> p + 3" for q
    using assms that by (intro pt_safe_read) simp_all
  show ?thesis
    unfolding pt_isoc_day_def Let_def
    by (intro pt_safe_bind [OF r] pt_safe_bind [OF d] pt_safe_bind [where P = "\<lambda>_. True"])
      (auto intro!: pt_safe_bind [OF d])
qed

lemma pt_safe_date:
  assumes "p + 18 \<le> length v" "fmt \<noteq> rfc822" "fmt \<noteq> rfc850"
  shows "pt_safe (pt_date v p fmt) (\<lambda>(year, month, day, fmt', p').
    fmt' = isoc \<and> p' + 14 \<le> length v \<or> fmt' \<noteq> isoc \<and> p' + 9 \<le> length v)"
proof -
  let ?P = "\<lambda>(day, f, q). f = rfc822 \<and> q + 17 \<le> length v \<or> f = rfc850 \<and> q + 15 \<le> length v \<or> f = isoc \<and> q + 18 \<le> length v"
  show ?thesis
    unfolding pt_date_def
  proof (rule pt_safe_bind [where P = ?P], goal_cases)
    case 1
    have "pt_safe (pt_day v p) ?P"
      using pt_safe_day [OF assms(1)] assms(1) by (cases "pt_day v p") (auto simp: pt_safe_def)
    then show ?case using assms by simp
  next
    case (2 x)
    obtain day f q where x: "x = (day, f, q)" by (cases x)
    have q: "f = rfc822 \<and> q + 17 \<le> length v \<or> f = rfc850 \<and> q + 15 \<le> length v \<or> f = isoc \<and> q + 18 \<le> length v"
      using 2 x by simp
    have y: "pt_safe (pt_year v (q + 4) f) (\<lambda>(year, p').
        f = isoc \<and> p' + 14 \<le> length v \<or> f \<noteq> isoc \<and> p' + 9 \<le> length v)"
      using q unfolding pt_year_def
      by (auto intro!: pt_safe_bind [OF pt_safe_pieces(3)] pt_safe_bind [OF pt_safe_pieces(2)])
    have e: "pt_safe (if f = rfc822 then pt_expect v (q + 3) c_space else if f = rfc850 then pt_expect v (q + 3) c_minus
        else PT_ok ()) (\<lambda>_. True)"
      using q by (auto intro!: pt_safe_pieces(4))
    have m: "pt_safe (pt_month v q) (\<lambda>_. True)" using q by (intro pt_safe_pieces) auto
    show ?case
      unfolding x prod.case by (rule pt_safe_bind [OF m], rule pt_safe_bind [OF e], rule pt_safe_bind [OF y]) auto
  qed
qed

lemma pt_fields_safe: "pt_safe (pt_fields v) (\<lambda>_. True)"
proof -
  obtain p fmt where start: "pt_start v = (p, fmt)" by (cases "pt_start v")
  have scan: "pt_scan s n = (q, f) \<Longrightarrow> f \<noteq> rfc822 \<and> f \<noteq> rfc850" for s n q f
    by (induction s n rule: pt_scan.induct) (auto split: if_splits)
  have f: "fmt \<noteq> rfc822" "fmt \<noteq> rfc850" using start scan by (auto simp: pt_start_def split: prod.splits)
  have rest: "pt_safe (pt_rest v (year, month, day, f, q)) (\<lambda>_. True)"
    if "f = isoc \<and> q + 14 \<le> length v \<or> f \<noteq> isoc \<and> q + 9 \<le> length v" for year month day f q
    unfolding pt_rest_def prod.case
  proof (rule pt_safe_bind [where P = "\<lambda>(day, q'). f = isoc \<and> q' + 14 \<le> length v \<or> f \<noteq> isoc \<and> q' + 9 \<le> length v"], goal_cases)
    case 1
    then show ?case
      using that pt_safe_isoc_day [of q v] by (cases "pt_isoc_day v q") (auto simp: pt_safe_def)
  next
    case (2 x)
    then show ?case
      by (cases x) (auto intro!: pt_safe_bind [OF pt_safe_pieces(4)] pt_safe_bind [OF pt_safe_pieces(6)] pt_safe_bind [where P = "\<lambda>_. True"]
          pt_safe_pieces(3,4,6))
  qed
  show ?thesis
    using pt_safe_date [of p v fmt] f rest
    by (auto simp: pt_fields_def start intro!: pt_safe_bind [where P = "\<lambda>(year, month, day, fmt', p').
    fmt' = isoc \<and> p' + 14 \<le> length v \<or> fmt' \<noteq> isoc \<and> p' + 9 \<le> length v"])
qed

text \<open>
  \<open>ngx_http_parse_time\<close> reads no byte outside the value, whatever its bytes and its length: the
  tests of what is left, together with the fixed places of the fields, cover every access.
\<close>

theorem http_parse_time_in_bounds: "ngx_http_parse_time v \<noteq> None"
  using pt_fields_safe [of v] by (auto simp: ngx_http_parse_time_def pt_safe_def split: pt.splits)

subsection \<open>Parsing what was printed\<close>

lemma pt_digit_byte:
  assumes "p < length v" "v ! p = digit_byte d" "d < 10"
  shows "pt_digit v p = PT_ok (of_nat d)"
proof -
  have "c_0 \<le> digit_byte d" "digit_byte d \<le> c_9"
    using is_digit_byte [OF assms(3)] unfolding is_digit_def by auto
  then show ?thesis using assms by (simp add: pt_digit_def pt_read_def ucast_digit not_less)
qed

lemma pt_two_digits:
  assumes "p + 1 < length v" "[v ! p, v ! (p + 1)] = two d" "d < 100"
  shows "pt_two v p = PT_ok (of_nat d)"
proof -
  have "(of_nat (d div 10) * 10 + of_nat (d mod 10) :: uint64_t) = of_nat (d div 10 * 10 + d mod 10)"
    by (simp only: of_nat_add of_nat_mult of_nat_numeral)
  then show ?thesis
    using assms pt_digit_byte [of p v "d div 10"] pt_digit_byte [of "p + 1" v "d mod 10"]
    by (simp add: pt_two_def two_def)
qed

lemma pt_four_digits:
  assumes "p + 3 < length v" "[v ! p, v ! (p + 1), v ! (p + 2), v ! (p + 3)] = four y" "y < 10000"
  shows "pt_four v p = PT_ok (of_nat y)"
proof -
  have d: "y mod 100 mod 10 = y mod 10" by (simp add: mod_mod_cancel)
  have n: "y = y div 100 div 10 * 1000 + y div 100 mod 10 * 100 + y mod 100 div 10 * 10 + y mod 100 mod 10"
    using div_mult_mod_eq [of y 100] div_mult_mod_eq [of "y div 100" 10] div_mult_mod_eq [of "y mod 100" 10] by linarith
  have "(of_nat (y div 100 div 10) * 1000 + of_nat (y div 100 mod 10) * 100 + of_nat (y mod 100 div 10) * 10 +
      of_nat (y mod 100 mod 10) :: uint64_t) = of_nat y"
    by (subst (5) n) (simp only: of_nat_add of_nat_mult of_nat_numeral)
  moreover have "y div 100 < 100" "y mod 100 < 100" using assms(3) by (simp_all add: div_less_iff_less_mult)
  ultimately show ?thesis
    using assms pt_digit_byte [of p v "y div 100 div 10"] pt_digit_byte [of "p + 1" v "y div 100 mod 10"]
      pt_digit_byte [of "p + 2" v "y mod 100 div 10"] pt_digit_byte [of "p + 3" v "y mod 100 mod 10"]
    by (simp add: pt_four_def four_def two_def div_less_iff_less_mult)
qed

lemma pt_month_name:
  assumes "p + 2 < length v" "[v ! p, v ! (p + 1), v ! (p + 2)] = months ! k" "k < 12"
  shows "pt_month v p = PT_ok (int k)"
proof -
  have "k \<in> {0, 1, 2, 3, 4, 5, 6, 7, 8, 9, 10, 11}" using assms(3) by (simp; presburger)
  then show ?thesis using assms(1,2)
    by (elim insertE emptyE) (simp_all add: months_def pt_month_def pt_read_def)
qed

lemma pt_scan_skip: "c_comma \<notin> set s \<Longrightarrow> c_space \<notin> set s \<Longrightarrow> pt_scan (s @ c_comma # r) p = (p + length s, fmt_no)"
  by (induction s arbitrary: p) auto

lemma digit_not_space: "d < 10 \<Longrightarrow> digit_byte d \<noteq> c_space"
  by (simp add: digit_byte_def word_unat_eq_iff unat_of_nat unat_word_ariths)

lemma pt_fields_date:
  assumes "length w = 3" "c_comma \<notin> set w" "c_space \<notin> set w" "k < 12" "d < 100" "y < 10000" "h < 100" "mi < 100" "se < 100"
  shows "pt_fields (w @ bs '', '' @ two d @ c_space # months ! k @ c_space # four y @ c_space # two h @ c_colon # two mi @
    c_colon # two se @ bs '' GMT'') = PT_ok (of_nat y, int k, of_nat d, of_nat h, of_nat mi, of_nat se)"
    (is "pt_fields ?v = _")
proof -
  obtain a b c where w: "w = [a, b, c]" using assms(1) by (auto simp: numeral_3_eq_3 length_Suc_conv)
  obtain a' b' c' where mo: "months ! k = [a', b', c']"
    using week_months(2) [OF assms(4)] by (auto simp: numeral_3_eq_3 length_Suc_conv)
  obtain d1 d2 y1 y2 y3 y4 h1 h2 m1 m2 s1 s2 where dg: "two d = [d1, d2]" "four y = [y1, y2, y3, y4]" "two h = [h1, h2]"
      "two mi = [m1, m2]" "two se = [s1, s2]"
    by (simp add: two_def four_def)
  let ?V = "[a, b, c, c_comma, c_space, d1, d2, c_space, a', b', c', c_space, y1, y2, y3, y4, c_space, h1, h2, c_colon, m1, m2,
      c_colon, s1, s2, c_space, 71, 77, 84]"
  have v: "?v = ?V" unfolding w mo dg by simp
  have d1: "d1 \<noteq> c_space" using dg(1) digit_not_space [of "d div 10"] assms(5) by (auto simp: two_def div_less_iff_less_mult)
  have start: "pt_start ?V = (5, fmt_no)"
    using d1 assms(2,3) by (simp add: pt_start_def w)
  have two: "pt_two ?V 5 = PT_ok (of_nat d)" "pt_two ?V 17 = PT_ok (of_nat h)" "pt_two ?V 20 = PT_ok (of_nat mi)"
      "pt_two ?V 23 = PT_ok (of_nat se)"
    using pt_two_digits [of 5 ?V d] pt_two_digits [of 17 ?V h] pt_two_digits [of 20 ?V mi] pt_two_digits [of 23 ?V se] dg assms(5-9)
    by simp_all
  have m: "pt_month ?V 8 = PT_ok (int k)" using pt_month_name [of 8 ?V k] mo assms(4) by simp
  have y: "pt_four ?V 12 = PT_ok (of_nat y)" using pt_four_digits [of 12 ?V y] dg assms(6) by simp
  have r: "pt_read ?V 7 = PT_ok c_space" "pt_expect ?V 11 c_space = PT_ok ()" "pt_expect ?V 16 c_space = PT_ok ()"
      "pt_expect ?V 19 c_colon = PT_ok ()" "pt_expect ?V 22 c_colon = PT_ok ()"
    by (simp_all add: pt_read_def pt_expect_def)
  have day: "pt_day ?V 5 = PT_ok (of_nat d, rfc822, 8)" by (simp add: pt_day_def two r)
  have clock: "pt_clock ?V 17 = PT_ok (of_nat h, of_nat mi, of_nat se)" by (simp add: pt_clock_def two r)
  have date: "pt_date ?V 5 fmt_no = PT_ok (of_nat y, int k, of_nat d, rfc822, 16)"
    by (simp add: pt_date_def day m r pt_year_def y)
  show ?thesis unfolding v by (simp add: pt_fields_def start date pt_rest_def r clock)
qed

text \<open>The dates of the calendar.\<close>

definition valid_date :: "nat \<times> nat \<times> nat \<Rightarrow> bool" where
  "valid_date = (\<lambda>(y, m, d). 1 \<le> m \<and> m \<le> 12 \<and> 1 \<le> d \<and> d \<le> month_days y m)"

lemma valid_date_of_day: "valid_date (date_of_day n)"
proof (induction n)
  case (Suc n)
  then show ?case
    by (cases "date_of_day n") (auto simp: valid_date_def month_days_def)
qed (simp add: valid_date_def month_days_def)

lemma unat_and_3: "unat (u AND 3) = unat u mod 4" for u :: uint64_t
proof -
  have "u AND 3 = take_bit 2 u" by (simp add: take_bit_eq_mask mask_eq_exp_minus_1)
  then show ?thesis by (simp only: unsigned_take_bit_eq) (simp add: take_bit_eq_mod)
qed

lemma pt_valid_date:
  assumes "valid_date (y, m, d)" "y < 10000" "h < 24" "mi < 60" "se < 60"
  shows "pt_valid (of_nat y) (int (m - 1)) (of_nat d) (of_nat h) (of_nat mi) (of_nat se)"
proof -
  have m: "m \<in> {1, 2, 3, 4, 5, 6, 7, 8, 9, 10, 11, 12}" using assms(1) by (simp add: valid_date_def; presburger)
  have d: "1 \<le> d" "d \<le> month_days y m" using assms(1) by (simp_all add: valid_date_def)
  have u: "unat (of_nat k :: uint64_t) = k" if "k < 10000" for k using that by (simp add: unat_of_nat)
  have dm: "d \<le> 31" using d(2) by (simp add: month_days_def split: if_splits)
  have clock: "\<not> (of_nat h > (23 :: uint64_t) \<or> of_nat mi > (59 :: uint64_t) \<or> of_nat se > (59 :: uint64_t))"
    using assms(3-5) by (simp add: word_less_nat_alt u)
  have leap: "((of_nat y :: uint64_t) AND 3 \<noteq> 0 \<or> ((of_nat y :: uint64_t) mod 100 = 0 \<and> (of_nat y :: uint64_t) mod 400 \<noteq> 0)) \<longleftrightarrow> \<not> is_leap y"
    using assms(2) by (auto simp: word_unat_eq_iff unat_and_3 unat_mod u is_leap_def dvd_eq_mod_eq_0)
  have d29: "(of_nat d = (29 :: uint64_t)) \<longleftrightarrow> d = 29" using dm by (simp add: word_unat_eq_iff u)
  have "if of_nat d = (29 :: uint64_t) \<and> int (m - 1) = 1 then is_leap y else \<not> of_nat d > mday ! nat (int (m - 1))"
    using m d dm d29 by (elim insertE emptyE)
      (auto simp: month_days_def mday_def word_less_nat_alt u split: if_splits)
  then show ?thesis using clock leap unfolding pt_valid_def by auto
qed


lemma pt_time_date:
  assumes "date_of_day n = (y, m, d)" "n < 2932897"
  shows "pt_time (of_nat y) (int (m - 1)) (of_nat d) (of_nat h) (of_nat mi) (of_nat se) =
    of_nat (n * 86400 + h * 3600 + mi * 60 + se)"
proof -
  let ?D = "n + 719468"
  have "?D < 2 ^ 40" using assms(2) by simp
  then obtain Y where Y: "march_days Y \<le> ?D" "?D < march_days (Suc Y)" "Y < 2 ^ 41" by (rule gm_yday_nat)
  define yd where "yd = ?D - march_days Y"
  have yd: "yd < 366" using Y(1,2) by (simp add: yd_def march_days_Suc split: if_splits)
  have c: "civil Y yd = (y, m, d)" using date_of_day_civil [OF Y(1,2)] assms(1) by (simp add: yd_def)
  let ?mo = "month_of_yday yd"
  have shift: "(if int (m - 1) - 1 \<le> 0 then (int (m - 1) - 1 + 12, of_nat y - 1) else (int (m - 1) - 1, of_nat y)) =
      (int ?mo, of_nat Y :: uint64_t)"
    using yd c by (elim yday_cases) (auto simp: civil_def)
  have day: "d = yd - (367 * ?mo div 12 - 30) + 1" using c by (auto simp: civil_def mday_of_yday_def split: if_splits)
  have off: "30 \<le> 367 * ?mo div 12 \<and> 367 * ?mo div 12 - 30 \<le> yd" using yd by (elim yday_cases) simp_all
  have "367 * int ?mo div 12 - 30 = int (367 * ?mo div 12 - 30)" using off by (simp add: zdiv_int of_nat_diff)
  then have w: "(word_of_int (367 * int ?mo div 12 - 30) :: uint64_t) = of_nat (367 * ?mo div 12 - 30)" by simp
  have g: "365 * of_nat Y + of_nat Y div 4 - of_nat Y div 100 + of_nat Y div 400 = (of_nat (march_days Y) :: uint64_t)"
    using gm_march_nat [of Y] Y(3) by (simp add: gm_march_def)
  define k where "k = 367 * ?mo div 12 - 30"
  have "march_days Y + k + d = ?D + 1"
  proof -
    have "march_days Y + yd = ?D" "k \<le> yd" "d = yd - k + 1" using off Y(1) day by (simp_all add: yd_def k_def)
    then show ?thesis by linarith
  qed
  then have "(of_nat (march_days Y) + of_nat (367 * ?mo div 12 - 30) + of_nat d :: uint64_t) = of_nat (?D + 1)"
    by (simp only: of_nat_add [symmetric] k_def)
  then have days: "of_nat (march_days Y) + of_nat (367 * ?mo div 12 - 30) + of_nat d - 1 - 719527 + 31 + 28 = (of_nat n :: uint64_t)"
    by simp
  show ?thesis
    unfolding pt_time_def Let_def shift prod.case w g days by simp
qed

text \<open>
  C32: \<open>ngx_http_parse_time\<close> reads back what \<open>ngx_http_time\<close> prints: for every second from the epoch
  to the end of the year 9999 the date is printed, and it parses to that second.
\<close>

theorem http_time_roundtrip:
  assumes "t < 253402300800" "buf < 2 ^ 63"
  shows "\<exists>s. ngx_http_time buf (of_nat t) = Some s \<and> length s = 29 \<and> ngx_http_parse_time s = Some (int t)"
proof -
  obtain y m d where dt: "date_of_day (t div 86400) = (y, m, d)" by (cases "date_of_day (t div 86400)") 
  have n: "t div 86400 < 2932897" using assms(1) by (simp add: div_less_iff_less_mult)
  have y: "y < 10000" using date_of_day_year [OF n dt] by simp
  have v: "valid_date (y, m, d)" using valid_date_of_day [of "t div 86400"] dt by simp
  have d: "d < 100" "m - 1 < 12" using v by (auto simp: valid_date_def month_days_def split: if_splits)
  let ?w = "week ! ((4 + t div 86400) mod 7)"
  have wi: "(4 + t div 86400) mod 7 < 7" by simp
  have w: "c_comma \<notin> set (week ! k) \<and> c_space \<notin> set (week ! k)" if "k < 7" for k
  proof -
    have "list_all (\<lambda>s. c_comma \<notin> set s \<and> c_space \<notin> set s) week" by (simp add: week_def)
    then show ?thesis using that by (simp add: list_all_length week_def)
  qed
  let ?h = "t mod 86400 div 3600" and ?mi = "t mod 3600 div 60" and ?se = "t mod 60"
  have b: "?h < 24" "?mi < 60" "?se < 60" by (simp_all add: div_less_iff_less_mult)
  have f: "pt_fields (http_date t) = PT_ok (of_nat y, int (m - 1), of_nat d, of_nat ?h, of_nat ?mi, of_nat ?se)"
    unfolding http_date_def dt prod.case
    by (rule pt_fields_date) (use week_months(1) [OF wi] w [OF wi] d y b in auto)
  have mm: "t mod 86400 mod 3600 = t mod 3600" "t mod 3600 mod 60 = t mod 60" by (simp_all add: mod_mod_cancel)
  have sum: "t div 86400 * 86400 + ?h * 3600 + ?mi * 60 + ?se = t"
    using div_mult_mod_eq [of t 86400] div_mult_mod_eq [of "t mod 86400" 3600] div_mult_mod_eq [of "t mod 3600" 60]
    unfolding mm by linarith
  have "ngx_http_parse_time (http_date t) = Some (sint (of_nat t :: uint64_t))"
    unfolding ngx_http_parse_time_def f using pt_valid_date [OF v y b] pt_time_date [OF dt n, of ?h ?mi ?se]
    by (simp only: pt.case prod.case sum if_True)
  moreover have "sint (of_nat t :: uint64_t) = int t" using sint_of_int_64 [of "int t"] assms(1) by simp
  moreover have "length (http_date t) = 29"
    using week_months(1) [OF wi] week_months(2) [OF d(2)] by (simp add: http_date_def dt)
  ultimately show ?thesis using http_time_text [OF assms] by simp
qed

theorem http_time_roundtrip_witness:
  "\<exists>s. ngx_http_time 0 (of_nat 784111777) = Some s \<and> length s = 29 \<and> ngx_http_parse_time s = Some 784111777"
  using http_time_roundtrip [of 784111777 0] by simp

text \<open>
  A day of the month is only compared with the length of its month, so the day zero passes; the
  result is the day before the first of the month.
\<close>

theorem http_parse_time_day_zero:
  "ngx_http_parse_time (bs ''Sun, 00 Nov 1994 08:49:37 GMT'') = ngx_http_parse_time (bs ''Mon, 31 Oct 1994 08:49:37 GMT'')"
  by code_simp

end
