(* ===== verification/Ngx_Inet.thy ===== *)
theory Ngx_Inet
  imports Ngx_Printf
begin

text \<open>
  Addresses of \<open>core/ngx_inet.c\<close>: \<open>ngx_inet_addr\<close>, \<open>ngx_inet6_addr\<close>, \<open>ngx_inet_ntop\<close>,
  \<open>ngx_inet6_ntop\<close>, the IPv4 case of \<open>ngx_sock_ntop\<close>, and \<open>ngx_ptocidr\<close>.  An IPv4 address is a 32-bit word in
  network byte order on a little endian machine, an IPv6 address the list of its 16 bytes.  The
  readers are compared with the splitting of a text into fields, masks with prefixes of bits.
\<close>

subsection \<open>\<open>ngx_inet_addr\<close>\<close>

text \<open>\<open>htonl\<close> on a little endian machine.\<close>

definition htonl :: "uint32_t \<Rightarrow> uint32_t" where
  "htonl w =
     push_bit 24 (w AND 0xff) OR push_bit 16 (drop_bit 8 w AND 0xff) OR
     push_bit 8 (drop_bit 16 w AND 0xff) OR (drop_bit 24 w AND 0xff)"

definition ntohl :: "uint32_t \<Rightarrow> uint32_t" where
  "ntohl w = htonl w"

definition INADDR_NONE :: uint32_t where
  "INADDR_NONE = 0xffffffff"

fun inet_addr_loop :: "bytes \<Rightarrow> uint32_t \<Rightarrow> uint64_t \<Rightarrow> nat \<Rightarrow> uint32_t" where
  "inet_addr_loop [] addr octet n =
     (if n = 3 \<and> octet < 256 then htonl (push_bit 8 addr + ucast octet) else INADDR_NONE)"
| "inet_addr_loop (c # str) addr octet n =
     (if c \<ge> c_0 \<and> c \<le> c_9 then inet_addr_loop str addr (octet * 10 + ucast (c - c_0)) n
      else if c = c_dot \<and> octet < 256 then inet_addr_loop str (push_bit 8 addr + ucast octet) 0 (n + 1)
      else INADDR_NONE)"

definition ngx_inet_addr :: "bytes \<Rightarrow> uint32_t" where
  "ngx_inet_addr str = inet_addr_loop str 0 0 0"

subsection \<open>\<open>ngx_inet_ntop\<close>\<close>

text \<open>The bytes of an address in memory.\<close>

definition addr_bytes :: "uint32_t \<Rightarrow> bytes" where
  "addr_bytes a = [ucast a, ucast (drop_bit 8 a), ucast (drop_bit 16 a), ucast (drop_bit 24 a)]"

definition ngx_inet_ntop :: "bytes \<Rightarrow> nat \<Rightarrow> bytes option" where
  "ngx_inet_ntop p len =
     ngx_snprintf len (bs ''%ud.%ud.%ud.%ud'' @ [0])
       [VA_word32 (ucast (p ! 0)), VA_word32 (ucast (p ! 1)), VA_word32 (ucast (p ! 2)), VA_word32 (ucast (p ! 3))]"

subsection \<open>What is accepted\<close>

text \<open>The specification: the dotted fields of a text.\<close>

fun dotted :: "bytes \<Rightarrow> bytes list" where
  "dotted [] = [[]]"
| "dotted (c # s) = (if c = c_dot then [] # dotted s else (c # hd (dotted s)) # tl (dotted s))"

definition octet_ok :: "bytes \<Rightarrow> bool" where
  "octet_ok s \<longleftrightarrow> list_all is_digit s \<and> dec_value s mod 2 ^ 64 < 256"

definition octet_value :: "bytes \<Rightarrow> nat" where
  "octet_value s = dec_value s mod 2 ^ 64"

definition inet_spec :: "bytes \<Rightarrow> uint32_t" where
  "inet_spec str =
     (let fs = dotted str in
      if length fs = 4 \<and> list_all octet_ok fs
      then htonl (of_nat (foldl (\<lambda>a f. a * 256 + octet_value f) 0 fs)) else INADDR_NONE)"

lemma dotted_nonempty [simp]: "dotted s \<noteq> []"
  by (induction s) auto

lemma dotted_digits: "list_all is_digit s \<Longrightarrow> dotted s = [s]"
  by (induction s) (auto simp: is_digit_def)

lemma ucast_octet: "octet < 256 \<Longrightarrow> (ucast (octet :: uint64_t) :: uint32_t) = of_nat (unat octet)"
  by (simp add: word_unat_eq_iff unat_ucast unat_of_nat)

lemma octet_word: "(of_nat n :: uint64_t) < 256 \<longleftrightarrow> n mod 2 ^ 64 < 256"
  by (simp add: word_less_nat_alt unat_of_nat)

lemma ucast_octet_value:
  "octet_ok s \<Longrightarrow> (ucast (of_nat (dec_value s) :: uint64_t) :: uint32_t) = of_nat (octet_value s)"
  by (simp add: octet_ok_def octet_value_def word_unat_eq_iff unat_ucast unat_of_nat)

definition inet_value :: "bytes list \<Rightarrow> nat" where
  "inet_value fs = foldl (\<lambda>a f. a * 256 + octet_value f) 0 fs"

lemma inet_value_snoc: "inet_value (fs @ [f]) = inet_value fs * 256 + octet_value f"
  by (simp add: inet_value_def)

lemma inet_addr_loop_spec:
  assumes "list_all is_digit pre" "list_all octet_ok done_fields"
  shows "inet_addr_loop str (of_nat (inet_value done_fields)) (of_nat (dec_value pre)) (length done_fields) =
    (let fs = done_fields @ (pre @ hd (dotted str)) # tl (dotted str) in
     if length fs = 4 \<and> list_all octet_ok fs then htonl (of_nat (inet_value fs)) else INADDR_NONE)"
  using assms
proof (induction str arbitrary: pre done_fields)
  case Nil
  have "octet_ok pre \<longleftrightarrow> (of_nat (dec_value pre) :: uint64_t) < 256"
    using Nil.prems(1) by (simp add: octet_ok_def octet_word)
  moreover have "octet_ok pre \<Longrightarrow> push_bit 8 (of_nat (inet_value done_fields)) + ucast (of_nat (dec_value pre) :: uint64_t) =
      (of_nat (inet_value (done_fields @ [pre])) :: uint32_t)"
    by (simp add: ucast_octet_value inet_value_snoc push_bit_eq_mult)
  ultimately show ?case using Nil.prems(2) by auto
next
  case (Cons c str)
  consider (digit) "is_digit c" | (dot) "c = c_dot" | (other) "\<not> is_digit c" "c \<noteq> c_dot" by blast
  then show ?case
  proof cases
    case digit
    then have "(of_nat (dec_value pre) * 10 + ucast (c - c_0) :: uint64_t) = of_nat (dec_value (pre @ [c]))"
      by (simp add: ucast_digit pos_value_def)
    moreover have "c \<noteq> c_dot" using digit by (auto simp: is_digit_def)
    ultimately show ?thesis
      using Cons.IH [of "pre @ [c]" done_fields] Cons.prems digit by (simp add: is_digit_def)
  next
    case dot
    show ?thesis
    proof (cases "octet_ok pre")
      case True
      then have "push_bit 8 (of_nat (inet_value done_fields)) + ucast (of_nat (dec_value pre) :: uint64_t) =
          (of_nat (inet_value (done_fields @ [pre])) :: uint32_t)"
        by (simp add: ucast_octet_value inet_value_snoc push_bit_eq_mult)
      then show ?thesis
        using Cons.IH [of "[]" "done_fields @ [pre]"] Cons.prems True dot
        by (simp add: octet_ok_def octet_word Let_def)
    next
      case False
      then show ?thesis using Cons.prems dot by (auto simp: octet_ok_def octet_word Let_def)
    qed
  next
    case other
    then have "\<not> octet_ok (pre @ hd (dotted (c # str)))" by (simp add: octet_ok_def)
    then show ?thesis using other by (auto simp: is_digit_def Let_def)
  qed
qed

lemma inet_addr_is_spec: "ngx_inet_addr str = inet_spec str"
  using inet_addr_loop_spec [of "[]" "[]" str]
  by (simp add: ngx_inet_addr_def inet_spec_def inet_value_def Let_def)

text \<open>
  \<open>ngx_inet_addr\<close> accepts a text exactly when it has four dotted fields of digits each of whose
  values, reduced modulo the width of the accumulator, is below 256, and returns the address they
  form.  An empty field counts as zero, and a field of a multiple of \<open>2 ^ 64\<close> wraps to an octet.
\<close>

theorem ngx_inet_addr_spec: "ngx_inet_addr str = inet_spec str"
  by (rule inet_addr_is_spec)

subsection \<open>Printing and reading back\<close>

lemma decimal_byte: "length (decimal (unat (b :: u_char))) \<le> 3"
  using length_decimal [of "unat b" 3] unat_u_char_less [of b] by simp

lemma fmt_ud:
  assumes "length buf + 3 \<le> lst"
  shows "ngx_vslprintf buf lst (bs ''%ud'' @ fmt) (VA_word32 (ucast (b :: u_char)) # args) =
    ngx_vslprintf (buf @ decimal (unat b)) lst fmt args"
proof -
  have u: "unat (ucast (ucast b :: uint32_t) :: uint64_t) = unat b"
    by (simp add: unat_ucast less_trans [OF unat_u_char_less])
  then show ?thesis
    using assms decimal_byte [of b] sprintf_num_fits [of buf c_space 0 "ucast (ucast b :: uint32_t)" 0 lst]
    by (simp add: vs_run padded_def)
qed

lemma fmt_dot: "length buf < lst \<Longrightarrow> ngx_vslprintf buf lst (c_dot # fmt) args = ngx_vslprintf (buf @ [c_dot]) lst fmt args"
  by (simp add: ngx_vslprintf.simps)

definition dotted_quad :: "bytes \<Rightarrow> bytes" where
  "dotted_quad p = decimal (unat (p ! 0)) @ c_dot # decimal (unat (p ! 1)) @ c_dot # decimal (unat (p ! 2)) @
     c_dot # decimal (unat (p ! 3))"

lemma ngx_inet_ntop_quad:
  assumes "15 \<le> len"
  shows "ngx_inet_ntop p len = Some (dotted_quad p)"
proof -
  have f: "bs ''%ud.%ud.%ud.%ud'' @ [0] = bs ''%ud'' @ c_dot # bs ''%ud'' @ c_dot # bs ''%ud'' @ c_dot # bs ''%ud'' @ [0]"
    by simp
  have l: "length (decimal (unat (p ! 0))) \<le> 3" "length (decimal (unat (p ! 1))) \<le> 3" "length (decimal (unat (p ! 2))) \<le> 3"
    by (rule decimal_byte)+
  have e: "ngx_vslprintf buf len [0] [] = Some buf" for buf by (simp add: ngx_vslprintf.simps)
  show ?thesis
    unfolding ngx_inet_ntop_def ngx_snprintf_def f
    using assms l by (simp add: fmt_ud fmt_dot e dotted_quad_def del: bs_simps)
qed

lemma dotted_join: "list_all is_digit s \<Longrightarrow> dotted (s @ c_dot # r) = s # dotted r"
  by (induction s) (auto simp: is_digit_def)

lemma octet_decimal: "octet_ok (decimal (unat (b :: u_char)))" "octet_value (decimal (unat (b :: u_char))) = unat b"
proof -
  have "unat b mod 2 ^ 64 = unat b" by (rule mod_less) (rule less_trans [OF unat_u_char_less], simp)
  then show "octet_ok (decimal (unat b))" "octet_value (decimal (unat b)) = unat b"
    by (simp_all only: octet_ok_def octet_value_def dec_value_decimal list_all_decimal unat_u_char_less simp_thms)
qed

lemma push_bit_add: "push_bit 8 (u :: uint32_t) + ucast (b :: u_char) = push_bit 8 u OR ucast b"
  by (rule disjunctive_add) (auto simp: bit_simps)

lemma byte_index:
  assumes "n < 32"
  obtains q k where "n = 8 * q + k" "k < 8" "q \<in> {0, 1, 2, 3 :: nat}"
proof
  show "n = 8 * (n div 8) + n mod 8" "n mod 8 < 8" by simp_all
  have "n div 8 < 4" using assms by (simp add: div_less_iff_less_mult)
  then show "n div 8 \<in> {0, 1, 2, 3}" by auto
qed

lemma htonl_bytes:
  "htonl (push_bit 8 (push_bit 8 (push_bit 8 (ucast (b0 :: u_char)) OR ucast (b1 :: u_char)) OR ucast (b2 :: u_char)) OR ucast (b3 :: u_char)) =
    ucast b0 OR push_bit 8 (ucast b1) OR push_bit 16 (ucast b2) OR push_bit 24 (ucast b3)" (is "?l = ?r")
proof (rule bit_word_eqI)
  fix n assume "n < LENGTH(32)"
  then obtain q k where n: "n = 8 * q + k" "k < 8" "q \<in> {0, 1, 2, 3 :: nat}" using byte_index by auto
  have m: "(0xff :: uint32_t) = mask 8" by (simp add: mask_eq_exp_minus_1)
  show "bit ?l n \<longleftrightarrow> bit ?r n" using n(3) unfolding n(1) htonl_def m
    by (elim insertE emptyE) (use n(2) in \<open>simp_all add: bit_simps\<close>)
qed

lemma addr_bytes_join:
  "ucast (addr_bytes a ! 0) OR push_bit 8 (ucast (addr_bytes a ! 1)) OR push_bit 16 (ucast (addr_bytes a ! 2)) OR
    push_bit 24 (ucast (addr_bytes a ! 3)) = a" (is "?l = _")
proof (rule bit_word_eqI)
  fix n assume "n < LENGTH(32)"
  then obtain q k where n: "n = 8 * q + k" "k < 8" "q \<in> {0, 1, 2, 3 :: nat}" using byte_index by auto
  show "bit ?l n \<longleftrightarrow> bit a n" using n(3) unfolding n(1)
    by (elim insertE emptyE) (use n(2) in \<open>simp_all add: addr_bytes_def bit_simps\<close>)
qed

lemma inet_addr_quad: "ngx_inet_addr (dotted_quad (addr_bytes a)) = a"
proof -
  let ?b = "\<lambda>i. addr_bytes a ! i"
  have d: "dotted (dotted_quad (addr_bytes a)) = map (\<lambda>i. decimal (unat (?b i))) [0, 1, 2, 3]"
    by (simp add: dotted_quad_def dotted_join dotted_digits)
  have v: "(of_nat (foldl (\<lambda>x f. x * 256 + octet_value f) 0 (map (\<lambda>i. decimal (unat (?b i))) [0, 1, 2, 3])) :: uint32_t) =
      push_bit 8 (push_bit 8 (push_bit 8 (ucast (?b 0)) + ucast (?b 1)) + ucast (?b 2)) + ucast (?b 3)"
    by (simp add: octet_decimal push_bit_eq_mult)
  show ?thesis
    unfolding inet_addr_is_spec inet_spec_def d Let_def v unfolding push_bit_add htonl_bytes addr_bytes_join
    by (simp add: octet_decimal)
qed

text \<open>
  In a buffer of \<open>NGX_INET_ADDRSTRLEN\<close> bytes \<open>ngx_inet_ntop\<close> prints every IPv4 address in full, and
  \<open>ngx_inet_addr\<close> reads the text back as that address.
\<close>

theorem inet_addr_roundtrip:
  "\<exists>s. ngx_inet_ntop (addr_bytes a) 15 = Some s \<and> ngx_inet_addr s = a"
  using ngx_inet_ntop_quad [of 15 "addr_bytes a"] inet_addr_quad [of a] by simp

subsection \<open>\<open>ngx_inet6_addr\<close>\<close>

text \<open>
  \<open>addr\<close> is the list of the bytes written, \<open>zero\<close> an offset in it, and \<open>digit\<close>, a pointer into the
  text with the length of what follows, the rest of the text behind the last colon.
\<close>

record inet6_vars =
  i6_out :: bytes
  i6_n :: nat
  i6_nibbles :: nat
  i6_word :: uint64_t
  i6_zero :: "nat option"
  i6_digit :: "bytes option"

definition i6_put :: "inet6_vars \<Rightarrow> inet6_vars" where
  "i6_put v = v\<lparr>i6_out := i6_out v @ [ucast (drop_bit 8 (i6_word v)), ucast (i6_word v AND 0xff)]\<rparr>"

fun inet6_loop :: "bytes \<Rightarrow> inet6_vars \<Rightarrow> inet6_vars option" where
  "inet6_loop [] v = Some v"
| "inet6_loop (c # p) v =
     (if c = c_colon then
        if i6_nibbles v \<noteq> 0 then
          let v = (i6_put v)\<lparr>i6_digit := Some p, i6_n := i6_n v - 1\<rparr> in
          if i6_n v \<noteq> 0 then inet6_loop p (v\<lparr>i6_nibbles := 0, i6_word := 0\<rparr>) else None
        else if i6_zero v = None then
          inet6_loop p (v\<lparr>i6_digit := Some p, i6_zero := Some (length (i6_out v))\<rparr>)
        else None
      else if c = c_dot \<and> i6_nibbles v \<noteq> 0 then
        case i6_digit v of
          None \<Rightarrow> None
        | Some digit \<Rightarrow>
            if i6_n v < 2 \<or> ngx_inet_addr digit = INADDR_NONE then None
            else
              let word = ntohl (ngx_inet_addr digit) in
              Some (v\<lparr>i6_out := i6_out v @ [ucast (drop_bit 24 word AND 0xff), ucast (drop_bit 16 word AND 0xff)],
                i6_n := i6_n v - 1, i6_word := ucast word\<rparr>)
      else
        let v = v\<lparr>i6_nibbles := i6_nibbles v + 1\<rparr> in
        if i6_nibbles v > 4 then None
        else if c \<ge> c_0 \<and> c \<le> c_9 then inet6_loop p (v\<lparr>i6_word := i6_word v * 16 + ucast (c - c_0)\<rparr>)
        else
          let c = c OR 0x20 in
          if c \<ge> c_a \<and> c \<le> c_f then inet6_loop p (v\<lparr>i6_word := i6_word v * 16 + ucast (c - c_a) + 10\<rparr>)
          else None)"

text \<open>The last group, and the bytes behind \<open>::\<close> moved to the end of the address.\<close>

definition inet6_finish :: "inet6_vars \<Rightarrow> bytes option" where
  "inet6_finish v =
     (if i6_nibbles v = 0 \<and> i6_zero v = None then None
      else
        let v = (i6_put v)\<lparr>i6_n := i6_n v - 1\<rparr> in
        if i6_n v \<noteq> 0 then
          case i6_zero v of
            Some zero \<Rightarrow> Some (take zero (i6_out v) @ replicate (i6_n v * 2) 0 @ drop zero (i6_out v))
          | None \<Rightarrow> None
        else if i6_zero v = None then Some (i6_out v) else None)"

definition inet6_init :: inet6_vars where
  "inet6_init = \<lparr>i6_out = [], i6_n = 8, i6_nibbles = 0, i6_word = 0, i6_zero = None, i6_digit = None\<rparr>"

definition ngx_inet6_addr :: "bytes \<Rightarrow> bytes option" where
  "ngx_inet6_addr p =
     (if p = [] then None
      else case inet6_loop (if p ! 0 = c_colon then tl p else p) inet6_init of
          None \<Rightarrow> None
        | Some v \<Rightarrow> inet6_finish v)"

subsection \<open>\<open>ngx_inet6_ntop\<close>\<close>

text \<open>The search for the longest run of zero groups: \<open>zero\<close>, \<open>last\<close>, \<open>max\<close> and \<open>n\<close>.\<close>

record ntop6_vars =
  n6_zero :: "nat option"
  n6_last :: nat
  n6_max :: nat
  n6_n :: nat

definition ntop6_close :: "ntop6_vars \<Rightarrow> ntop6_vars" where
  "ntop6_close v = (if n6_max v < n6_n v then v\<lparr>n6_zero := Some (n6_last v), n6_max := n6_n v\<rparr> else v)"

fun ntop6_scan :: "bytes \<Rightarrow> nat \<Rightarrow> ntop6_vars \<Rightarrow> ntop6_vars" where
  "ntop6_scan (a # b # p) i v =
     (if a \<noteq> 0 \<or> b \<noteq> 0 then ntop6_scan p (i + 2) ((ntop6_close v)\<lparr>n6_n := 0\<rparr>)
      else ntop6_scan p (i + 2) (v\<lparr>n6_n := n6_n v + 1, n6_last := (if n6_n v = 0 then i else n6_last v)\<rparr>))"
| "ntop6_scan _ i v = ntop6_close v"

text \<open>
  \<open>p[i] * 256 + p[i + 1]\<close> is an \<open>int\<close>, which \<open>%uxi\<close> reads as an \<open>ngx_uint_t\<close>; the model passes it at
  that width.
\<close>

definition ntop6_group :: "bytes \<Rightarrow> nat \<Rightarrow> bytes option" where
  "ntop6_group p i = ngx_sprintf 0 (bs ''%uxi'' @ [0]) [VA_word64 (ucast (p ! i) * 256 + ucast (p ! (i + 1)))]"

function ntop6_loop :: "bytes \<Rightarrow> nat \<Rightarrow> nat option \<Rightarrow> nat \<Rightarrow> nat \<Rightarrow> bytes \<Rightarrow> bytes option" where
  "ntop6_loop p n zero mx i dst =
     (if i < n then
        if zero = Some i then ntop6_loop p n zero mx (i + (mx - 1) * 2 + 2) (dst @ [c_colon])
        else
          case ntop6_group p i of
            None \<Rightarrow> None
          | Some g \<Rightarrow> ntop6_loop p n zero mx (i + 2) (if i < 14 then dst @ g @ [c_colon] else dst @ g)
      else Some dst)"
  by pat_completeness auto
termination by (relation "measure (\<lambda>(p, n, zero, mx, i, dst). n - i)") auto

declare ntop6_loop.simps [simp del]

definition NGX_INET6_ADDRSTRLEN :: nat where
  "NGX_INET6_ADDRSTRLEN = length ''ffff:ffff:ffff:ffff:ffff:ffff:255.255.255.255''"

text \<open>Which addresses are printed with a dotted end.\<close>

definition ntop6_mapped :: "bytes \<Rightarrow> nat \<Rightarrow> bool" where
  "ntop6_mapped p mx \<longleftrightarrow>
     (mx = 5 \<and> p ! 10 = 0xff \<and> p ! 11 = 0xff) \<or> mx = 6 \<or> (mx = 7 \<and> p ! 14 \<noteq> 0 \<and> p ! 15 \<noteq> 1)"

definition ngx_inet6_ntop :: "bytes \<Rightarrow> nat \<Rightarrow> bytes option" where
  "ngx_inet6_ntop p len =
     (if len < NGX_INET6_ADDRSTRLEN then Some []
      else
        let v = ntop6_scan p 0 \<lparr>n6_zero = None, n6_last = 0, n6_max = 1, n6_n = 0\<rparr>;
            n = (if n6_zero v = Some 0 \<and> ntop6_mapped p (n6_max v) then 12 else 16);
            dst = (if n6_zero v = Some 0 then [c_colon] else [])
        in case ntop6_loop p n (n6_zero v) (n6_max v) 0 dst of
            None \<Rightarrow> None
          | Some dst \<Rightarrow>
              if n = 12 then
                map_option ((@) dst) (ngx_sprintf 0 (bs ''%ud.%ud.%ud.%ud'' @ [0])
                  [VA_word32 (ucast (p ! 12)), VA_word32 (ucast (p ! 13)), VA_word32 (ucast (p ! 14)), VA_word32 (ucast (p ! 15))])
              else Some dst)"

subsection \<open>\<open>ngx_sock_ntop\<close>\<close>

text \<open>
  The families of \<open>struct sockaddr\<close>: an IPv4 address and a port, both in network byte order; the
  bytes of an IPv6 address and a port; the bytes readable from \<open>sun_path\<close>.
\<close>

datatype sockaddr = AF_INET uint32_t "16 word" | AF_INET6 bytes "16 word" | AF_UNIX bytes | AF_OTHER

definition ntohs :: "16 word \<Rightarrow> uint32_t" where
  "ntohs w = ucast (push_bit 8 w OR drop_bit 8 w)"

text \<open>The text written, and the length returned.\<close>

definition ngx_sock_ntop :: "sockaddr \<Rightarrow> nat \<Rightarrow> bool \<Rightarrow> (bytes \<times> uint64_t) option" where
  "ngx_sock_ntop sa len port =
     (case sa of
        AF_INET sin_addr sin_port \<Rightarrow>
          let p = addr_bytes sin_addr in
          map_option (\<lambda>s. (s, of_nat (length s)))
            (if port then
               ngx_snprintf len (bs ''%ud.%ud.%ud.%ud:%d'' @ [0])
                 [VA_word32 (ucast (p ! 0)), VA_word32 (ucast (p ! 1)), VA_word32 (ucast (p ! 2)), VA_word32 (ucast (p ! 3)),
                  VA_word32 (ntohs sin_port)]
             else
               ngx_snprintf len (bs ''%ud.%ud.%ud.%ud'' @ [0])
                 [VA_word32 (ucast (p ! 0)), VA_word32 (ucast (p ! 1)), VA_word32 (ucast (p ! 2)), VA_word32 (ucast (p ! 3))])
      | AF_INET6 sin6_addr sin6_port \<Rightarrow>
          (case ngx_inet6_ntop sin6_addr len of
             None \<Rightarrow> None
           | Some s \<Rightarrow>
               if port then
                 (case ngx_sprintf 0 (bs '']:%d'' @ [0]) [VA_word32 (ntohs sin6_port)] of
                    None \<Rightarrow> None
                  | Some t \<Rightarrow> let text' = bs ''['' @ s @ t in Some (text', of_nat (length text')))
               else Some (s, of_nat (length s)))
      | AF_UNIX sun_path \<Rightarrow>
          map_option (\<lambda>s. (s, of_nat (length s) - 1)) (ngx_snprintf len (bs ''unix:%s%Z'' @ [0]) [VA_chars sun_path])
      | AF_OTHER \<Rightarrow> Some ([], 0))"

subsection \<open>\<open>ngx_ptocidr\<close>\<close>

datatype ngx_cidr_t = CIDR_in uint32_t uint32_t | CIDR_in6 bytes bytes

text \<open>\<open>ngx_strlchr\<close>, as the bytes before the character and, where it is found, those behind it.\<close>

fun ngx_strlchr :: "bytes \<Rightarrow> u_char \<Rightarrow> bytes \<times> bytes option" where
  "ngx_strlchr [] ch = ([], None)"
| "ngx_strlchr (c # p) ch =
     (if c = ch then ([], Some p) else (case ngx_strlchr p ch of (a, b) \<Rightarrow> (c # a, b)))"

fun cidr_mask6 :: "nat \<Rightarrow> nat \<Rightarrow> bytes" where
  "cidr_mask6 0 shift = []"
| "cidr_mask6 (Suc n) shift =
     (let s = (if shift > 8 then 8 else shift) in ucast (push_bit (8 - s) (0xff :: uint32_t)) # cidr_mask6 n (shift - s))"

definition ngx_ptocidr :: "bytes \<Rightarrow> int \<times> ngx_cidr_t option" where
  "ngx_ptocidr str =
     (let (addr, bits) = ngx_strlchr str c_slash;
          shift = (case bits of None \<Rightarrow> NGX_OK | Some d \<Rightarrow> ngx_atoi d)
      in if ngx_inet_addr addr \<noteq> INADDR_NONE then
           if bits = None then (NGX_OK, Some (CIDR_in (ngx_inet_addr addr) 0xffffffff))
           else if shift = NGX_ERROR then (NGX_ERROR, None)
           else if shift > 32 then (NGX_ERROR, None)
           else
             let m = (if shift \<noteq> 0 then htonl (push_bit (nat (32 - shift)) 0xffffffff) else 0) in
             if ngx_inet_addr addr = (ngx_inet_addr addr AND m) then (NGX_OK, Some (CIDR_in (ngx_inet_addr addr) m))
             else (NGX_DONE, Some (CIDR_in (ngx_inet_addr addr AND m) m))
         else
           case ngx_inet6_addr addr of
             None \<Rightarrow> (NGX_ERROR, None)
           | Some a \<Rightarrow>
               if bits = None then (NGX_OK, Some (CIDR_in6 a (replicate 16 0xff)))
               else if shift = NGX_ERROR then (NGX_ERROR, None)
               else if shift > 128 then (NGX_ERROR, None)
               else
                 let m = cidr_mask6 16 (nat shift); b = map2 (AND) a m in
                 (if b = a then NGX_OK else NGX_DONE, Some (CIDR_in6 b m)))"

subsection \<open>Networks\<close>

lemma strlchr_split: "ch \<notin> set a \<Longrightarrow> ngx_strlchr (a @ ch # b) ch = (a, Some b)"
  by (induction a) auto

lemma htonl_htonl: "htonl (htonl w) = w"
proof (rule bit_word_eqI)
  fix n assume "n < LENGTH(32)"
  then obtain q k where n: "n = 8 * q + k" "k < 8" "q \<in> {0, 1, 2, 3 :: nat}" using byte_index by auto
  have m: "(0xff :: uint32_t) = mask 8" by (simp add: mask_eq_exp_minus_1)
  show "bit (htonl (htonl w)) n \<longleftrightarrow> bit w n" using n(3) unfolding n(1) htonl_def m
    by (elim insertE emptyE) (use n(2) in \<open>simp_all add: bit_simps\<close>)
qed

lemma htonl_and: "htonl (a AND b) = htonl a AND htonl b"
proof (rule bit_word_eqI)
  fix n assume "n < LENGTH(32)"
  then obtain q k where n: "n = 8 * q + k" "k < 8" "q \<in> {0, 1, 2, 3 :: nat}" using byte_index by auto
  have m: "(0xff :: uint32_t) = mask 8" by (simp add: mask_eq_exp_minus_1)
  show "bit (htonl (a AND b)) n \<longleftrightarrow> bit (htonl a AND htonl b) n" using n(3) unfolding n(1) htonl_def m
    by (elim insertE emptyE) (use n(2) in \<open>simp_all add: bit_simps\<close>)
qed

lemma htonl_inject: "htonl a = htonl b \<longleftrightarrow> a = b"
  by (metis htonl_htonl)

lemma and_high: "v AND push_bit k (- 1) = push_bit k (drop_bit k v)" for v :: uint32_t
  by (rule bit_word_eqI) (auto simp: bit_simps)

lemma and_high_bits:
  "(u :: uint32_t) AND push_bit k (- 1) = w AND push_bit k (- 1) \<longleftrightarrow> drop_bit k u = drop_bit k w"
proof -
  have "drop_bit k (push_bit k (drop_bit k v)) = drop_bit k v" for v :: uint32_t
    by (rule bit_word_eqI) (auto simp: bit_simps dest: bit_imp_le_length)
  then show ?thesis unfolding and_high by metis
qed

text \<open>The network mask of a prefix length, in network order.\<close>

definition cidr_mask :: "nat \<Rightarrow> uint32_t" where
  "cidr_mask bits = (if bits \<noteq> 0 then htonl (push_bit (32 - bits) 0xffffffff) else 0)"

lemma htonl_cidr_mask: "bits \<le> 32 \<Longrightarrow> htonl (cidr_mask bits) = push_bit (32 - bits) (- 1)"
proof (cases "bits = 0")
  case True
  have "push_bit 32 (- 1) = (0 :: uint32_t)" by (rule bit_word_eqI) (auto simp: bit_simps)
  then show ?thesis using True by (simp add: cidr_mask_def htonl_def)
next
  case False
  have full: "(0xffffffff :: uint32_t) = - 1" by simp
  show ?thesis using False by (simp only: cidr_mask_def htonl_htonl full) (simp add: htonl_htonl)
qed

lemma ntohl_cidr: "bits \<le> 32 \<Longrightarrow> ntohl (x AND cidr_mask bits) = push_bit (32 - bits) (drop_bit (32 - bits) (ntohl x))"
  by (simp only: ntohl_def htonl_and htonl_cidr_mask and_high)

lemma cidr_mask_and:
  assumes "bits \<le> 32"
  shows "x AND cidr_mask bits = y AND cidr_mask bits \<longleftrightarrow> drop_bit (32 - bits) (ntohl x) = drop_bit (32 - bits) (ntohl y)"
  using htonl_inject [of "x AND cidr_mask bits" "y AND cidr_mask bits"] and_high_bits [of "ntohl x" "32 - bits" "ntohl y"]
  by (simp only: ntohl_def htonl_and htonl_cidr_mask [OF assms])

lemma cidr_mask_all:
  assumes "bits \<le> 32"
  shows "a AND cidr_mask bits = a \<longleftrightarrow> take_bit (32 - bits) (ntohl a) = 0"
proof -
  let ?k = "32 - bits"
  have "take_bit ?k (ntohl a) = 0 \<longleftrightarrow> ntohl a = push_bit ?k (drop_bit ?k (ntohl a))"
    by (metis add.right_neutral add_left_cancel bits_ident)
  then show ?thesis
    using htonl_inject [of "a AND cidr_mask bits" a] ntohl_cidr [OF assms, of a] unfolding ntohl_def by metis
qed

lemma ngx_ptocidr_eq:
  assumes "c_slash \<notin> set net" "ngx_inet_addr net = a" "a \<noteq> INADDR_NONE" "ngx_atoi ds = int bits" "bits \<le> 32"
  shows "ngx_ptocidr (net @ c_slash # ds) =
    (if take_bit (32 - bits) (ntohl a) = 0 then NGX_OK else NGX_DONE, Some (CIDR_in (a AND cidr_mask bits) (cidr_mask bits)))"
  unfolding cidr_mask_all [OF assms(5), symmetric] using assms by (auto simp: ngx_ptocidr_def strlchr_split cidr_mask_def Let_def nat_diff_distrib)

text \<open>
  A network in prefix notation, an IPv4 address and a number of bits up to 32, becomes an address
  and a mask such that the test \<open>(x & mask) == addr\<close> of the access rules holds for exactly the
  addresses that agree with it in that many leading bits; the result is \<open>NGX_DONE\<close> when the address had
  bits outside the mask, which are cleared.
\<close>

theorem ngx_ptocidr_prefix:
  assumes "c_slash \<notin> set net" "ngx_inet_addr net = a" "a \<noteq> INADDR_NONE" "ngx_atoi ds = int bits" "bits \<le> 32"
  shows "\<exists>addr m. ngx_ptocidr (net @ c_slash # ds) = (if take_bit (32 - bits) (ntohl a) = 0 then NGX_OK else NGX_DONE, Some (CIDR_in addr m)) \<and>
    (\<forall>x. x AND m = addr \<longleftrightarrow> drop_bit (32 - bits) (ntohl x) = drop_bit (32 - bits) (ntohl a))"
  using ngx_ptocidr_eq [OF assms] cidr_mask_and [OF assms(5)] by blast

theorem ngx_ptocidr_prefix_witness:
  "\<exists>addr m. ngx_ptocidr (bs ''10.1.2.3/8'') = (NGX_DONE, Some (CIDR_in addr m)) \<and>
    (\<forall>x. x AND m = addr \<longleftrightarrow> drop_bit 24 (ntohl x) = 10)"
proof -
  have n: "c_slash \<notin> set (bs ''10.1.2.3'')" by simp
  have a: "ngx_inet_addr (bs ''10.1.2.3'') = 0x0302010a" by code_simp
  have d: "ngx_atoi (bs ''8'') = int 8" by code_simp
  have v: "take_bit 24 (ntohl 0x0302010a) \<noteq> 0" "drop_bit 24 (ntohl 0x0302010a) = 10"
    by (simp_all add: ntohl_def htonl_def)
  have t: "bs ''10.1.2.3/8'' = bs ''10.1.2.3'' @ c_slash # bs ''8''" by simp
  show ?thesis
    using ngx_ptocidr_prefix [OF n a _ d] v unfolding t by (auto simp: INADDR_NONE_def simp del: bs_simps)
qed

end
