(* ===== verification/Ngx_Inet6.thy ===== *)
theory Ngx_Inet6
  imports Ngx_Inet
begin

text \<open>
  The two directions of IPv6 text: what \<open>ngx_inet6_addr\<close> reads in the forms that
  \<open>ngx_inet6_ntop\<close> writes (eight groups, a run of zero groups as \<open>::\<close>, a dotted end), the run that
  the printer finds, and that reading inverts printing.
\<close>

subsection \<open>Groups of an IPv6 address\<close>

definition hexs :: "nat \<Rightarrow> bytes" where
  "hexs w = map ((!) hex) (digits_of 16 w)"

definition group_bytes :: "nat \<Rightarrow> bytes" where
  "group_bytes w = [of_nat (w div 256), of_nat w]"

definition bytes_of :: "nat list \<Rightarrow> bytes" where
  "bytes_of ws = concat (map group_bytes ws)"

lemma bytes_of_simps [simp]: "bytes_of [] = []" "bytes_of (w # ws) = group_bytes w @ bytes_of ws"
  "bytes_of (ws @ vs) = bytes_of ws @ bytes_of vs"
  by (simp_all add: bytes_of_def)

lemma length_bytes_of [simp]: "length (bytes_of ws) = 2 * length ws"
  by (induction ws) (simp_all add: group_bytes_def)

text \<open>A group is a run of at most four hexadecimal digits.\<close>

lemma inet6_hex_digit:
  assumes "is_hex c" "i6_nibbles v < 4"
  shows "inet6_loop (c # p) v =
    inet6_loop p (v\<lparr>i6_nibbles := i6_nibbles v + 1, i6_word := i6_word v * 16 + of_nat (hex_value c)\<rparr>)"
proof -
  have n: "c \<noteq> c_colon" "c \<noteq> c_dot"
  proof -
    have "list_all (\<lambda>c. \<not> is_hex c) [c_colon, c_dot]" by code_simp
    then show "c \<noteq> c_colon" "c \<noteq> c_dot" using assms(1) by auto
  qed
  show ?thesis
  proof (cases "is_digit c")
    case True
    then have "(ucast (c - c_0) :: uint64_t) = of_nat (hex_value c)" by (simp add: ucast_digit hex_value_def)
    moreover have "c_0 \<le> c" "c \<le> c_9" using True by (simp_all add: is_digit_def)
    ultimately show ?thesis using n assms(2) by (simp add: Let_def)
  next
    case False
    then have l: "c_a \<le> c OR 0x20" "c OR 0x20 \<le> c_f" using assms(1) by (auto simp: is_hex_def)
    have u: "unat ((c OR 0x20) - c_a) = unat (c OR 0x20) - 97" using l by (simp add: unat_sub word_le_nat_alt)
    have "(ucast y + 10 :: uint64_t) = of_nat (unat y + 10)" for y :: u_char
      by (simp add: word_unat_eq_iff unat_word_ariths unat_ucast unat_of_nat)
    from this [of "(c OR 0x20) - c_a"] have "(ucast ((c OR 0x20) - c_a) + 10 :: uint64_t) = of_nat (hex_value c)"
      using l False unfolding u by (simp add: hex_value_def word_le_nat_alt)
    then show ?thesis using False l n assms(2) by (auto simp: Let_def is_digit_def add.assoc)
  qed
qed

lemma inet6_hex_run:
  assumes "list_all is_hex s" "i6_nibbles v + length s \<le> 4"
  shows "inet6_loop (s @ p) v =
    inet6_loop p (v\<lparr>i6_nibbles := i6_nibbles v + length s,
      i6_word := foldl (\<lambda>a c. a * 16 + of_nat (hex_value c)) (i6_word v) s\<rparr>)"
  using assms
proof (induction s arbitrary: v)
  case (Cons c s)
  have "inet6_loop ((c # s) @ p) v = inet6_loop (s @ p) (v\<lparr>i6_nibbles := i6_nibbles v + 1, i6_word := i6_word v * 16 + of_nat (hex_value c)\<rparr>)"
    using Cons.prems inet6_hex_digit [of c v "s @ p"] by simp
  then show ?case using Cons.IH [of "v\<lparr>i6_nibbles := i6_nibbles v + 1, i6_word := i6_word v * 16 + of_nat (hex_value c)\<rparr>"] Cons.prems
    by simp
qed simp

lemma hexs_run:
  assumes "w < 65536"
  shows "list_all is_hex (hexs w)" "length (hexs w) \<le> 4" "0 < length (hexs w)"
    "foldl (\<lambda>a c. a * 16 + of_nat (hex_value c)) 0 (hexs w) = (of_nat w :: uint64_t)"
proof -
  have d: "d \<in> set (digits_of 16 w) \<Longrightarrow> d < 16" for d by (rule digits_of_less) auto
  show "list_all is_hex (hexs w)" using d by (auto simp: hexs_def list_all_iff hex_nth)
  show "length (hexs w) \<le> 4" using length_digits_of [of 16 w 4] assms by (simp add: hexs_def)
  show "0 < length (hexs w)" by (simp add: hexs_def)
  have "foldl (\<lambda>a c. a * 16 + of_nat (hex_value c)) (of_nat x) (map ((!) hex) ds) =
      (of_nat (foldl (\<lambda>v d. v * 16 + d) x ds) :: uint64_t)" if "\<forall>d\<in>set ds. d < 16" for x ds
    using that
  proof (induction ds arbitrary: x)
    case (Cons e ds)
    then show ?case using Cons.IH [of "x * 16 + e"] by (simp add: hex_nth)
  qed simp
  from this [of "digits_of 16 w" 0] show "foldl (\<lambda>a c. a * 16 + of_nat (hex_value c)) 0 (hexs w) = (of_nat w :: uint64_t)"
    using d foldl_digits_of [of 16 w] by (simp add: hexs_def)
qed

text \<open>The state between groups.\<close>

definition i6_between :: "inet6_vars \<Rightarrow> bool" where
  "i6_between v \<longleftrightarrow> i6_nibbles v = 0 \<and> i6_word v = 0"

lemma i6_put_group:
  assumes "w < 65536"
  shows "[ucast (drop_bit 8 (of_nat w :: uint64_t)), ucast ((of_nat w :: uint64_t) AND 0xff)] = group_bytes w"
proof -
  have "unat (drop_bit 8 (of_nat w :: uint64_t)) = w div 256"
    using assms by (simp only: unat_drop_bit_eq) (simp add: unat_of_nat drop_bit_eq_div)
  moreover have "unat ((of_nat w :: uint64_t) AND 0xff) = w mod 256"
  proof -
    have "(of_nat w :: uint64_t) AND 0xff = take_bit 8 (of_nat w)" by (simp add: take_bit_eq_mask mask_eq_exp_minus_1)
    then show ?thesis using assms by (simp only: unsigned_take_bit_eq) (simp add: unat_of_nat take_bit_eq_mod)
  qed
  ultimately show ?thesis by (simp add: group_bytes_def word_unat_eq_iff unat_ucast unat_of_nat)
qed

lemma inet6_last_group:
  assumes "w < 65536" "i6_between v"
  shows "inet6_loop (hexs w) v = Some (v\<lparr>i6_nibbles := length (hexs w), i6_word := of_nat w\<rparr>)"
  using inet6_hex_run [OF hexs_run(1) [OF assms(1)], of v "[]"] hexs_run [OF assms(1)] assms(2) by (simp add: i6_between_def)

lemma inet6_group:
  assumes "w < 65536" "i6_between v" "2 \<le> i6_n v"
  shows "inet6_loop (hexs w @ c_colon # p) v =
    inet6_loop p (v\<lparr>i6_out := i6_out v @ group_bytes w, i6_n := i6_n v - 1, i6_digit := Some p\<rparr>)"
proof -
  have "inet6_loop (hexs w @ c_colon # p) v = inet6_loop (c_colon # p) (v\<lparr>i6_nibbles := length (hexs w), i6_word := of_nat w\<rparr>)"
    using inet6_hex_run [OF hexs_run(1) [OF assms(1)], of v "c_colon # p"] hexs_run [OF assms(1)] assms(2) by (simp add: i6_between_def)
  also have "\<dots> = inet6_loop p (v\<lparr>i6_out := i6_out v @ group_bytes w, i6_n := i6_n v - 1, i6_digit := Some p\<rparr>)"
    using hexs_run(3) [OF assms(1)] assms(2,3) i6_put_group [OF assms(1)] by (cases v) (simp add: i6_put_def Let_def i6_between_def)
  finally show ?thesis .
qed

definition groups :: "nat list \<Rightarrow> bytes" where
  "groups ws = concat (map (\<lambda>w. hexs w @ [c_colon]) ws)"

lemma inet6_groups:
  assumes "\<forall>w\<in>set ws. w < 65536" "i6_between v" "length ws < i6_n v"
  shows "inet6_loop (groups ws @ p) v =
    inet6_loop p (v\<lparr>i6_out := i6_out v @ bytes_of ws, i6_n := i6_n v - length ws,
      i6_digit := (if ws = [] then i6_digit v else Some p)\<rparr>)"
  using assms
proof (induction ws arbitrary: v)
  case (Cons w ws)
  let ?v = "v\<lparr>i6_out := i6_out v @ group_bytes w, i6_n := i6_n v - 1, i6_digit := Some (groups ws @ p)\<rparr>"
  have "inet6_loop (groups (w # ws) @ p) v = inet6_loop (groups ws @ p) ?v"
    using inet6_group [of w v "groups ws @ p"] Cons.prems by (simp add: groups_def)
  then show ?case using Cons.IH [of ?v] Cons.prems by (auto simp: i6_between_def groups_def)
qed (simp add: groups_def)

text \<open>Groups separated by colons.\<close>

definition colon_groups :: "nat list \<Rightarrow> bytes" where
  "colon_groups ws = (if ws = [] then [] else groups (butlast ws) @ hexs (last ws))"

definition i6_close :: "bytes \<Rightarrow> nat \<Rightarrow> nat option \<Rightarrow> bytes option" where
  "i6_close out n zero =
     (if n \<noteq> 0 then map_option (\<lambda>z. take z out @ replicate (n * 2) 0 @ drop z out) zero
      else if zero = None then Some out else None)"

lemma inet6_finish_close:
  "inet6_finish v = (if i6_nibbles v = 0 \<and> i6_zero v = None then None
     else i6_close (i6_out v @ [ucast (drop_bit 8 (i6_word v)), ucast (i6_word v AND 0xff)]) (i6_n v - 1) (i6_zero v))"
  by (simp add: inet6_finish_def i6_close_def i6_put_def Let_def split: option.split)

lemma inet6_colon_groups:
  assumes "\<forall>w\<in>set ws. w < 65536" "i6_between v" "length ws \<le> i6_n v" "ws \<noteq> [] \<or> i6_zero v \<noteq> None"
    "us = (if ws = [] then [0] else ws)"
  shows "Option.bind (inet6_loop (colon_groups ws) v) inet6_finish = i6_close (i6_out v @ bytes_of us) (i6_n v - length us) (i6_zero v)"
proof (cases ws rule: rev_cases)
  case Nil
  then show ?thesis using assms(2,4,5) by (auto simp: colon_groups_def i6_between_def inet6_finish_close group_bytes_def)
next
  case (snoc vs w)
  let ?v = "v\<lparr>i6_out := i6_out v @ bytes_of vs, i6_n := i6_n v - length vs, i6_digit := (if vs = [] then i6_digit v else Some (hexs w))\<rparr>"
  have w: "w < 65536" "\<forall>w\<in>set vs. w < 65536" using assms(1) snoc by auto
  have "inet6_loop (colon_groups ws) v = Some (?v\<lparr>i6_nibbles := length (hexs w), i6_word := of_nat w\<rparr>)"
    using inet6_groups [OF w(2) assms(2), of "hexs w"] inet6_last_group [OF w(1), of ?v] assms(2,3) snoc
    by (simp add: colon_groups_def i6_between_def)
  then show ?thesis using snoc hexs_run(3) [OF w(1)] i6_put_group [OF w(1)] assms(5) by (simp add: inet6_finish_close)
qed

subsection \<open>The printer on groups\<close>

lemma bytes_of_nth:
  assumes "j < length ws"
  shows "bytes_of ws ! (2 * j) = of_nat (ws ! j div 256)" "bytes_of ws ! (2 * j + 1) = of_nat (ws ! j)"
  using assms
proof (induction ws arbitrary: j)
  case (Cons w ws)
  { case 1 then show ?case using Cons.IH(1) [of "j - 1"] by (cases j) (simp_all add: group_bytes_def) }
  { case 2 then show ?case using Cons.IH(2) [of "j - 1"] by (cases j) (simp_all add: group_bytes_def) }
qed simp_all

lemma ntop6_group_hexs:
  assumes "j < length ws" "ws ! j < 65536"
  shows "ntop6_group (bytes_of ws) (2 * j) = Some (hexs (ws ! j))"
proof -
  have a: "unat (of_nat (ws ! j div 256) :: u_char) = ws ! j div 256" using assms(2) by (simp add: unat_of_nat)
  have u: "unat (ucast (of_nat (ws ! j div 256) :: u_char) * 256 + ucast (of_nat (ws ! j) :: u_char) :: uint64_t) = ws ! j"
    using assms(2) a by (simp add: unat_word_ariths unat_ucast unat_of_nat)
  have d: "sprintf_digits (ucast (of_nat (ws ! j div 256) :: u_char) * 256 + ucast (of_nat (ws ! j) :: u_char)) 1 = hexs (ws ! j)"
    by (simp only: sprintf_digits_def sprintf_hex_digits u hexs_def) simp
  have l: "length (hexs (ws ! j)) \<le> 4" by (rule hexs_run [OF assms(2)])
  show ?thesis
    unfolding ntop6_group_def bytes_of_nth(1) [OF assms(1)] bytes_of_nth(2) [OF assms(1), simplified]
    using d l bytes_of_nth(2) [OF assms(1)] by (simp add: ngx_sprintf_def vs_run sprintf_num_fits padded_def)
qed

lemma ntop6_run:
  assumes "\<forall>w\<in>set seg. w < 65536" "length pre + length seg \<le> 7" "2 * (length pre + length seg) \<le> n"
    "\<And>z. zero = Some z \<Longrightarrow> z < 2 * length pre \<or> 2 * (length pre + length seg) \<le> z"
  shows "ntop6_loop (bytes_of (pre @ seg @ post)) n zero mx (2 * length pre) dst =
    ntop6_loop (bytes_of (pre @ seg @ post)) n zero mx (2 * (length pre + length seg)) (dst @ groups seg)"
  using assms
proof (induction seg arbitrary: pre dst)
  case (Cons w seg)
  have g: "ntop6_group (bytes_of (pre @ (w # seg) @ post)) (2 * length pre) = Some (hexs w)"
    using ntop6_group_hexs [of "length pre" "pre @ (w # seg) @ post"] Cons.prems(1) by (simp add: nth_append)
  have z: "zero \<noteq> Some (2 * length pre)" using Cons.prems(4) [of "2 * length pre"] by auto
  have "ntop6_loop (bytes_of (pre @ (w # seg) @ post)) n zero mx (2 * length pre) dst =
      ntop6_loop (bytes_of (pre @ (w # seg) @ post)) n zero mx (2 * length pre + 2) (dst @ hexs w @ [c_colon])"
    using g z Cons.prems(2,3) by (subst ntop6_loop.simps) (simp del: bytes_of_simps)
  also have "\<dots> = ntop6_loop (bytes_of ((pre @ [w]) @ seg @ post)) n zero mx (2 * length (pre @ [w])) (dst @ hexs w @ [c_colon])"
    by simp
  also have "\<dots> = ntop6_loop (bytes_of ((pre @ [w]) @ seg @ post)) n zero mx (2 * (length (pre @ [w]) + length seg)) ((dst @ hexs w @ [c_colon]) @ groups seg)"
    by (rule Cons.IH) (use Cons.prems in \<open>auto simp: less_Suc_eq\<close>)
  finally show ?case by (simp add: groups_def)
qed (simp add: groups_def)

lemma ntop6_end: "n \<le> i \<Longrightarrow> ntop6_loop p n zero mx i dst = Some dst"
  by (subst ntop6_loop.simps) simp

lemma ntop6_last:
  assumes "\<forall>w\<in>set seg. w < 65536" "length pre + length seg = 8"
    "\<And>z. zero = Some z \<Longrightarrow> z < 2 * length pre"
  shows "ntop6_loop (bytes_of (pre @ seg)) 16 zero mx (2 * length pre) dst = Some (dst @ colon_groups seg)"
proof (cases seg rule: rev_cases)
  case Nil
  then show ?thesis using assms(2) ntop6_end [of 16 "2 * length pre"] by (simp add: colon_groups_def)
next
  case (snoc us w)
  have "ntop6_loop (bytes_of (pre @ us @ [w])) 16 zero mx (2 * length pre) dst =
      ntop6_loop (bytes_of (pre @ us @ [w])) 16 zero mx (2 * (length pre + length us)) (dst @ groups us)"
    by (rule ntop6_run) (use assms snoc in \<open>auto dest: assms(3)\<close>)
  moreover have l: "length pre + length us = 7" using assms(2) snoc by simp
  moreover have "ntop6_group (bytes_of (pre @ us @ [w])) 14 = Some (hexs w)"
    using ntop6_group_hexs [of 7 "(pre @ us) @ [w]"] l assms(1) snoc nth_append_length [of "pre @ us" w "[]"] by simp
  moreover have "zero \<noteq> Some 14" using assms(2,3) snoc by auto
  ultimately show ?thesis using snoc ntop6_end [of 16 16]
    by (simp add: colon_groups_def ntop6_loop.simps [of _ _ _ _ 14] del: bytes_of_simps)
qed

subsection \<open>The run of zero groups\<close>

definition zero_run :: "nat list \<Rightarrow> nat \<Rightarrow> nat \<Rightarrow> bool" where
  "zero_run ws k m \<longleftrightarrow> (\<exists>post. ws = take k ws @ replicate m 0 @ post \<and> k \<le> length ws)"

lemma zero_run_append: "zero_run ws k m \<Longrightarrow> zero_run (ws @ vs) k m"
  by (auto simp: zero_run_def) (metis append.assoc)

definition scan_found :: "nat list \<Rightarrow> ntop6_vars \<Rightarrow> bool" where
  "scan_found ws v \<longleftrightarrow>
     (case n6_zero v of None \<Rightarrow> n6_max v = 1
      | Some z \<Rightarrow> 2 \<le> n6_max v \<and> even z \<and> zero_run ws (z div 2) (n6_max v))"

definition scan_open :: "nat list \<Rightarrow> ntop6_vars \<Rightarrow> bool" where
  "scan_open ws v \<longleftrightarrow> 0 < n6_n v \<longrightarrow>
     even (n6_last v) \<and> n6_last v div 2 + n6_n v = length ws \<and> zero_run ws (n6_last v div 2) (n6_n v)"

lemma scan_found_append: "scan_found ws v \<Longrightarrow> scan_found (ws @ vs) v"
  by (auto simp: scan_found_def zero_run_append split: option.splits)

lemma scan_close: "scan_found ws v \<Longrightarrow> scan_open ws v \<Longrightarrow> scan_found ws (ntop6_close v)"
  by (auto simp: scan_found_def scan_open_def ntop6_close_def split: option.splits)

lemma scan_step_zero:
  assumes "scan_open ws v"
  shows "scan_open (ws @ [0]) (v\<lparr>n6_n := n6_n v + 1, n6_last := (if n6_n v = 0 then 2 * length ws else n6_last v)\<rparr>)"
proof (cases "n6_n v = 0")
  case True
  then show ?thesis by (simp add: scan_open_def zero_run_def)
next
  case False
  let ?k = "n6_last v div 2"
  obtain post where p: "ws = take ?k ws @ replicate (n6_n v) 0 @ post" and k: "even (n6_last v)" "?k + n6_n v = length ws"
    using assms False by (auto simp: scan_open_def zero_run_def)
  have "length ws = ?k + n6_n v + length post"
    by (subst p) (use k in simp)
  then have "post = []" using k by simp
  then have "ws @ [0] = take ?k (ws @ [0]) @ replicate (Suc (n6_n v)) 0"
    using p k replicate_append_same [of "n6_n v" "0::nat"] by (metis append.assoc append_Nil2 le_add1 replicate_Suc take_append take_all diff_is_0_eq' take0)
  then show ?thesis using False k by (auto simp: scan_open_def zero_run_def)
qed

lemma group_zero:
  assumes "w < 65536"
  shows "((of_nat (w div 256) :: u_char) \<noteq> 0 \<or> (of_nat w :: u_char) \<noteq> 0) \<longleftrightarrow> w \<noteq> 0"
proof -
  have "(of_nat (w div 256) :: u_char) = 0 \<longleftrightarrow> w div 256 = 0" using assms by (simp add: word_unat_eq_iff unat_of_nat)
  moreover have "(of_nat w :: u_char) = 0 \<longleftrightarrow> w mod 256 = 0" by (simp add: word_unat_eq_iff unat_of_nat)
  ultimately show ?thesis using div_mult_mod_eq [of w 256] by auto
qed

lemma scan_finds:
  assumes "scan_found pre v" "scan_open pre v" "\<forall>w\<in>set ws. w < 65536"
  shows "scan_found (pre @ ws) (ntop6_scan (bytes_of ws) (2 * length pre) v)"
  using assms
proof (induction ws arbitrary: pre v)
  case Nil
  then show ?case by (simp add: scan_close)
next
  case (Cons w ws)
  show ?case
  proof (cases "w = 0")
    case True
    let ?v = "v\<lparr>n6_n := n6_n v + 1, n6_last := (if n6_n v = 0 then 2 * length pre else n6_last v)\<rparr>"
    have "scan_found (pre @ [0]) ?v" using scan_found_append [OF Cons.prems(1), of "[0]"] by (auto simp: scan_found_def split: option.splits)
    from Cons.IH [OF this scan_step_zero [OF Cons.prems(2)]] True Cons.prems(3)
    show ?thesis by (simp add: group_bytes_def)
  next
    case False
    let ?v = "(ntop6_close v)\<lparr>n6_n := 0\<rparr>"
    have "scan_found (pre @ [w]) ?v" using scan_found_append [OF scan_close [OF Cons.prems(1,2)], of "[w]"]
      by (auto simp: scan_found_def split: option.splits)
    moreover have "scan_open (pre @ [w]) ?v" by (simp add: scan_open_def)
    ultimately show ?thesis using Cons.IH [of "pre @ [w]" ?v] False Cons.prems(3) group_zero [of w]
      by (simp add: group_bytes_def)
  qed
qed

subsection \<open>The dotted end\<close>

lemma ntohl_bytes:
  "[ucast (drop_bit 24 (ntohl a) AND 0xff), ucast (drop_bit 16 (ntohl a) AND 0xff),
    ucast (drop_bit 8 (ucast (ntohl a) :: uint64_t)), ucast ((ucast (ntohl a) :: uint64_t) AND 0xff)] = addr_bytes a"
proof -
  have m: "(0xff :: uint32_t) = mask 8" "(0xff :: uint64_t) = mask 8" by (simp_all add: mask_eq_exp_minus_1)
  have "(ucast (drop_bit 24 (ntohl a) AND 0xff) :: u_char) = ucast a"
    by (rule bit_word_eqI) (auto simp: ntohl_def htonl_def m bit_simps)
  moreover have "(ucast (drop_bit 16 (ntohl a) AND 0xff) :: u_char) = ucast (drop_bit 8 a)"
    by (rule bit_word_eqI) (auto simp: ntohl_def htonl_def m bit_simps)
  moreover have "(ucast (drop_bit 8 (ucast (ntohl a) :: uint64_t)) :: u_char) = ucast (drop_bit 16 a)"
    by (rule bit_word_eqI) (auto simp: ntohl_def htonl_def m bit_simps)
  moreover have "(ucast ((ucast (ntohl a) :: uint64_t) AND 0xff) :: u_char) = ucast (drop_bit 24 a)"
    by (rule bit_word_eqI) (auto simp: ntohl_def htonl_def m bit_simps)
  ultimately show ?thesis by (simp add: addr_bytes_def)
qed

lemma inet6_dotted:
  assumes "i6_between v" "i6_digit v = Some (dotted_quad (addr_bytes a))" "2 \<le> i6_n v" "a \<noteq> INADDR_NONE"
  shows "Option.bind (inet6_loop (dotted_quad (addr_bytes a)) v) inet6_finish = i6_close (i6_out v @ addr_bytes a) (i6_n v - 2) (i6_zero v)"
proof -
  define d where "d = decimal (unat (addr_bytes a ! 0))"
  obtain r where r: "dotted_quad (addr_bytes a) = d @ c_dot # r" by (simp add: dotted_quad_def d_def)
  have dig: "list_all is_digit d" unfolding d_def by (rule list_all_decimal)
  have l: "length d \<le> 4" "d \<noteq> []" using decimal_byte [of "addr_bytes a ! 0"] by (simp_all add: d_def)
  have h: "list_all is_hex d" using dig by (auto simp: list_all_iff is_hex_def)
  have "inet6_loop (d @ c_dot # r) v = inet6_loop (c_dot # r)
      (v\<lparr>i6_nibbles := i6_nibbles v + length d, i6_word := foldl (\<lambda>a c. a * 16 + of_nat (hex_value c)) (i6_word v) d\<rparr>)"
    by (rule inet6_hex_run [OF h]) (use assms(1) l in \<open>simp add: i6_between_def\<close>)
  also have "\<dots> = Some (v\<lparr>i6_nibbles := length d,
      i6_out := i6_out v @ [ucast (drop_bit 24 (ntohl a) AND 0xff), ucast (drop_bit 16 (ntohl a) AND 0xff)],
      i6_n := i6_n v - 1, i6_word := ucast (ntohl a)\<rparr>)"
    using assms l inet_addr_quad [of a] by (cases v) (simp add: Let_def i6_between_def)
  finally have e: "inet6_loop (dotted_quad (addr_bytes a)) v = \<dots>" unfolding r .
  have "inet6_finish (v\<lparr>i6_nibbles := length d,
      i6_out := i6_out v @ [ucast (drop_bit 24 (ntohl a) AND 0xff), ucast (drop_bit 16 (ntohl a) AND 0xff)],
      i6_n := i6_n v - 1, i6_word := ucast (ntohl a)\<rparr>) = i6_close (i6_out v @ addr_bytes a) (i6_n v - 2) (i6_zero v)"
    unfolding inet6_finish_close ntohl_bytes [symmetric] using l by (simp add: numeral_2_eq_2)
  then show ?thesis unfolding e by simp
qed

subsection \<open>The texts of an address\<close>

lemma hexs_first:
  assumes "w < 65536"
  obtains c r where "hexs w = c # r" "c \<noteq> c_colon"
proof -
  obtain c r where h: "hexs w = c # r" using hexs_run(3) [OF assms] by (cases "hexs w") (use hexs_run(3) in \<open>auto simp: hexs_def\<close>)
  have "\<not> is_hex c_colon" by code_simp
  then have "c \<noteq> c_colon" using hexs_run(1) [OF assms] h by auto
  then show ?thesis using h that by blast
qed

lemma inet6_addr_hex:
  assumes "w < 65536"
  shows "ngx_inet6_addr (hexs w @ s) = Option.bind (inet6_loop (hexs w @ s) inet6_init) inet6_finish"
proof -
  obtain c r where "hexs w = c # r" "c \<noteq> c_colon" using hexs_first [OF assms] by blast
  then show ?thesis by (simp add: ngx_inet6_addr_def split: option.split del: inet6_loop.simps)
qed

lemma inet6_addr_colon: "ngx_inet6_addr (c_colon # s) = Option.bind (inet6_loop s inet6_init) inet6_finish"
  by (simp add: ngx_inet6_addr_def split: option.split)

lemma inet6_init_simps [simp]:
  "i6_between inet6_init" "i6_out inet6_init = []" "i6_n inet6_init = 8" "i6_zero inet6_init = None"
  by (simp_all add: inet6_init_def i6_between_def)

lemma inet6_addr_full:
  assumes "\<forall>w\<in>set ws. w < 65536" "length ws = 8"
  shows "ngx_inet6_addr (colon_groups ws) = Some (bytes_of ws)"
proof -
  obtain w vs where ws: "ws = w # vs" using assms(2) by (cases ws) auto
  then have "vs \<noteq> []" using assms(2) by auto
  have "colon_groups ws = hexs w @ c_colon # groups (butlast vs) @ hexs (last vs)"
    using ws \<open>vs \<noteq> []\<close> by (simp add: colon_groups_def groups_def)
  moreover have "Option.bind (inet6_loop (colon_groups ws) inet6_init) inet6_finish = Some (bytes_of ws)"
    using inet6_colon_groups [OF assms(1), of inet6_init ws] assms(2) ws by (auto simp: i6_close_def)
  ultimately show ?thesis using inet6_addr_hex [of w] assms(1) ws(1) by simp
qed

lemma inet6_double_colon:
  assumes "i6_between v" "i6_zero v = None" "length ws < i6_n v - 1" "\<forall>w\<in>set ws. w < 65536" "length (i6_out v) = 2 * (8 - i6_n v)" "i6_n v \<le> 8"
  shows "Option.bind (inet6_loop (c_colon # colon_groups ws) v) inet6_finish =
    Some (i6_out v @ replicate (2 * (i6_n v - length ws)) 0 @ bytes_of ws)"
proof -
  let ?v = "v\<lparr>i6_digit := Some (colon_groups ws), i6_zero := Some (length (i6_out v))\<rparr>"
  have "Option.bind (inet6_loop (c_colon # colon_groups ws) v) inet6_finish =
      i6_close (i6_out ?v @ bytes_of (if ws = [] then [0] else ws)) (i6_n ?v - length (if ws = [] then [0::nat] else ws)) (i6_zero ?v)"
    using inet6_colon_groups [OF assms(4), of ?v "if ws = [] then [0] else ws"] assms(1-3) by (auto simp: i6_between_def)
  also have "\<dots> = Some (i6_out v @ replicate (2 * (i6_n v - length ws)) 0 @ bytes_of ws)"
  proof (cases "ws = []")
    case True
    have "replicate (2 * i6_n v) (0 :: u_char) = replicate ((i6_n v - 1) * 2) 0 @ [0, 0]"
      using assms(3) by (cases "i6_n v") (simp_all add: replicate_append_same [symmetric] mult.commute)
    then show ?thesis using True assms(3) by (simp add: i6_close_def group_bytes_def)
  next
    case False
    then show ?thesis using assms(3) by (simp add: i6_close_def mult.commute)
  qed
  finally show ?thesis .
qed

lemma inet6_addr_run:
  assumes "\<forall>w\<in>set ws. w < 65536" "length ws = 8" "ws = pre @ replicate m 0 @ post" "2 \<le> m"
  shows "ngx_inet6_addr ((if pre = [] then [c_colon] else groups pre) @ c_colon # colon_groups post) = Some (bytes_of ws)"
proof -
  have z: "bytes_of (replicate k 0) = replicate (2 * k) 0" for k
    by (induction k) (simp_all add: group_bytes_def)
  have l: "length pre + m + length post = 8" using assms(2,3) by simp
  have h: "\<forall>w\<in>set pre. w < 65536" "\<forall>w\<in>set post. w < 65536" using assms(1,3) by auto
  show ?thesis
  proof (cases pre)
    case Nil
    then show ?thesis using inet6_addr_colon [of "c_colon # colon_groups post"] inet6_double_colon [of inet6_init post] l h assms(3,4)
      by (simp add: z del: inet6_loop.simps)
  next
    case (Cons w vs)
    let ?v = "inet6_init\<lparr>i6_out := bytes_of pre, i6_n := 8 - length pre, i6_digit := Some (c_colon # colon_groups post)\<rparr>"
    have "inet6_loop (groups pre @ c_colon # colon_groups post) inet6_init = inet6_loop (c_colon # colon_groups post) ?v"
      using inet6_groups [OF h(1), of inet6_init "c_colon # colon_groups post"] l assms(4) Cons by simp
    moreover have "Option.bind (inet6_loop (c_colon # colon_groups post) ?v) inet6_finish = Some (bytes_of ws)"
      using inet6_double_colon [of ?v post] l h assms(3,4) by (simp add: z i6_between_def inet6_init_def del: inet6_loop.simps)
    ultimately show ?thesis using Cons inet6_addr_hex [of w "c_colon # groups vs @ c_colon # colon_groups post"] h
      by (simp add: groups_def del: inet6_loop.simps)
  qed
qed

lemma inet6_addr_dotted:
  assumes "\<forall>w\<in>set ws. w < 65536" "length ws + m = 6" "0 < m" "a \<noteq> INADDR_NONE"
  shows "ngx_inet6_addr ([c_colon, c_colon] @ groups ws @ dotted_quad (addr_bytes a)) =
    Some (bytes_of (replicate m 0 @ ws) @ addr_bytes a)"
proof -
  let ?t = "groups ws @ dotted_quad (addr_bytes a)"
  let ?v = "inet6_init\<lparr>i6_zero := Some 0, i6_digit := Some ?t\<rparr>"
  let ?w = "?v\<lparr>i6_out := bytes_of ws, i6_n := 8 - length ws, i6_digit := Some (dotted_quad (addr_bytes a))\<rparr>"
  have z: "bytes_of (replicate k 0) = replicate (k * 2) 0" for k
    by (induction k) (simp_all add: group_bytes_def)
  have "ngx_inet6_addr ([c_colon, c_colon] @ ?t) = Option.bind (inet6_loop ?t ?v) inet6_finish"
    by (simp add: inet6_addr_colon) (simp add: inet6_init_def)
  also have "inet6_loop ?t ?v = inet6_loop (dotted_quad (addr_bytes a)) ?w"
    using inet6_groups [OF assms(1), of ?v "dotted_quad (addr_bytes a)"] assms(2)
    by (cases "ws = []") (simp_all add: i6_between_def inet6_init_def groups_def)
  also have "Option.bind \<dots> inet6_finish = i6_close (i6_out ?w @ addr_bytes a) (i6_n ?w - 2) (i6_zero ?w)"
    by (rule inet6_dotted) (use assms in \<open>simp_all add: i6_between_def inet6_init_def\<close>)
  also have "\<dots> = Some (bytes_of (replicate m 0 @ ws) @ addr_bytes a)"
    using assms(2,3) by (simp add: i6_close_def z add.commute)
  finally show ?thesis .
qed

subsection \<open>What is printed\<close>

fun words_of :: "bytes \<Rightarrow> nat list" where
  "words_of (a # b # p) = (unat a * 256 + unat b) # words_of p"
| "words_of _ = []"

lemma bytes_words:
  "length p = 2 * n \<Longrightarrow> bytes_of (words_of p) = p \<and> length (words_of p) = n \<and> (\<forall>w\<in>set (words_of p). w < 65536)"
proof (induction p arbitrary: n rule: words_of.induct)
  case (1 a b p)
  have u: "unat a < 256" "unat b < 256" by (rule unat_u_char_less)+
  have "(of_nat (unat a * 256 + unat b) :: u_char) = b" using u by (simp only: word_unat_eq_iff unat_of_nat) simp
  then have "group_bytes (unat a * 256 + unat b) = [a, b]" using u by (simp add: group_bytes_def)
  moreover have "unat a * 256 + unat b < 65536" using u by linarith
  ultimately show ?case using "1.IH" [of "n - 1"] "1.prems" by simp
qed auto

lemma inet6_ntop_dotted:
  assumes "length p = 16" "n6_zero v = Some 0" "ntop6_mapped p (n6_max v)" "scan_found (words_of p) v"
    "v = ntop6_scan p 0 \<lparr>n6_zero = None, n6_last = 0, n6_max = 1, n6_n = 0\<rparr>" "NGX_INET6_ADDRSTRLEN \<le> len"
  obtains ws m where "\<forall>w\<in>set ws. w < 65536" "length ws + m = 6" "0 < m" "bytes_of (replicate m 0 @ ws) = take 12 p"
    "ngx_inet6_ntop p len = Some ([c_colon, c_colon] @ groups ws @ dotted_quad (drop 12 p))"
proof -
  let ?mx = "n6_max v" and ?ws = "words_of p"
  let ?ws' = "drop (min 6 ?mx) (take 6 ?ws)" and ?m = "min 6 ?mx"
  have w: "bytes_of ?ws = p" "length ?ws = 8" "\<forall>w\<in>set ?ws. w < 65536" using bytes_words [of p 8] assms(1) by auto
  obtain post where p: "?ws = replicate ?mx 0 @ post" using assms(2,4) by (auto simp: scan_found_def zero_run_def)
  have mx: "?mx \<in> {5, 6, 7}" using assms(3) by (auto simp: ntop6_mapped_def)
  have t: "take 6 ?ws = replicate ?m 0 @ ?ws'" using mx by (subst p)+ auto
  have b: "bytes_of (take 6 ?ws) = take 12 p"
  proof -
    have "take 12 (bytes_of (take 6 ?ws) @ bytes_of (drop 6 ?ws)) = bytes_of (take 6 ?ws)" using w(2) by simp
    then show ?thesis using w(1) by (simp flip: bytes_of_simps(3))
  qed
  have l: "ntop6_loop p 12 (Some 0) ?mx 0 [c_colon] = Some ([c_colon, c_colon] @ groups ?ws')"
  proof -
    have "ntop6_loop p 12 (Some 0) ?mx 0 [c_colon] = ntop6_loop p 12 (Some 0) ?mx (2 * ?mx) [c_colon, c_colon]"
      using mx by (subst ntop6_loop.simps) auto
    also have "\<dots> = Some ([c_colon, c_colon] @ groups ?ws')"
    proof (cases "?mx = 5")
      case True
      let ?pre = "take 5 ?ws" and ?seg = "drop 5 (take 6 ?ws)" and ?post = "drop 6 ?ws"
      have "?pre @ ?seg = take 6 ?ws" using append_take_drop_id [of 5 "take 6 ?ws"] by (simp add: min_def)
      then have s: "?ws = ?pre @ ?seg @ ?post" by (simp only: append.assoc [symmetric] append_take_drop_id)
      have "ntop6_loop (bytes_of (?pre @ ?seg @ ?post)) 12 (Some 0) ?mx (2 * length ?pre) [c_colon, c_colon] =
          ntop6_loop (bytes_of (?pre @ ?seg @ ?post)) 12 (Some 0) ?mx (2 * (length ?pre + length ?seg)) ([c_colon, c_colon] @ groups ?seg)"
      proof (rule ntop6_run)
        show "\<forall>w\<in>set ?seg. w < 65536" using w(3) by (auto dest!: in_set_takeD in_set_dropD)
        show "length ?pre + length ?seg \<le> 7" "2 * (length ?pre + length ?seg) \<le> 12" using w(2) by simp_all
        show "z < 2 * length ?pre \<or> 2 * (length ?pre + length ?seg) \<le> z" if "Some 0 = Some z" for z using that w(2) by simp
      qed
      then show ?thesis unfolding s [symmetric] w(1) using w(2) True by (simp add: ntop6_end)
    next
      case False
      then show ?thesis using mx w(2) by (auto simp: ntop6_end groups_def)
    qed
    finally show ?thesis .
  qed
  have q: "ngx_sprintf 0 (bs ''%ud.%ud.%ud.%ud'' @ [0])
      [VA_word32 (ucast (p ! 12)), VA_word32 (ucast (p ! 13)), VA_word32 (ucast (p ! 14)), VA_word32 (ucast (p ! 15))] =
      Some (dotted_quad (drop 12 p))"
    using ngx_inet_ntop_quad [of "2 ^ 64 - 1" "drop 12 p"] assms(1) by (simp add: ngx_inet_ntop_def ngx_sprintf_def ngx_snprintf_def)
  have "ngx_inet6_ntop p len = Some ([c_colon, c_colon] @ groups ?ws' @ dotted_quad (drop 12 p))"
    using l q assms(2,3,6) unfolding ngx_inet6_ntop_def assms(5) [symmetric] by (simp add: Let_def del: bs_simps)
  moreover have "length ?ws' + ?m = 6" "0 < ?m" "\<forall>w\<in>set ?ws'. w < 65536"
    using mx w by (auto dest: in_set_takeD in_set_dropD)
  moreover have "bytes_of (replicate ?m 0 @ ?ws') = take 12 p" using b t by simp
  ultimately show ?thesis using that by blast
qed

lemma inet6_ntop_run:
  assumes "length p = 16" "n6_zero v = Some z" "\<not> (z = 0 \<and> ntop6_mapped p (n6_max v))" "scan_found (words_of p) v"
    "v = ntop6_scan p 0 \<lparr>n6_zero = None, n6_last = 0, n6_max = 1, n6_n = 0\<rparr>" "NGX_INET6_ADDRSTRLEN \<le> len"
  obtains pre m post where "words_of p = pre @ replicate m 0 @ post" "2 \<le> m"
    "ngx_inet6_ntop p len = Some ((if pre = [] then [c_colon] else groups pre) @ c_colon # colon_groups post)"
proof -
  let ?mx = "n6_max v" and ?ws = "words_of p"
  have w: "bytes_of ?ws = p" "length ?ws = 8" "\<forall>w\<in>set ?ws. w < 65536" using bytes_words [of p 8] assms(1) by auto
  obtain k post where z: "z = 2 * k" and p: "?ws = take k ?ws @ replicate ?mx 0 @ post" and k: "k \<le> length ?ws" and m: "2 \<le> ?mx"
    using assms(2,4) by (auto simp: scan_found_def zero_run_def elim: evenE)
  let ?pre = "take k ?ws"
  have lp: "length ?pre = k" using k by simp
  have ln: "k + ?mx + length post = 8" 
  proof -
    have "length ?ws = length (?pre @ replicate ?mx 0 @ post)" using p by (rule arg_cong)
    then show ?thesis using w(2) lp by simp
  qed
  let ?d = "if z = 0 then [c_colon] else []"
  have "ntop6_loop p 16 (Some z) ?mx 0 ?d = ntop6_loop p 16 (Some z) ?mx (2 * k) (?d @ groups ?pre)"
  proof -
    have "ntop6_loop (bytes_of ([] @ ?pre @ replicate ?mx 0 @ post)) 16 (Some z) ?mx (2 * length ([] :: nat list)) ?d =
      ntop6_loop (bytes_of ([] @ ?pre @ replicate ?mx 0 @ post)) 16 (Some z) ?mx (2 * (length ([] :: nat list) + length ?pre)) (?d @ groups ?pre)"
    proof (rule ntop6_run)
      show "\<forall>w\<in>set ?pre. w < 65536" using w(3) by (auto dest!: in_set_takeD)
      show "length ([] :: nat list) + length ?pre \<le> 7" "2 * (length ([] :: nat list) + length ?pre) \<le> 16"
        using ln m lp by simp_all
      show "z' < 2 * length ([] :: nat list) \<or> 2 * (length ([] :: nat list) + length ?pre) \<le> z'" if "Some z = Some z'" for z'
        using that z lp by simp
    qed
    then show ?thesis using p w(1) lp by (simp del: bytes_of_simps)
  qed
  also have "\<dots> = ntop6_loop p 16 (Some z) ?mx (2 * (k + ?mx)) ((?d @ groups ?pre) @ [c_colon])"
  proof -
    have e: "z + (?mx - 1) * 2 + 2 = 2 * (k + ?mx)" using m z by simp
    show ?thesis unfolding e [symmetric] z [symmetric] using ln m z by (subst ntop6_loop.simps) simp
  qed
  also have "\<dots> = Some (((?d @ groups ?pre) @ [c_colon]) @ colon_groups post)"
  proof -
    have "ntop6_loop (bytes_of ((?pre @ replicate ?mx 0) @ post)) 16 (Some z) ?mx (2 * length (?pre @ replicate ?mx (0 :: nat))) ((?d @ groups ?pre) @ [c_colon]) =
        Some (((?d @ groups ?pre) @ [c_colon]) @ colon_groups post)"
    proof (rule ntop6_last)
      show "\<forall>w\<in>set post. w < 65536" using w(3) p by (metis Un_iff set_append)
      show "length (?pre @ replicate ?mx (0 :: nat)) + length post = 8" using ln lp by simp
      show "z' < 2 * length (?pre @ replicate ?mx (0 :: nat))" if "Some z = Some z'" for z' using that z lp m by simp
    qed
    then show ?thesis using p w(1) lp by (simp del: bytes_of_simps)
  qed
  finally have l: "ntop6_loop p 16 (Some z) ?mx 0 ?d = Some (?d @ groups ?pre @ c_colon # colon_groups post)" by simp
  have d: "?d @ groups ?pre = (if ?pre = [] then [c_colon] else groups ?pre)"
    using z w(2) by (auto simp: groups_def)
  have "ngx_inet6_ntop p len = Some ((if ?pre = [] then [c_colon] else groups ?pre) @ c_colon # colon_groups post)"
  proof -
    have c: "\<not> (n6_zero v = Some 0 \<and> ntop6_mapped p ?mx)" using assms(2,3) by simp
    have e: "(if n6_zero v = Some 0 then [c_colon] else []) = ?d" using assms(2) by simp
    show ?thesis unfolding ngx_inet6_ntop_def assms(5) [symmetric] Let_def if_not_P [OF c] e unfolding assms(2) l
      using assms(6) unfolding d [symmetric] by simp
  qed
  with p m show ?thesis by (rule that)
qed

lemma inet6_ntop_full:
  assumes "length p = 16" "n6_zero v = None"
    "v = ntop6_scan p 0 \<lparr>n6_zero = None, n6_last = 0, n6_max = 1, n6_n = 0\<rparr>" "NGX_INET6_ADDRSTRLEN \<le> len"
  shows "ngx_inet6_ntop p len = Some (colon_groups (words_of p))"
proof -
  have w: "bytes_of (words_of p) = p" "length (words_of p) = 8" "\<forall>w\<in>set (words_of p). w < 65536" using bytes_words [of p 8] assms(1) by auto
  have "ntop6_loop p 16 None (n6_max v) 0 [] = Some (colon_groups (words_of p))"
    using ntop6_last [of "words_of p" "[]" None "n6_max v" "[]"] w by simp
  then show ?thesis using assms(2,4) unfolding ngx_inet6_ntop_def assms(3) [symmetric] by (simp add: Let_def del: bs_simps)
qed

lemma addr_bytes_surj:
  assumes "length q = 4"
  obtains a where "q = addr_bytes a"
proof -
  obtain b0 b1 b2 b3 where q: "q = [b0, b1, b2, b3]" using assms by (auto simp: numeral_eq_Suc length_Suc_conv)
  let ?a = "ucast b0 OR push_bit 8 (ucast b1) OR push_bit 16 (ucast b2) OR push_bit 24 (ucast b3) :: uint32_t"
  have "ucast ?a = b0" by (rule bit_word_eqI) (auto simp: bit_simps)
  moreover have "ucast (drop_bit 8 ?a) = b1" by (rule bit_word_eqI) (auto simp: bit_simps)
  moreover have "ucast (drop_bit 16 ?a) = b2" by (rule bit_word_eqI) (auto simp: bit_simps)
  moreover have "ucast (drop_bit 24 ?a) = b3" by (rule bit_word_eqI) (auto simp: bit_simps)
  ultimately show ?thesis using q that [of ?a] unfolding addr_bytes_def by presburger
qed

text \<open>
  C30: an IPv6 address printed by \<open>ngx_inet6_ntop\<close>, with its longest run of zero groups written
  \<open>::\<close> and, for a mapped address, a dotted end, is read back as that address by
  \<open>ngx_inet6_addr\<close>.  An address that ends in \<open>255.255.255.255\<close> is left out: that text is the error
  value of \<open>ngx_inet_addr\<close>, and the reader rejects it.
\<close>

theorem inet6_roundtrip:
  assumes "length p = 16" "drop 12 p \<noteq> [0xff, 0xff, 0xff, 0xff]" "NGX_INET6_ADDRSTRLEN \<le> len"
  shows "\<exists>s. ngx_inet6_ntop p len = Some s \<and> ngx_inet6_addr s = Some p"
proof -
  define v where "v = ntop6_scan p 0 \<lparr>n6_zero = None, n6_last = 0, n6_max = 1, n6_n = 0\<rparr>"
  have w: "bytes_of (words_of p) = p" "length (words_of p) = 8" "\<forall>w\<in>set (words_of p). w < 65536"
    using bytes_words [of p 8] assms(1) by auto
  have f: "scan_found (words_of p) v"
    using scan_finds [of "[]" "\<lparr>n6_zero = None, n6_last = 0, n6_max = 1, n6_n = 0\<rparr>" "words_of p"] w
    by (simp add: v_def scan_found_def scan_open_def)
  show ?thesis
  proof (cases "n6_zero v")
    case None
    then show ?thesis using inet6_ntop_full [OF assms(1) None v_def assms(3)] inet6_addr_full [OF w(3,2)] w(1) by simp
  next
    case (Some z)
    show ?thesis
    proof (cases "z = 0 \<and> ntop6_mapped p (n6_max v)")
      case True
      then have z: "n6_zero v = Some 0" and mp: "ntop6_mapped p (n6_max v)" using Some by simp_all
      obtain ws m where d: "\<forall>w\<in>set ws. w < 65536" "length ws + m = 6" "0 < m" "bytes_of (replicate m 0 @ ws) = take 12 p"
        "ngx_inet6_ntop p len = Some ([c_colon, c_colon] @ groups ws @ dotted_quad (drop 12 p))"
        by (rule inet6_ntop_dotted [OF assms(1) z mp f v_def assms(3)])
      obtain a where a: "drop 12 p = addr_bytes a" by (rule addr_bytes_surj [of "drop 12 p"]) (simp add: assms(1))
      have "a \<noteq> INADDR_NONE" using a assms(2) by (auto simp: addr_bytes_def INADDR_NONE_def)
      from inet6_addr_dotted [OF d(1-3) this] d(5) show ?thesis
        unfolding d(4) a [symmetric] append_take_drop_id by blast
    next
      case False
      obtain pre m post where d: "words_of p = pre @ replicate m 0 @ post" "2 \<le> m"
        "ngx_inet6_ntop p len = Some ((if pre = [] then [c_colon] else groups pre) @ c_colon # colon_groups post)"
        by (rule inet6_ntop_run [OF assms(1) Some False f v_def assms(3)])
      from inet6_addr_run [OF w(3,2) d(1,2)] d(3) w(1) show ?thesis by simp
    qed
  qed
qed

theorem inet6_roundtrip_witness:
  "\<exists>s. ngx_inet6_ntop (replicate 10 0 @ [0xff, 0xff, 10, 0, 0, 1]) 45 = Some s \<and>
    ngx_inet6_addr s = Some (replicate 10 0 @ [0xff, 0xff, 10, 0, 0, 1])"
  by (rule inet6_roundtrip) (simp_all add: NGX_INET6_ADDRSTRLEN_def)

end
