(* ===== verification/Ngx_Parse.thy ===== *)
theory Ngx_Parse
  imports Ngx_Number
begin

text \<open>
  The readers of configuration values of \<open>core/ngx_parse.c\<close>: \<open>ngx_parse_size\<close>, \<open>ngx_parse_offset\<close> and
  \<open>ngx_parse_time\<close>.  Numbers are 64-bit words that wrap.
\<close>

subsection \<open>Sizes and offsets\<close>

text \<open>
  The value of a number at its width, read as signed.  \<open>None\<close>: the line is empty and the byte before
  it is read.
\<close>

definition ngx_parse_size :: "bytes \<Rightarrow> int option" where
  "ngx_parse_size line =
     (if line = [] then None
      else
        let unit = last line;
            (digits, scale) =
              (if unit = 75 \<or> unit = 107 then (butlast line, 1024)
               else if unit = 77 \<or> unit = 109 then (butlast line, 1024 * 1024)
               else (line, 1 :: uint64_t));
            size = ngx_atosz digits
        in if size = NGX_ERROR then Some NGX_ERROR else Some (sint (word_of_int size * scale)))"

definition ngx_parse_offset :: "bytes \<Rightarrow> int option" where
  "ngx_parse_offset line =
     (if line = [] then None
      else
        let unit = last line;
            (digits, scale) =
              (if unit = 75 \<or> unit = 107 then (butlast line, 1024)
               else if unit = 77 \<or> unit = 109 then (butlast line, 1024 * 1024)
               else if unit = 71 \<or> unit = 103 then (butlast line, 1024 * 1024 * 1024)
               else (line, 1 :: uint64_t));
            offset = ngx_atoof digits
        in if offset = NGX_ERROR then Some NGX_ERROR else Some (sint (word_of_int offset * scale)))"

subsection \<open>Times\<close>

abbreviation NGX_MAX_INT32_VALUE :: uint64_t where "NGX_MAX_INT32_VALUE \<equiv> 0x7fffffff"

text \<open>The steps, in the order of the enumeration.\<close>

datatype time_step = st_start | st_year | st_month | st_week | st_day | st_hour | st_min | st_sec | st_msec | st_last

primrec step_nr :: "time_step \<Rightarrow> nat" where
  "step_nr st_start = 0" | "step_nr st_year = 1" | "step_nr st_month = 2" | "step_nr st_week = 3" | "step_nr st_day = 4"
| "step_nr st_hour = 5" | "step_nr st_min = 6" | "step_nr st_sec = 7" | "step_nr st_msec = 8" | "step_nr st_last = 9"

text \<open>
  The switch on a unit, with the bytes behind it: the next step, the largest value, the scale and
  what is left of the line.  \<open>nul\<close> is the byte behind the line, which is read after a final \<open>m\<close>.
\<close>

definition parse_unit :: "bool \<Rightarrow> time_step \<Rightarrow> u_char \<Rightarrow> bytes \<Rightarrow> u_char \<Rightarrow> (time_step \<times> uint64_t \<times> uint64_t \<times> bytes) option" where
  "parse_unit is_sec step c p nul =
     (if c = 121 \<comment> \<open>y\<close> then
        if step_nr step > step_nr st_start then None
        else Some (st_year, NGX_MAX_INT32_VALUE div (60 * 60 * 24 * 365), 60 * 60 * 24 * 365, p)
      else if c = 77 \<comment> \<open>M\<close> then
        if step_nr step \<ge> step_nr st_month then None
        else Some (st_month, NGX_MAX_INT32_VALUE div (60 * 60 * 24 * 30), 60 * 60 * 24 * 30, p)
      else if c = 119 \<comment> \<open>w\<close> then
        if step_nr step \<ge> step_nr st_week then None
        else Some (st_week, NGX_MAX_INT32_VALUE div (60 * 60 * 24 * 7), 60 * 60 * 24 * 7, p)
      else if c = 100 \<comment> \<open>d\<close> then
        if step_nr step \<ge> step_nr st_day then None
        else Some (st_day, NGX_MAX_INT32_VALUE div (60 * 60 * 24), 60 * 60 * 24, p)
      else if c = 104 \<comment> \<open>h\<close> then
        if step_nr step \<ge> step_nr st_hour then None
        else Some (st_hour, NGX_MAX_INT32_VALUE div (60 * 60), 60 * 60, p)
      else if c = 109 \<comment> \<open>m\<close> then
        if (case p of [] \<Rightarrow> nul | d # _ \<Rightarrow> d) = 115 \<comment> \<open>s\<close> then
          if is_sec \<or> step_nr step \<ge> step_nr st_msec then None
          else Some (st_msec, NGX_MAX_INT32_VALUE, 1, tl p)
        else if step_nr step \<ge> step_nr st_min then None
        else Some (st_min, NGX_MAX_INT32_VALUE div 60, 60, p)
      else if c = 115 \<comment> \<open>s\<close> then
        if step_nr step \<ge> step_nr st_sec then None
        else Some (st_sec, NGX_MAX_INT32_VALUE, 1, p)
      else if c = c_space then
        if step_nr step \<ge> step_nr st_sec then None
        else Some (st_last, NGX_MAX_INT32_VALUE, 1, p)
      else None)"

lemma parse_unit_length: "parse_unit is_sec step c p nul = Some (s, mx, sc, q) \<Longrightarrow> length q \<le> length p"
  by (auto simp: parse_unit_def split: if_splits)

function parse_time_loop :: "bool \<Rightarrow> u_char \<Rightarrow> bytes \<Rightarrow> uint64_t \<Rightarrow> uint64_t \<Rightarrow> time_step \<Rightarrow> uint64_t \<Rightarrow> bool \<Rightarrow> int" where
  "parse_time_loop is_sec nul [] value tot step scale valid = (if valid then sint (tot + value * scale) else NGX_ERROR)"
| "parse_time_loop is_sec nul (c # p) value tot step scale valid =
     (if c \<ge> c_0 \<and> c \<le> c_9 then parse_time_loop is_sec nul p (value * 10 + ucast (c - c_0)) tot step scale True
      else
        case parse_unit is_sec step c p nul of
          None \<Rightarrow> NGX_ERROR
        | Some (step, mx, scale, p) \<Rightarrow>
            let scale = (if step \<noteq> st_msec \<and> \<not> is_sec then scale * 1000 else scale);
                mx = (if step \<noteq> st_msec \<and> \<not> is_sec then mx div 1000 else mx)
            in if value > mx then NGX_ERROR
               else if tot + value * scale > NGX_MAX_INT32_VALUE then NGX_ERROR
               else
                 parse_time_loop is_sec nul (dropWhile (\<lambda>c. c = c_space) p) 0 (tot + value * scale) step
                   (if is_sec then 1 else 1000) valid)"
  by pat_completeness auto
termination
  by (relation "measure (\<lambda>(is_sec, nul, p, value, tot, step, scale, valid). length p)")
    (auto dest!: parse_unit_length intro: le_less_trans [OF length_dropWhile_le])

definition ngx_parse_time :: "bytes \<Rightarrow> u_char \<Rightarrow> bool \<Rightarrow> int" where
  "ngx_parse_time line nul is_sec =
     parse_time_loop is_sec nul line 0 0 (if is_sec then st_start else st_month) (if is_sec then 1 else 1000) False"

subsection \<open>Properties\<close>

lemma atosz_decimal: "n < 2 ^ 63 \<Longrightarrow> ngx_atosz (decimal n) = int n"
  by (rule atosz.parse_decimal)

text \<open>
  A size is the number scaled by its unit modulo \<open>2^64\<close>, read as signed: the multiplication is not
  checked, so the value is the one that was written exactly when that is below \<open>2^63\<close>.
\<close>

theorem parse_size_scaled:
  assumes "n < 2 ^ 63" "unit \<in> {75, 107, 77, 109}"
  shows "ngx_parse_size (decimal n @ [unit]) =
    Some (sint (of_nat (n * (if unit \<in> {75, 107} then 1024 else 1024 * 1024)) :: uint64_t))"
proof -
  have e: "(word_of_int (int n) :: uint64_t) = of_nat n" by simp
  have "int n \<noteq> NGX_ERROR" by simp
  then show ?thesis using assms(2) atosz_decimal [OF assms(1)]
    by (auto simp: ngx_parse_size_def e simp del: of_int_of_nat_eq)
qed

theorem parse_size_scaled_witness:
  "ngx_parse_size (decimal 17592186044416 @ [77]) = Some 0"
  using parse_size_scaled [of 17592186044416 77] by simp

text \<open>The units of a time and their lengths in seconds.\<close>

primrec unit_char :: "time_step \<Rightarrow> u_char" where
  "unit_char st_start = 0" | "unit_char st_year = 121" | "unit_char st_month = 77" | "unit_char st_week = 119"
| "unit_char st_day = 100" | "unit_char st_hour = 104" | "unit_char st_min = 109" | "unit_char st_sec = 115"
| "unit_char st_msec = 0" | "unit_char st_last = 0"

primrec unit_seconds :: "time_step \<Rightarrow> nat" where
  "unit_seconds st_start = 0" | "unit_seconds st_year = 31536000" | "unit_seconds st_month = 2592000"
| "unit_seconds st_week = 604800" | "unit_seconds st_day = 86400" | "unit_seconds st_hour = 3600"
| "unit_seconds st_min = 60" | "unit_seconds st_sec = 1" | "unit_seconds st_msec = 0" | "unit_seconds st_last = 0"

definition time_text :: "(nat \<times> time_step) list \<Rightarrow> bytes" where
  "time_text items = concat (map (\<lambda>(v, u). decimal v @ [unit_char u]) items)"

definition time_seconds :: "(nat \<times> time_step) list \<Rightarrow> nat" where
  "time_seconds items = sum_list (map (\<lambda>(v, u). v * unit_seconds u) items)"

lemma time_simps [simp]:
  "time_text [] = []" "time_text ((v, u) # items) = decimal v @ unit_char u # time_text items"
  "time_seconds [] = 0" "time_seconds ((v, u) # items) = v * unit_seconds u + time_seconds items"
  by (simp_all add: time_text_def time_seconds_def)

lemma parse_time_digits:
  "all_digits s \<Longrightarrow> parse_time_loop is_sec nul (s @ p) (of_nat v) tot step scale valid =
    parse_time_loop is_sec nul p (of_nat (pos_value 10 digit_value v s)) tot step scale (valid \<or> s \<noteq> [])"
proof (induction s arbitrary: v valid)
  case (Cons c s)
  have "parse_time_loop is_sec nul ((c # s) @ p) (of_nat v) tot step scale valid =
      parse_time_loop is_sec nul (s @ p) (of_nat (v * 10 + digit_value c)) tot step scale True"
    using Cons.prems by (simp add: ucast_digit) (simp add: is_digit_def)
  then show ?case using Cons.IH [of "v * 10 + digit_value c" True] Cons.prems by simp
qed simp

lemma unit_not_digit: "\<not> (unit_char u \<ge> c_0 \<and> unit_char u \<le> c_9)"
  by (cases u) simp_all

lemma parse_unit_next:
  assumes "step_nr step < step_nr u" "u \<in> {st_year, st_month, st_week, st_day, st_hour, st_min, st_sec}"
    "(case p of [] \<Rightarrow> nul | d # _ \<Rightarrow> d) \<noteq> 115"
  shows "parse_unit True step (unit_char u) p nul = Some (u, NGX_MAX_INT32_VALUE div of_nat (unit_seconds u), of_nat (unit_seconds u), p)"
  using assms by (cases u) (simp_all add: parse_unit_def)

lemma time_text_no_unit:
  "nul \<noteq> 115 \<Longrightarrow> (case time_text items of [] \<Rightarrow> nul | d # _ \<Rightarrow> d) \<noteq> 115"
  "dropWhile (\<lambda>c. c = c_space) (time_text items) = time_text items"
proof -
  have "\<exists>d p. time_text items = d # p \<and> is_digit d" if ne: "items \<noteq> []"
  proof -
    obtain v u r where i: "items = (v, u) # r" using ne by (cases items) auto
    obtain d ds where d: "decimal v = d # ds" using decimal_nonempty [of v] by (cases "decimal v") auto
    then have "is_digit d" using list_all_decimal [of v] by simp
    then show ?thesis using i d by simp
  qed
  then show "nul \<noteq> 115 \<Longrightarrow> (case time_text items of [] \<Rightarrow> nul | d # _ \<Rightarrow> d) \<noteq> 115"
    "dropWhile (\<lambda>c. c = c_space) (time_text items) = time_text items"
    by (cases "items = []"; fastforce simp: is_digit_def)+
qed

lemma parse_time_items:
  assumes "sorted_wrt (\<lambda>a b. step_nr a < step_nr b) (step # map snd items)"
    "set (map snd items) \<subseteq> {st_year, st_month, st_week, st_day, st_hour, st_min, st_sec}"
    "tot + time_seconds items \<le> 0x7fffffff" "nul \<noteq> 115" "valid \<or> items \<noteq> []"
  shows "parse_time_loop True nul (time_text items) 0 (of_nat tot) step 1 valid = int (tot + time_seconds items)"
  using assms
proof (induction items arbitrary: tot step valid)
  case Nil
  then show ?case by (simp add: sint_of_nat_64)
next
  case (Cons i items)
  obtain v u where i: "i = (v, u)" by fastforce
  have u: "step_nr step < step_nr u" "u \<in> {st_year, st_month, st_week, st_day, st_hour, st_min, st_sec}" "0 < unit_seconds u"
    using Cons.prems(1,2) i by auto
  have le: "tot + v * unit_seconds u + time_seconds items \<le> 0x7fffffff" using Cons.prems(3) i by simp
  have "v * unit_seconds u \<le> 0x7fffffff" using le by linarith
  then have vm: "v \<le> 0x7fffffff div unit_seconds u" using u(3) by (simp add: less_eq_div_iff_mult_less_eq)
  have vmax: "v \<le> 0x7fffffff" using vm div_le_dividend [of "0x7fffffff" "unit_seconds u"] by linarith
  have us: "unit_seconds u \<le> 31536000" by (cases u) simp_all
  have mx: "NGX_MAX_INT32_VALUE div of_nat (unit_seconds u) = of_nat (0x7fffffff div unit_seconds u)"
    using us u(3) le_less_trans [OF div_le_dividend [of "0x7fffffff" "unit_seconds u"], of "2 ^ 64"]
    by (simp add: word_unat_eq_iff unat_div unat_of_nat)
  have small: "\<not> (of_nat v :: uint64_t) > of_nat (0x7fffffff div unit_seconds u)"
    using vm le_less_trans [OF div_le_dividend [of "0x7fffffff" "unit_seconds u"], of "2 ^ 64"] le_less_trans [OF vmax, of "2 ^ 64"]
    by (simp add: word_less_nat_alt unat_of_nat)
  have sum: "\<not> (of_nat tot + of_nat v * of_nat (unit_seconds u) :: uint64_t) > NGX_MAX_INT32_VALUE"
  proof -
    have "tot + v * unit_seconds u \<le> 0x7fffffff" using le by simp
    moreover from le_less_trans [OF this, of "2 ^ 64"] have "tot + v * unit_seconds u < 2 ^ 64" by simp
    ultimately have "unat (of_nat (tot + v * unit_seconds u) :: uint64_t) \<le> 0x7fffffff" by (simp only: unat_of_nat) simp
    then show ?thesis by (simp add: word_less_nat_alt)
  qed
  have "parse_time_loop True nul (time_text (i # items)) 0 (of_nat tot) step 1 valid =
      parse_time_loop True nul (unit_char u # time_text items) (of_nat v) (of_nat tot) step 1 True"
    using parse_time_digits [of "decimal v" True nul "unit_char u # time_text items" 0 "of_nat tot" step 1 valid] i by simp
  also have "\<dots> = parse_time_loop True nul (time_text items) 0 (of_nat tot + of_nat v * of_nat (unit_seconds u)) u 1 True"
    using parse_unit_next [OF u(1,2) time_text_no_unit(1) [OF Cons.prems(4)]] unit_not_digit [of u] small sum mx time_text_no_unit(2)
    by (simp only: parse_time_loop.simps if_False option.case prod.case Let_def simp_thms if_True)
  also have "\<dots> = parse_time_loop True nul (time_text items) 0 (of_nat (tot + v * unit_seconds u)) u 1 True" by simp
  also have "\<dots> = int (tot + v * unit_seconds u + time_seconds items)"
    by (rule Cons.IH) (use Cons.prems i le in auto)
  finally show ?case using i by simp
qed

text \<open>
  A time made of numbers with units in the order of the units, years to seconds, each at most
  once, is read as the sum in seconds whenever the sum fits 31 bits.
\<close>

theorem parse_time_sum:
  assumes "sorted_wrt (\<lambda>a b. step_nr a < step_nr b) (map snd items)"
    "set (map snd items) \<subseteq> {st_year, st_month, st_week, st_day, st_hour, st_min, st_sec}"
    "items \<noteq> []" "time_seconds items \<le> 0x7fffffff" "nul \<noteq> 115"
  shows "ngx_parse_time (time_text items) nul True = int (time_seconds items)"
proof -
  have "\<forall>u\<in>set (map snd items). step_nr st_start < step_nr u" using assms(2) by auto
  then have "sorted_wrt (\<lambda>a b. step_nr a < step_nr b) (st_start # map snd items)" using assms(1) by simp
  from parse_time_items [OF this assms(2), of 0 nul False] assms(3-5) show ?thesis by (simp add: ngx_parse_time_def)
qed

theorem parse_time_sum_witness: "ngx_parse_time (bs ''1h30m'') 0 True = 5400"
proof -
  have t: "bs ''1h30m'' = time_text [(1, st_hour), (30, st_min)]" by code_simp
  show ?thesis unfolding t by (subst parse_time_sum) simp_all
qed

end
