(* ===== verification/Ngx_Radix.thy ===== *)
theory Ngx_Radix
  imports Ngx_Prelude "HOL-Library.Multiset"
begin

text \<open>
  The radix tree of \<open>core/ngx_radix_tree.c\<close>, which maps address prefixes to values: allocation from
  pages and a free list, insertion, deletion with pruning, search, creation.

  The memory is a map from addresses to nodes; \<open>holds\<close> says that it contains an abstract tree and
  \<open>chain\<close> that it contains the free list, and a context (\<open>fill\<close>, \<open>ctx_holds\<close>) is a tree with a hole, so
  that a loop that walks down or up is an induction with the rest of the tree kept aside.  The
  operations refine a table indexed by prefixes, \<open>radix_lookup\<close>.
\<close>

unbundle bit_operations_syntax

subsection \<open>Nodes, trees and memory\<close>

type_synonym node_ptr = nat

record ngx_radix_node_t =
  rn_right :: node_ptr
  rn_left :: node_ptr
  rn_parent :: node_ptr
  rn_value :: uint64_t

type_synonym radix_mem = "node_ptr \<Rightarrow> ngx_radix_node_t"

text \<open>
  \<open>pool\<close> stands for the pool: the pages that the next calls of \<open>ngx_pmemalign\<close> return, and \<open>NULL\<close>
  when there is none left.
\<close>

record ngx_radix_tree_t =
  rt_root :: node_ptr
  rt_pool :: "node_ptr list"
  rt_free :: node_ptr
  rt_start :: node_ptr
  rt_size :: nat
  rt_mem :: radix_mem


definition NGX_RADIX_NO_VALUE :: uint64_t where
  "NGX_RADIX_NO_VALUE = - 1"

text \<open>\<open>sizeof(ngx_radix_node_t)\<close>, \<open>sizeof(ngx_radix_tree_t)\<close> and the page of the modelled platform.\<close>

definition radix_node_size :: nat where "radix_node_size = 32"
definition radix_tree_size :: nat where "radix_tree_size = 40"
definition ngx_pagesize :: nat where "ngx_pagesize = 4096"

definition ngx_radix_alloc :: "ngx_radix_tree_t \<Rightarrow> node_ptr \<times> ngx_radix_tree_t" where
  "ngx_radix_alloc tree =
     (if rt_free tree \<noteq> 0 then (rt_free tree, tree\<lparr>rt_free := rn_right (rt_mem tree (rt_free tree))\<rparr>)
      else if rt_size tree < radix_node_size \<and> rt_pool tree = [] then (0, tree\<lparr>rt_start := 0\<rparr>)
      else
        let tree = (if rt_size tree < radix_node_size
                    then tree\<lparr>rt_start := hd (rt_pool tree), rt_size := ngx_pagesize, rt_pool := tl (rt_pool tree)\<rparr>
                    else tree)
        in (rt_start tree, tree\<lparr>rt_start := rt_start tree + radix_node_size, rt_size := rt_size tree - radix_node_size\<rparr>))"

subsection \<open>Insertion\<close>

text \<open>The value \<open>None\<close>: a null pointer is dereferenced.\<close>

definition rn_child :: "radix_mem \<Rightarrow> node_ptr \<Rightarrow> uint32_t \<Rightarrow> uint32_t \<Rightarrow> node_ptr" where
  "rn_child m node key bt = (if key AND bt \<noteq> 0 then rn_right (m node) else rn_left (m node))"

lemma half_less: "b AND k \<noteq> 0 \<Longrightarrow> unat (drop_bit (Suc 0) b) < unat b" for b k :: uint32_t
proof -
  assume "b AND k \<noteq> 0"
  then have "b \<noteq> 0" by auto
  then show ?thesis by (simp only: unat_drop_bit_eq) (simp add: drop_bit_eq_div unat_gt_0)
qed

function radix_walk :: "radix_mem \<Rightarrow> uint32_t \<Rightarrow> uint32_t \<Rightarrow> uint32_t \<Rightarrow> node_ptr \<Rightarrow> node_ptr \<Rightarrow> (uint32_t \<times> node_ptr \<times> node_ptr) option" where
  "radix_walk m key msk bt node next =
     (if bt AND msk \<noteq> 0 then
        if node = 0 then None
        else
          let next = rn_child m node key bt in
          if next = 0 then Some (bt, node, next) else radix_walk m key msk (drop_bit 1 bt) next next
      else Some (bt, node, next))"
  by pat_completeness auto
termination
  by (relation "measure (\<lambda>(m, key, msk, bt, node, next). unat bt)") (auto intro: half_less)

function radix_build :: "uint32_t \<Rightarrow> uint32_t \<Rightarrow> uint32_t \<Rightarrow> node_ptr \<Rightarrow> ngx_radix_tree_t \<Rightarrow> int \<times> node_ptr \<times> ngx_radix_tree_t" where
  "radix_build key msk bt node tree =
     (if bt AND msk \<noteq> 0 then
        case ngx_radix_alloc tree of (next, tree) \<Rightarrow>
          if next = 0 then (NGX_ERROR, node, tree)
          else
            let m = (rt_mem tree)(next := \<lparr>rn_right = 0, rn_left = 0, rn_parent = node, rn_value = NGX_RADIX_NO_VALUE\<rparr>);
                m = m(node := (if key AND bt \<noteq> 0 then (m node)\<lparr>rn_right := next\<rparr> else (m node)\<lparr>rn_left := next\<rparr>))
            in radix_build key msk (drop_bit 1 bt) next (tree\<lparr>rt_mem := m\<rparr>)
      else (NGX_OK, node, tree))"
  by pat_completeness auto
termination
  by (relation "measure (\<lambda>(key, msk, bt, node, tree). unat bt)") (auto intro: half_less)

definition ngx_radix32tree_insert ::
  "ngx_radix_tree_t \<Rightarrow> uint32_t \<Rightarrow> uint32_t \<Rightarrow> uint64_t \<Rightarrow> (int \<times> ngx_radix_tree_t) option" where
  "ngx_radix32tree_insert tree key msk value =
     (let m = rt_mem tree in
      case radix_walk m key msk 0x80000000 (rt_root tree) (rt_root tree) of
        None \<Rightarrow> None
      | Some (bt, node, next) \<Rightarrow>
          if next \<noteq> 0 then
            if rn_value (m node) \<noteq> NGX_RADIX_NO_VALUE then Some (NGX_BUSY, tree)
            else Some (NGX_OK, tree\<lparr>rt_mem := m(node := (m node)\<lparr>rn_value := value\<rparr>)\<rparr>)
          else
            case radix_build key msk bt node tree of (rc, node, tree) \<Rightarrow>
              if rc = NGX_ERROR then Some (NGX_ERROR, tree)
              else Some (NGX_OK, tree\<lparr>rt_mem := (rt_mem tree)(node := (rt_mem tree node)\<lparr>rn_value := value\<rparr>)\<rparr>))"

subsection \<open>Deletion and search\<close>

function radix_descend :: "radix_mem \<Rightarrow> uint32_t \<Rightarrow> uint32_t \<Rightarrow> uint32_t \<Rightarrow> node_ptr \<Rightarrow> node_ptr" where
  "radix_descend m key msk bt node =
     (if node \<noteq> 0 \<and> bt AND msk \<noteq> 0 then radix_descend m key msk (drop_bit 1 bt) (rn_child m node key bt) else node)"
  by pat_completeness auto
termination
  by (relation "measure (\<lambda>(m, key, msk, bt, node). unat bt)") (auto intro: half_less)

text \<open>The loop that takes a leaf out of the tree; \<open>None\<close> also stands for a loop that does not end.\<close>

partial_function (option) radix_prune :: "radix_mem \<Rightarrow> node_ptr \<Rightarrow> node_ptr \<Rightarrow> (radix_mem \<times> node_ptr) option" where
  "radix_prune m free node =
     (let parent = rn_parent (m node) in
      if parent = 0 then None
      else
        let m = m(parent := (if rn_right (m parent) = node then (m parent)\<lparr>rn_right := 0\<rparr> else (m parent)\<lparr>rn_left := 0\<rparr>));
            m = m(node := (m node)\<lparr>rn_right := free\<rparr>)
        in if rn_right (m parent) \<noteq> 0 \<or> rn_left (m parent) \<noteq> 0 then Some (m, node)
           else if rn_value (m parent) \<noteq> NGX_RADIX_NO_VALUE then Some (m, node)
           else if rn_parent (m parent) = 0 then Some (m, node)
           else radix_prune m node parent)"

definition ngx_radix32tree_delete :: "ngx_radix_tree_t \<Rightarrow> uint32_t \<Rightarrow> uint32_t \<Rightarrow> (int \<times> ngx_radix_tree_t) option" where
  "ngx_radix32tree_delete tree key msk =
     (let m = rt_mem tree; node = radix_descend m key msk 0x80000000 (rt_root tree) in
      if node = 0 then Some (NGX_ERROR, tree)
      else if rn_right (m node) \<noteq> 0 \<or> rn_left (m node) \<noteq> 0 then
        if rn_value (m node) \<noteq> NGX_RADIX_NO_VALUE
        then Some (NGX_OK, tree\<lparr>rt_mem := m(node := (m node)\<lparr>rn_value := NGX_RADIX_NO_VALUE\<rparr>)\<rparr>)
        else Some (NGX_ERROR, tree)
      else map_option (\<lambda>(m, free). (NGX_OK, tree\<lparr>rt_mem := m, rt_free := free\<rparr>)) (radix_prune m (rt_free tree) node))"

partial_function (option) radix_find :: "radix_mem \<Rightarrow> uint32_t \<Rightarrow> uint32_t \<Rightarrow> node_ptr \<Rightarrow> uint64_t \<Rightarrow> uint64_t option" where
  "radix_find m key bt node value =
     (if node \<noteq> 0 then
        radix_find m key (drop_bit 1 bt) (rn_child m node key bt)
          (if rn_value (m node) \<noteq> NGX_RADIX_NO_VALUE then rn_value (m node) else value)
      else Some value)"

definition ngx_radix32tree_find :: "ngx_radix_tree_t \<Rightarrow> uint32_t \<Rightarrow> uint64_t option" where
  "ngx_radix32tree_find tree key = radix_find (rt_mem tree) key 0x80000000 (rt_root tree) NGX_RADIX_NO_VALUE"

subsection \<open>Creation\<close>

text \<open>The two loops of the preallocation; the inner one ends when \<open>key\<close> wraps to zero.\<close>

partial_function (option) radix_prealloc_level ::
  "uint32_t \<Rightarrow> uint32_t \<Rightarrow> uint32_t \<Rightarrow> ngx_radix_tree_t \<Rightarrow> (int \<times> ngx_radix_tree_t) option" where
  "radix_prealloc_level msk inc key tree =
     (case ngx_radix32tree_insert tree key msk NGX_RADIX_NO_VALUE of
        None \<Rightarrow> None
      | Some (rc, tree) \<Rightarrow>
          if rc \<noteq> NGX_OK then Some (NGX_ERROR, tree)
          else if key + inc = 0 then Some (NGX_OK, tree)
          else radix_prealloc_level msk inc (key + inc) tree)"

fun radix_prealloc :: "nat \<Rightarrow> uint32_t \<Rightarrow> uint32_t \<Rightarrow> ngx_radix_tree_t \<Rightarrow> (int \<times> ngx_radix_tree_t) option" where
  "radix_prealloc 0 msk inc tree = Some (NGX_OK, tree)"
| "radix_prealloc (Suc n) msk inc tree =
     (let msk = drop_bit 1 msk OR 0x80000000 in
      case radix_prealloc_level msk inc 0 tree of
        None \<Rightarrow> None
      | Some (rc, tree) \<Rightarrow> if rc \<noteq> NGX_OK then Some (NGX_ERROR, tree) else radix_prealloc n msk (drop_bit 1 inc) tree)"

text \<open>
  \<open>radix_levels\<close> is the choice for \<open>-1\<close>;
  with another negative count the loop overflows and there is no result.
  The tree starts out in a memory that holds anything.  The first component: what the call
  returns, \<open>Some None\<close> for \<open>NULL\<close>.
\<close>

definition radix_levels :: nat where
  "radix_levels =
     (if ngx_pagesize div radix_tree_size = 128 then 6 else if ngx_pagesize div radix_tree_size = 256 then 7 else 8)"

definition ngx_radix_tree_create :: "node_ptr list \<Rightarrow> radix_mem \<Rightarrow> int \<Rightarrow> ngx_radix_tree_t option option" where
  "ngx_radix_tree_create pool m preallocate =
     (case ngx_radix_alloc \<lparr>rt_root = 0, rt_pool = pool, rt_free = 0, rt_start = 0, rt_size = 0, rt_mem = m\<rparr> of (root, tree) \<Rightarrow>
        if root = 0 then Some None
        else
          let tree = tree\<lparr>rt_root := root,
                rt_mem := (rt_mem tree)(root := \<lparr>rn_right = 0, rn_left = 0, rn_parent = 0, rn_value = NGX_RADIX_NO_VALUE\<rparr>)\<rparr>
          in if preallocate = 0 then Some (Some tree)
             else if preallocate < - 1 then None
             else
               let n = (if preallocate = - 1 then radix_levels else nat preallocate) in
               map_option (\<lambda>(rc, tree). if rc \<noteq> NGX_OK then None else Some tree) (radix_prealloc n 0 0x80000000 tree))"

subsection \<open>The bits of a key\<close>

definition bit_at :: "nat \<Rightarrow> uint32_t" where
  "bit_at d = (if d < 32 then push_bit (31 - d) 1 else 0)"

lemma bit_at_0: "bit_at 0 = 0x80000000"
  by (simp add: bit_at_def)

lemma bit_at_Suc [simp]: "drop_bit (Suc 0) (bit_at d) = bit_at (Suc d)"
proof (rule bit_word_eqI)
  fix n assume "n < LENGTH(32)"
  then show "bit (drop_bit (Suc 0) (bit_at d)) n \<longleftrightarrow> bit (bit_at (Suc d)) n"
    by (cases "d < 32") (auto simp: bit_at_def bit_simps)
qed

lemma and_bit_at: "x AND bit_at d \<noteq> 0 \<longleftrightarrow> d < 32 \<and> bit x (31 - d)"
proof (cases "d < 32")
  case True
  have "bit (x AND bit_at d) n \<longleftrightarrow> n = 31 - d \<and> bit x (31 - d)" for n
    using True by (auto simp: bit_at_def bit_simps)
  then show ?thesis using True bit_eq_iff [of "x AND bit_at d" 0] by auto
qed (simp add: bit_at_def)

lemma and_bit_at': "bit_at d AND x \<noteq> 0 \<longleftrightarrow> d < 32 \<and> bit x (31 - d)"
  using and_bit_at [of x d] by (simp add: and.commute)

text \<open>The path that a mask selects: the bits of the key under the leading ones of the mask.\<close>

function radix_path :: "uint32_t \<Rightarrow> uint32_t \<Rightarrow> nat \<Rightarrow> bool list" where
  "radix_path key msk d = (if d < 32 \<and> bit msk (31 - d) then bit key (31 - d) # radix_path key msk (Suc d) else [])"
  by pat_completeness auto
termination by (relation "measure (\<lambda>(key, msk, d). 32 - d)") auto

declare radix_path.simps [simp del]

lemma length_radix_path: "d \<le> 32 \<Longrightarrow> d + length (radix_path key msk d) \<le> 32"
proof (induction key msk d rule: radix_path.induct)
  case (1 key msk d)
  then show ?case by (subst radix_path.simps) auto
qed

text \<open>All bits of a key.\<close>

definition key_bits :: "uint32_t \<Rightarrow> bool list" where
  "key_bits key = map (\<lambda>d. bit key (31 - d)) [0..<32]"

lemma length_key_bits [simp]: "length (key_bits key) = 32"
  by (simp add: key_bits_def)

lemma drop_key_bits: "d < 32 \<Longrightarrow> drop d (key_bits key) = bit key (31 - d) # drop (Suc d) (key_bits key)"
  by (simp add: Cons_nth_drop_Suc [symmetric] key_bits_def)

subsection \<open>The tree in the memory\<close>

datatype rtree = Tip | Node node_ptr rtree rtree uint64_t

primrec node_ptrs :: "rtree \<Rightarrow> node_ptr list" where
  "node_ptrs Tip = []"
| "node_ptrs (Node a r l v) = a # node_ptrs r @ node_ptrs l"

primrec holds :: "radix_mem \<Rightarrow> node_ptr \<Rightarrow> node_ptr \<Rightarrow> rtree \<Rightarrow> bool" where
  "holds m par p Tip \<longleftrightarrow> p = 0"
| "holds m par p (Node a r l v) \<longleftrightarrow>
     p = a \<and> a \<noteq> 0 \<and> rn_parent (m a) = par \<and> rn_value (m a) = v \<and> holds m a (rn_right (m a)) r \<and> holds m a (rn_left (m a)) l"

lemma holds_cong: "(\<And>a. a \<in> set (node_ptrs T) \<Longrightarrow> m' a = m a) \<Longrightarrow> holds m' par p T = holds m par p T"
  by (induction T arbitrary: par p) auto

lemma holds_upd [simp]: "a \<notin> set (node_ptrs T) \<Longrightarrow> holds (m(a := x)) par p T = holds m par p T"
  by (rule holds_cong) auto

text \<open>The value at a path, in the tree and read from the memory.\<close>

primrec rchild :: "rtree \<Rightarrow> bool \<Rightarrow> rtree" where
  "rchild Tip b = Tip"
| "rchild (Node a r l v) b = (if b then r else l)"

primrec rvalue :: "rtree \<Rightarrow> uint64_t" where
  "rvalue Tip = NGX_RADIX_NO_VALUE"
| "rvalue (Node a r l v) = v"

primrec value_at :: "bool list \<Rightarrow> rtree \<Rightarrow> uint64_t" where
  "value_at [] T = rvalue T"
| "value_at (b # ks) T = value_at ks (rchild T b)"

primrec mem_value :: "radix_mem \<Rightarrow> bool list \<Rightarrow> node_ptr \<Rightarrow> uint64_t" where
  "mem_value m [] p = (if p = 0 then NGX_RADIX_NO_VALUE else rn_value (m p))"
| "mem_value m (b # ks) p = (if p = 0 then NGX_RADIX_NO_VALUE else mem_value m ks (if b then rn_right (m p) else rn_left (m p)))"

lemma value_at_Tip [simp]: "value_at ks Tip = NGX_RADIX_NO_VALUE"
  by (induction ks) simp_all

lemma mem_value_at: "holds m par p T \<Longrightarrow> mem_value m ks p = value_at ks T"
proof (induction ks arbitrary: par p T)
  case Nil
  then show ?case by (cases T) auto
next
  case (Cons b ks)
  show ?case
  proof (cases T)
    case (Node a r l v)
    then have "holds m a (if b then rn_right (m a) else rn_left (m a)) (rchild T b)" using Cons.prems by simp
    then show ?thesis using Cons.IH Cons.prems Node by simp
  qed (use Cons.prems in simp)
qed

text \<open>Depth.\<close>

primrec deep :: "rtree \<Rightarrow> nat \<Rightarrow> bool" where
  "deep Tip n \<longleftrightarrow> True"
| "deep (Node a r l v) n \<longleftrightarrow> 0 < n \<and> deep r (n - 1) \<and> deep l (n - 1)"

subsection \<open>Contexts\<close>

text \<open>
  A context is a tree with a hole, given from the hole to the root: for each ancestor its address,
  the side of the hole, the other subtree, and its value.
\<close>

type_synonym rctx = "(node_ptr \<times> bool \<times> rtree \<times> uint64_t) list"

fun fill :: "rctx \<Rightarrow> rtree \<Rightarrow> rtree" where
  "fill [] T = T"
| "fill ((a, b, S, v) # C) T = fill C (if b then Node a T S v else Node a S T v)"

fun ctx_path :: "rctx \<Rightarrow> bool list" where
  "ctx_path [] = []"
| "ctx_path ((a, b, S, v) # C) = ctx_path C @ [b]"

fun ctx_ptrs :: "rctx \<Rightarrow> node_ptr list" where
  "ctx_ptrs [] = []"
| "ctx_ptrs ((a, b, S, v) # C) = a # node_ptrs S @ ctx_ptrs C"

fun ctx_holds :: "radix_mem \<Rightarrow> node_ptr \<Rightarrow> node_ptr \<Rightarrow> node_ptr \<Rightarrow> rctx \<Rightarrow> bool" where
  "ctx_holds m root par p [] \<longleftrightarrow> par = 0 \<and> p = root"
| "ctx_holds m root par p ((a, b, S, v) # C) \<longleftrightarrow>
     par = a \<and> a \<noteq> 0 \<and> rn_value (m a) = v \<and>
     (if b then rn_right (m a) = p \<and> holds m a (rn_left (m a)) S else rn_left (m a) = p \<and> holds m a (rn_right (m a)) S) \<and>
     ctx_holds m root (rn_parent (m a)) a C"

lemma ctx_holds_cong: "(\<And>a. a \<in> set (ctx_ptrs C) \<Longrightarrow> m' a = m a) \<Longrightarrow> ctx_holds m' root par p C = ctx_holds m root par p C"
proof (induction m root par p C rule: ctx_holds.induct)
  case (2 m root par p a b S v C)
  have "holds m' q x S = holds m q x S" for q x using 2(2) by (intro holds_cong) auto
  moreover have "ctx_holds m' root (rn_parent (m a)) a C = ctx_holds m root (rn_parent (m a)) a C" by (rule 2(1)) (use 2(2) in auto)
  moreover have "m' a = m a" using 2(2) by simp
  ultimately show ?case by simp
qed simp

lemma ctx_holds_upd [simp]: "a \<notin> set (ctx_ptrs C) \<Longrightarrow> ctx_holds (m(a := x)) root par p C = ctx_holds m root par p C"
  by (rule ctx_holds_cong) auto

lemma ctx_length [simp]: "length (ctx_path C) = length C"
  by (induction C rule: ctx_path.induct) auto

lemma ctx_ptrs_nonzero: "ctx_holds m root par p C \<Longrightarrow> C \<noteq> [] \<Longrightarrow> par \<noteq> 0"
  by (cases C) auto

lemma mset_fill: "mset (node_ptrs (fill C T)) = mset (ctx_ptrs C) + mset (node_ptrs T)"
  by (induction C T rule: fill.induct) auto

lemma distinct_fill: "distinct (node_ptrs (fill C T)) \<longleftrightarrow> distinct (ctx_ptrs C @ node_ptrs T)"
  by (metis mset_append mset_eq_imp_distinct_iff mset_fill)

lemma holds_fill: "ctx_holds m root par p C \<Longrightarrow> holds m par p T \<Longrightarrow> holds m 0 root (fill C T)"
proof (induction C T arbitrary: par p rule: fill.induct)
  case (2 a b S v C T)
  then show ?case by (cases b) auto
qed simp

lemma fill_not_Tip: "C \<noteq> [] \<or> T \<noteq> Tip \<Longrightarrow> fill C T \<noteq> Tip"
  by (induction C T rule: fill.induct) auto

lemma value_at_fill_same: "value_at (ctx_path C @ ks) (fill C T) = value_at ks T"
  by (induction C T arbitrary: ks rule: fill.induct) auto

lemma value_at_fill_end [simp]: "value_at (ctx_path C) (fill C T) = rvalue T"
  using value_at_fill_same [of C "[]"] by simp

lemma value_at_fill_other: "\<nexists>ds. ks = ctx_path C @ ds \<Longrightarrow> value_at ks (fill C T) = value_at ks (fill C T')"
proof (induction C T arbitrary: T' rule: fill.induct)
  case (2 a b S v C T)
  show ?case
  proof (cases "\<exists>ds. ks = ctx_path C @ ds")
    case True
    then obtain ds where ds: "ks = ctx_path C @ ds" ..
    then show ?thesis using 2(2) by (cases ds) (auto simp: value_at_fill_same)
  qed (use 2 in simp)
qed simp

lemma value_at_fill_cong: "(\<And>ds. value_at ds T = value_at ds T') \<Longrightarrow> value_at ks (fill C T) = value_at ks (fill C T')"
  by (metis value_at_fill_other value_at_fill_same)

lemma value_at_fill_upd:
  assumes "\<And>ds. value_at ds T' = (if ds = [] then w else value_at ds T)"
  shows "(\<lambda>ks. value_at ks (fill C T')) = (\<lambda>ks. value_at ks (fill C T))(ctx_path C := w)"
proof
  fix ks
  show "value_at ks (fill C T') = ((\<lambda>ks. value_at ks (fill C T))(ctx_path C := w)) ks"
  proof (cases "\<exists>ds. ks = ctx_path C @ ds")
    case True
    then obtain ds where ds: "ks = ctx_path C @ ds" ..
    then show ?thesis using assms [of ds] by (cases "ds = []") (simp_all add: value_at_fill_same)
  next
    case False
    then have "ks \<noteq> ctx_path C" by auto
    then show ?thesis using value_at_fill_other [OF False] by simp
  qed
qed

lemma deep_fill:
  assumes "deep (fill C T) n" "length C \<le> n" "\<And>k. length C + k = n \<Longrightarrow> deep T k \<Longrightarrow> deep T' k"
  shows "deep (fill C T') n"
  using assms
proof (induction C T arbitrary: T' rule: fill.induct)
  case (2 a b S v C T)
  show ?case
    by (simp, intro conjI impI; rule 2(1) [OF 2(2) [simplified]]) (use 2(3,4) in \<open>auto split: if_splits\<close>)
qed simp

lemma deep_fill':
  assumes "deep (fill C T) n" "\<And>k. deep T k \<Longrightarrow> deep T' k"
  shows "deep (fill C T') n"
  using assms
proof (induction C T arbitrary: T' rule: fill.induct)
  case (2 a b S v C T)
  show ?case by (simp, intro conjI impI; rule 2(1) [OF 2(2) [simplified]]) (use 2(3) in \<open>auto split: if_splits\<close>)
qed simp

subsection \<open>The invariant\<close>

fun chain :: "radix_mem \<Rightarrow> node_ptr \<Rightarrow> node_ptr list \<Rightarrow> bool" where
  "chain m p [] \<longleftrightarrow> p = 0"
| "chain m p (f # fs) \<longleftrightarrow> p = f \<and> f \<noteq> 0 \<and> chain m (rn_right (m f)) fs"

lemma chain_cong: "(\<And>a. a \<in> set fs \<Longrightarrow> m' a = m a) \<Longrightarrow> chain m' p fs = chain m p fs"
  by (induction fs arbitrary: p) auto

lemma chain_upd [simp]: "a \<notin> set fs \<Longrightarrow> chain (m(a := x)) p fs = chain m p fs"
  by (rule chain_cong) auto

text \<open>The nodes that a piece of a page still holds.\<close>

fun piece :: "nat \<Rightarrow> nat \<Rightarrow> node_ptr list" where
  "piece start 0 = []"
| "piece start (Suc n) = start # piece (start + radix_node_size) n"

definition arena :: "ngx_radix_tree_t \<Rightarrow> node_ptr list" where
  "arena t = piece (rt_start t) (rt_size t div radix_node_size) @
     concat (map (\<lambda>p. piece p (ngx_pagesize div radix_node_size)) (rt_pool t))"

text \<open>
  The memory holds the tree \<open>T\<close> and the free list \<open>fs\<close>; these nodes and the ones not yet cut from
  the pages are different and not null; no path is longer than a key.
\<close>

definition radix_repr :: "ngx_radix_tree_t \<Rightarrow> rtree \<Rightarrow> node_ptr list \<Rightarrow> bool" where
  "radix_repr t T fs \<longleftrightarrow>
     holds (rt_mem t) 0 (rt_root t) T \<and> T \<noteq> Tip \<and> deep T 33 \<and> chain (rt_mem t) (rt_free t) fs \<and>
     distinct (node_ptrs T @ fs @ arena t) \<and> 0 \<notin> set (node_ptrs T @ fs @ arena t)"

lemma arena_cong [simp]: "arena (t\<lparr>rt_mem := m\<rparr>) = arena t" "arena (t\<lparr>rt_free := p\<rparr>) = arena t"
  by (simp_all add: arena_def)

text \<open>Allocation takes the first node of the free list, or else of the arena.\<close>

lemma radix_alloc:
  assumes "chain (rt_mem t) (rt_free t) fs" "0 \<notin> set (fs @ arena t)" "ngx_radix_alloc t = (p, t')"
  shows "rt_mem t' = rt_mem t \<and> rt_root t' = rt_root t \<and>
    ((p = 0 \<and> fs @ arena t = [] \<and> fs @ arena t' = [] \<and> rt_free t' = rt_free t) \<or>
     (p \<noteq> 0 \<and> (\<exists>fs'. chain (rt_mem t) (rt_free t') fs' \<and> fs @ arena t = p # fs' @ arena t')))"
proof (cases fs)
  case (Cons f gs)
  then show ?thesis using assms by (auto simp: ngx_radix_alloc_def)
next
  case Nil
  then have f: "rt_free t = 0" using assms(1) by simp
  show ?thesis
  proof (cases "rt_size t < radix_node_size")
    case True
    then have e: "piece s (rt_size t div radix_node_size) = []" for s by (simp add: radix_node_size_def)
    show ?thesis
    proof (cases "rt_pool t")
      case Nil2: Nil
      then show ?thesis using assms(3) Nil f True e by (auto simp: ngx_radix_alloc_def arena_def)
    next
      case (Cons q qs)
      have s: "ngx_pagesize div radix_node_size = Suc 127" "(ngx_pagesize - radix_node_size) div radix_node_size = 127"
        by (simp_all add: ngx_pagesize_def radix_node_size_def)
      have "q \<in> set (arena t)" unfolding arena_def Cons s(1) list.map concat.simps piece.simps(2) by simp
      then have "q \<noteq> 0" using assms(2) by (metis UnI2 set_append)
      moreover have "piece q (ngx_pagesize div radix_node_size) = q # piece (q + radix_node_size) 127"
        unfolding s(1) by (rule piece.simps)
      ultimately show ?thesis using assms(3) Nil f True e Cons s(2) by (auto simp: ngx_radix_alloc_def arena_def)
    qed
  next
    case False
    then obtain k where k: "rt_size t div radix_node_size = Suc k" "(rt_size t - radix_node_size) div radix_node_size = k"
      by (cases "rt_size t div radix_node_size") (auto simp: radix_node_size_def div_eq_0_iff le_div_geq)
    then have "rt_start t \<noteq> 0" using assms(2) by (auto simp: arena_def)
    then show ?thesis using assms(3) Nil f False k by (auto simp: ngx_radix_alloc_def arena_def)
  qed
qed

declare radix_walk.simps [simp del] radix_build.simps [simp del] radix_descend.simps [simp del]

subsection \<open>Walking down\<close>

lemma rn_child_bit: "rn_child m p key (bit_at d) = (if d < 32 \<and> bit key (31 - d) then rn_right (m p) else rn_left (m p))"
  by (simp only: rn_child_def and_bit_at)

lemma radix_walk_tree:
  assumes "holds m par p T" "T \<noteq> Tip" "ctx_holds m root par p C"
  shows "\<exists>C' T' d' node next par'. radix_walk m key msk (bit_at d) p p = Some (bit_at d', node, next) \<and>
    fill C' T' = fill C T \<and> T' \<noteq> Tip \<and> ctx_holds m root par' node C' \<and> holds m par' node T' \<and>
    ctx_path C' @ radix_path key msk d' = ctx_path C @ radix_path key msk d \<and>
    (if next = 0 then \<exists>b ks. radix_path key msk d' = b # ks \<and> rchild T' b = Tip else radix_path key msk d' = [])"
  using assms
proof (induction T arbitrary: par p C d)
  case (Node a r l v)
  have a: "p = a" "a \<noteq> 0" "rn_parent (m a) = par" using Node.prems by auto
  show ?case
  proof (cases "d < 32 \<and> bit msk (31 - d)")
    case False
    have "radix_walk m key msk (bit_at d) p p = Some (bit_at d, p, p)"
      using False by (subst radix_walk.simps) (simp only: and_bit_at' if_False)
    moreover have "radix_path key msk d = []" using False by (subst radix_path.simps) (simp only: if_False)
    ultimately show ?thesis using Node.prems a
      by (intro exI [of _ C] exI [of _ "Node a r l v"] exI [of _ d] exI [of _ p] exI [of _ par]) auto
  next
    case True
    define b where "b = bit key (31 - d)"
    let ?S = "if b then l else r" and ?T = "rchild (Node a r l v) b"
    have path: "radix_path key msk d = b # radix_path key msk (Suc d)" using True by (subst radix_path.simps) (simp add: b_def)
    define q where "q = (if b then rn_right (m a) else rn_left (m a))"
    have child: "rn_child m p key (bit_at d) = q" using True a by (simp add: rn_child_bit b_def q_def)
    have w: "radix_walk m key msk (bit_at d) p p =
        (if q = 0 then Some (bit_at d, p, 0) else radix_walk m key msk (bit_at (Suc d)) q q)"
      using True a by (subst radix_walk.simps) (simp only: and_bit_at' child [unfolded a(1)] bit_at_Suc One_nat_def Let_def if_True simp_thms if_False, simp)
    have h: "holds m a q ?T" using Node.prems by (simp add: q_def)
    show ?thesis
    proof (cases "q = 0")
      case True
      then have "?T = Tip" using h by (cases ?T) auto
      moreover have "radix_walk m key msk (bit_at d) p p = Some (bit_at d, p, 0)" unfolding w True by simp
      ultimately show ?thesis using Node.prems path
        by (intro exI [of _ C] exI [of _ "Node a r l v"] exI [of _ d] exI [of _ p] exI [of _ "0 :: nat"] exI [of _ par]) simp
    next
      case False
      then have t: "?T \<noteq> Tip" using h by auto
      let ?C = "(a, b, ?S, v) # C"
      have c: "ctx_holds m root a q ?C" using Node.prems a by (auto simp: q_def)
      have f: "fill ?C ?T = fill C (Node a r l v)" by simp
      have IH: "\<exists>C' T' d' node next par'. radix_walk m key msk (bit_at (Suc d)) q q = Some (bit_at d', node, next) \<and>
          fill C' T' = fill ?C ?T \<and> T' \<noteq> Tip \<and> ctx_holds m root par' node C' \<and> holds m par' node T' \<and>
          ctx_path C' @ radix_path key msk d' = ctx_path ?C @ radix_path key msk (Suc d) \<and>
          (if next = 0 then \<exists>b ks. radix_path key msk d' = b # ks \<and> rchild T' b = Tip else radix_path key msk d' = [])"
      proof (cases b)
        case True
        then show ?thesis using Node.IH(1) [of a q ?C "Suc d"] h t c by simp
      next
        case False
        then show ?thesis using Node.IH(2) [of a q ?C "Suc d"] h t c by simp
      qed
      then show ?thesis unfolding f w using False path by simp
    qed
  qed
qed simp

subsection \<open>Insertion keeps the invariant\<close>

text \<open>The same representation with a focus on one node.\<close>

definition focus :: "ngx_radix_tree_t \<Rightarrow> rctx \<Rightarrow> node_ptr \<Rightarrow> node_ptr \<Rightarrow> rtree \<Rightarrow> node_ptr list \<Rightarrow> bool" where
  "focus t C par a T fs \<longleftrightarrow>
     ctx_holds (rt_mem t) (rt_root t) par a C \<and> holds (rt_mem t) par a T \<and> T \<noteq> Tip \<and> deep (fill C T) 33 \<and>
     chain (rt_mem t) (rt_free t) fs \<and> distinct (ctx_ptrs C @ node_ptrs T @ fs @ arena t) \<and>
     0 \<notin> set (ctx_ptrs C @ node_ptrs T @ fs @ arena t)"

lemma set_fill: "set (node_ptrs (fill C T)) = set (ctx_ptrs C) \<union> set (node_ptrs T)"
  by (metis mset_append mset_fill set_append set_mset_mset)

lemma focus_repr: "focus t C par a T fs \<Longrightarrow> radix_repr t (fill C T) fs"
  by (auto simp: focus_def radix_repr_def holds_fill fill_not_Tip distinct_fill set_fill)

lemma repr_focus: "radix_repr t T fs \<Longrightarrow> focus t [] 0 (rt_root t) T fs"
  by (auto simp: focus_def radix_repr_def)

lemma repr_focus_at:
  "radix_repr t (fill C N) fs \<Longrightarrow> ctx_holds (rt_mem t) (rt_root t) par a C \<Longrightarrow> holds (rt_mem t) par a N \<Longrightarrow> N \<noteq> Tip \<Longrightarrow>
    focus t C par a N fs"
  by (auto simp: focus_def radix_repr_def distinct_fill set_fill)

text \<open>A new leaf below the focus.\<close>

definition new_leaf :: "node_ptr \<Rightarrow> ngx_radix_node_t" where
  "new_leaf par = \<lparr>rn_right = 0, rn_left = 0, rn_parent = par, rn_value = NGX_RADIX_NO_VALUE\<rparr>"

lemma focus_leaf:
  assumes "focus t C par a (Node a r l v) fs" "rchild (Node a r l v) b = Tip" "ngx_radix_alloc t = (p, t1)" "p \<noteq> 0" "length C < 32"
    "m2 = (rt_mem t1)(p := new_leaf a, a := (if b then (rt_mem t1 a)\<lparr>rn_right := p\<rparr> else (rt_mem t1 a)\<lparr>rn_left := p\<rparr>))"
    "S = (if b then l else r)"
  obtains fs' where "focus (t1\<lparr>rt_mem := m2\<rparr>) ((a, b, S, v) # C) a p (Node p Tip Tip NGX_RADIX_NO_VALUE) fs'"
    "\<And>ks. value_at ks (fill ((a, b, S, v) # C) (Node p Tip Tip NGX_RADIX_NO_VALUE)) = value_at ks (fill C (Node a r l v))"
    "mset (ctx_ptrs ((a, b, S, v) # C) @ [p] @ fs' @ arena t1) = mset (ctx_ptrs C @ node_ptrs (Node a r l v) @ fs @ arena t)"
proof -
  let ?T = "Node p Tip Tip NGX_RADIX_NO_VALUE" and ?C = "(a, b, S, v) # C"
  have f: "ctx_holds (rt_mem t) (rt_root t) par a C" "holds (rt_mem t) par a (Node a r l v)" "deep (fill C (Node a r l v)) 33"
    "chain (rt_mem t) (rt_free t) fs" "distinct (ctx_ptrs C @ node_ptrs (Node a r l v) @ fs @ arena t)"
    "0 \<notin> set (ctx_ptrs C @ node_ptrs (Node a r l v) @ fs @ arena t)"
    using assms(1) unfolding focus_def by blast+
  have z: "0 \<notin> set (fs @ arena t)" using f(6) by simp
  from radix_alloc [OF f(4) z assms(3)] assms(4)
  obtain fs' where al: "rt_mem t1 = rt_mem t" "rt_root t1 = rt_root t" "chain (rt_mem t) (rt_free t1) fs'" "fs @ arena t = p # fs' @ arena t1"
    by auto
  have S: "node_ptrs S = node_ptrs r @ node_ptrs l" using assms(2,7) by (cases b) auto
  have d: "distinct (ctx_ptrs C @ (a # node_ptrs S) @ p # fs' @ arena t1)" "0 \<notin> set (ctx_ptrs C @ (a # node_ptrs S) @ p # fs' @ arena t1)"
    using f(5,6) unfolding al(4) [symmetric] S by simp_all
  have ap: "a \<noteq> p" "p \<notin> set (node_ptrs S)" "a \<notin> set (node_ptrs S)" "a \<notin> set (ctx_ptrs C)" "p \<notin> set (ctx_ptrs C)" "p \<notin> set fs'" "a \<notin> set fs'"
    using d(1) by auto
  have par: "rn_parent (rt_mem t a) = par" "rn_value (rt_mem t a) = v" "a \<noteq> 0" "holds (rt_mem t) a (rn_right (rt_mem t a)) r" "holds (rt_mem t) a (rn_left (rt_mem t a)) l"
    using f(2) by auto
  have "ctx_holds m2 (rt_root t) a p ?C"
    using f(1) par ap assms(7) by (cases b) (simp_all add: assms(6) al(1))
  moreover have "holds m2 a p ?T" using ap assms(4) by (simp add: assms(6) new_leaf_def)
  moreover have "chain m2 (rt_free t1) fs'" using al(3) ap by (simp add: assms(6) al(1))
  moreover have "deep (fill ?C ?T) 33"
  proof -
    have "deep (fill C (if b then Node a ?T S v else Node a S ?T v)) 33"
      by (rule deep_fill [OF f(3)]) (use assms(2,5,7) in \<open>auto split: if_splits\<close>)
    then show ?thesis by simp
  qed
  ultimately have "focus (t1\<lparr>rt_mem := m2\<rparr>) ?C a p ?T fs'"
    using d al(2) by (auto simp: focus_def)
  moreover have "value_at ks (fill ?C ?T) = value_at ks (fill C (Node a r l v))" for ks
  proof -
    have "value_at ds (if b then Node a ?T S v else Node a S ?T v) = value_at ds (Node a r l v)" for ds
    proof (cases ds)
      case (Cons c cs)
      then show ?thesis using assms(2,7) by (cases cs) (auto split: if_splits)
    qed simp
    from value_at_fill_cong [OF this, of ks C] show ?thesis by simp
  qed
  moreover have "mset (ctx_ptrs ?C @ [p] @ fs' @ arena t1) = mset (ctx_ptrs C @ node_ptrs (Node a r l v) @ fs @ arena t)"
    unfolding al(4) by (simp add: S)
  ultimately show ?thesis by (rule that)
qed

lemma radix_build_tree:
  assumes "focus t C par a (Node a r l v) fs" "radix_path key msk d = ks" "ks = [] \<or> rchild (Node a r l v) (hd ks) = Tip"
    "length C + length ks \<le> 32" "radix_build key msk (bit_at d) a t = (rc, a', t')"
  shows "\<exists>C' par' r' l' v' fs'. focus t' C' par' a' (Node a' r' l' v') fs' \<and>
    (\<forall>ks. value_at ks (fill C' (Node a' r' l' v')) = value_at ks (fill C (Node a r l v))) \<and>
    mset (node_ptrs (fill C' (Node a' r' l' v')) @ fs' @ arena t') = mset (node_ptrs (fill C (Node a r l v)) @ fs @ arena t) \<and>
    ((rc = NGX_OK \<and> ctx_path C' = ctx_path C @ ks \<and> length (fs @ arena t) \<le> length (fs' @ arena t') + length ks) \<or>
     (rc = NGX_ERROR \<and> fs' @ arena t' = [] \<and> length (fs @ arena t) < length ks))"
  using assms
proof (induction ks arbitrary: t C par a r l v fs d)
  case Nil
  have "\<not> (d < 32 \<and> bit msk (31 - d))" using Nil(2) by (subst (asm) radix_path.simps) (auto split: if_splits)
  then have "radix_build key msk (bit_at d) a t = (NGX_OK, a, t)" by (subst radix_build.simps) (simp only: and_bit_at' if_False)
  then show ?case using Nil.prems by fastforce
next
  case (Cons b ks)
  have d: "d < 32 \<and> bit msk (31 - d)" "b = bit key (31 - d)" "radix_path key msk (Suc d) = ks"
    using Cons.prems(2) by (subst (asm) radix_path.simps, auto split: if_splits)+
  obtain p t1 where al: "ngx_radix_alloc t = (p, t1)" by fastforce
  have kb: "(key AND bit_at d \<noteq> 0) = b" using d(1,2) by (simp only: and_bit_at simp_thms)
  define m2 where "m2 = (rt_mem t1)(p := new_leaf a, a := (if b then (rt_mem t1 a)\<lparr>rn_right := p\<rparr> else (rt_mem t1 a)\<lparr>rn_left := p\<rparr>))"
  show ?case
  proof (cases "p = 0")
    case True
    have f: "chain (rt_mem t) (rt_free t) fs" "0 \<notin> set (fs @ arena t)" using Cons.prems(1) by (simp_all add: focus_def)
    have "radix_build key msk (bit_at d) a t = (NGX_ERROR, a, t1)"
      using d(1) al True by (subst radix_build.simps) (simp only: and_bit_at' if_True prod.case simp_thms)
    then have e: "rc = NGX_ERROR" "a' = a" "t' = t1" using Cons.prems(5) by simp_all
    have s: "rt_mem t1 = rt_mem t" "rt_root t1 = rt_root t" "fs @ arena t = []" "fs @ arena t1 = []" "rt_free t1 = rt_free t"
      using radix_alloc [OF f al] True by auto
    have "focus t1 C par a (Node a r l v) fs" using Cons.prems(1) s by (simp add: focus_def)
    then show ?thesis using e s
      by (intro exI [of _ C] exI [of _ par] exI [of _ r] exI [of _ l] exI [of _ v] exI [of _ "[] :: node_ptr list"]) simp
  next
    case False
    have pa: "p \<noteq> a"
    proof -
      have f: "chain (rt_mem t) (rt_free t) fs" "0 \<notin> set (fs @ arena t)" "distinct (a # fs @ arena t)"
        using Cons.prems(1) by (auto simp: focus_def)
      from radix_alloc [OF f(1,2) al] False have "p \<in> set (fs @ arena t)" by (metis list.set_intros(1))
      then show ?thesis using f(3) by auto
    qed
    define S where "S = (if b then l else r)"
    from focus_leaf [OF Cons.prems(1) _ al False _ m2_def S_def] Cons.prems(3,4) obtain fs1 where
      f1: "focus (t1\<lparr>rt_mem := m2\<rparr>) ((a, b, S, v) # C) a p (Node p Tip Tip NGX_RADIX_NO_VALUE) fs1"
        "\<And>ks. value_at ks (fill ((a, b, S, v) # C) (Node p Tip Tip NGX_RADIX_NO_VALUE)) = value_at ks (fill C (Node a r l v))"
        "mset (ctx_ptrs ((a, b, S, v) # C) @ [p] @ fs1 @ arena t1) = mset (ctx_ptrs C @ node_ptrs (Node a r l v) @ fs @ arena t)"
      by auto
    have "radix_build key msk (bit_at d) a t = radix_build key msk (bit_at (Suc d)) p (t1\<lparr>rt_mem := m2\<rparr>)"
      using d(1) al False pa
      by (subst radix_build.simps) (simp only: and_bit_at' if_True prod.case kb bit_at_Suc One_nat_def if_False Let_def m2_def new_leaf_def fun_upd_other simp_thms)
    then have "radix_build key msk (bit_at (Suc d)) p (t1\<lparr>rt_mem := m2\<rparr>) = (rc, a', t')" using Cons.prems(5) by simp
    from Cons.IH [OF f1(1) d(3) _ _ this] Cons.prems(4)
    obtain C' par' r' l' v' fs' where IH: "focus t' C' par' a' (Node a' r' l' v') fs'"
      "\<forall>ks. value_at ks (fill C' (Node a' r' l' v')) = value_at ks (fill ((a, b, S, v) # C) (Node p Tip Tip NGX_RADIX_NO_VALUE))"
      "mset (node_ptrs (fill C' (Node a' r' l' v')) @ fs' @ arena t') =
        mset (node_ptrs (fill ((a, b, S, v) # C) (Node p Tip Tip NGX_RADIX_NO_VALUE)) @ fs1 @ arena (t1\<lparr>rt_mem := m2\<rparr>))"
      "(rc = NGX_OK \<and> ctx_path C' = ctx_path ((a, b, S, v) # C) @ ks \<and>
        length (fs1 @ arena (t1\<lparr>rt_mem := m2\<rparr>)) \<le> length (fs' @ arena t') + length ks) \<or>
       (rc = NGX_ERROR \<and> fs' @ arena t' = [] \<and> length (fs1 @ arena (t1\<lparr>rt_mem := m2\<rparr>)) < length ks)"
      by auto
    have sz: "length (fs @ arena t) = Suc (length (fs1 @ arena t1))"
      using arg_cong [OF f1(3), of size] S_def Cons.prems(3) by (cases b) auto
    have ms: "mset (node_ptrs (fill C' (Node a' r' l' v')) @ fs' @ arena t') = mset (node_ptrs (fill C (Node a r l v)) @ fs @ arena t)"
      using IH(3) f1(3) by (simp only: mset_append mset_fill arena_cong node_ptrs.simps append_Nil add.assoc)
    show ?thesis using IH(1,2,4) ms f1(2) sz by (intro exI [of _ C'] exI [of _ par'] exI [of _ r'] exI [of _ l'] exI [of _ v'] exI [of _ fs']) auto
  qed
qed

definition radix_inv :: "ngx_radix_tree_t \<Rightarrow> bool" where
  "radix_inv t \<longleftrightarrow> (\<exists>T fs. radix_repr t T fs)"

text \<open>What a tree stores: the value of each path.\<close>

definition radix_lookup :: "ngx_radix_tree_t \<Rightarrow> bool list \<Rightarrow> uint64_t" where
  "radix_lookup t ks = mem_value (rt_mem t) ks (rt_root t)"

lemma radix_lookup_repr: "radix_repr t T fs \<Longrightarrow> radix_lookup t = (\<lambda>ks. value_at ks T)"
  by (auto simp: radix_lookup_def radix_repr_def mem_value_at)

lemma focus_set_value:
  assumes "focus t C par a (Node a r l v) fs"
  shows "focus (t\<lparr>rt_mem := (rt_mem t)(a := (rt_mem t a)\<lparr>rn_value := w\<rparr>)\<rparr>) C par a (Node a r l w) fs"
    "(\<lambda>ks. value_at ks (fill C (Node a r l w))) = (\<lambda>ks. value_at ks (fill C (Node a r l v)))(ctx_path C := w)"
proof -
  have f: "ctx_holds (rt_mem t) (rt_root t) par a C" "holds (rt_mem t) par a (Node a r l v)" "deep (fill C (Node a r l v)) 33"
    "chain (rt_mem t) (rt_free t) fs" "distinct (ctx_ptrs C @ node_ptrs (Node a r l v) @ fs @ arena t)"
    "0 \<notin> set (ctx_ptrs C @ node_ptrs (Node a r l v) @ fs @ arena t)"
    using assms unfolding focus_def by blast+
  have a: "a \<notin> set (ctx_ptrs C)" "a \<notin> set (node_ptrs r)" "a \<notin> set (node_ptrs l)" "a \<notin> set fs" using f(5) by auto
  have "deep (fill C (Node a r l w)) 33" using f(3) by (rule deep_fill') auto
  then show "focus (t\<lparr>rt_mem := (rt_mem t)(a := (rt_mem t a)\<lparr>rn_value := w\<rparr>)\<rparr>) C par a (Node a r l w) fs"
    using f a by (simp add: focus_def)
  show "(\<lambda>ks. value_at ks (fill C (Node a r l w))) = (\<lambda>ks. value_at ks (fill C (Node a r l v)))(ctx_path C := w)"
  proof (rule value_at_fill_upd)
    show "value_at ds (Node a r l w) = (if ds = [] then w else value_at ds (Node a r l v))" for ds
      by (cases ds) simp_all
  qed
qed

lemma radix_insert_repr:
  assumes "radix_repr t T fs"
  obtains rc t' T' fs' where "ngx_radix32tree_insert t key msk value = Some (rc, t')" "radix_repr t' T' fs'"
    "mset (node_ptrs T' @ fs' @ arena t') = mset (node_ptrs T @ fs @ arena t)"
    "(rc = NGX_BUSY \<and> t' = t \<and> T' = T \<and> value_at (radix_path key msk 0) T \<noteq> NGX_RADIX_NO_VALUE) \<or>
     (rc = NGX_OK \<and> (\<lambda>ks. value_at ks T') = (\<lambda>ks. value_at ks T)(radix_path key msk 0 := value) \<and>
       value_at (radix_path key msk 0) T = NGX_RADIX_NO_VALUE) \<or>
     (rc = NGX_ERROR \<and> (\<lambda>ks. value_at ks T') = (\<lambda>ks. value_at ks T) \<and> fs' @ arena t' = [] \<and>
       value_at (radix_path key msk 0) T = NGX_RADIX_NO_VALUE)"
    "if rc = NGX_ERROR then length (fs @ arena t) < 32 else length (fs @ arena t) \<le> length (fs' @ arena t') + 32"
proof -
  let ?m = "rt_mem t" and ?root = "rt_root t" and ?ks = "radix_path key msk 0"
  have h: "holds ?m 0 ?root T" "T \<noteq> Tip" using assms by (simp_all add: radix_repr_def)
  obtain C N d node nxt par where w: "radix_walk ?m key msk (bit_at 0) ?root ?root = Some (bit_at d, node, nxt)"
    "fill C N = T" "N \<noteq> Tip" "ctx_holds ?m ?root par node C" "holds ?m par node N"
    "ctx_path C @ radix_path key msk d = ?ks"
    "if nxt = 0 then \<exists>b ks. radix_path key msk d = b # ks \<and> rchild N b = Tip else radix_path key msk d = []"
    using radix_walk_tree [OF h, of ?root "[]" key msk 0] by auto
  obtain r l v where N: "N = Node node r l v" using w(3,5) by (cases N) auto
  have f: "focus t C par node (Node node r l v) fs"
    using repr_focus_at [of t C N fs par node] assms w(2-5) N by simp
  show ?thesis
  proof (cases "nxt = 0")
    case False
    then have ks: "ctx_path C = ?ks" using w(6,7) by simp
    have v: "value_at ?ks T = v" unfolding w(2) [symmetric] ks [symmetric] N by simp
    have m: "rn_value (?m node) = v" using w(5) N by simp
    show ?thesis
    proof (cases "v = NGX_RADIX_NO_VALUE")
      case True
      have "ngx_radix32tree_insert t key msk value = Some (NGX_OK, t\<lparr>rt_mem := ?m(node := (?m node)\<lparr>rn_value := value\<rparr>)\<rparr>)"
        using w(1) False True m by (simp add: ngx_radix32tree_insert_def bit_at_0 Let_def)
      moreover have "radix_repr (t\<lparr>rt_mem := ?m(node := (?m node)\<lparr>rn_value := value\<rparr>)\<rparr>) (fill C (Node node r l value)) fs"
        by (rule focus_repr [OF focus_set_value(1) [OF f]])
      moreover have "(\<lambda>ks. value_at ks (fill C (Node node r l value))) = (\<lambda>ks. value_at ks T)(?ks := value)"
        using focus_set_value(2) [OF f, of "value"] w(2) N ks by simp
      moreover have "mset (node_ptrs (fill C (Node node r l value)) @ fs @ arena t) = mset (node_ptrs T @ fs @ arena t)"
        unfolding w(2) [symmetric] N by (simp add: mset_fill)
      ultimately show ?thesis using that [of NGX_OK _ _ fs] v True by simp
    next
      case False2: False
      then have "ngx_radix32tree_insert t key msk value = Some (NGX_BUSY, t)"
        using w(1) False m by (simp add: ngx_radix32tree_insert_def bit_at_0 Let_def)
      then show ?thesis using that [of NGX_BUSY t T fs] assms v False2 by simp
    qed
  next
    case True
    then obtain b ks where ks: "radix_path key msk d = b # ks" "rchild N b = Tip" using w(7) by auto
    have none: "value_at ?ks T = NGX_RADIX_NO_VALUE"
      unfolding w(2) [symmetric] w(6) [symmetric] ks(1) by (simp add: value_at_fill_same ks(2))
    obtain rc a t1 where bd: "radix_build key msk (bit_at d) node t = (rc, a, t1)" by (metis prod_cases3)
    have len: "length C + length (b # ks) \<le> 32"
      using arg_cong [OF w(6), of length] length_radix_path [of 0 key msk] ks(1) by simp
    from radix_build_tree [OF f ks(1) _ len bd] ks(2) N
    obtain C' par' r' l' v' fs' where B: "focus t1 C' par' a (Node a r' l' v') fs'"
      "\<forall>ks. value_at ks (fill C' (Node a r' l' v')) = value_at ks (fill C (Node node r l v))"
      "mset (node_ptrs (fill C' (Node a r' l' v')) @ fs' @ arena t1) = mset (node_ptrs (fill C (Node node r l v)) @ fs @ arena t)"
      "(rc = NGX_OK \<and> ctx_path C' = ctx_path C @ b # ks \<and> length (fs @ arena t) \<le> length (fs' @ arena t1) + length (b # ks)) \<or>
       (rc = NGX_ERROR \<and> fs' @ arena t1 = [] \<and> length (fs @ arena t) < length (b # ks))"
      by auto
    have T: "fill C (Node node r l v) = T" using w(2) N by simp
    show ?thesis
    proof (cases "rc = NGX_ERROR")
      case err: True
      then have "ngx_radix32tree_insert t key msk value = Some (NGX_ERROR, t1)"
        using w(1) True bd by (simp add: ngx_radix32tree_insert_def bit_at_0 Let_def)
      moreover have "length (fs @ arena t) < 32" using B(4) err len by auto
      ultimately show ?thesis using that [of NGX_ERROR t1 "fill C' (Node a r' l' v')" fs'] B(2-4) err focus_repr [OF B(1)] none T by simp
    next
      case False
      let ?t = "t1\<lparr>rt_mem := (rt_mem t1)(a := (rt_mem t1 a)\<lparr>rn_value := value\<rparr>)\<rparr>"
      have ok: "ctx_path C' = ?ks" using B(4) False w(6) ks(1) by simp
      have "ngx_radix32tree_insert t key msk value = Some (NGX_OK, ?t)"
        using w(1) True bd False by (simp add: ngx_radix32tree_insert_def bit_at_0 Let_def)
      moreover have "radix_repr ?t (fill C' (Node a r' l' value)) fs'" by (rule focus_repr [OF focus_set_value(1) [OF B(1)]])
      moreover have "(\<lambda>ks. value_at ks (fill C' (Node a r' l' value))) = (\<lambda>ks. value_at ks T)(?ks := value)"
        using focus_set_value(2) [OF B(1), of "value"] B(2) T ok by simp
      moreover have "mset (node_ptrs (fill C' (Node a r' l' value)) @ fs' @ arena ?t) = mset (node_ptrs T @ fs @ arena t)"
        using B(3) T by (simp add: mset_fill)
      moreover have "length (fs @ arena t) \<le> length (fs' @ arena ?t) + 32" using B(4) False len by auto
      ultimately show ?thesis using that [of NGX_OK ?t _ fs'] none by simp
    qed
  qed
qed

subsection \<open>Deletion\<close>

lemma radix_descend_0: "radix_descend m key msk bt 0 = 0"
  by (subst radix_descend.simps) simp

lemma radix_descend_tree:
  assumes "holds m par p T" "ctx_holds m root par p C"
  shows "(radix_descend m key msk (bit_at d) p = 0 \<and>
      (\<exists>C' ks ks'. fill C' Tip = fill C T \<and> ctx_path C' = ctx_path C @ ks' \<and> radix_path key msk d = ks' @ ks)) \<or>
    (\<exists>C' T' par'. T' \<noteq> Tip \<and> fill C' T' = fill C T \<and> ctx_holds m root par' (radix_descend m key msk (bit_at d) p) C' \<and>
      holds m par' (radix_descend m key msk (bit_at d) p) T' \<and> ctx_path C' = ctx_path C @ radix_path key msk d)"
  using assms
proof (induction T arbitrary: par p C d)
  case Tip
  then have "radix_descend m key msk (bit_at d) p = 0" by (simp add: radix_descend_0)
  then show ?case by (intro disjI1 conjI exI [of _ C] exI [of _ "radix_path key msk d"] exI [of _ "[]"]) simp_all
next
  case (Node a r l v)
  have a: "p = a" "a \<noteq> 0" "rn_parent (m a) = par" using Node.prems by auto
  show ?case
  proof (cases "d < 32 \<and> bit msk (31 - d)")
    case False
    have "radix_descend m key msk (bit_at d) p = p" using False by (subst radix_descend.simps) (simp only: and_bit_at' simp_thms if_False)
    moreover have "radix_path key msk d = []" using False by (subst radix_path.simps) (simp only: if_False)
    ultimately show ?thesis using Node.prems a by (intro disjI2 exI [of _ C] exI [of _ "Node a r l v"] exI [of _ par]) simp
  next
    case True
    define b where "b = bit key (31 - d)"
    define q where "q = (if b then rn_right (m a) else rn_left (m a))"
    let ?C = "(a, b, if b then l else r, v) # C" and ?T = "rchild (Node a r l v) b"
    have path: "radix_path key msk d = b # radix_path key msk (Suc d)" using True by (subst radix_path.simps) (simp add: b_def)
    have child: "rn_child m a key (bit_at d) = q" using True by (simp add: rn_child_bit b_def q_def)
    have w: "radix_descend m key msk (bit_at d) p = radix_descend m key msk (bit_at (Suc d)) q"
      using True a by (subst radix_descend.simps) (simp only: and_bit_at' child bit_at_Suc One_nat_def if_True simp_thms)
    have h: "holds m a q ?T" "ctx_holds m root a q ?C" using Node.prems a by (auto simp: q_def)
    have IH: "(radix_descend m key msk (bit_at (Suc d)) q = 0 \<and>
        (\<exists>C' ks ks'. fill C' Tip = fill ?C ?T \<and> ctx_path C' = ctx_path ?C @ ks' \<and> radix_path key msk (Suc d) = ks' @ ks)) \<or>
      (\<exists>C' T' par'. T' \<noteq> Tip \<and> fill C' T' = fill ?C ?T \<and> ctx_holds m root par' (radix_descend m key msk (bit_at (Suc d)) q) C' \<and>
        holds m par' (radix_descend m key msk (bit_at (Suc d)) q) T' \<and> ctx_path C' = ctx_path ?C @ radix_path key msk (Suc d))"
    proof (cases b)
      case True
      then show ?thesis using Node.IH(1) [of a q ?C "Suc d"] h by simp
    next
      case False
      then show ?thesis using Node.IH(2) [of a q ?C "Suc d"] h by simp
    qed
    have f: "fill ?C ?T = fill C (Node a r l v)" by simp
    have c: "ctx_path ?C = ctx_path C @ [b]" by simp
    show ?thesis using IH unfolding w path f c append_assoc append_Cons append_Nil
    proof (elim disjE conjE exE)
      fix C' ks ks'
      assume "radix_descend m key msk (bit_at (Suc d)) q = 0" "fill C' Tip = fill C (Node a r l v)"
        "ctx_path C' = ctx_path C @ b # ks'" "radix_path key msk (Suc d) = ks' @ ks"
      then show "radix_descend m key msk (bit_at (Suc d)) q = 0 \<and>
          (\<exists>C' ks ks'. fill C' Tip = fill C (Node a r l v) \<and> ctx_path C' = ctx_path C @ ks' \<and> b # radix_path key msk (Suc d) = ks' @ ks) \<or>
        (\<exists>C' T' par'. T' \<noteq> Tip \<and> fill C' T' = fill C (Node a r l v) \<and> ctx_holds m root par' (radix_descend m key msk (bit_at (Suc d)) q) C' \<and>
          holds m par' (radix_descend m key msk (bit_at (Suc d)) q) T' \<and> ctx_path C' = ctx_path C @ b # radix_path key msk (Suc d))"
        by (intro disjI1 conjI exI [of _ C'] exI [of _ ks] exI [of _ "b # ks'"]) simp_all
    qed blast
  qed
qed

text \<open>The loop that takes the leaf at the hole of a context out of the tree.\<close>

lemma radix_prune_tree:
  assumes "ctx_holds m root par p C" "holds m par p (Node p Tip Tip v)" "C \<noteq> []" "chain m free fs"
    "distinct (ctx_ptrs C @ p # fs)"
  obtains m' free' T fs' where "radix_prune m free p = Some (m', free')" "holds m' 0 root T" "T \<noteq> Tip" "chain m' free' fs'"
    "mset (node_ptrs T @ fs') = mset (ctx_ptrs C @ p # fs)" "\<And>ks. value_at ks T = value_at ks (fill C Tip)"
    "\<And>n. deep (fill C (Node p Tip Tip v)) n \<Longrightarrow> deep T n"
proof -
  have "\<exists>m' free' T fs'. radix_prune m free p = Some (m', free') \<and> holds m' 0 root T \<and> T \<noteq> Tip \<and> chain m' free' fs' \<and>
    mset (node_ptrs T @ fs') = mset (ctx_ptrs C @ p # fs) \<and> (\<forall>ks. value_at ks T = value_at ks (fill C Tip)) \<and>
    (\<forall>n. deep (fill C (Node p Tip Tip v)) n \<longrightarrow> deep T n)"
    using assms
  proof (induction C arbitrary: m par p v free fs)
    case (Cons e C)
    obtain a b S w where e: "e = (a, b, S, w)" by (cases e)
    have par: "par = a" "a \<noteq> 0" "rn_value (m a) = w" "rn_parent (m p) = a" "p \<noteq> 0"
      "ctx_holds m root (rn_parent (m a)) a C" "if b then rn_right (m a) = p \<and> holds m a (rn_left (m a)) S else rn_left (m a) = p \<and> holds m a (rn_right (m a)) S"
      using Cons.prems(1,2) e by auto
    have d: "a \<noteq> p" "a \<notin> set (node_ptrs S)" "p \<notin> set (node_ptrs S)" "a \<notin> set (ctx_ptrs C)" "p \<notin> set (ctx_ptrs C)" "a \<notin> set fs" "p \<notin> set fs"
      using Cons.prems(5) e by auto
    have side: "rn_right (m a) = p \<longleftrightarrow> b"
    proof (cases b)
      case False
      then have "holds m a (rn_right (m a)) S" using par(7) by simp
      then have "rn_right (m a) \<noteq> p" using par(5) d(3) by (cases S) auto
      then show ?thesis using False by simp
    qed (use par(7) in simp)
    define m1 where "m1 = m(a := (if b then (m a)\<lparr>rn_right := 0\<rparr> else (m a)\<lparr>rn_left := 0\<rparr>), p := (m p)\<lparr>rn_right := free\<rparr>)"
    have step: "radix_prune m free p =
        (if rn_right (m1 a) \<noteq> 0 \<or> rn_left (m1 a) \<noteq> 0 \<or> rn_value (m1 a) \<noteq> NGX_RADIX_NO_VALUE \<or> rn_parent (m1 a) = 0 then Some (m1, p)
         else radix_prune m1 p a)"
      using par(2,4) d(1) side by (subst radix_prune.simps) (auto simp: Let_def m1_def)
    have m1a: "m1 a = (if b then (m a)\<lparr>rn_right := 0\<rparr> else (m a)\<lparr>rn_left := 0\<rparr>)" using d(1) by (simp add: m1_def)
    have h1: "holds m1 (rn_parent (m a)) a (if b then Node a Tip S w else Node a S Tip w)" using par d m1a by (auto simp: m1_def)
    have c1: "ctx_holds m1 root (rn_parent (m a)) a C" using par(6) d by (simp add: m1_def)
    have ch1: "chain m1 p (p # fs)" using Cons.prems(4) par(5) d by (simp add: m1_def)
    have ms: "mset (ctx_ptrs C @ a # node_ptrs S @ p # fs) = mset (ctx_ptrs (e # C) @ p # fs)" by (simp add: e)
    have dd: "deep (fill (e # C) (Node p Tip Tip v)) n \<Longrightarrow> deep (fill C (if b then Node a Tip S w else Node a S Tip w)) n" for n
      by (rule deep_fill' [where T = "if b then Node a (Node p Tip Tip v) S w else Node a S (Node p Tip Tip v) w"])
        (auto simp: e split: if_splits)
    show ?case
    proof (cases "rn_right (m1 a) \<noteq> 0 \<or> rn_left (m1 a) \<noteq> 0 \<or> rn_value (m1 a) \<noteq> NGX_RADIX_NO_VALUE \<or> rn_parent (m1 a) = 0")
      case True
      let ?T = "fill C (if b then Node a Tip S w else Node a S Tip w)"
      have "radix_prune m free p = Some (m1, p)" using step True by (simp only: if_True)
      moreover have "holds m1 0 root ?T" by (rule holds_fill [OF c1 h1])
      moreover have "?T \<noteq> Tip" by (rule fill_not_Tip) simp
      moreover have "mset (node_ptrs ?T @ p # fs) = mset (ctx_ptrs (e # C) @ p # fs)"
        unfolding mset_append mset_fill by (simp add: e)
      ultimately show ?thesis using ch1 dd by (intro exI [of _ m1] exI [of _ p] exI [of _ ?T] exI [of _ "p # fs"]) (simp add: e)
    next
      case False
      then have z: "rn_right (m1 a) = 0" "rn_left (m1 a) = 0" "w = NGX_RADIX_NO_VALUE" "rn_parent (m a) \<noteq> 0"
        using m1a par(3) by (cases b; simp)+
      have S: "S = Tip" using h1 z(1,2) by (cases b; cases S) auto
      have C: "C \<noteq> []" using par(6) z(4) by auto
      have "holds m1 (rn_parent (m a)) a (Node a Tip Tip w)" using h1 S by (cases b) simp_all
      from Cons.IH [OF c1 this C ch1] d Cons.prems(5) e
      obtain m' free' T fs' where IH: "radix_prune m1 p a = Some (m', free')" "holds m' 0 root T" "T \<noteq> Tip" "chain m' free' fs'"
        "mset (node_ptrs T @ fs') = mset (ctx_ptrs C @ a # p # fs)" "\<forall>ks. value_at ks T = value_at ks (fill C Tip)"
        "\<forall>n. deep (fill C (Node a Tip Tip w)) n \<longrightarrow> deep T n"
        by auto
      have "radix_prune m free p = Some (m', free')" using step False IH(1) by (simp only: if_False)
      moreover have "value_at ks (fill C Tip) = value_at ks (fill (e # C) Tip)" for ks
      proof -
        have "value_at ds Tip = value_at ds (Node a Tip Tip w)" for ds
          by (cases ds) (simp_all add: z(3) split: if_splits)
        from value_at_fill_cong [OF this, of ks C] show ?thesis by (simp add: e S)
      qed
      moreover have "deep (fill (e # C) (Node p Tip Tip v)) n \<Longrightarrow> deep T n" for n
        using dd [of n] S IH(7) by (simp split: if_splits)
      ultimately show ?thesis using IH(2-6) ms S by (intro exI [of _ m'] exI [of _ free'] exI [of _ T] exI [of _ fs']) simp
    qed
  qed simp
  then show ?thesis using that by blast
qed

lemma prune_value:
  assumes "T = Node a Tip Tip v"
  shows "(\<lambda>ks. value_at ks (fill C Tip)) = (\<lambda>ks. value_at ks (fill C T))(ctx_path C := NGX_RADIX_NO_VALUE)"
proof (rule value_at_fill_upd)
  show "value_at ds Tip = (if ds = [] then NGX_RADIX_NO_VALUE else value_at ds T)" for ds
    using assms by (cases ds) (simp_all split: if_splits)
qed

lemma radix_delete_repr:
  assumes "radix_repr t T fs" "radix_path key msk 0 \<noteq> [] \<or> (\<exists>b. rchild T b \<noteq> Tip)"
  obtains rc t' T' fs' where "ngx_radix32tree_delete t key msk = Some (rc, t')" "radix_repr t' T' fs'"
    "mset (node_ptrs T' @ fs' @ arena t') = mset (node_ptrs T @ fs @ arena t)"
    "(\<lambda>ks. value_at ks T') = (\<lambda>ks. value_at ks T)(radix_path key msk 0 := NGX_RADIX_NO_VALUE)"
    "rc = NGX_OK \<or> (rc = NGX_ERROR \<and> t' = t \<and> value_at (radix_path key msk 0) T = NGX_RADIX_NO_VALUE)"
proof -
  let ?m = "rt_mem t" and ?root = "rt_root t" and ?ks = "radix_path key msk 0"
  define node where "node = radix_descend ?m key msk (bit_at 0) ?root"
  have h: "holds ?m 0 ?root T" "T \<noteq> Tip" using assms(1) by (simp_all add: radix_repr_def)
  have node: "radix_descend ?m key msk 0x80000000 ?root = node" by (simp add: node_def bit_at_0)
  have same: "ngx_radix32tree_delete t key msk = Some (NGX_ERROR, t) \<Longrightarrow> value_at ?ks T = NGX_RADIX_NO_VALUE \<Longrightarrow> ?thesis"
    using that [of NGX_ERROR t T fs] assms(1) by (simp add: fun_upd_idem)
  show ?thesis
  proof (cases "node = 0")
    case True
    have tip: "holds ?m q 0 N \<Longrightarrow> N = Tip" for q N by (cases N) auto
    have "\<exists>C' ks ks'. fill C' Tip = T \<and> ctx_path C' = ks' \<and> ?ks = ks' @ ks"
      using radix_descend_tree [OF h(1), of ?root "[]" key msk 0] True tip by (fastforce simp: node_def)
    then have "value_at ?ks T = NGX_RADIX_NO_VALUE" by (metis value_at_Tip value_at_fill_same)
    moreover have "ngx_radix32tree_delete t key msk = Some (NGX_ERROR, t)"
      using True node by (simp add: ngx_radix32tree_delete_def)
    ultimately show ?thesis by (rule same [rotated])
  next
    case False
    then obtain C N par where w: "N \<noteq> Tip" "fill C N = T" "ctx_holds ?m ?root par node C" "holds ?m par node N" "ctx_path C = ?ks"
      using radix_descend_tree [OF h(1), of ?root "[]" key msk 0] by (auto simp: node_def)
    obtain r l v where N: "N = Node node r l v" using w(1,4) by (cases N) auto
    have f: "focus t C par node (Node node r l v) fs" using repr_focus_at [of t C N fs par node] assms(1) w N by simp
    have v: "value_at ?ks T = v" unfolding w(2) [symmetric] w(5) [symmetric] N by simp
    have m: "rn_value (?m node) = v" "holds ?m node (rn_right (?m node)) r" "holds ?m node (rn_left (?m node)) l" using w(4) N by simp_all
    have leaf: "(rn_right (?m node) \<noteq> 0 \<or> rn_left (?m node) \<noteq> 0) \<longleftrightarrow> r \<noteq> Tip \<or> l \<noteq> Tip"
      using m(2,3) by (cases r; cases l) auto
    show ?thesis
    proof (cases "r \<noteq> Tip \<or> l \<noteq> Tip")
      case True
      show ?thesis
      proof (cases "v = NGX_RADIX_NO_VALUE")
        case none: True
        have "ngx_radix32tree_delete t key msk = Some (NGX_ERROR, t)"
          using False node True leaf m(1) none by (simp add: ngx_radix32tree_delete_def)
        then show ?thesis using same v none by blast
      next
        case some: False
        let ?t = "t\<lparr>rt_mem := ?m(node := (?m node)\<lparr>rn_value := NGX_RADIX_NO_VALUE\<rparr>)\<rparr>"
        have "ngx_radix32tree_delete t key msk = Some (NGX_OK, ?t)"
          using False node True leaf m(1) some by (simp add: ngx_radix32tree_delete_def Let_def)
        moreover have "radix_repr ?t (fill C (Node node r l NGX_RADIX_NO_VALUE)) fs"
          by (rule focus_repr [OF focus_set_value(1) [OF f]])
        moreover have "(\<lambda>ks. value_at ks (fill C (Node node r l NGX_RADIX_NO_VALUE))) = (\<lambda>ks. value_at ks T)(?ks := NGX_RADIX_NO_VALUE)"
          using focus_set_value(2) [OF f, of NGX_RADIX_NO_VALUE] w(2,5) N by simp
        moreover have "mset (node_ptrs (fill C (Node node r l NGX_RADIX_NO_VALUE)) @ fs @ arena ?t) = mset (node_ptrs T @ fs @ arena t)"
          unfolding w(2) [symmetric] N by (simp add: mset_fill)
        ultimately show ?thesis using that by blast
      qed
    next
      case leafT: False
      have C: "C \<noteq> []" using assms(2) w(2,5) N leafT by (auto split: if_splits)
      have fc: "chain ?m (rt_free t) fs" "distinct (ctx_ptrs C @ node # fs)" "deep (fill C (Node node Tip Tip v)) 33"
        "distinct (ctx_ptrs C @ node # fs @ arena t)" "0 \<notin> set (ctx_ptrs C @ node # fs @ arena t)"
        using f leafT by (auto simp: focus_def)
      have hl: "holds ?m par node (Node node Tip Tip v)" using w(4) N leafT by simp
      from radix_prune_tree [OF w(3) hl C fc(1,2)] obtain m' free' T' fs' where pr: "radix_prune ?m (rt_free t) node = Some (m', free')"
        "holds m' 0 ?root T'" "T' \<noteq> Tip" "chain m' free' fs'" "mset (node_ptrs T' @ fs') = mset (ctx_ptrs C @ node # fs)"
        "\<And>ks. value_at ks T' = value_at ks (fill C Tip)" "\<And>n. deep (fill C (Node node Tip Tip v)) n \<Longrightarrow> deep T' n" by metis
      let ?t = "t\<lparr>rt_mem := m', rt_free := free'\<rparr>"
      have ar: "arena ?t = arena t" by (simp add: arena_def)
      have ms: "mset (node_ptrs T' @ fs' @ arena t) = mset (ctx_ptrs C @ node # fs @ arena t)"
        using pr(5) by (simp flip: add.assoc)
      have "ngx_radix32tree_delete t key msk = Some (NGX_OK, ?t)"
        using False node leaf leafT pr(1) by (simp add: ngx_radix32tree_delete_def Let_def)
      moreover have "radix_repr ?t T' fs'"
        unfolding radix_repr_def ar using pr(2-4,7) fc(3-5) mset_eq_imp_distinct_iff [OF ms] mset_eq_setD [OF ms] by simp
      moreover have "mset (node_ptrs T' @ fs' @ arena ?t) = mset (node_ptrs T @ fs @ arena t)"
        using ms leafT unfolding ar w(2) [symmetric] mset_append mset_fill N by simp
      moreover have "(\<lambda>ks. value_at ks T') = (\<lambda>ks. value_at ks T)(?ks := NGX_RADIX_NO_VALUE)"
        using prune_value [of N node v C] N leafT w(2,5) pr(6) by simp
      ultimately show ?thesis using that by blast
    qed
  qed
qed

text \<open>Deleting the root entry of a tree that is only a root reads the parent of the root.\<close>

lemma radix_delete_root:
  assumes "radix_repr t T fs" "radix_path key msk 0 = []" "\<forall>b. rchild T b = Tip"
  shows "ngx_radix32tree_delete t key msk = None"
proof -
  let ?m = "rt_mem t" and ?root = "rt_root t"
  obtain a r l v where T: "T = Node a r l v" using assms(1) by (cases T) (auto simp: radix_repr_def)
  have lr: "r = Tip" "l = Tip" using assms(3) T by (auto dest: spec [of _ True] spec [of _ False])
  have h: "?root = a" "a \<noteq> 0" "rn_parent (?m a) = 0" "rn_right (?m a) = 0" "rn_left (?m a) = 0"
    using assms(1) T lr by (auto simp: radix_repr_def)
  have "\<not> bit msk 31" using assms(2) by (subst (asm) radix_path.simps) (auto split: if_splits)
  then have "radix_descend ?m key msk (bit_at 0) a = a" by (subst radix_descend.simps) (simp only: and_bit_at' diff_zero simp_thms if_False)
  then have "radix_descend ?m key msk 0x80000000 a = a" by (simp add: bit_at_0)
  moreover have "radix_prune ?m (rt_free t) a = None" using h by (subst radix_prune.simps) (simp add: Let_def)
  ultimately show ?thesis using h by (simp add: ngx_radix32tree_delete_def Let_def)
qed

subsection \<open>Search\<close>

text \<open>The value of the longest prefix that has one.\<close>

fun longest_match :: "(bool list \<Rightarrow> uint64_t) \<Rightarrow> bool list \<Rightarrow> uint64_t" where
  "longest_match f ks =
     (if f ks \<noteq> NGX_RADIX_NO_VALUE \<or> ks = [] then f ks else longest_match f (butlast ks))"

declare longest_match.simps [simp del]

lemma longest_match_prefix:
  "longest_match f ks \<noteq> NGX_RADIX_NO_VALUE \<Longrightarrow>
    \<exists>n\<le>length ks. longest_match f ks = f (take n ks) \<and> (\<forall>k. n < k \<and> k \<le> length ks \<longrightarrow> f (take k ks) = NGX_RADIX_NO_VALUE)"
proof (induction ks rule: rev_induct)
  case Nil
  then show ?case by (simp add: longest_match.simps)
next
  case (snoc x xs)
  show ?case
  proof (cases "f (xs @ [x]) \<noteq> NGX_RADIX_NO_VALUE")
    case True
    then show ?thesis by (intro exI [of _ "length (xs @ [x])"]) (auto simp: longest_match.simps)
  next
    case False
    then have e: "longest_match f (xs @ [x]) = longest_match f xs" by (subst longest_match.simps) simp
    then obtain n where n: "n \<le> length xs" "longest_match f xs = f (take n xs)"
      "\<forall>k. n < k \<and> k \<le> length xs \<longrightarrow> f (take k xs) = NGX_RADIX_NO_VALUE" using snoc by auto
    have "f (take k (xs @ [x])) = NGX_RADIX_NO_VALUE" if "n < k" "k \<le> length (xs @ [x])" for k
      using that n(3) False by (cases "k = length (xs @ [x])") auto
    then show ?thesis using n e by (intro exI [of _ n]) simp
  qed
qed


lemma longest_match_Cons:
  "longest_match f (k # ks) =
    (if longest_match (\<lambda>x. f (k # x)) ks \<noteq> NGX_RADIX_NO_VALUE then longest_match (\<lambda>x. f (k # x)) ks else f [])"
proof (induction ks rule: rev_induct)
  case Nil
  then show ?case by (simp add: longest_match.simps)
next
  case (snoc x xs)
  then show ?case
    by (cases "f (k # xs @ [x]) \<noteq> NGX_RADIX_NO_VALUE")
      (simp_all add: longest_match.simps [of _ "k # xs @ [x]"] longest_match.simps [of _ "xs @ [x]"])
qed

lemma longest_match_none: "(\<And>ks. f ks = NGX_RADIX_NO_VALUE) \<Longrightarrow> longest_match f ks = NGX_RADIX_NO_VALUE"
  by (induction f ks rule: longest_match.induct) (subst longest_match.simps, simp)

lemma radix_find_0: "radix_find m key bt 0 w = Some w"
  by (subst radix_find.simps) simp

lemma radix_find_tree:
  assumes "holds m par p T" "deep T (33 - d)" "d \<le> 32"
  shows "radix_find m key (bit_at d) p w =
    Some (let u = longest_match (\<lambda>ks. value_at ks T) (drop d (key_bits key)) in if u \<noteq> NGX_RADIX_NO_VALUE then u else w)"
  using assms
proof (induction T arbitrary: par p d w)
  case Tip
  then show ?case by (simp add: radix_find_0 longest_match_none)
next
  case (Node a r l v)
  let ?w = "if v \<noteq> NGX_RADIX_NO_VALUE then v else w"
  have h: "p = a" "a \<noteq> 0" "rn_value (m a) = v" "holds m a (rn_right (m a)) r" "holds m a (rn_left (m a)) l" using Node.prems by auto
  have s: "radix_find m key (bit_at d) p w = radix_find m key (bit_at (Suc d)) (rn_child m a key (bit_at d)) ?w"
    using h by (subst radix_find.simps) simp
  show ?case
  proof (cases "d = 32")
    case True
    then have "l = Tip" "r = Tip" using Node.prems(2) by (cases l; simp) (cases r; use Node.prems(2) True in simp)
    then have "rn_child m a key (bit_at d) = 0" using h(5) True by (simp add: rn_child_bit)
    then show ?thesis using s True by (simp add: radix_find_0 longest_match.simps)
  next
    case False
    then have d: "d < 32" using Node.prems(3) by simp
    define b where "b = bit key (31 - d)"
    have e: "drop d (key_bits key) = b # drop (Suc d) (key_bits key)" using d by (simp add: drop_key_bits b_def)
    have dp: "deep r (33 - Suc d)" "deep l (33 - Suc d)" using Node.prems(2) by simp_all
    have c: "rn_child m a key (bit_at d) = (if b then rn_right (m a) else rn_left (m a))" using d by (simp add: rn_child_bit b_def)
    show ?thesis
    proof (cases b)
      case True
      then show ?thesis using Node.IH(1) [OF h(4) dp(1), of ?w] d s c e by (simp add: longest_match_Cons Let_def)
    next
      case False
      then show ?thesis using Node.IH(2) [OF h(5) dp(2), of ?w] d s c e by (simp add: longest_match_Cons Let_def)
    qed
  qed
qed

lemma radix_find_repr:
  assumes "radix_repr t T fs"
  shows "ngx_radix32tree_find t key = Some (longest_match (radix_lookup t) (key_bits key))"
proof -
  have "holds (rt_mem t) 0 (rt_root t) T" "deep T 33" using assms by (simp_all add: radix_repr_def)
  from radix_find_tree [OF this(1), of 0 key NGX_RADIX_NO_VALUE] this(2) show ?thesis
    unfolding ngx_radix32tree_find_def radix_lookup_repr [OF assms] by (simp add: bit_at_0 Let_def)
qed

subsection \<open>Creation\<close>

text \<open>The pages of the pool are disjoint and not null.\<close>

definition pool_ok :: "node_ptr list \<Rightarrow> bool" where
  "pool_ok pool \<longleftrightarrow>
     (let ns = concat (map (\<lambda>p. piece p (ngx_pagesize div radix_node_size)) pool) in distinct ns \<and> 0 \<notin> set ns)"

lemma piece_Nil: "piece s n = [] \<longleftrightarrow> n = 0"
  by (cases n) simp_all

lemma piece_map: "piece s n = map (\<lambda>i. s + radix_node_size * i) [0..<n]"
proof (induction n arbitrary: s)
  case (Suc n)
  have "map (\<lambda>i. s + radix_node_size * i) [0..<Suc n] = s # map (\<lambda>i. s + radix_node_size * i) (map Suc [0..<n])"
    by (simp only: upt_conv_Cons map_Suc_upt zero_less_Suc list.map mult_0_right add_0_right)
  then show ?case using Suc [of "s + radix_node_size"] by (simp add: comp_def add.assoc)
qed simp

lemma of_nat_shift_0: "k < 32 \<Longrightarrow> (of_nat n * bit_at k = 0) = (2 ^ Suc k dvd n)"
proof -
  assume k: "k < 32"
  have e: "of_nat n * bit_at k = (of_nat (n * 2 ^ (31 - k)) :: uint32_t)" using k by (simp add: bit_at_def push_bit_eq_mult)
  have "(of_nat (n * 2 ^ (31 - k)) :: uint32_t) = 0 \<longleftrightarrow> 2 ^ 32 dvd n * 2 ^ (31 - k)"
    by (simp only: word_of_nat_eq_0_iff) simp
  moreover have "(2::nat) ^ 32 = 2 ^ Suc k * 2 ^ (31 - k)" using k by (simp only: power_add [symmetric]) simp
  ultimately show ?thesis unfolding e by (simp only:) simp
qed

lemma radix_prealloc_level:
  assumes "radix_repr t T fs" "\<And>ks. value_at ks T = NGX_RADIX_NO_VALUE" "k < 32 \<Longrightarrow> j < 2 ^ Suc k"
  shows "\<exists>rc t' T' fs'. radix_prealloc_level msk (bit_at k) (of_nat j * bit_at k) t = Some (rc, t') \<and> radix_repr t' T' fs' \<and>
    (\<forall>ks. value_at ks T' = NGX_RADIX_NO_VALUE) \<and>
    (k < 32 \<and> 32 * (n + 2 ^ Suc k - j) \<le> length (fs @ arena t) \<longrightarrow> rc = NGX_OK \<and> 32 * n \<le> length (fs' @ arena t'))"
  using assms
proof (induction "2 ^ Suc k - j" arbitrary: j t T fs rule: less_induct)
  case less
  obtain rc t' T' fs' where ins: "ngx_radix32tree_insert t (of_nat j * bit_at k) msk NGX_RADIX_NO_VALUE = Some (rc, t')" "radix_repr t' T' fs'"
    "(rc = NGX_BUSY \<and> t' = t \<and> T' = T \<and> value_at (radix_path (of_nat j * bit_at k) msk 0) T \<noteq> NGX_RADIX_NO_VALUE) \<or>
     (rc = NGX_OK \<and> (\<lambda>ks. value_at ks T') = (\<lambda>ks. value_at ks T)(radix_path (of_nat j * bit_at k) msk 0 := NGX_RADIX_NO_VALUE) \<and>
       value_at (radix_path (of_nat j * bit_at k) msk 0) T = NGX_RADIX_NO_VALUE) \<or>
     (rc = NGX_ERROR \<and> (\<lambda>ks. value_at ks T') = (\<lambda>ks. value_at ks T) \<and> fs' @ arena t' = [] \<and>
       value_at (radix_path (of_nat j * bit_at k) msk 0) T = NGX_RADIX_NO_VALUE)"
    "if rc = NGX_ERROR then length (fs @ arena t) < 32 else length (fs @ arena t) \<le> length (fs' @ arena t') + 32"
    by (rule radix_insert_repr [OF less.prems(1), of "of_nat j * bit_at k" msk NGX_RADIX_NO_VALUE])
  have v: "value_at ks T' = NGX_RADIX_NO_VALUE" for ks
    using ins(3) less.prems(2) by (auto simp: fun_eq_iff)
  have nx: "of_nat j * bit_at k + bit_at k = of_nat (Suc j) * bit_at k" by (simp add: algebra_simps)
  have ok: "rc = NGX_OK" if "32 \<le> length (fs @ arena t)" using that ins(3,4) less.prems(2) by auto
  show ?case
  proof (cases "rc \<noteq> NGX_OK \<or> of_nat (Suc j) * bit_at k = 0")
    case True
    let ?rc = "if rc \<noteq> NGX_OK then NGX_ERROR else NGX_OK"
    have "radix_prealloc_level msk (bit_at k) (of_nat j * bit_at k) t = Some (?rc, t')"
      using True ins(1) nx by (subst radix_prealloc_level.simps) auto
    moreover have "?rc = NGX_OK \<and> 32 * n \<le> length (fs' @ arena t')" if "k < 32 \<and> 32 * (n + 2 ^ Suc k - j) \<le> length (fs @ arena t)"
    proof -
      have "n + 1 \<le> n + 2 ^ Suc k - j" using less.prems(3) that by auto
      from mult_le_mono2 [OF this, of 32] have "32 * (n + 1) \<le> length (fs @ arena t)" using that by linarith
      then show ?thesis using ok ins(4) by auto
    qed
    ultimately show ?thesis using ins(2) v by blast
  next
    case False
    then have st: "radix_prealloc_level msk (bit_at k) (of_nat j * bit_at k) t = radix_prealloc_level msk (bit_at k) (of_nat (Suc j) * bit_at k) t'"
      using ins(1) nx by (subst radix_prealloc_level.simps) simp
    have k: "k < 32"
    proof (rule ccontr)
      assume "\<not> k < 32"
      then have "bit_at k = 0" by (simp add: bit_at_def)
      then show False using False by simp
    qed
    have "Suc j \<noteq> 2 ^ Suc k" using False of_nat_shift_0 [OF k, of "Suc j"] by auto
    then have j: "Suc j < 2 ^ Suc k" using less.prems(3) k by linarith
    have lt: "2 ^ Suc k - Suc j < 2 ^ Suc k - j" using j by linarith
    obtain rc1 t1 T1 fs1 where IH: "radix_prealloc_level msk (bit_at k) (of_nat (Suc j) * bit_at k) t' = Some (rc1, t1)" "radix_repr t1 T1 fs1"
      "\<forall>ks. value_at ks T1 = NGX_RADIX_NO_VALUE"
      "k < 32 \<and> 32 * (n + 2 ^ Suc k - Suc j) \<le> length (fs' @ arena t') \<longrightarrow> rc1 = NGX_OK \<and> 32 * n \<le> length (fs1 @ arena t1)"
      using less.hyps [OF lt ins(2) v] j by blast
    have "32 * (n + 2 ^ Suc k - Suc j) \<le> length (fs' @ arena t')" if "32 * (n + 2 ^ Suc k - j) \<le> length (fs @ arena t)"
      using that ins(4) False j by auto
    then show ?thesis unfolding st using IH by blast
  qed
qed

text \<open>Each insertion of a level takes at most 32 nodes.\<close>

fun level_nodes :: "nat \<Rightarrow> nat \<Rightarrow> nat" where
  "level_nodes 0 k = 0"
| "level_nodes (Suc n) k = 2 ^ Suc k + level_nodes n (Suc k)"

lemma radix_prealloc_inv:
  assumes "radix_repr t T fs" "\<And>ks. value_at ks T = NGX_RADIX_NO_VALUE"
  shows "\<exists>rc t' T' fs'. radix_prealloc n msk (bit_at k) t = Some (rc, t') \<and> radix_repr t' T' fs' \<and>
    (\<forall>ks. value_at ks T' = NGX_RADIX_NO_VALUE) \<and>
    (n + k \<le> 32 \<and> 32 * (e + level_nodes n k) \<le> length (fs @ arena t) \<longrightarrow> rc = NGX_OK \<and> 32 * e \<le> length (fs' @ arena t'))"
  using assms
proof (induction n arbitrary: k msk t T fs)
  case (Suc n)
  let ?m = "drop_bit 1 msk OR 0x80000000"
  obtain rc t' T' fs' where l: "radix_prealloc_level ?m (bit_at k) 0 t = Some (rc, t')" "radix_repr t' T' fs'"
    "\<forall>ks. value_at ks T' = NGX_RADIX_NO_VALUE"
    "k < 32 \<and> 32 * (e + level_nodes n (Suc k) + 2 ^ Suc k) \<le> length (fs @ arena t) \<longrightarrow>
      rc = NGX_OK \<and> 32 * (e + level_nodes n (Suc k)) \<le> length (fs' @ arena t')"
    using radix_prealloc_level [OF Suc.prems, of k 0 ?m "e + level_nodes n (Suc k)"] by auto
  show ?case
  proof (cases "rc = NGX_OK")
    case True
    then show ?thesis using Suc.IH [OF l(2), of ?m "Suc k"] l(1,3,4) by (fastforce simp: algebra_simps)
  next
    case False
    then show ?thesis using l by (auto simp: algebra_simps)
  qed
qed auto

lemma ngx_radix_tree_create_inv:
  assumes "pool_ok pool" "- 1 \<le> n"
  shows "\<exists>r. ngx_radix_tree_create pool m n = Some r \<and>
    (\<forall>t. r = Some t \<longrightarrow> radix_inv t \<and> radix_lookup t = (\<lambda>_. NGX_RADIX_NO_VALUE)) \<and>
    (n \<le> 8 \<and> 128 * 128 \<le> ngx_pagesize div radix_node_size * length pool \<longrightarrow>
      (\<exists>t T fs. r = Some t \<and> radix_repr t T fs \<and> radix_lookup t = (\<lambda>_. NGX_RADIX_NO_VALUE) \<and> 32 \<le> length (fs @ arena t)))"
proof -
  let ?t0 = "\<lparr>rt_root = 0, rt_pool = pool, rt_free = 0, rt_start = 0, rt_size = 0, rt_mem = m\<rparr>"
  obtain root t1 where al: "ngx_radix_alloc ?t0 = (root, t1)" by fastforce
  have a0: "arena ?t0 = concat (map (\<lambda>p. piece p (ngx_pagesize div radix_node_size)) pool)" by (simp add: arena_def)
  have d0: "distinct (arena ?t0)" "0 \<notin> set (arena ?t0)" using assms(1) unfolding a0 by (simp_all add: pool_ok_def Let_def)
  have c0: "chain (rt_mem ?t0) (rt_free ?t0) []" by simp
  have len0: "length (arena ?t0) = ngx_pagesize div radix_node_size * length pool"
    unfolding a0 by (induction pool) (simp_all add: piece_map)
  have z: "0 \<notin> set ([] @ arena ?t0)" using d0(2) by simp
  note alloc = radix_alloc [OF c0 z al]
  show ?thesis
  proof (cases "root = 0")
    case True
    then have "arena ?t0 = []" using alloc by auto
    then have "ngx_pagesize div radix_node_size * length pool = 0" using len0 by simp
    then show ?thesis using True al by (auto simp: ngx_radix_tree_create_def)
  next
    case False
    define t where "t = t1\<lparr>rt_root := root, rt_mem := (rt_mem t1)(root := new_leaf 0)\<rparr>"
    from alloc False obtain fs where f: "chain m (rt_free t1) fs" "arena ?t0 = root # fs @ arena t1" "rt_mem t1 = m" by auto
    have fs: "fs = []" using al c0 f(1) False by (auto simp: ngx_radix_alloc_def split: if_splits) (cases fs; simp)+
    have ar: "arena t = arena t1" by (simp add: t_def arena_def)
    have rep: "radix_repr t (Node root Tip Tip NGX_RADIX_NO_VALUE) []"
      using d0 f fs False unfolding radix_repr_def ar by (auto simp: t_def new_leaf_def)
    have none: "value_at ks (Node root Tip Tip NGX_RADIX_NO_VALUE) = NGX_RADIX_NO_VALUE" for ks
      by (cases ks) (simp_all split: if_splits)
    have lk: "radix_lookup t = (\<lambda>_. NGX_RADIX_NO_VALUE)" using radix_lookup_repr [OF rep] none by auto
    have len: "ngx_pagesize div radix_node_size * length pool = Suc (length ([] @ arena t))" using len0 f(2) fs ar by simp
    let ?k = "if n = - 1 then radix_levels else nat n"
    have cr: "ngx_radix_tree_create pool m n = (if n = 0 then Some (Some t) else
        map_option (\<lambda>(rc, tree). if rc \<noteq> NGX_OK then None else Some tree) (radix_prealloc ?k 0 (bit_at 0) t))"
      using al False assms(2) unfolding ngx_radix_tree_create_def by (simp add: t_def new_leaf_def bit_at_0 Let_def)
    obtain rc t' T' fs' where p: "radix_prealloc ?k 0 (bit_at 0) t = Some (rc, t')" "radix_repr t' T' fs'" "\<forall>ks. value_at ks T' = NGX_RADIX_NO_VALUE"
      "?k + 0 \<le> 32 \<and> 32 * (1 + level_nodes ?k 0) \<le> length ([] @ arena t) \<longrightarrow> rc = NGX_OK \<and> 32 * 1 \<le> length (fs' @ arena t')"
      using radix_prealloc_inv [OF rep none, of ?k 0 0 1] by blast
    have lk': "radix_lookup t' = (\<lambda>_. NGX_RADIX_NO_VALUE)" using radix_lookup_repr [OF p(2)] p(3) by auto
    have k: "?k \<le> 8 \<and> level_nodes ?k 0 \<le> 510" if "n \<le> 8"
    proof -
      have "?k \<le> 8" using that by (simp add: radix_levels_def ngx_pagesize_def radix_tree_size_def nat_le_iff)
      then have "?k \<in> {0, 1, 2, 3, 4, 5, 6, 7, 8}" by auto
      then have "level_nodes ?k 0 \<le> 510" by (elim insertE emptyE) (simp_all only:, simp_all add: numeral_eq_Suc)
      with \<open>?k \<le> 8\<close> show ?thesis ..
    qed
    show ?thesis
    proof (cases "n = 0")
      case True
      then show ?thesis using cr rep lk len by (auto simp: radix_inv_def)
    next
      case nz: False
      have "radix_inv t'" using p(2) by (auto simp: radix_inv_def)
      moreover have "rc = NGX_OK \<and> 32 \<le> length (fs' @ arena t')" if "n \<le> 8" "128 * 128 \<le> ngx_pagesize div radix_node_size * length pool"
      proof -
        have "128 * 128 \<le> Suc (length ([] @ arena t))" using that(2) unfolding len .
        moreover have "32 * (1 + level_nodes ?k 0) \<le> 32 * 511" using k [OF that(1)] by (intro mult_le_mono2) simp
        ultimately have "32 * (1 + level_nodes ?k 0) \<le> length ([] @ arena t)" by simp
        then show ?thesis using p(4) k [OF that(1)] by auto
      qed
      ultimately show ?thesis using cr nz p(1,2) lk' by (auto split: if_splits)
    qed
  qed
qed

subsection \<open>Properties\<close>

lemma radix_insert_lookup:
  assumes "radix_inv t"
  shows "\<exists>rc t'. ngx_radix32tree_insert t key msk value = Some (rc, t') \<and> radix_inv t' \<and>
    (if radix_lookup t (radix_path key msk 0) \<noteq> NGX_RADIX_NO_VALUE then rc = NGX_BUSY \<and> t' = t
     else (rc = NGX_OK \<and> radix_lookup t' = (radix_lookup t)(radix_path key msk 0 := value)) \<or>
          (rc = NGX_ERROR \<and> radix_lookup t' = radix_lookup t \<and> rt_free t' = 0 \<and> rt_pool t' = []))"
proof -
  obtain T fs where r: "radix_repr t T fs" using assms by (auto simp: radix_inv_def)
  obtain rc t' T' fs' where ins: "ngx_radix32tree_insert t key msk value = Some (rc, t')" "radix_repr t' T' fs'"
    "(rc = NGX_BUSY \<and> t' = t \<and> T' = T \<and> value_at (radix_path key msk 0) T \<noteq> NGX_RADIX_NO_VALUE) \<or>
     (rc = NGX_OK \<and> (\<lambda>ks. value_at ks T') = (\<lambda>ks. value_at ks T)(radix_path key msk 0 := value) \<and>
       value_at (radix_path key msk 0) T = NGX_RADIX_NO_VALUE) \<or>
     (rc = NGX_ERROR \<and> (\<lambda>ks. value_at ks T') = (\<lambda>ks. value_at ks T) \<and> fs' @ arena t' = [] \<and>
       value_at (radix_path key msk 0) T = NGX_RADIX_NO_VALUE)"
    by (rule radix_insert_repr [OF r, of key msk "value"])
  have "rt_free t' = 0 \<and> rt_pool t' = []" if "fs' @ arena t' = []"
    using ins(2) that by (cases "rt_pool t'") (auto simp: radix_repr_def arena_def piece_Nil ngx_pagesize_def radix_node_size_def)
  then show ?thesis using ins by (auto simp: radix_lookup_repr [OF r] radix_lookup_repr [OF ins(2)] radix_inv_def)
qed

text \<open>
  C3: on a well-formed tree \<open>ngx_radix32tree_insert\<close> follows no null pointer and refines the update of
  a table indexed by prefixes.  A prefix that has a value is refused as busy and nothing changes;
  otherwise the value is stored for that prefix and no other, or, only when the pool is exhausted, an error
  leaves the table as it was.  The tree stays well-formed.
\<close>

theorem radix_insert_refines:
  assumes "radix_inv t"
  shows "\<exists>rc t'. ngx_radix32tree_insert t key msk value = Some (rc, t') \<and> radix_inv t' \<and>
    (if radix_lookup t (radix_path key msk 0) \<noteq> NGX_RADIX_NO_VALUE then rc = NGX_BUSY \<and> t' = t
     else (rc = NGX_OK \<and> radix_lookup t' = (radix_lookup t)(radix_path key msk 0 := value)) \<or>
          (rc = NGX_ERROR \<and> radix_lookup t' = radix_lookup t \<and> rt_free t' = 0 \<and> rt_pool t' = []))"
  by (rule radix_insert_lookup [OF assms])

definition page_tree :: ngx_radix_tree_t where
  "page_tree = the (the (ngx_radix_tree_create [4096] (\<lambda>_. new_leaf 0) 0))"

lemma page_tree_ok: "radix_inv page_tree" "radix_lookup page_tree = (\<lambda>_. NGX_RADIX_NO_VALUE)"
proof -
  have p: "pool_ok [4096]"
    by (auto simp: pool_ok_def ngx_pagesize_def piece_map distinct_map inj_on_def radix_node_size_def)
  have "ngx_radix_tree_create [4096] (\<lambda>_. new_leaf 0) 0 \<noteq> Some None"
    by (simp add: ngx_radix_tree_create_def ngx_radix_alloc_def ngx_pagesize_def radix_node_size_def)
  then show "radix_inv page_tree" "radix_lookup page_tree = (\<lambda>_. NGX_RADIX_NO_VALUE)"
    using ngx_radix_tree_create_inv [OF p, of 0 "\<lambda>_. new_leaf 0"] by (auto simp: page_tree_def)
qed

theorem radix_insert_refines_witness:
  "\<exists>rc t'. ngx_radix32tree_insert page_tree 0x0a000000 0xff000000 7 = Some (rc, t') \<and> radix_inv t'"
  using radix_insert_refines [OF page_tree_ok(1), of "0x0a000000" "0xff000000" 7] by auto

text \<open>
  C5: \<open>ngx_radix32tree_find\<close> ends on every well-formed tree and returns the value of the longest prefix
  of the key that has one, or no value when none has.
\<close>

theorem radix_find_longest:
  assumes "radix_inv t"
  shows "ngx_radix32tree_find t key = Some (longest_match (radix_lookup t) (key_bits key))"
  using assms radix_find_repr by (auto simp: radix_inv_def)

theorem radix_find_longest_witness:
  "ngx_radix32tree_find page_tree 0x0a000001 = Some NGX_RADIX_NO_VALUE"
  using radix_find_longest [OF page_tree_ok(1), of "0x0a000001"] by (simp add: page_tree_ok(2) longest_match_none)

lemma radix_delete_lookup:
  assumes "radix_inv t"
  shows "if radix_path key msk 0 \<noteq> [] \<or> rn_right (rt_mem t (rt_root t)) \<noteq> 0 \<or> rn_left (rt_mem t (rt_root t)) \<noteq> 0
    then \<exists>rc t'. ngx_radix32tree_delete t key msk = Some (rc, t') \<and> radix_inv t' \<and>
      radix_lookup t' = (radix_lookup t)(radix_path key msk 0 := NGX_RADIX_NO_VALUE) \<and>
      (radix_lookup t (radix_path key msk 0) \<noteq> NGX_RADIX_NO_VALUE \<longrightarrow> rc = NGX_OK)
    else ngx_radix32tree_delete t key msk = None"
proof -
  obtain T fs where r: "radix_repr t T fs" using assms by (auto simp: radix_inv_def)
  have root: "(\<exists>b. rchild T b \<noteq> Tip) \<longleftrightarrow> rn_right (rt_mem t (rt_root t)) \<noteq> 0 \<or> rn_left (rt_mem t (rt_root t)) \<noteq> 0"
  proof -
    obtain a rr ll v where T: "T = Node a rr ll v" using r by (cases T) (auto simp: radix_repr_def)
    have h: "holds (rt_mem t) a (rn_right (rt_mem t a)) rr" "holds (rt_mem t) a (rn_left (rt_mem t a)) ll" "rt_root t = a"
      using r T by (auto simp: radix_repr_def)
    then show ?thesis using T by (cases rr; cases ll) auto
  qed
  show ?thesis
  proof (cases "radix_path key msk 0 \<noteq> [] \<or> (\<exists>b. rchild T b \<noteq> Tip)")
    case True
    obtain rc t' T' fs' where d: "ngx_radix32tree_delete t key msk = Some (rc, t')" "radix_repr t' T' fs'"
      "(\<lambda>ks. value_at ks T') = (\<lambda>ks. value_at ks T)(radix_path key msk 0 := NGX_RADIX_NO_VALUE)"
      "rc = NGX_OK \<or> (rc = NGX_ERROR \<and> t' = t \<and> value_at (radix_path key msk 0) T = NGX_RADIX_NO_VALUE)"
      by (rule radix_delete_repr [OF r True])
    then show ?thesis using True root by (auto simp: radix_lookup_repr [OF r] radix_lookup_repr [OF d(2)] radix_inv_def)
  next
    case False
    then show ?thesis using radix_delete_root [OF r] root by auto
  qed
qed

text \<open>
  C4: deletion from a well-formed tree.  Where the prefix is not the root or the root has a child,
  \<open>ngx_radix32tree_delete\<close> removes the value of this prefix and of no other, and the nodes it frees keep the
  tree and the free list well-formed; it reports success whenever there was a value.  For the root
  entry of a tree that is only a root it dereferences the null parent of the root.
\<close>

theorem radix_delete_refines:
  assumes "radix_inv t"
  shows "if radix_path key msk 0 \<noteq> [] \<or> rn_right (rt_mem t (rt_root t)) \<noteq> 0 \<or> rn_left (rt_mem t (rt_root t)) \<noteq> 0
    then \<exists>rc t'. ngx_radix32tree_delete t key msk = Some (rc, t') \<and> radix_inv t' \<and>
      radix_lookup t' = (radix_lookup t)(radix_path key msk 0 := NGX_RADIX_NO_VALUE) \<and>
      (radix_lookup t (radix_path key msk 0) \<noteq> NGX_RADIX_NO_VALUE \<longrightarrow> rc = NGX_OK)
    else ngx_radix32tree_delete t key msk = None"
  by (rule radix_delete_lookup [OF assms])

theorem radix_delete_refines_witness:
  "\<exists>rc t'. ngx_radix32tree_delete page_tree 0x0a000000 0xff000000 = Some (rc, t') \<and> radix_inv t'"
proof -
  have "radix_path 0x0a000000 0xff000000 0 \<noteq> []" by (subst radix_path.simps) (simp add: bit_numeral_rec)
  then show ?thesis using radix_delete_refines [OF page_tree_ok(1), of "0x0a000000" "0xff000000"] by auto
qed

end
