(* ===== verification/Ngx_Http_Geo.thy ===== *)
theory Ngx_Http_Geo
  imports Ngx_Radix Ngx_Inet
begin

text \<open>
  The part of \<open>http/modules/ngx_http_geo_module.c\<close> that maps client addresses to values by networks:
  the lines of a \<open>geo\<close> block without \<open>ranges\<close>, \<open>include\<close> and \<open>proxy\<close>, the end of the block, and the
  variable.  It is a client of the radix tree through the locale \<open>prefix_table\<close>, and of \<open>ngx_ptocidr\<close>.
\<close>

subsection \<open>The configuration of a \<open>geo\<close> block\<close>

text \<open>
  \<open>ngx_http_geo_cidr_value\<close>: the address and the mask in host order, or \<open>None\<close> for \<open>NGX_ERROR\<close>.  An
  argument of the configuration is the bytes before its terminating zero.
\<close>

definition ngx_http_geo_cidr_value :: "bytes \<Rightarrow> (uint32_t \<times> uint32_t) option" where
  "ngx_http_geo_cidr_value net =
     (if net = bs ''255.255.255.255'' then Some (0xffffffff, 0xffffffff)
      else case ngx_ptocidr net of (rc, cidr) \<Rightarrow>
        if rc = NGX_ERROR then None
        else case cidr of
            Some (CIDR_in addr msk) \<Rightarrow> Some (ntohl addr, ntohl msk)
          | _ \<Rightarrow> None)"

text \<open>
  The loop that puts a value into the tree, with the operations of the tree as arguments.  The old
  value is looked up for the log.  \<open>None\<close>: one of the operations has no result.
\<close>

primrec geo_put ::
  "('t \<Rightarrow> uint32_t \<Rightarrow> uint32_t \<Rightarrow> uint64_t \<Rightarrow> (int \<times> 't) option) \<Rightarrow> ('t \<Rightarrow> uint32_t \<Rightarrow> uint32_t \<Rightarrow> (int \<times> 't) option) \<Rightarrow>
   ('t \<Rightarrow> uint32_t \<Rightarrow> uint64_t option) \<Rightarrow> nat \<Rightarrow> 't \<Rightarrow> uint32_t \<Rightarrow> uint32_t \<Rightarrow> uint64_t \<Rightarrow> (int \<times> 't) option" where
  "geo_put ins del fnd 0 tree addr msk val = Some (NGX_ERROR, tree)"
| "geo_put ins del fnd (Suc i) tree addr msk val =
     (case ins tree addr msk val of
        None \<Rightarrow> None
      | Some (rc, tree) \<Rightarrow>
          if rc = NGX_OK then Some (NGX_OK, tree)
          else if rc = NGX_ERROR then Some (NGX_ERROR, tree)
          else
            case fnd tree (addr AND msk) of
              None \<Rightarrow> None
            | Some old \<Rightarrow>
                case del tree addr msk of
                  None \<Rightarrow> None
                | Some (rc, tree) \<Rightarrow>
                    if rc = NGX_ERROR then Some (NGX_ERROR, tree) else geo_put ins del fnd i tree addr msk val)"

text \<open>
  A line of the block, with the tree once it exists.  \<open>geo_value\<close> stands for \<open>ngx_http_geo_value\<close>: the
  address of the value for a text, \<open>None\<close> for \<open>NULL\<close>.  The result: \<open>NGX_CONF_OK\<close> or not.
\<close>

definition ngx_http_geo_cidr ::
  "node_ptr list \<Rightarrow> radix_mem \<Rightarrow> (bytes \<Rightarrow> uint64_t option) \<Rightarrow> ngx_radix_tree_t option \<Rightarrow> bytes \<times> bytes \<Rightarrow>
   (bool \<times> ngx_radix_tree_t option) option" where
  "ngx_http_geo_cidr pool m geo_value ctx_tree line =
     (case (case ctx_tree of None \<Rightarrow> ngx_radix_tree_create pool m (-1) | Some tree \<Rightarrow> Some (Some tree)) of
        None \<Rightarrow> None
      | Some None \<Rightarrow> Some (False, None)
      | Some (Some tree) \<Rightarrow>
          let (del, net) = (if fst line = bs ''default'' then (False, None)
                            else if fst line = bs ''delete'' then (True, Some (snd line))
                            else (False, Some (fst line)))
          in case (case net of None \<Rightarrow> Some (0, 0) | Some net \<Rightarrow> ngx_http_geo_cidr_value net) of
            None \<Rightarrow> Some (False, Some tree)
          | Some (addr, msk) \<Rightarrow>
              if del then map_option (\<lambda>(rc, tree). (True, Some tree)) (ngx_radix32tree_delete tree addr msk)
              else
                case geo_value (snd line) of
                  None \<Rightarrow> Some (False, Some tree)
                | Some val \<Rightarrow>
                    map_option (\<lambda>(rc, tree). (rc = NGX_OK, Some tree))
                      (geo_put ngx_radix32tree_insert ngx_radix32tree_delete ngx_radix32tree_find 2 tree addr msk val))"

text \<open>The lines of a block, up to the first that fails.\<close>

fun geo_lines ::
  "node_ptr list \<Rightarrow> radix_mem \<Rightarrow> (bytes \<Rightarrow> uint64_t option) \<Rightarrow> ngx_radix_tree_t option \<Rightarrow> (bytes \<times> bytes) list \<Rightarrow>
   (bool \<times> ngx_radix_tree_t option) option" where
  "geo_lines pool m geo_value ctx_tree [] = Some (True, ctx_tree)"
| "geo_lines pool m geo_value ctx_tree (line # ls) =
     (case ngx_http_geo_cidr pool m geo_value ctx_tree line of
        None \<Rightarrow> None
      | Some (ok, ctx_tree) \<Rightarrow> if ok then geo_lines pool m geo_value ctx_tree ls else Some (False, ctx_tree))"

text \<open>
  The end of \<open>ngx_http_geo_block\<close> for networks: the tree of an empty block, and the null value as
  the default; \<open>null_value\<close> is the address of \<open>ngx_http_variable_null_value\<close>.
\<close>

definition geo_block_end ::
  "node_ptr list \<Rightarrow> radix_mem \<Rightarrow> uint64_t \<Rightarrow> ngx_radix_tree_t option \<Rightarrow> (bool \<times> ngx_radix_tree_t option) option" where
  "geo_block_end pool m null_value ctx_tree =
     (case (case ctx_tree of None \<Rightarrow> ngx_radix_tree_create pool m (-1) | Some tree \<Rightarrow> Some (Some tree)) of
        None \<Rightarrow> None
      | Some None \<Rightarrow> Some (False, None)
      | Some (Some tree) \<Rightarrow>
          case ngx_radix32tree_find tree 0 of
            None \<Rightarrow> None
          | Some v \<Rightarrow>
              if v \<noteq> NGX_RADIX_NO_VALUE then Some (True, Some tree)
              else map_option (\<lambda>(rc, tree). (rc \<noteq> NGX_ERROR, Some tree)) (ngx_radix32tree_insert tree 0 0 null_value))"

text \<open>
  \<open>ngx_http_geo_cidr_variable\<close> copies the value at the address found for the client; \<open>None\<close>: the
  address is the \<open>(uintptr_t) -1\<close> of a failed search.
\<close>

definition ngx_http_geo_cidr_variable :: "ngx_radix_tree_t \<Rightarrow> uint32_t \<Rightarrow> uint64_t option" where
  "ngx_http_geo_cidr_variable tree addr =
     (case ngx_radix32tree_find tree addr of
        None \<Rightarrow> None
      | Some vv \<Rightarrow> if vv = NGX_RADIX_NO_VALUE then None else Some vv)"

subsection \<open>Tables of prefixes\<close>

text \<open>
  What a client of the tree relies on: each operation acts on a table indexed by prefixes, and a
  search is the longest match in it.
\<close>

locale prefix_table =
  fixes inv :: "'t \<Rightarrow> bool"
    and tbl :: "'t \<Rightarrow> bool list \<Rightarrow> uint64_t"
    and pfx :: "uint32_t \<Rightarrow> uint32_t \<Rightarrow> bool list"
    and ins :: "'t \<Rightarrow> uint32_t \<Rightarrow> uint32_t \<Rightarrow> uint64_t \<Rightarrow> (int \<times> 't) option"
    and del :: "'t \<Rightarrow> uint32_t \<Rightarrow> uint32_t \<Rightarrow> (int \<times> 't) option"
    and fnd :: "'t \<Rightarrow> uint32_t \<Rightarrow> uint64_t option"
  assumes ins_law: "inv t \<Longrightarrow> ins t k msk v = Some (rc, t') \<Longrightarrow> inv t' \<and>
      ((rc = NGX_BUSY \<and> tbl t (pfx k msk) \<noteq> NGX_RADIX_NO_VALUE \<and> tbl t' = tbl t) \<or>
       (rc = NGX_OK \<and> tbl t (pfx k msk) = NGX_RADIX_NO_VALUE \<and> tbl t' = (tbl t)(pfx k msk := v)) \<or>
       (rc = NGX_ERROR \<and> tbl t' = tbl t))"
    and del_law: "inv t \<Longrightarrow> del t k msk = Some (rc, t') \<Longrightarrow> inv t' \<and>
      tbl t' = (tbl t)(pfx k msk := NGX_RADIX_NO_VALUE)"
    and fnd_law: "inv t \<Longrightarrow> fnd t k = Some (longest_match (tbl t) (key_bits k))"
begin

lemma put_law:
  assumes "inv t" "geo_put ins del fnd n t k msk v = Some (rc, t')"
  shows "inv t' \<and> (rc = NGX_OK \<longrightarrow> tbl t' = (tbl t)(pfx k msk := v))"
  using assms
proof (induction n arbitrary: t)
  case (Suc n)
  obtain rc1 t1 where i: "ins t k msk v = Some (rc1, t1)" using Suc.prems(2) by (auto split: option.splits)
  note law = ins_law [OF Suc.prems(1) i]
  show ?case
  proof (cases "rc1 = NGX_BUSY")
    case False
    then have "rc1 = NGX_OK \<or> rc1 = NGX_ERROR" using law by auto
    then show ?thesis using Suc.prems(2) i law by auto
  next
    case True
    then obtain rc2 t2 where d: "del t1 k msk = Some (rc2, t2)" using Suc.prems(2) i by (auto split: option.splits)
    note law2 = del_law [OF conjunct1 [OF law] d]
    show ?thesis
    proof (cases "rc2 = NGX_ERROR")
      case err: True
      then show ?thesis using Suc.prems(2) i True d law2 by (auto split: option.splits)
    next
      case False
      then have "geo_put ins del fnd n t2 k msk v = Some (rc, t')"
        using Suc.prems(2) i True d by (auto split: option.splits)
      from Suc.IH [OF conjunct1 [OF law2] this] law law2 True show ?thesis by auto
    qed
  qed
qed simp

end

interpretation radix: prefix_table radix_inv radix_lookup "\<lambda>key msk. radix_path key msk 0"
  ngx_radix32tree_insert ngx_radix32tree_delete ngx_radix32tree_find
proof unfold_locales
  fix t t' k msk v rc
  assume t: "radix_inv t"
  show "radix_inv t' \<and>
      ((rc = NGX_BUSY \<and> radix_lookup t (radix_path k msk 0) \<noteq> NGX_RADIX_NO_VALUE \<and> radix_lookup t' = radix_lookup t) \<or>
       (rc = NGX_OK \<and> radix_lookup t (radix_path k msk 0) = NGX_RADIX_NO_VALUE \<and> radix_lookup t' = (radix_lookup t)(radix_path k msk 0 := v)) \<or>
       (rc = NGX_ERROR \<and> radix_lookup t' = radix_lookup t))" if "ngx_radix32tree_insert t k msk v = Some (rc, t')"
    using radix_insert_lookup [OF t, of k msk v] that by (auto split: if_splits)
  show "radix_inv t' \<and> radix_lookup t' = (radix_lookup t)(radix_path k msk 0 := NGX_RADIX_NO_VALUE)"
    if "ngx_radix32tree_delete t k msk = Some (rc, t')"
    using radix_delete_lookup [OF t, of k msk] that by (auto split: if_splits)
  show "ngx_radix32tree_find t k = Some (longest_match (radix_lookup t) (key_bits k))"
    using t radix_find_repr by (auto simp: radix_inv_def)
qed

subsection \<open>Networks and prefixes\<close>

lemma radix_path_high:
  assumes "bits \<le> 32" "d \<le> bits"
  shows "radix_path key (push_bit (32 - bits) (- 1)) d = take (bits - d) (drop d (key_bits key))"
  using assms(2)
proof (induction "bits - d" arbitrary: d)
  case 0
  then have "\<not> (d < 32 \<and> bit (push_bit (32 - bits) (- 1 :: uint32_t)) (31 - d))" using assms(1) by (auto simp: bit_simps)
  then show ?case using 0 by (subst radix_path.simps) simp
next
  case (Suc n)
  then have d: "d < bits" "d < 32" using assms(1) by auto
  then have "bit (push_bit (32 - bits) (- 1 :: uint32_t)) (31 - d)" using assms(1) by (auto simp: bit_simps)
  then have "radix_path key (push_bit (32 - bits) (- 1)) d = bit key (31 - d) # radix_path key (push_bit (32 - bits) (- 1)) (Suc d)"
    using d by (subst radix_path.simps) simp
  also have "\<dots> = bit key (31 - d) # take (bits - Suc d) (drop (Suc d) (key_bits key))" using Suc.hyps(1) [of "Suc d"] Suc.hyps(2) d by simp
  also have "\<dots> = take (bits - d) (drop d (key_bits key))" using drop_key_bits [OF d(2)] d by (simp add: Suc_diff_Suc take_Cons')
  finally show ?case .
qed

lemma key_bits_high:
  "take bits (key_bits (push_bit (32 - bits) (drop_bit (32 - bits) key))) = take bits (key_bits key)"
proof (rule nth_equalityI)
  fix i assume "i < length (take bits (key_bits (push_bit (32 - bits) (drop_bit (32 - bits) key))))"
  then have i: "i < bits" "i < 32" by auto
  then show "take bits (key_bits (push_bit (32 - bits) (drop_bit (32 - bits) key))) ! i = take bits (key_bits key) ! i"
    by (auto simp: key_bits_def bit_simps)
qed simp

lemma geo_net_prefix:
  assumes "c_slash \<notin> set net" "ngx_inet_addr net = a" "a \<noteq> INADDR_NONE" "ngx_atoi ds = int bits" "bits \<le> 32"
  shows "map_option (\<lambda>(addr, msk). radix_path addr msk 0) (ngx_http_geo_cidr_value (net @ c_slash # ds)) = Some (take bits (key_bits (ntohl a)))"
proof -
  have n: "net @ c_slash # ds \<noteq> bs ''255.255.255.255''"
  proof
    assume "net @ c_slash # ds = bs ''255.255.255.255''"
    then have "c_slash \<in> set (bs ''255.255.255.255'')" by (metis in_set_conv_decomp)
    then show False by simp
  qed
  have "ngx_http_geo_cidr_value (net @ c_slash # ds) = Some (ntohl (a AND cidr_mask bits), ntohl (cidr_mask bits))"
    using ngx_ptocidr_eq [OF assms] n by (simp add: ngx_http_geo_cidr_value_def)
  moreover have "ntohl (cidr_mask bits) = push_bit (32 - bits) (- 1)" using htonl_cidr_mask [OF assms(5)] by (simp add: ntohl_def)
  ultimately show ?thesis
    using radix_path_high [OF assms(5), of 0] key_bits_high [of bits "ntohl a"] ntohl_cidr [OF assms(5), of a] by simp
qed

text \<open>
  The prefix under which a line of the block is stored: for a network \<open>a.b.c.d/n\<close> the first \<open>n\<close> bits
  of the address, whatever the bits behind them.
\<close>

theorem geo_network_prefix:
  assumes "c_slash \<notin> set net" "ngx_inet_addr net = a" "a \<noteq> INADDR_NONE" "ngx_atoi ds = int bits" "bits \<le> 32"
  shows "\<exists>addr msk. ngx_http_geo_cidr_value (net @ c_slash # ds) = Some (addr, msk) \<and> radix_path addr msk 0 = take bits (key_bits (ntohl a))"
  using geo_net_prefix [OF assms] by auto

theorem geo_network_prefix_witness:
  "\<exists>addr msk. ngx_http_geo_cidr_value (bs ''10.1.2.3/8'') = Some (addr, msk) \<and> radix_path addr msk 0 = take 8 (key_bits 0x0a010203)"
proof -
  have n: "c_slash \<notin> set (bs ''10.1.2.3'')" by simp
  have a: "ngx_inet_addr (bs ''10.1.2.3'') = 0x0302010a" by code_simp
  have d: "ngx_atoi (bs ''8'') = int 8" by code_simp
  have h: "ntohl 0x0302010a = 0x0a010203" by (simp add: ntohl_def htonl_def)
  show ?thesis using geo_network_prefix [OF n a _ d] by (simp add: INADDR_NONE_def h)
qed

subsection \<open>The block as a table of prefixes\<close>

definition geo_spec :: "(bytes \<Rightarrow> uint64_t option) \<Rightarrow> (bool list \<Rightarrow> uint64_t) \<Rightarrow> bytes \<times> bytes \<Rightarrow> bool list \<Rightarrow> uint64_t" where
  "geo_spec geo_value f line =
     (if fst line = bs ''default'' then f([] := the (geo_value (snd line)))
      else if fst line = bs ''delete'' then
        case ngx_http_geo_cidr_value (snd line) of Some (addr, msk) \<Rightarrow> f(radix_path addr msk 0 := NGX_RADIX_NO_VALUE) | None \<Rightarrow> f
      else
        case ngx_http_geo_cidr_value (fst line) of Some (addr, msk) \<Rightarrow> f(radix_path addr msk 0 := the (geo_value (snd line))) | None \<Rightarrow> f)"

lemma radix_path_0 [simp]: "radix_path key 0 0 = []"
  by (subst radix_path.simps) simp

lemma geo_cidr_spec:
  assumes "case ctx of None \<Rightarrow> pool_ok pool \<and> f = (\<lambda>_. NGX_RADIX_NO_VALUE) | Some t \<Rightarrow> radix_inv t \<and> radix_lookup t = f"
    "ngx_http_geo_cidr pool m gv ctx line = Some (True, ctx')"
  shows "\<exists>t'. ctx' = Some t' \<and> radix_inv t' \<and> radix_lookup t' = geo_spec gv f line"
proof -
  obtain t where t: "(case ctx of None \<Rightarrow> ngx_radix_tree_create pool m (-1) | Some tree \<Rightarrow> Some (Some tree)) = Some (Some t)"
    using assms(2) by (auto simp: ngx_http_geo_cidr_def split: option.splits)
  have ti: "radix_inv t" "radix_lookup t = f"
    using assms(1) t ngx_radix_tree_create_inv [of pool "-1" m] by (auto split: option.splits)
  have e: "ngx_http_geo_cidr pool m gv ctx line = ngx_http_geo_cidr pool m gv (Some t) line"
    using t by (simp add: ngx_http_geo_cidr_def)
  have put: "\<exists>t'. ctx' = Some t' \<and> radix_inv t' \<and> radix_lookup t' = f(radix_path addr msk 0 := the (gv (snd line)))"
    if h: "(case gv (snd line) of None \<Rightarrow> Some (False, Some t) | Some val \<Rightarrow>
      map_option (\<lambda>(rc, tree). (rc = NGX_OK, Some tree))
        (geo_put ngx_radix32tree_insert ngx_radix32tree_delete ngx_radix32tree_find 2 t addr msk val)) = Some (True, ctx')" for addr msk
  proof -
    obtain val t' where v: "gv (snd line) = Some val"
      "geo_put ngx_radix32tree_insert ngx_radix32tree_delete ngx_radix32tree_find 2 t addr msk val = Some (NGX_OK, t')" "ctx' = Some t'"
      using h by (cases "gv (snd line)") (auto simp del: geo_put.simps)
    then show ?thesis using radix.put_law [OF ti(1) v(2)] ti(2) by simp
  qed
  consider "fst line = bs ''default''" | "fst line \<noteq> bs ''default''" "fst line = bs ''delete''"
    | "fst line \<noteq> bs ''default''" "fst line \<noteq> bs ''delete''" by blast
  then show ?thesis
  proof cases
    case 1
    then show ?thesis using assms(2) put [of 0 0] unfolding e by (simp add: ngx_http_geo_cidr_def geo_spec_def del: geo_put.simps bs_simps)
  next
    case 2
    then obtain addr msk rc t' where d: "ngx_http_geo_cidr_value (snd line) = Some (addr, msk)"
      "ngx_radix32tree_delete t addr msk = Some (rc, t')" "ctx' = Some t'"
      using assms(2) unfolding e by (auto simp: ngx_http_geo_cidr_def simp del: geo_put.simps bs_simps split: option.splits)
    then show ?thesis using 2 radix.del_law [OF ti(1) d(2)] ti(2) by (simp add: geo_spec_def del: bs_simps)
  next
    case 3
    then obtain addr msk where d: "ngx_http_geo_cidr_value (fst line) = Some (addr, msk)"
      using assms(2) unfolding e by (auto simp: ngx_http_geo_cidr_def simp del: geo_put.simps bs_simps split: option.splits)
    then show ?thesis using 3 assms(2) put [of addr msk] unfolding e
      by (simp add: ngx_http_geo_cidr_def geo_spec_def del: geo_put.simps bs_simps)
  qed
qed

lemma geo_lines_spec:
  assumes "case ctx of None \<Rightarrow> pool_ok pool \<and> f = (\<lambda>_. NGX_RADIX_NO_VALUE) | Some t \<Rightarrow> radix_inv t \<and> radix_lookup t = f"
    "geo_lines pool m gv ctx ls = Some (True, ctx')"
  shows "case ctx' of None \<Rightarrow> pool_ok pool \<and> foldl (geo_spec gv) f ls = (\<lambda>_. NGX_RADIX_NO_VALUE)
    | Some t \<Rightarrow> radix_inv t \<and> radix_lookup t = foldl (geo_spec gv) f ls"
  using assms
proof (induction ls arbitrary: ctx f)
  case (Cons line ls)
  obtain ctx1 where c: "ngx_http_geo_cidr pool m gv ctx line = Some (True, ctx1)" "geo_lines pool m gv ctx1 ls = Some (True, ctx')"
    using Cons.prems(2) by (auto split: option.splits if_splits)
  obtain t where t: "ctx1 = Some t" "radix_inv t" "radix_lookup t = geo_spec gv f line" using geo_cidr_spec [OF Cons.prems(1) c(1)] by auto
  then show ?case unfolding foldl_Cons using Cons.IH [of "geo_spec gv f line" ctx1] c(2) by simp
next
  case Nil
  then show ?case unfolding foldl_Nil by simp
qed

text \<open>The default that the end of the block adds.\<close>

definition geo_default :: "uint64_t \<Rightarrow> (bool list \<Rightarrow> uint64_t) \<Rightarrow> bool list \<Rightarrow> uint64_t" where
  "geo_default null_value f = (if longest_match f (key_bits 0) \<noteq> NGX_RADIX_NO_VALUE then f else f([] := null_value))"

lemma longest_match_root: "longest_match f ks = NGX_RADIX_NO_VALUE \<Longrightarrow> f [] = NGX_RADIX_NO_VALUE"
proof (induction ks rule: rev_induct)
  case (snoc x xs)
  then show ?case by (subst (asm) longest_match.simps) (auto split: if_splits)
qed (simp add: longest_match.simps)

lemma geo_block_end_spec:
  assumes "case ctx of None \<Rightarrow> pool_ok pool \<and> f = (\<lambda>_. NGX_RADIX_NO_VALUE) | Some t \<Rightarrow> radix_inv t \<and> radix_lookup t = f"
    "geo_block_end pool m null_value ctx = Some (True, ctx')"
  shows "\<exists>t'. ctx' = Some t' \<and> radix_inv t' \<and> radix_lookup t' = geo_default null_value f"
proof -
  obtain t where t: "(case ctx of None \<Rightarrow> ngx_radix_tree_create pool m (-1) | Some tree \<Rightarrow> Some (Some tree)) = Some (Some t)"
    using assms(2) by (auto simp: geo_block_end_def split: option.splits)
  have ti: "radix_inv t" "radix_lookup t = f"
    using assms(1) t ngx_radix_tree_create_inv [of pool "-1" m] by (auto split: option.splits)
  have e: "geo_block_end pool m null_value ctx = geo_block_end pool m null_value (Some t)"
    using t by (simp add: geo_block_end_def)
  note fnd = radix.fnd_law [OF ti(1), of 0, unfolded ti(2)]
  show ?thesis
  proof (cases "longest_match f (key_bits 0) = NGX_RADIX_NO_VALUE")
    case False
    then show ?thesis using assms(2) ti fnd unfolding e by (auto simp: geo_block_end_def geo_default_def)
  next
    case True
    then obtain rc t' where i: "ngx_radix32tree_insert t 0 0 null_value = Some (rc, t')" "rc \<noteq> NGX_ERROR" "ctx' = Some t'"
      using assms(2) fnd unfolding e by (auto simp: geo_block_end_def)
    then show ?thesis using radix.ins_law [OF ti(1) i(1)] longest_match_root [OF True] ti(2) True by (auto simp: geo_default_def)
  qed
qed

lemma geo_variable_spec:
  "radix_inv t \<Longrightarrow> ngx_http_geo_cidr_variable t addr =
    (let v = longest_match (radix_lookup t) (key_bits addr) in if v = NGX_RADIX_NO_VALUE then None else Some v)"
  by (simp add: ngx_http_geo_cidr_variable_def radix.fnd_law Let_def)

text \<open>
  C11: a \<open>geo\<close> block whose lines are all accepted computes the longest match in the table of its
  networks, where a later line for the same network replaces an earlier one, a line \<open>delete\<close> removes
  one, and \<open>default\<close> is the empty prefix.  The null value is the default where the search for
  the address 0 finds nothing; the variable has no value, as its code reads through \<open>-1\<close>, where an
  address matches no network.
\<close>

theorem geo_longest_match:
  assumes "pool_ok pool" "geo_lines pool m gv None ls = Some (True, ctx)" "geo_block_end pool m null_value ctx = Some (True, ctx')"
  shows "\<exists>t. ctx' = Some t \<and> ngx_http_geo_cidr_variable t addr =
    (let v = longest_match (geo_default null_value (foldl (geo_spec gv) (\<lambda>_. NGX_RADIX_NO_VALUE) ls)) (key_bits addr)
     in if v = NGX_RADIX_NO_VALUE then None else Some v)"
proof -
  have "case None of None \<Rightarrow> pool_ok pool \<and> (\<lambda>_. NGX_RADIX_NO_VALUE) = (\<lambda>_. NGX_RADIX_NO_VALUE)
    | Some t \<Rightarrow> radix_inv t \<and> radix_lookup t = (\<lambda>_. NGX_RADIX_NO_VALUE)" using assms(1) by simp
  from geo_block_end_spec [OF geo_lines_spec [OF this assms(2)] assms(3)] obtain t where
    "ctx' = Some t" "radix_inv t" "radix_lookup t = geo_default null_value (foldl (geo_spec gv) (\<lambda>_. NGX_RADIX_NO_VALUE) ls)" by blast
  then show ?thesis using geo_variable_spec [of t addr] by simp
qed

subsection \<open>A missing default\<close>

lemma radix_insert_room:
  assumes "radix_repr t T fs" "32 \<le> length (fs @ arena t)" "radix_lookup t (radix_path key msk 0) = NGX_RADIX_NO_VALUE"
  obtains t' where "ngx_radix32tree_insert t key msk v = Some (NGX_OK, t')" "radix_inv t'" "radix_lookup t' = (radix_lookup t)(radix_path key msk 0 := v)"
proof -
  obtain rc t' T' fs' where i: "ngx_radix32tree_insert t key msk v = Some (rc, t')"
    "if rc = NGX_ERROR then length (fs @ arena t) < 32 else length (fs @ arena t) \<le> length (fs' @ arena t') + 32"
    by (rule radix_insert_repr [OF assms(1), of key msk v])
  have inv: "radix_inv t" using assms(1) by (auto simp: radix_inv_def)
  have "rc \<noteq> NGX_ERROR" using i(2) assms(2) by auto
  with radix.ins_law [OF inv i(1)] assms(3) have "rc = NGX_OK" "radix_inv t'" "radix_lookup t' = (radix_lookup t)(radix_path key msk 0 := v)" by auto
  with i(1) show ?thesis using that by simp
qed

lemma longest_match_single:
  assumes "ds \<noteq> []" "v \<noteq> NGX_RADIX_NO_VALUE"
  shows "longest_match ((\<lambda>_. NGX_RADIX_NO_VALUE)(ds := v)) ks = (if take (length ds) ks = ds then v else NGX_RADIX_NO_VALUE)"
proof (induction ks rule: rev_induct)
  case Nil
  then show ?case using assms by (simp add: longest_match.simps)
next
  case (snoc x xs)
  show ?case
  proof (cases "xs @ [x] = ds")
    case True
    have "take (length ds) xs \<noteq> ds" using True [symmetric] by simp
    then show ?thesis using True assms(2) by (subst longest_match.simps) simp
  next
    case False
    have "take (length ds) (xs @ [x]) = ds \<longleftrightarrow> take (length ds) xs = ds"
      using False by (cases "length ds \<le> length xs") auto
    moreover have "longest_match ((\<lambda>_. NGX_RADIX_NO_VALUE)(ds := v)) (xs @ [x]) = longest_match ((\<lambda>_. NGX_RADIX_NO_VALUE)(ds := v)) xs"
      using False by (subst longest_match.simps) simp
    ultimately show ?thesis using snoc by (simp only:)
  qed
qed

text \<open>A pool large enough for the preallocated levels.\<close>

definition big_pool :: "node_ptr list" where
  "big_pool = map (\<lambda>i. ngx_pagesize * (i + 1)) [0..<128]"

lemma piece_append: "piece s (a + b) = piece s a @ piece (s + radix_node_size * a) b"
  by (induction a arbitrary: s) (simp_all add: algebra_simps)

lemma pool_pieces:
  "concat (map (\<lambda>p. piece p k) (map (\<lambda>i. (radix_node_size * k) * (i + 1)) [0..<n])) = piece (radix_node_size * k) (k * n)"
proof (induction n)
  case (Suc n)
  have "piece (radix_node_size * k) (k * Suc n) = piece (radix_node_size * k) (k * n + k)" by (simp add: add.commute)
  also have "\<dots> = piece (radix_node_size * k) (k * n) @ piece (radix_node_size * k + radix_node_size * (k * n)) k"
    by (rule piece_append)
  finally show ?case using Suc by (simp add: algebra_simps)
qed simp

lemma big_pool_ok: "pool_ok big_pool"
proof -
  have "concat (map (\<lambda>p. piece p (ngx_pagesize div radix_node_size)) (map (\<lambda>i. ngx_pagesize * (i + 1)) [0..<n])) =
      piece ngx_pagesize (ngx_pagesize div radix_node_size * n)" for n
    using pool_pieces [of 128 n] by (simp add: ngx_pagesize_def radix_node_size_def mult.commute)
  then show ?thesis
    by (auto simp: big_pool_def pool_ok_def piece_map distinct_map inj_on_def radix_node_size_def ngx_pagesize_def)
qed

lemma geo_single_network:
  assumes "gv (bs ''a'') = Some v" "v \<noteq> NGX_RADIX_NO_VALUE"
  shows "\<exists>t. geo_lines big_pool m gv None [(bs ''0.0.0.0/8'', bs ''a'')] = Some (True, Some t) \<and>
    geo_block_end big_pool m null_value (Some t) = Some (True, Some t) \<and>
    ngx_http_geo_cidr_variable t 0x0a000001 = None"
proof -
  have len: "128 * 128 \<le> ngx_pagesize div radix_node_size * length big_pool" by (simp add: big_pool_def ngx_pagesize_def radix_node_size_def)
  obtain t T fs where t: "ngx_radix_tree_create big_pool m (-1) = Some (Some t)" "radix_repr t T fs"
    "radix_lookup t = (\<lambda>_. NGX_RADIX_NO_VALUE)" "32 \<le> length (fs @ arena t)"
    using ngx_radix_tree_create_inv [OF big_pool_ok, of "-1" m] len by auto
  have n: "c_slash \<notin> set (bs ''0.0.0.0'')" by simp
  have a: "ngx_inet_addr (bs ''0.0.0.0'') = 0" by code_simp
  have d: "ngx_atoi (bs ''8'') = int 8" by code_simp
  obtain addr msk where c: "ngx_http_geo_cidr_value (bs ''0.0.0.0/8'') = Some (addr, msk)" "radix_path addr msk 0 = take 8 (key_bits 0)"
    using geo_net_prefix [OF n a _ d] by (auto simp: INADDR_NONE_def ntohl_def htonl_def)
  obtain t' where i: "ngx_radix32tree_insert t addr msk v = Some (NGX_OK, t')" "radix_inv t'"
    "radix_lookup t' = (\<lambda>_. NGX_RADIX_NO_VALUE)(take 8 (key_bits 0) := v)"
    by (rule radix_insert_room [OF t(2,4), of addr msk v]) (simp_all add: t(3) c(2))
  have "geo_lines big_pool m gv None [(bs ''0.0.0.0/8'', bs ''a'')] = Some (True, Some t')"
    using t(1) c(1) i(1) assms(1) by (simp add: ngx_http_geo_cidr_def numeral_2_eq_2)
  moreover have ne: "take 8 (key_bits 0) \<noteq> []" by (simp add: key_bits_def)
  have "longest_match (radix_lookup t') (key_bits 0) = v" unfolding i(3) longest_match_single [OF ne assms(2)] by simp
  then have "geo_block_end big_pool m null_value (Some t') = Some (True, Some t')"
    using radix.fnd_law [OF i(2), of 0] assms(2) by (simp add: geo_block_end_def)
  moreover have "take 8 (key_bits 0x0a000001) \<noteq> take 8 (key_bits 0)" by code_simp
  then have "longest_match (radix_lookup t') (key_bits 0x0a000001) = NGX_RADIX_NO_VALUE"
    unfolding i(3) longest_match_single [OF ne assms(2)] by simp
  then have "ngx_http_geo_cidr_variable t' 0x0a000001 = None" using geo_variable_spec [OF i(2)] by simp
  ultimately show ?thesis by blast
qed

text \<open>
  The search for the address 0 that guards the null default is not a search for the default:
  with a network that contains 0.0.0.0 and no line \<open>default\<close> the null value is not added, and the
  variable of a client outside the configured networks is read through \<open>-1\<close>.
\<close>

theorem geo_default_missing:
  assumes "gv (bs ''a'') = Some v" "v \<noteq> NGX_RADIX_NO_VALUE"
  shows "\<exists>t. geo_lines big_pool m gv None [(bs ''0.0.0.0/8'', bs ''a'')] = Some (True, Some t) \<and>
    geo_block_end big_pool m null_value (Some t) = Some (True, Some t) \<and>
    ngx_http_geo_cidr_variable t 0x0a000001 = None"
  using assms by (rule geo_single_network)

theorem geo_default_missing_witness:
  "\<exists>t. geo_lines big_pool (\<lambda>_. new_leaf 0) (\<lambda>_. Some 64) None [(bs ''0.0.0.0/8'', bs ''a'')] = Some (True, Some t) \<and>
    ngx_http_geo_cidr_variable t 0x0a000001 = None"
  using geo_default_missing [of "\<lambda>_. Some 64" 64 "\<lambda>_. new_leaf 0" 0] by (auto simp: NGX_RADIX_NO_VALUE_def)

theorem geo_longest_match_witness:
  "\<exists>t. ngx_http_geo_cidr_variable t 0x0a000001 =
    (let v = longest_match (geo_default 1 (foldl (geo_spec (\<lambda>_. Some 64)) (\<lambda>_. NGX_RADIX_NO_VALUE) [(bs ''0.0.0.0/8'', bs ''a'')])) (key_bits 0x0a000001)
     in if v = NGX_RADIX_NO_VALUE then None else Some v)"
proof -
  obtain t where t: "geo_lines big_pool (\<lambda>_. new_leaf 0) (\<lambda>_. Some 64) None [(bs ''0.0.0.0/8'', bs ''a'')] = Some (True, Some t)"
    "geo_block_end big_pool (\<lambda>_. new_leaf 0) 1 (Some t) = Some (True, Some t)"
    using geo_single_network [of "\<lambda>_. Some 64" 64 "\<lambda>_. new_leaf 0" 1] by (auto simp: NGX_RADIX_NO_VALUE_def)
  show ?thesis using geo_longest_match [OF big_pool_ok t] by blast
qed

end
