(* ===== verification/Ngx_Shmtx.thy ===== *)
theory Ngx_Shmtx
  imports Ngx_Prelude
begin

text \<open>
  The mutex in shared memory of \<open>core/ngx_shmtx.c\<close>, as built with atomic operations and POSIX
  semaphores: \<open>ngx_shmtx_trylock\<close>, \<open>ngx_shmtx_lock\<close>, \<open>ngx_shmtx_unlock\<close>, \<open>ngx_shmtx_force_unlock\<close> and
  \<open>ngx_shmtx_wakeup\<close>.

  Every access to \<open>*lock\<close>, \<open>*wait\<close> and the semaphore is a step of its own, so that the reachable states
  are those of all interleavings; a process is its number, which is its \<open>ngx_pid\<close>.  The atomic operations
  and \<open>sem_wait\<close> and \<open>sem_post\<close> do what their documentation says: a compare-and-set is one step, a wait returns
  after it has decremented the semaphore (an interrupted one is repeated by the code), a post increments
  it.  The counters are unbounded numbers, where the code has 64-bit words, and \<open>spin\<close> is at most \<open>2^63\<close>, so that
  doubling the number of pauses does not overflow; pauses and \<open>sched_yield\<close> change nothing and are left out, as are
  the log and \<open>ngx_shmtx_create\<close> and \<open>ngx_shmtx_destory\<close>, which store their arguments and create the semaphore.
\<close>

subsection \<open>States\<close>

text \<open>
  Where a process is: between two calls, or before one of the accesses to shared memory of a call.
  In \<open>ngx_shmtx_lock\<close>, \<open>Lk_read n\<close> and \<open>Lk_cas n\<close> are the attempt after a spin of \<open>n\<close> pauses, the first for
  \<open>n = 0\<close>; \<open>Wt_read\<close> and \<open>Wt_cas\<close> are the attempt behind the increment of \<open>wait\<close>.  \<open>Crit\<close>: the process holds the
  lock and has not called \<open>ngx_shmtx_unlock\<close> yet.
\<close>

datatype shmtx_pc =
    Idle | Tr_read | Tr_cas
  | Lk_read nat | Lk_cas nat | Lk_add | Wt_read | Wt_cas | Wt_sem
  | Crit | Un_cas | Fo_cas nat
  | Wk_read | Wk_cas nat | Wk_post
  | Dead

record shmtx_state =
  sh_lock :: nat
  sh_wait :: nat
  sh_sem :: nat
  sh_pc :: "nat \<Rightarrow> shmtx_pc"

text \<open>What the calls read of the machine and the mutex: \<open>ngx_ncpu > 1\<close>, \<open>spin\<close> and \<open>semaphore\<close>.\<close>

record shmtx_conf =
  smp :: bool
  spin :: nat
  semaphore :: bool

definition sh_goto :: "nat \<Rightarrow> shmtx_pc \<Rightarrow> shmtx_state \<Rightarrow> shmtx_state" where
  "sh_goto p k s = s\<lparr>sh_pc := (sh_pc s)(p := k)\<rparr>"

text \<open>What follows an attempt that failed: the next spin, the wait, or another round.\<close>

definition lk_next :: "shmtx_conf \<Rightarrow> nat \<Rightarrow> shmtx_pc" where
  "lk_next c n =
     (let n' = (if n = 0 then 1 else 2 * n) in
      if smp c \<and> n' < spin c then Lk_read n' else if semaphore c then Lk_add else Lk_read 0)"

subsection \<open>Steps\<close>

text \<open>
  One access to the shared memory by process \<open>p\<close>, whose \<open>ngx_pid\<close> is \<open>p\<close>.  A process may start a call
  when it is idle, leave its critical section, or die; a process that is idle may force the lock of a
  dead one.
\<close>

inductive shmtx_step :: "shmtx_conf \<Rightarrow> nat \<Rightarrow> shmtx_state \<Rightarrow> shmtx_state \<Rightarrow> bool" for c where
  start_trylock: "p \<noteq> 0 \<Longrightarrow> sh_pc s p = Idle \<Longrightarrow> shmtx_step c p s (sh_goto p Tr_read s)"
| start_lock: "p \<noteq> 0 \<Longrightarrow> sh_pc s p = Idle \<Longrightarrow> shmtx_step c p s (sh_goto p (Lk_read 0) s)"
| start_unlock: "sh_pc s p = Crit \<Longrightarrow> shmtx_step c p s (sh_goto p Un_cas s)"
| start_force: "p \<noteq> 0 \<Longrightarrow> sh_pc s p = Idle \<Longrightarrow> sh_pc s q = Dead \<Longrightarrow> shmtx_step c p s (sh_goto p (Fo_cas q) s)"
| die: "p \<noteq> 0 \<Longrightarrow> shmtx_step c p s (sh_goto p Dead s)"
| try_free: "sh_pc s p = Tr_read \<Longrightarrow> sh_lock s = 0 \<Longrightarrow> shmtx_step c p s (sh_goto p Tr_cas s)"
| try_busy: "sh_pc s p = Tr_read \<Longrightarrow> sh_lock s \<noteq> 0 \<Longrightarrow> shmtx_step c p s (sh_goto p Idle s)"
| try_taken: "sh_pc s p = Tr_cas \<Longrightarrow> sh_lock s = 0 \<Longrightarrow> shmtx_step c p s (sh_goto p Crit (s\<lparr>sh_lock := p\<rparr>))"
| try_lost: "sh_pc s p = Tr_cas \<Longrightarrow> sh_lock s \<noteq> 0 \<Longrightarrow> shmtx_step c p s (sh_goto p Idle s)"
| lock_free: "sh_pc s p = Lk_read n \<Longrightarrow> sh_lock s = 0 \<Longrightarrow> shmtx_step c p s (sh_goto p (Lk_cas n) s)"
| lock_busy: "sh_pc s p = Lk_read n \<Longrightarrow> sh_lock s \<noteq> 0 \<Longrightarrow> shmtx_step c p s (sh_goto p (lk_next c n) s)"
| lock_taken: "sh_pc s p = Lk_cas n \<Longrightarrow> sh_lock s = 0 \<Longrightarrow> shmtx_step c p s (sh_goto p Crit (s\<lparr>sh_lock := p\<rparr>))"
| lock_lost: "sh_pc s p = Lk_cas n \<Longrightarrow> sh_lock s \<noteq> 0 \<Longrightarrow> shmtx_step c p s (sh_goto p (lk_next c n) s)"
| lock_add: "sh_pc s p = Lk_add \<Longrightarrow> shmtx_step c p s (sh_goto p Wt_read (s\<lparr>sh_wait := sh_wait s + 1\<rparr>))"
| wait_free: "sh_pc s p = Wt_read \<Longrightarrow> sh_lock s = 0 \<Longrightarrow> shmtx_step c p s (sh_goto p Wt_cas s)"
| wait_busy: "sh_pc s p = Wt_read \<Longrightarrow> sh_lock s \<noteq> 0 \<Longrightarrow> shmtx_step c p s (sh_goto p Wt_sem s)"
| wait_taken: "sh_pc s p = Wt_cas \<Longrightarrow> sh_lock s = 0 \<Longrightarrow> shmtx_step c p s (sh_goto p Crit (s\<lparr>sh_lock := p\<rparr>))"
| wait_lost: "sh_pc s p = Wt_cas \<Longrightarrow> sh_lock s \<noteq> 0 \<Longrightarrow> shmtx_step c p s (sh_goto p Wt_sem s)"
| sem_wait: "sh_pc s p = Wt_sem \<Longrightarrow> sh_sem s > 0 \<Longrightarrow> shmtx_step c p s (sh_goto p (Lk_read 0) (s\<lparr>sh_sem := sh_sem s - 1\<rparr>))"
| unlock_own: "sh_pc s p = Un_cas \<Longrightarrow> sh_lock s = p \<Longrightarrow>
    shmtx_step c p s (sh_goto p (if semaphore c then Wk_read else Idle) (s\<lparr>sh_lock := 0\<rparr>))"
| unlock_other: "sh_pc s p = Un_cas \<Longrightarrow> sh_lock s \<noteq> p \<Longrightarrow> shmtx_step c p s (sh_goto p Idle s)"
| force_own: "sh_pc s p = Fo_cas q \<Longrightarrow> sh_lock s = q \<Longrightarrow>
    shmtx_step c p s (sh_goto p (if semaphore c then Wk_read else Idle) (s\<lparr>sh_lock := 0\<rparr>))"
| force_other: "sh_pc s p = Fo_cas q \<Longrightarrow> sh_lock s \<noteq> q \<Longrightarrow> shmtx_step c p s (sh_goto p Idle s)"
| wake_none: "sh_pc s p = Wk_read \<Longrightarrow> sh_wait s = 0 \<Longrightarrow> shmtx_step c p s (sh_goto p Idle s)"
| wake_some: "sh_pc s p = Wk_read \<Longrightarrow> sh_wait s \<noteq> 0 \<Longrightarrow> shmtx_step c p s (sh_goto p (Wk_cas (sh_wait s)) s)"
| wake_taken: "sh_pc s p = Wk_cas w \<Longrightarrow> sh_wait s = w \<Longrightarrow> shmtx_step c p s (sh_goto p Wk_post (s\<lparr>sh_wait := w - 1\<rparr>))"
| wake_lost: "sh_pc s p = Wk_cas w \<Longrightarrow> sh_wait s \<noteq> w \<Longrightarrow> shmtx_step c p s (sh_goto p Wk_read s)"
| wake_post: "sh_pc s p = Wk_post \<Longrightarrow> shmtx_step c p s (sh_goto p Idle (s\<lparr>sh_sem := sh_sem s + 1\<rparr>))"

text \<open>The states that any interleaving of the processes leads to.\<close>

inductive shmtx_reach :: "shmtx_conf \<Rightarrow> shmtx_state \<Rightarrow> bool" for c where
  init: "shmtx_reach c \<lparr>sh_lock = 0, sh_wait = 0, sh_sem = 0, sh_pc = \<lambda>_. Idle\<rparr>"
| step: "shmtx_reach c s \<Longrightarrow> shmtx_step c p s s' \<Longrightarrow> shmtx_reach c s'"

inductive_cases shmtx_stepE: "shmtx_step c p s s'"

subsection \<open>Execution\<close>

text \<open>The steps as a function: the calls and events of a process, and \<open>Go\<close>, the next access of the call it is in.\<close>

datatype shmtx_event = Trylock | Lock | Unlock | Force nat | Die | Go

definition sh_enter :: "nat \<Rightarrow> shmtx_pc \<Rightarrow> shmtx_state \<Rightarrow> shmtx_state option" where
  "sh_enter p k s = (if p \<noteq> 0 \<and> sh_pc s p = Idle then Some (sh_goto p k s) else None)"

definition sh_attempt :: "nat \<Rightarrow> shmtx_pc \<Rightarrow> shmtx_pc \<Rightarrow> shmtx_state \<Rightarrow> shmtx_state option" where
  "sh_attempt p k k' s = Some (if sh_lock s = 0 then sh_goto p k s else sh_goto p k' s)"

definition sh_cas :: "nat \<Rightarrow> shmtx_pc \<Rightarrow> shmtx_state \<Rightarrow> shmtx_state option" where
  "sh_cas p k s = Some (if sh_lock s = 0 then sh_goto p Crit (s\<lparr>sh_lock := p\<rparr>) else sh_goto p k s)"

definition sh_release :: "shmtx_conf \<Rightarrow> nat \<Rightarrow> nat \<Rightarrow> shmtx_state \<Rightarrow> shmtx_state option" where
  "sh_release c p q s =
     Some (if sh_lock s = q then sh_goto p (if semaphore c then Wk_read else Idle) (s\<lparr>sh_lock := 0\<rparr>) else sh_goto p Idle s)"

definition shmtx_next :: "shmtx_conf \<Rightarrow> nat \<Rightarrow> shmtx_state \<Rightarrow> shmtx_state option" where
  "shmtx_next c p s =
     (case sh_pc s p of
        Idle \<Rightarrow> None | Crit \<Rightarrow> None | Dead \<Rightarrow> None
      | Tr_read \<Rightarrow> sh_attempt p Tr_cas Idle s
      | Tr_cas \<Rightarrow> sh_cas p Idle s
      | Lk_read n \<Rightarrow> sh_attempt p (Lk_cas n) (lk_next c n) s
      | Lk_cas n \<Rightarrow> sh_cas p (lk_next c n) s
      | Lk_add \<Rightarrow> Some (sh_goto p Wt_read (s\<lparr>sh_wait := sh_wait s + 1\<rparr>))
      | Wt_read \<Rightarrow> sh_attempt p Wt_cas Wt_sem s
      | Wt_cas \<Rightarrow> sh_cas p Wt_sem s
      | Wt_sem \<Rightarrow> if sh_sem s > 0 then Some (sh_goto p (Lk_read 0) (s\<lparr>sh_sem := sh_sem s - 1\<rparr>)) else None
      | Un_cas \<Rightarrow> sh_release c p p s
      | Fo_cas q \<Rightarrow> sh_release c p q s
      | Wk_read \<Rightarrow> Some (sh_goto p (if sh_wait s = 0 then Idle else Wk_cas (sh_wait s)) s)
      | Wk_cas w \<Rightarrow> Some (if sh_wait s = w then sh_goto p Wk_post (s\<lparr>sh_wait := w - 1\<rparr>) else sh_goto p Wk_read s)
      | Wk_post \<Rightarrow> Some (sh_goto p Idle (s\<lparr>sh_sem := sh_sem s + 1\<rparr>)))"

fun shmtx_act :: "shmtx_conf \<Rightarrow> nat \<Rightarrow> shmtx_event \<Rightarrow> shmtx_state \<Rightarrow> shmtx_state option" where
  "shmtx_act c p Trylock s = sh_enter p Tr_read s"
| "shmtx_act c p Lock s = sh_enter p (Lk_read 0) s"
| "shmtx_act c p Unlock s = (if sh_pc s p = Crit then Some (sh_goto p Un_cas s) else None)"
| "shmtx_act c p (Force q) s = (if sh_pc s q = Dead then sh_enter p (Fo_cas q) s else None)"
| "shmtx_act c p Die s = (if p \<noteq> 0 then Some (sh_goto p Dead s) else None)"
| "shmtx_act c p Go s = shmtx_next c p s"

fun shmtx_run :: "shmtx_conf \<Rightarrow> (nat \<times> shmtx_event) list \<Rightarrow> shmtx_state \<Rightarrow> shmtx_state option" where
  "shmtx_run c [] s = Some s"
| "shmtx_run c ((p, e) # es) s = (case shmtx_act c p e s of Some s' \<Rightarrow> shmtx_run c es s' | None \<Rightarrow> None)"

definition shmtx_init :: shmtx_state where
  "shmtx_init = \<lparr>sh_lock = 0, sh_wait = 0, sh_sem = 0, sh_pc = \<lambda>_. Idle\<rparr>"

lemma sh_goto_simps [simp]:
  "sh_pc (sh_goto p k s) q = (if q = p then k else sh_pc s q)" "sh_lock (sh_goto p k s) = sh_lock s"
  "sh_wait (sh_goto p k s) = sh_wait s" "sh_sem (sh_goto p k s) = sh_sem s"
  by (simp_all add: sh_goto_def)

lemmas sh_access_defs = sh_enter_def sh_attempt_def sh_cas_def sh_release_def

lemma next_step: "shmtx_next c p s = Some s' \<Longrightarrow> shmtx_step c p s s'"
  using shmtx_step.lock_add [where c = c and p = p and s = s] sem_wait [where c = c and p = p and s = s]
    unlock_own [where c = c and p = p and s = s] force_own [where c = c and p = p and s = s and q = "sh_lock s"]
    wake_taken [where c = c and p = p and s = s and w = "sh_wait s"] shmtx_step.wake_post [where c = c and p = p and s = s]
  by (cases "sh_pc s p") (auto simp: shmtx_next_def sh_access_defs intro: shmtx_step.intros split: if_splits)

lemma act_step: "shmtx_act c p e s = Some s' \<Longrightarrow> shmtx_step c p s s'"
  by (cases e) (auto simp: sh_enter_def intro: shmtx_step.intros next_step split: if_splits)

lemma step_act: "shmtx_step c p s s' \<Longrightarrow> \<exists>e. shmtx_act c p e s = Some s'"
proof (induction rule: shmtx_step.induct)
  case (start_trylock p s)
  then show ?case by (intro exI [of _ Trylock]) (simp add: sh_enter_def)
next
  case (start_lock p s)
  then show ?case by (intro exI [of _ Lock]) (simp add: sh_enter_def)
next
  case (start_unlock s p)
  then show ?case by (intro exI [of _ Unlock]) simp
next
  case (start_force p s q)
  then show ?case by (intro exI [of _ "Force q"]) (simp add: sh_enter_def)
next
  case (die p s)
  then show ?case by (intro exI [of _ Die]) simp
qed (intro exI [of _ Go]; simp add: shmtx_next_def sh_access_defs)+

lemma run_reach: "shmtx_reach c s \<Longrightarrow> shmtx_run c es s = Some s' \<Longrightarrow> shmtx_reach c s'"
  by (induction c es s rule: shmtx_run.induct) (auto split: option.splits intro: shmtx_reach.step act_step)

lemma run_append:
  "shmtx_run c (es @ es') s = (case shmtx_run c es s of Some s' \<Rightarrow> shmtx_run c es' s' | None \<Rightarrow> None)"
  by (induction c es s rule: shmtx_run.induct) (simp_all split: option.split)

lemma reach_run: "shmtx_reach c s \<Longrightarrow> \<exists>es. shmtx_run c es shmtx_init = Some s"
proof (induction rule: shmtx_reach.induct)
  case init
  show ?case by (rule exI [of _ "[]"]) (simp add: shmtx_init_def)
next
  case (step s p s')
  then obtain es e where "shmtx_run c es shmtx_init = Some s" "shmtx_act c p e s = Some s'" using step_act by metis
  then have "shmtx_run c (es @ [(p, e)]) shmtx_init = Some s'" by (simp add: run_append)
  then show ?case by blast
qed

subsection \<open>Mutual exclusion\<close>

definition holding :: "shmtx_pc \<Rightarrow> bool" where
  "holding k \<longleftrightarrow> k = Crit \<or> k = Un_cas"

text \<open>A process that holds the lock is the one whose number is in it; the lock names a holder or a dead process.\<close>

definition mutex_inv :: "shmtx_state \<Rightarrow> bool" where
  "mutex_inv s \<longleftrightarrow>
     sh_pc s 0 = Idle \<and> (\<forall>p. p \<noteq> sh_lock s \<longrightarrow> \<not> holding (sh_pc s p)) \<and>
     (sh_lock s \<noteq> 0 \<longrightarrow> holding (sh_pc s (sh_lock s)) \<or> sh_pc s (sh_lock s) = Dead) \<and>
     (\<forall>p q. sh_pc s p = Fo_cas q \<longrightarrow> sh_pc s q = Dead)"

lemma holding_simps [simp]:
  "holding Crit" "holding Un_cas" "\<not> holding Idle" "\<not> holding Tr_read" "\<not> holding Tr_cas" "\<not> holding (Lk_read n)" "\<not> holding (Lk_cas n)"
  "\<not> holding Lk_add" "\<not> holding Wt_read" "\<not> holding Wt_cas" "\<not> holding Wt_sem" "\<not> holding (Fo_cas q)" "\<not> holding Wk_read"
  "\<not> holding (Wk_cas n)" "\<not> holding Wk_post" "\<not> holding Dead"
  by (simp_all add: holding_def)

lemma lk_next_not [simp]: "\<not> holding (lk_next c n)" "lk_next c n \<noteq> Fo_cas q" "lk_next c n \<noteq> Dead" "lk_next c n \<noteq> Wt_sem"
  by (simp_all add: lk_next_def Let_def)

lemma mutex_holder: "mutex_inv s \<Longrightarrow> holding (sh_pc s p) \<Longrightarrow> sh_lock s = p"
  unfolding mutex_inv_def by metis

text \<open>Each kind of step keeps the invariant.\<close>

lemma mutex_plain:
  assumes "mutex_inv s" "p \<noteq> 0" "\<not> holding (sh_pc s p)" "sh_pc s p \<noteq> Dead" "\<not> holding k" "\<And>q. k = Fo_cas q \<Longrightarrow> sh_pc s q = Dead"
    "sh_lock s' = sh_lock s" "sh_pc s' = (sh_pc s)(p := k)"
  shows "mutex_inv s'"
  unfolding mutex_inv_def
proof (intro conjI allI impI)
  show "sh_pc s' 0 = Idle" using assms by (simp add: mutex_inv_def)
  show "\<not> holding (sh_pc s' q)" if "q \<noteq> sh_lock s'" for q using assms that by (simp add: mutex_inv_def)
  show "holding (sh_pc s' (sh_lock s')) \<or> sh_pc s' (sh_lock s') = Dead" if "sh_lock s' \<noteq> 0" using assms that by (auto simp: mutex_inv_def)
  show "sh_pc s' r = Dead" if "sh_pc s' q = Fo_cas r" for q r using assms that by (auto simp: mutex_inv_def split: if_splits)
qed

lemma mutex_keep:
  assumes "mutex_inv s" "holding (sh_pc s p)" "holding k"
  shows "mutex_inv (sh_goto p k s)"
  unfolding mutex_inv_def
proof (intro conjI allI impI)
  have p: "p = sh_lock s" "p \<noteq> 0" using assms(1,2) by (auto simp: mutex_inv_def)
  then show "sh_pc (sh_goto p k s) 0 = Idle" using assms by (simp add: mutex_inv_def)
  show "\<not> holding (sh_pc (sh_goto p k s) q)" if "q \<noteq> sh_lock (sh_goto p k s)" for q using assms that p by (simp add: mutex_inv_def)
  show "holding (sh_pc (sh_goto p k s) (sh_lock (sh_goto p k s))) \<or> sh_pc (sh_goto p k s) (sh_lock (sh_goto p k s)) = Dead"
    using assms p by simp
  show "sh_pc (sh_goto p k s) r = Dead" if "sh_pc (sh_goto p k s) q = Fo_cas r" for q r
    using assms that by (auto simp: mutex_inv_def split: if_splits)
qed

lemma mutex_die:
  assumes "mutex_inv s" "p \<noteq> 0"
  shows "mutex_inv (sh_goto p Dead s)"
  using assms by (auto simp: mutex_inv_def)

lemma mutex_take:
  assumes "mutex_inv s" "p \<noteq> 0" "sh_lock s = 0" "sh_pc s p \<noteq> Dead"
  shows "mutex_inv (sh_goto p Crit (s\<lparr>sh_lock := p\<rparr>))"
proof -
  have none: "\<not> holding (sh_pc s q)" for q using assms(1,3) by (cases "q = 0") (auto simp: mutex_inv_def)
  have "sh_pc s r = Dead" if "sh_pc s q = Fo_cas r" for q r using assms(1) that by (auto simp: mutex_inv_def)
  then show ?thesis using assms none by (auto simp: mutex_inv_def split: if_splits)
qed

lemma mutex_release:
  assumes "mutex_inv s" "p \<noteq> 0" "sh_lock s = p \<or> (sh_pc s (sh_lock s) = Dead \<and> \<not> holding (sh_pc s p) \<and> sh_pc s p \<noteq> Dead)"
    "\<not> holding k" "\<And>q. k \<noteq> Fo_cas q" "sh_pc s p \<noteq> Dead"
  shows "mutex_inv (sh_goto p k (s\<lparr>sh_lock := 0\<rparr>))"
proof -
  have none: "\<not> holding (sh_pc s q)" if "q \<noteq> p" for q
    using assms(1,3) that by (cases "q = sh_lock s") (auto simp: mutex_inv_def)
  have "sh_pc s r = Dead" if "sh_pc s q = Fo_cas r" for q r using assms(1) that by (auto simp: mutex_inv_def)
  then show ?thesis using assms(1,2,4-6) none by (auto simp: mutex_inv_def split: if_splits)
qed

lemma mutex_step:
  assumes "shmtx_step c p s s'" "mutex_inv s"
  shows "mutex_inv s'"
proof -
  have p: "sh_pc s p \<noteq> Idle \<Longrightarrow> p \<noteq> 0" using assms(2) by (cases "p = 0") (auto simp: mutex_inv_def)
  have fo: "sh_pc s p = Fo_cas q \<Longrightarrow> sh_pc s q = Dead" for q using assms(2) by (auto simp: mutex_inv_def)
  show ?thesis using assms(1)
  proof cases
    case start_unlock
    then show ?thesis using mutex_keep [OF assms(2)] by simp
  next
    case die
    then show ?thesis using mutex_die [OF assms(2)] by simp
  next
    case try_taken
    then show ?thesis using mutex_take [OF assms(2)] p by simp
  next
    case lock_taken
    then show ?thesis using mutex_take [OF assms(2)] p by simp
  next
    case wait_taken
    then show ?thesis using mutex_take [OF assms(2)] p by simp
  next
    case unlock_own
    then show ?thesis using mutex_release [OF assms(2), of p] p by simp
  next
    case (force_own q)
    then show ?thesis using mutex_release [OF assms(2), of p] p fo [of q] by simp
  next
    case unlock_other
    then have "sh_lock s = p" using mutex_holder [OF assms(2)] by simp
    then show ?thesis using unlock_other by simp
  qed (rule mutex_plain [OF assms(2), of p]; use p in \<open>auto simp: sh_goto_def\<close>)+
qed

lemma shmtx_mutex: "shmtx_reach c s \<Longrightarrow> mutex_inv s"
proof (induction rule: shmtx_reach.induct)
  case init
  then show ?case by (simp add: mutex_inv_def)
qed (rule mutex_step)

subsection \<open>No lost wakeup\<close>

text \<open>Waiters that have counted themselves, posts on their way, and processes that are awake in a call.\<close>

fun registered :: "shmtx_pc \<Rightarrow> bool" where
  "registered Wt_read \<longleftrightarrow> True" | "registered Wt_cas \<longleftrightarrow> True" | "registered Wt_sem \<longleftrightarrow> True" | "registered k \<longleftrightarrow> False"

fun awake :: "shmtx_pc \<Rightarrow> bool" where
  "awake (Lk_read n) \<longleftrightarrow> True" | "awake (Lk_cas n) \<longleftrightarrow> True" | "awake Lk_add \<longleftrightarrow> True" | "awake Wt_read \<longleftrightarrow> True" | "awake Wt_cas \<longleftrightarrow> True"
| "awake Wk_read \<longleftrightarrow> True" | "awake (Wk_cas n) \<longleftrightarrow> True" | "awake Wk_post \<longleftrightarrow> True" | "awake k \<longleftrightarrow> False"

fun uses_sem :: "shmtx_pc \<Rightarrow> bool" where
  "uses_sem Lk_add \<longleftrightarrow> True" | "uses_sem Wt_read \<longleftrightarrow> True" | "uses_sem Wt_cas \<longleftrightarrow> True" | "uses_sem Wt_sem \<longleftrightarrow> True"
| "uses_sem Wk_read \<longleftrightarrow> True" | "uses_sem (Wk_cas n) \<longleftrightarrow> True" | "uses_sem Wk_post \<longleftrightarrow> True" | "uses_sem k \<longleftrightarrow> False"

definition sh_count :: "(shmtx_pc \<Rightarrow> bool) \<Rightarrow> shmtx_state \<Rightarrow> nat" where
  "sh_count P s = card {p. P (sh_pc s p)}"

definition wake_inv :: "shmtx_conf \<Rightarrow> shmtx_state \<Rightarrow> bool" where
  "wake_inv c s \<longleftrightarrow>
     finite {p. sh_pc s p \<noteq> Idle} \<and>
     (semaphore c \<or> (\<forall>p. \<not> uses_sem (sh_pc s p))) \<and>
     sh_count registered s \<le> sh_wait s + sh_count (\<lambda>k. k = Wk_post) s + sh_sem s \<and>
     ((\<exists>p. sh_pc s p = Wt_sem) \<longrightarrow> sh_lock s \<noteq> 0 \<or> sh_sem s > 0 \<or> (\<exists>p. awake (sh_pc s p)))"

text \<open>A step changes one process.\<close>

lemma step_pc: "shmtx_step c p s s' \<Longrightarrow> sh_pc s' q = (if q = p then sh_pc s' p else sh_pc s q)"
  by (erule shmtx_step.cases) auto

lemma sh_count_step:
  assumes "finite {q. sh_pc s q \<noteq> Idle}" "shmtx_step c p s s'" "\<not> P Idle"
  shows "sh_count P s' + (if P (sh_pc s p) then 1 else 0) = sh_count P s + (if P (sh_pc s' p) then 1 else 0)"
proof -
  have f: "finite {q. P (sh_pc s q)}" by (rule finite_subset [OF _ assms(1)]) (use assms(3) in auto)
  let ?A = "{q. q \<noteq> p \<and> P (sh_pc s q)}"
  have fa: "finite ?A" "p \<notin> ?A" using f by auto
  have "{q. P (sh_pc s q)} = (if P (sh_pc s p) then insert p ?A else ?A)" by auto
  moreover have "{q. P (sh_pc s' q)} = (if P (sh_pc s' p) then insert p ?A else ?A)"
  proof (rule set_eqI)
    fix q
    show "q \<in> {q. P (sh_pc s' q)} \<longleftrightarrow> q \<in> (if P (sh_pc s' p) then insert p ?A else ?A)"
      using step_pc [OF assms(2), of q] by (cases "q = p") simp_all
  qed
  ultimately show ?thesis using fa by (simp add: sh_count_def)
qed

lemma sh_count_pos: "finite {q. sh_pc s q \<noteq> Idle} \<Longrightarrow> \<not> P Idle \<Longrightarrow> P (sh_pc s p) \<Longrightarrow> 0 < sh_count P s"
proof -
  assume a: "finite {q. sh_pc s q \<noteq> Idle}" "\<not> P Idle" "P (sh_pc s p)"
  have "finite {q. P (sh_pc s q)}" by (rule finite_subset [OF _ a(1)]) (use a(2) in auto)
  then show ?thesis using a(3) by (auto simp: sh_count_def card_gt_0_iff)
qed

lemma dead_stays: "shmtx_step c p s s' \<Longrightarrow> sh_pc s q = Dead \<Longrightarrow> sh_pc s' q = Dead"
  by (erule shmtx_step.cases) auto

lemma lk_next_class [simp]:
  "\<not> registered (lk_next c n)" "awake (lk_next c n)" "uses_sem (lk_next c n) \<Longrightarrow> semaphore c" "lk_next c n \<noteq> Wk_post"
  by (auto simp: lk_next_def Let_def split: if_splits)

text \<open>The parts of the invariant after a step.\<close>

lemma wake_finite:
  assumes "shmtx_step c p s s'" "finite {q. sh_pc s q \<noteq> Idle}"
  shows "finite {q. sh_pc s' q \<noteq> Idle}"
proof (rule finite_subset)
  show "{q. sh_pc s' q \<noteq> Idle} \<subseteq> insert p {q. sh_pc s q \<noteq> Idle}"
  proof (rule subsetI)
    fix q assume "q \<in> {q. sh_pc s' q \<noteq> Idle}"
    then show "q \<in> insert p {q. sh_pc s q \<noteq> Idle}" using step_pc [OF assms(1), of q] by (cases "q = p") simp_all
  qed
  show "finite (insert p {q. sh_pc s q \<noteq> Idle})" using assms(2) by simp
qed

lemma wake_count:
  assumes "shmtx_step c p s s'" "finite {q. sh_pc s q \<noteq> Idle}" "sh_pc s' p \<noteq> Dead"
    "sh_count registered s \<le> sh_wait s + sh_count (\<lambda>k. k = Wk_post) s + sh_sem s"
  shows "sh_count registered s' \<le> sh_wait s' + sh_count (\<lambda>k. k = Wk_post) s' + sh_sem s'"
proof -
  have c: "sh_count registered s' + (if registered (sh_pc s p) then 1 else 0) = sh_count registered s + (if registered (sh_pc s' p) then 1 else 0)"
    "sh_count (\<lambda>k. k = Wk_post) s' + (if sh_pc s p = Wk_post then 1 else 0) = sh_count (\<lambda>k. k = Wk_post) s + (if sh_pc s' p = Wk_post then 1 else 0)"
    using sh_count_step [OF assms(2,1), of registered] sh_count_step [OF assms(2,1), of "\<lambda>k. k = Wk_post"] by simp_all
  show ?thesis using assms(1)
    by cases (use c assms(3,4) in \<open>simp_all split: if_splits\<close>)
qed

lemma wake_asleep:
  assumes "shmtx_step c p s s'" "sh_pc s' p \<noteq> Dead" "wake_inv c s" "\<exists>q. sh_pc s' q = Wt_sem" "mutex_inv s"
  shows "sh_lock s' \<noteq> 0 \<or> sh_sem s' > 0 \<or> (\<exists>q. awake (sh_pc s' q))"
proof (cases "awake (sh_pc s' p) \<or> sh_lock s' \<noteq> 0 \<or> sh_sem s' > 0")
  case True
  then show ?thesis by blast
next
  case False
  then have n: "\<not> awake (sh_pc s' p)" "sh_lock s' = 0" "sh_sem s' = 0" by simp_all
  have f: "finite {q. sh_pc s q \<noteq> Idle}" and w: "semaphore c \<or> (\<forall>p. \<not> uses_sem (sh_pc s p))"
    "sh_count registered s \<le> sh_wait s + sh_count (\<lambda>k. k = Wk_post) s + sh_sem s"
    "(\<exists>p. sh_pc s p = Wt_sem) \<longrightarrow> sh_lock s \<noteq> 0 \<or> sh_sem s > 0 \<or> (\<exists>p. awake (sh_pc s p))"
    using assms(3) by (simp_all add: wake_inv_def)
  have "sh_pc s' p \<noteq> Wt_sem" using assms(1) n by cases (auto split: if_splits)
  moreover obtain q where "sh_pc s' q = Wt_sem" using assms(4) by blast
  ultimately have q: "q \<noteq> p" "sh_pc s q = Wt_sem" using step_pc [OF assms(1), of q] by (auto split: if_splits)
  then have "semaphore c" using w(1) by (metis uses_sem.simps(4))
  show ?thesis
  proof (cases "awake (sh_pc s p)")
    case False
    have "sh_lock s = 0 \<and> sh_sem s = 0" using assms(1) n False \<open>semaphore c\<close>
      by cases (auto split: if_splits)
    then obtain r where r: "awake (sh_pc s r)" using w(3) q(2) by auto
    then have "r \<noteq> p" using False by auto
    then have "awake (sh_pc s' r)" using r step_pc [OF assms(1), of r] by simp
    then show ?thesis by blast
  next
    case True
    have "sh_pc s 0 = Idle" using assms(5) by (simp add: mutex_inv_def)
    then have "p \<noteq> 0" using True by (cases "p = 0") simp_all
    have "sh_pc s p = Wk_read \<and> sh_wait s = 0 \<and> sh_sem s = 0" using assms(1,2) n True \<open>p \<noteq> 0\<close> \<open>semaphore c\<close>
      by cases (auto split: if_splits)
    moreover from this have "0 < sh_count (\<lambda>k. k = Wk_post) s"
      using sh_count_pos [OF f, of registered q] q(2) w(2) by simp
    then obtain r where r: "sh_pc s r = Wk_post" by (auto simp: sh_count_def card_gt_0_iff)
    ultimately have "r \<noteq> p" by auto
    then have "awake (sh_pc s' r)" using r step_pc [OF assms(1), of r] by simp
    then show ?thesis by blast
  qed
qed

lemma wake_step:
  assumes "shmtx_step c p s s'" "wake_inv c s" "sh_pc s' p \<noteq> Dead" "mutex_inv s"
  shows "wake_inv c s'"
proof -
  have u: "\<not> uses_sem (sh_pc s q)" if "\<not> semaphore c" for q using assms(2) that by (simp add: wake_inv_def)
  have "\<not> uses_sem (sh_pc s' p)" if "\<not> semaphore c"
    using assms(1) that u [OF that, of p] lk_next_class(3) [of c] by cases auto
  then have "\<not> uses_sem (sh_pc s' q)" if "\<not> semaphore c" for q
    using that u [OF that, of q] step_pc [OF assms(1), of q] by (cases "q = p") simp_all
  then have "semaphore c \<or> (\<forall>q. \<not> uses_sem (sh_pc s' q))" by blast
  then show ?thesis
    using wake_finite [OF assms(1)] wake_count [OF assms(1) _ assms(3)] wake_asleep [OF assms(1,3,2) _ assms(4)] assms(2)
    by (simp add: wake_inv_def)
qed

lemma shmtx_wake: "shmtx_reach c s \<Longrightarrow> \<forall>p. sh_pc s p \<noteq> Dead \<Longrightarrow> wake_inv c s"
proof (induction rule: shmtx_reach.induct)
  case init
  then show ?case by (simp add: wake_inv_def sh_count_def)
next
  case (step s p s')
  have "\<forall>q. sh_pc s q \<noteq> Dead" using step.prems dead_stays [OF step.hyps(2)] by blast
  then show ?case using wake_step [OF step.hyps(2)] shmtx_mutex [OF step.hyps(1)] step.IH step.prems by blast
qed

text \<open>A process in a call can go on, unless it waits for the semaphore.\<close>

lemma shmtx_enabled:
  assumes "sh_pc s p \<noteq> Idle" "sh_pc s p \<noteq> Dead" "sh_pc s p = Wt_sem \<longrightarrow> 0 < sh_sem s"
  shows "\<exists>s'. shmtx_step c p s s' \<and> sh_pc s' p \<noteq> Dead"
proof (cases "sh_pc s p = Crit")
  case True
  then show ?thesis by (intro exI [of _ "sh_goto p Un_cas s"]) (simp add: start_unlock)
next
  case False
  then have "\<exists>s'. shmtx_next c p s = Some s' \<and> sh_pc s' p \<noteq> Dead"
    using assms by (cases "sh_pc s p") (simp_all add: shmtx_next_def sh_access_defs)
  then show ?thesis using next_step by blast
qed

subsection \<open>Properties\<close>

text \<open>
  C16: mutual exclusion.  Whatever the interleaving of the accesses of the processes to the shared
  memory, with processes that die and locks of dead processes that are forced, at most one process is
  between a successful \<open>ngx_shmtx_lock\<close> or \<open>ngx_shmtx_trylock\<close> and the release of the lock, and the lock
  holds its number.
\<close>

theorem shmtx_mutual_exclusion:
  assumes "shmtx_reach c s" "holding (sh_pc s p)"
  shows "sh_lock s = p \<and> (\<forall>q. holding (sh_pc s q) \<longrightarrow> q = p)"
  using shmtx_mutex [OF assms(1)] assms(2) mutex_holder by metis

text \<open>
  C17: no lost wakeup.  As long as no process has died, a process asleep in \<open>sem_wait\<close> is never left
  behind: some process in the middle of a call, this one or another, can take its next step.
\<close>

theorem shmtx_no_lost_wakeup:
  assumes "shmtx_reach c s" "\<forall>p. sh_pc s p \<noteq> Dead" "sh_pc s p = Wt_sem"
  shows "\<exists>q s'. sh_pc s q \<noteq> Idle \<and> shmtx_step c q s s' \<and> sh_pc s' q \<noteq> Dead"
proof -
  have w: "sh_lock s \<noteq> 0 \<or> sh_sem s > 0 \<or> (\<exists>q. awake (sh_pc s q))"
    using shmtx_wake [OF assms(1,2)] assms(3) by (auto simp: wake_inv_def)
  have m: "sh_lock s \<noteq> 0 \<longrightarrow> holding (sh_pc s (sh_lock s))" using shmtx_mutex [OF assms(1)] assms(2) by (auto simp: mutex_inv_def)
  have "\<exists>q. sh_pc s q \<noteq> Idle \<and> (sh_pc s q = Wt_sem \<longrightarrow> 0 < sh_sem s)"
    using w
  proof (elim disjE exE)
    assume "sh_lock s \<noteq> 0"
    then have "holding (sh_pc s (sh_lock s))" using m by blast
    then have "sh_pc s (sh_lock s) \<noteq> Idle" "sh_pc s (sh_lock s) \<noteq> Wt_sem" by auto
    then show ?thesis by blast
  next
    assume "0 < sh_sem s"
    then show ?thesis using assms(3) by (intro exI [of _ p]) simp
  next
    fix q assume "awake (sh_pc s q)"
    then have "sh_pc s q \<noteq> Idle" "sh_pc s q \<noteq> Wt_sem" by auto
    then show ?thesis by blast
  qed
  then obtain q where "sh_pc s q \<noteq> Idle" "sh_pc s q = Wt_sem \<longrightarrow> 0 < sh_sem s" by blast
  then show ?thesis using shmtx_enabled [of s q c] assms(2) by blast
qed

text \<open>
  One process holds the lock, another found it taken and sleeps: the state that the witnesses use.
\<close>

definition sleeper_events :: "(nat \<times> shmtx_event) list" where
  "sleeper_events = [(1, Lock), (1, Go), (1, Go), (2, Lock), (2, Go), (2, Go), (2, Go)]"

definition sem_conf :: shmtx_conf where
  "sem_conf = \<lparr>smp = False, spin = 0, semaphore = True\<rparr>"

definition sleeper_state :: shmtx_state where
  "sleeper_state = \<lparr>sh_lock = 1, sh_wait = 1, sh_sem = 0, sh_pc = (\<lambda>_. Idle)(1 := Crit, 2 := Wt_sem)\<rparr>"

lemma sleeper_run: "shmtx_run sem_conf sleeper_events shmtx_init = Some sleeper_state"
  by (simp add: sleeper_events_def sem_conf_def sleeper_state_def shmtx_init_def shmtx_next_def sh_access_defs lk_next_def sh_goto_def
      fun_upd_twist)

lemma sleeper_reach: "shmtx_reach sem_conf sleeper_state"
  by (rule run_reach [OF _ sleeper_run]) (simp add: shmtx_init_def shmtx_reach.init)

lemma shmtx_mutual_exclusion_witness:
  "shmtx_reach sem_conf sleeper_state \<and> holding (sh_pc sleeper_state 1) \<and> sh_lock sleeper_state = 1 \<and>
    \<not> holding (sh_pc sleeper_state 2)"
  using shmtx_mutual_exclusion [OF sleeper_reach, of 1] sleeper_reach by (auto simp: sleeper_state_def)

lemma shmtx_no_lost_wakeup_witness: "\<exists>q s'. sh_pc sleeper_state q \<noteq> Idle \<and> shmtx_step sem_conf q sleeper_state s' \<and> sh_pc s' q \<noteq> Dead"
  by (rule shmtx_no_lost_wakeup [OF sleeper_reach, of 2]) (simp_all add: sleeper_state_def)

text \<open>
  A process that takes the lock on the attempt behind the increment of \<open>wait\<close> leaves the increment there, and
  its own unlock posts for a waiter that does not exist.
\<close>

definition stale_events :: "(nat \<times> shmtx_event) list" where
  "stale_events =
     [(1, Lock), (1, Go), (1, Go), (2, Lock), (2, Go), (1, Unlock), (1, Go), (1, Go), (2, Go), (2, Go), (2, Go),
      (2, Unlock), (2, Go), (2, Go), (2, Go), (2, Go)]"

lemma stale_run:
  "shmtx_run sem_conf stale_events \<lparr>sh_lock = 0, sh_wait = 0, sh_sem = n, sh_pc = \<lambda>_. Idle\<rparr> =
     Some \<lparr>sh_lock = 0, sh_wait = 0, sh_sem = Suc n, sh_pc = \<lambda>_. Idle\<rparr>"
  by (simp add: stale_events_def sem_conf_def shmtx_next_def sh_access_defs lk_next_def sh_goto_def fun_eq_iff)

text \<open>
  Posts without a sleeper.  Two processes that only lock and unlock can bring the mutex to a state in
  which every call has returned, the lock is free, no waiter is counted, and the semaphore has any number
  of posts left over; each of them wakes a later sleeper for nothing.
\<close>

theorem shmtx_stale_posts:
  "\<exists>s. shmtx_reach sem_conf s \<and> (\<forall>p. sh_pc s p = Idle) \<and> sh_lock s = 0 \<and> sh_wait s = 0 \<and> sh_sem s = n"
proof -
  have "shmtx_reach sem_conf \<lparr>sh_lock = 0, sh_wait = 0, sh_sem = n, sh_pc = \<lambda>_. Idle\<rparr>"
  proof (induction n)
    case 0
    show ?case by (rule shmtx_reach.init)
  next
    case (Suc n)
    show ?case by (rule run_reach [OF Suc stale_run])
  qed
  then show ?thesis by (intro exI [of _ "\<lparr>sh_lock = 0, sh_wait = 0, sh_sem = n, sh_pc = \<lambda>_. Idle\<rparr>"]) simp
qed

end
