(* ===== verification/Ngx_Sort.thy ===== *)
theory Ngx_Sort
  imports Ngx_Prelude "HOL-Library.Multiset"
begin

text \<open>
  \<open>ngx_sort\<close> of \<open>core/ngx_string.c\<close>, an insertion sort over an array with a comparison function; an array is
  the list of its elements.
\<close>

subsection \<open>The code\<close>

text \<open>
  The inner loop: \<open>p2\<close> walks down from element \<open>j\<close> while the element below it compares greater than the
  saved element \<open>p\<close>, and \<open>p\<close> is stored where it stops.
\<close>

fun sort_shift :: "('a \<Rightarrow> 'a \<Rightarrow> int) \<Rightarrow> 'a \<Rightarrow> nat \<Rightarrow> 'a list \<Rightarrow> 'a list" where
  "sort_shift cmp p 0 xs = xs[0 := p]"
| "sort_shift cmp p (Suc j) xs =
     (if 0 < cmp (xs ! j) p then sort_shift cmp p j (xs[Suc j := xs ! j]) else xs[Suc j := p])"

lemma length_sort_shift [simp]: "length (sort_shift cmp p j xs) = length xs"
  by (induction cmp p j xs rule: sort_shift.induct) auto

text \<open>The outer loop: \<open>p1\<close> runs over the elements \<open>i\<close>, \<open>i + 1\<close> and so on.\<close>

function sort_loop :: "('a \<Rightarrow> 'a \<Rightarrow> int) \<Rightarrow> nat \<Rightarrow> 'a list \<Rightarrow> 'a list" where
  "sort_loop cmp i xs = (if i < length xs then sort_loop cmp (Suc i) (sort_shift cmp (xs ! i) i xs) else xs)"
  by pat_completeness auto
termination by (relation "measure (\<lambda>(cmp, i, xs). length xs - i)") auto

declare sort_loop.simps [simp del]

text \<open>\<open>alloc\<close> is the outcome of the allocation of the buffer for one element.\<close>

definition ngx_sort :: "bool \<Rightarrow> ('a \<Rightarrow> 'a \<Rightarrow> int) \<Rightarrow> 'a list \<Rightarrow> 'a list" where
  "ngx_sort alloc cmp xs = (if alloc then sort_loop cmp 1 xs else xs)"

subsection \<open>Insertion into a sorted prefix\<close>

text \<open>A comparison that orders by a key.\<close>

definition cmp_by :: "('a \<Rightarrow> 'a \<Rightarrow> int) \<Rightarrow> ('a \<Rightarrow> 'b::linorder) \<Rightarrow> bool" where
  "cmp_by cmp k \<longleftrightarrow> (\<forall>a b. 0 < cmp a b \<longleftrightarrow> k b < k a)"

lemma sort_shift_split:
  assumes "length ys = j" "\<forall>b\<in>set vs. 0 < cmp b p" "us \<noteq> [] \<longrightarrow> \<not> 0 < cmp (last us) p"
    and "ys = us @ vs"
  shows "sort_shift cmp p j (ys @ x # zs) = us @ p # vs @ zs"
  using assms
proof (induction vs arbitrary: ys j x zs rule: rev_induct)
  case Nil
  then show ?case by (cases j; cases us rule: rev_cases) (auto simp: nth_append list_update_append)
next
  case (snoc b vs)
  let ?ys = "us @ vs"
  have j: "j = Suc (length ?ys)" "ys = ?ys @ [b]" using snoc.prems by auto
  have "sort_shift cmp p j (ys @ x # zs) = sort_shift cmp p (length ?ys) (?ys @ b # b # zs)"
    using snoc.prems(2) by (simp add: j nth_append list_update_append)
  also have "\<dots> = us @ p # vs @ b # zs"
    by (rule snoc.IH [OF refl]) (use snoc.prems in auto)
  finally show ?case by simp
qed

lemma sorted_split:
  assumes "sorted (map k ys)" 
  obtains us vs where "ys = us @ vs" "\<forall>a\<in>set us. k a \<le> v" "\<forall>b\<in>set vs. v < k b"
proof -
  let ?us = "takeWhile (\<lambda>a. k a \<le> v) ys" and ?vs = "dropWhile (\<lambda>a. k a \<le> v) ys"
  have "v < k b" if b: "b \<in> set ?vs" for b
  proof -
    obtain c cs where c: "?vs = c # cs" using b by (cases ?vs) auto
    then have "\<not> k c \<le> v" using hd_dropWhile [of "\<lambda>a. k a \<le> v" ys] by simp
    moreover have "sorted (map k ?vs)" using assms by (metis map_append sorted_append takeWhile_dropWhile_id)
    then have "k c \<le> k b" using b c by auto
    ultimately show ?thesis by simp
  qed
  then show thesis using that [of ?us ?vs] by (auto dest: set_takeWhileD)
qed

lemma sort_key_snoc:
  assumes "sort_key k zs = us @ vs" "\<forall>a\<in>set us. k a \<le> k p" "\<forall>b\<in>set vs. k p < k b"
  shows "sort_key k (zs @ [p]) = us @ p # vs"
proof (rule properties_for_sort_key)
  have "mset (us @ vs) = mset zs" by (metis assms(1) mset_sort)
  then show "mset (us @ p # vs) = mset (zs @ [p])" by simp
  have "sorted (map k (us @ vs))" by (metis assms(1) sorted_sort_key)
  then show "sorted (map k (us @ p # vs))" using assms(2,3) by (auto simp: sorted_append less_imp_le)
  show "filter (\<lambda>x. k v = k x) (us @ p # vs) = filter (\<lambda>x. k v = k x) (zs @ [p])" for v
  proof -
    have f: "filter (\<lambda>x. k v = k x) zs = filter (\<lambda>x. k v = k x) (us @ vs)"
      using sort_key_stable [of k "k v" zs] unfolding assms(1) by (simp only: eq_commute [of "k v"])
    have "filter (\<lambda>x. k v = k x) vs = []" if "k v = k p" using assms(3) that by (auto simp: filter_empty_conv)
    then show ?thesis using f by (cases "k v = k p") simp_all
  qed
qed

lemma sort_loop_sort_key:
  assumes "cmp_by cmp k"
  shows "sort_loop cmp (length zs) (sort_key k zs @ rest) = sort_key k (zs @ rest)"
proof (induction rest arbitrary: zs)
  case Nil
  then show ?case by (simp add: sort_loop.simps)
next
  case (Cons p rest)
  obtain us vs where s: "sort_key k zs = us @ vs" "\<forall>a\<in>set us. k a \<le> k p" "\<forall>b\<in>set vs. k p < k b"
    using sorted_split [of k "sort_key k zs" "k p"] by (auto simp: sorted_sort_key)
  have l: "length (us @ vs) = length zs" by (metis length_sort s(1))
  have "sort_shift cmp p (length zs) ((us @ vs) @ p # rest) = us @ p # vs @ rest"
    by (rule sort_shift_split [OF l])
      (use s assms in \<open>auto simp: cmp_by_def not_less\<close>)
  moreover have "sort_key k zs @ p # rest = (us @ vs) @ p # rest" by (simp add: s(1))
  moreover have "((us @ vs) @ p # rest) ! length zs = p" by (metis l nth_append_length)
  ultimately have "sort_loop cmp (length zs) (sort_key k zs @ p # rest) =
      sort_loop cmp (length (zs @ [p])) (sort_key k (zs @ [p]) @ rest)"
    using l by (simp add: sort_loop.simps [of cmp "length zs"] sort_key_snoc [OF s])
  then show ?case using Cons.IH [of "zs @ [p]"] by simp
qed

lemma ngx_sort_key:
  assumes "cmp_by cmp k"
  shows "ngx_sort True cmp xs = sort_key k xs"
proof (cases xs)
  case Nil
  then show ?thesis by (simp add: ngx_sort_def sort_loop.simps)
next
  case (Cons x rest)
  then show ?thesis using sort_loop_sort_key [OF assms, of "[x]" rest] by (simp add: ngx_sort_def)
qed

lemma mset_ngx_sort: "cmp_by cmp k \<Longrightarrow> mset (ngx_sort alloc cmp xs) = mset xs"
  by (cases alloc) (simp_all add: ngx_sort_key, simp add: ngx_sort_def)

text \<open>
  \<open>ngx_sort\<close> is a stable sort.  With a comparison that tells whether the key of its first argument is the
  greater one, as those of the callers do, the result is the library's stable sort by that key.
\<close>

theorem ngx_sort_stable:
  assumes "\<And>a b. 0 < cmp a b \<longleftrightarrow> k b < (k a :: 'b::linorder)"
  shows "ngx_sort True cmp xs = sort_key k xs"
  by (rule ngx_sort_key) (simp add: cmp_by_def assms)

lemma ngx_sort_stable_witness:
  "ngx_sort True (\<lambda>a b. fst a - fst b) [(3, 0), (1, 1), (3, 2), (2, 3 :: nat)] = sort_key fst [(3 :: int, 0), (1, 1), (3, 2), (2, 3)]"
  by (rule ngx_sort_stable) simp

end
