(* ===== verification/Ngx_Http_Upstream_Round_Robin.thy ===== *)
theory Ngx_Http_Upstream_Round_Robin
  imports Ngx_Sort "HOL-Library.Signed_Division"
begin

text \<open>
  Load balancing between the servers of an upstream, \<open>http/ngx_http_upstream_round_robin.c\<close>: the groups that the
  configuration makes, the choice by weight, the choice for a request with its bitmap of tried servers and
  the fall back to the next group, and the end of a try.

  The groups are the state that all requests of a worker share; the data of a request and its
  connection are its own.  Memory outside the bitmap is an access that has no result.  Allocations
  of pools succeed; sessions of TLS, locks of threads and logs are left out.  Weights and times are integers; only the
  product with 1000 and the subtraction that follow a configured weight are taken at their width.
\<close>

subsection \<open>Data\<close>

text \<open>
  A server of an upstream, a group of servers, and the data of one request.  Addresses are numbers.
\<close>

record rr_peer =
  peer_sockaddr :: nat
  peer_socklen :: nat
  peer_name :: bytes
  current_weight :: int
  weight :: int
  fails :: nat
  accessed :: int
  checked :: int
  max_fails :: nat
  fail_timeout :: int
  down :: bool

record rr_peers =
  single :: bool
  last_cached :: nat
  cached :: "nat list"
  peers_name :: bytes
  peer :: "rr_peer list"

text \<open>
  The groups are linked by \<open>next\<close>: a chain is the list of the groups from the first on, and \<open>rrp_peers\<close> is the
  place of the request's group in it.  \<open>tried\<close> is the bitmap with the words that are allocated for it.
\<close>

record rr_peer_data =
  rrp_peers :: nat
  current :: nat
  tried :: "uint64_t list"

record peer_connection =
  pc_connection :: nat
  pc_cached :: bool
  pc_sockaddr :: nat
  pc_socklen :: nat
  pc_name :: bytes
  tries :: nat

abbreviation NGX_PEER_FAILED :: uint64_t where "NGX_PEER_FAILED \<equiv> 4"

text \<open>A product at the width of \<open>ngx_int_t\<close>, and the decrement of an \<open>ngx_uint_t\<close>.\<close>

definition s64 :: "int \<Rightarrow> int" where
  "s64 x = signed_take_bit 63 x"

definition uint_dec :: "nat \<Rightarrow> nat" where
  "uint_dec n = (if n = 0 then 2 ^ 64 - 1 else n - 1)"

subsection \<open>Configuration\<close>

record upstream_server =
  us_addrs :: "(nat \<times> nat \<times> bytes) list"
  us_weight :: int
  us_max_fails :: nat
  us_fail_timeout :: int
  us_down :: bool
  us_backup :: bool

definition rr_peer_of :: "int \<Rightarrow> nat \<Rightarrow> int \<Rightarrow> bool \<Rightarrow> nat \<times> nat \<times> bytes \<Rightarrow> rr_peer" where
  "rr_peer_of w mf ft d a =
     \<lparr>peer_sockaddr = fst a, peer_socklen = fst (snd a), peer_name = snd (snd a), current_weight = w, weight = w,
      fails = 0, accessed = 0, checked = 0, max_fails = mf, fail_timeout = ft, down = d\<rparr>"

definition rr_primary :: "upstream_server list \<Rightarrow> rr_peer list" where
  "rr_primary servers = concat (map (\<lambda>s. if us_backup s then [] else
     map (rr_peer_of (if us_down s then 0 else us_weight s) (us_max_fails s) (us_fail_timeout s) (us_down s)) (us_addrs s)) servers)"

definition rr_backup :: "upstream_server list \<Rightarrow> rr_peer list" where
  "rr_backup servers = concat (map (\<lambda>s. if \<not> us_backup s then [] else
     map (rr_peer_of (us_weight s) (us_max_fails s) (us_fail_timeout s) (us_down s)) (us_addrs s)) servers)"

definition ngx_http_upstream_cmp_servers :: "rr_peer \<Rightarrow> rr_peer \<Rightarrow> int" where
  "ngx_http_upstream_cmp_servers first second = (if weight first < weight second then 1 else 0)"

definition rr_group :: "bool \<Rightarrow> bytes \<Rightarrow> rr_peer list \<Rightarrow> rr_peers" where
  "rr_group sgl host ps = \<lparr>single = sgl, last_cached = 0, cached = [], peers_name = host, peer = ps\<rparr>"

text \<open>
  \<open>us->servers\<close> is present; the value is \<open>us->peer.data\<close> with what it points to, and \<^const>\<open>None\<close> is \<open>NGX_ERROR\<close>.
  \<open>sort_alloc\<close> tells whether the two calls of \<open>ngx_sort\<close> get their buffer.
\<close>

definition ngx_http_upstream_init_round_robin ::
  "bool \<Rightarrow> bytes \<Rightarrow> upstream_server list \<Rightarrow> rr_peers list option" where
  "ngx_http_upstream_init_round_robin sort_alloc host servers =
     (let ps = rr_primary servers; back = rr_backup servers; sort_by = ngx_sort sort_alloc ngx_http_upstream_cmp_servers in
      if ps = [] then None
      else if back = [] then Some [rr_group (length ps = 1) host (sort_by ps)]
      else Some [rr_group False host (sort_by ps), rr_group False host (sort_by back)])"

text \<open>The upstream that \<open>proxy_pass\<close> defines by a name: \<open>addrs\<close> is what the name resolves to.\<close>

definition rr_implicit :: "bytes \<Rightarrow> (nat \<times> nat \<times> bytes) list \<Rightarrow> rr_peers list" where
  "rr_implicit host addrs = [rr_group (length addrs = 1) host (map (rr_peer_of 1 1 10 False) addrs)]"

text \<open>The data of a request; \<open>tried\<close> is the word \<open>data\<close> or an allocated array.\<close>

definition ngx_http_upstream_init_round_robin_peer :: "rr_peers list \<Rightarrow> peer_connection \<Rightarrow> rr_peer_data \<times> peer_connection" where
  "ngx_http_upstream_init_round_robin_peer chain pc =
     (let n = length (peer (chain ! 0));
          n' = (if 1 < length chain \<and> n < length (peer (chain ! 1)) then length (peer (chain ! 1)) else n)
      in (\<lparr>rrp_peers = 0, current = 0, tried = (if n' \<le> 64 then [0] else replicate ((n' + 63) div 64) 0)\<rparr>, pc\<lparr>tries := n\<rparr>))"

subsection \<open>The choice by weight\<close>

text \<open>The loop \<open>while (i < peers->number - 1)\<close> with what follows it.\<close>

function rr_while :: "rr_peer list \<Rightarrow> nat \<Rightarrow> nat \<Rightarrow> nat" where
  "rr_while ps n i =
     (if Suc i < length ps then
        let i = Suc i in
        if current_weight (ps ! i) \<le> 0 then rr_while ps n i
        else if s64 (current_weight (ps ! n) * 1000) sdiv current_weight (ps ! i) > s64 (weight (ps ! n) * 1000) sdiv weight (ps ! i)
        then n else rr_while ps i i
      else if current_weight (ps ! i) > 0 then i else n)"
  by pat_completeness auto
termination by (relation "measure (\<lambda>(ps, n, i). length ps - i)") auto

function rr_for :: "rr_peer list \<Rightarrow> nat \<Rightarrow> nat option" where
  "rr_for ps i =
     (if i < length ps then if current_weight (ps ! i) \<le> 0 then rr_for ps (Suc i) else Some (rr_while ps i i) else None)"
  by pat_completeness auto
termination by (relation "measure (\<lambda>(ps, i). length ps - i)") auto

declare rr_while.simps [simp del] rr_for.simps [simp del]

definition rr_reset :: "rr_peer list \<Rightarrow> rr_peer list" where
  "rr_reset ps = map (\<lambda>p. p\<lparr>current_weight := weight p\<rparr>) ps"

definition ngx_http_upstream_get_peer :: "rr_peer list \<Rightarrow> nat \<times> rr_peer list" where
  "ngx_http_upstream_get_peer ps =
     (case rr_for ps 0 of
        Some n \<Rightarrow> (n, ps)
      | None \<Rightarrow> (case rr_for (rr_reset ps) 0 of Some n \<Rightarrow> (n, rr_reset ps) | None \<Rightarrow> (0, rr_reset ps)))"

subsection \<open>The choice for a request\<close>

record rr_try =
  t_peers :: "rr_peer list"
  t_tried :: "uint64_t list"
  t_tries :: nat
  t_current :: nat

text \<open>
  The body of both loops: is the current peer untried, up, and not failed too often?  \<^const>\<open>None\<close> is a read
  outside the bitmap.
\<close>

definition rr_probe :: "int \<Rightarrow> rr_try \<Rightarrow> (bool \<times> rr_try) option" where
  "rr_probe now t =
     (let i = t_current t; n = i div 64; m = push_bit (i mod 64) 1; p = t_peers t ! i in
      if length (t_tried t) \<le> n then None
      else if t_tried t ! n AND m \<noteq> 0 then Some (False, t)
      else if \<not> down p then
        if max_fails p = 0 \<or> fails p < max_fails p then Some (True, t)
        else if now - checked p > fail_timeout p then Some (True, t\<lparr>t_peers := (t_peers t)[i := p\<lparr>checked := now\<rparr>]\<rparr>)
        else Some (False, t\<lparr>t_peers := (t_peers t)[i := p\<lparr>current_weight := 0\<rparr>], t_tries := uint_dec (t_tries t)\<rparr>)
      else Some (False, t\<lparr>t_tried := (t_tried t)[n := t_tried t ! n OR m], t_tries := uint_dec (t_tries t)\<rparr>))"

text \<open>The two loops; the first argument behind the time is the number of rounds left, \<open>i\<close>.\<close>

fun rr_first_try :: "int \<Rightarrow> nat \<Rightarrow> rr_try \<Rightarrow> (bool \<times> rr_try) option" where
  "rr_first_try now 0 t = Some (False, t)"
| "rr_first_try now (Suc i) t =
     (case rr_probe now (t\<lparr>t_current := fst (ngx_http_upstream_get_peer (t_peers t)),
                           t_peers := snd (ngx_http_upstream_get_peer (t_peers t))\<rparr>) of
        None \<Rightarrow> None
      | Some (True, t) \<Rightarrow> Some (True, t)
      | Some (False, t) \<Rightarrow> if t_tries t = 0 then Some (False, t) else rr_first_try now i t)"

fun rr_next_try :: "int \<Rightarrow> nat \<Rightarrow> rr_try \<Rightarrow> (bool \<times> rr_try) option" where
  "rr_next_try now 0 t = Some (False, t)"
| "rr_next_try now (Suc i) t =
     (case rr_probe now t of
        None \<Rightarrow> None
      | Some (True, t) \<Rightarrow> Some (True, t)
      | Some (False, t) \<Rightarrow>
          let t = t\<lparr>t_current := (if Suc (t_current t) \<ge> length (t_peers t) then 0 else Suc (t_current t))\<rparr> in
          if t_tries t = 0 then Some (False, t) else rr_next_try now i t)"

declare rr_first_try.simps(2) [simp del] rr_next_try.simps(2) [simp del]

text \<open>Clearing the bitmap for a group of \<open>number\<close> peers; \<^const>\<open>None\<close> is a write outside it.\<close>

definition rr_clear :: "uint64_t list \<Rightarrow> nat \<Rightarrow> uint64_t list option" where
  "rr_clear tr number =
     (let n = number div 64 + 1 in if n \<le> length tr then Some (replicate n 0 @ drop n tr) else None)"

text \<open>The end of a successful call.\<close>

definition rr_connect :: "rr_peers list \<Rightarrow> rr_peer_data \<Rightarrow> peer_connection \<Rightarrow> rr_peer \<Rightarrow> (rr_peer_data \<times> peer_connection) option" where
  "rr_connect chain rrp pc p =
     (let pc = pc\<lparr>pc_sockaddr := peer_sockaddr p, pc_socklen := peer_socklen p, pc_name := peer_name p\<rparr>; g = Suc (rrp_peers rrp) in
      if tries pc = 1 \<and> g < length chain then
        map_option (\<lambda>tr. (rrp\<lparr>tried := tr\<rparr>, pc\<lparr>tries := tries pc + length (peer (chain ! g))\<rparr>))
          (rr_clear (tried rrp) (length (peer (chain ! g))))
      else Some (rrp, pc))"

text \<open>The choice of the loop: \<open>i = pc->tries\<close>, and the test \<open>--i == 0\<close> counts down from \<open>2^64\<close> when \<open>i\<close> is zero.\<close>

definition rr_loops :: "int \<Rightarrow> rr_peers \<Rightarrow> rr_peer_data \<Rightarrow> peer_connection \<Rightarrow> (bool \<times> rr_try) option" where
  "rr_loops now g rrp pc =
     (let t = \<lparr>t_peers = peer g, t_tried = tried rrp, t_tries = tries pc, t_current = current rrp\<rparr>;
          i = (if tries pc = 0 then 2 ^ 64 else tries pc)
      in if tries pc = length (peer g) then rr_first_try now i t else rr_next_try now i t)"

text \<open>One group of the chain, up to the label \<open>failed\<close>, which is the value \<^const>\<open>False\<close>.\<close>

definition rr_group_get ::
  "int \<Rightarrow> rr_peers list \<Rightarrow> rr_peer_data \<Rightarrow> peer_connection \<Rightarrow> (bool \<times> rr_peers list \<times> rr_peer_data \<times> peer_connection) option" where
  "rr_group_get now chain rrp pc =
     (let g = rrp_peers rrp; peers = chain ! g in
      if 0 < last_cached peers then
        if last_cached peers < length (cached peers) then
          Some (True, chain[g := peers\<lparr>last_cached := last_cached peers - 1\<rparr>], rrp,
                pc\<lparr>pc_connection := cached peers ! last_cached peers, pc_cached := True\<rparr>)
        else None
      else
        let pc = pc\<lparr>pc_cached := False, pc_connection := 0\<rparr> in
        if single peers then map_option (\<lambda>(rrp, pc). (True, chain, rrp, pc)) (rr_connect chain rrp pc (peer peers ! 0))
        else
          case rr_loops now peers rrp pc of
            None \<Rightarrow> None
          | Some (True, t) \<Rightarrow>
              let c = t_current t; n = c div 64; m = push_bit (c mod 64) 1;
                  p = (t_peers t ! c)\<lparr>current_weight := current_weight (t_peers t ! c) - 1\<rparr>;
                  chain = chain[g := peers\<lparr>peer := (t_peers t)[c := p]\<rparr>]
              in map_option (\<lambda>(rrp, pc). (True, chain, rrp, pc))
                (rr_connect chain (rrp\<lparr>current := c, tried := (t_tried t)[n := t_tried t ! n OR m]\<rparr>) (pc\<lparr>tries := t_tries t\<rparr>) p)
          | Some (False, t) \<Rightarrow>
              Some (False, chain[g := peers\<lparr>peer := t_peers t\<rparr>], rrp\<lparr>current := t_current t, tried := t_tried t\<rparr>,
                    pc\<lparr>tries := t_tries t\<rparr>))"

definition rr_live :: "nat \<Rightarrow> rr_peers list \<Rightarrow> rr_peers list" where
  "rr_live g chain = chain[g := (chain ! g)\<lparr>peer := map (\<lambda>p. p\<lparr>fails := 0\<rparr>) (peer (chain ! g))\<rparr>]"

lemma rr_connect_peers: "rr_connect chain rrp pc p = Some (rrp', pc') \<Longrightarrow> rrp_peers rrp' = rrp_peers rrp"
  by (auto simp: rr_connect_def Let_def split: if_splits)

lemma rr_group_get_chain:
  "rr_group_get now chain rrp pc = Some (ok, chain', rrp', pc') \<Longrightarrow> length chain' = length chain \<and> rrp_peers rrp' = rrp_peers rrp"
  by (auto simp: rr_group_get_def Let_def dest!: rr_connect_peers split: if_splits option.splits bool.splits prod.splits)

function ngx_http_upstream_get_round_robin_peer ::
  "int \<Rightarrow> rr_peers list \<Rightarrow> rr_peer_data \<Rightarrow> peer_connection \<Rightarrow> (int \<times> rr_peers list \<times> rr_peer_data \<times> peer_connection) option" where
  "ngx_http_upstream_get_round_robin_peer now chain rrp pc =
     (case rr_group_get now chain rrp pc of
        None \<Rightarrow> None
      | Some (True, chain', rrp', pc') \<Rightarrow> Some (NGX_OK, chain', rrp', pc')
      | Some (False, chain', rrp', pc') \<Rightarrow>
          let g = rrp_peers rrp'; busy = (\<lambda>(c, d, k). Some (NGX_BUSY, rr_live g c, d, k\<lparr>pc_name := peers_name (c ! g)\<rparr>)) in
          if Suc g < length chain' then
            case rr_clear (tried rrp') (length (peer (chain' ! Suc g))) of
              None \<Rightarrow> None
            | Some tr \<Rightarrow>
                (case ngx_http_upstream_get_round_robin_peer now chain' (rrp'\<lparr>rrp_peers := Suc g, tried := tr\<rparr>)
                    (pc'\<lparr>tries := length (peer (chain' ! Suc g))\<rparr>) of
                   None \<Rightarrow> None
                 | Some (rc, c, d, k) \<Rightarrow> if rc \<noteq> NGX_BUSY then Some (rc, c, d, k) else busy (c, d, k))
          else busy (chain', rrp', pc'))"
  by pat_completeness auto
termination
  by (relation "measure (\<lambda>(now, chain, rrp, pc). length chain - rrp_peers rrp)") (auto dest: rr_group_get_chain)

declare ngx_http_upstream_get_round_robin_peer.simps [simp del]

subsection \<open>The end of a try\<close>

definition ngx_http_upstream_free_round_robin_peer ::
  "int \<Rightarrow> uint64_t \<Rightarrow> rr_peers list \<Rightarrow> rr_peer_data \<Rightarrow> peer_connection \<Rightarrow> rr_peers list \<times> rr_peer_data \<times> peer_connection" where
  "ngx_http_upstream_free_round_robin_peer now state chain rrp pc =
     (let g = rrp_peers rrp; peers = chain ! g in
      if state = 0 \<and> tries pc = 0 then (chain, rrp, pc)
      else if single peers then (chain, rrp, pc\<lparr>tries := 0\<rparr>)
      else
        let p = peer peers ! current rrp;
            p = (if state AND NGX_PEER_FAILED \<noteq> 0 then
                   let p = p\<lparr>fails := (fails p + 1) mod 2 ^ 64, accessed := now, checked := now\<rparr>;
                       p = (if max_fails p \<noteq> 0
                            then p\<lparr>current_weight := s64 (current_weight p - (weight p mod 2 ^ 64) div int (max_fails p))\<rparr> else p)
                   in if current_weight p < 0 then p\<lparr>current_weight := 0\<rparr> else p
                 else if accessed p < checked p then p\<lparr>fails := 0\<rparr> else p);
            c = (if Suc (current rrp) \<ge> length (peer peers) then 0 else Suc (current rrp))
        in (chain[g := peers\<lparr>peer := (peer peers)[current rrp := p]\<rparr>], rrp\<lparr>current := c\<rparr>,
            pc\<lparr>tries := (if tries pc \<noteq> 0 then tries pc - 1 else 0)\<rparr>))"

subsection \<open>The choice by weight\<close>

lemma rr_while_pos:
  assumes "n \<le> i" "i < length ps" "0 < current_weight (ps ! n)"
  shows "rr_while ps n i < length ps \<and> 0 < current_weight (ps ! rr_while ps n i)"
  using assms
proof (induction ps n i rule: rr_while.induct)
  case (1 ps n i)
  have "rr_while ps n (Suc i) < length ps \<and> 0 < current_weight (ps ! rr_while ps n (Suc i))"
    if "Suc i < length ps" "current_weight (ps ! Suc i) \<le> 0"
    using 1(1) [OF that(1) refl that(2)] 1(3-5) that by simp
  moreover have "rr_while ps (Suc i) (Suc i) < length ps \<and> 0 < current_weight (ps ! rr_while ps (Suc i) (Suc i))"
    if "Suc i < length ps" "\<not> current_weight (ps ! Suc i) \<le> 0"
      "\<not> s64 (current_weight (ps ! n) * 1000) sdiv current_weight (ps ! Suc i) > s64 (weight (ps ! n) * 1000) sdiv weight (ps ! Suc i)"
    using 1(2) [OF that(1) refl that(2,3)] that by simp
  ultimately show ?case using 1(3-5) by (simp add: rr_while.simps [of ps n i] Let_def)
qed

lemma rr_for_Some: "rr_for ps i = Some n \<Longrightarrow> n < length ps \<and> 0 < current_weight (ps ! n)"
proof (induction ps i rule: rr_for.induct)
  case (1 ps i)
  then show ?case using rr_while_pos [of i i ps]
    by (auto simp: rr_for.simps [of ps i] not_le split: if_splits)
qed

lemma rr_for_None: "rr_for ps i = None \<Longrightarrow> i \<le> j \<Longrightarrow> j < length ps \<Longrightarrow> current_weight (ps ! j) \<le> 0"
proof (induction ps i rule: rr_for.induct)
  case (1 ps i)
  have i: "i < length ps" "current_weight (ps ! i) \<le> 0" "rr_for ps (Suc i) = None"
    using 1(2-4) by (auto simp: rr_for.simps [of ps i] split: if_splits)
  then show ?case using 1(1) [OF i] 1(3,4) by (cases "i = j") auto
qed

lemma rr_reset_simps [simp]:
  "length (rr_reset ps) = length ps" "i < length ps \<Longrightarrow> rr_reset ps ! i = (ps ! i)\<lparr>current_weight := weight (ps ! i)\<rparr>"
  by (simp_all add: rr_reset_def)

text \<open>The weights that the choice works on: those left, or all of them when none is left.\<close>

definition rr_left :: "rr_peer list \<Rightarrow> rr_peer list" where
  "rr_left ps = (if \<forall>p\<in>set ps. current_weight p \<le> 0 then rr_reset ps else ps)"

lemma rr_left_length [simp]: "length (rr_left ps) = length ps"
  by (simp add: rr_left_def)

lemma rr_left_nth:
  "i < length ps \<Longrightarrow> \<exists>c. rr_left ps ! i = (ps ! i)\<lparr>current_weight := c\<rparr> \<and> (c = weight (ps ! i) \<or> c = current_weight (ps ! i))"
  by (auto simp: rr_left_def intro: exI [of _ "current_weight (ps ! i)"])

lemma get_peer_left: "snd (ngx_http_upstream_get_peer ps) = rr_left ps"
proof (cases "rr_for ps 0")
  case None
  then have "\<forall>p\<in>set ps. current_weight p \<le> 0" using rr_for_None [of ps 0] by (auto simp: in_set_conv_nth)
  then show ?thesis using None by (auto simp: ngx_http_upstream_get_peer_def rr_left_def split: option.split)
next
  case (Some n)
  then have "\<not> (\<forall>p\<in>set ps. current_weight p \<le> 0)" using rr_for_Some [OF Some] by (auto simp: not_le)
  then have "rr_left ps = ps" unfolding rr_left_def by (rule if_not_P)
  then show ?thesis using Some by (simp add: ngx_http_upstream_get_peer_def)
qed

lemma get_peer_less: "ps \<noteq> [] \<Longrightarrow> fst (ngx_http_upstream_get_peer ps) < length ps"
  using rr_for_Some [of ps 0] rr_for_Some [of "rr_reset ps" 0]
  by (auto simp: ngx_http_upstream_get_peer_def split: option.split)

lemma get_peer_pos:
  assumes "\<exists>p\<in>set ps. 0 < weight p \<or> 0 < current_weight p"
  shows "0 < current_weight (rr_left ps ! fst (ngx_http_upstream_get_peer ps))"
proof (cases "rr_for ps 0")
  case (Some n)
  then show ?thesis using get_peer_left [of ps] rr_for_Some [OF Some] by (simp add: ngx_http_upstream_get_peer_def)
next
  case None
  then have z: "\<forall>p\<in>set ps. current_weight p \<le> 0" using rr_for_None [of ps 0] by (auto simp: in_set_conv_nth)
  then obtain p where "p \<in> set ps" "0 < weight p" using assms by auto
  then obtain j where j: "j < length ps" "0 < weight (ps ! j)" by (auto simp: in_set_conv_nth)
  have "rr_for (rr_reset ps) 0 \<noteq> None" using rr_for_None [of "rr_reset ps" 0 j] j by auto
  then obtain n where n: "rr_for (rr_reset ps) 0 = Some n" by auto
  then show ?thesis using get_peer_left [of ps] None rr_for_Some [OF n] by (simp add: ngx_http_upstream_get_peer_def)
qed

lemma not_less_get_peer_up:
  assumes "ps \<noteq> []" "\<exists>p\<in>set ps. 0 < weight p \<or> 0 < current_weight p"
    and "\<forall>p\<in>set ps. down p \<longrightarrow> weight p \<le> 0 \<and> current_weight p \<le> 0"
  shows "\<not> down (ps ! fst (ngx_http_upstream_get_peer ps))"
proof -
  let ?n = "fst (ngx_http_upstream_get_peer ps)"
  have "?n < length ps" by (rule get_peer_less [OF assms(1)])
  then show ?thesis using rr_left_nth [of ?n ps] get_peer_pos [OF assms(2)] assms(3)
    by (metis linorder_not_less nth_mem rr_peer.select_convs(4) rr_peer.surjective rr_peer.update_convs(4))
qed

subsection \<open>The bitmap\<close>

definition tried_bit :: "uint64_t list \<Rightarrow> nat \<Rightarrow> bool" where
  "tried_bit tr i \<longleftrightarrow> bit (tr ! (i div 64)) (i mod 64)"

lemma tried_bit_set:
  assumes "i div 64 < length tr"
  shows "tried_bit (tr[i div 64 := tr ! (i div 64) OR push_bit (i mod 64) 1]) k \<longleftrightarrow> tried_bit tr k \<or> k = i"
proof -
  have "k div 64 = i div 64 \<and> k mod 64 = i mod 64 \<longleftrightarrow> k = i" by (metis div_mult_mod_eq)
  then show ?thesis using assms
    by (cases "k div 64 = i div 64") (auto simp: tried_bit_def bit_or_iff bit_exp_iff)
qed

lemma tried_bit_init: "i div 64 < n \<Longrightarrow> \<not> tried_bit (replicate n 0) i"
  by (simp add: tried_bit_def)

subsection \<open>A request that meets no failure\<close>

text \<open>A request as its upstream module makes it: the data, the choice, and the end of a successful try.\<close>

definition rr_request :: "peer_connection \<Rightarrow> int \<Rightarrow> rr_peers list \<Rightarrow> (nat \<times> rr_peers list) option" where
  "rr_request pc now chain =
     (let (rrp, pc) = ngx_http_upstream_init_round_robin_peer chain pc in
      case ngx_http_upstream_get_round_robin_peer now chain rrp pc of
        None \<Rightarrow> None
      | Some (rc, chain, rrp, pc) \<Rightarrow>
          if rc = NGX_OK then Some (current rrp, fst (ngx_http_upstream_free_round_robin_peer now 0 chain rrp pc)) else None)"

fun rr_requests :: "peer_connection \<Rightarrow> int list \<Rightarrow> rr_peers list \<Rightarrow> (nat list \<times> rr_peers list) option" where
  "rr_requests pc [] chain = Some ([], chain)"
| "rr_requests pc (now # ts) chain =
     (case rr_request pc now chain of
        None \<Rightarrow> None
      | Some (n, chain) \<Rightarrow> map_option (\<lambda>(ns, chain). (n # ns, chain)) (rr_requests pc ts chain))"

text \<open>A group of several servers of which none has failed; a server that is down has no weight.\<close>

definition rr_sound :: "rr_peer \<Rightarrow> bool" where
  "rr_sound p \<longleftrightarrow> 0 \<le> current_weight p \<and> 0 \<le> weight p \<and> (down p \<longrightarrow> weight p = 0 \<and> current_weight p = 0) \<and>
     (max_fails p = 0 \<or> fails p < max_fails p)"

definition rr_ready :: "rr_peers \<Rightarrow> bool" where
  "rr_ready g \<longleftrightarrow> \<not> single g \<and> last_cached g = 0 \<and> 2 \<le> length (peer g) \<and> (\<exists>p\<in>set (peer g). 0 < weight p) \<and>
     (\<forall>p\<in>set (peer g). rr_sound p)"

lemma init_tried:
  assumes "ngx_http_upstream_init_round_robin_peer (g # rest) pc = (rrp, pc')" "i < length (peer g)"
  shows "i div 64 < length (tried rrp)" "\<not> tried_bit (tried rrp) i"
proof -
  let ?n = "length (peer g)" and ?b = "length (peer ((g # rest) ! 1))"
  let ?m = "if 1 < length (g # rest) \<and> ?n < ?b then ?b else ?n"
  have n: "tried rrp = (if ?m \<le> 64 then [0] else replicate ((?m + 63) div 64) 0)"
    using assms(1) unfolding ngx_http_upstream_init_round_robin_peer_def Let_def by auto
  have m: "i < ?m" using assms(2) by simp
  show l: "i div 64 < length (tried rrp)" using m unfolding n by auto
  have "tried rrp = replicate (length (tried rrp)) 0" unfolding n by simp
  then show "\<not> tried_bit (tried rrp) i" using tried_bit_init [OF l] by metis
qed

lemma probe_sound:
  assumes "rr_sound (t_peers t ! t_current t)" "\<not> down (t_peers t ! t_current t)"
    and "t_current t div 64 < length (t_tried t)" "\<not> tried_bit (t_tried t) (t_current t)"
  shows "rr_probe now t = Some (True, t)"
  using assms by (simp add: rr_probe_def Let_def and_exp_eq_0_iff_not_bit tried_bit_def rr_sound_def)

lemma rr_left_sound: "\<forall>p\<in>set ps. rr_sound p \<Longrightarrow> \<forall>p\<in>set (rr_left ps). rr_sound p"
  by (auto simp: rr_left_def rr_reset_def rr_sound_def)

lemma first_try_sound:
  assumes "\<forall>p\<in>set ps. rr_sound p" "\<exists>p\<in>set ps. 0 < weight p" "n = fst (ngx_http_upstream_get_peer ps)"
    and "n div 64 < length tr" "\<not> tried_bit tr n"
  shows "rr_first_try now (Suc i) \<lparr>t_peers = ps, t_tried = tr, t_tries = k, t_current = c\<rparr> =
    Some (True, \<lparr>t_peers = rr_left ps, t_tried = tr, t_tries = k, t_current = n\<rparr>)"
proof -
  have ne: "ps \<noteq> []" using assms(2) by auto
  have l: "n < length ps" using get_peer_less [OF ne] assms(3) by simp
  then have "rr_sound (rr_left ps ! n)" using rr_left_sound [OF assms(1)] by simp
  moreover have "0 < current_weight (rr_left ps ! n)" using get_peer_pos [of ps] assms(2,3) by auto
  ultimately have "rr_probe now \<lparr>t_peers = rr_left ps, t_tried = tr, t_tries = k, t_current = n\<rparr> =
      Some (True, \<lparr>t_peers = rr_left ps, t_tried = tr, t_tries = k, t_current = n\<rparr>)"
    using assms(4,5) by (intro probe_sound) (auto simp: rr_sound_def)
  then show ?thesis by (simp add: get_peer_left assms(3) rr_first_try.simps)
qed

lemma get_ok:
  "rr_group_get now chain rrp pc = Some (True, c, d, k) \<Longrightarrow>
     ngx_http_upstream_get_round_robin_peer now chain rrp pc = Some (NGX_OK, c, d, k)"
  by (subst ngx_http_upstream_get_round_robin_peer.simps) simp

lemma get_last:
  "rr_group_get now chain rrp pc = Some (False, c, d, k) \<Longrightarrow> \<not> Suc (rrp_peers d) < length c \<Longrightarrow>
     ngx_http_upstream_get_round_robin_peer now chain rrp pc =
       Some (NGX_BUSY, rr_live (rrp_peers d) c, d, k\<lparr>pc_name := peers_name (c ! rrp_peers d)\<rparr>)"
  by (subst ngx_http_upstream_get_round_robin_peer.simps) (simp add: Let_def)

lemma get_None: "rr_group_get now chain rrp pc = None \<Longrightarrow> ngx_http_upstream_get_round_robin_peer now chain rrp pc = None"
  by (subst ngx_http_upstream_get_round_robin_peer.simps) simp

lemma connect_plain:
  "tries pc \<noteq> 1 \<Longrightarrow> rr_connect chain rrp pc p =
     Some (rrp, pc\<lparr>pc_sockaddr := peer_sockaddr p, pc_socklen := peer_socklen p, pc_name := peer_name p\<rparr>)"
  by (simp add: rr_connect_def Let_def)

lemma rr_request_step:
  assumes "rr_ready g"
  defines "n \<equiv> fst (ngx_http_upstream_get_peer (peer g))" and "ps \<equiv> rr_left (peer g)"
  shows "\<exists>g'. rr_request pc now (g # rest) = Some (n, g' # rest) \<and> n < length (peer g) \<and> 0 < current_weight (ps ! n) \<and>
    rr_ready g' \<and> map weight (peer g') = map weight (peer g) \<and>
    map current_weight (peer g') = (map current_weight ps)[n := current_weight (ps ! n) - 1]"
proof -
  have g: "\<not> single g" "last_cached g = 0" "2 \<le> length (peer g)" "\<exists>p\<in>set (peer g). 0 < weight p" "\<forall>p\<in>set (peer g). rr_sound p"
    using assms(1) by (auto simp: rr_ready_def)
  have ne: "peer g \<noteq> []" using g(3) by auto
  have n: "n < length (peer g)" unfolding n_def by (rule get_peer_less [OF ne])
  have pos: "0 < current_weight (ps ! n)" using get_peer_pos [of "peer g"] g(4) unfolding ps_def n_def by auto
  obtain rrp pc' where i: "ngx_http_upstream_init_round_robin_peer (g # rest) pc = (rrp, pc')" by fastforce
  then have r: "rrp_peers rrp = 0" "tries pc' = length (peer g)"
    by (auto simp: ngx_http_upstream_init_round_robin_peer_def Let_def)
  let ?p = "(ps ! n)\<lparr>current_weight := current_weight (ps ! n) - 1\<rparr>"
  let ?g = "g\<lparr>peer := ps[n := ?p]\<rparr>"
  obtain m where m: "length (peer g) = Suc m" using g(3) by (cases "length (peer g)") auto
  have f: "rr_first_try now (Suc m) \<lparr>t_peers = peer g, t_tried = tried rrp, t_tries = Suc m, t_current = current rrp\<rparr> =
      Some (True, \<lparr>t_peers = ps, t_tried = tried rrp, t_tries = Suc m, t_current = n\<rparr>)"
    unfolding ps_def
    by (rule first_try_sound [OF g(5,4)]) (use init_tried [OF i n] in \<open>simp_all add: n_def\<close>)
  have "m \<noteq> 0" using g(3) m by simp
  have "\<exists>rrp' pc''. rr_group_get now (g # rest) rrp pc' = Some (True, ?g # rest, rrp', pc'') \<and>
      rrp_peers rrp' = 0 \<and> current rrp' = n \<and> tries pc'' = length (peer g)"
    unfolding rr_group_get_def Let_def r
    by (simp add: g(1,2) r m f connect_plain rr_loops_def Let_def \<open>m \<noteq> 0\<close>)
  then obtain rrp' pc'' where get: "ngx_http_upstream_get_round_robin_peer now (g # rest) rrp pc' = Some (NGX_OK, ?g # rest, rrp', pc'')"
      "rrp_peers rrp' = 0" "current rrp' = n" "tries pc'' = length (peer g)"
    using get_ok by blast
  have ln: "length ps = length (peer g)" by (simp add: ps_def)
  let ?q = "if accessed ?p < checked ?p then ?p\<lparr>fails := 0\<rparr> else ?p"
  have free: "fst (ngx_http_upstream_free_round_robin_peer now 0 (?g # rest) rrp' pc'') = ?g\<lparr>peer := ps[n := ?q]\<rparr> # rest"
    using get(2-4) g(1,3) n ln ne by (simp add: ngx_http_upstream_free_round_robin_peer_def Let_def split: if_splits)
  have req: "rr_request pc now (g # rest) = Some (n, ?g\<lparr>peer := ps[n := ?q]\<rparr> # rest)"
    unfolding rr_request_def i using get(1,3) free by simp
  have w: "map weight ps = map weight (peer g)"
    by (simp add: ps_def rr_left_def rr_reset_def)
  have wq: "weight ?q = weight (ps ! n)" "current_weight ?q = current_weight (ps ! n) - 1" by simp_all
  have s: "\<forall>p\<in>set ps. rr_sound p" using rr_left_sound [OF g(5)] by (simp add: ps_def)
  then have sn: "rr_sound (ps ! n)" using n ln by simp
  have sq: "rr_sound ?q" using sn pos by (auto simp: rr_sound_def)
  have w': "map weight (ps[n := ?q]) = map weight (peer g)"
    using wq(1) w n ln by (simp only: map_update) (metis length_map list_update_id nth_map)
  have "\<exists>p\<in>set (ps[n := ?q]). 0 < weight p"
  proof -
    have "\<exists>v\<in>set (map weight (peer g)). 0 < v" using g(4) by auto
    then have "\<exists>v\<in>set (map weight (ps[n := ?q])). 0 < v" by (simp only: w')
    then show ?thesis by auto
  qed
  moreover have "\<forall>p\<in>set (ps[n := ?q]). rr_sound p" using s sq set_update_subset_insert [of ps n ?q] by blast
  ultimately have "rr_ready (?g\<lparr>peer := ps[n := ?q]\<rparr>)" using g(1-3) by (simp add: rr_ready_def ln)
  moreover have "map current_weight (ps[n := ?q]) = (map current_weight ps)[n := current_weight (ps ! n) - 1]"
    by (simp only: map_update wq(2))
  ultimately show ?thesis using req n pos w' by (intro exI [of _ "?g\<lparr>peer := ps[n := ?q]\<rparr>"]) simp
qed

subsection \<open>Fairness\<close>

text \<open>The requests that the weights left allow until all are used up.\<close>

definition rr_total :: "int list \<Rightarrow> nat" where
  "rr_total c = sum_list (map nat c)"

lemma rr_total_dec:
  assumes "n < length c" "0 < c ! n"
  shows "rr_total c = Suc (rr_total (c[n := c ! n - 1]))"
proof -
  have "rr_total (c[n := c ! n - 1]) = sum_list ((map nat c)[n := nat (c ! n - 1)])"
    by (simp add: rr_total_def map_update)
  also have "\<dots> = rr_total c + nat (c ! n - 1) - nat (c ! n)"
    using assms(1) by (simp add: rr_total_def sum_list_update)
  finally have "rr_total (c[n := c ! n - 1]) = rr_total c + nat (c ! n - 1) - nat (c ! n)" .
  moreover have "nat (c ! n) \<le> rr_total c"
    unfolding rr_total_def by (rule member_le_sum_list) (use assms(1) in auto)
  ultimately show ?thesis using assms(2) by simp
qed

lemma rr_total_0: "rr_total c = 0 \<longleftrightarrow> (\<forall>x\<in>set c. x \<le> 0)"
  by (auto simp: rr_total_def)

definition weights_left :: "rr_peers \<Rightarrow> int list" where
  "weights_left g = map current_weight (rr_left (peer g))"

lemma weights_left_length [simp]: "length (weights_left g) = length (peer g)"
  by (simp add: weights_left_def)

lemma weights_left_pos:
  assumes "rr_total (map current_weight (peer g)) \<noteq> 0"
  shows "weights_left g = map current_weight (peer g)"
  using assms by (auto simp: weights_left_def rr_left_def rr_total_0)

lemma weights_left_zero:
  assumes "rr_total (map current_weight (peer g)) = 0"
  shows "weights_left g = map weight (peer g)"
  using assms by (auto simp: weights_left_def rr_left_def rr_total_0 rr_reset_def)

lemma rr_request_weights:
  assumes "rr_ready g"
  obtains n g1 where "rr_request pc now (g # rest) = Some (n, g1 # rest)" "n < length (peer g)" "0 < weights_left g ! n"
    "rr_ready g1" "map weight (peer g1) = map weight (peer g)"
    "map current_weight (peer g1) = (weights_left g)[n := weights_left g ! n - 1]"
proof -
  let ?n = "fst (ngx_http_upstream_get_peer (peer g))"
  obtain g1 where "rr_request pc now (g # rest) = Some (?n, g1 # rest)" "?n < length (peer g)" "0 < current_weight (rr_left (peer g) ! ?n)"
    "rr_ready g1" "map weight (peer g1) = map weight (peer g)"
    "map current_weight (peer g1) = (map current_weight (rr_left (peer g)))[?n := current_weight (rr_left (peer g) ! ?n) - 1]"
    using rr_request_step [OF assms, of pc now rest] by blast
  then show thesis using that [of ?n g1] by (simp add: weights_left_def)
qed

lemma rr_period:
  assumes "rr_ready g" "length ts = rr_total (weights_left g)"
  shows "\<exists>ns g'. rr_requests pc ts (g # rest) = Some (ns, g' # rest) \<and> rr_ready g' \<and>
    map weight (peer g') = map weight (peer g) \<and> rr_total (map current_weight (peer g')) = 0 \<and>
    (\<forall>i<length (peer g). count_list ns i = nat (weights_left g ! i))"
  using assms
proof (induction ts arbitrary: g)
  case Nil
  obtain n g1 where n: "rr_request pc 0 (g # rest) = Some (n, g1 # rest)" "n < length (peer g)" "0 < weights_left g ! n"
      "rr_ready g1" "map weight (peer g1) = map weight (peer g)"
      "map current_weight (peer g1) = (weights_left g)[n := weights_left g ! n - 1]"
    by (rule rr_request_weights [OF Nil.prems(1)])
  then have "n < length (weights_left g)" by simp
  with n(3) have "rr_total (weights_left g) \<noteq> 0" unfolding rr_total_0 using nth_mem leD by blast
  then show ?case using Nil.prems(2) by simp
next
  case (Cons now ts)
  let ?c = "weights_left g"
  obtain n g1 where g1: "rr_request pc now (g # rest) = Some (n, g1 # rest)" "n < length (peer g)" "0 < ?c ! n"
      "rr_ready g1" "map weight (peer g1) = map weight (peer g)" "map current_weight (peer g1) = ?c[n := ?c ! n - 1]"
    by (rule rr_request_weights [OF Cons.prems(1)])
  have t: "length ts = rr_total (map current_weight (peer g1))"
    using rr_total_dec [of n ?c] g1(2,3,6) Cons.prems(2) by simp
  have l: "length (peer g1) = length (peer g)" using g1(5) by (metis length_map)
  have "\<forall>p\<in>set (rr_left (peer g)). rr_sound p"
    by (rule rr_left_sound) (use Cons.prems(1) in \<open>simp add: rr_ready_def\<close>)
  then have c: "\<forall>i<length (peer g). 0 \<le> ?c ! i" by (simp add: weights_left_def rr_sound_def)
  show ?case
  proof (cases "ts = []")
    case True
    then have z: "rr_total (map current_weight (peer g1)) = 0" using t by simp
    have "count_list [n] i = nat (?c ! i)" if i: "i < length (peer g)" for i
    proof -
      have "(?c[n := ?c ! n - 1]) ! i \<le> 0" using z i g1(6) unfolding rr_total_0
        by (metis length_list_update nth_mem weights_left_length)
      then show ?thesis using c i g1(2,3) by (cases "i = n") (auto simp: nth_list_update)
    qed
    then show ?thesis using True g1 z by (intro exI [of _ "[n]"] exI [of _ g1]) auto
  next
    case False
    then have w: "weights_left g1 = ?c[n := ?c ! n - 1]" using weights_left_pos [of g1] t g1(6) by (metis length_0_conv)
    obtain ns g' where IH: "rr_requests pc ts (g1 # rest) = Some (ns, g' # rest)" "rr_ready g'"
        "map weight (peer g') = map weight (peer g)" "rr_total (map current_weight (peer g')) = 0"
        "\<forall>i<length (peer g). count_list ns i = nat (weights_left g1 ! i)"
      using Cons.IH [OF g1(4)] t g1(5) l w g1(6) by auto
    have "count_list (n # ns) i = nat (?c ! i)" if "i < length (peer g)" for i
      using IH(5) that g1(2,3) unfolding w by (cases "i = n") (auto simp: nth_list_update Suc_nat_eq_nat_zadd1)
    then show ?thesis using g1(1) IH(1-4) by (intro exI [of _ "n # ns"] exI [of _ g']) auto
  qed
qed

lemma rr_requests_append:
  "rr_requests pc (ts @ us) chain =
     (case rr_requests pc ts chain of None \<Rightarrow> None
      | Some (ns, chain) \<Rightarrow> map_option (\<lambda>(ms, chain). (ns @ ms, chain)) (rr_requests pc us chain))"
proof (induction ts arbitrary: chain)
  case Nil
  then show ?case by (auto split: option.split simp: option.map_id0 map_option_case)
next
  case (Cons now ts)
  then show ?case by (auto split: option.splits simp: map_option_case)
qed

lemma rr_periods:
  assumes "rr_ready g" "weights_left g = map weight (peer g)" "length ts = k * rr_total (map weight (peer g))"
  shows "\<exists>ns g'. rr_requests pc ts (g # rest) = Some (ns, g' # rest) \<and>
    (\<forall>i<length (peer g). count_list ns i = k * nat (weight (peer g ! i)))"
  using assms
proof (induction k arbitrary: g ts)
  case 0
  then show ?case by simp
next
  case (Suc k)
  let ?W = "rr_total (map weight (peer g))"
  have len: "length (take ?W ts) = rr_total (weights_left g)" "length (drop ?W ts) = k * ?W" using Suc.prems(2,3) by simp_all
  obtain ns g' where p: "rr_requests pc (take ?W ts) (g # rest) = Some (ns, g' # rest)" "rr_ready g'"
      "map weight (peer g') = map weight (peer g)" "rr_total (map current_weight (peer g')) = 0"
      "\<forall>i<length (peer g). count_list ns i = nat (weights_left g ! i)"
    using rr_period [OF Suc.prems(1) len(1)] by blast
  have l: "length (peer g') = length (peer g)" using p(3) by (metis length_map)
  obtain ms g'' where q: "rr_requests pc (drop ?W ts) (g' # rest) = Some (ms, g'' # rest)"
      "\<forall>i<length (peer g'). count_list ms i = k * nat (weight (peer g' ! i))"
    using Suc.IH [OF p(2) weights_left_zero [OF p(4)], of "drop ?W ts"] len(2) p(3) by auto
  have "rr_requests pc (take ?W ts @ drop ?W ts) (g # rest) = Some (ns @ ms, g'' # rest)"
    unfolding rr_requests_append using p(1) q(1) by simp
  moreover have "weight (peer g' ! i) = weight (peer g ! i)" if "i < length (peer g)" for i
    using p(3) that l by (metis nth_map)
  ultimately show ?case using p(5) q(2) l Suc.prems(2) by (intro exI [of _ "ns @ ms"] exI [of _ g'']) simp
qed

text \<open>The groups that the configuration makes.\<close>

lemma cmp_servers_key: "0 < ngx_http_upstream_cmp_servers a b \<longleftrightarrow> - weight b < - weight a"
  by (simp add: ngx_http_upstream_cmp_servers_def)

lemma mset_sort_servers [simp]: "mset (ngx_sort alloc ngx_http_upstream_cmp_servers ps) = mset ps"
  by (rule mset_ngx_sort [of _ "\<lambda>p. - weight p"]) (simp add: cmp_by_def cmp_servers_key)

lemmas sort_servers = mset_eq_setD [OF mset_sort_servers] mset_eq_length [OF mset_sort_servers]

lemma init_group:
  assumes "ngx_http_upstream_init_round_robin alloc host servers = Some (g # rest)"
  shows "set (peer g) = set (rr_primary servers)" "last_cached g = 0" "single g \<longrightarrow> length (peer g) = 1"
  using assms
  by (auto simp: ngx_http_upstream_init_round_robin_def Let_def rr_group_def sort_servers split: if_splits)

lemma primary_peer:
  assumes "p \<in> set (rr_primary servers)" "\<forall>s\<in>set servers. 0 < us_weight s"
  shows "rr_sound p" "current_weight p = weight p"
  using assms by (auto simp: rr_primary_def rr_peer_of_def rr_sound_def less_imp_le split: if_splits)

lemma init_ready:
  assumes "ngx_http_upstream_init_round_robin alloc host servers = Some (g # rest)" "\<forall>s\<in>set servers. 0 < us_weight s"
    and "2 \<le> length (peer g)" "\<exists>s\<in>set servers. \<not> us_backup s \<and> \<not> us_down s \<and> us_addrs s \<noteq> []"
  shows "rr_ready g" "weights_left g = map weight (peer g)"
proof -
  obtain s a where s: "s \<in> set servers" "\<not> us_backup s" "\<not> us_down s" "a \<in> set (us_addrs s)" using assms(4) by (meson list.set_sel(1))
  then have "rr_peer_of (us_weight s) (us_max_fails s) (us_fail_timeout s) False a \<in> set (rr_primary servers)"
    by (force simp: rr_primary_def)
  then have "\<exists>p\<in>set (peer g). 0 < weight p" using init_group(1) [OF assms(1)] assms(2) s(1)
    by (intro bexI) (auto simp: rr_peer_of_def)
  then show "rr_ready g"
    using init_group [OF assms(1)] primary_peer [OF _ assms(2)] assms(3) by (auto simp: rr_ready_def)
  have "map current_weight (peer g) = map weight (peer g)"
    using init_group(1) [OF assms(1)] primary_peer(2) [OF _ assms(2)] by auto
  then show "weights_left g = map weight (peer g)"
    using weights_left_pos [of g] weights_left_zero [of g] by (cases "rr_total (map current_weight (peer g)) = 0") auto
qed

text \<open>
  C6: requests are spread in proportion to the weights.  For an upstream of several servers that all answer, in \<open>k\<close>
  times as many requests as the sum of the weights every server gets exactly \<open>k\<close> times its weight, whatever the
  positive weights, those whose product with 1000 overflows included; a server that is down gets none.
\<close>

theorem rr_fair:
  assumes "ngx_http_upstream_init_round_robin alloc host servers = Some (g # rest)" "\<forall>s\<in>set servers. 0 < us_weight s"
    and "2 \<le> length (peer g)" "\<exists>s\<in>set servers. \<not> us_backup s \<and> \<not> us_down s \<and> us_addrs s \<noteq> []"
    and "length ts = k * (\<Sum>p\<leftarrow>peer g. nat (weight p))"
  shows "\<exists>ns g'. rr_requests pc ts (g # rest) = Some (ns, g' # rest) \<and>
    (\<forall>i<length (peer g). count_list ns i = k * nat (weight (peer g ! i)))"
  using rr_periods [OF init_ready [OF assms(1-4)]] assms(5) by (simp add: rr_total_def comp_def)

subsection \<open>One request\<close>

text \<open>Is the server up, and has it not failed too often, or long enough ago?\<close>

definition rr_alive :: "int \<Rightarrow> rr_peer \<Rightarrow> bool" where
  "rr_alive now p \<longleftrightarrow> \<not> down p \<and> (max_fails p = 0 \<or> fails p < max_fails p \<or> fail_timeout p < now - checked p)"

definition bits_le :: "uint64_t list \<Rightarrow> uint64_t list \<Rightarrow> bool" where
  "bits_le tr tr' \<longleftrightarrow> length tr' = length tr \<and> (\<forall>k. tried_bit tr k \<longrightarrow> tried_bit tr' k)"

text \<open>A try leaves everything of the peers but their weights.\<close>

definition peers_le :: "rr_peer list \<Rightarrow> rr_peer list \<Rightarrow> bool" where
  "peers_le ps ps' \<longleftrightarrow> map (\<lambda>p. p\<lparr>current_weight := 0\<rparr>) ps' = map (\<lambda>p. p\<lparr>current_weight := 0\<rparr>) ps"

lemma bits_le_refl [simp]: "bits_le tr tr"
  by (simp add: bits_le_def)

lemma bits_le_trans: "bits_le a b \<Longrightarrow> bits_le b c \<Longrightarrow> bits_le a c"
  by (simp add: bits_le_def)

lemma peers_le_refl [simp]: "peers_le ps ps"
  by (simp add: peers_le_def)

lemma peers_le_trans: "peers_le a b \<Longrightarrow> peers_le b c \<Longrightarrow> peers_le a c"
  by (simp add: peers_le_def)

lemma peers_le_length: "peers_le ps ps' \<Longrightarrow> length ps' = length ps"
  unfolding peers_le_def by (metis length_map)

lemma peers_le_alive:
  assumes "peers_le ps ps'" "i < length ps"
  shows "rr_alive now (ps' ! i) = rr_alive now (ps ! i)" "down (ps' ! i) = down (ps ! i)"
proof -
  have "(ps' ! i)\<lparr>current_weight := 0\<rparr> = (ps ! i)\<lparr>current_weight := 0\<rparr>"
    using assms unfolding peers_le_def by (metis length_map nth_map)
  then have "down (ps' ! i) = down (ps ! i)" "max_fails (ps' ! i) = max_fails (ps ! i)" "fails (ps' ! i) = fails (ps ! i)"
      "fail_timeout (ps' ! i) = fail_timeout (ps ! i)" "checked (ps' ! i) = checked (ps ! i)"
    by (metis rr_peer.ext_inject rr_peer.surjective rr_peer.update_convs(4))+
  then show "rr_alive now (ps' ! i) = rr_alive now (ps ! i)" "down (ps' ! i) = down (ps ! i)" by (simp_all add: rr_alive_def)
qed

lemma rr_left_Nil [simp]: "rr_left ps = [] \<longleftrightarrow> ps = []"
  by (metis length_0_conv rr_left_length)

lemma peers_le_left [simp]: "peers_le ps (rr_left ps)"
  by (simp add: peers_le_def rr_left_def rr_reset_def)

lemma peers_le_zero [simp]: "i < length ps \<Longrightarrow> peers_le ps (ps[i := (ps ! i)\<lparr>current_weight := 0\<rparr>])"
  by (simp add: peers_le_def map_update list_update_same_conv)

lemma probe_result:
  assumes "i = t_current t" "i < length (t_peers t)" "i div 64 < length (t_tried t)"
  shows "rr_probe now t =
    (if \<not> tried_bit (t_tried t) i \<and> rr_alive now (t_peers t ! i) then
       Some (True, t\<lparr>t_peers := (if max_fails (t_peers t ! i) = 0 \<or> fails (t_peers t ! i) < max_fails (t_peers t ! i) then t_peers t
                                  else (t_peers t)[i := (t_peers t ! i)\<lparr>checked := now\<rparr>])\<rparr>)
     else if tried_bit (t_tried t) i then Some (False, t)
     else if down (t_peers t ! i) then
       Some (False, t\<lparr>t_tried := (t_tried t)[i div 64 := t_tried t ! (i div 64) OR push_bit (i mod 64) 1], t_tries := uint_dec (t_tries t)\<rparr>)
     else Some (False, t\<lparr>t_peers := (t_peers t)[i := (t_peers t ! i)\<lparr>current_weight := 0\<rparr>], t_tries := uint_dec (t_tries t)\<rparr>))"
  using assms by (auto simp: rr_probe_def Let_def rr_alive_def tried_bit_def and_exp_eq_0_iff_not_bit)

definition try_ok :: "rr_try \<Rightarrow> bool" where
  "try_ok t \<longleftrightarrow> t_peers t \<noteq> [] \<and> (\<forall>i<length (t_peers t). i div 64 < length (t_tried t))"

text \<open>What a loop does: it finds a peer that is untried and alive, or it gives up.\<close>

definition try_result :: "int \<Rightarrow> rr_try \<Rightarrow> (bool \<times> rr_try) option \<Rightarrow> bool" where
  "try_result now t res \<longleftrightarrow>
     (\<exists>found t'. res = Some (found, t') \<and> bits_le (t_tried t) (t_tried t') \<and> length (t_peers t') = length (t_peers t) \<and>
        t_current t' < length (t_peers t) \<and> (\<not> found \<longrightarrow> peers_le (t_peers t) (t_peers t')) \<and>
        (found \<longrightarrow> \<not> tried_bit (t_tried t) (t_current t') \<and> rr_alive now (t_peers t ! t_current t')))"

lemma try_result_probe:
  assumes "try_ok t" "t_current t < length (t_peers t)"
  shows "try_result now t (rr_probe now t)"
    "rr_probe now t = Some (False, t') \<Longrightarrow> try_ok t' \<and> t_current t' = t_current t \<and> peers_le (t_peers t) (t_peers t') \<and> bits_le (t_tried t) (t_tried t')"
proof -
  have l: "t_current t div 64 < length (t_tried t)" using assms by (simp add: try_ok_def)
  note p = probe_result [OF refl assms(2) l, of now]
  have b: "bits_le (t_tried t) ((t_tried t)[t_current t div 64 := t_tried t ! (t_current t div 64) OR push_bit (t_current t mod 64) 1])"
    unfolding bits_le_def using tried_bit_set [OF l] by simp
  show "try_result now t (rr_probe now t)" unfolding p try_result_def using assms(2) b by (auto simp del: push_bit_of_1)
  show "rr_probe now t = Some (False, t') \<Longrightarrow> try_ok t' \<and> t_current t' = t_current t \<and> peers_le (t_peers t) (t_peers t') \<and> bits_le (t_tried t) (t_tried t')"
    unfolding p using assms b by (auto simp: try_ok_def bits_le_def simp del: push_bit_of_1 split: if_splits)
qed

lemma try_result_step:
  assumes "peers_le (t_peers t) (t_peers t1)" "bits_le (t_tried t) (t_tried t1)" "try_result now t1 res"
  shows "try_result now t res"
proof -
  have l: "length (t_peers t1) = length (t_peers t)" by (rule peers_le_length [OF assms(1)])
  obtain found t' where r: "res = Some (found, t')" "bits_le (t_tried t1) (t_tried t')" "length (t_peers t') = length (t_peers t1)"
      "t_current t' < length (t_peers t1)" "\<not> found \<longrightarrow> peers_le (t_peers t1) (t_peers t')"
      "found \<longrightarrow> \<not> tried_bit (t_tried t1) (t_current t') \<and> rr_alive now (t_peers t1 ! t_current t')"
    using assms(3) unfolding try_result_def by blast
  show ?thesis unfolding try_result_def
    using r l bits_le_trans [OF assms(2) r(2)] peers_le_trans [OF assms(1)] peers_le_alive(1) [OF assms(1)] assms(2)
    by (intro exI [of _ found] exI [of _ t']) (auto simp: bits_le_def)
qed

lemma try_result_stop:
  assumes "peers_le (t_peers t) (t_peers t1)" "bits_le (t_tried t) (t_tried t1)" "t_current t1 < length (t_peers t)"
  shows "try_result now t (Some (False, t1))"
  using assms peers_le_length [OF assms(1)] by (auto simp: try_result_def)

lemma first_try_result:
  assumes "try_ok t" "t_current t < length (t_peers t)"
  shows "try_result now t (rr_first_try now i t)"
  using assms
proof (induction i arbitrary: t)
  case 0
  then show ?case by (simp add: try_result_stop)
next
  case (Suc i)
  let ?t = "t\<lparr>t_current := fst (ngx_http_upstream_get_peer (t_peers t)), t_peers := rr_left (t_peers t)\<rparr>"
  have ok: "try_ok ?t" "t_current ?t < length (t_peers ?t)"
    using Suc.prems get_peer_less [of "t_peers t"] by (auto simp: try_ok_def)
  have le: "peers_le (t_peers t) (t_peers ?t)" "bits_le (t_tried t) (t_tried ?t)" by simp_all
  obtain found t1 where p: "rr_probe now ?t = Some (found, t1)"
    using try_result_probe(1) [OF ok, of now] by (auto simp: try_result_def)
  have r: "rr_first_try now (Suc i) t =
      (if found then Some (True, t1) else if t_tries t1 = 0 then Some (False, t1) else rr_first_try now i t1)"
    using p by (simp add: rr_first_try.simps get_peer_left)
  show ?case
  proof (cases found)
    case True
    then show ?thesis using try_result_step [OF le try_result_probe(1) [OF ok, of now]] p r by simp
  next
    case False
    then have t1: "try_ok t1" "t_current t1 = t_current ?t" "peers_le (t_peers t) (t_peers t1)" "bits_le (t_tried t) (t_tried t1)"
      using try_result_probe(2) [OF ok, of now t1] p peers_le_trans [OF le(1), of "t_peers t1"] bits_le_trans [OF le(2), of "t_tried t1"]
      by auto
    have c: "t_current t1 < length (t_peers t)" "t_current t1 < length (t_peers t1)"
      using t1(2) ok(2) peers_le_length [OF t1(3)] by simp_all
    show ?thesis
      using try_result_stop [OF t1(3,4) c(1)] try_result_step [OF t1(3,4) Suc.IH [OF t1(1) c(2)]] r False by simp
  qed
qed

lemma next_try_result:
  assumes "try_ok t" "t_current t < length (t_peers t)"
  shows "try_result now t (rr_next_try now i t)"
  using assms
proof (induction i arbitrary: t)
  case 0
  then show ?case by (simp add: try_result_stop)
next
  case (Suc i)
  obtain found t1 where p: "rr_probe now t = Some (found, t1)"
    using try_result_probe(1) [OF Suc.prems, of now] by (auto simp: try_result_def)
  let ?t = "t1\<lparr>t_current := (if Suc (t_current t1) \<ge> length (t_peers t1) then 0 else Suc (t_current t1))\<rparr>"
  have r: "rr_next_try now (Suc i) t =
      (if found then Some (True, t1) else if t_tries t1 = 0 then Some (False, ?t) else rr_next_try now i ?t)"
    using p by (simp add: rr_next_try.simps Let_def)
  show ?case
  proof (cases found)
    case True
    then show ?thesis using try_result_probe(1) [OF Suc.prems, of now] p r by simp
  next
    case False
    then have t1: "try_ok t1" "t_current t1 = t_current t" "peers_le (t_peers t) (t_peers ?t)" "bits_le (t_tried t) (t_tried ?t)"
      using try_result_probe(2) [OF Suc.prems, of now t1] p by auto
    have c: "try_ok ?t" "t_current ?t < length (t_peers ?t)" "t_current ?t < length (t_peers t)"
      using t1(1) peers_le_length [OF t1(3)] by (auto simp: try_ok_def)
    show ?thesis
      using try_result_stop [OF t1(3,4) c(3)] try_result_step [OF t1(3,4) Suc.IH [OF c(1,2)]] r False by simp
  qed
qed

definition rr_several :: "rr_peers \<Rightarrow> rr_peer_data \<Rightarrow> bool" where
  "rr_several g rrp \<longleftrightarrow> \<not> single g \<and> last_cached g = 0 \<and> peer g \<noteq> [] \<and> current rrp < length (peer g) \<and>
     (\<forall>i<length (peer g). i div 64 < length (tried rrp))"

lemma rr_loops_result:
  assumes "rr_several g rrp"
  obtains found t where "rr_loops now g rrp pc = Some (found, t)" "bits_le (tried rrp) (t_tried t)"
    "length (t_peers t) = length (peer g)" "t_current t < length (peer g)"
    "found \<longrightarrow> \<not> tried_bit (tried rrp) (t_current t) \<and> rr_alive now (peer g ! t_current t)"
proof -
  let ?t = "\<lparr>t_peers = peer g, t_tried = tried rrp, t_tries = tries pc, t_current = current rrp\<rparr>"
  have t: "try_ok ?t" "t_current ?t < length (t_peers ?t)" using assms by (simp_all add: try_ok_def rr_several_def)
  let ?i = "if tries pc = 0 then 2 ^ 64 else tries pc"
  have "rr_loops now g rrp pc = rr_first_try now ?i ?t \<or> rr_loops now g rrp pc = rr_next_try now ?i ?t"
    unfolding rr_loops_def Let_def by (rule if_splits(1) [THEN iffD2]) blast
  then have "try_result now ?t (rr_loops now g rrp pc)"
    using first_try_result [OF t] next_try_result [OF t] by metis
  then show thesis using that unfolding try_result_def by auto
qed

lemma group_get_several:
  assumes "\<not> single (chain ! rrp_peers rrp)" "last_cached (chain ! rrp_peers rrp) = 0"
  shows "rr_group_get now chain rrp pc =
    (case rr_loops now (chain ! rrp_peers rrp) rrp pc of
       None \<Rightarrow> None
     | Some (True, t) \<Rightarrow>
         let g = rrp_peers rrp; c = t_current t; p = (t_peers t ! c)\<lparr>current_weight := current_weight (t_peers t ! c) - 1\<rparr>;
             chain = chain[g := (chain ! g)\<lparr>peer := (t_peers t)[c := p]\<rparr>]
         in map_option (\<lambda>(rrp, pc). (True, chain, rrp, pc))
           (rr_connect chain (rrp\<lparr>current := c, tried := (t_tried t)[c div 64 := t_tried t ! (c div 64) OR push_bit (c mod 64) 1]\<rparr>)
             (pc\<lparr>pc_cached := False, pc_connection := 0, tries := t_tries t\<rparr>) p)
     | Some (False, t) \<Rightarrow>
         Some (False, chain[rrp_peers rrp := (chain ! rrp_peers rrp)\<lparr>peer := t_peers t\<rparr>],
               rrp\<lparr>current := t_current t, tried := t_tried t\<rparr>, pc\<lparr>pc_cached := False, pc_connection := 0, tries := t_tries t\<rparr>))"
proof -
  let ?pc = "pc\<lparr>pc_cached := False, pc_connection := 0\<rparr>"
  have "rr_loops now (chain ! rrp_peers rrp) rrp ?pc = rr_loops now (chain ! rrp_peers rrp) rrp pc" by (simp add: rr_loops_def)
  then show ?thesis using assms by (simp add: rr_group_get_def Let_def split: option.split bool.split)
qed

lemma connect_last:
  "\<not> Suc (rrp_peers rrp) < length chain \<Longrightarrow> rr_connect chain rrp pc p =
     Some (rrp, pc\<lparr>pc_sockaddr := peer_sockaddr p, pc_socklen := peer_socklen p, pc_name := peer_name p\<rparr>)"
  by (simp add: rr_connect_def Let_def)

lemma get_single_group:
  assumes "rr_several g rrp" "rrp_peers rrp = 0"
  obtains rc g' d k where "ngx_http_upstream_get_round_robin_peer now [g] rrp pc = Some (rc, [g'], d, k)"
    "rc = NGX_OK \<or> rc = NGX_BUSY" "length (peer g') = length (peer g)" "\<not> single g'" "rrp_peers d = 0"
    "current d < length (peer g)" "bits_le (tried rrp) (tried d)"
    "rc = NGX_OK \<longrightarrow> \<not> tried_bit (tried rrp) (current d) \<and> tried_bit (tried d) (current d) \<and> rr_alive now (peer g ! current d)"
proof -
  have s: "\<not> single ([g] ! rrp_peers rrp)" "last_cached ([g] ! rrp_peers rrp) = 0" using assms by (simp_all add: rr_several_def)
  obtain found t where t: "rr_loops now g rrp pc = Some (found, t)" "bits_le (tried rrp) (t_tried t)"
    "length (t_peers t) = length (peer g)" "t_current t < length (peer g)"
    "found \<longrightarrow> \<not> tried_bit (tried rrp) (t_current t) \<and> rr_alive now (peer g ! t_current t)"
    by (rule rr_loops_result [OF assms(1), where now = now and pc = pc])
  let ?c = "t_current t"
  show thesis
  proof (cases found)
    case True
    let ?p = "(t_peers t ! ?c)\<lparr>current_weight := current_weight (t_peers t ! ?c) - 1\<rparr>"
    let ?tr = "(t_tried t)[?c div 64 := t_tried t ! (?c div 64) OR push_bit (?c mod 64) 1]"
    have l: "?c div 64 < length (t_tried t)" using assms(1) t(2,4) by (simp add: rr_several_def bits_le_def)
    have "bits_le (tried rrp) ?tr" "tried_bit ?tr ?c"
      using t(2) tried_bit_set [OF l] by (auto simp: bits_le_def simp del: push_bit_of_1)
    moreover obtain k where "rr_group_get now [g] rrp pc = Some (True, [g\<lparr>peer := (t_peers t)[?c := ?p]\<rparr>], rrp\<lparr>current := ?c, tried := ?tr\<rparr>, k)"
      using group_get_several [OF s] t(1) True assms(2) by (simp add: Let_def connect_last)
    ultimately show thesis using get_ok that t(3-5) True assms by (auto simp: rr_several_def simp del: push_bit_of_1)
  next
    case False
    then have "rr_group_get now [g] rrp pc = Some (False, [g\<lparr>peer := t_peers t\<rparr>], rrp\<lparr>current := ?c, tried := t_tried t\<rparr>,
        pc\<lparr>pc_cached := False, pc_connection := 0, tries := t_tries t\<rparr>)"
      using group_get_several [OF s] t(1) assms(2) by simp
    from get_last [OF this] show thesis using that t assms by (auto simp: rr_live_def rr_several_def)
  qed
qed

text \<open>
  The attempts of one request: the time, the state with which the attempt ends, and the group as other
  requests have left it.  The list of the peers tried.
\<close>

fun rr_attempts :: "(int \<times> uint64_t \<times> rr_peers) list \<Rightarrow> rr_peer_data \<Rightarrow> peer_connection \<Rightarrow> nat list option" where
  "rr_attempts [] rrp pc = Some []"
| "rr_attempts ((now, state, g) # evs) rrp pc =
     (if tries pc = 0 then Some []
      else case ngx_http_upstream_get_round_robin_peer now [g] rrp pc of
        None \<Rightarrow> None
      | Some (rc, c, d, k) \<Rightarrow>
          if rc = NGX_OK
          then let (c, d', k) = ngx_http_upstream_free_round_robin_peer now state c d k in map_option ((#) (current d)) (rr_attempts evs d' k)
          else Some [])"

lemma free_several:
  assumes "\<not> single g" "rrp_peers rrp = 0" "current rrp < length (peer g)"
  shows "\<exists>c d k. ngx_http_upstream_free_round_robin_peer now state [g] rrp pc = (c, d, k) \<and> rrp_peers d = 0 \<and>
    current d < length (peer g) \<and> tried d = tried rrp"
  using assms by (auto simp: ngx_http_upstream_free_round_robin_peer_def Let_def)

lemma rr_attempts_spec:
  assumes "\<forall>(now, state, g)\<in>set evs. length (peer g) = n \<and> \<not> single g \<and> last_cached g = 0"
    and "0 < n" "rrp_peers rrp = 0" "current rrp < n" "\<forall>i<n. i div 64 < length (tried rrp)"
  shows "\<exists>ns. rr_attempts evs rrp pc = Some ns \<and> distinct ns \<and> length ns \<le> length evs \<and>
    (\<forall>i\<in>set ns. i < n \<and> \<not> tried_bit (tried rrp) i) \<and>
    (\<forall>j<length ns. rr_alive (fst (evs ! j)) (peer (snd (snd (evs ! j))) ! (ns ! j)))"
  using assms
proof (induction evs arbitrary: rrp pc)
  case Nil
  then show ?case by simp
next
  case (Cons ev evs)
  obtain now state g where ev: "ev = (now, state, g)" by (cases ev)
  have s: "rr_several g rrp" using Cons.prems ev by (auto simp: rr_several_def)
  have n: "length (peer g) = n" using Cons.prems(1) ev by simp
  obtain rc g' d k where get: "ngx_http_upstream_get_round_robin_peer now [g] rrp pc = Some (rc, [g'], d, k)"
    "rc = NGX_OK \<or> rc = NGX_BUSY" "length (peer g') = length (peer g)" "\<not> single g'" "rrp_peers d = 0"
    "current d < length (peer g)" "bits_le (tried rrp) (tried d)"
    "rc = NGX_OK \<longrightarrow> \<not> tried_bit (tried rrp) (current d) \<and> tried_bit (tried d) (current d) \<and> rr_alive now (peer g ! current d)"
    by (rule get_single_group [OF s Cons.prems(3), where now = now and pc = pc])
  obtain c d' k' where free: "ngx_http_upstream_free_round_robin_peer now state [g'] d k = (c, d', k')" "rrp_peers d' = 0"
      "current d' < n" "tried d' = tried d"
    using free_several [OF get(4,5), of now state k] get(3,6) n by auto
  show ?case
  proof (cases "tries pc = 0 \<or> rc \<noteq> NGX_OK")
    case True
    then show ?thesis using get(1) ev by auto
  next
    case False
    have b: "\<not> tried_bit (tried rrp) (current d)" "tried_bit (tried d) (current d)" "rr_alive now (peer g ! current d)"
      using get(8) False by auto
    have "\<forall>i<n. i div 64 < length (tried d')" using Cons.prems(5) get(7) free(4) by (simp add: bits_le_def)
    then obtain ns where ns: "rr_attempts evs d' k' = Some ns" "distinct ns" "length ns \<le> length evs"
        "\<forall>i\<in>set ns. i < n \<and> \<not> tried_bit (tried d') i"
        "\<forall>j<length ns. rr_alive (fst (evs ! j)) (peer (snd (snd (evs ! j))) ! (ns ! j))"
      using Cons.IH [OF _ Cons.prems(2) free(2,3), of k'] Cons.prems(1) by auto
    have "\<forall>i\<in>set ns. i < n \<and> \<not> tried_bit (tried rrp) i" using ns(4) get(7) free(4) by (auto simp: bits_le_def)
    moreover have "current d \<notin> set ns" using ns(4) b(2) free(4) by auto
    moreover have "rr_attempts (ev # evs) rrp pc = Some (current d # ns)" using ev get(1) free(1) ns(1) False by simp
    moreover have "rr_alive (fst ((ev # evs) ! j)) (peer (snd (snd ((ev # evs) ! j))) ! ((current d # ns) ! j))"
      if "j < length (current d # ns)" for j
      using that ns(5) b(3) ev by (cases j) auto
    ultimately show ?thesis using ns(2,3) b(1) get(6) n by (intro exI [of _ "current d # ns"]) simp
  qed
qed

text \<open>
  C7: a request never tries a server twice, in an upstream of one group: without backup servers, not of a single server
  (\<open>single\<close> is not set), and without cached connections.  Whatever other requests do to the group between its attempts, and however
  its attempts end, the servers that one request is given are all different, none of them is down, and each has failed
  less often than its limit or longer ago than its timeout; no attempt reads or writes outside the bitmap.
\<close>

theorem rr_attempts_distinct:
  assumes "ngx_http_upstream_init_round_robin_peer [g] pc = (rrp, pc')" "peer g \<noteq> []"
    and "\<forall>(now, state, h)\<in>set evs. length (peer h) = length (peer g) \<and> \<not> single h \<and> last_cached h = 0"
  shows "\<exists>ns. rr_attempts evs rrp pc' = Some ns \<and> distinct ns \<and> length ns \<le> length (peer g) \<and>
    (\<forall>j<length ns. rr_alive (fst (evs ! j)) (peer (snd (snd (evs ! j))) ! (ns ! j)))"
proof -
  have r: "rrp_peers rrp = 0" "current rrp = 0" using assms(1) by (auto simp: ngx_http_upstream_init_round_robin_peer_def Let_def)
  have t: "\<forall>i<length (peer g). i div 64 < length (tried rrp)" using init_tried(1) [OF assms(1)] by blast
  obtain ns where ns: "rr_attempts evs rrp pc' = Some ns" "distinct ns" "\<forall>i\<in>set ns. i < length (peer g)"
      "\<forall>j<length ns. rr_alive (fst (evs ! j)) (peer (snd (snd (evs ! j))) ! (ns ! j))"
    using rr_attempts_spec [OF assms(3) _ r(1) _ t, of pc'] r(2) assms(2) by auto
  have "set ns \<subseteq> {..<length (peer g)}" using ns(3) by auto
  then have "length ns \<le> length (peer g)"
    using card_mono [of "{..<length (peer g)}" "set ns"] distinct_card [OF ns(2)] by simp
  then show ?thesis using ns by blast
qed

subsection \<open>Servers that are down\<close>

lemma probe_down:
  assumes "i = t_current t" "i < length (t_peers t)" "i div 64 < length (t_tried t)" "down (t_peers t ! i)"
  shows "\<exists>t'. rr_probe now t = Some (False, t') \<and> t_peers t' = t_peers t \<and> length (t_tried t') = length (t_tried t)"
  using assms(4) by (cases "tried_bit (t_tried t) i") (simp_all add: probe_result [OF assms(1-3)] rr_alive_def)

lemma first_try_down:
  assumes "try_ok t" "\<forall>p\<in>set (t_peers t). 0 < current_weight p \<longrightarrow> down p" "\<exists>p\<in>set (t_peers t). 0 < current_weight p"
  shows "\<exists>t'. rr_first_try now i t = Some (False, t') \<and> t_peers t' = t_peers t \<and> length (t_tried t') = length (t_tried t)"
  using assms
proof (induction i arbitrary: t)
  case 0
  then show ?case by simp
next
  case (Suc i)
  let ?n = "fst (ngx_http_upstream_get_peer (t_peers t))"
  have "\<not> (\<forall>p\<in>set (t_peers t). current_weight p \<le> 0)" using Suc.prems(3) by (meson linorder_not_le)
  then have l: "rr_left (t_peers t) = t_peers t" unfolding rr_left_def by (rule if_not_P)
  have n: "?n < length (t_peers t)" using get_peer_less Suc.prems(1) by (simp add: try_ok_def)
  have "0 < current_weight (t_peers t ! ?n)" using get_peer_pos [of "t_peers t"] Suc.prems(3) l by auto
  then have d: "down (t_peers t ! ?n)" using Suc.prems(2) n by simp
  obtain t1 where p: "rr_probe now (t\<lparr>t_current := ?n\<rparr>) = Some (False, t1)" "t_peers t1 = t_peers t"
      "length (t_tried t1) = length (t_tried t)"
    using probe_down [of ?n "t\<lparr>t_current := ?n\<rparr>" now] n d Suc.prems(1) by (auto simp: try_ok_def)
  have "rr_first_try now (Suc i) t = (if t_tries t1 = 0 then Some (False, t1) else rr_first_try now i t1)"
    using p(1) l by (simp add: rr_first_try.simps get_peer_left)
  moreover have "try_ok t1" using Suc.prems(1) p(2,3) by (simp add: try_ok_def)
  ultimately show ?case using Suc.IH [of t1] Suc.prems(2,3) p(2,3) by simp
qed

lemma loops_down:
  assumes "rr_several g rrp" "tries pc = length (peer g)" "\<forall>p\<in>set (peer g). 0 < current_weight p \<longrightarrow> down p"
    "\<exists>p\<in>set (peer g). 0 < current_weight p"
  shows "\<exists>t. rr_loops now g rrp pc = Some (False, t) \<and> t_peers t = peer g \<and> length (t_tried t) = length (tried rrp)"
proof -
  have "try_ok \<lparr>t_peers = peer g, t_tried = tried rrp, t_tries = tries pc, t_current = current rrp\<rparr>"
    using assms(1) by (simp add: try_ok_def rr_several_def)
  from first_try_down [OF this, of now "tries pc"] assms show ?thesis by (simp add: rr_loops_def Let_def rr_several_def)
qed

text \<open>
  A backup server that is down can hide those that are up.  The weight of a backup server that is down is kept, so once the
  weights of the other servers of the last group are used up, every request that comes to this group is refused, and the
  weights stay as they are: so are all later ones.
\<close>

theorem rr_down_backup_stuck:
  assumes "chain ! rrp_peers rrp = g" "Suc (rrp_peers rrp) = length chain" "rr_several g rrp" "tries pc = length (peer g)"
    and "\<forall>p\<in>set (peer g). 0 < current_weight p \<longrightarrow> down p" "\<exists>p\<in>set (peer g). 0 < current_weight p"
  shows "\<exists>chain' rrp' pc'. ngx_http_upstream_get_round_robin_peer now chain rrp pc = Some (NGX_BUSY, chain', rrp', pc') \<and>
    map current_weight (peer (chain' ! rrp_peers rrp)) = map current_weight (peer g) \<and>
    map down (peer (chain' ! rrp_peers rrp)) = map down (peer g)"
proof -
  have s: "\<not> single (chain ! rrp_peers rrp)" "last_cached (chain ! rrp_peers rrp) = 0"
    using assms(1,3) by (simp_all add: rr_several_def)
  obtain t where t: "rr_loops now g rrp pc = Some (False, t)" "t_peers t = peer g" using loops_down [OF assms(3-6)] by blast
  then have "rr_group_get now chain rrp pc =
      Some (False, chain[rrp_peers rrp := g\<lparr>peer := peer g\<rparr>], rrp\<lparr>current := t_current t, tried := t_tried t\<rparr>,
            pc\<lparr>pc_cached := False, pc_connection := 0, tries := t_tries t\<rparr>)"
    using group_get_several [OF s] assms(1) by simp
  from get_last [OF this] show ?thesis using assms(2) by (simp add: rr_live_def comp_def)
qed

text \<open>
  Clearing the bitmap overruns it.  When the number of backup servers is a multiple of 64 and no smaller than the number of the
  others, a request that finds none of the others alive clears one word behind those that were allocated.
\<close>

theorem rr_clear_overrun:
  assumes "ngx_http_upstream_init_round_robin_peer [g, b] pc = (rrp, pc')" "\<not> single g" "last_cached g = 0" "peer g \<noteq> []"
    and "\<forall>p\<in>set (peer g). \<not> rr_alive now p" "length (peer b) = 64 * k" "length (peer g) \<le> 64 * k"
  shows "ngx_http_upstream_get_round_robin_peer now [g, b] rrp pc' = None"
proof -
  have r: "rrp_peers rrp = 0" "current rrp = 0" using assms(1) by (auto simp: ngx_http_upstream_init_round_robin_peer_def Let_def)
  have "k \<noteq> 0" using assms(4,7) by (cases k) auto
  then have len: "length (tried rrp) = k"
    using assms(1,6,7) by (auto simp: ngx_http_upstream_init_round_robin_peer_def Let_def split: if_splits)
  have s: "rr_several g rrp" using assms(2-4) r(2) init_tried(1) [OF assms(1)] by (simp add: rr_several_def)
  have c: "\<not> single ([g, b] ! rrp_peers rrp)" "last_cached ([g, b] ! rrp_peers rrp) = 0" using assms(2,3) r(1) by simp_all
  obtain found t where t: "rr_loops now g rrp pc' = Some (found, t)" "bits_le (tried rrp) (t_tried t)" "t_current t < length (peer g)"
      "found \<longrightarrow> \<not> tried_bit (tried rrp) (t_current t) \<and> rr_alive now (peer g ! t_current t)"
    using rr_loops_result [OF s] by metis
  then have "\<not> found" using assms(5) by auto
  then have "rr_group_get now [g, b] rrp pc' = Some (False, [g\<lparr>peer := t_peers t\<rparr>, b], rrp\<lparr>current := t_current t, tried := t_tried t\<rparr>,
      pc'\<lparr>pc_cached := False, pc_connection := 0, tries := t_tries t\<rparr>)"
    using group_get_several [OF c] t(1) r(1) by simp
  moreover have "rr_clear (t_tried t) (length (peer b)) = None"
    using t(2) len assms(6) by (simp add: rr_clear_def Let_def bits_le_def)
  ultimately show ?thesis
    by (subst ngx_http_upstream_get_round_robin_peer.simps) (simp add: Let_def r(1))
qed

lemma get_next_None:
  "rr_group_get now chain rrp pc = Some (False, c, d, k) \<Longrightarrow> Suc (rrp_peers d) < length c \<Longrightarrow>
     rr_clear (tried d) (length (peer (c ! Suc (rrp_peers d)))) = None \<Longrightarrow>
     ngx_http_upstream_get_round_robin_peer now chain rrp pc = None"
  by (subst ngx_http_upstream_get_round_robin_peer.simps) (simp add: Let_def)

lemma get_next:
  "rr_group_get now chain rrp pc = Some (False, c, d, k) \<Longrightarrow> Suc (rrp_peers d) < length c \<Longrightarrow>
     rr_clear (tried d) (length (peer (c ! Suc (rrp_peers d)))) = Some tr \<Longrightarrow>
     ngx_http_upstream_get_round_robin_peer now chain rrp pc =
       (case ngx_http_upstream_get_round_robin_peer now c (d\<lparr>rrp_peers := Suc (rrp_peers d), tried := tr\<rparr>)
               (k\<lparr>tries := length (peer (c ! Suc (rrp_peers d)))\<rparr>) of
          None \<Rightarrow> None
        | Some (rc, c', d', k') \<Rightarrow>
            if rc \<noteq> NGX_BUSY then Some (rc, c', d', k')
            else Some (NGX_BUSY, rr_live (rrp_peers d) c', d', k'\<lparr>pc_name := peers_name (c' ! rrp_peers d)\<rparr>))"
  by (subst ngx_http_upstream_get_round_robin_peer.simps) (simp add: Let_def split: option.split)

lemma busy_live:
  "ngx_http_upstream_get_round_robin_peer now chain rrp pc = Some (NGX_BUSY, chain', rrp', pc') \<Longrightarrow> rrp_peers rrp < length chain \<Longrightarrow>
     length chain' = length chain \<and> (\<forall>j. rrp_peers rrp \<le> j \<and> j < length chain' \<longrightarrow> (\<forall>p\<in>set (peer (chain' ! j)). fails p = 0))"
proof (induction now chain rrp pc arbitrary: chain' rrp' pc' rule: ngx_http_upstream_get_round_robin_peer.induct)
  case (1 now chain rrp pc)
  obtain ok c d k where g: "rr_group_get now chain rrp pc = Some (ok, c, d, k)"
    using 1(2) get_None [of now chain rrp pc] by (cases "rr_group_get now chain rrp pc") auto
  then have f: "rr_group_get now chain rrp pc = Some (False, c, d, k)" using 1(2) get_ok [of now chain rrp pc c d k] by (cases ok) auto
  have l: "length c = length chain" "rrp_peers d = rrp_peers rrp" using rr_group_get_chain [OF f] by simp_all
  let ?s = "Suc (rrp_peers d)"
  show ?case
  proof (cases "?s < length c")
    case False
    then have "chain' = rr_live (rrp_peers d) c" using get_last [OF f] 1(2) by simp
    then show ?thesis using False l 1(3) by (auto simp: rr_live_def nth_list_update)
  next
    case True
    then obtain tr where tr: "rr_clear (tried d) (length (peer (c ! ?s))) = Some tr"
      using get_next_None [OF f] 1(2) by (cases "rr_clear (tried d) (length (peer (c ! ?s)))") auto
    let ?get = "ngx_http_upstream_get_round_robin_peer now c (d\<lparr>rrp_peers := ?s, tried := tr\<rparr>) (k\<lparr>tries := length (peer (c ! ?s))\<rparr>)"
    obtain c1 d1 k1 where r: "?get = Some (NGX_BUSY, c1, d1, k1)" "chain' = rr_live (rrp_peers d) c1"
      using get_next [OF f True tr] 1(2) by (auto split: option.splits if_splits)
    have IH: "length c1 = length c \<and> (\<forall>j. ?s \<le> j \<and> j < length c1 \<longrightarrow> (\<forall>p\<in>set (peer (c1 ! j)). fails p = 0))"
      using 1(1) [OF f refl refl refl refl refl refl True tr r(1)] True by simp
    show ?thesis
    proof (intro conjI allI impI)
      show "length chain' = length chain" using IH r(2) l by (simp add: rr_live_def)
      fix j assume j: "rrp_peers rrp \<le> j \<and> j < length chain'"
      show "\<forall>p\<in>set (peer (chain' ! j)). fails p = 0"
      proof (cases "j = rrp_peers d")
        case True
        then show ?thesis using j r(2) by (auto simp: rr_live_def)
      next
        case False
        then have h: "?s \<le> j \<and> j < length c1" using j l(2) r(2) by (simp add: rr_live_def)
        have "chain' ! j = c1 ! j" using False r(2) by (simp add: rr_live_def)
        then show ?thesis using IH h by metis
      qed
    qed
  qed
qed

text \<open>
  A refusal gives the servers another chance.  After a call that refuses a request, the failures of all servers of the
  request's group and of the groups behind it are forgotten.
\<close>

theorem rr_busy_forgets:
  assumes "ngx_http_upstream_get_round_robin_peer now chain rrp pc = Some (NGX_BUSY, chain', rrp', pc')" "rrp_peers rrp < length chain"
    and "rrp_peers rrp \<le> j" "j < length chain" "p \<in> set (peer (chain' ! j))"
  shows "fails p = 0"
  using busy_live [OF assms(1,2)] assms(3-5) by simp

subsection \<open>Witnesses\<close>

definition example_servers :: "upstream_server list" where
  "example_servers =
     [\<lparr>us_addrs = [(1, 16, bs ''a'')], us_weight = 1, us_max_fails = 1, us_fail_timeout = 10, us_down = False, us_backup = False\<rparr>,
      \<lparr>us_addrs = [(2, 16, bs ''b'')], us_weight = 2, us_max_fails = 1, us_fail_timeout = 10, us_down = False, us_backup = False\<rparr>]"

definition example_group :: rr_peers where
  "example_group = rr_group False [] [rr_peer_of 2 1 10 False (2, 16, bs ''b''), rr_peer_of 1 1 10 False (1, 16, bs ''a'')]"

definition example_connection :: peer_connection where
  "example_connection = \<lparr>pc_connection = 0, pc_cached = False, pc_sockaddr = 0, pc_socklen = 0, pc_name = [], tries = 0\<rparr>"

lemma example_init: "ngx_http_upstream_init_round_robin True [] example_servers = Some [example_group]"
  by (simp add: ngx_http_upstream_init_round_robin_def rr_primary_def rr_backup_def example_servers_def example_group_def ngx_sort_def
      sort_loop.simps ngx_http_upstream_cmp_servers_def rr_peer_of_def Let_def)

lemma example_simps:
  "peer example_group = [rr_peer_of 2 1 10 False (2, 16, bs ''b''), rr_peer_of 1 1 10 False (1, 16, bs ''a'')]"
  "single example_group = False" "last_cached example_group = 0"
  by (simp_all add: example_group_def rr_group_def)

lemma rr_fair_witness:
  "\<exists>ns g'. rr_requests example_connection [0, 0, 0] [example_group] = Some (ns, [g']) \<and> count_list ns 0 = 2 \<and> count_list ns 1 = 1"
  using rr_fair [OF example_init, of "[0, 0, 0]" 1 example_connection]
  by (auto simp: example_simps rr_peer_of_def example_servers_def All_less_Suc2)

lemma rr_attempts_distinct_witness:
  "\<exists>ns. rr_attempts [(0, 4, example_group), (1, 4, example_group), (2, 0, example_group)]
      (fst (ngx_http_upstream_init_round_robin_peer [example_group] example_connection))
      (snd (ngx_http_upstream_init_round_robin_peer [example_group] example_connection)) = Some ns \<and> distinct ns \<and> length ns \<le> 2"
  using rr_attempts_distinct [of example_group example_connection _ _ "[(0, 4, example_group), (1, 4, example_group), (2, 0, example_group)]", OF prod.collapse [symmetric]]
  by (auto simp: example_simps)

definition down_group :: rr_peers where
  "down_group = rr_group False [] [rr_peer_of 1 1 10 True (2, 16, bs ''b''), (rr_peer_of 1 1 10 False (1, 16, bs ''a''))\<lparr>current_weight := 0\<rparr>]"

lemma down_simps:
  "peer down_group = [rr_peer_of 1 1 10 True (2, 16, bs ''b''), (rr_peer_of 1 1 10 False (1, 16, bs ''a''))\<lparr>current_weight := 0\<rparr>]"
  "single down_group = False" "last_cached down_group = 0"
  by (simp_all add: down_group_def rr_group_def)

lemma rr_down_backup_stuck_witness:
  "\<exists>chain' rrp' pc'. ngx_http_upstream_get_round_robin_peer 0 [example_group, down_group] \<lparr>rrp_peers = 1, current = 0, tried = [0]\<rparr>
      (example_connection\<lparr>tries := 2\<rparr>) = Some (NGX_BUSY, chain', rrp', pc') \<and>
    map current_weight (peer (chain' ! 1)) = [1, 0]"
  using rr_down_backup_stuck [of "[example_group, down_group]" "\<lparr>rrp_peers = 1, current = 0, tried = [0]\<rparr>" down_group "example_connection\<lparr>tries := 2\<rparr>" 0]
  by (auto simp: down_simps rr_several_def rr_peer_of_def)

lemma rr_clear_overrun_witness:
  "ngx_http_upstream_get_round_robin_peer 0 [rr_group False [] [rr_peer_of 0 1 10 True (1, 16, [])], rr_group False [] (replicate 64 (rr_peer_of 1 1 10 False (2, 16, [])))]
      \<lparr>rrp_peers = 0, current = 0, tried = [0]\<rparr> (example_connection\<lparr>tries := 1\<rparr>) = None"
  by (rule rr_clear_overrun [of _ _ example_connection _ _ 0 1])
    (simp_all add: rr_group_def rr_peer_of_def rr_alive_def ngx_http_upstream_init_round_robin_peer_def)

definition failed_group :: rr_peers where
  "failed_group = rr_group False [] [(rr_peer_of 1 1 10 False (2, 16, []))\<lparr>fails := 1\<rparr>, rr_peer_of 0 1 10 True (1, 16, [])]"

lemma failed_busy:
  "ngx_http_upstream_get_round_robin_peer 5 [failed_group] \<lparr>rrp_peers = 0, current = 0, tried = [0]\<rparr> (example_connection\<lparr>tries := 2\<rparr>) =
     Some (NGX_BUSY, [failed_group\<lparr>peer := [(rr_peer_of 1 1 10 False (2, 16, []))\<lparr>current_weight := 0\<rparr>, rr_peer_of 0 1 10 True (1, 16, [])]\<rparr>],
       \<lparr>rrp_peers = 0, current = 0, tried = [0]\<rparr>, example_connection)"
  by code_simp

lemma rr_busy_forgets_witness: "fails ((rr_peer_of 1 1 10 False (2, 16, []))\<lparr>current_weight := 0\<rparr>) = 0"
  using rr_busy_forgets [OF failed_busy, of 0 "(rr_peer_of 1 1 10 False (2, 16, []))\<lparr>current_weight := 0\<rparr>"] by simp

end
