(* ===== verification/Ngx_Rbtree.thy ===== *)
theory Ngx_Rbtree
  imports Ngx_Prelude "HOL-Library.Multiset"
begin

text \<open>
  Red-black trees, \<open>core/ngx_rbtree.c\<close> and \<open>core/ngx_rbtree.h\<close>, over a memory of nodes: insertion with the insertion
  function of the tree, deletion, the rotations and the two loops that restore the balance.

  A memory \<^emph>\<open>holds\<close> a tree when the pointers of its nodes are those of the tree; the sentinel stands for all empty trees.
  The lemmas work on a tree with a hole, the list of frames from the hole to the root, so that each step of a loop is
  local.  The functions for the right side are those for the left seen in a mirror (\<open>mir\<close>), and so are their lemmas.
  What a tree asks of its insertion function is the locale \<open>rbtree_insertion\<close>; any loop that goes down by a weak order
  (\<open>rbtree_order\<close>) meets it.  The loops are partial functions; the theorems show that they end.
\<close>

subsection \<open>Nodes and memory\<close>

type_synonym rb_ptr = nat

text \<open>The member \<open>data\<close> belongs to the user of the tree and is left out.\<close>

record rb_node =
  rb_key :: uint64_t
  rb_left :: rb_ptr
  rb_right :: rb_ptr
  rb_parent :: rb_ptr
  rb_color :: u_char

type_synonym rb_mem = "rb_ptr \<Rightarrow> rb_node"

definition set_left :: "rb_mem \<Rightarrow> rb_ptr \<Rightarrow> rb_ptr \<Rightarrow> rb_mem" where
  "set_left m a v = m(a := (m a)\<lparr>rb_left := v\<rparr>)"

definition set_right :: "rb_mem \<Rightarrow> rb_ptr \<Rightarrow> rb_ptr \<Rightarrow> rb_mem" where
  "set_right m a v = m(a := (m a)\<lparr>rb_right := v\<rparr>)"

definition set_parent :: "rb_mem \<Rightarrow> rb_ptr \<Rightarrow> rb_ptr \<Rightarrow> rb_mem" where
  "set_parent m a v = m(a := (m a)\<lparr>rb_parent := v\<rparr>)"

definition set_color :: "rb_mem \<Rightarrow> rb_ptr \<Rightarrow> u_char \<Rightarrow> rb_mem" where
  "set_color m a v = m(a := (m a)\<lparr>rb_color := v\<rparr>)"

definition ngx_rbt_red :: "rb_mem \<Rightarrow> rb_ptr \<Rightarrow> rb_mem" where
  "ngx_rbt_red m a = set_color m a 1"

definition ngx_rbt_black :: "rb_mem \<Rightarrow> rb_ptr \<Rightarrow> rb_mem" where
  "ngx_rbt_black m a = set_color m a 0"

definition ngx_rbt_is_red :: "rb_mem \<Rightarrow> rb_ptr \<Rightarrow> bool" where
  "ngx_rbt_is_red m a \<longleftrightarrow> rb_color (m a) \<noteq> 0"

definition ngx_rbt_copy_color :: "rb_mem \<Rightarrow> rb_ptr \<Rightarrow> rb_ptr \<Rightarrow> rb_mem" where
  "ngx_rbt_copy_color m a b = set_color m a (rb_color (m b))"

subsection \<open>Rotations\<close>

text \<open>
  The link from above to \<open>node\<close>, from its parent or the root, is made to point to \<open>temp\<close>; the two rotations ask
  for the two sides in a different order.  All return the memory and the root.
\<close>

definition rb_relink_left :: "rb_mem \<Rightarrow> rb_ptr \<Rightarrow> rb_ptr \<Rightarrow> rb_ptr \<Rightarrow> rb_mem \<times> rb_ptr" where
  "rb_relink_left m root node temp =
     (if node = root then (m, temp)
      else if node = rb_left (m (rb_parent (m node))) then (set_left m (rb_parent (m node)) temp, root)
      else (set_right m (rb_parent (m node)) temp, root))"

definition rb_relink_right :: "rb_mem \<Rightarrow> rb_ptr \<Rightarrow> rb_ptr \<Rightarrow> rb_ptr \<Rightarrow> rb_mem \<times> rb_ptr" where
  "rb_relink_right m root node temp =
     (if node = root then (m, temp)
      else if node = rb_right (m (rb_parent (m node))) then (set_right m (rb_parent (m node)) temp, root)
      else (set_left m (rb_parent (m node)) temp, root))"

definition ngx_rbtree_left_rotate :: "rb_mem \<Rightarrow> rb_ptr \<Rightarrow> rb_ptr \<Rightarrow> rb_ptr \<Rightarrow> rb_mem \<times> rb_ptr" where
  "ngx_rbtree_left_rotate m root sentinel node =
     (let temp = rb_right (m node);
          m = set_right m node (rb_left (m temp));
          m = (if rb_left (m temp) \<noteq> sentinel then set_parent m (rb_left (m temp)) node else m);
          m = set_parent m temp (rb_parent (m node));
          (m, root) = rb_relink_left m root node temp;
          m = set_left m temp node;
          m = set_parent m node temp
      in (m, root))"

definition ngx_rbtree_right_rotate :: "rb_mem \<Rightarrow> rb_ptr \<Rightarrow> rb_ptr \<Rightarrow> rb_ptr \<Rightarrow> rb_mem \<times> rb_ptr" where
  "ngx_rbtree_right_rotate m root sentinel node =
     (let temp = rb_left (m node);
          m = set_left m node (rb_right (m temp));
          m = (if rb_right (m temp) \<noteq> sentinel then set_parent m (rb_right (m temp)) node else m);
          m = set_parent m temp (rb_parent (m node));
          (m, root) = rb_relink_right m root node temp;
          m = set_right m temp node;
          m = set_parent m node temp
      in (m, root))"

subsection \<open>Insertion\<close>

text \<open>
  The loop of the insertion functions: down from \<open>temp\<close> to a link to the sentinel; the result is the last
  node and whether the link is its left one.  They differ in the comparison \<open>lt\<close> of two nodes.
\<close>

partial_function (option) rb_walk ::
  "(rb_ptr \<Rightarrow> rb_ptr \<Rightarrow> bool) \<Rightarrow> rb_mem \<Rightarrow> rb_ptr \<Rightarrow> rb_ptr \<Rightarrow> rb_ptr \<Rightarrow> (rb_ptr \<times> bool) option" where
  "rb_walk lt m sentinel node temp =
     (let left = lt node temp;
          p = (if left then rb_left (m temp) else rb_right (m temp))
      in if p = sentinel then Some (temp, left) else rb_walk lt m sentinel node p)"

definition rb_link :: "rb_mem \<Rightarrow> rb_ptr \<Rightarrow> rb_ptr \<Rightarrow> rb_ptr \<times> bool \<Rightarrow> rb_mem" where
  "rb_link m sentinel node w =
     (let m = (if snd w then set_left m (fst w) node else set_right m (fst w) node);
          m = set_parent m node (fst w);
          m = set_left m node sentinel;
          m = set_right m node sentinel
      in ngx_rbt_red m node)"

definition key_less :: "rb_mem \<Rightarrow> rb_ptr \<Rightarrow> rb_ptr \<Rightarrow> bool" where
  "key_less m a b \<longleftrightarrow> rb_key (m a) < rb_key (m b)"

definition ngx_rbtree_insert_value :: "rb_mem \<Rightarrow> rb_ptr \<Rightarrow> rb_ptr \<Rightarrow> rb_ptr \<Rightarrow> rb_mem option" where
  "ngx_rbtree_insert_value m temp node sentinel =
     map_option (rb_link m sentinel node) (rb_walk (key_less m) m sentinel node temp)"

definition timer_less :: "rb_mem \<Rightarrow> rb_ptr \<Rightarrow> rb_ptr \<Rightarrow> bool" where
  "timer_less m a b \<longleftrightarrow> rb_key (m a) - rb_key (m b) <s 0"

definition ngx_rbtree_insert_timer_value :: "rb_mem \<Rightarrow> rb_ptr \<Rightarrow> rb_ptr \<Rightarrow> rb_ptr \<Rightarrow> rb_mem option" where
  "ngx_rbtree_insert_timer_value m temp node sentinel =
     map_option (rb_link m sentinel node) (rb_walk (timer_less m) m sentinel node temp)"

text \<open>The two branches of the loop that restores the balance; the result has the new \<open>node\<close>.\<close>

definition rb_fix_left :: "rb_mem \<Rightarrow> rb_ptr \<Rightarrow> rb_ptr \<Rightarrow> rb_ptr \<Rightarrow> rb_mem \<times> rb_ptr \<times> rb_ptr" where
  "rb_fix_left m root sentinel node =
     (let temp = rb_right (m (rb_parent (m (rb_parent (m node))))) in
      if ngx_rbt_is_red m temp then
        let m = ngx_rbt_black m (rb_parent (m node));
            m = ngx_rbt_black m temp;
            m = ngx_rbt_red m (rb_parent (m (rb_parent (m node))))
        in (m, root, rb_parent (m (rb_parent (m node))))
      else
        let (m, root, node) =
              (if node = rb_right (m (rb_parent (m node)))
               then let node = rb_parent (m node); (m, root) = ngx_rbtree_left_rotate m root sentinel node in (m, root, node)
               else (m, root, node));
            m = ngx_rbt_black m (rb_parent (m node));
            m = ngx_rbt_red m (rb_parent (m (rb_parent (m node))));
            (m, root) = ngx_rbtree_right_rotate m root sentinel (rb_parent (m (rb_parent (m node))))
        in (m, root, node))"

definition rb_fix_right :: "rb_mem \<Rightarrow> rb_ptr \<Rightarrow> rb_ptr \<Rightarrow> rb_ptr \<Rightarrow> rb_mem \<times> rb_ptr \<times> rb_ptr" where
  "rb_fix_right m root sentinel node =
     (let temp = rb_left (m (rb_parent (m (rb_parent (m node))))) in
      if ngx_rbt_is_red m temp then
        let m = ngx_rbt_black m (rb_parent (m node));
            m = ngx_rbt_black m temp;
            m = ngx_rbt_red m (rb_parent (m (rb_parent (m node))))
        in (m, root, rb_parent (m (rb_parent (m node))))
      else
        let (m, root, node) =
              (if node = rb_left (m (rb_parent (m node)))
               then let node = rb_parent (m node); (m, root) = ngx_rbtree_right_rotate m root sentinel node in (m, root, node)
               else (m, root, node));
            m = ngx_rbt_black m (rb_parent (m node));
            m = ngx_rbt_red m (rb_parent (m (rb_parent (m node))));
            (m, root) = ngx_rbtree_left_rotate m root sentinel (rb_parent (m (rb_parent (m node))))
        in (m, root, node))"

partial_function (option) rb_insert_fix :: "rb_mem \<Rightarrow> rb_ptr \<Rightarrow> rb_ptr \<Rightarrow> rb_ptr \<Rightarrow> (rb_mem \<times> rb_ptr) option" where
  "rb_insert_fix m root sentinel node =
     (if node \<noteq> root \<and> ngx_rbt_is_red m (rb_parent (m node)) then
        let (m, root, node) =
              (if rb_parent (m node) = rb_left (m (rb_parent (m (rb_parent (m node)))))
               then rb_fix_left m root sentinel node else rb_fix_right m root sentinel node)
        in rb_insert_fix m root sentinel node
      else Some (m, root))"

text \<open>\<open>insert\<close> is the insertion function of the tree; the result is the memory and the root.\<close>

definition ngx_rbtree_insert ::
  "(rb_mem \<Rightarrow> rb_ptr \<Rightarrow> rb_ptr \<Rightarrow> rb_ptr \<Rightarrow> rb_mem option) \<Rightarrow> rb_mem \<Rightarrow> rb_ptr \<Rightarrow> rb_ptr \<Rightarrow> rb_ptr \<Rightarrow> (rb_mem \<times> rb_ptr) option" where
  "ngx_rbtree_insert ins m root sentinel node =
     (if root = sentinel then
        let m = set_parent m node 0;
            m = set_left m node sentinel;
            m = set_right m node sentinel;
            m = ngx_rbt_black m node
        in Some (m, node)
      else
        case ins m root node sentinel of
          None \<Rightarrow> None
        | Some m \<Rightarrow> map_option (\<lambda>(m, root). (ngx_rbt_black m root, root)) (rb_insert_fix m root sentinel node))"

subsection \<open>Deletion\<close>

partial_function (option) ngx_rbtree_min :: "rb_mem \<Rightarrow> rb_ptr \<Rightarrow> rb_ptr \<Rightarrow> rb_ptr option" where
  "ngx_rbtree_min m node sentinel =
     (if rb_left (m node) \<noteq> sentinel then ngx_rbtree_min m (rb_left (m node)) sentinel else Some node)"

text \<open>The two branches of the loop that restores the balance; the result has the new \<open>temp\<close>.  Each is in two parts: the
  case of a red sibling, and the rest once the sibling is black.\<close>

definition rb_unfix_left_black :: "rb_mem \<Rightarrow> rb_ptr \<Rightarrow> rb_ptr \<Rightarrow> rb_ptr \<Rightarrow> rb_ptr \<Rightarrow> rb_mem \<times> rb_ptr \<times> rb_ptr" where
  "rb_unfix_left_black m root sentinel temp w =
     (if \<not> ngx_rbt_is_red m (rb_left (m w)) \<and> \<not> ngx_rbt_is_red m (rb_right (m w)) then
        (ngx_rbt_red m w, root, rb_parent (m temp))
      else
        let (m, root, w) =
              (if \<not> ngx_rbt_is_red m (rb_right (m w)) then
                 let m = ngx_rbt_black m (rb_left (m w));
                     m = ngx_rbt_red m w;
                     (m, root) = ngx_rbtree_right_rotate m root sentinel w
                 in (m, root, rb_right (m (rb_parent (m temp))))
               else (m, root, w));
            m = ngx_rbt_copy_color m w (rb_parent (m temp));
            m = ngx_rbt_black m (rb_parent (m temp));
            m = ngx_rbt_black m (rb_right (m w));
            (m, root) = ngx_rbtree_left_rotate m root sentinel (rb_parent (m temp))
        in (m, root, root))"

definition rb_unfix_left :: "rb_mem \<Rightarrow> rb_ptr \<Rightarrow> rb_ptr \<Rightarrow> rb_ptr \<Rightarrow> rb_mem \<times> rb_ptr \<times> rb_ptr" where
  "rb_unfix_left m root sentinel temp =
     (let w = rb_right (m (rb_parent (m temp)));
          (m, root, w) =
            (if ngx_rbt_is_red m w then
               let m = ngx_rbt_black m w;
                   m = ngx_rbt_red m (rb_parent (m temp));
                   (m, root) = ngx_rbtree_left_rotate m root sentinel (rb_parent (m temp))
               in (m, root, rb_right (m (rb_parent (m temp))))
             else (m, root, w))
      in rb_unfix_left_black m root sentinel temp w)"

definition rb_unfix_right_black :: "rb_mem \<Rightarrow> rb_ptr \<Rightarrow> rb_ptr \<Rightarrow> rb_ptr \<Rightarrow> rb_ptr \<Rightarrow> rb_mem \<times> rb_ptr \<times> rb_ptr" where
  "rb_unfix_right_black m root sentinel temp w =
     (if \<not> ngx_rbt_is_red m (rb_left (m w)) \<and> \<not> ngx_rbt_is_red m (rb_right (m w)) then
        (ngx_rbt_red m w, root, rb_parent (m temp))
      else
        let (m, root, w) =
              (if \<not> ngx_rbt_is_red m (rb_left (m w)) then
                 let m = ngx_rbt_black m (rb_right (m w));
                     m = ngx_rbt_red m w;
                     (m, root) = ngx_rbtree_left_rotate m root sentinel w
                 in (m, root, rb_left (m (rb_parent (m temp))))
               else (m, root, w));
            m = ngx_rbt_copy_color m w (rb_parent (m temp));
            m = ngx_rbt_black m (rb_parent (m temp));
            m = ngx_rbt_black m (rb_left (m w));
            (m, root) = ngx_rbtree_right_rotate m root sentinel (rb_parent (m temp))
        in (m, root, root))"

definition rb_unfix_right :: "rb_mem \<Rightarrow> rb_ptr \<Rightarrow> rb_ptr \<Rightarrow> rb_ptr \<Rightarrow> rb_mem \<times> rb_ptr \<times> rb_ptr" where
  "rb_unfix_right m root sentinel temp =
     (let w = rb_left (m (rb_parent (m temp)));
          (m, root, w) =
            (if ngx_rbt_is_red m w then
               let m = ngx_rbt_black m w;
                   m = ngx_rbt_red m (rb_parent (m temp));
                   (m, root) = ngx_rbtree_right_rotate m root sentinel (rb_parent (m temp))
               in (m, root, rb_left (m (rb_parent (m temp))))
             else (m, root, w))
      in rb_unfix_right_black m root sentinel temp w)"

partial_function (option) rb_delete_fix :: "rb_mem \<Rightarrow> rb_ptr \<Rightarrow> rb_ptr \<Rightarrow> rb_ptr \<Rightarrow> (rb_mem \<times> rb_ptr) option" where
  "rb_delete_fix m root sentinel temp =
     (if temp \<noteq> root \<and> \<not> ngx_rbt_is_red m temp then
        let (m, root, temp) =
              (if temp = rb_left (m (rb_parent (m temp)))
               then rb_unfix_left m root sentinel temp else rb_unfix_right m root sentinel temp)
        in rb_delete_fix m root sentinel temp
      else Some (ngx_rbt_black m temp, root))"

text \<open>The writes that take \<open>subst\<close> out and put it in the place of \<open>node\<close>.\<close>

definition rb_clean :: "rb_mem \<Rightarrow> rb_ptr \<Rightarrow> rb_mem" where
  "rb_clean m node = m(node := (m node)\<lparr>rb_left := 0, rb_right := 0, rb_parent := 0, rb_key := 0\<rparr>)"

definition rb_unlink :: "rb_mem \<Rightarrow> rb_ptr \<Rightarrow> rb_ptr \<Rightarrow> rb_mem" where
  "rb_unlink m subst temp =
     (if subst = rb_left (m (rb_parent (m subst)))
      then set_left m (rb_parent (m subst)) temp else set_right m (rb_parent (m subst)) temp)"

definition rb_take_place :: "rb_mem \<Rightarrow> rb_ptr \<Rightarrow> rb_ptr \<Rightarrow> rb_ptr \<Rightarrow> rb_ptr \<Rightarrow> rb_mem \<times> rb_ptr" where
  "rb_take_place m root sentinel node subst =
     (let m = set_left m subst (rb_left (m node));
          m = set_right m subst (rb_right (m node));
          m = set_parent m subst (rb_parent (m node));
          m = ngx_rbt_copy_color m subst node;
          (m, root) = rb_relink_left m root node subst;
          m = (if rb_left (m subst) \<noteq> sentinel then set_parent m (rb_left (m subst)) subst else m);
          m = (if rb_right (m subst) \<noteq> sentinel then set_parent m (rb_right (m subst)) subst else m)
      in (m, root))"

definition rb_splice :: "rb_mem \<Rightarrow> rb_ptr \<Rightarrow> rb_ptr \<Rightarrow> rb_ptr \<Rightarrow> rb_ptr \<Rightarrow> rb_ptr \<Rightarrow> rb_mem \<times> rb_ptr" where
  "rb_splice m root sentinel node subst temp =
     (let m = rb_unlink m subst temp in
      if subst = node then (set_parent m temp (rb_parent (m subst)), root)
      else
        let m = (if rb_parent (m subst) = node then set_parent m temp subst else set_parent m temp (rb_parent (m subst)))
        in rb_take_place m root sentinel node subst)"

definition ngx_rbtree_delete :: "rb_mem \<Rightarrow> rb_ptr \<Rightarrow> rb_ptr \<Rightarrow> rb_ptr \<Rightarrow> (rb_mem \<times> rb_ptr) option" where
  "ngx_rbtree_delete m root sentinel node =
     (case (if rb_left (m node) = sentinel then Some (rb_right (m node), node)
            else if rb_right (m node) = sentinel then Some (rb_left (m node), node)
            else map_option (\<lambda>subst. (if rb_left (m subst) \<noteq> sentinel then rb_left (m subst) else rb_right (m subst), subst))
                   (ngx_rbtree_min m (rb_right (m node)) sentinel)) of
        None \<Rightarrow> None
      | Some (temp, subst) \<Rightarrow>
          if subst = root then Some (rb_clean (ngx_rbt_black m temp) node, temp)
          else
            let red = ngx_rbt_is_red m subst;
                (m, root) = rb_splice m root sentinel node subst temp;
                m = rb_clean m node
            in if red then Some (m, root) else rb_delete_fix m root sentinel temp)"

definition ngx_rbtree_init :: "rb_mem \<Rightarrow> rb_ptr \<Rightarrow> rb_mem \<times> rb_ptr" where
  "ngx_rbtree_init m sentinel = (ngx_rbt_black m sentinel, sentinel)"

subsection \<open>Trees in memory\<close>

text \<open>An abstract tree has the addresses of its nodes, and a node is red or not.\<close>

datatype rb_tree = Lf | Nd rb_tree rb_ptr bool rb_tree

fun rb_root :: "rb_ptr \<Rightarrow> rb_tree \<Rightarrow> rb_ptr" where
  "rb_root s Lf = s"
| "rb_root s (Nd l a c r) = a"

fun rb_addrs :: "rb_tree \<Rightarrow> rb_ptr list" where
  "rb_addrs Lf = []"
| "rb_addrs (Nd l a c r) = rb_addrs l @ a # rb_addrs r"

text \<open>The parent pointer of a node is a matter of the node above it; that of the root is never read.\<close>

definition rb_at :: "rb_mem \<Rightarrow> rb_ptr \<Rightarrow> rb_tree \<Rightarrow> rb_ptr \<Rightarrow> bool \<Rightarrow> rb_tree \<Rightarrow> bool" where
  "rb_at m s l a c r \<longleftrightarrow>
     a \<noteq> s \<and> (rb_color (m a) \<noteq> 0) = c \<and> rb_left (m a) = rb_root s l \<and> rb_right (m a) = rb_root s r \<and>
     (l \<noteq> Lf \<longrightarrow> rb_parent (m (rb_root s l)) = a) \<and> (r \<noteq> Lf \<longrightarrow> rb_parent (m (rb_root s r)) = a)"

fun rb_rep :: "rb_mem \<Rightarrow> rb_ptr \<Rightarrow> rb_tree \<Rightarrow> bool" where
  "rb_rep m s Lf \<longleftrightarrow> True"
| "rb_rep m s (Nd l a c r) \<longleftrightarrow> rb_at m s l a c r \<and> rb_rep m s l \<and> rb_rep m s r"

definition rb_holds :: "rb_mem \<Rightarrow> rb_ptr \<Rightarrow> rb_ptr \<Rightarrow> rb_tree \<Rightarrow> bool" where
  "rb_holds m s root t \<longleftrightarrow>
     rb_rep m s t \<and> root = rb_root s t \<and> distinct (rb_addrs t) \<and> s \<notin> set (rb_addrs t) \<and> rb_color (m s) = 0"

text \<open>A tree with a hole: the way from the hole up to the root.\<close>

datatype rb_frame = FL rb_ptr bool rb_tree | FR rb_tree rb_ptr bool

fun rb_fill :: "rb_frame list \<Rightarrow> rb_tree \<Rightarrow> rb_tree" where
  "rb_fill [] t = t"
| "rb_fill (FL a c r # k) t = rb_fill k (Nd t a c r)"
| "rb_fill (FR l a c # k) t = rb_fill k (Nd l a c t)"

fun rb_caddrs :: "rb_frame list \<Rightarrow> rb_ptr list" where
  "rb_caddrs [] = []"
| "rb_caddrs (FL a c r # k) = a # rb_addrs r @ rb_caddrs k"
| "rb_caddrs (FR l a c # k) = a # rb_addrs l @ rb_caddrs k"

fun rb_crep :: "rb_mem \<Rightarrow> rb_ptr \<Rightarrow> rb_frame list \<Rightarrow> rb_tree \<Rightarrow> bool" where
  "rb_crep m s [] t \<longleftrightarrow> True"
| "rb_crep m s (FL a c r # k) t \<longleftrightarrow> rb_at m s t a c r \<and> rb_rep m s r \<and> rb_crep m s k (Nd t a c r)"
| "rb_crep m s (FR l a c # k) t \<longleftrightarrow> rb_at m s l a c t \<and> rb_rep m s l \<and> rb_crep m s k (Nd l a c t)"

lemma rb_fill_append [simp]: "rb_fill (k @ k') t = rb_fill k' (rb_fill k t)"
  by (induction k t rule: rb_fill.induct) auto

lemma rb_fill_not_Lf [simp]: "t \<noteq> Lf \<Longrightarrow> rb_fill k t \<noteq> Lf"
  by (induction k t rule: rb_fill.induct) auto

lemma rb_rep_fill: "rb_rep m s (rb_fill k t) \<longleftrightarrow> rb_rep m s t \<and> rb_crep m s k t"
  by (induction k t rule: rb_fill.induct) auto

lemma rb_mset_fill: "mset (rb_addrs (rb_fill k t)) = mset (rb_caddrs k) + mset (rb_addrs t)"
  by (induction k t rule: rb_fill.induct) auto

lemma rb_set_fill: "set (rb_addrs (rb_fill k t)) = set (rb_caddrs k) \<union> set (rb_addrs t)"
  by (metis rb_mset_fill set_mset_mset set_mset_union)

lemma rb_distinct_fill:
  "distinct (rb_addrs (rb_fill k t)) \<longleftrightarrow> distinct (rb_caddrs k) \<and> distinct (rb_addrs t) \<and> set (rb_caddrs k) \<inter> set (rb_addrs t) = {}"
proof -
  have "distinct (rb_addrs (rb_fill k t)) \<longleftrightarrow> distinct (rb_caddrs k @ rb_addrs t)"
    by (rule mset_eq_imp_distinct_iff) (simp add: rb_mset_fill)
  then show ?thesis by auto
qed

lemma rb_root_in [simp]: "t \<noteq> Lf \<Longrightarrow> rb_root s t \<in> set (rb_addrs t)"
  by (cases t) auto

lemma rb_root_fill_head: "k \<noteq> [] \<Longrightarrow> rb_root s (rb_fill k t) \<in> set (rb_caddrs k)"
proof (induction k arbitrary: t)
  case (Cons f k)
  then show ?case by (cases f; cases "k = []") auto
qed simp

lemma rb_root_fill_cong: "rb_root s t = rb_root s t' \<Longrightarrow> rb_root s (rb_fill k t) = rb_root s (rb_fill k t')"
proof (induction k arbitrary: t t')
  case (Cons f k)
  show ?case by (cases f) (auto intro: Cons.IH)
qed simp

lemma rb_root_fill_other: "k \<noteq> [] \<Longrightarrow> rb_root s (rb_fill k t) = rb_root s (rb_fill k t')"
proof (induction k arbitrary: t t')
  case (Cons f k)
  show ?case by (cases f) (auto intro: rb_root_fill_cong)
qed simp

lemma rb_crep_hole: "rb_root s t = rb_root s t' \<Longrightarrow> (t = Lf) = (t' = Lf) \<Longrightarrow> rb_crep m s k t = rb_crep m s k t'"
proof (induction k arbitrary: t t')
  case (Cons f k)
  have at: "rb_at m s t a c r = rb_at m s t' a c r" "rb_at m s l a c t = rb_at m s l a c t'" for l a c r
    using Cons.prems by (simp_all add: rb_at_def)
  have "rb_crep m s k (Nd t a c r) = rb_crep m s k (Nd t' a c r)" "rb_crep m s k (Nd l a c t) = rb_crep m s k (Nd l a c t')" for l a c r
    by (rule Cons.IH; simp)+
  then show ?case by (cases f) (simp_all add: at)
qed simp

subsection \<open>Frames\<close>

definition rb_same :: "rb_mem \<Rightarrow> rb_mem \<Rightarrow> rb_ptr \<Rightarrow> bool" where
  "rb_same m m' x \<longleftrightarrow> rb_left (m' x) = rb_left (m x) \<and> rb_right (m' x) = rb_right (m x) \<and> rb_color (m' x) = rb_color (m x)"

lemma rb_rep_frame:
  assumes "rb_rep m s t" "distinct (rb_addrs t)" "\<forall>x\<in>set (rb_addrs t). rb_same m m' x"
    and "\<forall>x\<in>set (rb_addrs t). x \<noteq> rb_root s t \<longrightarrow> rb_parent (m' x) = rb_parent (m x)"
  shows "rb_rep m' s t"
  using assms
proof (induction t)
  case (Nd l a c r)
  have p: "l \<noteq> Lf \<Longrightarrow> rb_root s l \<noteq> a" "r \<noteq> Lf \<Longrightarrow> rb_root s r \<noteq> a"
    using Nd.prems(2) rb_root_in by (metis Un_iff disjoint_iff distinct.simps(2) distinct_append list.set_intros(1) rb_addrs.simps(2))+
  have "rb_at m' s l a c r" using Nd.prems p by (auto simp: rb_at_def rb_same_def)
  moreover have "rb_rep m' s l" by (rule Nd.IH(1)) (use Nd.prems in auto)
  moreover have "rb_rep m' s r" by (rule Nd.IH(2)) (use Nd.prems in auto)
  ultimately show ?case by simp
qed simp

lemma rb_crep_frame:
  assumes "rb_crep m s k t" "distinct (rb_caddrs k)" "\<forall>x\<in>set (rb_caddrs k). rb_same m m' x \<and> rb_parent (m' x) = rb_parent (m x)"
    and "t \<noteq> Lf \<longrightarrow> rb_parent (m' (rb_root s t)) = rb_parent (m (rb_root s t))"
  shows "rb_crep m' s k t"
  using assms
proof (induction k arbitrary: t)
  case (Cons f k)
  show ?case
  proof (cases f)
    case (FL a c r)
    have "rb_rep m' s r" by (rule rb_rep_frame [of m]) (use Cons.prems FL in auto)
    moreover have "rb_at m' s t a c r" using Cons.prems FL by (auto simp: rb_at_def rb_same_def)
    moreover have "rb_crep m' s k (Nd t a c r)" by (rule Cons.IH) (use Cons.prems FL in auto)
    ultimately show ?thesis using FL by simp
  next
    case (FR l a c)
    have "rb_rep m' s l" by (rule rb_rep_frame [of m]) (use Cons.prems FR in auto)
    moreover have "rb_at m' s l a c t" using Cons.prems FR by (auto simp: rb_at_def rb_same_def)
    moreover have "rb_crep m' s k (Nd l a c t)" by (rule Cons.IH) (use Cons.prems FR in auto)
    ultimately show ?thesis using FR by simp
  qed
qed simp

lemma set_simps [simp]:
  "rb_left (set_left m a v x) = (if x = a then v else rb_left (m x))" "rb_right (set_left m a v x) = rb_right (m x)"
  "rb_parent (set_left m a v x) = rb_parent (m x)" "rb_color (set_left m a v x) = rb_color (m x)" "rb_key (set_left m a v x) = rb_key (m x)"
  "rb_right (set_right m a v x) = (if x = a then v else rb_right (m x))" "rb_left (set_right m a v x) = rb_left (m x)"
  "rb_parent (set_right m a v x) = rb_parent (m x)" "rb_color (set_right m a v x) = rb_color (m x)" "rb_key (set_right m a v x) = rb_key (m x)"
  "rb_parent (set_parent m a v x) = (if x = a then v else rb_parent (m x))" "rb_left (set_parent m a v x) = rb_left (m x)"
  "rb_right (set_parent m a v x) = rb_right (m x)" "rb_color (set_parent m a v x) = rb_color (m x)" "rb_key (set_parent m a v x) = rb_key (m x)"
  "rb_color (set_color m a w x) = (if x = a then w else rb_color (m x))" "rb_left (set_color m a w x) = rb_left (m x)"
  "rb_right (set_color m a w x) = rb_right (m x)" "rb_parent (set_color m a w x) = rb_parent (m x)" "rb_key (set_color m a w x) = rb_key (m x)"
  by (simp_all add: set_left_def set_right_def set_parent_def set_color_def)

subsection \<open>Reading\<close>

lemma rb_holds_at:
  assumes "rb_holds m s root (rb_fill k (Nd l a c r))"
  shows "rb_left (m a) = rb_root s l" "rb_right (m a) = rb_root s r" "(rb_color (m a) \<noteq> 0) = c" "a \<noteq> s"
  using assms by (auto simp: rb_holds_def rb_rep_fill rb_at_def)

lemma rb_holds_parent:
  "rb_holds m s root (rb_fill (FL p c' r' # k) (Nd l a c r)) \<Longrightarrow> rb_parent (m a) = p"
  "rb_holds m s root (rb_fill (FR l' p c' # k) (Nd l a c r)) \<Longrightarrow> rb_parent (m a) = p"
  by (auto simp: rb_holds_def rb_rep_fill rb_at_def)

lemma rb_holds_root:
  assumes "rb_holds m s root (rb_fill k (Nd l a c r))"
  shows "a = root \<longleftrightarrow> k = []"
proof -
  have "k \<noteq> [] \<Longrightarrow> root \<in> set (rb_caddrs k)" using assms rb_root_fill_head [of k s] by (simp add: rb_holds_def)
  then show ?thesis using assms by (auto simp: rb_holds_def rb_distinct_fill)
qed

lemma rb_holds_sentinel: "rb_holds m s root t \<Longrightarrow> rb_color (m s) = 0"
  by (simp add: rb_holds_def)

subsection \<open>Colours\<close>

lemma rb_holds_color:
  assumes "rb_holds m s root (rb_fill k (Nd l a c r))"
  shows "rb_holds (set_color m a v) s root (rb_fill k (Nd l a (v \<noteq> 0) r))"
proof -
  let ?m = "set_color m a v"
  have h: "rb_at m s l a c r" "rb_rep m s l" "rb_rep m s r" "rb_crep m s k (Nd l a c r)"
    "distinct (rb_caddrs k)" "distinct (rb_addrs l)" "distinct (rb_addrs r)" "a \<notin> set (rb_addrs l)" "a \<notin> set (rb_addrs r)" "a \<notin> set (rb_caddrs k)" "a \<noteq> s"
    using assms by (auto simp: rb_holds_def rb_rep_fill rb_distinct_fill rb_at_def)
  have "rb_rep ?m s l" by (rule rb_rep_frame [OF h(2,6)]) (use h(8) in \<open>auto simp: rb_same_def\<close>)
  moreover have "rb_rep ?m s r" by (rule rb_rep_frame [OF h(3,7)]) (use h(9) in \<open>auto simp: rb_same_def\<close>)
  moreover have "rb_crep ?m s k (Nd l a c r)" by (rule rb_crep_frame [OF h(4,5)]) (use h(10) in \<open>auto simp: rb_same_def\<close>)
  moreover have "rb_at ?m s l a (v \<noteq> 0) r" using h(1) by (simp add: rb_at_def)
  ultimately have "rb_rep ?m s (rb_fill k (Nd l a (v \<noteq> 0) r))"
    using rb_crep_hole [of s "Nd l a c r" "Nd l a (v \<noteq> 0) r" ?m k] by (simp add: rb_rep_fill)
  then show ?thesis
    using assms rb_root_fill_cong [of s "Nd l a c r" "Nd l a (v \<noteq> 0) r" k] by (simp add: rb_holds_def rb_distinct_fill rb_set_fill)
qed

subsection \<open>Links from above\<close>

lemma rb_root_neq: "v \<notin> set (rb_addrs t) \<Longrightarrow> v \<noteq> s \<Longrightarrow> rb_root s t \<noteq> v"
  by (cases t) auto

lemma rb_root_sentinel: "s \<notin> set (rb_addrs t) \<Longrightarrow> rb_root s t = s \<longleftrightarrow> t = Lf"
  by (cases t) auto

lemma rb_relink_fields:
  assumes "rb_relink_left m root x y = (m', root')"
  shows "rb_parent (m' a) = rb_parent (m a)" "rb_color (m' a) = rb_color (m a)" "rb_key (m' a) = rb_key (m a)"
    "a \<noteq> rb_parent (m x) \<Longrightarrow> m' a = m a"
  using assms by (auto simp: rb_relink_left_def set_left_def set_right_def split: if_splits)

lemma rb_relink:
  assumes "rb_crep m s k t" "t \<noteq> Lf" "distinct (rb_caddrs k)" "rb_root s t \<notin> set (rb_caddrs k)" "rb_root s t \<noteq> s"
    and "rb_root s t = root \<longleftrightarrow> k = []" "t' \<noteq> Lf \<longrightarrow> rb_parent (m (rb_root s t')) = rb_parent (m (rb_root s t))"
    and "rb_relink_left m root (rb_root s t) (rb_root s t') = (m', root')"
  shows "rb_crep m' s k t'" "root' = (if k = [] then rb_root s t' else root)" "a \<notin> set (rb_caddrs k) \<Longrightarrow> m' a = m a"
proof -
  let ?x = "rb_root s t" and ?y = "rb_root s t'"
  have "rb_crep m' s k t' \<and> root' = (if k = [] then ?y else root) \<and> (a \<notin> set (rb_caddrs k) \<longrightarrow> m' a = m a)" for a
  proof (cases k)
    case Nil
    then show ?thesis using assms(6,8) by (simp add: rb_relink_left_def)
  next
    case (Cons f k')
    then have nr: "?x \<noteq> root" using assms(6) by simp
    show ?thesis
    proof (cases f)
      case (FL p c r)
      then have h: "rb_at m s t p c r" "rb_rep m s r" "rb_crep m s k' (Nd t p c r)" "distinct (rb_addrs r)" "distinct (rb_caddrs k')"
          "p \<notin> set (rb_addrs r)" "p \<notin> set (rb_caddrs k')"
        using assms(1,3) Cons by auto
      have p: "rb_parent (m ?x) = p" "rb_left (m p) = ?x" using h(1) assms(2) by (simp_all add: rb_at_def)
      then have m': "m' = set_left m p ?y" "root' = root" using assms(8) nr by (auto simp: rb_relink_left_def)
      have "rb_at m' s t' p c r" using h(1) assms(7) p m' by (auto simp: rb_at_def)
      moreover have "rb_rep m' s r" by (rule rb_rep_frame [OF h(2,4)]) (use h(6) m' in \<open>auto simp: rb_same_def\<close>)
      moreover have "rb_crep m' s k' (Nd t p c r)" by (rule rb_crep_frame [OF h(3,5)]) (use h(7) m' in \<open>auto simp: rb_same_def\<close>)
      then have "rb_crep m' s k' (Nd t' p c r)" using rb_crep_hole [of s "Nd t p c r" "Nd t' p c r"] by simp
      ultimately show ?thesis using Cons FL m' by (auto simp: set_left_def)
    next
      case (FR l p c)
      then have h: "rb_at m s l p c t" "rb_rep m s l" "rb_crep m s k' (Nd l p c t)" "distinct (rb_addrs l)" "distinct (rb_caddrs k')"
          "p \<notin> set (rb_addrs l)" "p \<notin> set (rb_caddrs k')" "?x \<notin> set (rb_addrs l)"
        using assms(1,3,4) Cons by auto
      have p: "rb_parent (m ?x) = p" using h(1) assms(2) by (simp add: rb_at_def)
      have "rb_left (m p) = rb_root s l" using h(1) by (simp add: rb_at_def)
      then have "rb_left (m p) \<noteq> ?x" using rb_root_neq [OF h(8) assms(5)] by simp
      then have m': "m' = set_right m p ?y" "root' = root" using assms(8) nr p by (auto simp: rb_relink_left_def)
      have "rb_at m' s l p c t'" using h(1) assms(7) p m' by (auto simp: rb_at_def)
      moreover have "rb_rep m' s l" by (rule rb_rep_frame [OF h(2,4)]) (use h(6) m' in \<open>auto simp: rb_same_def\<close>)
      moreover have "rb_crep m' s k' (Nd l p c t)" by (rule rb_crep_frame [OF h(3,5)]) (use h(7) m' in \<open>auto simp: rb_same_def\<close>)
      then have "rb_crep m' s k' (Nd l p c t')" using rb_crep_hole [of s "Nd l p c t" "Nd l p c t'"] by simp
      ultimately show ?thesis using Cons FR m' by (auto simp: set_right_def)
    qed
  qed
  then show "rb_crep m' s k t'" "root' = (if k = [] then rb_root s t' else root)" "a \<notin> set (rb_caddrs k) \<Longrightarrow> m' a = m a" by blast+
qed

subsection \<open>Rotations\<close>

text \<open>What a rotation leaves as it is.\<close>

definition rb_kept :: "rb_mem \<Rightarrow> rb_ptr \<Rightarrow> rb_mem \<Rightarrow> bool" where
  "rb_kept m s m' \<longleftrightarrow> (\<forall>a. rb_key (m' a) = rb_key (m a)) \<and> rb_parent (m' s) = rb_parent (m s)"

lemma rb_kept_refl [simp]: "rb_kept m s m"
  by (simp add: rb_kept_def)

lemma rb_kept_trans: "rb_kept m s m' \<Longrightarrow> rb_kept m' s m'' \<Longrightarrow> rb_kept m s m''"
  by (simp add: rb_kept_def)

lemma rb_kept_color [simp]: "rb_kept m s (set_color m a v)"
  by (simp add: rb_kept_def)

lemma rb_left_rotate:
  assumes "rb_holds m s root (rb_fill k (Nd A x c (Nd B y d E)))"
  obtains m' root' where "ngx_rbtree_left_rotate m root s x = (m', root')"
    "rb_holds m' s root' (rb_fill k (Nd (Nd A x c B) y d E))" "rb_kept m s m'"
proof -
  let ?t = "Nd A x c (Nd B y d E)" and ?t' = "Nd (Nd A x c B) y d E"
  have h: "rb_at m s A x c (Nd B y d E)" "rb_at m s B y d E" "rb_rep m s A" "rb_rep m s B" "rb_rep m s E" "rb_crep m s k ?t"
    using assms by (auto simp: rb_holds_def rb_rep_fill)
  have dist: "distinct (rb_addrs A)" "distinct (rb_addrs B)" "distinct (rb_addrs E)" "x \<notin> set (rb_addrs A)" "x \<notin> set (rb_addrs B)"
      "x \<notin> set (rb_addrs E)" "y \<notin> set (rb_addrs A)" "y \<notin> set (rb_addrs B)" "y \<notin> set (rb_addrs E)" "x \<noteq> y"
      "distinct (rb_caddrs k)" "set (rb_caddrs k) \<inter> (set (rb_addrs A) \<union> set (rb_addrs B) \<union> set (rb_addrs E) \<union> {x, y, s}) = {}"
      "set (rb_addrs A) \<inter> set (rb_addrs B) = {}" "set (rb_addrs A) \<inter> set (rb_addrs E) = {}" "set (rb_addrs B) \<inter> set (rb_addrs E) = {}"
      "s \<notin> set (rb_addrs A)" "s \<notin> set (rb_addrs B)" "s \<notin> set (rb_addrs E)" "x \<noteq> s" "y \<noteq> s"
    using assms by (auto simp: rb_holds_def rb_distinct_fill rb_set_fill)
  let ?b = "rb_root s B"
  have b: "B \<noteq> Lf \<Longrightarrow> ?b \<in> set (rb_addrs B)" by simp
  have r: "rb_right (m x) = y" "rb_left (m y) = ?b" "B = Lf \<longleftrightarrow> ?b = s"
    using h(1,2) rb_root_sentinel [OF dist(17)] by (simp_all add: rb_at_def)
  let ?m1 = "set_right m x ?b"
  let ?m2 = "if ?b \<noteq> s then set_parent ?m1 ?b x else ?m1"
  let ?m3 = "set_parent ?m2 y (rb_parent (?m2 x))"
  have bx: "?b \<noteq> x" "?b \<noteq> y" using b dist(5,8,19,20) by (cases "B = Lf"; auto)+
  have px: "rb_parent (?m2 x) = rb_parent (m x)" using bx by auto
  obtain m4 root' where m4: "rb_relink_left ?m3 root x y = (m4, root')" by fastforce
  define m' where "m' = set_parent (set_left m4 y x) x y"
  have rot: "ngx_rbtree_left_rotate m root s x = (m', root')"
    unfolding ngx_rbtree_left_rotate_def Let_def r(1) set_simps r(2) using m4 by (simp add: m'_def)
  have bc: "?b \<noteq> s \<Longrightarrow> ?b \<notin> set (rb_caddrs k)" using b r(3) dist(12) by auto
  have c3: "rb_crep ?m3 s k ?t"
    by (rule rb_crep_frame [OF h(6) dist(11)]) (use dist(12) bc bx dist(10) in \<open>auto simp: rb_same_def\<close>)
  have rl: "rb_crep m4 s k ?t'" "root' = (if k = [] then y else root)" "\<And>a. a \<notin> set (rb_caddrs k) \<Longrightarrow> m4 a = ?m3 a"
    using rb_relink [OF c3, of root ?t' m4 root'] m4 dist(10-12,19) rb_holds_root [OF assms] px by auto
  have rf: "rb_parent (m4 a) = rb_parent (?m3 a)" "rb_color (m4 a) = rb_color (m a)" "rb_key (m4 a) = rb_key (m a)" for a
    using rb_relink_fields [OF m4, of a] by auto
  have key: "rb_key (m' a) = rb_key (m a)" for a using rf(3) [of a] by (simp add: m'_def)
  have cr: "rb_crep m' s k ?t'" unfolding m'_def
    by (rule rb_crep_frame [OF rl(1) dist(11)]) (use dist(10,12) in \<open>auto simp: rb_same_def\<close>)
  have f: "rb_left (m' a) = (if a = y then x else rb_left (m a))" "rb_right (m' a) = (if a = x then ?b else rb_right (m a))"
      "rb_color (m' a) = rb_color (m a)"
      "rb_parent (m' a) = (if a = x then y else if a = y then rb_parent (m x) else if a = ?b \<and> ?b \<noteq> s then x else rb_parent (m a))"
    if "a \<notin> set (rb_caddrs k)" for a
    using rl(3) [OF that] px unfolding m'_def by auto
  have out: "\<And>a. a \<in> set (rb_addrs A) \<Longrightarrow> a \<notin> set (rb_caddrs k)" "\<And>a. a \<in> set (rb_addrs B) \<Longrightarrow> a \<notin> set (rb_caddrs k)"
      "\<And>a. a \<in> set (rb_addrs E) \<Longrightarrow> a \<notin> set (rb_caddrs k)" "x \<notin> set (rb_caddrs k)" "y \<notin> set (rb_caddrs k)" "s \<notin> set (rb_caddrs k)"
    using dist(12) by auto
  have bA: "?b \<noteq> s \<Longrightarrow> ?b \<notin> set (rb_addrs A)" "?b \<noteq> s \<Longrightarrow> ?b \<notin> set (rb_addrs E)"
    using b r(3) dist(13,15) by blast+
  have A: "rb_rep m' s A"
    by (rule rb_rep_frame [OF h(3) dist(1)]; use dist(4,7) bA out in \<open>auto simp: rb_same_def f\<close>)
  have E: "rb_rep m' s E"
    by (rule rb_rep_frame [OF h(5) dist(3)]; use dist(6,9) bA out in \<open>auto simp: rb_same_def f\<close>)
  have B: "rb_rep m' s B"
    by (rule rb_rep_frame [OF h(4) dist(2)]; use dist(5,8) out in \<open>auto simp: rb_same_def f\<close>)
  have ne: "rb_root s A \<noteq> x" "rb_root s A \<noteq> y" "rb_root s E \<noteq> x" "rb_root s E \<noteq> y"
    using dist(4,6,7,9,19,20) rb_root_neq by auto
  have nb: "A \<noteq> Lf \<Longrightarrow> rb_root s A \<noteq> ?b" "E \<noteq> Lf \<Longrightarrow> rb_root s E \<noteq> ?b"
    using dist(16,18) bA rb_root_in [of A s] rb_root_in [of E s] by metis+
  have at: "rb_at m' s A x c B" "rb_at m' s (Nd A x c B) y d E"
    using h(1,2) bx ne nb r(3) out b dist(10) rb_root_in [of A s] rb_root_in [of E s] by (auto simp: rb_at_def f)
  have "rb_rep m' s (rb_fill k ?t')" using A B E at cr by (simp add: rb_rep_fill)
  moreover have "root' = rb_root s (rb_fill k ?t')"
    using rl(2) assms rb_root_fill_other [of k s ?t ?t'] by (auto simp: rb_holds_def)
  ultimately have "rb_holds m' s root' (rb_fill k ?t')"
    using assms f(3) [of s] out by (auto simp: rb_holds_def rb_distinct_fill rb_set_fill)
  moreover have "rb_kept m s m'"
    using key f(4) [of s] out dist(19,20) r(3) b by (auto simp: rb_kept_def)
  ultimately show thesis using that [OF rot] by blast
qed


subsection \<open>Left and right\<close>

text \<open>The memory with the two sides exchanged: each function for one side is the function for the other seen in a mirror.\<close>

definition mir :: "rb_mem \<Rightarrow> rb_mem" where
  "mir m a = (m a)\<lparr>rb_left := rb_right (m a), rb_right := rb_left (m a)\<rparr>"

fun mir_tree :: "rb_tree \<Rightarrow> rb_tree" where
  "mir_tree Lf = Lf"
| "mir_tree (Nd l a c r) = Nd (mir_tree r) a c (mir_tree l)"

fun mir_frame :: "rb_frame \<Rightarrow> rb_frame" where
  "mir_frame (FL a c r) = FR (mir_tree r) a c"
| "mir_frame (FR l a c) = FL a c (mir_tree l)"

lemma mir_fields [simp]:
  "rb_left (mir m a) = rb_right (m a)" "rb_right (mir m a) = rb_left (m a)" "rb_parent (mir m a) = rb_parent (m a)"
  "rb_color (mir m a) = rb_color (m a)" "rb_key (mir m a) = rb_key (m a)"
  by (simp_all add: mir_def)

lemma mir_mir [simp]: "mir (mir m) = m" "mir_tree (mir_tree t) = t"
  by (simp add: mir_def fun_eq_iff) (induction t, simp_all)

lemma mir_frame_frame [simp]: "mir_frame (mir_frame f) = f"
  by (cases f) simp_all

lemma mir_map: "map mir_frame (map mir_frame k) = k"
  by (induction k) simp_all

lemma mir_set [simp]:
  "set_left (mir m) a v = mir (set_right m a v)" "set_right (mir m) a v = mir (set_left m a v)"
  "set_parent (mir m) a v = mir (set_parent m a v)" "set_color (mir m) a w = mir (set_color m a w)"
  by (simp_all add: set_left_def set_right_def set_parent_def set_color_def mir_def fun_eq_iff)

lemma mir_color [simp]:
  "ngx_rbt_red (mir m) a = mir (ngx_rbt_red m a)" "ngx_rbt_black (mir m) a = mir (ngx_rbt_black m a)"
  "ngx_rbt_is_red (mir m) a = ngx_rbt_is_red m a" "ngx_rbt_copy_color (mir m) a b = mir (ngx_rbt_copy_color m a b)"
  by (simp_all add: ngx_rbt_red_def ngx_rbt_black_def ngx_rbt_is_red_def ngx_rbt_copy_color_def)

lemma mir_root [simp]: "rb_root s (mir_tree t) = rb_root s t"
  by (cases t) auto

lemma mir_Lf [simp]: "mir_tree t = Lf \<longleftrightarrow> t = Lf"
  by (cases t) auto

lemma mir_addrs [simp]: "rb_addrs (mir_tree t) = rev (rb_addrs t)"
  by (induction t) auto

lemma mir_rep [simp]: "rb_rep (mir m) s (mir_tree t) = rb_rep m s t"
  by (induction t) (auto simp: rb_at_def)

lemma mir_holds [simp]: "rb_holds (mir m) s root (mir_tree t) = rb_holds m s root t"
  by (simp add: rb_holds_def)

lemma mir_fill [simp]: "mir_tree (rb_fill k t) = rb_fill (map mir_frame k) (mir_tree t)"
  by (induction k t rule: rb_fill.induct) simp_all

lemma mir_kept [simp]: "rb_kept (mir m) s (mir m') = rb_kept m s m'"
  by (simp add: rb_kept_def)

definition mir1 :: "rb_mem \<times> 'a \<Rightarrow> rb_mem \<times> 'a" where
  "mir1 = map_prod mir id"

lemma mir1_simps [simp]: "mir1 (m, x) = (mir m, x)" "fst (mir1 p) = mir (fst p)" "snd (mir1 p) = snd p"
  by (simp_all add: mir1_def)

lemma mir_relink: "rb_relink_right (mir m) root x y = mir1 (rb_relink_left m root x y)"
  by (simp add: rb_relink_left_def rb_relink_right_def)

lemma mir_right_rotate: "ngx_rbtree_right_rotate (mir m) root s x = mir1 (ngx_rbtree_left_rotate m root s x)"
  by (cases "rb_left (m (rb_right (m x))) = s")
    (simp_all add: ngx_rbtree_right_rotate_def ngx_rbtree_left_rotate_def mir_relink Let_def case_prod_beta)

lemma mir_left_rotate: "ngx_rbtree_left_rotate (mir m) root s x = mir1 (ngx_rbtree_right_rotate m root s x)"
  using mir_right_rotate [of "mir m" root s x] by (cases "ngx_rbtree_left_rotate (mir m) root s x") simp

lemma rb_right_rotate:
  assumes "rb_holds m s root (rb_fill k (Nd (Nd A y d B) x c E))"
  obtains m' root' where "ngx_rbtree_right_rotate m root s x = (m', root')"
    "rb_holds m' s root' (rb_fill k (Nd A y d (Nd B x c E)))" "rb_kept m s m'"
proof -
  have "rb_holds (mir m) s root (rb_fill (map mir_frame k) (Nd (mir_tree E) x c (Nd (mir_tree B) y d (mir_tree A))))"
    using assms mir_holds [of m s root "rb_fill k (Nd (Nd A y d B) x c E)"] by (simp only: mir_fill mir_tree.simps)
  then obtain m' root' where r: "ngx_rbtree_left_rotate (mir m) root s x = (m', root')"
    "rb_holds m' s root' (rb_fill (map mir_frame k) (Nd (Nd (mir_tree E) x c (mir_tree B)) y d (mir_tree A)))" "rb_kept (mir m) s m'"
    by (rule rb_left_rotate)
  have "rb_holds (mir m') s root' (rb_fill k (Nd A y d (Nd B x c E)))"
    using r(2) mir_holds [of m' s root' "rb_fill (map mir_frame k) (Nd (Nd (mir_tree E) x c (mir_tree B)) y d (mir_tree A))"]
    by (simp only: mir_fill mir_tree.simps mir_mir mir_map)
  moreover have "ngx_rbtree_right_rotate m root s x = (mir m', root')"
    using r(1) mir_right_rotate [of "mir m" root s x] by simp
  moreover have "rb_kept m s (mir m')" using r(3) by (metis mir_kept mir_mir(1))
  ultimately show thesis using that by blast
qed

subsection \<open>Balance\<close>

fun rb_red :: "rb_tree \<Rightarrow> bool" where
  "rb_red Lf = False"
| "rb_red (Nd l a c r) = c"

fun rb_blacken :: "rb_tree \<Rightarrow> rb_tree" where
  "rb_blacken Lf = Lf"
| "rb_blacken (Nd l a c r) = Nd l a False r"

text \<open>No red node has a red child, and every way down has \<open>n\<close> black nodes.\<close>

fun rb_bal :: "nat \<Rightarrow> rb_tree \<Rightarrow> bool" where
  "rb_bal n Lf \<longleftrightarrow> n = 0"
| "rb_bal n (Nd l a True r) \<longleftrightarrow> \<not> rb_red l \<and> \<not> rb_red r \<and> rb_bal n l \<and> rb_bal n r"
| "rb_bal 0 (Nd l a False r) \<longleftrightarrow> False"
| "rb_bal (Suc n) (Nd l a False r) \<longleftrightarrow> rb_bal n l \<and> rb_bal n r"

text \<open>
  What surrounds a hole is balanced, and has a black root, once the hole has a tree of black height \<open>n\<close>
  whose root has the colour \<open>c\<close>.
\<close>

fun rb_kbal :: "nat \<Rightarrow> bool \<Rightarrow> rb_frame list \<Rightarrow> bool" where
  "rb_kbal n c [] \<longleftrightarrow> \<not> c"
| "rb_kbal n c (FL a True r # k) \<longleftrightarrow> \<not> c \<and> \<not> rb_red r \<and> rb_bal n r \<and> rb_kbal n True k"
| "rb_kbal n c (FL a False r # k) \<longleftrightarrow> rb_bal n r \<and> rb_kbal (Suc n) False k"
| "rb_kbal n c (FR l a True # k) \<longleftrightarrow> \<not> c \<and> \<not> rb_red l \<and> rb_bal n l \<and> rb_kbal n True k"
| "rb_kbal n c (FR l a False # k) \<longleftrightarrow> rb_bal n l \<and> rb_kbal (Suc n) False k"

lemma rb_kbal_weak: "rb_kbal n True k \<Longrightarrow> rb_kbal n c k"
  by (cases "(n, True, k)" rule: rb_kbal.cases) auto

lemma rb_bal_fill: "rb_kbal n (rb_red t) k \<Longrightarrow> rb_bal n t \<Longrightarrow> \<exists>N. rb_bal N (rb_fill k t) \<and> \<not> rb_red (rb_fill k t)"
proof (induction k arbitrary: n t)
  case (Cons f k)
  show ?case
  proof (cases f)
    case (FL a c r)
    then show ?thesis using Cons.prems Cons.IH [of "if c then n else Suc n" "Nd t a c r"] by (cases c) auto
  next
    case (FR l a c)
    then show ?thesis using Cons.prems Cons.IH [of "if c then n else Suc n" "Nd l a c t"] by (cases c) auto
  qed
qed auto

lemma rb_bal_black: "rb_bal N (Nd l a False r) \<Longrightarrow> \<exists>n. N = Suc n \<and> rb_bal n l \<and> rb_bal n r"
  by (cases N) auto

lemma rb_bal_unfill: "rb_bal N (rb_fill k t) \<Longrightarrow> \<not> rb_red (rb_fill k t) \<Longrightarrow> \<exists>n. rb_kbal n (rb_red t) k \<and> rb_bal n t"
proof (induction k arbitrary: t)
  case (Cons f k)
  show ?case
  proof (cases f)
    case (FL a c r)
    then obtain n where "rb_kbal n c k" "rb_bal n (Nd t a c r)" using Cons.prems Cons.IH [of "Nd t a c r"] by auto
    then show ?thesis using FL rb_bal_black [of n t a r] by (cases c) auto
  next
    case (FR l a c)
    then obtain n where "rb_kbal n c k" "rb_bal n (Nd l a c t)" using Cons.prems Cons.IH [of "Nd l a c t"] by auto
    then show ?thesis using FR rb_bal_black [of n l a t] by (cases c) auto
  qed
qed auto

lemma rb_bal_blacken: "rb_bal n t \<Longrightarrow> rb_red t \<Longrightarrow> rb_bal (Suc n) (rb_blacken t)"
  by (cases "(n, t)" rule: rb_bal.cases) auto

lemma rb_blacken_addrs [simp]: "rb_addrs (rb_blacken t) = rb_addrs t" "\<not> rb_red (rb_blacken t)" "rb_root s (rb_blacken t) = rb_root s t"
  by (cases t; simp)+

lemma rb_blacken_black [simp]: "\<not> rb_red t \<Longrightarrow> rb_blacken t = t"
  by (cases t) auto

lemma mir_red [simp]: "rb_red (mir_tree t) = rb_red t"
  by (cases t) auto

lemma mir_bal [simp]: "rb_bal n (mir_tree t) = rb_bal n t"
  by (induction n t rule: rb_bal.induct) auto

lemma mir_kbal [simp]: "rb_kbal n c (map mir_frame k) = rb_kbal n c k"
  by (induction n c k rule: rb_kbal.induct) auto

text \<open>Height and size.\<close>

fun rb_height :: "rb_tree \<Rightarrow> nat" where
  "rb_height Lf = 0"
| "rb_height (Nd l a c r) = Suc (max (rb_height l) (rb_height r))"

lemma rb_bal_height: "rb_bal n t \<Longrightarrow> rb_height t \<le> 2 * n + (if rb_red t then 1 else 0)"
  by (induction n t rule: rb_bal.induct) (auto split: if_splits)

lemma rb_bal_size: "rb_bal n t \<Longrightarrow> 2 ^ n \<le> length (rb_addrs t) + 1"
proof (induction n t rule: rb_bal.induct)
  case (2 n l a r)
  then show ?case by simp
qed auto

subsection \<open>Balance after an insertion\<close>

text \<open>
  Where the loop of \<open>ngx_rbtree_insert\<close> is: all is balanced but for the red \<open>node\<close>, whose parent
  may be red too.
\<close>

definition rb_ins_state :: "rb_mem \<Rightarrow> rb_ptr \<Rightarrow> rb_ptr \<Rightarrow> rb_ptr \<Rightarrow> rb_frame list \<Rightarrow> rb_ptr list \<Rightarrow> bool" where
  "rb_ins_state m s root x k xs \<longleftrightarrow>
     (\<exists>l r n. rb_holds m s root (rb_fill k (Nd l x True r)) \<and> rb_kbal n False k \<and> rb_bal n (Nd l x True r) \<and>
              xs = rb_addrs (rb_fill k (Nd l x True r)))"

lemma mir_ins_state [simp]: "rb_ins_state (mir m) s root x (map mir_frame k) (rev xs) = rb_ins_state m s root x k xs"
proof -
  have *: "rb_ins_state m s root x k xs \<Longrightarrow> rb_ins_state (mir m) s root x (map mir_frame k) (rev xs)" for m k xs
  proof -
    assume "rb_ins_state m s root x k xs"
    then obtain l r n where h: "rb_holds m s root (rb_fill k (Nd l x True r))" "rb_kbal n False k" "rb_bal n (Nd l x True r)"
        "xs = rb_addrs (rb_fill k (Nd l x True r))"
      by (auto simp: rb_ins_state_def)
    have "rb_holds (mir m) s root (rb_fill (map mir_frame k) (Nd (mir_tree r) x True (mir_tree l)))"
      using h(1) mir_holds [of m s root "rb_fill k (Nd l x True r)"] by (simp only: mir_fill mir_tree.simps)
    moreover have "rev xs = rb_addrs (rb_fill (map mir_frame k) (Nd (mir_tree r) x True (mir_tree l)))"
      using h(4) mir_addrs [of "rb_fill k (Nd l x True r)"] by (simp only: mir_fill mir_tree.simps)
    ultimately show ?thesis using h(2,3) unfolding rb_ins_state_def by (metis mir_bal mir_kbal mir_tree.simps(2))
  qed
  show ?thesis using * [of m k xs] * [of "mir m" "map mir_frame k" "rev xs"] unfolding mir_map mir_mir rev_rev_ident by blast
qed

lemma rb_ins_stateI:
  "rb_holds m s root (rb_fill k (Nd l x True r)) \<Longrightarrow> rb_kbal n False k \<Longrightarrow> rb_bal n (Nd l x True r) \<Longrightarrow>
   rb_addrs (rb_fill k (Nd l x True r)) = xs \<Longrightarrow> rb_ins_state m s root x k xs"
  unfolding rb_ins_state_def by metis

lemma rb_addrs_fill_cong: "rb_addrs t = rb_addrs t' \<Longrightarrow> rb_addrs (rb_fill k t) = rb_addrs (rb_fill k t')"
proof (induction k arbitrary: t t')
  case (Cons f k)
  show ?case by (cases f) (auto intro: Cons.IH simp: Cons.prems)
qed simp

lemma rb_black_red_simps [simp]:
  "ngx_rbt_black m a = set_color m a 0" "ngx_rbt_red m a = set_color m a 1"
  by (simp_all add: ngx_rbt_black_def ngx_rbt_red_def)

lemma rb_holds_is_red:
  "rb_holds m s root (rb_fill k t) \<Longrightarrow> ngx_rbt_is_red m (rb_root s t) = rb_red t"
  by (cases t) (auto simp: ngx_rbt_is_red_def rb_holds_sentinel dest: rb_holds_at(3))

lemma rb_holds_parent2:
  assumes "rb_holds m s root (rb_fill k (Nd (Nd (Nd l x e r) p c b) g d u))"
  shows "rb_parent (m x) = p" "rb_parent (m p) = g" "rb_left (m p) = x" "rb_left (m g) = p" "rb_right (m g) = rb_root s u"
    "rb_right (m p) = rb_root s b" "ngx_rbt_is_red m (rb_root s u) = rb_red u" "x \<noteq> rb_root s b" "x \<noteq> p" "x \<noteq> g" "p \<noteq> g"
proof -
  have "x \<noteq> s" "x \<notin> set (rb_addrs b)" using assms by (auto simp: rb_holds_def rb_distinct_fill rb_set_fill)
  then show "x \<noteq> rb_root s b" using rb_root_neq by metis
  show "rb_parent (m x) = p" "rb_parent (m p) = g" "rb_left (m p) = x" "rb_left (m g) = p" "rb_right (m g) = rb_root s u"
    "rb_right (m p) = rb_root s b" "ngx_rbt_is_red m (rb_root s u) = rb_red u" "x \<noteq> p" "x \<noteq> g" "p \<noteq> g"
    using assms rb_holds_is_red [of m s root "FR (Nd (Nd l x e r) p c b) g d # k" u]
    by (auto simp: rb_holds_def rb_rep_fill rb_at_def rb_distinct_fill)
qed

lemma rb_holds_parent3:
  assumes "rb_holds m s root (rb_fill k (Nd (Nd b p c (Nd l x e r)) g d u))"
  shows "rb_parent (m x) = p" "rb_parent (m p) = g" "rb_right (m p) = x" "rb_left (m g) = p" "rb_right (m g) = rb_root s u"
    "ngx_rbt_is_red m (rb_root s u) = rb_red u" "x \<noteq> p" "x \<noteq> g" "p \<noteq> g"
  using assms rb_holds_is_red [of m s root "FR (Nd b p c (Nd l x e r)) g d # k" u]
  by (auto simp: rb_holds_def rb_rep_fill rb_at_def rb_distinct_fill)

lemma rb_recolor:
  assumes "rb_holds m s root (rb_fill k (Nd P g d (Nd u1 u e u2)))" "P = Nd p1 p c p2"
  shows "rb_holds (set_color (set_color (set_color m p 0) u 0) g 1) s root (rb_fill k (Nd (Nd p1 p False p2) g True (Nd u1 u False u2)))"
  using rb_holds_color [of _ s root k _ g _ _ 1] rb_holds_color [of m s root "FL g d (Nd u1 u e u2) # k" p1 p c p2 0]
    rb_holds_color [of "set_color m p 0" s root "FR (Nd p1 p False p2) g d # k" u1 u e u2 0] assms by force

lemma rb_fix_rotate:
  assumes "rb_holds m s root (rb_fill k (Nd (Nd t p c b) g d u))"
  obtains m' root' where
    "ngx_rbtree_right_rotate (set_color (set_color m p 0) g 1) root s g = (m', root')" "rb_kept m s m'"
    "rb_holds m' s root' (rb_fill k (Nd t p False (Nd b g True u)))"
proof -
  have "rb_holds (set_color (set_color m p 0) g 1) s root (rb_fill k (Nd (Nd t p False b) g True u))"
    using rb_holds_color [of m s root "FL g d u # k" t p c b 0] rb_holds_color [of _ s root k _ g _ _ 1] assms by force
  then obtain m' root' where "ngx_rbtree_right_rotate (set_color (set_color m p 0) g 1) root s g = (m', root')"
      "rb_holds m' s root' (rb_fill k (Nd t p False (Nd b g True u)))" "rb_kept (set_color (set_color m p 0) g 1) s m'"
    by (rule rb_right_rotate)
  then show thesis using that by (metis rb_kept_color rb_kept_trans)
qed

lemma rb_fix_left_inner:
  assumes h: "rb_holds m s root (rb_fill (FL p True b # FL g False u # k) (Nd l x True r))"
    and k: "rb_kbal n False (FL p True b # FL g False u # k)" and b: "rb_bal n (Nd l x True r)"
  shows "\<exists>m' root' x' k'. rb_fix_left m root s x = (m', root', x') \<and> length k' < length k + 2 \<and> rb_kept m s m' \<and>
    rb_ins_state m' s root' x' k' (rb_addrs (rb_fill (FL p True b # FL g False u # k) (Nd l x True r)))"
proof (cases "rb_red u")
  case True
  then obtain u1 a u2 where u: "u = Nd u1 a True u2" by (cases u) auto
  then have "rb_bal n u1" "rb_bal n u2" using k by simp_all
  moreover have "rb_fix_left m root s x = (set_color (set_color (set_color m p 0) a 0) g 1, root, g)"
    using h rb_holds_parent2 [of m s root k l x True r p True b g False u] u by (simp add: rb_fix_left_def)
  moreover have "rb_holds (set_color (set_color (set_color m p 0) a 0) g 1) s root (rb_fill k (Nd (Nd (Nd l x True r) p False b) g True (Nd u1 a False u2)))"
    using h u by (intro rb_recolor [OF _ refl]) simp
  ultimately show ?thesis
    using k b u
    by (intro exI [of _ "set_color (set_color (set_color m p 0) a 0) g 1"] exI [of _ root] exI [of _ g] exI [of _ k] conjI)
       (auto simp: rb_kept_def intro!: rb_ins_stateI [where n = "Suc n"] rb_addrs_fill_cong)
next
  case False
  obtain m' root' where r: "ngx_rbtree_right_rotate (set_color (set_color m p 0) g 1) root s g = (m', root')" "rb_kept m s m'"
      "rb_holds m' s root' (rb_fill k (Nd (Nd l x True r) p False (Nd b g True u)))"
    by (rule rb_fix_rotate [of m s root k "Nd l x True r" p True b g False u]) (use h in auto)
  then have "rb_fix_left m root s x = (m', root', x)"
    using h rb_holds_parent2 [of m s root k l x True r p True b g False u] False by (simp add: rb_fix_left_def)
  then show ?thesis
    using k b r(2,3) False
    by (intro exI [of _ m'] exI [of _ root'] exI [of _ x] exI [of _ "FL p False (Nd b g True u) # k"])
       (auto intro!: rb_ins_stateI [where n = n] rb_addrs_fill_cong)
qed

lemma rb_fix_left_outer:
  assumes h: "rb_holds m s root (rb_fill (FR b p True # FL g False u # k) (Nd l x True r))"
    and k: "rb_kbal n False (FR b p True # FL g False u # k)" and b: "rb_bal n (Nd l x True r)"
  shows "\<exists>m' root' x' k'. rb_fix_left m root s x = (m', root', x') \<and> length k' < length k + 2 \<and> rb_kept m s m' \<and>
    rb_ins_state m' s root' x' k' (rb_addrs (rb_fill (FR b p True # FL g False u # k) (Nd l x True r)))"
proof (cases "rb_red u")
  case True
  then obtain u1 a u2 where u: "u = Nd u1 a True u2" by (cases u) auto
  then have "rb_bal n u1" "rb_bal n u2" using k by simp_all
  moreover have "rb_fix_left m root s x = (set_color (set_color (set_color m p 0) a 0) g 1, root, g)"
    using h rb_holds_parent3 [of m s root k b p True l x True r g False u] u by (simp add: rb_fix_left_def)
  moreover have "rb_holds (set_color (set_color (set_color m p 0) a 0) g 1) s root (rb_fill k (Nd (Nd b p False (Nd l x True r)) g True (Nd u1 a False u2)))"
    using h u by (intro rb_recolor [OF _ refl]) simp
  ultimately show ?thesis
    using k b u
    by (intro exI [of _ "set_color (set_color (set_color m p 0) a 0) g 1"] exI [of _ root] exI [of _ g] exI [of _ k] conjI)
       (auto simp: rb_kept_def intro!: rb_ins_stateI [where n = "Suc n"] rb_addrs_fill_cong)
next
  case False
  obtain m1 root1 where r1: "ngx_rbtree_left_rotate m root s p = (m1, root1)" "rb_kept m s m1"
      "rb_holds m1 s root1 (rb_fill (FL g False u # k) (Nd (Nd b p True l) x True r))"
    by (rule rb_left_rotate [of m s root "FL g False u # k" b p True l x True r]) (use h in auto)
  obtain m' root' where r: "ngx_rbtree_right_rotate (set_color (set_color m1 x 0) g 1) root1 s g = (m', root')" "rb_kept m1 s m'"
      "rb_holds m' s root' (rb_fill k (Nd (Nd b p True l) x False (Nd r g True u)))"
    by (rule rb_fix_rotate [of m1 s root1 k "Nd b p True l" x True r g False u]) (use r1 in auto)
  have "rb_fix_left m root s x = (m', root', p)"
    using h r r1 rb_holds_parent3 [of m s root k b p True l x True r g False u] rb_holds_parent2 [of m1 s root1 k b p True l x True r g False u] False
    by (simp add: rb_fix_left_def)
  moreover have "rb_kept m s m'" using r1(2) r(2) by (rule rb_kept_trans)
  ultimately show ?thesis
    using k b r(3) False
    by (intro exI [of _ m'] exI [of _ root'] exI [of _ p] exI [of _ "FL x False (Nd r g True u) # k"])
       (auto intro!: rb_ins_stateI [where n = n] rb_addrs_fill_cong)
qed

lemma rb_fix_left_step:
  assumes st: "rb_ins_state m s root x (f # FL g c u # k) xs" and f: "\<exists>p b. f = FL p True b \<or> f = FR b p True"
  shows "\<exists>m' root' x' k'. rb_fix_left m root s x = (m', root', x') \<and> length k' < length k + 2 \<and> rb_kept m s m' \<and>
    rb_ins_state m' s root' x' k' xs"
proof -
  obtain l r n where h: "rb_holds m s root (rb_fill (f # FL g c u # k) (Nd l x True r))" "rb_kbal n False (f # FL g c u # k)"
      "rb_bal n (Nd l x True r)" and xs: "xs = rb_addrs (rb_fill (f # FL g c u # k) (Nd l x True r))"
    using st by (auto simp: rb_ins_state_def)
  obtain p b where f: "f = FL p True b \<or> f = FR b p True" using f by blast
  have c: "c = False" using f h(2) by (cases c) auto
  show ?thesis using f
  proof
    assume f: "f = FL p True b"
    show ?thesis unfolding xs unfolding c f by (rule rb_fix_left_inner [OF h [unfolded c f]])
  next
    assume f: "f = FR b p True"
    show ?thesis unfolding xs unfolding c f by (rule rb_fix_left_outer [OF h [unfolded c f]])
  qed
qed

text \<open>The other side.\<close>

definition mir3 :: "rb_mem \<times> 'a \<times> 'b \<Rightarrow> rb_mem \<times> 'a \<times> 'b" where
  "mir3 p = (mir (fst p), snd p)"

lemma mir_fix_left: "rb_fix_left (mir m) root s x = mir3 (rb_fix_right m root s x)"
  by (cases "x = rb_left (m (rb_parent (m x)))"; cases "ngx_rbt_is_red m (rb_left (m (rb_parent (m (rb_parent (m x))))))")
     (simp_all add: rb_fix_left_def rb_fix_right_def mir3_def mir_left_rotate mir_right_rotate Let_def case_prod_beta)

lemma rb_fix_right_step:
  assumes st: "rb_ins_state m s root x (f # FR u g c # k) xs" and f: "\<exists>p b. f = FL p True b \<or> f = FR b p True"
  shows "\<exists>m' root' x' k'. rb_fix_right m root s x = (m', root', x') \<and> length k' < length k + 2 \<and> rb_kept m s m' \<and>
    rb_ins_state m' s root' x' k' xs"
proof -
  have "rb_ins_state (mir m) s root x (map mir_frame (f # FR u g c # k)) (rev xs)" using st by (simp only: mir_ins_state)
  then have "rb_ins_state (mir m) s root x (mir_frame f # FL g c (mir_tree u) # map mir_frame k) (rev xs)" by simp
  moreover have "\<exists>p b. mir_frame f = FL p True b \<or> mir_frame f = FR b p True" using f by (metis mir_frame.simps)
  ultimately obtain m' root' x' k' where r: "rb_fix_left (mir m) root s x = (m', root', x')" "length k' < length (map mir_frame k) + 2"
      "rb_kept (mir m) s m'" "rb_ins_state m' s root' x' k' (rev xs)"
    using rb_fix_left_step by meson
  have "rb_fix_right m root s x = (mir m', root', x')"
    using r(1) mir_fix_left [of m root s x] by (cases "rb_fix_right m root s x") (auto simp: mir3_def)
  moreover have "rb_kept m s (mir m')" using r(3) by (metis mir_kept mir_mir(1))
  moreover have "rb_ins_state (mir m') s root' x' (map mir_frame k') xs"
    using r(4) mir_ins_state [of m' s root' x' k' "rev xs"] by simp
  ultimately show ?thesis using r(2) by (metis length_map)
qed

fun rb_frame_addr :: "rb_frame \<Rightarrow> rb_ptr" where
  "rb_frame_addr (FL a c r) = a"
| "rb_frame_addr (FR l a c) = a"

fun rb_frame_red :: "rb_frame \<Rightarrow> bool" where
  "rb_frame_red (FL a c r) = c"
| "rb_frame_red (FR l a c) = c"

lemma rb_holds_up:
  assumes "rb_holds m s root (rb_fill (f # k) (Nd l x d r))"
  shows "rb_parent (m x) = rb_frame_addr f" "ngx_rbt_is_red m (rb_frame_addr f) = rb_frame_red f"
proof -
  have "rb_parent (m x) = rb_frame_addr f \<and> ngx_rbt_is_red m (rb_frame_addr f) = rb_frame_red f"
  proof (cases f)
    case (FL a c b)
    then have "rb_at m s (Nd l x d r) a c b" using assms by (simp add: rb_holds_def rb_rep_fill)
    then show ?thesis using FL by (simp add: rb_at_def ngx_rbt_is_red_def)
  next
    case (FR b a c)
    then have "rb_at m s b a c (Nd l x d r)" using assms by (simp add: rb_holds_def rb_rep_fill)
    then show ?thesis using FR by (simp add: rb_at_def ngx_rbt_is_red_def)
  qed
  then show "rb_parent (m x) = rb_frame_addr f" "ngx_rbt_is_red m (rb_frame_addr f) = rb_frame_red f" by auto
qed

lemma rb_insert_fix_ok:
  assumes "rb_ins_state m s root x k xs"
  shows "\<exists>m' root' t N. rb_insert_fix m root s x = Some (m', root') \<and> rb_holds m' s root' t \<and> t \<noteq> Lf \<and> rb_bal N (rb_blacken t) \<and>
    rb_addrs t = xs \<and> rb_kept m s m'"
  using assms
proof (induction "length k" arbitrary: m root x k rule: less_induct)
  case less
  obtain l r n where h: "rb_holds m s root (rb_fill k (Nd l x True r))" "rb_kbal n False k" "rb_bal n (Nd l x True r)"
      and xs: "xs = rb_addrs (rb_fill k (Nd l x True r))"
    using less.prems by (auto simp: rb_ins_state_def)
  show ?case
  proof (cases k)
    case Nil
    then have "rb_insert_fix m root s x = Some (m, root)" using rb_holds_root [OF h(1)] by (subst rb_insert_fix.simps) simp
    then show ?thesis using h xs Nil by (intro exI [of _ m] exI [of _ root] exI [of _ "Nd l x True r"] exI [of _ "Suc n"]) auto
  next
    case (Cons f k1)
    have nr: "x \<noteq> root" using rb_holds_root [OF h(1)] Cons by simp
    obtain p b c where f: "f = FL p c b \<or> f = FR b p c" by (cases f) auto
    have c: "ngx_rbt_is_red m p = c" "rb_parent (m x) = p" using f rb_holds_up [of m s root f k1 l x True r] h(1) Cons by auto
    show ?thesis
    proof (cases c)
      case False
      then have "rb_insert_fix m root s x = Some (m, root)" using c by (subst rb_insert_fix.simps) simp
      moreover have "rb_kbal n True k" using h(2) f Cons False by auto
      then obtain N where "rb_bal N (rb_fill k (Nd l x True r))" "\<not> rb_red (rb_fill k (Nd l x True r))"
        using rb_bal_fill [of n "Nd l x True r" k] h(3) by auto
      ultimately show ?thesis
        using h xs by (intro exI [of _ m] exI [of _ root] exI [of _ "rb_fill k (Nd l x True r)"] exI [of _ N]) auto
    next
      case True
      then obtain g k2 where k1: "k1 = g # k2" using h(2) f Cons by (cases k1) auto
      have fr: "\<exists>p b. f = FL p True b \<or> f = FR b p True" using f True by blast
      show ?thesis
      proof (cases g)
        case (FL ga gc u)
        obtain m' root' x' k' where s: "rb_fix_left m root s x = (m', root', x')" "length k' < length k2 + 2" "rb_kept m s m'"
            "rb_ins_state m' s root' x' k' xs"
          using rb_fix_left_step [of m s root x f ga gc u k2 xs] less.prems Cons k1 FL fr by auto
        have "rb_left (m ga) = p" "rb_parent (m p) = ga"
          using h(1) f Cons k1 FL by (auto simp: rb_holds_def rb_rep_fill rb_at_def)
        then have "rb_insert_fix m root s x = rb_insert_fix m' root' s x'"
          using c True nr s(1) by (subst rb_insert_fix.simps) simp
        moreover obtain m2 root2 t N where "rb_insert_fix m' root' s x' = Some (m2, root2)" "rb_holds m2 s root2 t" "t \<noteq> Lf"
            "rb_bal N (rb_blacken t)" "rb_addrs t = xs" "rb_kept m' s m2"
          using less.hyps [OF _ s(4)] s(2) Cons k1 by auto
        ultimately show ?thesis
          using rb_kept_trans [OF s(3)] by (intro exI [of _ m2] exI [of _ root2] exI [of _ t] exI [of _ N]) simp
      next
        case (FR u ga gc)
        obtain m' root' x' k' where s: "rb_fix_right m root s x = (m', root', x')" "length k' < length k2 + 2" "rb_kept m s m'"
            "rb_ins_state m' s root' x' k' xs"
          using rb_fix_right_step [of m s root x f u ga gc k2 xs] less.prems Cons k1 FR fr by auto
        have "rb_left (m ga) = rb_root s u" "rb_parent (m p) = ga" "p \<noteq> s" "p \<notin> set (rb_addrs u)"
          using h(1) f Cons k1 FR by (auto simp: rb_holds_def rb_rep_fill rb_at_def rb_distinct_fill)
        then have "rb_left (m ga) \<noteq> p" "rb_parent (m p) = ga" using rb_root_neq by auto
        then have "rb_insert_fix m root s x = rb_insert_fix m' root' s x'"
          using c True nr s(1) by (subst rb_insert_fix.simps) simp
        moreover obtain m2 root2 t N where "rb_insert_fix m' root' s x' = Some (m2, root2)" "rb_holds m2 s root2 t" "t \<noteq> Lf"
            "rb_bal N (rb_blacken t)" "rb_addrs t = xs" "rb_kept m' s m2"
          using less.hyps [OF _ s(4)] s(2) Cons k1 by auto
        ultimately show ?thesis
          using rb_kept_trans [OF s(3)] by (intro exI [of _ m2] exI [of _ root2] exI [of _ t] exI [of _ N]) simp
      qed
    qed
  qed
qed

subsection \<open>Balance after a deletion\<close>

text \<open>
  Where the loop of \<open>ngx_rbtree_delete\<close> is: all is balanced but that the tree at \<open>temp\<close> is one black node
  short, which making \<open>temp\<close> black mends if it is red.  The sentinel, where \<open>temp\<close> is it, knows its parent.
\<close>

definition rb_short :: "nat \<Rightarrow> rb_tree \<Rightarrow> bool" where
  "rb_short n t \<longleftrightarrow> (if rb_red t then rb_bal (Suc n) (rb_blacken t) else rb_bal n t)"

definition rb_del_at :: "rb_mem \<Rightarrow> rb_ptr \<Rightarrow> rb_ptr \<Rightarrow> rb_frame list \<Rightarrow> rb_tree \<Rightarrow> nat \<Rightarrow> bool" where
  "rb_del_at m s root k t n \<longleftrightarrow>
     rb_holds m s root (rb_fill k t) \<and> rb_kbal (Suc n) False k \<and> rb_short n t \<and>
     (t = Lf \<longrightarrow> k \<noteq> [] \<longrightarrow> rb_parent (m s) = rb_frame_addr (hd k))"

lemma rb_del_parent: "rb_del_at m s root (f # k) t n \<Longrightarrow> rb_parent (m (rb_root s t)) = rb_frame_addr f"
  by (cases t) (auto simp: rb_del_at_def rb_holds_up(1))

lemma mir_frame_addr [simp]: "rb_frame_addr (mir_frame f) = rb_frame_addr f"
  by (cases f) auto

lemma mir_blacken: "rb_blacken (mir_tree t) = mir_tree (rb_blacken t)"
  by (cases t) auto

lemma mir_del_at: "rb_del_at (mir m) s root (map mir_frame k) (mir_tree t) n = rb_del_at m s root k t n"
proof -
  have "rb_holds (mir m) s root (rb_fill (map mir_frame k) (mir_tree t)) = rb_holds m s root (rb_fill k t)"
    using mir_holds [of m s root "rb_fill k t"] by (simp only: mir_fill)
  moreover have "rb_short n (mir_tree t) = rb_short n t" by (simp add: rb_short_def mir_blacken)
  moreover have "k \<noteq> [] \<Longrightarrow> rb_frame_addr (hd (map mir_frame k)) = rb_frame_addr (hd k)" by (simp add: hd_map)
  ultimately show ?thesis by (auto simp: rb_del_at_def)
qed

lemma rb_del_whole: "rb_holds m s root t \<Longrightarrow> rb_bal N t \<Longrightarrow> \<not> rb_red t \<Longrightarrow> rb_del_at m s root [] t N"
  by (simp add: rb_del_at_def rb_short_def)

lemma rb_unfix_finish:
  assumes "rb_holds m s root (rb_fill k (Nd t p c (Nd wl w e (Nd r1 r d r2))))"
  obtains m' root' where
    "ngx_rbtree_left_rotate (set_color (set_color (set_color m w (rb_color (m p))) p 0) r 0) root s p = (m', root')" "rb_kept m s m'"
    "rb_holds m' s root' (rb_fill k (Nd (Nd t p False wl) w c (Nd r1 r False r2)))"
proof -
  have c: "(rb_color (m p) \<noteq> 0) = c" by (rule rb_holds_at(3) [OF assms])
  have "rb_holds (set_color m w (rb_color (m p))) s root (rb_fill k (Nd t p c (Nd wl w c (Nd r1 r d r2))))"
    using rb_holds_color [of m s root "FR t p c # k" wl w e "Nd r1 r d r2" "rb_color (m p)"] assms c by simp
  then have "rb_holds (set_color (set_color m w (rb_color (m p))) p 0) s root (rb_fill k (Nd t p False (Nd wl w c (Nd r1 r d r2))))"
    using rb_holds_color [of _ s root k t p c _ 0] by fastforce
  then have "rb_holds (set_color (set_color (set_color m w (rb_color (m p))) p 0) r 0) s root (rb_fill k (Nd t p False (Nd wl w c (Nd r1 r False r2))))"
    using rb_holds_color [of _ s root "FR wl w c # FR t p False # k" r1 r d r2 0] by simp
  then obtain m' root' where
    "ngx_rbtree_left_rotate (set_color (set_color (set_color m w (rb_color (m p))) p 0) r 0) root s p = (m', root')"
    "rb_holds m' s root' (rb_fill k (Nd (Nd t p False wl) w c (Nd r1 r False r2)))"
    "rb_kept (set_color (set_color (set_color m w (rb_color (m p))) p 0) r 0) s m'"
    by (rule rb_left_rotate)
  then show thesis using that by (metis rb_kept_color rb_kept_trans)
qed

lemma rb_unfix_whole:
  assumes "rb_kbal (Suc n) False (FL p c (Nd wl w False wr) # k)" "rb_bal n t" "rb_bal n wl'" "rb_bal (Suc n) wr'" "\<not> rb_red wr'"
  shows "\<exists>N. rb_bal N (rb_fill k (Nd (Nd t p False wl') w' c wr')) \<and> \<not> rb_red (rb_fill k (Nd (Nd t p False wl') w' c wr'))"
proof (cases c)
  case True
  then show ?thesis using assms by (intro rb_bal_fill [of "Suc n"]) auto
next
  case False
  then show ?thesis using assms by (intro rb_bal_fill [of "Suc (Suc n)"]) auto
qed

lemma rb_unfix_left_black:
  assumes st: "rb_del_at m s root (FL p c (Nd wl w False wr) # k) t n" and t: "\<not> rb_red t"
  shows "\<exists>m' root' k' t' n'. rb_unfix_left_black m root s (rb_root s t) w = (m', root', rb_root s t') \<and> rb_kept m s m' \<and>
    rb_del_at m' s root' k' t' n' \<and> rb_addrs (rb_fill k' t') = rb_addrs (rb_fill (FL p c (Nd wl w False wr) # k) t) \<and>
    (k' = [] \<and> \<not> rb_red t' \<or> k' = k \<and> rb_red t' = c)"
proof -
  have h: "rb_holds m s root (rb_fill (FR t p c # k) (Nd wl w False wr))" "rb_kbal (Suc n) False (FL p c (Nd wl w False wr) # k)" "rb_bal n t"
    using st t by (auto simp: rb_del_at_def rb_short_def)
  have b: "rb_bal n wl" "rb_bal n wr" using h(2) by (cases c; auto)+
  have p: "rb_parent (m (rb_root s t)) = p" using rb_del_parent [OF st] by simp
  have w: "rb_left (m w) = rb_root s wl" "rb_right (m w) = rb_root s wr" using rb_holds_at [OF h(1)] by auto
  have red: "ngx_rbt_is_red m (rb_root s wl) = rb_red wl" "ngx_rbt_is_red m (rb_root s wr) = rb_red wr"
    using h(1) rb_holds_is_red [of m s root "FL w False wr # FR t p c # k" wl] rb_holds_is_red [of m s root "FR wl w False # FR t p c # k" wr] by auto
  consider (both) "\<not> rb_red wl" "\<not> rb_red wr" | (right) "rb_red wr" | (left) "rb_red wl" "\<not> rb_red wr" by blast
  then show ?thesis
  proof cases
    case both
    then have e: "rb_unfix_left_black m root s (rb_root s t) w = (set_color m w 1, root, p)"
      using w red p by (simp add: rb_unfix_left_black_def)
    have "rb_holds (set_color m w 1) s root (rb_fill k (Nd t p c (Nd wl w True wr)))"
      using rb_holds_color [OF h(1), of 1] by simp
    then have "rb_del_at (set_color m w 1) s root k (Nd t p c (Nd wl w True wr)) (if c then n else Suc n)"
      using h b both rb_kbal_weak [of "Suc n" k False] by (cases c) (auto simp: rb_del_at_def rb_short_def)
    then show ?thesis
      using e by (intro exI [of _ "set_color m w 1"] exI [of _ root] exI [of _ k] exI [of _ "Nd t p c (Nd wl w True wr)"]
        exI [of _ "if c then n else Suc n"]) (auto intro!: rb_addrs_fill_cong)
  next
    case right
    then obtain r1 r r2 where r: "wr = Nd r1 r True r2" by (cases wr) auto
    obtain m' root' where f: "ngx_rbtree_left_rotate (set_color (set_color (set_color m w (rb_color (m p))) p 0) r 0) root s p = (m', root')"
        "rb_kept m s m'" "rb_holds m' s root' (rb_fill k (Nd (Nd t p False wl) w c (Nd r1 r False r2)))"
      using rb_unfix_finish [of m s root k t p c wl w False r1 r True r2] h(1) r by auto
    have e: "rb_unfix_left_black m root s (rb_root s t) w = (m', root', root')"
      using w red p right r f(1) by (simp add: rb_unfix_left_black_def ngx_rbt_copy_color_def)
    obtain N where "rb_bal N (rb_fill k (Nd (Nd t p False wl) w c (Nd r1 r False r2)))" "\<not> rb_red (rb_fill k (Nd (Nd t p False wl) w c (Nd r1 r False r2)))"
      using rb_unfix_whole [OF h(2,3), of wl "Nd r1 r False r2"] b r by auto
    then show ?thesis
      using e f rb_del_whole [OF f(3)] r
      by (intro exI [of _ m'] exI [of _ root'] exI [of _ "[]"] exI [of _ "rb_fill k (Nd (Nd t p False wl) w c (Nd r1 r False r2))"] exI [of _ N])
        (auto simp: rb_holds_def intro!: rb_addrs_fill_cong)
  next
    case left
    then obtain l1 l l2 where l: "wl = Nd l1 l True l2" by (cases wl) auto
    have "rb_holds (set_color (set_color m l 0) w 1) s root (rb_fill (FR t p c # k) (Nd (Nd l1 l False l2) w True wr))"
      using rb_holds_color [of m s root "FL w False wr # FR t p c # k" l1 l True l2 0] h(1) l
        rb_holds_color [of "set_color m l 0" s root "FR t p c # k" "Nd l1 l False l2" w False wr 1] by simp
    then obtain m1 root1 where f1: "ngx_rbtree_right_rotate (set_color (set_color m l 0) w 1) root s w = (m1, root1)"
        "rb_holds m1 s root1 (rb_fill (FR t p c # k) (Nd l1 l False (Nd l2 w True wr)))" "rb_kept (set_color (set_color m l 0) w 1) s m1"
      by (rule rb_right_rotate)
    have k1: "rb_kept m s m1" using f1(3) by (metis rb_kept_color rb_kept_trans)
    have st1: "rb_del_at m1 s root1 (FL p c (Nd l1 l False (Nd l2 w True wr)) # k) t n"
      using st f1(2) h(2) b l left(2) k1 by (cases c) (auto simp: rb_del_at_def rb_kept_def)
    have p1: "rb_parent (m1 (rb_root s t)) = p" "rb_right (m1 p) = l" "rb_right (m1 l) = w"
      using rb_del_parent [OF st1] rb_holds_at(2) [OF f1(2)] rb_holds_at(2) [of m1 s root1 k t p c "Nd l1 l False (Nd l2 w True wr)"] f1(2) by auto
    obtain m' root' where f: "ngx_rbtree_left_rotate (set_color (set_color (set_color m1 l (rb_color (m1 p))) p 0) w 0) root1 s p = (m', root')"
        "rb_kept m1 s m'" "rb_holds m' s root' (rb_fill k (Nd (Nd t p False l1) l c (Nd l2 w False wr)))"
      using rb_unfix_finish [of m1 s root1 k t p c l1 l False l2 w True wr] f1(2) by auto
    have e: "rb_unfix_left_black m root s (rb_root s t) w = (m', root', root')"
      using w red p left l f1(1) f(1) p1 by (simp add: rb_unfix_left_black_def ngx_rbt_copy_color_def)
    obtain N where "rb_bal N (rb_fill k (Nd (Nd t p False l1) l c (Nd l2 w False wr)))" "\<not> rb_red (rb_fill k (Nd (Nd t p False l1) l c (Nd l2 w False wr)))"
      using rb_unfix_whole [OF h(2,3), of l1 "Nd l2 w False wr"] b l by auto
    moreover have "rb_kept m s m'" using k1 f(2) by (rule rb_kept_trans)
    ultimately show ?thesis
      using e f rb_del_whole [OF f(3)] l
      by (intro exI [of _ m'] exI [of _ root'] exI [of _ "[]"] exI [of _ "rb_fill k (Nd (Nd t p False l1) l c (Nd l2 w False wr))"] exI [of _ N])
        (auto simp: rb_holds_def intro!: rb_addrs_fill_cong)
  qed
qed

lemma rb_unfix_left:
  assumes st: "rb_del_at m s root (FL p c wt # k) t n" and t: "\<not> rb_red t"
  shows "\<exists>m' root' k' t' n'. rb_unfix_left m root s (rb_root s t) = (m', root', rb_root s t') \<and> rb_kept m s m' \<and>
    rb_del_at m' s root' k' t' n' \<and> rb_addrs (rb_fill k' t') = rb_addrs (rb_fill (FL p c wt # k) t) \<and>
    (rb_red t' \<or> length k' \<le> length k)"
proof -
  have h: "rb_holds m s root (rb_fill k (Nd t p c wt))" "rb_kbal (Suc n) False (FL p c wt # k)" "rb_bal (Suc n) wt"
    using st by (cases c; auto simp: rb_del_at_def)+
  have p: "rb_parent (m (rb_root s t)) = p" using rb_del_parent [OF st] by simp
  obtain wl w d wr where w: "wt = Nd wl w d wr" using h(3) by (cases wt) auto
  have r: "rb_right (m p) = w" "ngx_rbt_is_red m w = d"
    using rb_holds_at(2) [OF h(1)] rb_holds_is_red [of m s root "FR t p c # k" wt] h(1) w by auto
  show ?thesis
  proof (cases d)
    case False
    then have st': "rb_del_at m s root (FL p c (Nd wl w False wr) # k) t n" using st w by simp
    have "rb_unfix_left m root s (rb_root s t) = rb_unfix_left_black m root s (rb_root s t) w"
      using p r False by (simp add: rb_unfix_left_def)
    then show ?thesis using rb_unfix_left_black [OF st' t] w False by fastforce
  next
    case True
    then have c: "c = False" "\<not> rb_red wl" "\<not> rb_red wr" "rb_bal (Suc n) wl" "rb_bal (Suc n) wr" "rb_kbal (Suc (Suc n)) False k"
      using h(2) w by (cases c; auto)+
    obtain w1 v w2 where wl: "wl = Nd w1 v False w2" using c(2,4) by (cases wl) auto
    have "rb_holds (set_color m w 0) s root (rb_fill k (Nd t p c (Nd wl w False wr)))"
      using rb_holds_color [of m s root "FR t p c # k" wl w d wr 0] h(1) w by simp
    then have "rb_holds (set_color (set_color m w 0) p 1) s root (rb_fill k (Nd t p True (Nd wl w False wr)))"
      using rb_holds_color [of _ s root k t p c _ 1] by fastforce
    then obtain m1 root1 where f: "ngx_rbtree_left_rotate (set_color (set_color m w 0) p 1) root s p = (m1, root1)"
        "rb_holds m1 s root1 (rb_fill k (Nd (Nd t p True wl) w False wr))" "rb_kept (set_color (set_color m w 0) p 1) s m1"
      by (rule rb_left_rotate)
    have k1: "rb_kept m s m1" using f(3) by (metis rb_kept_color rb_kept_trans)
    have st1: "rb_del_at m1 s root1 (FL p True (Nd w1 v False w2) # FL w False wr # k) t n"
      using st f(2) c wl k1 by (auto simp: rb_del_at_def rb_kept_def)
    have p1: "rb_parent (m1 (rb_root s t)) = p" using rb_del_parent [OF st1] by simp
    have "rb_right (m1 p) = v" using rb_holds_at(2) [of m1 s root1 "FL w False wr # k" t p True wl] f(2) wl by simp
    then have e: "rb_unfix_left m root s (rb_root s t) = rb_unfix_left_black m1 root1 s (rb_root s t) v"
      using p r True f(1) p1 by (simp add: rb_unfix_left_def)
    obtain m' root' k' t' n' where g: "rb_unfix_left_black m1 root1 s (rb_root s t) v = (m', root', rb_root s t')" "rb_kept m1 s m'"
        "rb_del_at m' s root' k' t' n'"
        "rb_addrs (rb_fill k' t') = rb_addrs (rb_fill (FL p True (Nd w1 v False w2) # FL w False wr # k) t)"
        "k' = [] \<and> \<not> rb_red t' \<or> k' = FL w False wr # k \<and> rb_red t' = True"
      using rb_unfix_left_black [OF st1 t] by blast
    have "rb_addrs (rb_fill k' t') = rb_addrs (rb_fill (FL p c wt # k) t)"
      using g(4) w wl rb_addrs_fill_cong [of "Nd (Nd t p True wl) w False wr" "Nd t p c wt" k] by simp
    moreover have "rb_kept m s m'" using k1 g(2) by (rule rb_kept_trans)
    ultimately show ?thesis using e g(1,3,5) by (metis le0 list.size(3))
  qed
qed

lemma mir_unfix_left_black: "rb_unfix_left_black (mir m) root s x w = mir3 (rb_unfix_right_black m root s x w)"
  by (cases "\<not> ngx_rbt_is_red m (rb_left (m w)) \<and> \<not> ngx_rbt_is_red m (rb_right (m w))"; cases "ngx_rbt_is_red m (rb_left (m w))")
     (simp_all add: rb_unfix_left_black_def rb_unfix_right_black_def mir3_def mir_left_rotate mir_right_rotate Let_def case_prod_beta del: rb_black_red_simps)

lemma mir_unfix_left: "rb_unfix_left (mir m) root s x = mir3 (rb_unfix_right m root s x)"
  by (cases "ngx_rbt_is_red m (rb_left (m (rb_parent (m x))))")
     (simp_all add: rb_unfix_left_def rb_unfix_right_def mir_unfix_left_black mir_left_rotate Let_def case_prod_beta del: rb_black_red_simps)

lemma rb_unfix_right:
  assumes st: "rb_del_at m s root (FR wt p c # k) t n" and t: "\<not> rb_red t"
  shows "\<exists>m' root' k' t' n'. rb_unfix_right m root s (rb_root s t) = (m', root', rb_root s t') \<and> rb_kept m s m' \<and>
    rb_del_at m' s root' k' t' n' \<and> rb_addrs (rb_fill k' t') = rb_addrs (rb_fill (FR wt p c # k) t) \<and>
    (rb_red t' \<or> length k' \<le> length k)"
proof -
  have "rb_del_at (mir m) s root (FL p c (mir_tree wt) # map mir_frame k) (mir_tree t) n"
    using mir_del_at [of m s root "FR wt p c # k" t n] st by simp
  then obtain m' root' k' t' n' where g: "rb_unfix_left (mir m) root s (rb_root s t) = (m', root', rb_root s t')" "rb_kept (mir m) s m'"
      "rb_del_at m' s root' k' t' n'" "rb_red t' \<or> length k' \<le> length (map mir_frame k)"
      and a: "rb_addrs (rb_fill k' t') = rb_addrs (rb_fill (FL p c (mir_tree wt) # map mir_frame k) (mir_tree t))"
    using rb_unfix_left [of "mir m" s root p c "mir_tree wt" "map mir_frame k" "mir_tree t" n] t by auto
  have "rb_unfix_right m root s (rb_root s t) = (mir m', root', rb_root s t')"
    using g(1) mir_unfix_left [of m root s "rb_root s t"] by (cases "rb_unfix_right m root s (rb_root s t)") (auto simp: mir3_def)
  moreover have "rb_kept m s (mir m')" using g(2) by (metis mir_kept mir_mir(1))
  moreover have "rb_del_at (mir m') s root' (map mir_frame k') (mir_tree t') n'" using g(3) by (simp only: mir_del_at)
  moreover have "rb_addrs (rb_fill (map mir_frame k') (mir_tree t')) = rb_addrs (rb_fill (FR wt p c # k) t)"
    using arg_cong [OF a, of rev] mir_addrs [of "rb_fill k' t'"] mir_addrs [of "rb_fill (FR wt p c # k) t"]
    by (simp only: mir_fill list.map mir_frame.simps rev_rev_ident)
  ultimately show ?thesis using g(4) by (metis length_map mir_red mir_root)
qed

lemma rb_holds_not_root:
  assumes "rb_holds m s root (rb_fill k t)" "k \<noteq> []"
  shows "rb_root s t \<noteq> root"
proof -
  have "root \<in> set (rb_caddrs k)" using assms rb_root_fill_head [of k s t] by (simp add: rb_holds_def)
  then show ?thesis using assms(1) by (cases t) (auto simp: rb_holds_def rb_distinct_fill rb_set_fill)
qed

lemma rb_delete_fix_end:
  assumes st: "rb_del_at m s root k t n" and e: "rb_root s t = root \<or> ngx_rbt_is_red m (rb_root s t)"
  shows "\<exists>t'. rb_delete_fix m root s (rb_root s t) = Some (ngx_rbt_black m (rb_root s t), root) \<and>
    rb_holds (ngx_rbt_black m (rb_root s t)) s root t' \<and> (\<exists>N. rb_bal N t') \<and> \<not> rb_red t' \<and> rb_addrs t' = rb_addrs (rb_fill k t)"
proof -
  have d: "rb_delete_fix m root s (rb_root s t) = Some (ngx_rbt_black m (rb_root s t), root)"
    using e by (subst rb_delete_fix.simps) auto
  have h: "rb_holds m s root (rb_fill k t)" "rb_kbal (Suc n) False k" "rb_short n t" using st by (simp_all add: rb_del_at_def)
  have red: "ngx_rbt_is_red m (rb_root s t) = rb_red t" by (rule rb_holds_is_red [OF h(1)])
  have b: "rb_holds (ngx_rbt_black m (rb_root s t)) s root (rb_fill k (rb_blacken t))"
  proof (cases t)
    case Lf
    then have "set_color m s 0 = m" using h(1) by (simp add: rb_holds_def set_color_def fun_eq_iff)
    then show ?thesis using h(1) Lf by simp
  next
    case (Nd l a c r)
    then show ?thesis using rb_holds_color [of m s root k l a c r 0] h(1) by simp
  qed
  have a: "rb_addrs (rb_fill k (rb_blacken t)) = rb_addrs (rb_fill k t)" by (rule rb_addrs_fill_cong) simp
  have "(\<exists>N. rb_bal N (rb_fill k (rb_blacken t))) \<and> \<not> rb_red (rb_fill k (rb_blacken t))"
  proof (cases "rb_red t")
    case True
    then show ?thesis using h(2,3) rb_bal_fill [of "Suc n" "rb_blacken t" k] by (auto simp: rb_short_def)
  next
    case False
    then have "k = []" using e red rb_holds_not_root [OF h(1)] by auto
    then show ?thesis using h(3) False by (auto simp: rb_short_def)
  qed
  then show ?thesis using d b a by blast
qed

lemma rb_delete_fix_ok:
  assumes "rb_del_at m s root k t n"
  shows "\<exists>m' root' t'. rb_delete_fix m root s (rb_root s t) = Some (m', root') \<and> rb_holds m' s root' t' \<and> (\<exists>N. rb_bal N t') \<and>
    \<not> rb_red t' \<and> rb_addrs t' = rb_addrs (rb_fill k t) \<and> rb_kept m s m'"
  using assms
proof (induction "if rb_red t then 0 else length k" arbitrary: m root k t n rule: less_induct)
  case less
  have h: "rb_holds m s root (rb_fill k t)" using less.prems by (simp add: rb_del_at_def)
  have red: "ngx_rbt_is_red m (rb_root s t) = rb_red t" by (rule rb_holds_is_red [OF h])
  show ?case
  proof (cases "rb_root s t = root \<or> rb_red t")
    case True
    then obtain t' where "rb_delete_fix m root s (rb_root s t) = Some (ngx_rbt_black m (rb_root s t), root)"
        "rb_holds (ngx_rbt_black m (rb_root s t)) s root t'" "\<exists>N. rb_bal N t'" "\<not> rb_red t'" "rb_addrs t' = rb_addrs (rb_fill k t)"
      using rb_delete_fix_end [OF less.prems] red by blast
    then show ?thesis using rb_kept_color [of m s "rb_root s t" 0] unfolding rb_black_red_simps by blast
  next
    case False
    then obtain f k1 where k: "k = f # k1" using h by (cases k) (auto simp: rb_holds_def)
    have par: "rb_parent (m (rb_root s t)) = rb_frame_addr f" using rb_del_parent less.prems k by blast
    have "\<exists>m' root' k' t' n'. rb_delete_fix m root s (rb_root s t) = rb_delete_fix m' root' s (rb_root s t') \<and> rb_kept m s m' \<and>
      rb_del_at m' s root' k' t' n' \<and> rb_addrs (rb_fill k' t') = rb_addrs (rb_fill k t) \<and> (rb_red t' \<or> length k' \<le> length k1)"
    proof (cases f)
      case (FL p c wt)
      obtain m' root' k' t' n' where g: "rb_unfix_left m root s (rb_root s t) = (m', root', rb_root s t')" "rb_kept m s m'"
          "rb_del_at m' s root' k' t' n'" "rb_addrs (rb_fill k' t') = rb_addrs (rb_fill k t)" "rb_red t' \<or> length k' \<le> length k1"
        using rb_unfix_left [of m s root p c wt k1 t n] less.prems k FL False by blast
      have "rb_left (m p) = rb_root s t"
        using h k FL rb_holds_at(1) [of m s root k1 t p c wt] by simp
      then have "rb_delete_fix m root s (rb_root s t) = rb_delete_fix m' root' s (rb_root s t')"
        using False red par FL g(1) by (subst rb_delete_fix.simps) simp
      then show ?thesis using g(2-5) by blast
    next
      case (FR wt p c)
      obtain m' root' k' t' n' where g: "rb_unfix_right m root s (rb_root s t) = (m', root', rb_root s t')" "rb_kept m s m'"
          "rb_del_at m' s root' k' t' n'" "rb_addrs (rb_fill k' t') = rb_addrs (rb_fill k t)" "rb_red t' \<or> length k' \<le> length k1"
        using rb_unfix_right [of m s root wt p c k1 t n] less.prems k FR False by blast
      have "rb_bal (Suc n) wt" using less.prems k FR by (cases c) (auto simp: rb_del_at_def)
      then have "wt \<noteq> Lf" by auto
      then have "rb_root s wt \<in> set (rb_addrs wt)" by simp
      moreover have "rb_root s t \<notin> set (rb_addrs wt)"
        using h k FR by (cases t) (auto simp: rb_holds_def rb_distinct_fill rb_set_fill)
      moreover have "rb_left (m p) = rb_root s wt"
        using h k FR rb_holds_at(1) [of m s root k1 wt p c t] by simp
      ultimately have "rb_left (m p) \<noteq> rb_root s t" by auto
      then have "rb_delete_fix m root s (rb_root s t) = rb_delete_fix m' root' s (rb_root s t')"
        using False red par FR g(1) by (subst rb_delete_fix.simps) auto
      then show ?thesis using g(2-5) by blast
    qed
    then obtain m' root' k' t' n' where g: "rb_delete_fix m root s (rb_root s t) = rb_delete_fix m' root' s (rb_root s t')" "rb_kept m s m'"
        "rb_del_at m' s root' k' t' n'" "rb_addrs (rb_fill k' t') = rb_addrs (rb_fill k t)" "rb_red t' \<or> length k' \<le> length k1"
      by blast
    have "(if rb_red t' then 0 else length k') < (if rb_red t then 0 else length k)" using g(5) False k by auto
    then obtain m2 root2 t2 where r: "rb_delete_fix m' root' s (rb_root s t') = Some (m2, root2)" "rb_holds m2 s root2 t2" "\<exists>N. rb_bal N t2"
        "\<not> rb_red t2" "rb_addrs t2 = rb_addrs (rb_fill k' t')" "rb_kept m' s m2"
      using less.hyps [OF _ g(3)] by blast
    show ?thesis
      by (intro exI [of _ m2] exI [of _ root2] exI [of _ t2]) (use g r rb_kept_trans [OF g(2) r(6)] in simp)
  qed
qed

subsection \<open>Orders\<close>

text \<open>The nodes of a tree have the invariants of a red-black tree.\<close>

fun rb_bheight :: "rb_tree \<Rightarrow> nat" where
  "rb_bheight Lf = 0"
| "rb_bheight (Nd l a c r) = rb_bheight l + (if c then 0 else 1)"

lemma rb_bal_bheight: "rb_bal n t \<Longrightarrow> rb_bheight t = n"
  by (induction n t rule: rb_bal.induct) auto

definition rb_wf :: "rb_mem \<Rightarrow> rb_ptr \<Rightarrow> rb_ptr \<Rightarrow> rb_tree \<Rightarrow> bool" where
  "rb_wf m root s t \<longleftrightarrow> rb_holds m s root t \<and> rb_bal (rb_bheight t) t \<and> \<not> rb_red t"

lemma rb_wfI: "rb_holds m s root t \<Longrightarrow> rb_bal n t \<Longrightarrow> \<not> rb_red t \<Longrightarrow> rb_wf m root s t"
  using rb_bal_bheight by (auto simp: rb_wf_def)

text \<open>The place of a node in order: after those that are not greater.\<close>

definition rb_insort :: "(rb_ptr \<Rightarrow> rb_ptr \<Rightarrow> bool) \<Rightarrow> rb_ptr \<Rightarrow> rb_ptr list \<Rightarrow> rb_ptr list" where
  "rb_insort lt x xs = takeWhile (\<lambda>y. \<not> lt x y) xs @ x # dropWhile (\<lambda>y. \<not> lt x y) xs"

definition rb_sorted :: "(rb_ptr \<Rightarrow> rb_ptr \<Rightarrow> bool) \<Rightarrow> rb_ptr list \<Rightarrow> bool" where
  "rb_sorted lt xs \<longleftrightarrow> sorted_wrt (\<lambda>a b. \<not> lt b a) xs"

lemma rb_insort_split:
  "\<forall>y\<in>set xs. \<not> lt x y \<Longrightarrow> \<forall>y\<in>set ys. lt x y \<Longrightarrow> rb_insort lt x (xs @ ys) = xs @ x # ys"
  by (cases ys) (simp_all add: rb_insort_def)

lemma set_insort: "set (rb_insort lt x xs) = insert x (set xs)"
  unfolding rb_insort_def by (metis list.set(2) set_append Un_insert_right takeWhile_dropWhile_id)

lemma mset_insort: "mset (rb_insort lt x xs) = add_mset x (mset xs)"
  unfolding rb_insort_def by (metis mset.simps(2) mset_append takeWhile_dropWhile_id union_mset_add_mset_right)

text \<open>
  The order of a tree is a weak order of the nodes that \<open>ok\<close> admits, and a matter of their keys (and of what the tree does not own).
\<close>

locale rbtree_order =
  fixes lt :: "rb_mem \<Rightarrow> rb_ptr \<Rightarrow> rb_ptr \<Rightarrow> bool"
    and ok :: "rb_mem \<Rightarrow> rb_ptr \<Rightarrow> bool"
  assumes lt_asym: "ok m a \<Longrightarrow> ok m b \<Longrightarrow> lt m a b \<Longrightarrow> \<not> lt m b a"
    and lt_trans: "ok m a \<Longrightarrow> ok m b \<Longrightarrow> ok m c \<Longrightarrow> \<not> lt m a b \<Longrightarrow> \<not> lt m b c \<Longrightarrow> \<not> lt m a c"
    and lt_keys: "(\<And>a. rb_key (m' a) = rb_key (m a)) \<Longrightarrow> lt m' = lt m"
begin

lemma sorted_upwards:
  assumes "rb_sorted (lt m) (xs @ y # ys)" "\<forall>z\<in>set (x # xs @ y # ys). ok m z" "z \<in> set ys" "lt m x y"
  shows "lt m x z"
  using assms lt_trans [of m x z y] by (auto simp: rb_sorted_def sorted_wrt_append)

lemma sorted_downwards:
  assumes "rb_sorted (lt m) (xs @ y # ys)" "\<forall>z\<in>set (x # xs @ y # ys). ok m z" "z \<in> set xs" "\<not> lt m x y"
  shows "\<not> lt m x z"
  using assms lt_trans [of m x y z] by (auto simp: rb_sorted_def sorted_wrt_append)

lemma insort_split:
  assumes "rb_sorted (lt m) xs" "\<forall>z\<in>insert x (set xs). ok m z"
  shows "\<forall>y\<in>set (takeWhile (\<lambda>y. \<not> lt m x y) xs). \<not> lt m x y" "\<forall>y\<in>set (dropWhile (\<lambda>y. \<not> lt m x y) xs). lt m x y"
proof -
  show "\<forall>y\<in>set (takeWhile (\<lambda>y. \<not> lt m x y) xs). \<not> lt m x y" by (auto dest: set_takeWhileD)
  define A where "A = takeWhile (\<lambda>y. \<not> lt m x y) xs"
  show "\<forall>y\<in>set (dropWhile (\<lambda>y. \<not> lt m x y) xs). lt m x y"
  proof (cases "dropWhile (\<lambda>y. \<not> lt m x y) xs")
    case (Cons y ys)
    then have e: "xs = A @ y # ys" using takeWhile_dropWhile_id [of "\<lambda>y. \<not> lt m x y" xs] by (simp add: A_def)
    have "lt m x y" using hd_dropWhile [of "\<lambda>y. \<not> lt m x y" xs] Cons by simp
    moreover have "\<forall>z\<in>set (x # A @ y # ys). ok m z" "rb_sorted (lt m) (A @ y # ys)" using assms unfolding e by auto
    ultimately show ?thesis using sorted_upwards [of m A y ys x] Cons by auto
  next
    case Nil
    show ?thesis unfolding Nil by simp
  qed
qed

lemma insort_sorted:
  assumes "rb_sorted (lt m) xs" "\<forall>z\<in>insert x (set xs). ok m z"
  shows "rb_sorted (lt m) (rb_insort (lt m) x xs)"
proof -
  define A B where AB: "A = takeWhile (\<lambda>y. \<not> lt m x y) xs" "B = dropWhile (\<lambda>y. \<not> lt m x y) xs"
  have e: "xs = A @ B" by (simp add: AB)
  have b: "\<forall>y\<in>set A. \<not> lt m x y" "\<forall>y\<in>set B. lt m x y" unfolding AB by (rule insort_split [OF assms])+
  have "\<not> lt m y x" if "y \<in> set B" for y
    by (rule lt_asym) (use b(2) that assms(2) in \<open>auto simp: e\<close>)
  moreover have "rb_insort (lt m) x xs = A @ x # B" by (simp add: rb_insort_def AB)
  ultimately show ?thesis using b assms(1) unfolding e by (simp add: rb_sorted_def sorted_wrt_append)
qed

end

subsection \<open>The way down\<close>

fun rb_frame_left :: "rb_frame \<Rightarrow> bool" where
  "rb_frame_left (FL a c r) = True"
| "rb_frame_left (FR l a c) = False"

text \<open>What is before the hole, and after it.\<close>

fun rb_before :: "rb_frame list \<Rightarrow> rb_ptr list" where
  "rb_before [] = []"
| "rb_before (FL a c r # k) = rb_before k"
| "rb_before (FR l a c # k) = rb_before k @ rb_addrs l @ [a]"

fun rb_after :: "rb_frame list \<Rightarrow> rb_ptr list" where
  "rb_after [] = []"
| "rb_after (FL a c r # k) = a # rb_addrs r @ rb_after k"
| "rb_after (FR l a c # k) = rb_after k"

lemma rb_addrs_fill: "rb_addrs (rb_fill k t) = rb_before k @ rb_addrs t @ rb_after k"
  by (induction k t rule: rb_fill.induct) simp_all

context rbtree_order begin

lemma walk_ok:
  assumes "rb_holds m s root (rb_fill k (Nd l a c r))" "rb_sorted (lt m) (rb_addrs (rb_fill k (Nd l a c r)))"
    and "\<forall>z\<in>insert x (set (rb_addrs (rb_fill k (Nd l a c r)))). ok m z"
    and "\<forall>y\<in>set (rb_before k). \<not> lt m x y" "\<forall>y\<in>set (rb_after k). lt m x y"
  shows "\<exists>f k'. rb_walk (lt m) m s x a = Some (rb_frame_addr f, rb_frame_left f) \<and> rb_fill (f # k') Lf = rb_fill k (Nd l a c r) \<and>
    (\<forall>y\<in>set (rb_before (f # k')). \<not> lt m x y) \<and> (\<forall>y\<in>set (rb_after (f # k')). lt m x y)"
  using assms
proof (induction "size l + size r" arbitrary: k l a c r rule: less_induct)
  case less
  note h = less.prems
  have e: "rb_addrs (rb_fill k (Nd l a c r)) = (rb_before k @ rb_addrs l) @ a # (rb_addrs r @ rb_after k)"
    by (simp add: rb_addrs_fill)
  have okz: "\<forall>z\<in>set (x # (rb_before k @ rb_addrs l) @ a # (rb_addrs r @ rb_after k)). ok m z" using h(3) unfolding e by simp
  have so: "rb_sorted (lt m) ((rb_before k @ rb_addrs l) @ a # (rb_addrs r @ rb_after k))" using h(2) unfolding e .
  have at: "rb_left (m a) = rb_root s l" "rb_right (m a) = rb_root s r" using rb_holds_at [OF h(1)] by auto
  have z: "s \<notin> set (rb_addrs l)" "s \<notin> set (rb_addrs r)" using h(1) by (auto simp: rb_holds_def rb_set_fill)
  show ?case
  proof (cases "lt m x a")
    case True
    have after: "\<forall>y\<in>set (rb_after (FL a c r # k)). lt m x y" using sorted_upwards [OF so okz _ True] h(5) True by auto
    show ?thesis
    proof (cases l)
      case Lf
      then have "rb_walk (lt m) m s x a = Some (a, True)" using at True by (subst rb_walk.simps) simp
      then show ?thesis using Lf h(4) after by (intro exI [of _ "FL a c r"] exI [of _ k]) auto
    next
      case l: (Nd l1 b d l2)
      then have "rb_walk (lt m) m s x a = rb_walk (lt m) m s x b" using at True z by (subst rb_walk.simps) auto
      then show ?thesis using less.hyps [of l1 l2 "FL a c r # k" b d] h after l by simp
    qed
  next
    case False
    have before: "\<forall>y\<in>set (rb_before (FR l a c # k)). \<not> lt m x y" using sorted_downwards [OF so okz _ False] h(4) False by auto
    show ?thesis
    proof (cases r)
      case Lf
      then have "rb_walk (lt m) m s x a = Some (a, False)" using at False by (subst rb_walk.simps) simp
      then show ?thesis using Lf h(5) before by (intro exI [of _ "FR l a c"] exI [of _ k]) auto
    next
      case r: (Nd r1 b d r2)
      then have "rb_walk (lt m) m s x a = rb_walk (lt m) m s x b" using at False z by (subst rb_walk.simps) auto
      then show ?thesis using less.hyps [of r1 r2 "FR l a c # k" b d] h before r by simp
    qed
  qed
qed

end

lemma rb_link_ok:
  assumes h: "rb_holds m s root (rb_fill (f # k) Lf)" and x: "x \<notin> set (rb_addrs (rb_fill (f # k) Lf))" "x \<noteq> s"
  shows "rb_holds (rb_link m s x (rb_frame_addr f, rb_frame_left f)) s root (rb_fill (f # k) (Nd Lf x True Lf))"
    "rb_kept m s (rb_link m s x (rb_frame_addr f, rb_frame_left f))"
proof -
  let ?p = "rb_frame_addr f" and ?m = "rb_link m s x (rb_frame_addr f, rb_frame_left f)"
  have same: "rb_same m ?m a \<and> rb_parent (?m a) = rb_parent (m a)" if "a \<noteq> ?p" "a \<noteq> x" for a
    using that by (simp add: rb_same_def rb_link_def Let_def)
  have fx: "rb_left (?m x) = s" "rb_right (?m x) = s" "rb_color (?m x) = 1" "rb_parent (?m x) = ?p"
    by (simp_all add: rb_link_def Let_def)
  have xp: "?p \<noteq> x" "x \<notin> set (rb_caddrs k)" "?p \<notin> set (rb_caddrs k)" "distinct (rb_caddrs k)" "?p \<noteq> s"
    using h x by (cases f; auto simp: rb_holds_def rb_distinct_fill rb_set_fill)+
  have ps: "rb_parent (?m ?p) = rb_parent (m ?p)" "rb_color (?m ?p) = rb_color (m ?p)"
      "rb_left (?m ?p) = (if rb_frame_left f then x else rb_left (m ?p))" "rb_right (?m ?p) = (if rb_frame_left f then rb_right (m ?p) else x)"
    using xp by (simp_all add: rb_link_def Let_def)
  have at: "rb_at ?m s Lf x True Lf" using fx x(2) by (simp add: rb_at_def)
  have kc: "rb_crep ?m s k u" if "rb_crep m s k u" "rb_root s u = ?p" for u
    by (rule rb_crep_frame [OF that(1) xp(4)]) (use xp same ps that(2) in metis)+
  have rr: "rb_rep ?m s u" if "rb_rep m s u" "distinct (rb_addrs u)" "?p \<notin> set (rb_addrs u)" "x \<notin> set (rb_addrs u)" for u
    by (rule rb_rep_frame [OF that(1,2)]) (use same that in metis)+
  have "rb_rep ?m s (rb_fill (f # k) (Nd Lf x True Lf))"
  proof (cases f)
    case (FL p c r)
    have h': "rb_at m s Lf p c r" "rb_rep m s r" "rb_crep m s k (Nd Lf p c r)" "distinct (rb_addrs r)" "p \<notin> set (rb_addrs r)" "x \<notin> set (rb_addrs r)"
      using h x FL by (auto simp: rb_holds_def rb_rep_fill rb_distinct_fill rb_set_fill)
    have "r \<noteq> Lf \<Longrightarrow> rb_root s r \<noteq> p \<and> rb_root s r \<noteq> x" using h'(5,6) by (metis rb_root_in)
    then have "rb_at ?m s (Nd Lf x True Lf) p c r" using h'(1) ps fx FL same by (simp add: rb_at_def)
    moreover have "rb_rep ?m s r" using rr h' FL by simp
    moreover have "rb_crep ?m s k (Nd (Nd Lf x True Lf) p c r)"
      using kc [OF h'(3)] rb_crep_hole [of s "Nd Lf p c r" "Nd (Nd Lf x True Lf) p c r" ?m k] FL by simp
    ultimately show ?thesis using FL at by (simp add: rb_rep_fill)
  next
    case (FR r p c)
    have h': "rb_at m s r p c Lf" "rb_rep m s r" "rb_crep m s k (Nd r p c Lf)" "distinct (rb_addrs r)" "p \<notin> set (rb_addrs r)" "x \<notin> set (rb_addrs r)"
      using h x FR by (auto simp: rb_holds_def rb_rep_fill rb_distinct_fill rb_set_fill)
    have "r \<noteq> Lf \<Longrightarrow> rb_root s r \<noteq> p \<and> rb_root s r \<noteq> x" using h'(5,6) by (metis rb_root_in)
    then have "rb_at ?m s r p c (Nd Lf x True Lf)" using h'(1) ps fx FR same by (simp add: rb_at_def)
    moreover have "rb_rep ?m s r" using rr h' FR by simp
    moreover have "rb_crep ?m s k (Nd r p c (Nd Lf x True Lf))"
      using kc [OF h'(3)] rb_crep_hole [of s "Nd r p c Lf" "Nd r p c (Nd Lf x True Lf)" ?m k] FR by simp
    ultimately show ?thesis using FR at by (simp add: rb_rep_fill)
  qed
  moreover have "distinct (rb_addrs (rb_fill (f # k) (Nd Lf x True Lf)))" "s \<notin> set (rb_addrs (rb_fill (f # k) (Nd Lf x True Lf)))"
    using h x by (auto simp: rb_holds_def rb_distinct_fill rb_set_fill)
  moreover have "rb_color (?m s) = 0" using h x(2) by (simp add: rb_holds_def rb_link_def Let_def)
  moreover have "root = rb_root s (rb_fill (f # k) (Nd Lf x True Lf))"
    using h rb_root_fill_other [of "f # k" s Lf "Nd Lf x True Lf"] by (simp add: rb_holds_def)
  ultimately show "rb_holds ?m s root (rb_fill (f # k) (Nd Lf x True Lf))" by (simp add: rb_holds_def)
  show "rb_kept m s ?m" using x(2) xp(5) by (simp add: rb_kept_def rb_link_def Let_def)
qed

subsection \<open>Insertion in order\<close>

text \<open>What a tree asks of its insertion function: to hang the new node, red, where the order wants it.\<close>

locale rbtree_insertion = rbtree_order lt ok
  for lt :: "rb_mem \<Rightarrow> rb_ptr \<Rightarrow> rb_ptr \<Rightarrow> bool" and ok :: "rb_mem \<Rightarrow> rb_ptr \<Rightarrow> bool" +
  fixes ins :: "rb_mem \<Rightarrow> rb_ptr \<Rightarrow> rb_ptr \<Rightarrow> rb_ptr \<Rightarrow> rb_mem option"
  assumes ins_hangs:
    "rb_holds m s root t \<Longrightarrow> t \<noteq> Lf \<Longrightarrow> rb_sorted (lt m) (rb_addrs t) \<Longrightarrow> \<forall>z\<in>insert x (set (rb_addrs t)). ok m z \<Longrightarrow>
     x \<notin> set (rb_addrs t) \<Longrightarrow> x \<noteq> s \<Longrightarrow>
     \<exists>m' k. ins m root x s = Some m' \<and> t = rb_fill k Lf \<and> rb_holds m' s root (rb_fill k (Nd Lf x True Lf)) \<and> rb_kept m s m' \<and>
       rb_addrs (rb_fill k (Nd Lf x True Lf)) = rb_insort (lt m) x (rb_addrs t)"
begin

lemma insert_ok:
  assumes w: "rb_wf m root s t" and so: "rb_sorted (lt m) (rb_addrs t)" "\<forall>z\<in>insert x (set (rb_addrs t)). ok m z"
    and x: "x \<notin> set (rb_addrs t)" "x \<noteq> s"
  shows "\<exists>m' root' t'. ngx_rbtree_insert ins m root s x = Some (m', root') \<and> rb_wf m' root' s t' \<and>
    rb_addrs t' = rb_insort (lt m) x (rb_addrs t) \<and> rb_sorted (lt m') (rb_addrs t') \<and> rb_kept m s m'"
proof -
  have lt: "rb_kept m s m' \<Longrightarrow> lt m' = lt m" for m' by (rule lt_keys) (simp add: rb_kept_def)
  have so': "rb_sorted (lt m) (rb_insort (lt m) x (rb_addrs t))" using so by (rule insort_sorted)
  have h: "rb_holds m s root t" "rb_bal (rb_bheight t) t" "\<not> rb_red t" using w by (auto simp: rb_wf_def)
  have "\<exists>m' root' t'. ngx_rbtree_insert ins m root s x = Some (m', root') \<and> rb_wf m' root' s t' \<and>
    rb_addrs t' = rb_insort (lt m) x (rb_addrs t) \<and> rb_kept m s m'"
  proof (cases "t = Lf")
    case True
    then have "root = s" using h(1) by (simp add: rb_holds_def)
    moreover define m' where "m' = set_color (set_right (set_left (set_parent m x 0) x s) x s) x 0"
    ultimately have e: "ngx_rbtree_insert ins m root s x = Some (m', x)" by (simp add: ngx_rbtree_insert_def)
    have "rb_holds m' s x (Nd Lf x False Lf)" using h(1) x(2) by (simp add: rb_holds_def rb_at_def m'_def)
    then have "rb_wf m' x s (Nd Lf x False Lf)" by (rule rb_wfI [of _ _ _ _ "Suc 0"]) simp_all
    moreover have "rb_kept m s m'" using x(2) by (simp add: rb_kept_def m'_def)
    ultimately show ?thesis using e True by (intro exI [of _ m'] exI [of _ x] exI [of _ "Nd Lf x False Lf"]) (simp add: rb_insort_def)
  next
    case False
    obtain m1 k where i: "ins m root x s = Some m1" "t = rb_fill k Lf" "rb_holds m1 s root (rb_fill k (Nd Lf x True Lf))" "rb_kept m s m1"
        "rb_addrs (rb_fill k (Nd Lf x True Lf)) = rb_insort (lt m) x (rb_addrs t)"
      using ins_hangs [OF h(1) False so x] by blast
    obtain n where n: "rb_kbal n False k" "n = 0" using rb_bal_unfill [of "rb_bheight t" k Lf] h i(2) by auto
    have "rb_ins_state m1 s root x k (rb_insort (lt m) x (rb_addrs t))"
      using i(3,5) n by (intro rb_ins_stateI) auto
    then obtain m2 root2 t2 N where f: "rb_insert_fix m1 root s x = Some (m2, root2)" "rb_holds m2 s root2 t2" "t2 \<noteq> Lf"
        "rb_bal N (rb_blacken t2)" "rb_addrs t2 = rb_insort (lt m) x (rb_addrs t)" "rb_kept m1 s m2"
      using rb_insert_fix_ok by blast
    obtain l a c r where t2: "t2 = Nd l a c r" using f(3) by (cases t2) auto
    then have a: "root2 = a" using f(2) by (simp add: rb_holds_def)
    have "rb_holds (set_color m2 a 0) s root2 (rb_blacken t2)" using rb_holds_color [of m2 s root2 "[]" l a c r 0] f(2) t2 by simp
    then have "rb_wf (set_color m2 a 0) root2 s (rb_blacken t2)" using f(4) by (intro rb_wfI) auto
    moreover have "ngx_rbtree_insert ins m root s x = Some (set_color m2 a 0, root2)"
      using False h(1) i(1) f(1) a by (cases t) (auto simp: ngx_rbtree_insert_def rb_holds_def)
    moreover have "rb_kept m s (set_color m2 a 0)" using i(4) f(6) by (metis rb_kept_color rb_kept_trans)
    ultimately show ?thesis using f(5) by (intro exI [of _ "set_color m2 a 0"] exI [of _ root2] exI [of _ "rb_blacken t2"]) simp
  qed
  then show ?thesis using so' lt by metis
qed

end

context rbtree_order begin

lemma walk_hangs:
  assumes "rb_holds m s root t" "t \<noteq> Lf" "rb_sorted (lt m) (rb_addrs t)" "\<forall>z\<in>insert x (set (rb_addrs t)). ok m z"
    and "x \<notin> set (rb_addrs t)" "x \<noteq> s"
  shows "\<exists>m' k. map_option (rb_link m s x) (rb_walk (lt m) m s x root) = Some m' \<and> t = rb_fill k Lf \<and>
    rb_holds m' s root (rb_fill k (Nd Lf x True Lf)) \<and> rb_kept m s m' \<and>
    rb_addrs (rb_fill k (Nd Lf x True Lf)) = rb_insort (lt m) x (rb_addrs t)"
proof -
  obtain l a c r where t: "t = rb_fill [] (Nd l a c r)" using assms(2) by (cases t) auto
  then have a: "a = root" using assms(1) by (simp add: rb_holds_def)
  obtain f k where w: "rb_walk (lt m) m s x root = Some (rb_frame_addr f, rb_frame_left f)" "rb_fill (f # k) Lf = t"
      "\<forall>y\<in>set (rb_before (f # k)). \<not> lt m x y" "\<forall>y\<in>set (rb_after (f # k)). lt m x y"
    using walk_ok [of m s root "[]" l a c r x] assms(1,3,4) unfolding t a by auto
  have "rb_addrs (rb_fill (f # k) (Nd Lf x True Lf)) = rb_insort (lt m) x (rb_addrs t)"
    using w(3,4) unfolding w(2) [symmetric] rb_addrs_fill by (simp add: rb_insort_split)
  then show ?thesis
    using w(1,2) rb_link_ok [of m s root f k x] assms(1,5,6)
    by (intro exI [of _ "rb_link m s x (rb_frame_addr f, rb_frame_left f)"] exI [of _ "f # k"]) simp
qed

end

subsection \<open>The orders of the insertion functions\<close>

interpretation key_order: rbtree_order key_less "\<lambda>m a. True"
  by unfold_locales (auto simp: key_less_def fun_eq_iff)

interpretation key_insertion: rbtree_insertion key_less "\<lambda>m a. True" ngx_rbtree_insert_value
  by unfold_locales (simp only: ngx_rbtree_insert_value_def, rule key_order.walk_hangs)

text \<open>Times within half of the range of the clock, from a time \<open>base\<close> on.\<close>

definition timer_near :: "uint64_t \<Rightarrow> rb_mem \<Rightarrow> rb_ptr \<Rightarrow> bool" where
  "timer_near base m a \<longleftrightarrow> unat (rb_key (m a) - base) < 2 ^ 63"

lemma sint_diff_near:
  fixes x y :: uint64_t
  assumes "unat x < 2 ^ 63" "unat y < 2 ^ 63"
  shows "sint (x - y) = int (unat x) - int (unat y)"
proof -
  have u: "int (unat x) < 2 ^ 63" "int (unat y) < 2 ^ 63" using assms by (metis of_nat_less_iff of_nat_numeral of_nat_power)+
  have "- (2 ^ 63) \<le> i - j \<and> i - j < 2 ^ 63" if "0 \<le> i" "i < 2 ^ 63" "0 \<le> j" "j < 2 ^ 63" for i j :: int
    using that by simp
  then have r: "- (2 ^ 63) \<le> int (unat x) - int (unat y) \<and> int (unat x) - int (unat y) < 2 ^ 63"
    using u by (meson of_nat_0_le_iff)
  have "x - y = word_of_int (int (unat x) - int (unat y))" by simp
  then have "sint (x - y) = sint (word_of_int (int (unat x) - int (unat y)) :: uint64_t)" by (rule arg_cong)
  also have "\<dots> = signed_take_bit 63 (int (unat x) - int (unat y))" by (simp only: signed_of_int) simp
  also have "\<dots> = int (unat x) - int (unat y)" using r by (intro signed_take_bit_int_eq_self) blast+
  finally show ?thesis .
qed

lemma timer_less_near:
  assumes "timer_near base m a" "timer_near base m b"
  shows "timer_less m a b \<longleftrightarrow> unat (rb_key (m a) - base) < unat (rb_key (m b) - base)"
proof -
  have "rb_key (m a) - rb_key (m b) = (rb_key (m a) - base) - (rb_key (m b) - base)" by simp
  then have "sint (rb_key (m a) - rb_key (m b)) = int (unat (rb_key (m a) - base)) - int (unat (rb_key (m b) - base))"
    using sint_diff_near assms unfolding timer_near_def by metis
  then show ?thesis by (simp add: timer_less_def word_sless_alt del: of_nat_unat)
qed

interpretation timer_order: rbtree_order timer_less "timer_near base" for base
  by unfold_locales (auto simp: timer_less_near, auto simp: timer_less_def fun_eq_iff)

interpretation timer_insertion: rbtree_insertion timer_less "timer_near base" ngx_rbtree_insert_timer_value for base
  by unfold_locales (simp only: ngx_rbtree_insert_timer_value_def, rule timer_order.walk_hangs)

subsection \<open>Deletion\<close>

lemma rb_holds_frame:
  assumes "rb_holds m s root t" "\<forall>a\<in>insert s (set (rb_addrs t)). m' a = m a"
  shows "rb_holds m' s root t"
proof -
  have "rb_rep m' s t" by (rule rb_rep_frame [of m]) (use assms in \<open>auto simp: rb_holds_def rb_same_def\<close>)
  then show ?thesis using assms by (simp add: rb_holds_def)
qed

text \<open>The tree \<open>u\<close> in the place of \<open>t\<close>.\<close>

lemma rb_replace:
  assumes h: "rb_holds m s root (rb_fill k t)" and t: "t \<noteq> Lf" and u: "rb_rep m s u" "distinct (rb_addrs u)"
    and sub: "set (rb_addrs u) \<subseteq> set (rb_addrs t) - {rb_root s t}"
    and r: "rb_relink_left (set_parent m (rb_root s u) (rb_parent (m (rb_root s t)))) root (rb_root s t) (rb_root s u) = (m', root')"
  shows "rb_holds m' s root' (rb_fill k u)" "rb_parent (m' a) = (if a = rb_root s u then rb_parent (m (rb_root s t)) else rb_parent (m a))"
    "rb_key (m' a) = rb_key (m a)" "a \<notin> set (rb_caddrs k) \<Longrightarrow> a \<noteq> rb_root s u \<Longrightarrow> m' a = m a"
proof -
  let ?x = "rb_root s t" and ?y = "rb_root s u"
  let ?m = "set_parent m ?y (rb_parent (m ?x))"
  have d: "distinct (rb_caddrs k)" "set (rb_caddrs k) \<inter> set (rb_addrs t) = {}" "s \<notin> set (rb_caddrs k)" "s \<notin> set (rb_addrs t)"
      "?x \<in> set (rb_addrs t)" "rb_crep m s k t" "rb_color (m s) = 0" "root = rb_root s (rb_fill k t)"
    using h t by (auto simp: rb_holds_def rb_distinct_fill rb_set_fill rb_rep_fill)
  have y: "?y \<notin> set (rb_caddrs k)" "?y \<noteq> ?x" using d(2-5) sub by (cases u; auto)+
  have c: "rb_crep ?m s k t" by (rule rb_crep_frame [OF d(6,1)]) (use y in \<open>auto simp: rb_same_def\<close>)
  have x: "?x \<noteq> s" "?x \<notin> set (rb_caddrs k)" using d by auto
  have kr: "?x = root \<longleftrightarrow> k = []" using h t by (cases t) (auto dest: rb_holds_root)
  have p: "u \<noteq> Lf \<longrightarrow> rb_parent (?m ?y) = rb_parent (?m ?x)" using y(2) by simp
  have rl: "rb_crep m' s k u" "root' = (if k = [] then ?y else root)" "\<And>a. a \<notin> set (rb_caddrs k) \<Longrightarrow> m' a = ?m a"
    using rb_relink [OF c t d(1) x(2,1) kr p r] by auto
  have ru: "rb_rep ?m s u" by (rule rb_rep_frame [OF u]) (auto simp: rb_same_def)
  have "m' a = ?m a" if "a \<in> set (rb_addrs u)" for a using rl(3) [of a] sub d(2) that by blast
  then have "rb_rep m' s u" by (intro rb_rep_frame [OF ru u(2)]) (auto simp: rb_same_def)
  moreover have "root' = rb_root s (rb_fill k u)" using rl(2) d(8) rb_root_fill_other [of k s t u] by (cases "k = []") simp_all
  moreover have "distinct (rb_addrs (rb_fill k u))" "s \<notin> set (rb_addrs (rb_fill k u))"
    using d u(2) sub by (auto simp: rb_distinct_fill rb_set_fill)
  ultimately show "rb_holds m' s root' (rb_fill k u)" using rl(1,3) d(3,7) by (simp add: rb_holds_def rb_rep_fill)
  show "rb_parent (m' a) = (if a = rb_root s u then rb_parent (m (rb_root s t)) else rb_parent (m a))" "rb_key (m' a) = rb_key (m a)"
    using rb_relink_fields [OF r, of a] by auto
  show "a \<notin> set (rb_caddrs k) \<Longrightarrow> a \<noteq> ?y \<Longrightarrow> m' a = m a" using rl(3) [of a] by (simp add: set_parent_def)
qed

text \<open>The node \<open>y\<close> in the place of \<open>x\<close>.\<close>

lemma rb_take_place:
  assumes h: "rb_crep m s k (Nd l x c r)" "rb_rep m s l" "rb_rep m s r" "rb_left (m x) = rb_root s l" "rb_right (m x) = rb_root s r"
      "(rb_color (m x) \<noteq> 0) = c" "rb_color (m s) = 0" "root = rb_root s (rb_fill k (Nd l x c r))"
    and d: "distinct (rb_addrs (rb_fill k (Nd l x c r)))" "s \<notin> set (rb_addrs (rb_fill k (Nd l x c r)))"
    and y: "y \<notin> set (rb_addrs (rb_fill k (Nd l x c r)))" "y \<noteq> s"
  obtains m' root' where "rb_take_place m root s x y = (m', root')" "rb_holds m' s root' (rb_fill k (Nd l y c r))" "rb_kept m s m'"
proof -
  let ?t = "Nd l x c r" and ?u = "Nd l y c r"
  define m1 where "m1 = set_color (set_parent (set_right (set_left m y (rb_left (m x))) y (rb_right (m x))) y (rb_parent (m x))) y (rb_color (m x))"
  have f1: "m1 a = m a" if "a \<noteq> y" for a using that by (simp add: m1_def set_left_def set_right_def set_parent_def set_color_def)
  have fy: "rb_left (m1 y) = rb_root s l" "rb_right (m1 y) = rb_root s r" "(rb_color (m1 y) \<noteq> 0) = c" "rb_parent (m1 y) = rb_parent (m x)"
    using h(4-6) by (simp_all add: m1_def)
  have n: "x \<noteq> y" "x \<notin> set (rb_caddrs k)" "y \<notin> set (rb_caddrs k)" "x \<noteq> s" "distinct (rb_caddrs k)" "distinct (rb_addrs l)" "distinct (rb_addrs r)"
      "y \<notin> set (rb_addrs l)" "y \<notin> set (rb_addrs r)" "s \<notin> set (rb_addrs l)" "s \<notin> set (rb_addrs r)" "s \<notin> set (rb_caddrs k)"
      "set (rb_addrs l) \<inter> set (rb_addrs r) = {}" "set (rb_caddrs k) \<inter> (set (rb_addrs l) \<union> set (rb_addrs r)) = {}"
    using d y by (auto simp: rb_distinct_fill rb_set_fill)
  have "m1 a = m a" if "a \<in> set (rb_caddrs k)" for a using f1 n(3) that by metis
  then have c1: "rb_crep m1 s k ?t" by (intro rb_crep_frame [OF h(1) n(5)]) (use n(1) f1 in \<open>auto simp: rb_same_def\<close>)
  have kr: "rb_root s ?t = root \<longleftrightarrow> k = []" using h(8) rb_root_fill_head [of k s ?t] n(2) by (cases "k = []") auto
  obtain m2 root' where m2: "rb_relink_left m1 root x y = (m2, root')" by fastforce
  have rl: "rb_crep m2 s k ?u" "root' = (if k = [] then y else root)" "\<And>a. a \<notin> set (rb_caddrs k) \<Longrightarrow> m2 a = m1 a"
    using rb_relink [OF c1 _ n(5) _ _ kr, of ?u m2 root'] m2 n fy f1 by auto
  have rf: "rb_parent (m2 a) = rb_parent (m1 a)" "rb_color (m2 a) = rb_color (m1 a)" "rb_key (m2 a) = rb_key (m1 a)" for a
    using rb_relink_fields [OF m2, of a] by auto
  have y2: "m2 y = m1 y" using rl(3) n(3) by blast
  define m3 where "m3 = (if rb_root s l \<noteq> s then set_parent m2 (rb_root s l) y else m2)"
  define m' where "m' = (if rb_root s r \<noteq> s then set_parent m3 (rb_root s r) y else m3)"
  have ly: "rb_root s l \<noteq> y" "rb_root s r \<noteq> y" using n(8,9) y(2) rb_root_neq by metis+
  have "rb_right (m3 y) = rb_root s r" using fy y2 by (simp add: m3_def)
  then have e: "rb_take_place m root s x y = (m', root')"
    using m2 fy y2 n(1) by (simp add: rb_take_place_def Let_def m'_def m3_def ngx_rbt_copy_color_def flip: m1_def)
  have same: "rb_same m2 m' a" for a by (simp add: m'_def m3_def rb_same_def)
  have par: "rb_parent (m' a) = rb_parent (m2 a)" if "a \<noteq> rb_root s l \<or> a = s" "a \<noteq> rb_root s r \<or> a = s" for a
    using that by (auto simp: m'_def m3_def)
  have lr: "l \<noteq> Lf \<Longrightarrow> rb_root s l \<in> set (rb_addrs l)" "r \<noteq> Lf \<Longrightarrow> rb_root s r \<in> set (rb_addrs r)" by simp_all
  have out: "a \<noteq> rb_root s l \<or> a = s" "a \<noteq> rb_root s r \<or> a = s" if "a \<in> set (rb_caddrs k)" for a
    using that lr n(14) by (cases l; cases r; auto)+
  have "rb_crep m' s k ?u"
    by (rule rb_crep_frame [OF rl(1) n(5)]) (use same par out ly in auto)
  moreover have "rb_rep m' s l"
  proof (rule rb_rep_frame [OF h(2) n(6)])
    show "\<forall>a\<in>set (rb_addrs l). rb_same m m' a" using same rl(3) f1 n(8,14) by (fastforce simp: rb_same_def)
    show "\<forall>a\<in>set (rb_addrs l). a \<noteq> rb_root s l \<longrightarrow> rb_parent (m' a) = rb_parent (m a)"
      using par rf(1) f1 n(8,13) lr(2) by (metis IntI empty_iff rb_root.simps(1))
  qed
  moreover have "rb_rep m' s r"
  proof (rule rb_rep_frame [OF h(3) n(7)])
    show "\<forall>a\<in>set (rb_addrs r). rb_same m m' a" using same rl(3) f1 n(9,14) by (fastforce simp: rb_same_def)
    show "\<forall>a\<in>set (rb_addrs r). a \<noteq> rb_root s r \<longrightarrow> rb_parent (m' a) = rb_parent (m a)"
      using par rf(1) f1 n(9,13) lr(1) by (metis IntI empty_iff rb_root.simps(1))
  qed
  moreover have "rb_at m' s l y c r"
  proof -
    have "rb_left (m' y) = rb_root s l" "rb_right (m' y) = rb_root s r" "(rb_color (m' y) \<noteq> 0) = c"
      using same [of y] fy y2 by (auto simp: rb_same_def)
    moreover have "l \<noteq> Lf \<Longrightarrow> rb_parent (m' (rb_root s l)) = y" "r \<noteq> Lf \<Longrightarrow> rb_parent (m' (rb_root s r)) = y"
      using rb_root_sentinel [OF n(10)] rb_root_sentinel [OF n(11)] by (auto simp: m'_def m3_def)
    ultimately show ?thesis using y(2) by (simp add: rb_at_def)
  qed
  moreover have "root' = rb_root s (rb_fill k ?u)" using rl(2) h(8) rb_root_fill_other [of k s ?t ?u] by (cases "k = []") simp_all
  moreover have "distinct (rb_addrs (rb_fill k ?u))" "s \<notin> set (rb_addrs (rb_fill k ?u))"
    using d y by (auto simp: rb_distinct_fill rb_set_fill)
  moreover have "rb_color (m' s) = 0" using same [of s] rf(2) f1 y(2) h(7) by (simp add: rb_same_def)
  ultimately have "rb_holds m' s root' (rb_fill k ?u)" by (simp add: rb_holds_def rb_rep_fill)
  moreover have "rb_kept m s m'"
  proof -
    have "rb_key (m' a) = rb_key (m2 a)" for a by (simp add: m'_def m3_def)
    then have "rb_key (m' a) = rb_key (m a)" for a using rf(3) [of a] f1 [of a] by (cases "a = y") (simp_all add: m1_def)
    moreover have "rb_parent (m' s) = rb_parent (m s)" using par [of s] rf(1) f1 [of s] y(2) by simp
    ultimately show ?thesis by (simp add: rb_kept_def)
  qed
  ultimately show thesis using that e by blast
qed

lemma rb_focus: "x \<in> set (rb_addrs t) \<Longrightarrow> \<exists>k l c r. t = rb_fill k (Nd l x c r)"
proof (induction t)
  case (Nd l a c r)
  consider "x = a" | "x \<in> set (rb_addrs l)" | "x \<in> set (rb_addrs r)" using Nd.prems by auto
  then show ?case
  proof cases
    case 1
    then show ?thesis by (intro exI [of _ "[]"]) auto
  next
    case 2
    then obtain k l' c' r' where "l = rb_fill k (Nd l' x c' r')" using Nd.IH by blast
    then show ?thesis by (intro exI [of _ "k @ [FL a c r]"]) auto
  next
    case 3
    then obtain k l' c' r' where "r = rb_fill k (Nd l' x c' r')" using Nd.IH by blast
    then show ?thesis by (intro exI [of _ "k @ [FR l a c]"]) auto
  qed
qed simp

lemma rb_min_ok:
  assumes "rb_holds m s root (rb_fill k (Nd l a c r))"
  shows "\<exists>k' y d v. ngx_rbtree_min m a s = Some y \<and> rb_before k' = [] \<and> rb_fill k' (Nd Lf y d v) = Nd l a c r"
  using assms
proof (induction "size l" arbitrary: k l a c r rule: less_induct)
  case less
  have at: "rb_left (m a) = rb_root s l" "s \<notin> set (rb_addrs l)"
    using less.prems rb_holds_at(1) [OF less.prems] by (auto simp: rb_holds_def rb_set_fill)
  show ?case
  proof (cases l)
    case Lf
    then show ?thesis using at by (intro exI [of _ "[]"]) (auto simp: ngx_rbtree_min.simps)
  next
    case l: (Nd l1 b e l2)
    have "rb_holds m s root (rb_fill (FL a c r # k) (Nd l1 b e l2))" using less.prems l by simp
    then obtain k' y d v where "ngx_rbtree_min m b s = Some y" "rb_before k' = []" "rb_fill k' (Nd Lf y d v) = Nd l1 b e l2"
      using less.hyps [of l1 "FL a c r # k" b e l2] l by auto
    moreover have "ngx_rbtree_min m a s = ngx_rbtree_min m b s" using at l by (subst ngx_rbtree_min.simps) auto
    moreover have "rb_before (k' @ [FL a c r]) = rb_before k'" for k' by (induction k' rule: rb_before.induct) auto
    ultimately show ?thesis using l by (intro exI [of _ "k' @ [FL a c r]"]) auto
  qed
qed

lemma rb_caddrs_append: "rb_caddrs (k @ k') = rb_caddrs k @ rb_caddrs k'"
  by (induction k rule: rb_caddrs.induct) auto

lemma rb_unlink_relink:
  assumes "x \<noteq> root" "x \<noteq> temp"
  shows "rb_relink_left (set_parent m temp (rb_parent (m x))) root x temp = (set_parent (rb_unlink m x temp) temp (rb_parent (m x)), root)"
proof -
  have "set_left (set_parent m a p) b v = set_parent (set_left m b v) a p" "set_right (set_parent m a p) b v = set_parent (set_right m b v) a p" for a b p v
    by (simp_all add: set_left_def set_right_def set_parent_def fun_eq_iff)
  then show ?thesis using assms by (simp add: rb_relink_left_def rb_unlink_def)
qed

lemma rb_unlink_parent [simp]: "rb_parent (rb_unlink m x temp a) = rb_parent (m a)"
  by (simp add: rb_unlink_def)

lemma rb_kbal_rename: "rb_kbal n d (kr @ FR l x c # k) = rb_kbal n d (kr @ FR l y c # k)"
proof (induction kr arbitrary: n d)
  case Nil
  show ?case by (cases c) auto
next
  case (Cons f kr)
  show ?case
  proof (cases f)
    case (FL a e r)
    then show ?thesis using Cons by (cases e) auto
  next
    case (FR l a e)
    then show ?thesis using Cons by (cases e) auto
  qed
qed

lemma rb_cut:
  assumes h: "rb_holds m s root (rb_fill k v)" and b: "rb_kbal n d k" "rb_bal n (Nd v1 y d v2)"
    and v: "v1 = Lf \<and> v2 = v \<or> v2 = Lf \<and> v1 = v" and p: "v = Lf \<longrightarrow> k \<noteq> [] \<longrightarrow> rb_parent (m s) = rb_frame_addr (hd k)"
  shows "\<exists>m' root' t'. (if d then Some (m, root) else rb_delete_fix m root s (rb_root s v)) = Some (m', root') \<and>
    rb_wf m' root' s t' \<and> rb_addrs t' = rb_addrs (rb_fill k v) \<and> rb_kept m s m'"
proof (cases d)
  case True
  then have "rb_bal n v" "rb_kbal n (rb_red v) k" using b v rb_kbal_weak by auto
  then obtain N where "rb_bal N (rb_fill k v)" "\<not> rb_red (rb_fill k v)" using rb_bal_fill by blast
  then have "rb_wf m root s (rb_fill k v)" using h rb_wfI by blast
  then show ?thesis using True by (intro exI [of _ m] exI [of _ root] exI [of _ "rb_fill k v"]) simp
next
  case False
  then obtain n' where n: "n = Suc n'" "rb_bal n' v" using b(2) v rb_bal_black [of n v1 y v2] by auto
  have "rb_kbal (Suc n') False k" using b(1) n False by simp
  moreover have "rb_short n' v" using n(2) rb_bal_blacken by (simp add: rb_short_def)
  ultimately have "rb_del_at m s root k v n'" using h p by (simp add: rb_del_at_def)
  then obtain m' root' t' N where "rb_delete_fix m root s (rb_root s v) = Some (m', root')" "rb_holds m' s root' t'" "rb_bal N t'"
      "\<not> rb_red t'" "rb_addrs t' = rb_addrs (rb_fill k v)" "rb_kept m s m'"
    using rb_delete_fix_ok by blast
  then show ?thesis using False rb_wfI by (intro exI [of _ m'] exI [of _ root'] exI [of _ t']) simp
qed

text \<open>What a deletion leaves: the keys of the other nodes.\<close>

definition rb_deleted :: "rb_mem \<Rightarrow> rb_ptr \<Rightarrow> rb_mem \<Rightarrow> bool" where
  "rb_deleted m x m' \<longleftrightarrow> (\<forall>a. rb_key (m' a) = (if a = x then 0 else rb_key (m a)))"

lemma rb_clean_fields [simp]:
  "a \<noteq> x \<Longrightarrow> rb_clean m x a = m a" "rb_key (rb_clean m x a) = (if a = x then 0 else rb_key (m a))" "rb_color (rb_clean m x a) = rb_color (m a)"
  by (simp_all add: rb_clean_def)

lemma rb_holds_clean: "rb_holds m s root t \<Longrightarrow> x \<notin> insert s (set (rb_addrs t)) \<Longrightarrow> rb_holds (rb_clean m x) s root t"
  by (rule rb_holds_frame) (assumption, metis rb_clean_fields(1))

text \<open>A node with at most one child, which takes its place.\<close>

lemma rb_delete_leaf:
  assumes w: "rb_wf m root s (rb_fill k (Nd l x c r))" and u: "l = Lf \<and> u = r \<or> l \<noteq> Lf \<and> r = Lf \<and> u = l"
  shows "\<exists>m' root' t'. ngx_rbtree_delete m root s x = Some (m', root') \<and> rb_wf m' root' s t' \<and> rb_addrs t' = rb_addrs (rb_fill k u) \<and>
    rb_deleted m x m'"
proof -
  have h: "rb_holds m s root (rb_fill k (Nd l x c r))" using w by (simp add: rb_wf_def)
  obtain n where b: "rb_kbal n c k" "rb_bal n (Nd l x c r)" using w rb_bal_unfill [of _ k "Nd l x c r"] by (auto simp: rb_wf_def)
  have at: "rb_left (m x) = rb_root s l" "rb_right (m x) = rb_root s r" "x \<noteq> s" "s \<notin> set (rb_addrs l)" "s \<notin> set (rb_addrs r)"
      "x \<notin> set (rb_addrs u)" "distinct (rb_addrs u)" "rb_rep m s u" "x \<notin> set (rb_caddrs k)"
    using rb_holds_at [OF h] h u by (auto simp: rb_holds_def rb_set_fill rb_distinct_fill rb_rep_fill)
  have sub: "set (rb_addrs u) \<subseteq> set (rb_addrs (Nd l x c r)) - {rb_root s (Nd l x c r)}" using u at(6) by auto
  have nx: "x \<noteq> rb_root s u" using at(3,6) rb_root_neq [of x u s] by auto
  have red: "ngx_rbt_is_red m x = c" using rb_holds_is_red [OF h] by simp
  have sel: "(if rb_left (m x) = s then Some (rb_right (m x), x)
      else if rb_right (m x) = s then Some (rb_left (m x), x)
      else map_option (\<lambda>y. (if rb_left (m y) \<noteq> s then rb_left (m y) else rb_right (m y), y)) (ngx_rbtree_min m (rb_right (m x)) s)) =
      Some (rb_root s u, x)"
    using u at rb_root_sentinel [OF at(4)] by auto
  show ?thesis
  proof (cases "k = []")
    case True
    then have root: "root = x" using h by (simp add: rb_holds_def)
    let ?m = "set_color m (rb_root s u) 0"
    have e: "ngx_rbtree_delete m root s x = Some (rb_clean ?m x, rb_root s u)"
      using root unfolding ngx_rbtree_delete_def sel by simp
    have hu: "rb_holds m s (rb_root s u) u" using h at u True by (auto simp: rb_holds_def)
    then have "rb_holds ?m s (rb_root s u) (rb_blacken u)"
    proof (cases u)
      case Lf
      then show ?thesis using hu by (simp add: rb_holds_def)
    next
      case (Nd a b e f)
      then show ?thesis using hu rb_holds_color [of m s "rb_root s u" "[]" a b e f 0] by simp
    qed
    then have "rb_holds (rb_clean ?m x) s (rb_root s u) (rb_blacken u)" using at by (intro rb_holds_clean) auto
    moreover have "\<exists>N. rb_bal N (rb_blacken u)"
    proof -
      have "\<exists>n. rb_bal n u" using b(2) u by (cases c; cases n) auto
      then show ?thesis using rb_bal_blacken by (cases "rb_red u") auto
    qed
    ultimately have "rb_wf (rb_clean ?m x) (rb_root s u) s (rb_blacken u)" using rb_wfI by auto
    then show ?thesis using e True by (intro exI [of _ "rb_clean ?m x"] exI [of _ "rb_root s u"] exI [of _ "rb_blacken u"]) (simp add: rb_deleted_def)
  next
    case False
    then have nr: "x \<noteq> root" using rb_holds_root [OF h] by simp
    obtain f k' where k: "k = f # k'" using False by (cases k) auto
    define m1 where "m1 = set_parent (rb_unlink m x (rb_root s u)) (rb_root s u) (rb_parent (m x))"
    have rp: "rb_relink_left (set_parent m (rb_root s u) (rb_parent (m (rb_root s (Nd l x c r))))) root (rb_root s (Nd l x c r)) (rb_root s u) = (m1, root)"
      using rb_unlink_relink [OF nr nx] by (simp add: m1_def)
    have h1: "rb_holds m1 s root (rb_fill k u)" "\<And>a. rb_key (m1 a) = rb_key (m a)"
      "rb_parent (m1 (rb_root s u)) = rb_parent (m x)"
      using rb_replace [OF h _ at(8,7) sub rp] by auto
    have "rb_parent (m x) = rb_frame_addr f" using rb_holds_up(1) [of m s root f k' l x c r] h k by simp
    then have p: "u = Lf \<longrightarrow> k \<noteq> [] \<longrightarrow> rb_parent (rb_clean m1 x s) = rb_frame_addr (hd k)" using h1(3) k at(3) by auto
    have hc: "rb_holds (rb_clean m1 x) s root (rb_fill k u)" using h1(1) at by (intro rb_holds_clean) (auto simp: rb_set_fill)
    obtain m' root' t' where t': "(if c then Some (rb_clean m1 x, root) else rb_delete_fix (rb_clean m1 x) root s (rb_root s u)) = Some (m', root')"
        "rb_wf m' root' s t'" "rb_addrs t' = rb_addrs (rb_fill k u)" "rb_kept (rb_clean m1 x) s m'"
      using rb_cut [OF hc b _ p] u by blast
    have "rb_splice m root s x x (rb_root s u) = (m1, root)" by (simp add: rb_splice_def m1_def)
    then have "ngx_rbtree_delete m root s x = Some (m', root')"
      using nr red t'(1) unfolding ngx_rbtree_delete_def sel by simp
    moreover have "rb_deleted m x m'" using t'(4) h1(2) by (simp add: rb_kept_def rb_deleted_def)
    ultimately show ?thesis using t'(2,3) by blast
  qed
qed

text \<open>A node with two children: the least node after it takes its place.\<close>

lemma rb_delete_inner:
  assumes w: "rb_wf m root s (rb_fill k (Nd l x c r))" and lr: "l \<noteq> Lf" "r \<noteq> Lf"
  shows "\<exists>m' root' t'. ngx_rbtree_delete m root s x = Some (m', root') \<and> rb_wf m' root' s t' \<and>
    rb_addrs t' = rb_before k @ rb_addrs l @ rb_addrs r @ rb_after k \<and> rb_deleted m x m'"
proof -
  have h: "rb_holds m s root (rb_fill k (Nd l x c r))" using w by (simp add: rb_wf_def)
  obtain r1 a e r2 where r: "r = Nd r1 a e r2" using lr(2) by (cases r) auto
  have hr: "rb_holds m s root (rb_fill (FR l x c # k) (Nd r1 a e r2))" using h r by simp
  obtain kr y d v where y: "ngx_rbtree_min m a s = Some y" "rb_before kr = []" "rb_fill kr (Nd Lf y d v) = r"
    using rb_min_ok [OF hr] r by blast
  define K where "K = kr @ FR l x c # k"
  have hK: "rb_holds m s root (rb_fill K (Nd Lf y d v))" using h y(3) by (simp add: K_def)
  obtain n where b: "rb_kbal n d K" "rb_bal n (Nd Lf y d v)"
    using w rb_bal_unfill [of _ K "Nd Lf y d v"] y(3) by (auto simp: rb_wf_def K_def)
  have at: "rb_left (m x) = rb_root s l" "rb_right (m x) = rb_root s r" "(rb_color (m x) \<noteq> 0) = c" "x \<noteq> s"
      "s \<notin> set (rb_addrs l)" "s \<notin> set (rb_addrs r)" "x \<notin> set (rb_addrs r)"
    using rb_holds_at [OF h] h by (auto simp: rb_holds_def rb_set_fill rb_distinct_fill)
  have ay: "rb_left (m y) = s" "rb_right (m y) = rb_root s v" "y \<noteq> s" using rb_holds_at [OF hK] by auto
  have yv: "y \<notin> set (rb_addrs v)" "y \<in> set (rb_addrs r)" "rb_rep m s v" "distinct (rb_addrs v)" "y \<notin> set (rb_caddrs K)" "s \<notin> set (rb_addrs v)"
    using hK y(3) by (auto simp: rb_holds_def rb_rep_fill rb_distinct_fill rb_set_fill)
  have ya: "rb_addrs r = y # rb_addrs (rb_fill kr v)" using y(2) y(3) by (auto simp: rb_addrs_fill)
  have xy: "x \<noteq> y" "y \<noteq> root" "y \<noteq> rb_root s v" "ngx_rbt_is_red m y = d"
    using yv at(7) rb_holds_root [OF hK] rb_holds_is_red [OF hK] ay(3) rb_root_neq [of y v s] by (auto simp: K_def)
  have sel: "(if rb_left (m x) = s then Some (rb_right (m x), x)
      else if rb_right (m x) = s then Some (rb_left (m x), x)
      else map_option (\<lambda>y. (if rb_left (m y) \<noteq> s then rb_left (m y) else rb_right (m y), y)) (ngx_rbtree_min m (rb_right (m x)) s)) =
      Some (rb_root s v, y)"
    using lr at ay y(1) r rb_root_sentinel [OF at(5)] by auto
  have py: "rb_parent (m y) = rb_frame_addr (hd K)"
    using rb_holds_up(1) [of m s root "hd K" "tl K" Lf y d v] hK by (simp add: K_def)
  have dK: "distinct (rb_caddrs K)" using hK by (simp add: rb_holds_def rb_distinct_fill)
  have xK: "x = rb_frame_addr (hd K) \<longleftrightarrow> kr = []"
  proof (cases kr)
    case (Cons f kr')
    then show ?thesis using dK by (cases f) (auto simp: K_def rb_caddrs_append)
  qed (simp add: K_def)
  text \<open>The node \<open>y\<close> is taken out.\<close>
  define m1 where "m1 = set_parent (rb_unlink m y (rb_root s v)) (rb_root s v) (rb_parent (m y))"
  have rp: "rb_relink_left (set_parent m (rb_root s v) (rb_parent (m (rb_root s (Nd Lf y d v))))) root (rb_root s (Nd Lf y d v)) (rb_root s v) = (m1, root)"
    using rb_unlink_relink [OF xy(2,3)] by (simp add: m1_def)
  have sub: "set (rb_addrs v) \<subseteq> set (rb_addrs (Nd Lf y d v)) - {rb_root s (Nd Lf y d v)}" using yv(1) by auto
  have h1: "rb_holds m1 s root (rb_fill K v)" "\<And>a. rb_key (m1 a) = rb_key (m a)" "rb_parent (m1 (rb_root s v)) = rb_parent (m y)"
    using rb_replace [OF hK _ yv(3,4) sub rp] by auto
  text \<open>It takes the place of \<open>x\<close>.\<close>
  define m2 where "m2 = (if rb_parent (m y) = x then set_parent (rb_unlink m y (rb_root s v)) (rb_root s v) y
    else set_parent (rb_unlink m y (rb_root s v)) (rb_root s v) (rb_parent (m y)))"
  have m2: "rb_same m1 m2 a" "rb_key (m2 a) = rb_key (m1 a)" "a \<noteq> rb_root s v \<Longrightarrow> m2 a = m1 a" for a
    by (simp_all add: m1_def m2_def rb_same_def set_parent_def)
  let ?R = "rb_fill kr v"
  have h1': "rb_holds m1 s root (rb_fill k (Nd l x c ?R))" using h1(1) by (simp add: K_def)
  have g: "rb_crep m1 s k (Nd l x c ?R)" "rb_rep m1 s l" "rb_rep m1 s ?R" "rb_left (m1 x) = rb_root s l" "rb_right (m1 x) = rb_root s ?R"
      "(rb_color (m1 x) \<noteq> 0) = c" "rb_color (m1 s) = 0" "root = rb_root s (rb_fill k (Nd l x c ?R))"
      "distinct (rb_addrs (rb_fill k (Nd l x c ?R)))" "s \<notin> set (rb_addrs (rb_fill k (Nd l x c ?R)))"
    using h1' by (auto simp: rb_holds_def rb_rep_fill rb_at_def)
  have dd: "distinct (rb_caddrs k)" "distinct (rb_addrs l)" "distinct (rb_addrs ?R)" "x \<notin> set (rb_addrs ?R)"
      "set (rb_caddrs k) \<inter> set (rb_addrs ?R) = {}" "set (rb_addrs l) \<inter> set (rb_addrs ?R) = {}"
      "s \<notin> set (rb_caddrs k)" "s \<notin> set (rb_addrs l)" "s \<notin> set (rb_addrs ?R)"
    using g(9,10) by (auto simp: rb_distinct_fill rb_set_fill)
  have vR: "v \<noteq> Lf \<Longrightarrow> rb_root s v \<in> set (rb_addrs ?R)" by (simp add: rb_set_fill)
  have xv: "x \<noteq> rb_root s v" using vR dd(4) at(4) by (cases "v = Lf") auto
  have out: "a \<in> set (rb_caddrs k) \<Longrightarrow> m2 a = m1 a" "a \<in> set (rb_addrs l) \<Longrightarrow> m2 a = m1 a" for a
    using m2(3) [of a] vR dd(5-8) by (cases "v = Lf"; auto)+
  have g2: "rb_crep m2 s k (Nd l x c ?R)"
    by (rule rb_crep_frame [OF g(1) dd(1)]) (use out m2(1) m2(3) [OF xv] in auto)
  have g3: "rb_rep m2 s l" by (rule rb_rep_frame [OF g(2) dd(2)]) (use out m2(1) in auto)
  have g4: "rb_rep m2 s ?R"
  proof (cases "kr = []")
    case True
    then show ?thesis by (intro rb_rep_frame [OF g(3) dd(3)]) (use m2 in auto)
  next
    case False
    then have "m2 = m1" using xK py by (simp add: m2_def m1_def)
    then show ?thesis using g(3) by simp
  qed
  have y2: "y \<notin> set (rb_addrs (rb_fill k (Nd l x c ?R)))" using yv(1,5) xy(1) by (auto simp: rb_set_fill K_def rb_caddrs_append)
  have gx: "rb_left (m2 x) = rb_root s l" "rb_right (m2 x) = rb_root s ?R" "(rb_color (m2 x) \<noteq> 0) = c" "rb_color (m2 s) = 0"
    using m2(1) [of x] m2(1) [of s] g by (simp_all add: rb_same_def)
  obtain m3 root3 where m3: "rb_take_place m2 root s x y = (m3, root3)" "rb_holds m3 s root3 (rb_fill k (Nd l y c ?R))" "rb_kept m2 s m3"
    by (rule rb_take_place [OF g2 g3 g4 gx g(8,9,10) y2 ay(3)])
  have sp: "rb_splice m root s x y (rb_root s v) = (m3, root3)" using xy(1) m3(1)
    by (cases "rb_parent (m y) = x") (simp_all add: rb_splice_def m2_def Let_def)
  text \<open>The balance is restored.\<close>
  define K' where "K' = kr @ FR l y c # k"
  have hc: "rb_holds (rb_clean m3 x) s root3 (rb_fill K' v)"
    using rb_holds_clean [OF m3(2), of x] g(9) at(4) xy(1) by (auto simp: rb_distinct_fill rb_set_fill K'_def)
  have "rb_parent (m3 s) = rb_parent (m2 s)" using m3(3) by (simp add: rb_kept_def)
  then have p: "v = Lf \<longrightarrow> K' \<noteq> [] \<longrightarrow> rb_parent (rb_clean m3 x s) = rb_frame_addr (hd K')"
    using xK py at(4) by (cases kr) (auto simp: m2_def K'_def K_def)
  have b': "rb_kbal n d K'" using b(1) rb_kbal_rename unfolding K_def K'_def by blast
  obtain m' root' t' where t': "(if d then Some (rb_clean m3 x, root3) else rb_delete_fix (rb_clean m3 x) root3 s (rb_root s v)) = Some (m', root')"
      "rb_wf m' root' s t'" "rb_addrs t' = rb_addrs (rb_fill K' v)" "rb_kept (rb_clean m3 x) s m'"
    using rb_cut [OF hc b' b(2) _ p] by blast
  have "ngx_rbtree_delete m root s x = Some (m', root')"
    using xy t'(1) sp unfolding ngx_rbtree_delete_def sel by simp
  moreover have "rb_deleted m x m'" using t'(4) m3(3) m2(2) h1(2) by (simp add: rb_kept_def rb_deleted_def)
  moreover have "rb_addrs t' = rb_before k @ rb_addrs l @ rb_addrs r @ rb_after k"
    using t'(3) ya by (simp add: K'_def rb_addrs_fill)
  ultimately show ?thesis using t'(2) by blast
qed

lemma rb_delete_ok:
  assumes w: "rb_wf m root s t" and x: "x \<in> set (rb_addrs t)"
  shows "\<exists>m' root' t'. ngx_rbtree_delete m root s x = Some (m', root') \<and> rb_wf m' root' s t' \<and> rb_addrs t' = remove1 x (rb_addrs t) \<and>
    rb_deleted m x m'"
proof -
  obtain k l c r where t: "t = rb_fill k (Nd l x c r)" using rb_focus [OF x] by blast
  have d: "x \<notin> set (rb_before k)" "x \<notin> set (rb_addrs l)" using w by (auto simp: rb_wf_def rb_holds_def t rb_addrs_fill)
  then have e: "remove1 x (rb_addrs t) = rb_before k @ rb_addrs l @ rb_addrs r @ rb_after k"
    by (simp add: t rb_addrs_fill remove1_append)
  consider "l = Lf" | "l \<noteq> Lf" "r = Lf" | "l \<noteq> Lf" "r \<noteq> Lf" by blast
  then show ?thesis
  proof cases
    case 1
    then show ?thesis using rb_delete_leaf [of m root s k l x c r r] w unfolding t [symmetric] e by (simp add: rb_addrs_fill)
  next
    case 2
    then show ?thesis using rb_delete_leaf [of m root s k l x c r l] w unfolding t [symmetric] e by (simp add: rb_addrs_fill)
  next
    case 3
    then show ?thesis using rb_delete_inner [of m root s k l x c r] w unfolding t [symmetric] e by simp
  qed
qed

lemma rb_deleted_sorted:
  assumes "rb_deleted m x m'" "rb_sorted (lt m) xs" "x \<notin> set ys" "ys = remove1 x xs"
    and lt: "\<And>a b. rb_key (m' a) = rb_key (m a) \<Longrightarrow> rb_key (m' b) = rb_key (m b) \<Longrightarrow> lt m' a b = lt m a b"
  shows "rb_sorted (lt m') ys"
proof -
  have "sorted_wrt (\<lambda>a b. \<not> lt m b a) ys" using assms(2,4) by (induction xs arbitrary: ys) (auto simp: rb_sorted_def notin_set_remove1)
  moreover have "lt m' a b = lt m a b" if "a \<in> set ys" "b \<in> set ys" for a b
    by (rule lt) (use assms(1,3) that in \<open>auto simp: rb_deleted_def\<close>)
  ultimately show ?thesis unfolding rb_sorted_def by (metis (no_types, lifting) sorted_wrt_mono_rel)
qed

lemma rb_min_hd:
  assumes "rb_wf m root s t" "t \<noteq> Lf"
  shows "ngx_rbtree_min m root s = Some (hd (rb_addrs t))"
proof -
  obtain l a c r where t: "t = Nd l a c r" using assms(2) by (cases t) auto
  have "rb_holds m s root (rb_fill [] (Nd l a c r))" "root = a" using assms(1) t by (auto simp: rb_wf_def rb_holds_def)
  then obtain k y d v where "ngx_rbtree_min m root s = Some y" "rb_before k = []" "rb_fill k (Nd Lf y d v) = t"
    using rb_min_ok t by metis
  then show ?thesis by (auto simp: rb_addrs_fill)
qed

lemma timer_near_cong: "rb_key (m' a) = rb_key (m a) \<Longrightarrow> timer_near base m' a = timer_near base m a"
  by (simp add: timer_near_def)

lemma timer_sorted:
  assumes "\<forall>a\<in>set xs. timer_near base m a"
  shows "rb_sorted (timer_less m) xs \<longleftrightarrow> sorted (map (\<lambda>a. unat (rb_key (m a) - base)) xs)"
  unfolding sorted_map rb_sorted_def
  by (rule iffI; erule sorted_wrt_mono_rel [rotated]) (use assms timer_less_near [of base m] in \<open>auto simp: not_less\<close>)

subsection \<open>Properties\<close>

text \<open>
  C12: Insertion by key keeps a red-black tree and puts the node after all nodes whose keys are not greater.
  It ends, whatever the red-black tree with its nodes in the order of their keys, and changes no key.
\<close>

theorem rbtree_insert_sorted:
  assumes "rb_wf m root s t" "rb_sorted (key_less m) (rb_addrs t)" "x \<notin> set (rb_addrs t)" "x \<noteq> s"
  shows "\<exists>m' root' t'. ngx_rbtree_insert ngx_rbtree_insert_value m root s x = Some (m', root') \<and> rb_wf m' root' s t' \<and>
    rb_addrs t' = rb_insort (key_less m) x (rb_addrs t) \<and> rb_sorted (key_less m') (rb_addrs t') \<and> (\<forall>a. rb_key (m' a) = rb_key (m a))"
  using key_insertion.insert_ok [OF assms(1,2) _ assms(3,4)] by (simp add: rb_kept_def) meson

text \<open>
  The same for timers, whose comparison allows for the overflow of the clock: as long as all times lie within
  half of its range from some time \<open>base\<close> on, insertion orders the nodes by their distance from \<open>base\<close>.
\<close>

theorem rbtree_insert_timer:
  assumes "rb_wf m root s t" "\<forall>a\<in>insert x (set (rb_addrs t)). timer_near base m a" "x \<notin> set (rb_addrs t)" "x \<noteq> s"
    and "sorted (map (\<lambda>a. unat (rb_key (m a) - base)) (rb_addrs t))"
  shows "\<exists>m' root' t'. ngx_rbtree_insert ngx_rbtree_insert_timer_value m root s x = Some (m', root') \<and> rb_wf m' root' s t' \<and>
    mset (rb_addrs t') = add_mset x (mset (rb_addrs t)) \<and> sorted (map (\<lambda>a. unat (rb_key (m' a) - base)) (rb_addrs t')) \<and>
    (\<forall>a. rb_key (m' a) = rb_key (m a))"
proof -
  have so: "rb_sorted (timer_less m) (rb_addrs t)" using timer_sorted [of "rb_addrs t" base m] assms(2,5) by simp
  obtain m' root' t' where r: "ngx_rbtree_insert ngx_rbtree_insert_timer_value m root s x = Some (m', root')" "rb_wf m' root' s t'"
      "rb_addrs t' = rb_insort (timer_less m) x (rb_addrs t)" "rb_sorted (timer_less m') (rb_addrs t')" "rb_kept m s m'"
    using timer_insertion.insert_ok [OF assms(1) so assms(2,3,4)] by blast
  have k: "\<forall>a. rb_key (m' a) = rb_key (m a)" using r(5) by (simp add: rb_kept_def)
  then have "\<forall>a\<in>set (rb_addrs t'). timer_near base m' a" using assms(2) timer_near_cong unfolding r(3) set_insort by metis
  then have "sorted (map (\<lambda>a. unat (rb_key (m' a) - base)) (rb_addrs t'))" using r(4) timer_sorted [of "rb_addrs t'" base m'] by blast
  then show ?thesis using r(1-3) k mset_insort by metis
qed

text \<open>
  C13: Deletion takes exactly the given node out of the order, and the tree is a red-black tree again.  It ends, and the
  keys of the other nodes are kept.
\<close>

theorem rbtree_delete_removes:
  assumes "rb_wf m root s t" "x \<in> set (rb_addrs t)"
  shows "\<exists>m' root' t'. ngx_rbtree_delete m root s x = Some (m', root') \<and> rb_wf m' root' s t' \<and> rb_addrs t' = remove1 x (rb_addrs t) \<and>
    (\<forall>a. rb_key (m' a) = (if a = x then 0 else rb_key (m a)))"
  using rb_delete_ok [OF assms] unfolding rb_deleted_def .

text \<open>A tree of \<open>n\<close> nodes is at most \<open>2 * log (n + 1)\<close> high, which bounds every way down and every loop of the module.\<close>

theorem rbtree_height:
  assumes "rb_wf m root s t"
  shows "2 ^ ((rb_height t + 1) div 2) \<le> length (rb_addrs t) + 1"
proof -
  have h: "rb_height t \<le> 2 * rb_bheight t" "2 ^ rb_bheight t \<le> length (rb_addrs t) + 1"
    using assms rb_bal_height [of "rb_bheight t" t] rb_bal_size [of "rb_bheight t" t] by (auto simp: rb_wf_def)
  then have "(2::nat) ^ ((rb_height t + 1) div 2) \<le> 2 ^ rb_bheight t" by (intro power_increasing) auto
  then show ?thesis using h(2) by linarith
qed

text \<open>A tree of three nodes, 1 to 3, over the sentinel 0; node 4 is not in it.\<close>

definition three :: rb_mem where
  "three a = (if a = 1 then \<lparr>rb_key = 10, rb_left = 0, rb_right = 0, rb_parent = 2, rb_color = 1\<rparr>
     else if a = 2 then \<lparr>rb_key = 20, rb_left = 1, rb_right = 3, rb_parent = 0, rb_color = 0\<rparr>
     else if a = 3 then \<lparr>rb_key = 20, rb_left = 0, rb_right = 0, rb_parent = 2, rb_color = 1\<rparr>
     else \<lparr>rb_key = 20, rb_left = 0, rb_right = 0, rb_parent = 0, rb_color = 0\<rparr>)"

definition three_tree :: rb_tree where
  "three_tree = Nd (Nd Lf 1 True Lf) 2 False (Nd Lf 3 True Lf)"

lemma three_wf: "rb_wf three 2 0 three_tree"
  by (simp add: rb_wf_def rb_holds_def rb_at_def three_def three_tree_def)

lemma rbtree_insert_sorted_witness:
  "\<exists>m' root' t'. ngx_rbtree_insert ngx_rbtree_insert_value three 2 0 4 = Some (m', root') \<and> rb_wf m' root' 0 t' \<and> rb_addrs t' = [1, 2, 3, 4]"
  using rbtree_insert_sorted [OF three_wf, of 4] by (auto simp: three_tree_def rb_sorted_def key_less_def three_def rb_insort_def)

lemma rbtree_insert_timer_witness:
  "\<exists>m' root' t'. ngx_rbtree_insert ngx_rbtree_insert_timer_value three 2 0 4 = Some (m', root') \<and> rb_wf m' root' 0 t' \<and>
    mset (rb_addrs t') = {#4, 1, 2, 3#}"
proof -
  have "\<forall>a\<in>insert 4 (set (rb_addrs three_tree)). timer_near 5 three a" "sorted (map (\<lambda>a. unat (rb_key (three a) - 5)) (rb_addrs three_tree))"
    "4 \<notin> set (rb_addrs three_tree)" "mset (rb_addrs three_tree) = {#1, 2, 3#}"
    by (simp_all add: three_tree_def timer_near_def three_def)
  then show ?thesis using rbtree_insert_timer [OF three_wf, of 4 5] by fastforce
qed

lemma rbtree_delete_removes_witness:
  "\<exists>m' root' t'. ngx_rbtree_delete three 2 0 2 = Some (m', root') \<and> rb_wf m' root' 0 t' \<and> rb_addrs t' = [1, 3]"
  using rbtree_delete_removes [OF three_wf, of 2] by (auto simp: three_tree_def)

lemma rbtree_height_witness: "(2::nat) ^ ((rb_height three_tree + 1) div 2) \<le> 4"
  using rbtree_height [OF three_wf] by (simp add: three_tree_def)

end
