(* ===== verification/Ngx_Event_Timer.thy ===== *)
theory Ngx_Event_Timer
  imports Ngx_Rbtree
begin

text \<open>
  The timers of events, \<open>event/ngx_event_timer.c\<close> and \<open>event/ngx_event_timer.h\<close>, a client of the red-black tree with the
  insertion function for timers: the next timer to wait for, setting and deleting a timer, and the pass over those that
  have expired, whose event handlers are a parameter (\<open>timer_handler\<close> is what the pass asks of them).

  The version without threads; a call of the handler of an event is a call of the parameter.
\<close>

subsection \<open>State\<close>

text \<open>
  An event is named by the address of its member \<open>timer\<close>, which is a node of the tree; \<open>timer_set\<close> and \<open>timedout\<close>
  are members of the event, \<open>ngx_current_msec\<close> is the cached time.
\<close>

record timers =
  tm_mem :: rb_mem
  tm_root :: rb_ptr
  tm_sentinel :: rb_ptr
  tm_set :: "rb_ptr \<Rightarrow> bool"
  tm_timedout :: "rb_ptr \<Rightarrow> bool"
  ngx_current_msec :: uint64_t

subsection \<open>Operations\<close>

definition ngx_event_timer_init :: "timers \<Rightarrow> timers" where
  "ngx_event_timer_init st =
     (let (m, root) = ngx_rbtree_init (tm_mem st) (tm_sentinel st) in st\<lparr>tm_mem := m, tm_root := root\<rparr>)"

definition ngx_event_find_timer :: "timers \<Rightarrow> uint64_t option" where
  "ngx_event_find_timer st =
     (if tm_root st = tm_sentinel st then Some (- 1)
      else map_option
        (\<lambda>node. let timer = rb_key (tm_mem st node) - ngx_current_msec st in if 0 <s timer then timer else 0)
        (ngx_rbtree_min (tm_mem st) (tm_root st) (tm_sentinel st)))"

definition ngx_event_del_timer :: "rb_ptr \<Rightarrow> timers \<Rightarrow> timers option" where
  "ngx_event_del_timer ev st =
     map_option (\<lambda>(m, root). st\<lparr>tm_mem := m, tm_root := root, tm_set := (tm_set st)(ev := False)\<rparr>)
       (ngx_rbtree_delete (tm_mem st) (tm_root st) (tm_sentinel st) ev)"

definition ngx_abs :: "uint64_t \<Rightarrow> uint64_t" where
  "ngx_abs v = (if 0 \<le>s v then v else - v)"

definition timer_insert :: "rb_ptr \<Rightarrow> uint64_t \<Rightarrow> timers \<Rightarrow> timers option" where
  "timer_insert ev key st =
     map_option (\<lambda>(m, root). st\<lparr>tm_mem := m, tm_root := root, tm_set := (tm_set st)(ev := True)\<rparr>)
       (ngx_rbtree_insert ngx_rbtree_insert_timer_value ((tm_mem st)(ev := (tm_mem st ev)\<lparr>rb_key := key\<rparr>)) (tm_root st) (tm_sentinel st) ev)"

definition ngx_event_add_timer :: "rb_ptr \<Rightarrow> uint64_t \<Rightarrow> timers \<Rightarrow> timers option" where
  "ngx_event_add_timer ev timer st =
     (let key = ngx_current_msec st + timer in
      if tm_set st ev then
        let diff = key - rb_key (tm_mem st ev) in
        if ngx_abs diff <s 300 then Some st
        else case ngx_event_del_timer ev st of None \<Rightarrow> None | Some st \<Rightarrow> timer_insert ev key st
      else timer_insert ev key st)"

text \<open>The handlers of the events are a parameter; they act on the timers and on a state \<open>'w\<close> of their own.\<close>

type_synonym 'w handler = "rb_ptr \<Rightarrow> timers \<Rightarrow> 'w \<Rightarrow> (timers \<times> 'w) option"

partial_function (option) ngx_event_expire_timers :: "'w handler \<Rightarrow> timers \<Rightarrow> 'w \<Rightarrow> (timers \<times> 'w) option" where
  "ngx_event_expire_timers handler st w =
     (if tm_root st = tm_sentinel st then Some (st, w)
      else case ngx_rbtree_min (tm_mem st) (tm_root st) (tm_sentinel st) of
        None \<Rightarrow> None
      | Some ev \<Rightarrow>
          if rb_key (tm_mem st ev) - ngx_current_msec st \<le>s 0 then
            case ngx_event_del_timer ev st of
              None \<Rightarrow> None
            | Some st \<Rightarrow>
                (case handler ev (st\<lparr>tm_timedout := (tm_timedout st)(ev := True)\<rparr>) w of
                   None \<Rightarrow> None
                 | Some (st, w) \<Rightarrow> ngx_event_expire_timers handler st w)
          else Some (st, w))"

subsection \<open>The timers that are set\<close>

text \<open>
  The events \<open>evs\<close> are set, in the order of their times, which lie within half of the range of the clock from
  \<open>base\<close> on, and so does the current time.
\<close>

definition tm_time :: "uint64_t \<Rightarrow> timers \<Rightarrow> rb_ptr \<Rightarrow> nat" where
  "tm_time base st ev = unat (rb_key (tm_mem st ev) - base)"

definition tm_inv :: "uint64_t \<Rightarrow> timers \<Rightarrow> rb_ptr list \<Rightarrow> bool" where
  "tm_inv base st evs \<longleftrightarrow>
     (\<exists>t. rb_wf (tm_mem st) (tm_root st) (tm_sentinel st) t \<and> evs = rb_addrs t) \<and>
     (\<forall>ev. tm_set st ev \<longleftrightarrow> ev \<in> set evs) \<and> (\<forall>ev\<in>set evs. tm_time base st ev < 2 ^ 63) \<and>
     sorted (map (tm_time base st) evs) \<and> unat (ngx_current_msec st - base) < 2 ^ 63"

lemma tm_init:
  assumes "\<forall>ev. \<not> tm_set st ev"
  shows "tm_inv (ngx_current_msec st) (ngx_event_timer_init st) []"
proof -
  let ?m = "set_color (tm_mem st) (tm_sentinel st) 0"
  have "rb_wf ?m (tm_sentinel st) (tm_sentinel st) Lf" by (simp add: rb_wf_def rb_holds_def)
  moreover have "ngx_event_timer_init st = st\<lparr>tm_mem := ?m, tm_root := tm_sentinel st\<rparr>"
    by (simp add: ngx_event_timer_init_def ngx_rbtree_init_def)
  ultimately show ?thesis using assms by (auto simp: tm_inv_def intro: exI [of _ Lf])
qed

lemma tm_empty: "tm_inv base st evs \<Longrightarrow> tm_root st = tm_sentinel st \<longleftrightarrow> evs = []"
proof -
  assume "tm_inv base st evs"
  then obtain t where "rb_wf (tm_mem st) (tm_root st) (tm_sentinel st) t" "evs = rb_addrs t" by (auto simp: tm_inv_def)
  then show ?thesis by (cases t) (auto simp: rb_wf_def rb_holds_def)
qed

lemma tm_first: "tm_inv base st (ev # evs) \<Longrightarrow> ngx_rbtree_min (tm_mem st) (tm_root st) (tm_sentinel st) = Some ev"
proof -
  assume "tm_inv base st (ev # evs)"
  then obtain t where t: "rb_wf (tm_mem st) (tm_root st) (tm_sentinel st) t" "ev # evs = rb_addrs t" by (auto simp: tm_inv_def)
  then have "t \<noteq> Lf" by auto
  then show ?thesis using rb_min_hd [OF t(1)] by (simp flip: t(2))
qed

lemma tm_diff:
  assumes "tm_inv base st evs" "ev \<in> set evs"
  shows "sint (rb_key (tm_mem st ev) - ngx_current_msec st) = int (tm_time base st ev) - int (unat (ngx_current_msec st - base))"
proof -
  have "rb_key (tm_mem st ev) - ngx_current_msec st = (rb_key (tm_mem st ev) - base) - (ngx_current_msec st - base)" by simp
  then show ?thesis using assms sint_diff_near by (metis (no_types, lifting) tm_inv_def tm_time_def)
qed

text \<open>What an operation on the event \<open>ev\<close> leaves as it is.\<close>

definition tm_same :: "rb_ptr \<Rightarrow> timers \<Rightarrow> timers \<Rightarrow> bool" where
  "tm_same ev st st' \<longleftrightarrow>
     ngx_current_msec st' = ngx_current_msec st \<and> tm_sentinel st' = tm_sentinel st \<and> tm_timedout st' = tm_timedout st \<and>
     (\<forall>e. e \<noteq> ev \<longrightarrow> rb_key (tm_mem st' e) = rb_key (tm_mem st e))"

lemma tm_same_time: "tm_same ev st st' \<Longrightarrow> e \<noteq> ev \<Longrightarrow> tm_time base st' e = tm_time base st e"
  by (simp add: tm_same_def tm_time_def)

lemma tm_inv_distinct: "tm_inv base st evs \<Longrightarrow> distinct evs"
  by (auto simp: tm_inv_def rb_wf_def rb_holds_def)

lemma tm_del:
  assumes i: "tm_inv base st evs" and ev: "ev \<in> set evs"
  shows "\<exists>st'. ngx_event_del_timer ev st = Some st' \<and> tm_inv base st' (remove1 ev evs) \<and> tm_same ev st st'"
proof -
  obtain t where t: "rb_wf (tm_mem st) (tm_root st) (tm_sentinel st) t" "evs = rb_addrs t" using i by (auto simp: tm_inv_def)
  obtain m root t' where d: "ngx_rbtree_delete (tm_mem st) (tm_root st) (tm_sentinel st) ev = Some (m, root)"
      "rb_wf m root (tm_sentinel st) t'" "rb_addrs t' = remove1 ev evs" "rb_deleted (tm_mem st) ev m"
    using rb_delete_ok [OF t(1), of ev] ev t(2) by auto
  define st' where "st' = st\<lparr>tm_mem := m, tm_root := root, tm_set := (tm_set st)(ev := False)\<rparr>"
  have e: "ngx_event_del_timer ev st = Some st'" using d(1) by (simp add: ngx_event_del_timer_def st'_def)
  have s: "tm_same ev st st'" using d(4) by (simp add: tm_same_def st'_def rb_deleted_def)
  have set: "set (remove1 ev evs) = set evs - {ev}" using tm_inv_distinct [OF i] by simp
  then have tm: "e \<in> set (remove1 ev evs) \<Longrightarrow> tm_time base st' e = tm_time base st e" for e
    using tm_same_time [OF s] by simp
  have "sorted (map (tm_time base st) (remove1 ev evs))" using i by (simp add: tm_inv_def sorted_map_remove1)
  then have "sorted (map (tm_time base st') (remove1 ev evs))" using tm by (metis map_cong)
  moreover have "tm_set st' e \<longleftrightarrow> e \<in> set (remove1 ev evs)" for e using i unfolding set by (simp add: st'_def tm_inv_def)
  moreover have "\<forall>e\<in>set (remove1 ev evs). tm_time base st' e < 2 ^ 63" using i tm set by (auto simp: tm_inv_def)
  moreover have "unat (ngx_current_msec st' - base) < 2 ^ 63" using i by (simp add: tm_inv_def st'_def)
  moreover have "rb_wf (tm_mem st') (tm_root st') (tm_sentinel st') t'" using d(2) by (simp add: st'_def)
  ultimately have "tm_inv base st' (remove1 ev evs)" unfolding tm_inv_def using d(3) by metis
  then show ?thesis using e s by blast
qed

lemma tm_insert:
  assumes i: "tm_inv base st evs" and ev: "ev \<notin> set evs" "ev \<noteq> tm_sentinel st" and key: "unat (key - base) < 2 ^ 63"
  shows "\<exists>st' evs'. timer_insert ev key st = Some st' \<and> tm_inv base st' evs' \<and> set evs' = insert ev (set evs) \<and>
    tm_same ev st st' \<and> rb_key (tm_mem st' ev) = key"
proof -
  let ?m = "(tm_mem st)(ev := (tm_mem st ev)\<lparr>rb_key := key\<rparr>)"
  obtain t where t: "rb_wf (tm_mem st) (tm_root st) (tm_sentinel st) t" "evs = rb_addrs t" using i by (auto simp: tm_inv_def)
  have w: "rb_wf ?m (tm_root st) (tm_sentinel st) t"
    using t ev rb_holds_frame [of "tm_mem st" "tm_sentinel st" "tm_root st" t ?m] by (auto simp: rb_wf_def)
  have old: "e \<in> set evs \<Longrightarrow> unat (rb_key (?m e) - base) = tm_time base st e" for e using ev(1) by (auto simp: tm_time_def)
  have near: "\<forall>e\<in>insert ev (set evs). timer_near base ?m e"
    using old key i by (auto simp: timer_near_def tm_inv_def)
  have "map (\<lambda>e. unat (rb_key (?m e) - base)) evs = map (tm_time base st) evs" using old by simp
  then have "sorted (map (\<lambda>e. unat (rb_key (?m e) - base)) evs)" using i by (simp only: tm_inv_def)
  then have so: "rb_sorted (timer_less ?m) (rb_addrs t)" using timer_sorted [of evs base ?m] near t(2) by blast
  obtain m root t' where r: "ngx_rbtree_insert ngx_rbtree_insert_timer_value ?m (tm_root st) (tm_sentinel st) ev = Some (m, root)"
      "rb_wf m root (tm_sentinel st) t'" "rb_addrs t' = rb_insort (timer_less ?m) ev evs" "rb_sorted (timer_less m) (rb_addrs t')"
      "rb_kept ?m (tm_sentinel st) m"
    using timer_insertion.insert_ok [OF w so, of ev base] near ev t(2) by blast
  define st' where "st' = st\<lparr>tm_mem := m, tm_root := root, tm_set := (tm_set st)(ev := True)\<rparr>"
  have e: "timer_insert ev key st = Some st'" using r(1) by (simp add: timer_insert_def st'_def)
  have k: "rb_key (m e) = rb_key (?m e)" for e using r(5) by (simp add: rb_kept_def)
  have s: "tm_same ev st st'" using k by (simp add: tm_same_def st'_def)
  have set: "set (rb_addrs t') = insert ev (set evs)" using r(3) by (simp add: set_insort)
  have near': "\<forall>e\<in>set (rb_addrs t'). timer_near base m e" using near k timer_near_cong unfolding set by metis
  then have "sorted (map (tm_time base st') (rb_addrs t'))"
    using timer_sorted [OF near'] r(4) by (simp add: tm_time_def [abs_def] st'_def)
  moreover have "\<forall>e\<in>set (rb_addrs t'). tm_time base st' e < 2 ^ 63" using near' by (simp add: tm_time_def st'_def timer_near_def)
  moreover have "tm_set st' e \<longleftrightarrow> e \<in> set (rb_addrs t')" for e using i unfolding set by (simp add: st'_def tm_inv_def)
  moreover have "unat (ngx_current_msec st' - base) < 2 ^ 63" using i by (simp add: tm_inv_def st'_def)
  moreover have "rb_wf (tm_mem st') (tm_root st') (tm_sentinel st') t'" using r(2) by (simp add: st'_def)
  ultimately have "tm_inv base st' (rb_addrs t')" unfolding tm_inv_def by metis
  then show ?thesis using e s set k [of ev] by (intro exI [of _ st'] exI [of _ "rb_addrs t'"]) (simp add: st'_def)
qed

lemma ngx_abs_near:
  assumes "\<bar>sint v\<bar> < 2 ^ 63"
  shows "ngx_abs v <s 300 \<longleftrightarrow> \<bar>sint v\<bar> < 300"
proof -
  have "sint (- v) = - sint v"
  proof -
    have "- v = word_of_int (- sint v)" by simp
    then have "sint (- v) = sint (word_of_int (- sint v) :: uint64_t)" by (rule arg_cong)
    also have "\<dots> = signed_take_bit 63 (- sint v)" by (simp only: signed_of_int) simp
    also have "\<dots> = - sint v" by (rule signed_take_bit_int_eq_self) (use assms in auto)
    finally show ?thesis .
  qed
  then show ?thesis by (auto simp: ngx_abs_def word_sless_alt word_sle_eq)
qed

text \<open>The events that are due: their times are not later than the current one.\<close>

definition tm_due :: "uint64_t \<Rightarrow> timers \<Rightarrow> rb_ptr \<Rightarrow> bool" where
  "tm_due base st ev \<longleftrightarrow> tm_time base st ev \<le> unat (ngx_current_msec st - base)"

lemma tm_due_key: "tm_inv base st evs \<Longrightarrow> ev \<in> set evs \<Longrightarrow> rb_key (tm_mem st ev) - ngx_current_msec st \<le>s 0 \<longleftrightarrow> tm_due base st ev"
  using tm_diff [of base st evs ev] by (simp add: word_sle_eq tm_due_def del: of_nat_unat)

lemma tm_inv_timedout [simp]: "tm_inv base (st\<lparr>tm_timedout := f\<rparr>) evs = tm_inv base st evs"
  by (simp add: tm_inv_def tm_time_def [abs_def])

lemma tm_due_timedout [simp]: "tm_due base (st\<lparr>tm_timedout := f\<rparr>) = tm_due base st"
  by (simp add: tm_due_def [abs_def] tm_time_def)

lemma tm_due_first:
  assumes "tm_inv base st (e # es)" "\<not> tm_due base st e" "x \<in> set (e # es)"
  shows "\<not> tm_due base st x"
  using assms by (auto simp: tm_inv_def tm_due_def)

lemma expire_stop:
  assumes i: "tm_inv base st evs" and d: "\<forall>e\<in>set evs. \<not> tm_due base st e"
  shows "ngx_event_expire_timers handler st w = Some (st, w)"
proof (cases evs)
  case Nil
  then show ?thesis using tm_empty [OF i] by (subst ngx_event_expire_timers.simps) simp
next
  case (Cons e es)
  then have n: "tm_root st \<noteq> tm_sentinel st" using tm_empty [OF i] by simp
  have m: "ngx_rbtree_min (tm_mem st) (tm_root st) (tm_sentinel st) = Some e" using tm_first i Cons by blast
  have "\<not> rb_key (tm_mem st e) - ngx_current_msec st \<le>s 0" using tm_due_key [OF i] d Cons by simp
  then show ?thesis using n m by (subst ngx_event_expire_timers.simps) simp
qed

lemma expire_step:
  assumes i: "tm_inv base st (e # es)" and d: "tm_due base st e"
  shows "\<exists>st1. ngx_event_del_timer e st = Some st1 \<and> tm_inv base st1 es \<and> tm_same e st st1 \<and>
    ngx_event_expire_timers handler st w =
      (case handler e (st1\<lparr>tm_timedout := (tm_timedout st)(e := True)\<rparr>) w of
         None \<Rightarrow> None | Some (st2, w2) \<Rightarrow> ngx_event_expire_timers handler st2 w2)"
proof -
  obtain st1 where st1: "ngx_event_del_timer e st = Some st1" "tm_inv base st1 es" "tm_same e st st1"
    using tm_del [OF i, of e] by auto
  have "tm_root st \<noteq> tm_sentinel st" using tm_empty [OF i] by simp
  moreover have "rb_key (tm_mem st e) - ngx_current_msec st \<le>s 0" using tm_due_key [OF i] d by simp
  moreover have "tm_timedout st1 = tm_timedout st" using st1(3) by (simp add: tm_same_def)
  ultimately have "ngx_event_expire_timers handler st w =
      (case handler e (st1\<lparr>tm_timedout := (tm_timedout st)(e := True)\<rparr>) w of
         None \<Rightarrow> None | Some (st2, w2) \<Rightarrow> ngx_event_expire_timers handler st2 w2)"
    using st1(1) tm_first [OF i] by (subst ngx_event_expire_timers.simps) simp
  then show ?thesis using st1 by blast
qed

lemma tm_not_sentinel: "tm_inv base st evs \<Longrightarrow> e \<in> set evs \<Longrightarrow> e \<noteq> tm_sentinel st"
  by (auto simp: tm_inv_def rb_wf_def rb_holds_def)

text \<open>
  What the loop asks of a handler so that it ends: the handler may delete timers and set others, but none that is due
  already.
\<close>

definition tm_later :: "uint64_t \<Rightarrow> timers \<Rightarrow> rb_ptr list \<Rightarrow> timers \<Rightarrow> rb_ptr list \<Rightarrow> bool" where
  "tm_later base st evs st' evs' \<longleftrightarrow>
     ngx_current_msec st' = ngx_current_msec st \<and> tm_sentinel st' = tm_sentinel st \<and>
     (\<forall>e\<in>set evs'. tm_due base st' e \<longrightarrow> e \<in> set evs \<and> tm_time base st' e = tm_time base st e)"

locale timer_handler =
  fixes handler :: "'w handler" and base now :: uint64_t and sentinel :: rb_ptr
  assumes handler_ok: "tm_inv base st evs \<Longrightarrow> ngx_current_msec st = now \<Longrightarrow> tm_sentinel st = sentinel \<Longrightarrow> ev \<notin> set evs \<Longrightarrow> ev \<noteq> sentinel \<Longrightarrow>
    \<exists>st' w' evs'. handler ev st w = Some (st', w') \<and> tm_inv base st' evs' \<and> tm_later base st evs st' evs'"
begin

lemma expire_ends:
  "tm_inv base st evs \<Longrightarrow> ngx_current_msec st = now \<Longrightarrow> tm_sentinel st = sentinel \<Longrightarrow>
   \<exists>st' w' evs'. ngx_event_expire_timers handler st w = Some (st', w') \<and> tm_inv base st' evs' \<and>
     ngx_current_msec st' = now \<and> (\<forall>e\<in>set evs'. \<not> tm_due base st' e)"
proof (induction "card {e \<in> set evs. tm_due base st e}" arbitrary: st evs w rule: less_induct)
  case less
  show ?case
  proof (cases "\<exists>e\<in>set evs. tm_due base st e")
    case False
    then show ?thesis using expire_stop [OF less.prems(1), of handler w] less.prems
      by (intro exI [of _ st] exI [of _ w] exI [of _ evs]) simp
  next
    case True
    then obtain e es where evs: "evs = e # es" by (cases evs) auto
    then have d: "tm_due base st e" using True tm_due_first less.prems(1) by blast
    let ?t = "(tm_timedout st)(e := True)"
    obtain st1 where st1: "tm_inv base st1 es" "tm_same e st st1"
      "\<And>w. ngx_event_expire_timers handler st w = (case handler e (st1\<lparr>tm_timedout := ?t\<rparr>) w of
         None \<Rightarrow> None | Some (st2, w2) \<Rightarrow> ngx_event_expire_timers handler st2 w2)"
      using expire_step [OF _ d] less.prems(1) evs by (metis (no_types, lifting) option.inject)
    have e: "e \<notin> set es" using tm_inv_distinct less.prems(1) evs by fastforce
    have es: "e \<noteq> sentinel" using tm_not_sentinel [OF less.prems(1), of e] less.prems(3) evs by simp
    have i1: "tm_inv base (st1\<lparr>tm_timedout := ?t\<rparr>) es" using st1(1) by simp
    have c: "ngx_current_msec (st1\<lparr>tm_timedout := ?t\<rparr>) = now" "tm_sentinel (st1\<lparr>tm_timedout := ?t\<rparr>) = sentinel"
      using less.prems(2,3) st1(2) by (simp_all add: tm_same_def)
    obtain st2 w2 evs2 where h: "handler e (st1\<lparr>tm_timedout := ?t\<rparr>) w = Some (st2, w2)" "tm_inv base st2 evs2"
        "tm_later base (st1\<lparr>tm_timedout := ?t\<rparr>) es st2 evs2"
      using handler_ok [OF i1 c e es] by blast
    have now: "ngx_current_msec st2 = ngx_current_msec st" "tm_sentinel st2 = tm_sentinel st"
      using h(3) st1(2) by (simp_all add: tm_later_def tm_same_def)
    have tm: "x \<in> set es \<Longrightarrow> tm_time base (st1\<lparr>tm_timedout := ?t\<rparr>) x = tm_time base st x" for x
      using tm_same_time [OF st1(2), of x base] e by (auto simp: tm_time_def)
    have "{x \<in> set evs2. tm_due base st2 x} \<subseteq> {x \<in> set es. tm_due base st x}"
      using h(3) now(1) tm by (auto simp: tm_later_def tm_due_def)
    also have "\<dots> \<subset> {x \<in> set evs. tm_due base st x}" using evs d e by auto
    finally have "card {x \<in> set evs2. tm_due base st2 x} < card {x \<in> set evs. tm_due base st x}" by (intro psubset_card_mono) auto
    then show ?thesis using less.hyps [OF _ h(2), of w2] st1(3) h(1) now less.prems(2,3) by auto
  qed
qed

end

text \<open>A handler that does not touch timers, and one that sets its own again.\<close>

definition quiet_handler :: "(rb_ptr \<Rightarrow> 'w \<Rightarrow> 'w) \<Rightarrow> 'w handler" where
  "quiet_handler f ev st w = Some (st, f ev w)"

definition rearm_handler :: "uint64_t \<Rightarrow> (rb_ptr \<Rightarrow> 'w \<Rightarrow> 'w) \<Rightarrow> 'w handler" where
  "rearm_handler d f ev st w = map_option (\<lambda>st. (st, f ev w)) (ngx_event_add_timer ev d st)"

interpretation quiet: timer_handler "quiet_handler f" base now sentinel for f base now sentinel
  by unfold_locales (auto simp: quiet_handler_def tm_later_def)

lemma rearm_handler_ok:
  assumes d: "0 < d" "unat (now - base) + unat d < 2 ^ 63"
  shows "timer_handler (rearm_handler d f) base now sentinel"
proof
  fix st evs ev w
  assume i: "tm_inv base st evs" and now: "ngx_current_msec st = now" "tm_sentinel st = sentinel" and ev: "ev \<notin> set evs" "ev \<noteq> sentinel"
  have key: "unat (now + d - base) = unat (now - base) + unat d"
  proof -
    have "now + d - base = (now - base) + d" by simp
    moreover have "unat (now - base) + unat d < 2 ^ LENGTH(64)" using d(2) by simp
    ultimately show ?thesis using unat_add_lem by metis
  qed
  obtain st' evs' where st': "timer_insert ev (now + d) st = Some st'" "tm_inv base st' evs'" "set evs' = insert ev (set evs)" "tm_same ev st st'"
      "rb_key (tm_mem st' ev) = now + d"
    using tm_insert [OF i ev(1), of "now + d"] ev(2) now key d(2) by metis
  have "\<not> tm_set st ev" using i ev(1) by (simp add: tm_inv_def)
  then have r: "rearm_handler d f ev st w = Some (st', f ev w)" using st'(1) now by (simp add: rearm_handler_def ngx_event_add_timer_def)
  have "\<not> tm_due base st' ev"
    using st'(4,5) key d(1) now by (simp add: tm_due_def tm_time_def tm_same_def unat_gt_0)
  moreover have "tm_time base st' e = tm_time base st e" if "e \<in> set evs" for e
    using tm_same_time [OF st'(4)] that ev(1) by metis
  ultimately have "tm_later base st evs st' evs'"
    using st'(3,4) now by (auto simp: tm_later_def tm_same_def)
  then show "\<exists>st' w' evs'. rearm_handler d f ev st w = Some (st', w') \<and> tm_inv base st' evs' \<and> tm_later base st evs st' evs'"
    using st'(2) r by blast
qed

subsection \<open>Properties\<close>

text \<open>
  The time to wait for the next event: the distance to the least time of all timers that are set, nothing if it has
  passed, and the value for an endless wait when no timer is set.
\<close>

theorem event_find_timer:
  assumes "tm_inv base st evs"
  shows "ngx_event_find_timer st =
    Some (if evs = [] then - 1 else of_nat (Min (tm_time base st ` set evs) - unat (ngx_current_msec st - base)))"
proof (cases evs)
  case Nil
  then show ?thesis using tm_empty [OF assms] by (simp add: ngx_event_find_timer_def)
next
  case (Cons e es)
  have i: "tm_inv base st (e # es)" using assms Cons by simp
  let ?d = "rb_key (tm_mem st e) - ngx_current_msec st"
  have m: "Min (tm_time base st ` set evs) = tm_time base st e"
    using i Cons by (intro Min_eqI) (auto simp: tm_inv_def)
  have s: "sint ?d = int (tm_time base st e) - int (unat (ngx_current_msec st - base))"
    using tm_diff [OF i, of e] by simp
  have "0 <s ?d \<longleftrightarrow> unat (ngx_current_msec st - base) < tm_time base st e" using s by (simp add: word_sless_alt del: of_nat_unat)
  moreover have "?d = of_nat (tm_time base st e - unat (ngx_current_msec st - base))" if "unat (ngx_current_msec st - base) < tm_time base st e"
    using that by (simp add: tm_time_def of_nat_diff)
  ultimately have "(if 0 <s ?d then ?d else 0) = of_nat (tm_time base st e - unat (ngx_current_msec st - base))" by auto
  then show ?thesis using tm_empty [OF i] tm_first [OF i] Cons m by (simp add: ngx_event_find_timer_def Let_def)
qed

text \<open>
  Setting a timer keeps all the others, and afterwards the event is set, at a time less than 300 milliseconds away from
  the one asked for, exactly that one when it was not set before.
\<close>

theorem event_add_timer:
  assumes "tm_inv base st evs" "ev \<noteq> tm_sentinel st" "unat (ngx_current_msec st + timer - base) < 2 ^ 63"
  shows "\<exists>st' evs'. ngx_event_add_timer ev timer st = Some st' \<and> tm_inv base st' evs' \<and> set evs' = insert ev (set evs) \<and>
    (\<forall>e. e \<noteq> ev \<longrightarrow> rb_key (tm_mem st' e) = rb_key (tm_mem st e)) \<and>
    \<bar>int (tm_time base st' ev) - int (unat (ngx_current_msec st + timer - base))\<bar> < (if tm_set st ev then 300 else 1)"
proof -
  let ?key = "ngx_current_msec st + timer"
  let ?d = "?key - rb_key (tm_mem st ev)"
  have tm: "rb_key (tm_mem st' ev) = ?key \<Longrightarrow> tm_time base st' ev = unat (?key - base)" for st' by (simp add: tm_time_def)
  have set: "tm_set st ev \<longleftrightarrow> ev \<in> set evs" using assms(1) by (simp add: tm_inv_def)
  consider (new) "ev \<notin> set evs" | (lazy) "ev \<in> set evs" "ngx_abs ?d <s 300" | (moved) "ev \<in> set evs" "\<not> ngx_abs ?d <s 300" by blast
  then show ?thesis
  proof cases
    case new
    obtain st' evs' where "timer_insert ev ?key st = Some st'" "tm_inv base st' evs'" "set evs' = insert ev (set evs)" "tm_same ev st st'"
        "rb_key (tm_mem st' ev) = ?key"
      using tm_insert [OF assms(1) new assms(2,3)] by blast
    then show ?thesis using new set tm by (intro exI [of _ st'] exI [of _ evs']) (simp add: ngx_event_add_timer_def tm_same_def)
  next
    case lazy
    have t: "tm_time base st ev < 2 ^ 63" using assms(1) lazy(1) by (simp add: tm_inv_def)
    have "?d = (?key - base) - (rb_key (tm_mem st ev) - base)" by simp
    then have s: "sint ?d = int (unat (?key - base)) - int (tm_time base st ev)"
      using sint_diff_near [OF assms(3)] t unfolding tm_time_def by metis
    then have "\<bar>sint ?d\<bar> < 2 ^ 63" using t assms(3) by (simp del: of_nat_unat)
    then have "\<bar>sint ?d\<bar> < 300" using ngx_abs_near lazy(2) by blast
    then have "\<bar>int (tm_time base st ev) - int (unat (?key - base))\<bar> < 300" using s by simp
    then show ?thesis using lazy set assms(1)
      by (intro exI [of _ st] exI [of _ evs]) (auto simp: ngx_event_add_timer_def)
  next
    case moved
    obtain st1 where st1: "ngx_event_del_timer ev st = Some st1" "tm_inv base st1 (remove1 ev evs)" "tm_same ev st st1"
      using tm_del [OF assms(1) moved(1)] by blast
    have r: "set (remove1 ev evs) = set evs - {ev}" using tm_inv_distinct [OF assms(1)] by simp
    then have n: "ev \<notin> set (remove1 ev evs)" "ev \<noteq> tm_sentinel st1" using assms(2) st1(3) by (auto simp: tm_same_def)
    obtain st' evs' where s: "timer_insert ev ?key st1 = Some st'" "tm_inv base st' evs'" "set evs' = insert ev (set (remove1 ev evs))"
        "tm_same ev st1 st'" "rb_key (tm_mem st' ev) = ?key"
      using tm_insert [OF st1(2) n assms(3)] by blast
    have "set evs' = insert ev (set evs)" using s(3) r by auto
    then show ?thesis using moved set tm s st1 by (intro exI [of _ st'] exI [of _ evs']) (simp add: ngx_event_add_timer_def tm_same_def)
  qed
qed

text \<open>
  C14: When the handlers leave the timers alone (\<open>quiet_handler\<close>), a pass over the expired timers runs the handlers of exactly the
  events that are due, in the order of their times, marks them, and leaves the other timers set.  C15 is about handlers that do set and
  delete timers.
\<close>

theorem event_expire_runs_due:
  assumes "tm_inv base st evs"
  shows "\<exists>st'. ngx_event_expire_timers (quiet_handler f) st w = Some (st', fold f (filter (tm_due base st) evs) w) \<and>
    tm_inv base st' (filter (\<lambda>e. \<not> tm_due base st e) evs) \<and>
    (\<forall>e. tm_timedout st' e \<longleftrightarrow> tm_timedout st e \<or> e \<in> set evs \<and> tm_due base st e)"
  using assms
proof (induction evs arbitrary: st w)
  case Nil
  then show ?case using expire_stop [OF Nil, of "quiet_handler f" w] by (intro exI [of _ st]) simp
next
  case (Cons e es)
  show ?case
  proof (cases "tm_due base st e")
    case True
    let ?t = "(tm_timedout st)(e := True)"
    obtain st1 where st1: "tm_inv base st1 es" "tm_same e st st1"
      "ngx_event_expire_timers (quiet_handler f) st w = ngx_event_expire_timers (quiet_handler f) (st1\<lparr>tm_timedout := ?t\<rparr>) (f e w)"
      using expire_step [OF Cons.prems True, of "quiet_handler f" w] by (auto simp: quiet_handler_def)
    have "e \<notin> set es" using tm_inv_distinct [OF Cons.prems] by simp
    then have "x \<in> set es \<Longrightarrow> tm_time base st1 x = tm_time base st x" for x using tm_same_time [OF st1(2)] by metis
    then have same: "x \<in> set es \<Longrightarrow> tm_due base st1 x = tm_due base st x" for x
      using st1(2) by (simp add: tm_due_def tm_same_def)
    then have "filter (tm_due base st1) es = filter (tm_due base st) es" "filter (\<lambda>e. \<not> tm_due base st1 e) es = filter (\<lambda>e. \<not> tm_due base st e) es"
      by (auto intro: filter_cong)
    moreover have "tm_inv base (st1\<lparr>tm_timedout := ?t\<rparr>) es" using st1(1) by simp
    ultimately obtain st' where "ngx_event_expire_timers (quiet_handler f) (st1\<lparr>tm_timedout := ?t\<rparr>) (f e w) =
          Some (st', fold f (filter (tm_due base st) es) (f e w))"
        "tm_inv base st' (filter (\<lambda>e. \<not> tm_due base st e) es)" "\<forall>x. tm_timedout st' x \<longleftrightarrow> x = e \<or> tm_timedout st x \<or> x \<in> set es \<and> tm_due base st1 x"
      using Cons.IH [of "st1\<lparr>tm_timedout := ?t\<rparr>" "f e w"] by fastforce
    then show ?thesis using st1(3) True same by (intro exI [of _ st']) auto
  next
    case False
    then have n: "\<forall>x\<in>set (e # es). \<not> tm_due base st x" using tm_due_first [OF Cons.prems] by blast
    then have "filter (tm_due base st) (e # es) = []" "filter (\<lambda>x. \<not> tm_due base st x) (e # es) = e # es" by (simp_all add: filter_empty_conv)
    then show ?thesis using expire_stop [OF Cons.prems n, of "quiet_handler f" w] Cons.prems n by (metis fold_simps(1))
  qed
qed

text \<open>
  C15: A pass ends as long as no handler sets a timer that is due at once, whatever else the handlers do with timers,
  and then no timer that is due is left.
\<close>

theorem event_expire_ends:
  fixes handler :: "'w handler"
  assumes "tm_inv base st evs"
    and "\<And>st' evs' ev w. tm_inv base st' evs' \<Longrightarrow> ngx_current_msec st' = ngx_current_msec st \<Longrightarrow> tm_sentinel st' = tm_sentinel st \<Longrightarrow>
      ev \<notin> set evs' \<Longrightarrow> ev \<noteq> tm_sentinel st \<Longrightarrow>
      \<exists>st'' w'' evs''. handler ev st' w = Some (st'', w'') \<and> tm_inv base st'' evs'' \<and> tm_later base st' evs' st'' evs''"
  shows "\<exists>st' w' evs'. ngx_event_expire_timers handler st w = Some (st', w') \<and> tm_inv base st' evs' \<and> (\<forall>e\<in>set evs'. \<not> tm_due base st' e)"
proof -
  have "timer_handler handler base (ngx_current_msec st) (tm_sentinel st)" by unfold_locales (rule assms(2))
  then show ?thesis using timer_handler.expire_ends [OF _ assms(1), of handler "ngx_current_msec st" "tm_sentinel st" w] by metis
qed

text \<open>Three timers that are set, at 10, 20 and 20; the time is 15.\<close>

definition three_timers :: timers where
  "three_timers = \<lparr>tm_mem = three, tm_root = 2, tm_sentinel = 0, tm_set = (\<lambda>e. e \<in> {1, 2, 3}), tm_timedout = (\<lambda>e. False), ngx_current_msec = 15\<rparr>"

lemma three_timers_inv: "tm_inv 0 three_timers [1, 2, 3]"
proof -
  have "rb_wf (tm_mem three_timers) (tm_root three_timers) (tm_sentinel three_timers) three_tree" "[1, 2, 3] = rb_addrs three_tree"
    using three_wf by (simp_all add: three_timers_def three_tree_def)
  moreover have "\<forall>ev. tm_set three_timers ev \<longleftrightarrow> ev \<in> set [1, 2, 3]" "\<forall>ev\<in>set [1, 2, 3]. tm_time 0 three_timers ev < 2 ^ 63"
      "sorted (map (tm_time 0 three_timers) [1, 2, 3])" "unat (ngx_current_msec three_timers - 0) < 2 ^ 63"
    by (simp_all add: three_timers_def tm_time_def three_def)
  ultimately show ?thesis unfolding tm_inv_def by blast
qed

lemma event_find_timer_witness: "ngx_event_find_timer three_timers = Some 0"
  using event_find_timer [OF three_timers_inv] by (simp add: three_timers_def tm_time_def three_def)

lemma event_add_timer_witness:
  "\<exists>st' evs'. ngx_event_add_timer 4 1000 three_timers = Some st' \<and> tm_inv 0 st' evs' \<and> set evs' = {1, 2, 3, 4} \<and> tm_time 0 st' 4 = 1015"
proof -
  have "unat (ngx_current_msec three_timers + 1000 - 0) < 2 ^ 63" "4 \<noteq> tm_sentinel three_timers" "\<not> tm_set three_timers 4"
      "unat (ngx_current_msec three_timers + 1000 - 0) = 1015"
    by (simp_all add: three_timers_def)
  then show ?thesis using event_add_timer [OF three_timers_inv, of 4 1000] by (auto simp: insert_commute)
qed

lemma event_expire_runs_due_witness:
  "\<exists>st'. ngx_event_expire_timers (quiet_handler (\<lambda>e w. w @ [e])) three_timers [] = Some (st', [1]) \<and> tm_inv 0 st' [2, 3]"
  using event_expire_runs_due [OF three_timers_inv, of "\<lambda>e w. w @ [e]" "[]"]
  by (auto simp: tm_due_def tm_time_def three_timers_def three_def)

lemma event_expire_ends_witness:
  "\<exists>st' w' evs'. ngx_event_expire_timers (rearm_handler 1000 (\<lambda>e w. w @ [e])) three_timers [] = Some (st', w') \<and> tm_inv 0 st' evs'"
proof -
  have h: "timer_handler (rearm_handler 1000 (\<lambda>e w. w @ [e])) 0 (ngx_current_msec three_timers) (tm_sentinel three_timers)"
    by (rule rearm_handler_ok) (simp_all add: three_timers_def)
  have "\<exists>st' w' evs'. ngx_event_expire_timers (rearm_handler 1000 (\<lambda>e w. w @ [e])) three_timers [] = Some (st', w') \<and> tm_inv 0 st' evs' \<and>
      (\<forall>e\<in>set evs'. \<not> tm_due 0 st' e)"
    by (rule event_expire_ends [OF three_timers_inv]) (rule timer_handler.handler_ok [OF h])
  then show ?thesis by blast
qed

end
