(* ===== verification/Ngx_Str_Rbtree.thy ===== *)
theory Ngx_Str_Rbtree
  imports Ngx_Rbtree
begin

text \<open>
  The red-black tree of strings at the end of \<open>core/ngx_string.c\<close>, the third order of insertion, and its search.
\<close>

subsection \<open>The code\<close>

text \<open>The sign of the comparison of two areas of one length.\<close>

fun ngx_memcmp :: "bytes \<Rightarrow> bytes \<Rightarrow> int" where
  "ngx_memcmp (x # xs) (y # ys) = (if x = y then ngx_memcmp xs ys else uint x - uint y)"
| "ngx_memcmp _ _ = 0"

text \<open>\<open>str\<close> is the member of that name of the \<open>ngx_str_node_t\<close> that a node begins.\<close>

definition str_less :: "(rb_ptr \<Rightarrow> bytes) \<Rightarrow> rb_mem \<Rightarrow> rb_ptr \<Rightarrow> rb_ptr \<Rightarrow> bool" where
  "str_less str m n t \<longleftrightarrow>
     (if rb_key (m n) \<noteq> rb_key (m t) then rb_key (m n) < rb_key (m t)
      else if length (str n) \<noteq> length (str t) then length (str n) < length (str t)
      else ngx_memcmp (str n) (str t) < 0)"

definition ngx_str_rbtree_insert_value :: "(rb_ptr \<Rightarrow> bytes) \<Rightarrow> rb_mem \<Rightarrow> rb_ptr \<Rightarrow> rb_ptr \<Rightarrow> rb_ptr \<Rightarrow> rb_mem option" where
  "ngx_str_rbtree_insert_value str m temp node sentinel =
     map_option (rb_link m sentinel node) (rb_walk (str_less str m) m sentinel node temp)"

text \<open>The result is a node or a null pointer.\<close>

partial_function (option) ngx_str_rbtree_lookup ::
  "(rb_ptr \<Rightarrow> bytes) \<Rightarrow> rb_mem \<Rightarrow> rb_ptr \<Rightarrow> rb_ptr \<Rightarrow> bytes \<Rightarrow> uint32_t \<Rightarrow> rb_ptr option option" where
  "ngx_str_rbtree_lookup str m sentinel node val hash =
     (if node \<noteq> sentinel then
        if ucast hash \<noteq> rb_key (m node) then
          ngx_str_rbtree_lookup str m sentinel (if ucast hash < rb_key (m node) then rb_left (m node) else rb_right (m node)) val hash
        else if length val \<noteq> length (str node) then
          ngx_str_rbtree_lookup str m sentinel (if length val < length (str node) then rb_left (m node) else rb_right (m node)) val hash
        else
          let rc = ngx_memcmp val (str node) in
          if rc < 0 then ngx_str_rbtree_lookup str m sentinel (rb_left (m node)) val hash
          else if rc > 0 then ngx_str_rbtree_lookup str m sentinel (rb_right (m node)) val hash
          else Some (Some node)
      else Some None)"

subsection \<open>The order of strings\<close>

lemma memcmp_eq: "length a = length b \<Longrightarrow> ngx_memcmp a b = 0 \<longleftrightarrow> a = b"
  by (induction a b rule: ngx_memcmp.induct) (auto simp: word_uint_eq_iff)

lemma memcmp_sym: "ngx_memcmp b a = - ngx_memcmp a b"
  by (induction a b rule: ngx_memcmp.induct) auto

lemma memcmp_trans:
  "length a = length b \<Longrightarrow> length b = length c \<Longrightarrow> ngx_memcmp a b \<le> 0 \<Longrightarrow> ngx_memcmp b c \<le> 0 \<Longrightarrow> ngx_memcmp a c \<le> 0"
proof (induction a b arbitrary: c rule: ngx_memcmp.induct)
  case (1 x xs y ys)
  then show ?case by (cases c) (auto simp: word_uint_eq_iff split: if_splits)
qed auto

text \<open>What a node is found by; the order is total on it.\<close>

definition ent_less :: "uint64_t \<times> bytes \<Rightarrow> uint64_t \<times> bytes \<Rightarrow> bool" where
  "ent_less p q \<longleftrightarrow>
     (if fst p \<noteq> fst q then fst p < fst q
      else if length (snd p) \<noteq> length (snd q) then length (snd p) < length (snd q)
      else ngx_memcmp (snd p) (snd q) < 0)"

definition str_ent :: "(rb_ptr \<Rightarrow> bytes) \<Rightarrow> rb_mem \<Rightarrow> rb_ptr \<Rightarrow> uint64_t \<times> bytes" where
  "str_ent str m a = (rb_key (m a), str a)"

lemma str_less_ent: "str_less str m a b = ent_less (str_ent str m a) (str_ent str m b)"
  by (simp add: str_less_def ent_less_def str_ent_def)

lemma ent_asym: "ent_less p q \<Longrightarrow> \<not> ent_less q p"
  using memcmp_sym [of "snd p" "snd q"] by (auto simp: ent_less_def split: if_splits)

lemma ent_total: "\<not> ent_less p q \<Longrightarrow> \<not> ent_less q p \<Longrightarrow> p = q"
  using memcmp_sym [of "snd p" "snd q"] memcmp_eq [of "snd p" "snd q"] by (cases p; cases q) (auto simp: ent_less_def split: if_splits)

lemma ent_not_less:
  "\<not> ent_less p q \<longleftrightarrow> fst q < fst p \<or> fst q = fst p \<and>
     (length (snd q) < length (snd p) \<or> length (snd q) = length (snd p) \<and> ngx_memcmp (snd q) (snd p) \<le> 0)"
  using memcmp_sym [of "snd q" "snd p"] by (auto simp: ent_less_def)

lemma ent_trans:
  assumes "\<not> ent_less p q" "\<not> ent_less q r"
  shows "\<not> ent_less p r"
proof -
  consider "fst q < fst p" | "fst r < fst q" "fst q = fst p" | "fst r = fst q" "fst q = fst p"
    using assms unfolding ent_not_less by blast
  then show ?thesis
  proof cases
    case 1
    then have "fst r < fst p" using assms(2) unfolding ent_not_less by auto
    then show ?thesis by (simp add: ent_not_less)
  next
    case 2
    then show ?thesis by (simp add: ent_not_less)
  next
    case 3
    then show ?thesis using assms memcmp_trans [of "snd r" "snd q" "snd p"] unfolding ent_not_less by fastforce
  qed
qed

interpretation str_order: rbtree_order "str_less str" "\<lambda>m a. True" for str
proof unfold_locales
  show "str_less str m' = str_less str m" if "\<And>a. rb_key (m' a) = rb_key (m a)" for m m'
    using that by (simp add: str_less_def fun_eq_iff)
qed (metis str_less_ent ent_asym, metis str_less_ent ent_trans)

interpretation str_insertion: rbtree_insertion "str_less str" "\<lambda>m a. True" "ngx_str_rbtree_insert_value str" for str
  by unfold_locales (simp only: ngx_str_rbtree_insert_value_def, rule str_order.walk_hangs)

subsection \<open>The search\<close>

lemma lookup_step:
  assumes "node \<noteq> s"
  shows "ngx_str_rbtree_lookup str m s node val hash =
    (if ent_less (ucast hash, val) (str_ent str m node) then ngx_str_rbtree_lookup str m s (rb_left (m node)) val hash
     else if ent_less (str_ent str m node) (ucast hash, val) then ngx_str_rbtree_lookup str m s (rb_right (m node)) val hash
     else Some (Some node))"
  using assms memcmp_sym [of val "str node"] by (subst ngx_str_rbtree_lookup.simps) (auto simp: ent_less_def str_ent_def Let_def)

lemma lookup_ok:
  assumes "rb_rep m s t" "s \<notin> set (rb_addrs t)" "rb_sorted (str_less str m) (rb_addrs t)"
  shows "\<exists>r. ngx_str_rbtree_lookup str m s (rb_root s t) val hash = Some r \<and>
    (case r of None \<Rightarrow> \<forall>a\<in>set (rb_addrs t). str_ent str m a \<noteq> (ucast hash, val)
     | Some a \<Rightarrow> a \<in> set (rb_addrs t) \<and> str_ent str m a = (ucast hash, val))"
  using assms
proof (induction t)
  case Lf
  then show ?case by (simp add: ngx_str_rbtree_lookup.simps)
next
  case (Nd l a c r)
  let ?q = "(ucast hash, val)"
  have at: "a \<noteq> s" "rb_left (m a) = rb_root s l" "rb_right (m a) = rb_root s r" using Nd.prems(1) by (auto simp: rb_at_def)
  have so: "rb_sorted (str_less str m) (rb_addrs l)" "rb_sorted (str_less str m) (rb_addrs r)"
    "\<And>b. b \<in> set (rb_addrs l) \<Longrightarrow> \<not> ent_less (str_ent str m a) (str_ent str m b)"
    "\<And>b. b \<in> set (rb_addrs r) \<Longrightarrow> \<not> ent_less (str_ent str m b) (str_ent str m a)"
    using Nd.prems(3) by (auto simp: rb_sorted_def sorted_wrt_append str_less_ent)
  consider (l) "ent_less ?q (str_ent str m a)" | (r) "\<not> ent_less ?q (str_ent str m a)" "ent_less (str_ent str m a) ?q"
    | (e) "\<not> ent_less ?q (str_ent str m a)" "\<not> ent_less (str_ent str m a) ?q" by blast
  then show ?case
  proof cases
    case l
    then have "b \<in> set (rb_addrs r) \<Longrightarrow> str_ent str m b \<noteq> ?q" for b using so(4) by metis
    moreover have "str_ent str m a \<noteq> ?q" using l ent_asym by metis
    ultimately show ?thesis using Nd.IH(1) Nd.prems so(1) lookup_step [OF at(1), of str m val hash] l at
      by (auto split: option.splits)
  next
    case r
    then have "b \<in> set (rb_addrs l) \<Longrightarrow> str_ent str m b \<noteq> ?q" for b using so(3) by metis
    moreover have "str_ent str m a \<noteq> ?q" using r ent_asym by metis
    ultimately show ?thesis using Nd.IH(2) Nd.prems so(2) lookup_step [OF at(1), of str m val hash] r at
      by (auto split: option.splits)
  next
    case e
    then show ?thesis using ent_total lookup_step [OF at(1), of str m val hash] by auto
  qed
qed

subsection \<open>Properties\<close>

text \<open>
  After an insertion into a tree of strings, a search for a hash and a string finds a node that has both exactly when there
  is one, the new node included; it always ends.
\<close>

theorem str_rbtree_insert_lookup:
  assumes "rb_wf m root s t" "rb_sorted (str_less str m) (rb_addrs t)" "x \<notin> set (rb_addrs t)" "x \<noteq> s"
  shows "\<exists>m' root' t'. ngx_rbtree_insert (ngx_str_rbtree_insert_value str) m root s x = Some (m', root') \<and> rb_wf m' root' s t' \<and>
    rb_sorted (str_less str m') (rb_addrs t') \<and>
    (\<forall>val hash. \<exists>r. ngx_str_rbtree_lookup str m' s root' val hash = Some r \<and>
       (case r of None \<Rightarrow> \<not> (\<exists>a. (a = x \<or> a \<in> set (rb_addrs t)) \<and> rb_key (m a) = ucast hash \<and> str a = val)
        | Some a \<Rightarrow> (a = x \<or> a \<in> set (rb_addrs t)) \<and> rb_key (m a) = ucast hash \<and> str a = val))"
proof -
  obtain m' root' t' where i: "ngx_rbtree_insert (ngx_str_rbtree_insert_value str) m root s x = Some (m', root')" "rb_wf m' root' s t'"
      "rb_addrs t' = rb_insort (str_less str m) x (rb_addrs t)" "rb_sorted (str_less str m') (rb_addrs t')" "rb_kept m s m'"
    using str_insertion.insert_ok [OF assms(1,2) _ assms(3,4)] by blast
  have k: "str_ent str m' a = (rb_key (m a), str a)" for a using i(5) by (simp add: str_ent_def rb_kept_def)
  have s: "set (rb_addrs t') = insert x (set (rb_addrs t))" using i(3) by (simp add: set_insort)
  have r: "rb_rep m' s t'" "s \<notin> set (rb_addrs t')" "root' = rb_root s t'" using i(2) by (simp_all add: rb_wf_def rb_holds_def)
  have "\<exists>r. ngx_str_rbtree_lookup str m' s root' val hash = Some r \<and>
       (case r of None \<Rightarrow> \<not> (\<exists>a. (a = x \<or> a \<in> set (rb_addrs t)) \<and> rb_key (m a) = ucast hash \<and> str a = val)
        | Some a \<Rightarrow> (a = x \<or> a \<in> set (rb_addrs t)) \<and> rb_key (m a) = ucast hash \<and> str a = val)" for val hash
    using lookup_ok [OF r(1,2) i(4), of val hash] unfolding r(3) s k by (auto split: option.splits)
  then show ?thesis using i(1,2,4) by blast
qed

lemma str_rbtree_insert_lookup_witness:
  "\<exists>m' root'. ngx_rbtree_insert (ngx_str_rbtree_insert_value (\<lambda>a. if a = 4 then [65] else [66, 67])) three 2 0 4 = Some (m', root') \<and>
    ngx_str_rbtree_lookup (\<lambda>a. if a = 4 then [65] else [66, 67]) m' 0 root' [65] 20 = Some (Some 4)"
proof -
  let ?str = "\<lambda>a. if a = 4 then [65] else [66, 67] :: bytes"
  have s: "rb_sorted (str_less ?str three) (rb_addrs three_tree)" "4 \<notin> set (rb_addrs three_tree)"
    by (simp_all add: three_tree_def rb_sorted_def str_less_def three_def)
  obtain m' root' r where "ngx_rbtree_insert (ngx_str_rbtree_insert_value ?str) three 2 0 4 = Some (m', root')"
      "ngx_str_rbtree_lookup ?str m' 0 root' [65] 20 = Some r"
      "case r of None \<Rightarrow> \<not> (\<exists>a. (a = 4 \<or> a \<in> set (rb_addrs three_tree)) \<and> rb_key (three a) = ucast (20 :: uint32_t) \<and> ?str a = [65])
        | Some a \<Rightarrow> (a = 4 \<or> a \<in> set (rb_addrs three_tree)) \<and> rb_key (three a) = ucast (20 :: uint32_t) \<and> ?str a = [65]"
    using str_rbtree_insert_lookup [OF three_wf s zero_neq_numeral [symmetric]] by blast
  then show ?thesis by (cases r) (auto simp: three_def split: if_splits)
qed

end
