(* ===== verification/Ngx_Queue.thy ===== *)
theory Ngx_Queue
  imports Ngx_Sort
begin

text \<open>
  Queues, \<open>core/ngx_queue.h\<close> and \<open>core/ngx_queue.c\<close>: rings of links that lie in the elements, in a memory of links.
  A link is named by its address.  The macros are those without \<open>NGX_DEBUG\<close>.
\<close>

subsection \<open>The code\<close>

type_synonym q_ptr = nat

record ngx_queue_s =
  q_prev :: q_ptr
  q_next :: q_ptr

type_synonym q_mem = "q_ptr \<Rightarrow> ngx_queue_s"

definition set_prev :: "q_mem \<Rightarrow> q_ptr \<Rightarrow> q_ptr \<Rightarrow> q_mem" where
  "set_prev m q v = m(q := (m q)\<lparr>q_prev := v\<rparr>)"

definition set_next :: "q_mem \<Rightarrow> q_ptr \<Rightarrow> q_ptr \<Rightarrow> q_mem" where
  "set_next m q v = m(q := (m q)\<lparr>q_next := v\<rparr>)"

definition ngx_queue_init :: "q_mem \<Rightarrow> q_ptr \<Rightarrow> q_mem" where
  "ngx_queue_init m q = (let m = set_prev m q q in set_next m q q)"

definition ngx_queue_empty :: "q_mem \<Rightarrow> q_ptr \<Rightarrow> bool" where
  "ngx_queue_empty m h \<longleftrightarrow> h = q_prev (m h)"

definition ngx_queue_insert_head :: "q_mem \<Rightarrow> q_ptr \<Rightarrow> q_ptr \<Rightarrow> q_mem" where
  "ngx_queue_insert_head m h x =
     (let m = set_next m x (q_next (m h));
          m = set_prev m (q_next (m x)) x;
          m = set_prev m x h
      in set_next m h x)"

definition ngx_queue_insert_tail :: "q_mem \<Rightarrow> q_ptr \<Rightarrow> q_ptr \<Rightarrow> q_mem" where
  "ngx_queue_insert_tail m h x =
     (let m = set_prev m x (q_prev (m h));
          m = set_next m (q_prev (m x)) x;
          m = set_next m x h
      in set_prev m h x)"

definition ngx_queue_head :: "q_mem \<Rightarrow> q_ptr \<Rightarrow> q_ptr" where
  "ngx_queue_head m h = q_next (m h)"

definition ngx_queue_last :: "q_mem \<Rightarrow> q_ptr \<Rightarrow> q_ptr" where
  "ngx_queue_last m h = q_prev (m h)"

definition ngx_queue_remove :: "q_mem \<Rightarrow> q_ptr \<Rightarrow> q_mem" where
  "ngx_queue_remove m x =
     (let m = set_prev m (q_next (m x)) (q_prev (m x))
      in set_next m (q_prev (m x)) (q_next (m x)))"

definition ngx_queue_split :: "q_mem \<Rightarrow> q_ptr \<Rightarrow> q_ptr \<Rightarrow> q_ptr \<Rightarrow> q_mem" where
  "ngx_queue_split m h q n =
     (let m = set_prev m n (q_prev (m h));
          m = set_next m (q_prev (m n)) n;
          m = set_next m n q;
          m = set_prev m h (q_prev (m q));
          m = set_next m (q_prev (m h)) h
      in set_prev m q n)"

definition ngx_queue_add :: "q_mem \<Rightarrow> q_ptr \<Rightarrow> q_ptr \<Rightarrow> q_mem" where
  "ngx_queue_add m h n =
     (let m = set_next m (q_prev (m h)) (q_next (m n));
          m = set_prev m (q_next (m n)) (q_prev (m h));
          m = set_prev m h (q_prev (m n))
      in set_next m (q_prev (m h)) h)"

partial_function (option) queue_middle_loop :: "q_mem \<Rightarrow> q_ptr \<Rightarrow> q_ptr \<Rightarrow> q_ptr \<Rightarrow> q_ptr option" where
  "queue_middle_loop m queue middle next =
     (let middle = q_next (m middle);
          next = q_next (m next)
      in if next = ngx_queue_last m queue then Some middle
         else
           let next = q_next (m next)
           in if next = ngx_queue_last m queue then Some middle else queue_middle_loop m queue middle next)"

definition ngx_queue_middle :: "q_mem \<Rightarrow> q_ptr \<Rightarrow> q_ptr option" where
  "ngx_queue_middle m queue =
     (let middle = ngx_queue_head m queue
      in if middle = ngx_queue_last m queue then Some middle
         else queue_middle_loop m queue middle (ngx_queue_head m queue))"

text \<open>The inner loop goes back to the element behind which \<open>q\<close> belongs.\<close>

partial_function (option) queue_sort_back :: "(q_ptr \<Rightarrow> q_ptr \<Rightarrow> int) \<Rightarrow> q_mem \<Rightarrow> q_ptr \<Rightarrow> q_ptr \<Rightarrow> q_ptr \<Rightarrow> q_ptr option" where
  "queue_sort_back cmp m queue q prev =
     (if cmp prev q \<le> 0 then Some prev
      else
        let prev = q_prev (m prev)
        in if prev \<noteq> queue then queue_sort_back cmp m queue q prev else Some prev)"

partial_function (option) queue_sort_loop :: "(q_ptr \<Rightarrow> q_ptr \<Rightarrow> int) \<Rightarrow> q_mem \<Rightarrow> q_ptr \<Rightarrow> q_ptr \<Rightarrow> q_mem option" where
  "queue_sort_loop cmp m queue q =
     (if q \<noteq> queue then
        let prev = q_prev (m q);
            next = q_next (m q);
            m = ngx_queue_remove m q
        in case queue_sort_back cmp m queue q prev of
             None \<Rightarrow> None
           | Some prev \<Rightarrow> queue_sort_loop cmp (ngx_queue_insert_head m prev q) queue next
      else Some m)"

definition ngx_queue_sort :: "(q_ptr \<Rightarrow> q_ptr \<Rightarrow> int) \<Rightarrow> q_mem \<Rightarrow> q_ptr \<Rightarrow> q_mem option" where
  "ngx_queue_sort cmp m queue =
     (let q = ngx_queue_head m queue
      in if q = ngx_queue_last m queue then Some m
         else queue_sort_loop cmp m queue (q_next (m q)))"

subsection \<open>Rings\<close>

text \<open>The links from \<open>a\<close> over \<open>xs\<close> to \<open>b\<close>; a queue is the ring from its head to itself.\<close>

fun q_seg :: "q_mem \<Rightarrow> q_ptr \<Rightarrow> q_ptr list \<Rightarrow> q_ptr \<Rightarrow> bool" where
  "q_seg m a [] b \<longleftrightarrow> q_next (m a) = b \<and> q_prev (m b) = a"
| "q_seg m a (x # xs) b \<longleftrightarrow> q_next (m a) = x \<and> q_prev (m x) = a \<and> q_seg m x xs b"

definition q_ring :: "q_mem \<Rightarrow> q_ptr \<Rightarrow> q_ptr list \<Rightarrow> bool" where
  "q_ring m h xs \<longleftrightarrow> q_seg m h xs h \<and> distinct (h # xs)"

lemma q_set_simps [simp]:
  "q_prev (set_prev m a v x) = (if x = a then v else q_prev (m x))" "q_next (set_prev m a v x) = q_next (m x)"
  "q_next (set_next m a v x) = (if x = a then v else q_next (m x))" "q_prev (set_next m a v x) = q_prev (m x)"
  by (simp_all add: set_prev_def set_next_def)

lemma q_seg_append [simp]: "q_seg m a (xs @ y # ys) b \<longleftrightarrow> q_seg m a xs y \<and> q_seg m y ys b"
  by (induction xs arbitrary: a) auto

lemma q_seg_ends: "q_seg m a xs b \<Longrightarrow> q_next (m a) = hd (xs @ [b])" "q_seg m a xs b \<Longrightarrow> q_prev (m b) = last (a # xs)"
  by (induction xs arbitrary: a) auto

lemma q_seg_frame:
  assumes "q_seg m a xs b" "\<forall>x\<in>set (a # xs). q_next (m' x) = q_next (m x)" "\<forall>x\<in>set (xs @ [b]). q_prev (m' x) = q_prev (m x)"
  shows "q_seg m' a xs b"
  using assms by (induction xs arbitrary: a) auto

text \<open>A link is set between \<open>p\<close> and \<open>s\<close>.\<close>

definition q_link :: "q_mem \<Rightarrow> q_ptr \<Rightarrow> q_ptr \<Rightarrow> q_mem" where
  "q_link m p s = set_next (set_prev m s p) p s"

lemma q_link_simps [simp]:
  "q_next (q_link m p s x) = (if x = p then s else q_next (m x))" "q_prev (q_link m p s x) = (if x = s then p else q_prev (m x))"
  by (simp_all add: q_link_def)

lemma q_link_last:
  assumes "q_seg m a us x" "distinct (a # us)" "b \<notin> set us"
  shows "q_seg (q_link m (last (a # us)) b) a us b"
proof (cases us rule: rev_cases)
  case Nil
  then show ?thesis by simp
next
  case (snoc us' p)
  then have f: "q_seg m a us' p" "b \<notin> set us'" "b \<noteq> p" "p \<notin> set (a # us')" using assms by auto
  have "q_seg (q_link m (last (a # us)) b) a us' p" by (rule q_seg_frame [OF f(1)]) (use f snoc in auto)
  then show ?thesis using snoc by simp
qed

lemma q_link_join:
  assumes "q_seg m a us x" "q_seg m y vs b" "distinct (a # us)" "distinct (vs @ [b])" "set (a # us) \<inter> set vs = {}" "b \<notin> set us"
  shows "q_seg (q_link m (last (a # us)) (hd (vs @ [b]))) a (us @ vs) b"
proof -
  let ?m = "q_link m (last (a # us)) (hd (vs @ [b]))"
  have left: "q_seg ?m a us (hd (vs @ [b]))"
    by (rule q_link_last [OF assms(1,3)]) (use assms(5,6) in \<open>cases vs; auto\<close>)
  show ?thesis
  proof (cases vs)
    case Nil
    then show ?thesis using left by simp
  next
    case (Cons s vs')
    then have f: "q_seg m s vs' b" "last (a # us) \<notin> set vs" "s \<notin> set (vs' @ [b])"
      using assms last_in_set [of "a # us"] by (auto simp del: last.simps)
    have "q_seg ?m s vs' b" by (rule q_seg_frame [OF f(1)]) (use f Cons in \<open>auto simp del: last.simps\<close>)
    then show ?thesis using left Cons by simp
  qed
qed

text \<open>The operations on a ring.\<close>

lemma queue_init: "q_ring (ngx_queue_init m h) h []"
  by (simp add: q_ring_def ngx_queue_init_def)

lemma queue_empty: "q_ring m h xs \<Longrightarrow> ngx_queue_empty m h \<longleftrightarrow> xs = []"
  by (cases xs rule: rev_cases) (auto simp: q_ring_def ngx_queue_empty_def)

lemma queue_last: "q_ring m h xs \<Longrightarrow> ngx_queue_last m h = last (h # xs)"
  using q_seg_ends(2) by (simp add: q_ring_def ngx_queue_last_def)

lemma queue_head: "q_ring m h xs \<Longrightarrow> ngx_queue_head m h = hd (xs @ [h])"
  using q_seg_ends(1) by (simp add: q_ring_def ngx_queue_head_def)

lemma queue_remove_link: "x \<noteq> q_next (m x) \<Longrightarrow> ngx_queue_remove m x = q_link m (q_prev (m x)) (q_next (m x))"
  by (simp add: ngx_queue_remove_def q_link_def)

lemma queue_remove:
  assumes "q_ring m h (us @ x # vs)"
  shows "q_ring (ngx_queue_remove m x) h (us @ vs)"
proof -
  have s: "q_seg m h us x" "q_seg m x vs h" "distinct (h # us @ x # vs)" using assms by (auto simp: q_ring_def)
  have e: "q_prev (m x) = last (h # us)" "q_next (m x) = hd (vs @ [h])" using q_seg_ends s by blast+
  moreover have "x \<noteq> hd (vs @ [h])" using s(3) by (cases vs) auto
  ultimately have "ngx_queue_remove m x = q_link m (last (h # us)) (hd (vs @ [h]))" by (simp add: queue_remove_link)
  then show ?thesis using q_link_join [OF s(1,2)] s(3) by (auto simp: q_ring_def)
qed

lemma queue_insert_after:
  assumes "q_ring m h (us @ vs)" "x \<notin> set (h # us @ vs)"
  shows "q_ring (ngx_queue_insert_head m (last (h # us)) x) h (us @ x # vs)"
proof -
  let ?p = "last (h # us)" and ?m = "ngx_queue_insert_head m (last (h # us)) x"
  have d: "distinct (h # us @ vs)" using assms(1) by (simp add: q_ring_def)
  have p: "?p \<in> set (h # us)" "?p \<notin> set vs" using d last_in_set [of "h # us"] by (auto simp del: last.simps)
  then have px: "?p \<noteq> x" using assms(2) by auto
  have nx: "q_next (m ?p) = hd (vs @ [h])"
  proof (cases us rule: rev_cases)
    case Nil
    then show ?thesis using queue_head [OF assms(1)] by (simp add: ngx_queue_head_def)
  next
    case (snoc us' p)
    then have "q_seg m p vs h" using assms(1) by (simp add: q_ring_def)
    then show ?thesis using q_seg_ends(1) snoc by simp
  qed
  define s where "s = hd (vs @ [h])"
  have sx: "s \<noteq> x" using assms(2) by (cases vs) (auto simp: s_def)
  have f: "q_next (?m a) = (if a = ?p then x else if a = x then s else q_next (m a))"
    "q_prev (?m a) = (if a = x then ?p else if a = s then x else q_prev (m a))" for a
    using nx px sx unfolding s_def [symmetric] by (simp_all add: ngx_queue_insert_head_def Let_def del: last.simps)
  have left: "q_seg ?m h us x"
  proof (cases us rule: rev_cases)
    case Nil
    then show ?thesis using f by simp
  next
    case (snoc us' p)
    then have l: "q_seg m h us' p" using assms(1) by (simp add: q_ring_def)
    have "s \<notin> set us" using d by (cases vs) (auto simp: s_def)
    then have "q_seg ?m h us' p" by (intro q_seg_frame [OF l]) (use f snoc d assms(2) in auto)
    then show ?thesis using f [of p] f(2) [of x] snoc by simp
  qed
  have right: "q_seg ?m x vs h"
  proof (cases vs)
    case Nil
    then show ?thesis using f px sx by (auto simp: s_def)
  next
    case (Cons v vs')
    then have "q_seg m v vs' h" using assms(1) by (cases us rule: rev_cases) (auto simp: q_ring_def)
    then have "q_seg ?m v vs' h" by (rule q_seg_frame) (use f Cons d p assms(2) in \<open>auto simp: s_def simp del: last.simps\<close>)
    then show ?thesis using f(1) [of x] f(2) [of v] px sx Cons by (auto simp: s_def)
  qed
  show ?thesis using left right d assms(2) by (auto simp: q_ring_def)
qed

lemma queue_insert_head: "q_ring m h xs \<Longrightarrow> x \<notin> set (h # xs) \<Longrightarrow> q_ring (ngx_queue_insert_head m h x) h (x # xs)"
  using queue_insert_after [of m h "[]" xs x] by simp

lemma queue_insert_tail:
  assumes "q_ring m h xs" "x \<notin> set (h # xs)"
  shows "q_ring (ngx_queue_insert_tail m h x) h (xs @ [x])"
proof -
  have l: "q_prev (m h) = last (h # xs)" using queue_last [OF assms(1)] by (simp add: ngx_queue_last_def)
  have n: "q_next (m (last (h # xs))) = h"
    using assms(1) by (cases xs rule: rev_cases) (auto simp: q_ring_def)
  have "last (h # xs) \<noteq> x" "h \<noteq> x" using assms(2) last_in_set [of "h # xs"] by (auto simp del: last.simps)
  then have "ngx_queue_insert_tail m h x = ngx_queue_insert_head m (last (h # xs)) x"
    using l n by (auto simp: ngx_queue_insert_tail_def ngx_queue_insert_head_def set_prev_def set_next_def fun_eq_iff Let_def simp del: last.simps)
  then show ?thesis using queue_insert_after [of m h xs "[]" x] assms by simp
qed

lemma queue_split:
  assumes "q_ring m h (us @ q # vs)" "n \<notin> set (h # us @ q # vs)"
  shows "q_ring (ngx_queue_split m h q n) h us" "q_ring (ngx_queue_split m h q n) n (q # vs)"
proof -
  have s: "q_seg m h us q" "q_seg m q vs h" "distinct (h # us @ q # vs)" using assms(1) by (auto simp: q_ring_def)
  define e p where "e = last (q # vs)" and "p = last (h # us)"
  have ep: "q_prev (m h) = e" "q_prev (m q) = p" using q_seg_ends(2) s by (auto simp: e_def p_def)
  have ne: "e \<in> set (q # vs)" "p \<in> set (h # us)" unfolding e_def p_def by (metis last_in_set list.distinct(1))+
  then have d: "e \<noteq> h" "e \<noteq> n" "p \<noteq> n" "p \<noteq> e" "q \<noteq> h" "q \<noteq> n" "h \<noteq> n" using s(3) assms(2) by auto
  let ?m = "ngx_queue_split m h q n"
  have f: "q_next (?m a) = (if a = p then h else if a = n then q else if a = e then n else q_next (m a))"
    "q_prev (?m a) = (if a = q then n else if a = h then p else if a = n then e else q_prev (m a))" for a
    using ep d by (simp_all add: ngx_queue_split_def Let_def)
  have "q_seg (q_link m p h) h us h" unfolding p_def by (rule q_link_last [OF s(1)]) (use s(3) in auto)
  then have "q_seg ?m h us h" by (rule q_seg_frame) (use f d s(3) assms(2) ne(1) in auto)
  then show "q_ring ?m h us" using s(3) by (simp add: q_ring_def)
  have "q_seg (q_link m e n) q vs n" unfolding e_def by (rule q_link_last [OF s(2)]) (use s(3) assms(2) in auto)
  then have "q_seg ?m q vs n" by (rule q_seg_frame) (use f d s(3) assms(2) ne(2) in auto)
  then show "q_ring ?m n (q # vs)" using f d s(3) assms(2) by (auto simp: q_ring_def)
qed

lemma queue_add:
  assumes "q_ring m h us" "q_ring m n vs" "vs \<noteq> []" "set (h # us) \<inter> set (n # vs) = {}"
  shows "q_ring (ngx_queue_add m h n) h (us @ vs)"
proof -
  obtain v vs' where vs: "vs = v # vs'" using assms(3) by (cases vs) auto
  have s: "q_seg m h us h" "q_seg m v vs' n" "distinct (h # us)" "distinct (n # vs)" "q_next (m n) = v"
    using assms(1,2) vs by (auto simp: q_ring_def)
  define e p where "e = last (v # vs')" and "p = last (h # us)"
  have ep: "q_prev (m h) = p" "q_prev (m n) = e" using q_seg_ends(2) s by (auto simp: e_def p_def)
  have ne: "e \<in> set vs" "p \<in> set (h # us)" unfolding e_def p_def vs by (metis last_in_set list.distinct(1))+
  then have d: "e \<noteq> h" "p \<noteq> n" "p \<noteq> e" "v \<noteq> h" "v \<noteq> n" "h \<noteq> n" "e \<noteq> n" using s assms(4) vs by auto
  let ?m = "ngx_queue_add m h n"
  have f: "q_next (?m a) = (if a = e then h else if a = p then v else q_next (m a))"
    "q_prev (?m a) = (if a = h then e else if a = v then p else q_prev (m a))" for a
    using ep d s(5) by (simp_all add: ngx_queue_add_def Let_def)
  have "q_seg (q_link m p v) h us v" unfolding p_def by (rule q_link_last [OF s(1,3)]) (use assms(4) vs in auto)
  then have "q_seg ?m h us v" by (rule q_seg_frame) (use f d s(3,4) assms(4) ne vs in auto)
  moreover have "q_seg (q_link m e h) v vs' h" unfolding e_def by (rule q_link_last [OF s(2)]) (use s(4) assms(4) vs in auto)
  then have "q_seg ?m v vs' h" by (rule q_seg_frame) (use f d s(3,4) assms(4) ne vs in auto)
  ultimately show ?thesis using s(3,4) assms(4) vs by (auto simp: q_ring_def)
qed

subsection \<open>Middle\<close>

lemma q_ring_nth:
  assumes "q_ring m h xs" "Suc i < length xs"
  shows "q_next (m (xs ! i)) = xs ! Suc i"
proof -
  have "xs = take i xs @ xs ! i # xs ! Suc i # drop (Suc (Suc i)) xs"
    using assms(2) by (metis Cons_nth_drop_Suc Suc_lessD id_take_nth_drop)
  then have "q_seg m h (take i xs @ xs ! i # xs ! Suc i # drop (Suc (Suc i)) xs) h" using assms(1) by (simp add: q_ring_def)
  then show ?thesis by simp
qed

lemma q_ring_last: "q_ring m h xs \<Longrightarrow> xs \<noteq> [] \<Longrightarrow> i < length xs \<Longrightarrow> xs ! i = ngx_queue_last m h \<longleftrightarrow> Suc i = length xs"
  using queue_last [of m h xs] by (auto simp: q_ring_def last_conv_nth nth_eq_iff_index_eq)

lemma queue_middle_loop:
  assumes r: "q_ring m h xs"
  shows "Suc (2 * i) < length xs \<Longrightarrow> queue_middle_loop m h (xs ! i) (xs ! (2 * i)) = Some (xs ! (length xs div 2))"
proof (induction "length xs - i" arbitrary: i rule: less_induct)
  case less
  have n: "xs \<noteq> []" using less.prems by auto
  have e: "q_next (m (xs ! i)) = xs ! Suc i" "q_next (m (xs ! (2 * i))) = xs ! Suc (2 * i)"
    using q_ring_nth [OF r] less.prems by auto
  show ?case
  proof (cases "Suc (Suc (2 * i)) = length xs")
    case True
    moreover from True have "length xs div 2 = Suc i" by auto
    ultimately show ?thesis using e q_ring_last [OF r n less.prems] by (subst queue_middle_loop.simps) simp
  next
    case False
    then have e2: "q_next (m (xs ! Suc (2 * i))) = xs ! (2 * Suc i)" "2 * Suc i < length xs"
      using q_ring_nth [OF r, of "Suc (2 * i)"] less.prems by auto
    have l: "xs ! Suc (2 * i) \<noteq> ngx_queue_last m h" using q_ring_last [OF r n less.prems] False by simp
    show ?thesis
    proof (cases "Suc (2 * Suc i) = length xs")
      case True
      moreover from True have "length xs div 2 = Suc i" by auto
      ultimately show ?thesis using e e2 l q_ring_last [OF r n e2(2)] by (subst queue_middle_loop.simps) simp
    next
      case False
      then have "queue_middle_loop m h (xs ! Suc i) (xs ! (2 * Suc i)) = Some (xs ! (length xs div 2))"
        using less.hyps [of "Suc i"] e2(2) by auto
      then show ?thesis using e e2 l q_ring_last [OF r n e2(2)] False by (subst queue_middle_loop.simps) simp
    qed
  qed
qed

lemma queue_middle:
  assumes r: "q_ring m h xs" and n: "xs \<noteq> []"
  shows "ngx_queue_middle m h = Some (xs ! (length xs div 2))"
proof -
  have h: "ngx_queue_head m h = xs ! 0" using queue_head [OF r] n by (cases xs) simp_all
  show ?thesis
  proof (cases "Suc 0 = length xs")
    case True
    moreover have "xs ! 0 = ngx_queue_last m h" using q_ring_last [OF r n, of 0] True n by simp
    moreover have "length xs div 2 = 0" using True by auto
    ultimately show ?thesis by (simp add: ngx_queue_middle_def h)
  next
    case False
    then have "Suc (2 * 0) < length xs" using n by (cases xs) auto
    moreover have "xs ! 0 \<noteq> ngx_queue_last m h" using q_ring_last [OF r n, of 0] False n by simp
    ultimately show ?thesis using queue_middle_loop [OF r, of 0] by (simp add: ngx_queue_middle_def h)
  qed
qed

subsection \<open>Sorting\<close>

lemma queue_sort_back:
  assumes r: "q_ring m h (us @ vs @ ws)" and v: "\<forall>b\<in>set vs. 0 < cmp b q" and u: "us \<noteq> [] \<longrightarrow> \<not> 0 < cmp (last us) q"
    and n: "us @ vs \<noteq> []"
  shows "queue_sort_back cmp m h q (last (us @ vs)) = Some (last (h # us))"
  using r v n
proof (induction vs arbitrary: ws rule: rev_induct)
  case Nil
  then show ?case using u by (subst queue_sort_back.simps) auto
next
  case (snoc b vs)
  have r: "q_ring m h (us @ vs @ b # ws)" using snoc.prems(1) by simp
  have "q_ring m h ((us @ vs) @ b # ws)" using r by simp
  then have "q_seg m h (us @ vs) b" by (simp add: q_ring_def del: append_assoc)
  then have p: "q_prev (m b) = last (h # us @ vs)" by (rule q_seg_ends(2))
  have b: "\<not> cmp b q \<le> 0" using snoc.prems(2) by auto
  show ?case
  proof (cases "us @ vs = []")
    case True
    then show ?thesis using b p by (subst queue_sort_back.simps) simp
  next
    case False
    then have l: "last (h # us @ vs) = last (us @ vs)" "last (us @ vs) \<in> set (us @ vs)" using last_in_set [of "us @ vs"] by auto
    then have "last (us @ vs) \<noteq> h" using r by (auto simp: q_ring_def)
    then have "queue_sort_back cmp m h q b = queue_sort_back cmp m h q (last (us @ vs))"
      using b p l(1) by (subst queue_sort_back.simps) (simp add: Let_def)
    then show ?thesis using snoc.IH [OF r] snoc.prems(2) False by simp
  qed
qed

lemma queue_sort_loop:
  assumes k: "cmp_by cmp k"
  shows "q_ring m h (sort_key k zs @ ps) \<Longrightarrow> zs \<noteq> [] \<Longrightarrow>
    \<exists>m'. queue_sort_loop cmp m h (hd (ps @ [h])) = Some m' \<and> q_ring m' h (sort_key k (zs @ ps))"
proof (induction ps arbitrary: m zs)
  case Nil
  then show ?case by (subst queue_sort_loop.simps) simp
next
  case (Cons p ps)
  have ne: "sort_key k zs \<noteq> []" using Cons.prems(2) by (metis length_0_conv length_sort)
  obtain us vs where s: "sort_key k zs = us @ vs" "\<forall>a\<in>set us. k a \<le> k p" "\<forall>b\<in>set vs. k p < k b"
    using sorted_split [of k "sort_key k zs" "k p"] by (auto simp: sorted_sort_key)
  have r: "q_ring m h ((us @ vs) @ p # ps)" using Cons.prems(1) s(1) by simp
  then have d: "p \<noteq> h" "p \<notin> set (h # us @ vs @ ps)" by (auto simp: q_ring_def)
  have "q_seg m h (us @ vs) p" "q_seg m p ps h" using r by (simp_all add: q_ring_def del: append_assoc)
  then have e: "q_prev (m p) = last (us @ vs)" "q_next (m p) = hd (ps @ [h])"
    using q_seg_ends ne s(1) by (metis last_ConsR, metis)
  have r1: "q_ring (ngx_queue_remove m p) h (us @ vs @ ps)" using queue_remove [OF r] by simp
  have b: "queue_sort_back cmp (ngx_queue_remove m p) h p (last (us @ vs)) = Some (last (h # us))"
  proof (rule queue_sort_back [OF r1])
    show "\<forall>b\<in>set vs. 0 < cmp b p" using s(3) k by (simp add: cmp_by_def)
    show "us \<noteq> [] \<longrightarrow> \<not> 0 < cmp (last us) p" using s(2) k last_in_set [of us] by (auto simp: cmp_by_def not_less)
  qed (use ne s(1) in simp)
  let ?m = "ngx_queue_insert_head (ngx_queue_remove m p) (last (h # us)) p"
  have r2: "q_ring ?m h (us @ p # vs @ ps)" by (rule queue_insert_after [OF r1 d(2)])
  have "us @ p # vs = sort_key k (zs @ [p])" using sort_key_snoc [OF s] by simp
  then have "q_ring ?m h (sort_key k (zs @ [p]) @ ps)" using r2 by (metis append.assoc append_Cons)
  then obtain m' where "queue_sort_loop cmp ?m h (hd (ps @ [h])) = Some m'" "q_ring m' h (sort_key k ((zs @ [p]) @ ps))"
    using Cons.IH by blast
  moreover have "queue_sort_loop cmp m h p = queue_sort_loop cmp ?m h (hd (ps @ [h]))"
    using d(1) e b by (subst queue_sort_loop.simps) (simp add: Let_def)
  ultimately show ?case by simp
qed

text \<open>
  C20: \<open>ngx_queue_sort\<close> ends and puts the elements of a queue into the same order as the stable sort by the key that the comparison
  tells apart; the queue keeps its links in both directions.
\<close>

theorem queue_sort_stable:
  assumes "q_ring m h xs" "\<And>a b. 0 < cmp a b \<longleftrightarrow> k b < (k a :: 'b::linorder)"
  shows "\<exists>m'. ngx_queue_sort cmp m h = Some m' \<and> q_ring m' h (sort_key k xs)"
proof (cases "length xs \<le> 1")
  case True
  then consider "xs = []" | x where "xs = [x]" by (cases xs) auto
  then show ?thesis
  proof cases
    case 1
    then show ?thesis using assms(1) queue_head [OF assms(1)] queue_last [OF assms(1)] by (simp add: ngx_queue_sort_def)
  next
    case 2
    then show ?thesis using assms(1) queue_head [OF assms(1)] queue_last [OF assms(1)] by (simp add: ngx_queue_sort_def)
  qed
next
  case False
  then obtain x y ys where xs: "xs = x # y # ys" by (cases xs; cases "tl xs") auto
  have "q_next (m x) = y" using q_ring_nth [OF assms(1), of 0] xs by simp
  moreover have "x \<noteq> last (h # xs)" using assms(1) xs by (auto simp: q_ring_def)
  ultimately have "ngx_queue_sort cmp m h = queue_sort_loop cmp m h y"
    using queue_head [OF assms(1)] queue_last [OF assms(1)] xs by (simp add: ngx_queue_sort_def)
  moreover have "cmp_by cmp k" using assms(2) by (simp add: cmp_by_def)
  ultimately show ?thesis using queue_sort_loop [of cmp k m h "[x]" "y # ys"] assms(1) xs by simp
qed

text \<open>A queue of three elements.\<close>

definition three_links :: q_mem where
  "three_links q = (if q = 0 then \<lparr>q_prev = 3, q_next = 1\<rparr> else if q = 1 then \<lparr>q_prev = 0, q_next = 2\<rparr>
     else if q = 2 then \<lparr>q_prev = 1, q_next = 3\<rparr> else \<lparr>q_prev = 2, q_next = 0\<rparr>)"

lemma queue_sort_stable_witness:
  "\<exists>m'. ngx_queue_sort (\<lambda>a b. int b - int a) three_links 0 = Some m' \<and> q_ring m' 0 [3, 2, 1]"
proof -
  have "q_ring three_links 0 [1, 2, 3]" by (simp add: q_ring_def three_links_def)
  then show ?thesis using queue_sort_stable [of three_links 0 "[1, 2, 3]" "\<lambda>a b. int b - int a" "\<lambda>a. - int a"] by simp
qed

end
