(* ===== verification/Ngx_Crc32.thy ===== *)
theory Ngx_Crc32
  imports Ngx_Prelude
begin

text \<open>
  CRC-32, \<open>core/ngx_crc32.h\<close> and the tables of \<open>core/ngx_crc32.c\<close>, against the shift register of its polynomial.
\<close>

unbundle bit_operations_syntax

subsection \<open>The code\<close>

definition ngx_crc32_table16 :: "uint32_t list" where
  "ngx_crc32_table16 =
  [0x00000000, 0x1db71064, 0x3b6e20c8, 0x26d930ac, 0x76dc4190, 0x6b6b51f4, 0x4db26158, 0x5005713c,
   0xedb88320, 0xf00f9344, 0xd6d6a3e8, 0xcb61b38c, 0x9b64c2b0, 0x86d3d2d4, 0xa00ae278, 0xbdbdf21c]"

definition ngx_crc32_table256 :: "uint32_t list" where
  "ngx_crc32_table256 =
  [0x00000000, 0x77073096, 0xee0e612c, 0x990951ba, 0x076dc419, 0x706af48f, 0xe963a535, 0x9e6495a3,
   0x0edb8832, 0x79dcb8a4, 0xe0d5e91e, 0x97d2d988, 0x09b64c2b, 0x7eb17cbd, 0xe7b82d07, 0x90bf1d91,
   0x1db71064, 0x6ab020f2, 0xf3b97148, 0x84be41de, 0x1adad47d, 0x6ddde4eb, 0xf4d4b551, 0x83d385c7,
   0x136c9856, 0x646ba8c0, 0xfd62f97a, 0x8a65c9ec, 0x14015c4f, 0x63066cd9, 0xfa0f3d63, 0x8d080df5,
   0x3b6e20c8, 0x4c69105e, 0xd56041e4, 0xa2677172, 0x3c03e4d1, 0x4b04d447, 0xd20d85fd, 0xa50ab56b,
   0x35b5a8fa, 0x42b2986c, 0xdbbbc9d6, 0xacbcf940, 0x32d86ce3, 0x45df5c75, 0xdcd60dcf, 0xabd13d59,
   0x26d930ac, 0x51de003a, 0xc8d75180, 0xbfd06116, 0x21b4f4b5, 0x56b3c423, 0xcfba9599, 0xb8bda50f,
   0x2802b89e, 0x5f058808, 0xc60cd9b2, 0xb10be924, 0x2f6f7c87, 0x58684c11, 0xc1611dab, 0xb6662d3d,
   0x76dc4190, 0x01db7106, 0x98d220bc, 0xefd5102a, 0x71b18589, 0x06b6b51f, 0x9fbfe4a5, 0xe8b8d433,
   0x7807c9a2, 0x0f00f934, 0x9609a88e, 0xe10e9818, 0x7f6a0dbb, 0x086d3d2d, 0x91646c97, 0xe6635c01,
   0x6b6b51f4, 0x1c6c6162, 0x856530d8, 0xf262004e, 0x6c0695ed, 0x1b01a57b, 0x8208f4c1, 0xf50fc457,
   0x65b0d9c6, 0x12b7e950, 0x8bbeb8ea, 0xfcb9887c, 0x62dd1ddf, 0x15da2d49, 0x8cd37cf3, 0xfbd44c65,
   0x4db26158, 0x3ab551ce, 0xa3bc0074, 0xd4bb30e2, 0x4adfa541, 0x3dd895d7, 0xa4d1c46d, 0xd3d6f4fb,
   0x4369e96a, 0x346ed9fc, 0xad678846, 0xda60b8d0, 0x44042d73, 0x33031de5, 0xaa0a4c5f, 0xdd0d7cc9,
   0x5005713c, 0x270241aa, 0xbe0b1010, 0xc90c2086, 0x5768b525, 0x206f85b3, 0xb966d409, 0xce61e49f,
   0x5edef90e, 0x29d9c998, 0xb0d09822, 0xc7d7a8b4, 0x59b33d17, 0x2eb40d81, 0xb7bd5c3b, 0xc0ba6cad,
   0xedb88320, 0x9abfb3b6, 0x03b6e20c, 0x74b1d29a, 0xead54739, 0x9dd277af, 0x04db2615, 0x73dc1683,
   0xe3630b12, 0x94643b84, 0x0d6d6a3e, 0x7a6a5aa8, 0xe40ecf0b, 0x9309ff9d, 0x0a00ae27, 0x7d079eb1,
   0xf00f9344, 0x8708a3d2, 0x1e01f268, 0x6906c2fe, 0xf762575d, 0x806567cb, 0x196c3671, 0x6e6b06e7,
   0xfed41b76, 0x89d32be0, 0x10da7a5a, 0x67dd4acc, 0xf9b9df6f, 0x8ebeeff9, 0x17b7be43, 0x60b08ed5,
   0xd6d6a3e8, 0xa1d1937e, 0x38d8c2c4, 0x4fdff252, 0xd1bb67f1, 0xa6bc5767, 0x3fb506dd, 0x48b2364b,
   0xd80d2bda, 0xaf0a1b4c, 0x36034af6, 0x41047a60, 0xdf60efc3, 0xa867df55, 0x316e8eef, 0x4669be79,
   0xcb61b38c, 0xbc66831a, 0x256fd2a0, 0x5268e236, 0xcc0c7795, 0xbb0b4703, 0x220216b9, 0x5505262f,
   0xc5ba3bbe, 0xb2bd0b28, 0x2bb45a92, 0x5cb36a04, 0xc2d7ffa7, 0xb5d0cf31, 0x2cd99e8b, 0x5bdeae1d,
   0x9b64c2b0, 0xec63f226, 0x756aa39c, 0x026d930a, 0x9c0906a9, 0xeb0e363f, 0x72076785, 0x05005713,
   0x95bf4a82, 0xe2b87a14, 0x7bb12bae, 0x0cb61b38, 0x92d28e9b, 0xe5d5be0d, 0x7cdcefb7, 0x0bdbdf21,
   0x86d3d2d4, 0xf1d4e242, 0x68ddb3f8, 0x1fda836e, 0x81be16cd, 0xf6b9265b, 0x6fb077e1, 0x18b74777,
   0x88085ae6, 0xff0f6a70, 0x66063bca, 0x11010b5c, 0x8f659eff, 0xf862ae69, 0x616bffd3, 0x166ccf45,
   0xa00ae278, 0xd70dd2ee, 0x4e048354, 0x3903b3c2, 0xa7672661, 0xd06016f7, 0x4969474d, 0x3e6e77db,
   0xaed16a4a, 0xd9d65adc, 0x40df0b66, 0x37d83bf0, 0xa9bcae53, 0xdebb9ec5, 0x47b2cf7f, 0x30b5ffe9,
   0xbdbdf21c, 0xcabac28a, 0x53b39330, 0x24b4a3a6, 0xbad03605, 0xcdd70693, 0x54de5729, 0x23d967bf,
   0xb3667a2e, 0xc4614ab8, 0x5d681b02, 0x2a6f2b94, 0xb40bbe37, 0xc30c8ea1, 0x5a05df1b, 0x2d02ef8d]"

text \<open>\<open>ngx_crc32_table_short\<close> points to a copy of the small table that is aligned to the cache.\<close>

definition crc32_short_step :: "uint32_t \<Rightarrow> u_char \<Rightarrow> uint32_t" where
  "crc32_short_step crc c =
     (let crc = ngx_crc32_table16 ! unat ((crc XOR ucast (c AND 0xf)) AND 0xf) XOR drop_bit 4 crc
      in ngx_crc32_table16 ! unat ((crc XOR ucast (drop_bit 4 c)) AND 0xf) XOR drop_bit 4 crc)"

definition ngx_crc32_short :: "bytes \<Rightarrow> uint32_t" where
  "ngx_crc32_short p = foldl crc32_short_step 0xffffffff p XOR 0xffffffff"

definition crc32_long_step :: "uint32_t \<Rightarrow> u_char \<Rightarrow> uint32_t" where
  "crc32_long_step crc c = ngx_crc32_table256 ! unat ((crc XOR ucast c) AND 0xff) XOR drop_bit 8 crc"

definition ngx_crc32_long :: "bytes \<Rightarrow> uint32_t" where
  "ngx_crc32_long p = foldl crc32_long_step 0xffffffff p XOR 0xffffffff"

definition ngx_crc32_init :: uint32_t where
  "ngx_crc32_init = 0xffffffff"

definition ngx_crc32_update :: "uint32_t \<Rightarrow> bytes \<Rightarrow> uint32_t" where
  "ngx_crc32_update crc p = foldl crc32_long_step crc p"

definition ngx_crc32_final :: "uint32_t \<Rightarrow> uint32_t" where
  "ngx_crc32_final crc = crc XOR 0xffffffff"

subsection \<open>The shift register\<close>

text \<open>The reference: the register of the polynomial, clocked once for each bit, the lowest bit of a byte first.\<close>

definition crc_clock :: "uint32_t \<Rightarrow> uint32_t" where
  "crc_clock s = (if bit s 0 then drop_bit 1 s XOR 0xedb88320 else drop_bit 1 s)"

definition crc_bit :: "uint32_t \<Rightarrow> bool \<Rightarrow> uint32_t" where
  "crc_bit s b = crc_clock (if b then s XOR 1 else s)"

definition crc_bits :: "u_char \<Rightarrow> bool list" where
  "crc_bits c = map (bit c) [0..<8]"

definition crc32_reference :: "bytes \<Rightarrow> uint32_t" where
  "crc32_reference p = foldl crc_bit 0xffffffff (concat (map crc_bits p)) XOR 0xffffffff"

lemma crc_clock_xor: "crc_clock (x XOR y) = crc_clock x XOR crc_clock y"
proof -
  have a: "(u XOR v XOR (w XOR v) :: uint32_t) = u XOR w" for u v w
    by (metis xor.assoc xor.left_commute xor_self_eq xor.right_neutral)
  show ?thesis by (auto simp: crc_clock_def bit_xor_iff drop_bit_xor ac_simps)
qed

lemma crc_clocks_xor: "(crc_clock ^^ n) (x XOR y) = (crc_clock ^^ n) x XOR (crc_clock ^^ n) y"
  by (induction n) (simp_all add: crc_clock_xor)

lemma crc_clocks_shift: "\<forall>i<n. \<not> bit s i \<Longrightarrow> (crc_clock ^^ n) s = drop_bit n s"
proof (induction n)
  case (Suc n)
  then have "(crc_clock ^^ n) s = drop_bit n s" by simp
  moreover have "\<not> bit (drop_bit n s) 0" using Suc.prems by (simp add: bit_drop_bit_eq)
  ultimately have "crc_clock ((crc_clock ^^ n) s) = drop_bit 1 (drop_bit n s)" unfolding crc_clock_def by simp
  then show ?case by (simp add: ac_simps)
qed simp

lemma crc_clocks_split: "(crc_clock ^^ n) s = (crc_clock ^^ n) (s AND mask n) XOR drop_bit n s"
proof -
  have s: "s = (s AND mask n) XOR (s AND NOT (mask n))"
    by (rule bit_word_eqI) (auto simp: bit_simps)
  have "(crc_clock ^^ n) (s AND NOT (mask n)) = drop_bit n (s AND NOT (mask n))"
    by (rule crc_clocks_shift) (auto simp: bit_simps)
  also have "\<dots> = drop_bit n s" by (rule bit_word_eqI) (auto simp: bit_simps dest: bit_imp_le_length)
  finally show ?thesis using crc_clocks_xor [of n "s AND mask n" "s AND NOT (mask n)"] s by simp
qed

lemma crc_table16: "map (\<lambda>i. (crc_clock ^^ 4) (of_nat i)) [0..<16] = ngx_crc32_table16"
  by code_simp

lemma crc_table256_base:
  "map (\<lambda>j. (crc_clock ^^ 8) (push_bit j 1)) [0..<8] = map (\<lambda>j. ngx_crc32_table256 ! (2 ^ j)) [0..<8]"
  by code_simp

lemma crc_table256_double:
  "list_all (\<lambda>j. take (2 ^ j) (drop (2 ^ j) ngx_crc32_table256) = map (\<lambda>x. ngx_crc32_table256 ! (2 ^ j) XOR x) (take (2 ^ j) ngx_crc32_table256)) [0..<8]"
  by code_simp

lemma xor_exp_word:
  assumes "r < 2 ^ j" "j < 32"
  shows "(of_nat (2 ^ j + r) :: uint32_t) = push_bit j 1 XOR of_nat r"
proof -
  have "\<not> bit r j" using assms(1) by (simp add: bit_iff_odd)
  then have "(push_bit j 1 :: uint32_t) AND of_nat r = 0" by (auto intro!: bit_word_eqI simp: bit_simps)
  then have "(push_bit j 1 :: uint32_t) XOR of_nat r = push_bit j 1 + of_nat r" by (simp add: disjunctive_add_eq_xor)
  then show ?thesis by simp
qed

lemma unat_and_mask_8: "unat ((x :: uint32_t) AND mask 8) < 256"
proof -
  have "unat (take_bit 8 x) = take_bit 8 (unat x)" by (simp add: unsigned_take_bit_eq)
  then show ?thesis using take_bit_nat_less_exp [of 8 "unat x"] by (simp add: take_bit_eq_mask)
qed

lemma crc_table256_nth: "i < 256 \<Longrightarrow> ngx_crc32_table256 ! i = (crc_clock ^^ 8) (of_nat i)"
proof -
  have "\<forall>i<2 ^ j. ngx_crc32_table256 ! i = (crc_clock ^^ 8) (of_nat i)" if "j \<le> 8" for j
    using that
  proof (induction j)
    case 0
    have "ngx_crc32_table256 ! 0 = 0" by (simp add: ngx_crc32_table256_def)
    moreover have "(crc_clock ^^ 8) 0 = 0" using crc_clocks_shift [of 8 0] by simp
    ultimately show ?case by simp
  next
    case (Suc j)
    have b: "(crc_clock ^^ 8) (push_bit j 1) = ngx_crc32_table256 ! (2 ^ j)"
      using arg_cong [OF crc_table256_base, of "\<lambda>l. l ! j"] Suc.prems by simp
    have d: "take (2 ^ j) (drop (2 ^ j) ngx_crc32_table256) =
        map (\<lambda>x. ngx_crc32_table256 ! (2 ^ j) XOR x) (take (2 ^ j) ngx_crc32_table256)"
      using crc_table256_double Suc.prems by (simp add: list_all_iff)
    have l: "length ngx_crc32_table256 = 256" by (simp add: ngx_crc32_table256_def)
    have p: "2 ^ j + 2 ^ j \<le> (256::nat)" using power_increasing [of "Suc j" 8 "2::nat"] Suc.prems by simp
    show ?case
    proof (intro allI impI)
      fix i :: nat
      assume i: "i < 2 ^ Suc j"
      show "ngx_crc32_table256 ! i = (crc_clock ^^ 8) (of_nat i)"
      proof (cases "i < 2 ^ j")
        case True
        then show ?thesis using Suc by simp
      next
        case False
        define r where "r = i - 2 ^ j"
        have r: "i = 2 ^ j + r" "r < 2 ^ j" using False i by (simp_all add: r_def)
        have "ngx_crc32_table256 ! (2 ^ j + r) = ngx_crc32_table256 ! (2 ^ j) XOR ngx_crc32_table256 ! r"
          using arg_cong [OF d, of "\<lambda>l. l ! r"] r(2) l p by simp
        moreover have "ngx_crc32_table256 ! r = (crc_clock ^^ 8) (of_nat r)" using Suc r(2) by simp
        ultimately show ?thesis
          using xor_exp_word [OF r(2)] Suc.prems unfolding r(1) b [symmetric] by (simp add: crc_clocks_xor)
      qed
    qed
  qed
  from this [of 8] show "i < 256 \<Longrightarrow> ngx_crc32_table256 ! i = (crc_clock ^^ 8) (of_nat i)" by simp
qed

lemma crc_table16_nth: "i < 16 \<Longrightarrow> ngx_crc32_table16 ! i = (crc_clock ^^ 4) (of_nat i)"
  using arg_cong [OF crc_table16, of "\<lambda>l. l ! i"] by simp

text \<open>A step of the loops is the register clocked with the bits of a byte loaded.\<close>

lemma crc_long_step: "crc32_long_step s c = (crc_clock ^^ 8) (s XOR ucast c)"
proof -
  let ?x = "s XOR ucast c"
  have m: "?x AND 0xff = ?x AND mask 8" by (simp add: mask_eq_exp_minus_1)
  have "ngx_crc32_table256 ! unat (?x AND mask 8) = (crc_clock ^^ 8) (?x AND mask 8)"
    using crc_table256_nth [OF unat_and_mask_8] by simp
  moreover have "drop_bit 8 ?x = drop_bit 8 s"
    by (rule bit_word_eqI) (auto simp: bit_simps dest: bit_imp_le_length)
  ultimately show ?thesis using crc_clocks_split [of 8 ?x] m by (simp add: crc32_long_step_def)
qed

lemma xor_eq_0: "x XOR y = 0 \<longleftrightarrow> x = y" for x y :: uint32_t
proof
  assume "x XOR y = 0"
  then have "(x XOR y) XOR y = 0 XOR y" by simp
  then show "x = y" by (simp add: xor.assoc)
qed simp

lemma xor_cancel: "x XOR z = y XOR z \<longleftrightarrow> x = y" "z XOR x = z XOR y \<longleftrightarrow> x = y" for x y z :: uint32_t
proof -
  have "x = y" if "x XOR z = y XOR z"
  proof -
    have "(x XOR z) XOR z = (y XOR z) XOR z" using that by simp
    then show ?thesis by (simp add: xor.assoc)
  qed
  then show "x XOR z = y XOR z \<longleftrightarrow> x = y" "z XOR x = z XOR y \<longleftrightarrow> x = y" by (auto simp: xor.commute)
qed

lemma crc_short_half: "ngx_crc32_table16 ! unat (x AND 0xf) XOR drop_bit 4 x = (crc_clock ^^ 4) x"
proof -
  have m: "x AND 0xf = x AND mask 4" by (simp add: mask_eq_exp_minus_1)
  have "unat (take_bit 4 x) = take_bit 4 (unat x)" by (simp add: unsigned_take_bit_eq)
  then have "unat (x AND mask 4) < 16" using take_bit_nat_less_exp [of 4 "unat x"] by (simp add: take_bit_eq_mask)
  then have "ngx_crc32_table16 ! unat (x AND mask 4) = (crc_clock ^^ 4) (x AND mask 4)" by (simp add: crc_table16_nth)
  then show ?thesis using crc_clocks_split [of 4 x] m by simp
qed

lemma crc_clocks_8: "(crc_clock ^^ 8) x = (crc_clock ^^ 4) ((crc_clock ^^ 4) x)"
proof -
  have "(crc_clock ^^ (4 + 4)) x = (crc_clock ^^ 4) ((crc_clock ^^ 4) x)" unfolding funpow_add comp_def by (rule refl)
  then show ?thesis by simp
qed

lemma crc_short_step: "crc32_short_step s c = (crc_clock ^^ 8) (s XOR ucast c)"
proof -
  let ?l = "ucast (c AND mask 4) :: uint32_t" and ?h = "ucast (drop_bit 4 c) :: uint32_t"
  have m: "(0xf :: u_char) = mask 4" by (simp add: mask_eq_exp_minus_1)
  have c: "ucast c = ?l XOR push_bit 4 ?h" by (rule bit_word_eqI) (auto simp: bit_simps not_less dest: bit_imp_le_length)
  have h: "(crc_clock ^^ 4) (push_bit 4 ?h) = ?h"
  proof -
    have "drop_bit 4 (push_bit 4 ?h) = ?h" by (rule bit_word_eqI) (auto simp: bit_simps dest: bit_imp_le_length)
    then show ?thesis using crc_clocks_shift [of 4 "push_bit 4 ?h"] by (simp add: bit_simps)
  qed
  have d: "drop_bit 4 (s XOR ?l) = drop_bit 4 s" by (rule bit_word_eqI) (auto simp: bit_simps)
  have d2: "drop_bit 4 (x XOR ?h) = drop_bit 4 x" for x :: uint32_t by (rule bit_word_eqI) (auto simp: bit_simps dest: bit_imp_le_length)
  have "crc32_short_step s c = (crc_clock ^^ 4) ((crc_clock ^^ 4) (s XOR ?l) XOR ?h)"
    using crc_short_half [of "s XOR ?l"] crc_short_half [of "(crc_clock ^^ 4) (s XOR ?l) XOR ?h"] unfolding d d2
    by (simp add: crc32_short_step_def m)
  also have "\<dots> = (crc_clock ^^ 4) ((crc_clock ^^ 4) (s XOR ?l XOR push_bit 4 ?h))" by (simp only: crc_clocks_xor h xor.assoc)
  also have "s XOR ?l XOR push_bit 4 ?h = s XOR ucast c" by (simp only: c xor.assoc)
  finally show ?thesis by (simp only: crc_clocks_8)
qed

lemma crc_bits_load:
  "n \<le> 8 \<Longrightarrow> foldl crc_bit s (map (bit c) [0..<n]) = (crc_clock ^^ n) (s XOR ucast (c AND mask n))" for c :: u_char
proof (induction n)
  case (Suc n)
  let ?x = "s XOR ucast (c AND mask n)"
  have "(crc_clock ^^ n) (push_bit n 1) = 1"
  proof -
    have "drop_bit n (push_bit n 1 :: uint32_t) = 1"
      by (rule bit_word_eqI) (use Suc.prems in \<open>auto simp: bit_simps simp del: push_bit_of_1\<close>)
    then show ?thesis using crc_clocks_shift [of n "push_bit n 1"] by (simp add: bit_simps del: push_bit_of_1)
  qed
  then have "(if bit c n then (crc_clock ^^ n) ?x XOR 1 else (crc_clock ^^ n) ?x) = (crc_clock ^^ n) (?x XOR (if bit c n then push_bit n 1 else 0))"
    using crc_clocks_shift [of n 0] by (simp add: crc_clocks_xor del: push_bit_of_1)
  moreover have "ucast (c AND mask n) XOR (if bit c n then push_bit n 1 else 0) = (ucast (c AND mask (Suc n)) :: uint32_t)"
    by (rule bit_word_eqI) (use Suc.prems in \<open>auto simp: bit_simps less_Suc_eq dest: bit_imp_le_length\<close>)
  ultimately have "crc_bit ((crc_clock ^^ n) ?x) (bit c n) = (crc_clock ^^ Suc n) (s XOR ucast (c AND mask (Suc n)))"
    by (simp add: crc_bit_def xor.assoc)
  then show ?case using Suc by simp
qed simp

lemma crc_bits_step: "foldl crc_bit s (crc_bits c) = (crc_clock ^^ 8) (s XOR ucast c)"
proof -
  have "c AND mask 8 = c" by (rule bit_word_eqI) (auto simp: bit_simps)
  then show ?thesis using crc_bits_load [of 8 s c] by (simp add: crc_bits_def)
qed

lemma crc_steps: "crc32_short_step = crc32_long_step" "foldl crc_bit s (concat (map crc_bits p)) = foldl crc32_long_step s p"
proof -
  show "crc32_short_step = crc32_long_step" by (simp add: fun_eq_iff crc_short_step crc_long_step)
  show "foldl crc_bit s (concat (map crc_bits p)) = foldl crc32_long_step s p"
    by (induction p arbitrary: s) (simp_all add: crc_bits_step crc_long_step)
qed

lemma crc_update_concat: "foldl ngx_crc32_update s ps = foldl crc32_long_step s (concat ps)"
  by (induction ps arbitrary: s) (simp_all add: ngx_crc32_update_def)

subsection \<open>Errors in a message\<close>

lemma crc_clock_0: "crc_clock x = 0 \<Longrightarrow> x = 0"
proof -
  assume z: "crc_clock x = 0"
  have "\<not> bit x 0"
  proof
    assume "bit x 0"
    then have "drop_bit 1 x = 0xedb88320" using z by (simp add: crc_clock_def xor_eq_0)
    moreover have "bit (0xedb88320 :: uint32_t) 31" by simp
    ultimately have "bit (drop_bit 1 x) 31" by simp
    then show False by (auto simp: bit_simps dest: bit_imp_le_length)
  qed
  then have "drop_bit 1 x = 0" using z by (simp add: crc_clock_def)
  then have s: "\<not> bit x (Suc n)" for n using bit_drop_bit_eq [of 1 x] by (metis bit_0_eq bot_apply bot_bool_def comp_apply plus_1_eq_Suc)
  show "x = 0"
  proof (rule bit_word_eqI)
    fix n
    show "bit x n = bit 0 n" using s \<open>\<not> bit x 0\<close> by (cases n) simp_all
  qed
qed

lemma crc_clocks_inj: "(crc_clock ^^ n) x = (crc_clock ^^ n) y \<Longrightarrow> x = y"
proof -
  have z: "(crc_clock ^^ n) u = 0 \<Longrightarrow> u = 0" for u by (induction n) (auto dest: crc_clock_0)
  assume "(crc_clock ^^ n) x = (crc_clock ^^ n) y"
  then have "(crc_clock ^^ n) (x XOR y) = 0" by (simp add: crc_clocks_xor)
  then show "x = y" using z xor_eq_0 by blast
qed

lemma crc_step_inj: "foldl crc32_long_step s p = foldl crc32_long_step s' p \<Longrightarrow> s = s'"
proof (induction p arbitrary: s s')
  case (Cons c p)
  then have "crc32_long_step s c = crc32_long_step s' c" by simp
  then have "s XOR ucast c = s' XOR ucast c" unfolding crc_long_step by (rule crc_clocks_inj)
  then show ?case by (simp only: xor_cancel)
qed simp

text \<open>Up to four bytes loaded at once.\<close>

fun crc_load :: "bytes \<Rightarrow> uint32_t" where
  "crc_load [] = 0"
| "crc_load (c # p) = ucast c XOR push_bit 8 (crc_load p)"

lemma crc_load_bit: "8 * length p \<le> i \<Longrightarrow> \<not> bit (crc_load p) i"
  by (induction p arbitrary: i) (auto simp: bit_simps dest: bit_imp_le_length)

lemma crc_load_run: "length p \<le> 4 \<Longrightarrow> foldl crc32_long_step s p = (crc_clock ^^ (8 * length p)) (s XOR crc_load p)"
proof (induction p arbitrary: s)
  case (Cons c p)
  have "drop_bit 8 (push_bit 8 (crc_load p)) = crc_load p"
  proof (rule bit_word_eqI)
    fix i :: nat
    assume "i < LENGTH(32)"
    then show "bit (drop_bit 8 (push_bit 8 (crc_load p))) i = bit (crc_load p) i"
      using crc_load_bit [of p i] Cons.prems by (cases "24 \<le> i") (auto simp: bit_simps)
  qed
  then have l: "(crc_clock ^^ 8) (push_bit 8 (crc_load p)) = crc_load p"
    using crc_clocks_shift [of 8 "push_bit 8 (crc_load p)"] by (simp add: bit_simps)
  have "foldl crc32_long_step s (c # p) = (crc_clock ^^ (8 * length p)) ((crc_clock ^^ 8) (s XOR ucast c) XOR crc_load p)"
    using Cons.IH [of "(crc_clock ^^ 8) (s XOR ucast c)"] Cons.prems by (simp only: foldl.simps crc_long_step [of s c]) simp
  also have "(crc_clock ^^ 8) (s XOR ucast c) XOR crc_load p = (crc_clock ^^ 8) (s XOR ucast c XOR push_bit 8 (crc_load p))"
    by (simp only: crc_clocks_xor l xor.assoc)
  finally show ?case by (simp add: funpow_add xor.assoc add.commute [of 8])
qed simp

lemma crc_load_inj: "length p = length q \<Longrightarrow> length p \<le> 4 \<Longrightarrow> crc_load p = crc_load q \<Longrightarrow> p = q"
proof (induction p arbitrary: q)
  case (Cons c p)
  then obtain d q' where q: "q = d # q'" by (cases q) auto
  have "bit c i = bit d i" if "i < 8" for i
    using arg_cong [OF Cons.prems(3), of "\<lambda>w. bit w i"] that q by (simp add: bit_simps)
  then have "c = d" by (auto intro!: bit_word_eqI)
  have "bit (crc_load p) i = bit (crc_load q') i" if "i < 24" for i
    using arg_cong [OF Cons.prems(3), of "\<lambda>w. bit w (8 + i)"] that q by (auto simp: bit_simps dest: bit_imp_le_length)
  moreover have "\<not> bit (crc_load p) i" "\<not> bit (crc_load q') i" if "24 \<le> i" for i
    using crc_load_bit [of p i] crc_load_bit [of q' i] Cons.prems(1,2) q that by auto
  ultimately have "crc_load p = crc_load q'" by (auto intro!: bit_word_eqI) (metis not_le)+
  then show ?case using Cons.IH [of q'] Cons.prems(1,2) q \<open>c = d\<close> by simp
qed simp

subsection \<open>Properties\<close>

text \<open>
  C19: The two ways to compute the checksum, by nibbles and by bytes, and the computation in pieces, give the bitwise CRC-32 of the message.
\<close>

theorem crc32_is_reference:
  "ngx_crc32_short p = crc32_reference p \<and> ngx_crc32_long p = crc32_reference p \<and>
   ngx_crc32_final (foldl ngx_crc32_update ngx_crc32_init ps) = crc32_reference (concat ps)"
  by (simp add: ngx_crc32_short_def ngx_crc32_long_def crc32_reference_def crc_steps ngx_crc32_final_def crc_update_concat ngx_crc32_init_def)

text \<open>The checksum tells two messages apart that differ in at most four adjacent bytes, wherever these are.\<close>

theorem crc32_detects_bursts:
  assumes "length p = length q" "length p \<le> 4" "p \<noteq> q"
  shows "ngx_crc32_short (us @ p @ vs) \<noteq> ngx_crc32_short (us @ q @ vs)"
proof
  assume "ngx_crc32_short (us @ p @ vs) = ngx_crc32_short (us @ q @ vs)"
  then have "foldl crc32_long_step (foldl crc32_long_step (foldl crc32_long_step 0xffffffff us) p) vs =
      foldl crc32_long_step (foldl crc32_long_step (foldl crc32_long_step 0xffffffff us) q) vs"
    by (simp add: ngx_crc32_short_def crc_steps xor_cancel)
  then have "foldl crc32_long_step (foldl crc32_long_step 0xffffffff us) p = foldl crc32_long_step (foldl crc32_long_step 0xffffffff us) q"
    by (rule crc_step_inj)
  then have "(crc_clock ^^ (8 * length q)) (foldl crc32_long_step 0xffffffff us XOR crc_load p) =
      (crc_clock ^^ (8 * length q)) (foldl crc32_long_step 0xffffffff us XOR crc_load q)"
    using assms(1,2) crc_load_run [of p] crc_load_run [of q] by simp
  then have "crc_load p = crc_load q" by (metis crc_clocks_inj xor_cancel(2))
  then show False using crc_load_inj assms by blast
qed

lemma crc32_detects_bursts_witness: "ngx_crc32_short [65, 66, 67, 68] \<noteq> ngx_crc32_short [65, 67, 66, 68]"
  using crc32_detects_bursts [of "[66, 67]" "[67, 66]" "[65]" "[68]"] by simp

end
