(* ===== verification/Ngx_Http_Limit_Req.thy ===== *)
theory Ngx_Http_Limit_Req
  imports Ngx_Event_Timer Ngx_Str_Rbtree Ngx_Queue Ngx_Crc32 Ngx_Time "HOL-Library.List_Lexorder"
begin

text \<open>
  Request limits, \<open>http/modules/ngx_http_limit_req_module.c\<close>: zones in shared memory that hold a red-black tree of nodes, one
  for each key, and a queue of the same nodes from the latest used to the oldest; the handler of a request and all it calls.
  The slab pool and the value of the variables are parameters; the directives that configure a limit are not modelled.
\<close>

subsection \<open>State\<close>

text \<open>
  A node of the tree, the \<open>ngx_http_limit_req_node_t\<close> that begins at its member \<open>color\<close>, and the link of the queue in
  that are parts of one allocation and are named by one address.  \<open>lr_data\<close> is the memory from the member \<open>data\<close> on.
\<close>

record limit_node =
  lr_len :: "16 word"
  lr_last :: uint64_t
  lr_excess :: uint64_t
  lr_count :: uint64_t
  lr_data :: "nat \<Rightarrow> u_char"

text \<open>
  A zone: the tree and the queue of \<open>ngx_http_limit_req_shctx_t\<close>, the nodes, the fields \<open>rate\<close> and \<open>node\<close> of the
  context, and the addresses that the slab pool has handed out and not got back.
\<close>

record limit_zone =
  lz_mem :: rb_mem
  lz_root :: rb_ptr
  lz_sentinel :: rb_ptr
  lz_links :: q_mem
  lz_queue :: q_ptr
  lz_nodes :: "rb_ptr \<Rightarrow> limit_node"
  lz_rate :: uint64_t
  lz_node :: "rb_ptr option"
  lz_used :: "rb_ptr list"

record limit =
  lim_burst :: uint64_t
  lim_nodelay :: bool

definition limit_init_zone :: "limit_zone \<Rightarrow> limit_zone" where
  "limit_init_zone z =
     (let (m, root) = ngx_rbtree_init (lz_mem z) (lz_sentinel z)
      in z\<lparr>lz_mem := m, lz_root := root, lz_links := ngx_queue_init (lz_links z) (lz_queue z)\<rparr>)"

subsection \<open>The order of the nodes\<close>

definition ngx_memn2cmp :: "(nat \<Rightarrow> u_char) \<Rightarrow> (nat \<Rightarrow> u_char) \<Rightarrow> nat \<Rightarrow> nat \<Rightarrow> int" where
  "ngx_memn2cmp s1 s2 n1 n2 =
     (let n = (if n1 \<le> n2 then n1 else n2);
          z = (if n1 \<le> n2 then -1 else 1);
          m = ngx_memcmp (map s1 [0..<n]) (map s2 [0..<n])
      in if m \<noteq> 0 \<or> n1 = n2 then m else z)"

definition limit_less :: "(rb_ptr \<Rightarrow> limit_node) \<Rightarrow> rb_mem \<Rightarrow> rb_ptr \<Rightarrow> rb_ptr \<Rightarrow> bool" where
  "limit_less nodes m node temp \<longleftrightarrow>
     (if rb_key (m node) < rb_key (m temp) then True
      else if rb_key (m node) > rb_key (m temp) then False
      else
        let lrn = nodes node;
            lrnt = nodes temp
        in ngx_memn2cmp (lr_data lrn) (lr_data lrnt) (unat (lr_len lrn)) (unat (lr_len lrnt)) < 0)"

definition ngx_http_limit_req_rbtree_insert_value ::
  "(rb_ptr \<Rightarrow> limit_node) \<Rightarrow> rb_mem \<Rightarrow> rb_ptr \<Rightarrow> rb_ptr \<Rightarrow> rb_ptr \<Rightarrow> rb_mem option" where
  "ngx_http_limit_req_rbtree_insert_value nodes m temp node sentinel =
     map_option (rb_link m sentinel node) (rb_walk (limit_less nodes m) m sentinel node temp)"

subsection \<open>Old nodes\<close>

text \<open>\<open>now\<close> is the cached time in milliseconds.\<close>

function ngx_http_limit_req_expire :: "uint64_t \<Rightarrow> nat \<Rightarrow> limit_zone \<Rightarrow> limit_zone option" where
  "ngx_http_limit_req_expire now n z =
     (if n < 3 then
        if ngx_queue_empty (lz_links z) (lz_queue z) then Some z
        else
          let q = ngx_queue_last (lz_links z) (lz_queue z);
              lr = lz_nodes z q;
              ms = ngx_abs (now - lr_last lr)
          in if lr_count lr \<noteq> 0 then Some z
             else if n \<noteq> 0 \<and> (ms <s 60000 \<or> 0 <s lr_excess lr - lz_rate z * ms div 1000) then Some z
             else
               (case ngx_rbtree_delete (lz_mem z) (lz_root z) (lz_sentinel z) q of
                  None \<Rightarrow> None
                | Some (m, root) \<Rightarrow>
                    ngx_http_limit_req_expire now (Suc n)
                      (z\<lparr>lz_links := ngx_queue_remove (lz_links z) q, lz_mem := m, lz_root := root, lz_used := remove1 q (lz_used z)\<rparr>))
      else Some z)"
  by pat_completeness auto
termination by (relation "measure (\<lambda>(now, n, z). 3 - n)") auto

declare ngx_http_limit_req_expire.simps [simp del]

subsection \<open>One zone\<close>

text \<open>The search for a node with the hash and the data; the result is a node or none.\<close>

partial_function (option) limit_find ::
  "(rb_ptr \<Rightarrow> limit_node) \<Rightarrow> rb_mem \<Rightarrow> rb_ptr \<Rightarrow> rb_ptr \<Rightarrow> uint64_t \<Rightarrow> bytes \<Rightarrow> rb_ptr option option" where
  "limit_find nodes m sentinel node hash data =
     (if node \<noteq> sentinel then
        if hash < rb_key (m node) then limit_find nodes m sentinel (rb_left (m node)) hash data
        else if hash > rb_key (m node) then limit_find nodes m sentinel (rb_right (m node)) hash data
        else
          let lr = nodes node;
              rc = ngx_memn2cmp ((!) data) (lr_data lr) (length data) (unat (lr_len lr))
          in if rc = 0 then Some (Some node)
             else limit_find nodes m sentinel (if rc < 0 then rb_left (m node) else rb_right (m node)) hash data
      else Some None)"

definition limit_excess :: "uint64_t \<Rightarrow> limit_node \<Rightarrow> uint64_t \<Rightarrow> uint64_t" where
  "limit_excess rate lr now =
     (let ms = now - lr_last lr;
          excess = lr_excess lr - rate * ngx_abs ms div 1000 + 1000
      in if excess <s 0 then 0 else excess)"

text \<open>The node is found; the result is the return code, the excess and the zone.\<close>

definition limit_found :: "limit \<Rightarrow> rb_ptr \<Rightarrow> bool \<Rightarrow> uint64_t \<Rightarrow> limit_zone \<Rightarrow> int \<times> uint64_t \<times> limit_zone" where
  "limit_found limit node account now z =
     (let links = ngx_queue_remove (lz_links z) node;
          z = z\<lparr>lz_links := ngx_queue_insert_head links (lz_queue z) node\<rparr>;
          lr = lz_nodes z node;
          excess = limit_excess (lz_rate z) lr now
      in if excess > lim_burst limit then (NGX_BUSY, excess, z)
         else if account then
           (NGX_OK, excess, z\<lparr>lz_nodes := (lz_nodes z)(node := lr\<lparr>lr_excess := excess, lr_last := now\<rparr>)\<rparr>)
         else (NGX_AGAIN, excess, z\<lparr>lz_nodes := (lz_nodes z)(node := lr\<lparr>lr_count := lr_count lr + 1\<rparr>), lz_node := Some node\<rparr>))"

text \<open>A new node at the address \<open>node\<close>.  It is inserted into the tree before its own fields are set.\<close>

definition limit_new ::
  "rb_ptr \<Rightarrow> uint64_t \<Rightarrow> bytes \<Rightarrow> bool \<Rightarrow> uint64_t \<Rightarrow> limit_zone \<Rightarrow> (int \<times> uint64_t \<times> limit_zone) option" where
  "limit_new node hash data account now z =
     (let m = (lz_mem z)(node := (lz_mem z node)\<lparr>rb_key := hash\<rparr>)
      in case ngx_rbtree_insert (ngx_http_limit_req_rbtree_insert_value (lz_nodes z)) m (lz_root z) (lz_sentinel z) node of
           None \<Rightarrow> None
         | Some (m, root) \<Rightarrow>
             let links = ngx_queue_insert_head (lz_links z) (lz_queue z) node;
                 lr = (lz_nodes z node)\<lparr>lr_len := ucast (of_nat (length data) :: u_char), lr_excess := 0,
                   lr_data := (\<lambda>i. if i < length data then data ! i else lr_data (lz_nodes z node) i)\<rparr>;
                 z = z\<lparr>lz_mem := m, lz_root := root, lz_links := links, lz_used := node # lz_used z\<rparr>
             in if account then
                  Some (NGX_OK, 0, z\<lparr>lz_nodes := (lz_nodes z)(node := lr\<lparr>lr_last := now, lr_count := 0\<rparr>)\<rparr>)
                else
                  Some (NGX_AGAIN, 0, z\<lparr>lz_nodes := (lz_nodes z)(node := lr\<lparr>lr_last := 0, lr_count := 1\<rparr>), lz_node := Some node\<rparr>))"

text \<open>
  The slab pool is a parameter: the address that an allocation of a size returns, if any, given the addresses in use.  The
  member \<open>color\<close> of a tree node is at 32, the member \<open>data\<close> is 48 bytes behind it.
\<close>

type_synonym limit_alloc = "nat \<Rightarrow> rb_ptr list \<Rightarrow> rb_ptr option"

definition ngx_http_limit_req_lookup ::
  "limit_alloc \<Rightarrow> limit \<Rightarrow> uint64_t \<Rightarrow> bytes \<Rightarrow> bool \<Rightarrow> uint64_t \<Rightarrow> limit_zone \<Rightarrow> (int \<times> uint64_t \<times> limit_zone) option" where
  "ngx_http_limit_req_lookup alloc limit hash data account now z =
     (case limit_find (lz_nodes z) (lz_mem z) (lz_sentinel z) (lz_root z) hash data of
        None \<Rightarrow> None
      | Some (Some node) \<Rightarrow> Some (limit_found limit node account now z)
      | Some None \<Rightarrow>
          let size = 32 + 48 + length data in
          (case ngx_http_limit_req_expire now 1 z of
             None \<Rightarrow> None
           | Some z \<Rightarrow>
               (case alloc size (lz_used z) of
                  Some node \<Rightarrow> limit_new node hash data account now z
                | None \<Rightarrow>
                    (case ngx_http_limit_req_expire now 0 z of
                       None \<Rightarrow> None
                     | Some z \<Rightarrow>
                         (case alloc size (lz_used z) of
                            Some node \<Rightarrow> limit_new node hash data account now z
                          | None \<Rightarrow> Some (NGX_ERROR, 0, z))))))"

subsection \<open>A request\<close>

text \<open>The division traps when the rate is zero, as the directive \<open>rate=0r/s\<close> makes it.\<close>

definition limit_delay :: "uint64_t \<Rightarrow> uint64_t \<Rightarrow> uint64_t option" where
  "limit_delay excess rate = (if rate = 0 then None else Some (excess * 1000 div rate))"

text \<open>
  The zones below \<open>n\<close> are charged, the last one first; \<open>zs\<close> has the zone of each limit.  The result is the longest delay, its
  excess and its limit, and the zones.
\<close>

fun limit_account_loop ::
  "limit list \<Rightarrow> uint64_t \<Rightarrow> nat \<Rightarrow> uint64_t \<times> uint64_t \<times> nat \<Rightarrow> limit_zone list \<Rightarrow> ((uint64_t \<times> uint64_t \<times> nat) \<times> limit_zone list) option" where
  "limit_account_loop limits now 0 res zs = Some (res, zs)"
| "limit_account_loop limits now (Suc n) res zs =
     (let z = zs ! n in
      case lz_node z of
        None \<Rightarrow> limit_account_loop limits now n res zs
      | Some a \<Rightarrow>
          let lr = lz_nodes z a;
              excess = limit_excess (lz_rate z) lr now;
              zs = zs[n := z\<lparr>lz_nodes := (lz_nodes z)(a := lr\<lparr>lr_last := now, lr_excess := excess, lr_count := lr_count lr - 1\<rparr>),
                lz_node := None\<rparr>]
          in if lim_nodelay (limits ! n) then limit_account_loop limits now n res zs
             else
               (case limit_delay excess (lz_rate z) of
                  None \<Rightarrow> None
                | Some delay \<Rightarrow> limit_account_loop limits now n (if delay > fst res then (delay, excess, n) else res) zs))"

definition ngx_http_limit_req_account ::
  "limit list \<Rightarrow> nat \<Rightarrow> uint64_t \<Rightarrow> nat \<Rightarrow> uint64_t \<Rightarrow> limit_zone list \<Rightarrow> ((uint64_t \<times> uint64_t \<times> nat) \<times> limit_zone list) option" where
  "ngx_http_limit_req_account limits n ep limit now zs =
     (case (if ep = 0 \<or> lim_nodelay (limits ! limit) then Some 0 else limit_delay ep (lz_rate (zs ! limit))) of
        None \<Rightarrow> None
      | Some max_delay \<Rightarrow> limit_account_loop limits now n (max_delay, ep, limit) zs)"

text \<open>
  The loop of the handler.  \<open>vals\<close> has the value of the variable of each limit, if it is found, and \<open>allocs\<close> the slab pool
  of its zone.  The result is the return code, the number of the limit at which the loop ends, the excess and the zones.
\<close>

function limit_check ::
  "limit_alloc list \<Rightarrow> limit list \<Rightarrow> bytes option list \<Rightarrow> uint64_t \<Rightarrow> nat \<Rightarrow> int \<Rightarrow> uint64_t \<Rightarrow> limit_zone list \<Rightarrow> (int \<times> nat \<times> uint64_t \<times> limit_zone list) option" where
  "limit_check allocs limits vals now n rc excess zs =
     (if n < length limits then
        case vals ! n of
          None \<Rightarrow> limit_check allocs limits vals now (Suc n) rc excess zs
        | Some v \<Rightarrow>
            if length v = 0 \<or> length v > 65535 then limit_check allocs limits vals now (Suc n) rc excess zs
            else
              (case ngx_http_limit_req_lookup (allocs ! n) (limits ! n) (ucast (ngx_crc32_short v)) v (n = length limits - 1) now (zs ! n) of
                 None \<Rightarrow> None
               | Some (rc, excess, z) \<Rightarrow>
                   if rc \<noteq> NGX_AGAIN then Some (rc, n, excess, zs[n := z])
                   else limit_check allocs limits vals now (Suc n) rc excess (zs[n := z]))
      else Some (rc, n, excess, zs))"
  by pat_completeness auto
termination by (relation "measure (\<lambda>(allocs, limits, vals, now, n, rc, excess, zs). length limits - n)") auto

declare limit_check.simps [simp del]

definition limit_unpin :: "limit_zone \<Rightarrow> limit_zone" where
  "limit_unpin z =
     (case lz_node z of
        None \<Rightarrow> z
      | Some a \<Rightarrow> z\<lparr>lz_nodes := (lz_nodes z)(a := (lz_nodes z a)\<lparr>lr_count := lr_count (lz_nodes z a) - 1\<rparr>), lz_node := None\<rparr>)"

fun limit_unpin_loop :: "nat \<Rightarrow> limit_zone list \<Rightarrow> limit_zone list" where
  "limit_unpin_loop 0 zs = zs"
| "limit_unpin_loop (Suc n) zs = limit_unpin_loop n (zs[n := limit_unpin (zs ! n)])"

text \<open>
  \<open>req_set\<close> is the flag \<open>limit_req_set\<close> of the main request, \<open>read_ok\<close> the outcome of \<open>ngx_handle_read_event\<close>.  The
  result is the return code, the flag, the delay for which a timer is set, if any, and the zones.
\<close>

abbreviation NGX_HTTP_SERVICE_UNAVAILABLE :: int where "NGX_HTTP_SERVICE_UNAVAILABLE \<equiv> 503"
abbreviation NGX_HTTP_INTERNAL_SERVER_ERROR :: int where "NGX_HTTP_INTERNAL_SERVER_ERROR \<equiv> 500"

definition ngx_http_limit_req_handler ::
  "limit_alloc list \<Rightarrow> limit list \<Rightarrow> bytes option list \<Rightarrow> uint64_t \<Rightarrow> bool \<Rightarrow> bool \<Rightarrow> limit_zone list \<Rightarrow> (int \<times> bool \<times> uint64_t option \<times> limit_zone list) option" where
  "ngx_http_limit_req_handler allocs limits vals now read_ok req_set zs =
     (if req_set then Some (NGX_DECLINED, req_set, None, zs)
      else
        case limit_check allocs limits vals now 0 NGX_DECLINED 0 zs of
          None \<Rightarrow> None
        | Some (rc, n, excess, zs) \<Rightarrow>
            if rc = NGX_DECLINED then Some (NGX_DECLINED, req_set, None, zs)
            else if rc = NGX_BUSY \<or> rc = NGX_ERROR then Some (NGX_HTTP_SERVICE_UNAVAILABLE, True, None, limit_unpin_loop n zs)
            else
              let excess = (if rc = NGX_AGAIN then 0 else excess);
                  limit = (if n < length limits then n else length limits - 1)
              in case ngx_http_limit_req_account limits n excess limit now zs of
                   None \<Rightarrow> None
                 | Some ((delay, _), zs) \<Rightarrow>
                     if delay = 0 then Some (NGX_DECLINED, True, None, zs)
                     else if \<not> read_ok then Some (NGX_HTTP_INTERNAL_SERVER_ERROR, True, None, zs)
                     else Some (NGX_AGAIN, True, Some delay, zs))"

subsection \<open>Keys\<close>

text \<open>The comparison of two data is that of two lists of bytes.\<close>

definition cmp_list :: "bytes \<Rightarrow> bytes \<Rightarrow> int" where
  "cmp_list u v = (let m = ngx_memcmp u v in if m \<noteq> 0 \<or> length u = length v then m else if length u \<le> length v then -1 else 1)"

lemma memcmp_take: "ngx_memcmp (take (min (length u) (length v)) u) (take (min (length u) (length v)) v) = ngx_memcmp u v"
  by (induction u v rule: ngx_memcmp.induct) auto

lemma memn2cmp_list: "ngx_memn2cmp s1 s2 n1 n2 = cmp_list (map s1 [0..<n1]) (map s2 [0..<n2])"
proof -
  have "map s1 [0..<min n1 n2] = take (min n1 n2) (map s1 [0..<n1])" "map s2 [0..<min n1 n2] = take (min n1 n2) (map s2 [0..<n2])"
    by (simp_all add: take_map)
  then have "ngx_memcmp (map s1 [0..<min n1 n2]) (map s2 [0..<min n1 n2]) = ngx_memcmp (map s1 [0..<n1]) (map s2 [0..<n2])"
    using memcmp_take [of "map s1 [0..<n1]" "map s2 [0..<n2]"] by simp
  then show ?thesis by (simp add: ngx_memn2cmp_def cmp_list_def min_def Let_def)
qed

lemma cmp_list_Cons [simp]: "cmp_list (x # u) (y # v) = (if x = y then cmp_list u v else uint x - uint y)"
  by (simp add: cmp_list_def Let_def word_uint_eq_iff)

lemma cmp_list_Nil [simp]: "cmp_list [] [] = 0" "cmp_list [] (y # v) = -1" "cmp_list (x # u) [] = 1"
  by (simp_all add: cmp_list_def)

lemma cmp_list_order: "cmp_list u v < 0 \<longleftrightarrow> u < v" "cmp_list u v = 0 \<longleftrightarrow> u = v" for u v :: bytes
proof -
  have "(cmp_list u v < 0 \<longleftrightarrow> u < v) \<and> (cmp_list u v = 0 \<longleftrightarrow> u = v)"
  proof (induction u arbitrary: v)
    case Nil
    then show ?case by (cases v) auto
  next
    case (Cons x u)
    then show ?case by (cases v) (auto simp: word_uint_eq_iff word_less_def)
  qed
  then show "cmp_list u v < 0 \<longleftrightarrow> u < v" "cmp_list u v = 0 \<longleftrightarrow> u = v" by auto
qed

text \<open>The data of a node.\<close>

definition lr_bytes :: "limit_node \<Rightarrow> bytes" where
  "lr_bytes lr = map (lr_data lr) [0..<unat (lr_len lr)]"

lemma map_nth_data: "map ((!) data) [0..<length data] = data"
  by (rule map_nth)

lemma limit_less_key:
  "limit_less nodes m a b \<longleftrightarrow>
     rb_key (m a) < rb_key (m b) \<or> rb_key (m a) = rb_key (m b) \<and> lr_bytes (nodes a) < lr_bytes (nodes b)"
  by (auto simp: limit_less_def memn2cmp_list cmp_list_order lr_bytes_def Let_def)

interpretation limit_order: rbtree_order "limit_less nodes" "\<lambda>m a. True" for nodes
proof unfold_locales
  show "limit_less nodes m' = limit_less nodes m" if "\<And>a. rb_key (m' a) = rb_key (m a)" for m m'
    using that by (simp add: limit_less_key fun_eq_iff)
qed (auto simp: limit_less_key)

interpretation limit_insertion: rbtree_insertion "limit_less nodes" "\<lambda>m a. True" "ngx_http_limit_req_rbtree_insert_value nodes" for nodes
  by unfold_locales (simp only: ngx_http_limit_req_rbtree_insert_value_def, rule limit_order.walk_hangs)

text \<open>A tree whose nodes have different hashes, in the order of these.\<close>

definition hash_sorted :: "rb_mem \<Rightarrow> rb_ptr list \<Rightarrow> bool" where
  "hash_sorted m xs \<longleftrightarrow> sorted_wrt (\<lambda>a b. rb_key (m a) < rb_key (m b)) xs"

lemma hash_sorted_less: "hash_sorted m xs \<Longrightarrow> rb_sorted (limit_less nodes m) xs"
  unfolding hash_sorted_def rb_sorted_def by (erule sorted_wrt_mono_rel [rotated]) (auto simp: limit_less_key)

definition limit_match :: "(rb_ptr \<Rightarrow> limit_node) \<Rightarrow> rb_mem \<Rightarrow> uint64_t \<Rightarrow> bytes \<Rightarrow> rb_ptr \<Rightarrow> bool" where
  "limit_match nodes m hash data a \<longleftrightarrow> rb_key (m a) = hash \<and> lr_bytes (nodes a) = data"

lemma limit_find_ok:
  assumes "rb_rep m s t" "s \<notin> set (rb_addrs t)" "hash_sorted m (rb_addrs t)"
  shows "\<exists>r. limit_find nodes m s (rb_root s t) hash data = Some r \<and>
    (case r of None \<Rightarrow> \<forall>a\<in>set (rb_addrs t). \<not> limit_match nodes m hash data a
     | Some a \<Rightarrow> a \<in> set (rb_addrs t) \<and> limit_match nodes m hash data a)"
  using assms
proof (induction t)
  case Lf
  then show ?case by (simp add: limit_find.simps)
next
  case (Nd l a c r)
  let ?M = "limit_match nodes m hash data"
  have at: "a \<noteq> s" "rb_left (m a) = rb_root s l" "rb_right (m a) = rb_root s r" using Nd.prems(1) by (auto simp: rb_at_def)
  have so: "hash_sorted m (rb_addrs l)" "hash_sorted m (rb_addrs r)"
    "\<And>b. b \<in> set (rb_addrs l) \<Longrightarrow> rb_key (m b) < rb_key (m a)" "\<And>b. b \<in> set (rb_addrs r) \<Longrightarrow> rb_key (m a) < rb_key (m b)"
    using Nd.prems(3) by (auto simp: hash_sorted_def sorted_wrt_append)
  define b where "b = lr_bytes (nodes a)"
  have c: "ngx_memn2cmp ((!) data) (lr_data (nodes a)) (length data) (unat (lr_len (nodes a))) = cmp_list data b"
    by (simp add: memn2cmp_list map_nth b_def lr_bytes_def)
  have e: "limit_find nodes m s a hash data =
      (if hash < rb_key (m a) then limit_find nodes m s (rb_root s l) hash data
       else if hash > rb_key (m a) then limit_find nodes m s (rb_root s r) hash data
       else if data = b then Some (Some a)
       else limit_find nodes m s (if data < b then rb_root s l else rb_root s r) hash data)"
    by (subst limit_find.simps) (simp add: at c cmp_list_order)
  have nl: "x \<in> set (rb_addrs l) \<Longrightarrow> \<not> ?M x" if "rb_key (m a) \<le> hash" for x using so(3) [of x] that by (auto simp: limit_match_def)
  have nr: "x \<in> set (rb_addrs r) \<Longrightarrow> \<not> ?M x" if "hash \<le> rb_key (m a)" for x using so(4) [of x] that by (auto simp: limit_match_def)
  have na: "\<not> ?M a" if "hash \<noteq> rb_key (m a) \<or> data \<noteq> b" using that by (auto simp: limit_match_def b_def)
  have il: ?case if "limit_find nodes m s a hash data = limit_find nodes m s (rb_root s l) hash data" "hash \<le> rb_key (m a)" "\<not> ?M a"
    using Nd.IH(1) Nd.prems(1,2) so(1) nr that by (auto split: option.splits)
  have ir: ?case if "limit_find nodes m s a hash data = limit_find nodes m s (rb_root s r) hash data" "rb_key (m a) \<le> hash" "\<not> ?M a"
    using Nd.IH(2) Nd.prems(1,2) so(2) nl that by (auto split: option.splits)
  consider "hash < rb_key (m a)" | "rb_key (m a) < hash" | "hash = rb_key (m a)" "data = b" | "hash = rb_key (m a)" "data < b" | "hash = rb_key (m a)" "b < data"
    using linorder_less_linear [of hash "rb_key (m a)"] linorder_less_linear [of data b] by blast
  then show ?case
  proof cases
    case 1
    then show ?thesis by (intro il na) (use e in auto)
  next
    case 2
    then show ?thesis by (intro ir na) (use e in auto)
  next
    case 3
    then have "?M a" by (simp add: limit_match_def b_def)
    then show ?thesis using e 3 by simp
  next
    case 4
    then show ?thesis by (intro il na) (use e in auto)
  next
    case 5
    then show ?thesis by (intro ir na) (use e in auto)
  qed
qed

subsection \<open>A zone in memory\<close>

text \<open>The nodes in use are the nodes of the tree and the elements of the queue; no two have the same hash.\<close>

definition limit_wf :: "limit_zone \<Rightarrow> bool" where
  "limit_wf z \<longleftrightarrow> (\<exists>t qs. rb_wf (lz_mem z) (lz_root z) (lz_sentinel z) t \<and> hash_sorted (lz_mem z) (rb_addrs t) \<and>
     q_ring (lz_links z) (lz_queue z) qs \<and> set qs = set (lz_used z) \<and> set (rb_addrs t) = set (lz_used z) \<and> distinct (lz_used z))"

text \<open>A step that drops nodes and leaves the others as they are.\<close>

definition limit_trim :: "limit_zone \<Rightarrow> limit_zone \<Rightarrow> bool" where
  "limit_trim z z' \<longleftrightarrow> set (lz_used z') \<subseteq> set (lz_used z) \<and> (\<forall>a\<in>set (lz_used z'). rb_key (lz_mem z' a) = rb_key (lz_mem z a)) \<and>
     lz_nodes z' = lz_nodes z \<and> lz_rate z' = lz_rate z \<and> lz_node z' = lz_node z \<and> lz_sentinel z' = lz_sentinel z \<and> lz_queue z' = lz_queue z"

lemma limit_trim_refl: "limit_trim z z"
  by (simp add: limit_trim_def)

lemma limit_trim_trans: "limit_trim z z' \<Longrightarrow> limit_trim z' z'' \<Longrightarrow> limit_trim z z''"
  by (auto simp: limit_trim_def)

lemma limit_init_wf: "lz_used z = [] \<Longrightarrow> limit_wf (limit_init_zone z)"
  unfolding limit_wf_def limit_init_zone_def
  by (rule exI [of _ Lf], rule exI [of _ "[]"])
     (simp add: ngx_rbtree_init_def rb_wf_def rb_holds_def hash_sorted_def queue_init ngx_rbt_black_def)

lemma sorted_wrt_remove1: "sorted_wrt R xs \<Longrightarrow> sorted_wrt R (remove1 x xs)"
  by (induction xs) (auto dest: set_mp [OF set_remove1_subset])

lemma limit_remove_ok:
  assumes "limit_wf z" "q \<in> set (lz_used z)"
  shows "\<exists>m root. ngx_rbtree_delete (lz_mem z) (lz_root z) (lz_sentinel z) q = Some (m, root) \<and>
    (let z' = z\<lparr>lz_links := ngx_queue_remove (lz_links z) q, lz_mem := m, lz_root := root, lz_used := remove1 q (lz_used z)\<rparr>
     in limit_wf z' \<and> limit_trim z z')"
proof -
  obtain t qs where w: "rb_wf (lz_mem z) (lz_root z) (lz_sentinel z) t" "hash_sorted (lz_mem z) (rb_addrs t)"
      "q_ring (lz_links z) (lz_queue z) qs" "set qs = set (lz_used z)" "set (rb_addrs t) = set (lz_used z)" "distinct (lz_used z)"
    using assms(1) by (auto simp: limit_wf_def)
  obtain m root t' where d: "ngx_rbtree_delete (lz_mem z) (lz_root z) (lz_sentinel z) q = Some (m, root)" "rb_wf m root (lz_sentinel z) t'"
      "rb_addrs t' = remove1 q (rb_addrs t)" "rb_deleted (lz_mem z) q m"
    using rb_delete_ok [OF w(1), of q] assms(2) w(5) by auto
  obtain us vs where qs: "qs = us @ q # vs" using assms(2) w(4) split_list by metis
  have r: "q_ring (ngx_queue_remove (lz_links z) q) (lz_queue z) (us @ vs)" using queue_remove w(3) unfolding qs .
  have dt: "distinct (rb_addrs t)" using w(1) by (simp add: rb_wf_def rb_holds_def)
  have dq: "distinct qs" using w(3) by (simp add: q_ring_def)
  have s: "set (remove1 q (lz_used z)) = set (lz_used z) - {q}" "set (rb_addrs t') = set (lz_used z) - {q}" "set (us @ vs) = set (lz_used z) - {q}"
    using w(5,6) dt dq w(4) unfolding d(3) qs by (auto simp: set_remove1_eq)
  have k: "rb_key (m a) = rb_key (lz_mem z a)" if "a \<noteq> q" for a using d(4) that by (simp add: rb_deleted_def)
  have "hash_sorted (lz_mem z) (remove1 q (rb_addrs t))" using w(2) unfolding hash_sorted_def by (rule sorted_wrt_remove1)
  then have "hash_sorted m (rb_addrs t')" unfolding hash_sorted_def d(3) [symmetric]
    by (rule sorted_wrt_mono_rel [rotated]) (use k s(2) in auto)
  define z' where "z' = z\<lparr>lz_links := ngx_queue_remove (lz_links z) q, lz_mem := m, lz_root := root, lz_used := remove1 q (lz_used z)\<rparr>"
  have "limit_wf z'" unfolding limit_wf_def
    by (rule exI [of _ t'], rule exI [of _ "us @ vs"]) (use \<open>hash_sorted m (rb_addrs t')\<close> d(2) r s w(6) in \<open>simp add: z'_def\<close>)
  moreover have "limit_trim z z'" using s(1) k by (simp add: limit_trim_def z'_def)
  ultimately show ?thesis using d(1) by (simp add: z'_def)
qed

lemma limit_expire_ok:
  assumes "limit_wf z"
  shows "\<exists>z'. ngx_http_limit_req_expire now n z = Some z' \<and> limit_wf z' \<and> limit_trim z z' \<and>
    (0 < n \<longrightarrow> (\<forall>a\<in>set (lz_used z) - set (lz_used z'). \<not> ngx_abs (now - lr_last (lz_nodes z a)) <s 60000))"
  using assms
proof (induction now n z rule: ngx_http_limit_req_expire.induct)
  case (1 now n z)
  obtain qs where w: "q_ring (lz_links z) (lz_queue z) qs" "set qs = set (lz_used z)"
    using 1(2) by (auto simp: limit_wf_def)
  let ?q = "ngx_queue_last (lz_links z) (lz_queue z)"
  let ?ms = "ngx_abs (now - lr_last (lz_nodes z ?q))"
  let ?stop = "\<not> n < 3 \<or> ngx_queue_empty (lz_links z) (lz_queue z) \<or> lr_count (lz_nodes z ?q) \<noteq> 0 \<or>
    n \<noteq> 0 \<and> (?ms <s 60000 \<or> 0 <s lr_excess (lz_nodes z ?q) - lz_rate z * ?ms div 1000)"
  show ?case
  proof (cases ?stop)
    case True
    then have "ngx_http_limit_req_expire now n z = Some z"
      by (subst ngx_http_limit_req_expire.simps) (auto simp: Let_def)
    then show ?thesis using 1(2) limit_trim_refl by auto
  next
    case False
    then have "qs \<noteq> []" using queue_empty [OF w(1)] by auto
    then have q: "?q \<in> set (lz_used z)" using queue_last [OF w(1)] last_in_set [of qs] w(2) by auto
    obtain m root where d: "ngx_rbtree_delete (lz_mem z) (lz_root z) (lz_sentinel z) ?q = Some (m, root)"
      and "let z' = z\<lparr>lz_links := ngx_queue_remove (lz_links z) ?q, lz_mem := m, lz_root := root, lz_used := remove1 ?q (lz_used z)\<rparr>
        in limit_wf z' \<and> limit_trim z z'"
      using limit_remove_ok [OF 1(2) q] by blast
    moreover define z1 where "z1 = z\<lparr>lz_links := ngx_queue_remove (lz_links z) ?q, lz_mem := m, lz_root := root, lz_used := remove1 ?q (lz_used z)\<rparr>"
    ultimately have z1: "limit_wf z1" "limit_trim z z1" by (simp_all add: Let_def)
    have e: "ngx_http_limit_req_expire now n z = ngx_http_limit_req_expire now (Suc n) z1"
      using False d unfolding z1_def by (subst ngx_http_limit_req_expire.simps) (auto simp: Let_def)
    obtain z' where z': "ngx_http_limit_req_expire now (Suc n) z1 = Some z'" "limit_wf z'" "limit_trim z1 z'"
        "\<forall>a\<in>set (lz_used z1) - set (lz_used z'). \<not> ngx_abs (now - lr_last (lz_nodes z1 a)) <s 60000"
      using 1(1) [OF _ _ refl refl refl _ _ d refl] False z1 unfolding z1_def by auto
    have "\<not> ngx_abs (now - lr_last (lz_nodes z a)) <s 60000" if "0 < n" "a \<in> set (lz_used z) - set (lz_used z')" for a
    proof (cases "a = ?q")
      case True
      then show ?thesis using False that(1) by auto
    next
      case False
      then have "a \<in> set (lz_used z1)" using that(2) by (simp add: z1_def)
      then show ?thesis using z'(4) that(2) by (auto simp: z1_def)
    qed
    then show ?thesis using e z'(1,2) limit_trim_trans [OF z1(2) z'(3)] by auto
  qed
qed

subsection \<open>The lookup\<close>

text \<open>The excess in natural numbers: it falls by the rate and grows by one request.\<close>

lemma ngx_abs_small: "d < 2 ^ 63 \<Longrightarrow> ngx_abs (of_nat d) = of_nat d"
  using sint_of_int_64 [of "int d"] by (simp add: ngx_abs_def word_sle_eq)

lemma limit_excess_nat:
  assumes "unat (lr_last lr) \<le> unat now" "0 < unat rate" "unat rate * unat now < 2 ^ 62" "unat (lr_excess lr) < 2 ^ 62"
  shows "unat (limit_excess rate lr now) = unat (lr_excess lr) + 1000 - unat rate * (unat now - unat (lr_last lr)) div 1000"
proof -
  define d where "d = unat now - unat (lr_last lr)"
  define e where "e = unat (lr_excess lr)"
  have e62: "e < 2 ^ 62" using assms(4) by (simp add: e_def)
  define q where "q = unat rate * d div 1000"
  have le: "unat rate * d \<le> unat rate * unat now" by (simp add: d_def)
  have lt: "unat rate * d < 2 ^ 62" using le assms(3) by (rule le_less_trans)
  have "d \<le> unat rate * d" using assms(2) by (cases "unat rate") auto
  then have d62: "d < 2 ^ 62" using lt by (rule le_less_trans)
  have "now - lr_last lr = of_nat (unat (now - lr_last lr))" by simp
  also have "unat (now - lr_last lr) = d" using assms(1) by (simp add: unat_sub word_le_nat_alt d_def)
  finally have "ngx_abs (now - lr_last lr) = of_nat d" using ngx_abs_small d62 by simp
  moreover have "rate * of_nat d = of_nat (unat rate * d)" by simp
  moreover have "of_nat (unat rate * d) div 1000 = (of_nat q :: uint64_t)"
    using lt unfolding q_def word_unat_eq_iff by (simp add: unat_div unat_of_nat del: of_nat_mult)
  ultimately have "lr_excess lr - rate * ngx_abs (now - lr_last lr) div 1000 + 1000 = word_of_int (int e - int q + 1000)"
    by (simp add: e_def)
  moreover have q62: "q < 2 ^ 62" using lt by (simp add: q_def)
  moreover have "sint (word_of_int (int e - int q + 1000) :: uint64_t) = int e - int q + 1000"
    using e62 q62 by (intro sint_of_int_64) simp_all
  moreover have "unat (word_of_int (int e - int q + 1000) :: uint64_t) = e + 1000 - q" if "0 \<le> int e - int q + 1000"
  proof -
    have "int e - int q + 1000 = int (e + 1000 - q)" using that by simp
    moreover have "unat (of_nat (e + 1000 - q) :: uint64_t) = e + 1000 - q" using e62 by (simp add: unat_of_nat)
    ultimately show ?thesis by (metis of_int_of_nat_eq)
  qed
  ultimately show ?thesis unfolding d_def [symmetric] e_def [symmetric] q_def [symmetric]
    by (auto simp: limit_excess_def Let_def word_sless_alt)
qed

text \<open>
  \<open>limit_entry z k a\<close>: the node \<open>a\<close> belongs to the key \<open>k\<close>.  The keys are taken from a set in which the hash tells them apart; their
  lengths fit the byte to which the code cuts them.
\<close>

definition limit_entry :: "limit_zone \<Rightarrow> bytes \<Rightarrow> rb_ptr \<Rightarrow> bool" where
  "limit_entry z k a \<longleftrightarrow> a \<in> set (lz_used z) \<and> lr_bytes (lz_nodes z a) = k"

definition limit_keys :: "bytes set \<Rightarrow> bool" where
  "limit_keys K \<longleftrightarrow> inj_on ngx_crc32_short K \<and> (\<forall>k\<in>K. 0 < length k \<and> length k < 256)"

definition limit_zone_ok :: "bytes set \<Rightarrow> limit_zone \<Rightarrow> bool" where
  "limit_zone_ok K z \<longleftrightarrow> limit_wf z \<and>
     (\<forall>a\<in>set (lz_used z). lr_bytes (lz_nodes z a) \<in> K \<and> rb_key (lz_mem z a) = ucast (ngx_crc32_short (lr_bytes (lz_nodes z a))))"

lemma ucast_crc_inj: "(ucast (x :: uint32_t) :: uint64_t) = ucast y \<longleftrightarrow> x = y"
proof -
  have "take_bit 64 (uint z) = uint z" for z :: uint32_t
  proof -
    have "uint z < 2 ^ 32" using uint_bounded [of z] by simp
    then show ?thesis by (intro take_bit_int_eq_self) simp_all
  qed
  then show ?thesis by (simp add: word_uint_eq_iff unsigned_ucast_eq)
qed

lemma limit_find_entry:
  assumes "limit_zone_ok K z" "limit_keys K" "k \<in> K"
  obtains (found) a where "limit_entry z k a" "\<And>b. limit_entry z k b \<Longrightarrow> b = a"
      "limit_find (lz_nodes z) (lz_mem z) (lz_sentinel z) (lz_root z) (ucast (ngx_crc32_short k)) k = Some (Some a)"
    | (new) "\<And>a. \<not> limit_entry z k a" "\<And>a. a \<in> set (lz_used z) \<Longrightarrow> rb_key (lz_mem z a) \<noteq> ucast (ngx_crc32_short k)"
      "limit_find (lz_nodes z) (lz_mem z) (lz_sentinel z) (lz_root z) (ucast (ngx_crc32_short k)) k = Some None"
proof -
  obtain t where w: "rb_wf (lz_mem z) (lz_root z) (lz_sentinel z) t" "hash_sorted (lz_mem z) (rb_addrs t)" "set (rb_addrs t) = set (lz_used z)"
    using assms(1) by (auto simp: limit_zone_ok_def limit_wf_def)
  have h: "rb_rep (lz_mem z) (lz_sentinel z) t" "lz_root z = rb_root (lz_sentinel z) t" "lz_sentinel z \<notin> set (rb_addrs t)"
    using w(1) by (simp_all add: rb_wf_def rb_holds_def)
  have key: "rb_key (lz_mem z a) = ucast (ngx_crc32_short k) \<longleftrightarrow> limit_entry z k a" if "a \<in> set (lz_used z)" for a
    using assms that unfolding limit_zone_ok_def limit_keys_def limit_entry_def by (auto simp: ucast_crc_inj dest: inj_onD)
  have same: "a = b" if "a \<in> set (lz_used z)" "b \<in> set (lz_used z)" "rb_key (lz_mem z a) = rb_key (lz_mem z b)" for a b
  proof -
    have "distinct (map (\<lambda>a. rb_key (lz_mem z a)) (rb_addrs t))" using w(2) strict_sorted_iff [of "map (\<lambda>a. rb_key (lz_mem z a)) (rb_addrs t)"] by (simp add: hash_sorted_def sorted_wrt_map)
    then show ?thesis using that w(3) by (auto simp: distinct_map dest: inj_onD)
  qed
  obtain r where r: "limit_find (lz_nodes z) (lz_mem z) (lz_sentinel z) (lz_root z) (ucast (ngx_crc32_short k)) k = Some r"
      "case r of None \<Rightarrow> \<forall>a\<in>set (rb_addrs t). \<not> limit_match (lz_nodes z) (lz_mem z) (ucast (ngx_crc32_short k)) k a
       | Some a \<Rightarrow> a \<in> set (rb_addrs t) \<and> limit_match (lz_nodes z) (lz_mem z) (ucast (ngx_crc32_short k)) k a"
    using limit_find_ok [OF h(1,3) w(2)] unfolding h(2) by blast
  show thesis
  proof (cases r)
    case None
    then have "\<not> limit_entry z k a" for a using r(2) w(3) key [of a] by (auto simp: limit_match_def limit_entry_def)
    then show thesis using new key r(1) None by metis
  next
    case (Some a)
    then have a: "limit_entry z k a" using r(2) w(3) by (auto simp: limit_match_def limit_entry_def)
    moreover have "b = a" if "limit_entry z k b" for b
      using that a key [of a] key [of b] same [of b a] by (auto simp: limit_entry_def)
    ultimately show thesis using found r(1) Some by blast
  qed
qed

lemma hash_sortedI:
  assumes "rb_sorted (limit_less nodes m) xs" "distinct xs" "inj_on (\<lambda>a. rb_key (m a)) (set xs)"
  shows "hash_sorted m xs"
  using assms
proof (induction xs)
  case (Cons x xs)
  have "rb_key (m x) < rb_key (m y)" if "y \<in> set xs" for y
  proof -
    have "\<not> limit_less nodes m y x" using Cons.prems(1) that by (simp add: rb_sorted_def)
    moreover have "rb_key (m x) \<noteq> rb_key (m y)" using Cons.prems(2,3) that by auto
    ultimately show ?thesis by (auto simp: limit_less_key)
  qed
  then show ?case using Cons by (simp add: hash_sorted_def rb_sorted_def)
qed (simp add: hash_sorted_def)

lemma hash_sorted_inj: "hash_sorted m xs \<Longrightarrow> inj_on (\<lambda>a. rb_key (m a)) (set xs)"
  using strict_sorted_iff [of "map (\<lambda>a. rb_key (m a)) xs"] by (simp add: hash_sorted_def sorted_wrt_map distinct_map)

definition limit_fresh :: "limit_zone \<Rightarrow> rb_ptr \<Rightarrow> bool" where
  "limit_fresh z a \<longleftrightarrow> a \<notin> set (lz_used z) \<and> a \<noteq> lz_sentinel z \<and> a \<noteq> lz_queue z"

lemma limit_new_wf:
  assumes "limit_wf z" "limit_fresh z x" "\<And>a. a \<in> set (lz_used z) \<Longrightarrow> rb_key (lz_mem z a) \<noteq> hash"
  shows "\<exists>m root. ngx_rbtree_insert (ngx_http_limit_req_rbtree_insert_value (lz_nodes z)) ((lz_mem z)(x := (lz_mem z x)\<lparr>rb_key := hash\<rparr>))
      (lz_root z) (lz_sentinel z) x = Some (m, root) \<and> rb_key (m x) = hash \<and> (\<forall>a. a \<noteq> x \<longrightarrow> rb_key (m a) = rb_key (lz_mem z a)) \<and>
    limit_wf (z\<lparr>lz_mem := m, lz_root := root, lz_links := ngx_queue_insert_head (lz_links z) (lz_queue z) x, lz_used := x # lz_used z,
      lz_nodes := nodes, lz_node := p\<rparr>)"
proof -
  obtain t qs where w: "rb_wf (lz_mem z) (lz_root z) (lz_sentinel z) t" "hash_sorted (lz_mem z) (rb_addrs t)"
      "q_ring (lz_links z) (lz_queue z) qs" "set qs = set (lz_used z)" "set (rb_addrs t) = set (lz_used z)" "distinct (lz_used z)"
    using assms(1) by (auto simp: limit_wf_def)
  have x: "x \<notin> set (rb_addrs t)" "x \<noteq> lz_sentinel z" "x \<notin> set (lz_queue z # qs)" using assms(2) w(4,5) by (auto simp: limit_fresh_def)
  define m0 where "m0 = (lz_mem z)(x := (lz_mem z x)\<lparr>rb_key := hash\<rparr>)"
  have m0: "m0 a = lz_mem z a" if "a \<in> insert (lz_sentinel z) (set (rb_addrs t))" for a using that x by (auto simp: m0_def)
  have w0: "rb_wf m0 (lz_root z) (lz_sentinel z) t" using w(1) rb_holds_frame [of "lz_mem z" "lz_sentinel z" "lz_root z" t m0] m0 by (simp add: rb_wf_def)
  have "hash_sorted m0 (rb_addrs t)" using w(2) unfolding hash_sorted_def by (rule sorted_wrt_mono_rel [rotated]) (use m0 in auto)
  then obtain m root t' where i: "ngx_rbtree_insert (ngx_http_limit_req_rbtree_insert_value (lz_nodes z)) m0 (lz_root z) (lz_sentinel z) x = Some (m, root)"
      "rb_wf m root (lz_sentinel z) t'" "rb_addrs t' = rb_insort (limit_less (lz_nodes z) m0) x (rb_addrs t)"
      "rb_sorted (limit_less (lz_nodes z) m) (rb_addrs t')" "rb_kept m0 (lz_sentinel z) m"
    using limit_insertion.insert_ok [OF w0 _ _ x(1,2)] hash_sorted_less by blast
  have k: "rb_key (m x) = hash" "\<And>a. a \<noteq> x \<Longrightarrow> rb_key (m a) = rb_key (lz_mem z a)" using i(5) by (simp_all add: rb_kept_def m0_def)
  have s: "set (rb_addrs t') = insert x (set (lz_used z))" using w(5) unfolding i(3) by (simp add: set_insort)
  have "inj_on (\<lambda>a. rb_key (m a)) (set (rb_addrs t'))" unfolding s
  proof (rule inj_onI)
    fix a b assume ab: "a \<in> insert x (set (lz_used z))" "b \<in> insert x (set (lz_used z))" "rb_key (m a) = rb_key (m b)"
    have "inj_on (\<lambda>a. rb_key (lz_mem z a)) (set (lz_used z))" using hash_sorted_inj [OF w(2)] w(5) by simp
    then show "a = b" using ab k assms(3) by (metis insertE inj_onD)
  qed
  moreover have "distinct (rb_addrs t')" using i(2) by (simp add: rb_wf_def rb_holds_def)
  ultimately have "hash_sorted m (rb_addrs t')" using i(4) hash_sortedI by blast
  moreover have "q_ring (ngx_queue_insert_head (lz_links z) (lz_queue z) x) (lz_queue z) (x # qs)" using queue_insert_head [OF w(3) x(3)] .
  ultimately have "limit_wf (z\<lparr>lz_mem := m, lz_root := root, lz_links := ngx_queue_insert_head (lz_links z) (lz_queue z) x, lz_used := x # lz_used z,
      lz_nodes := nodes, lz_node := p\<rparr>)"
    unfolding limit_wf_def by (intro exI [of _ t'] exI [of _ "x # qs"]) (use i(2) s w(4,6) assms(2) in \<open>simp add: limit_fresh_def\<close>)
  then show ?thesis using i(1) k unfolding m0_def by blast
qed

text \<open>A node that is found goes to the head of the queue.\<close>

lemma limit_bump_wf:
  assumes "limit_wf z" "a \<in> set (lz_used z)"
  shows "limit_wf (z\<lparr>lz_links := ngx_queue_insert_head (ngx_queue_remove (lz_links z) a) (lz_queue z) a, lz_nodes := nodes, lz_node := p\<rparr>)"
proof -
  obtain t qs where w: "rb_wf (lz_mem z) (lz_root z) (lz_sentinel z) t" "hash_sorted (lz_mem z) (rb_addrs t)"
      "q_ring (lz_links z) (lz_queue z) qs" "set qs = set (lz_used z)" "set (rb_addrs t) = set (lz_used z)" "distinct (lz_used z)"
    using assms(1) by (auto simp: limit_wf_def)
  obtain us vs where qs: "qs = us @ a # vs" using assms(2) w(4) split_list by metis
  have "a \<notin> set (lz_queue z # us @ vs)" using w(3) unfolding qs by (auto simp: q_ring_def)
  then have "q_ring (ngx_queue_insert_head (ngx_queue_remove (lz_links z) a) (lz_queue z) a) (lz_queue z) (a # us @ vs)"
    using queue_insert_head queue_remove w(3) unfolding qs by blast
  then show ?thesis unfolding limit_wf_def by (intro exI [of _ t] exI [of _ "a # us @ vs"]) (use w qs in auto)
qed

text \<open>What a slab pool promises: an address it hands out is not in use, and is not that of the tree or the queue.\<close>

definition limit_pool :: "limit_alloc \<Rightarrow> limit_zone \<Rightarrow> bool" where
  "limit_pool alloc z \<longleftrightarrow> (\<forall>size used p. alloc size used = Some p \<longrightarrow> p \<notin> set used \<and> p \<noteq> lz_sentinel z \<and> p \<noteq> lz_queue z)"

lemma limit_pool_fresh: "limit_pool alloc z \<Longrightarrow> limit_trim z z' \<Longrightarrow> alloc n (lz_used z') = Some p \<Longrightarrow> limit_fresh z' p"
  by (auto simp: limit_pool_def limit_trim_def limit_fresh_def)

lemma limit_trim_ok: "limit_zone_ok K z \<Longrightarrow> limit_trim z z' \<Longrightarrow> limit_wf z' \<Longrightarrow> limit_zone_ok K z'"
  by (auto simp: limit_zone_ok_def limit_trim_def)

lemma limit_lookup_cases:
  assumes "limit_zone_ok K z" "limit_keys K" "k \<in> K" "limit_pool alloc z"
  obtains (found) a where "limit_entry z k a" "\<And>b. limit_entry z k b \<Longrightarrow> b = a"
      "ngx_http_limit_req_lookup alloc limit (ucast (ngx_crc32_short k)) k account now z = Some (limit_found limit a account now z)"
    | (new) z1 p where "\<And>a. \<not> limit_entry z k a" "limit_zone_ok K z1" "limit_trim z z1" "limit_fresh z1 p"
      "\<And>a. a \<in> set (lz_used z1) \<Longrightarrow> rb_key (lz_mem z1 a) \<noteq> ucast (ngx_crc32_short k)"
      "alloc (80 + length k) (lz_used z1) = Some p"
      "(\<And>size used. alloc size used \<noteq> None) \<Longrightarrow> \<forall>a\<in>set (lz_used z) - set (lz_used z1). \<not> ngx_abs (now - lr_last (lz_nodes z a)) <s 60000"
      "ngx_http_limit_req_lookup alloc limit (ucast (ngx_crc32_short k)) k account now z = limit_new p (ucast (ngx_crc32_short k)) k account now z1"
    | (full) z1 where "\<And>a. \<not> limit_entry z k a" "limit_zone_ok K z1" "limit_trim z z1" "\<exists>size used. alloc size used = None"
      "ngx_http_limit_req_lookup alloc limit (ucast (ngx_crc32_short k)) k account now z = Some (NGX_ERROR, 0, z1)"
  using limit_find_entry [OF assms(1-3)]
proof cases
  case (1 a)
  have "ngx_http_limit_req_lookup alloc limit (ucast (ngx_crc32_short k)) k account now z = Some (limit_found limit a account now z)"
    using 1(3) by (simp add: ngx_http_limit_req_lookup_def)
  with 1(1,2) show thesis by (rule found)
next
  case 2
  let ?h = "ucast (ngx_crc32_short k) :: uint64_t"
  have wf: "limit_wf z" using assms(1) by (simp add: limit_zone_ok_def)
  obtain z1 where e1: "ngx_http_limit_req_expire now 1 z = Some z1" "limit_wf z1" "limit_trim z z1"
      "\<forall>a\<in>set (lz_used z) - set (lz_used z1). \<not> ngx_abs (now - lr_last (lz_nodes z a)) <s 60000"
    using limit_expire_ok [OF wf, of now 1] by auto
  obtain z2 where e2: "ngx_http_limit_req_expire now 0 z1 = Some z2" "limit_wf z2" "limit_trim z1 z2"
    using limit_expire_ok [OF e1(2), of now 0] by auto
  have t2: "limit_trim z z2" using e1(3) e2(3) limit_trim_trans by blast
  have nk: "rb_key (lz_mem z' a) \<noteq> ?h" if "limit_trim z z'" "a \<in> set (lz_used z')" for z' a
    using 2(2) that by (auto simp: limit_trim_def)
  show thesis
  proof (cases "alloc (80 + length k) (lz_used z1)")
    case (Some p)
    then show thesis using limit_trim_ok [OF assms(1) e1(3,2)] limit_pool_fresh [OF assms(4) e1(3) Some] e1 2 nk [OF e1(3)]
      by (intro new [of z1 p]) (auto simp: ngx_http_limit_req_lookup_def)
  next
    case n1: None
    show thesis
    proof (cases "alloc (80 + length k) (lz_used z2)")
      case (Some p)
      then show thesis using limit_trim_ok [OF assms(1) t2 e2(2)] limit_pool_fresh [OF assms(4) t2 Some] e1 e2 n1 2 nk [OF t2] t2
        by (intro new [of z2 p]) (auto simp: ngx_http_limit_req_lookup_def)
    next
      case None
      then show thesis using limit_trim_ok [OF assms(1) t2 e2(2)] e1 e2 n1 2 t2
        by (intro full [of z2]) (auto simp: ngx_http_limit_req_lookup_def)
    qed
  qed
qed

lemma lr_bytes_new:
  assumes "length data < 256" "lr_len lr = ucast (of_nat (length data) :: u_char)" "\<And>i. i < length data \<Longrightarrow> lr_data lr i = data ! i"
  shows "lr_bytes lr = data"
proof -
  have "unat (lr_len lr) = length data"
    using assms(1,2) by (simp add: unat_of_nat unsigned_ucast_eq take_bit_nat_eq_self)
  then show ?thesis using assms(3) by (auto simp: lr_bytes_def intro: nth_equalityI)
qed

lemma lr_bytes_update [simp]:
  "lr_bytes (lr\<lparr>lr_excess := e\<rparr>) = lr_bytes lr" "lr_bytes (lr\<lparr>lr_last := l\<rparr>) = lr_bytes lr" "lr_bytes (lr\<lparr>lr_count := c\<rparr>) = lr_bytes lr"
  by (simp_all add: lr_bytes_def)

lemma limit_new_ok:
  assumes "limit_zone_ok K z" "limit_keys K" "k \<in> K" "limit_fresh z x" "\<And>a. a \<in> set (lz_used z) \<Longrightarrow> rb_key (lz_mem z a) \<noteq> ucast (ngx_crc32_short k)"
  obtains z' lr where "limit_new x (ucast (ngx_crc32_short k)) k account now z = Some (if account then NGX_OK else NGX_AGAIN, 0, z')"
    "limit_zone_ok K z'" "lz_used z' = x # lz_used z" "lz_nodes z' = (lz_nodes z)(x := lr)" "lr_bytes lr = k" "lr_excess lr = 0"
    "lr_last lr = (if account then now else 0)" "lr_count lr = (if account then 0 else 1)" "lz_node z' = (if account then lz_node z else Some x)"
    "lz_rate z' = lz_rate z" "lz_sentinel z' = lz_sentinel z" "lz_queue z' = lz_queue z"
proof -
  have k: "length k < 256" using assms(2,3) by (simp add: limit_keys_def)
  define lr where "lr = (lz_nodes z x)\<lparr>lr_len := ucast (of_nat (length k) :: u_char), lr_excess := 0,
    lr_data := (\<lambda>i. if i < length k then k ! i else lr_data (lz_nodes z x) i), lr_last := (if account then now else 0), lr_count := (if account then 0 else 1)\<rparr>"
  have b: "lr_bytes lr = k" using lr_bytes_new [OF k, of lr] by (simp add: lr_def)
  obtain m root where i: "ngx_rbtree_insert (ngx_http_limit_req_rbtree_insert_value (lz_nodes z)) ((lz_mem z)(x := (lz_mem z x)\<lparr>rb_key := ucast (ngx_crc32_short k)\<rparr>))
      (lz_root z) (lz_sentinel z) x = Some (m, root)" "rb_key (m x) = ucast (ngx_crc32_short k)" "\<And>a. a \<noteq> x \<Longrightarrow> rb_key (m a) = rb_key (lz_mem z a)"
      "limit_wf (z\<lparr>lz_mem := m, lz_root := root, lz_links := ngx_queue_insert_head (lz_links z) (lz_queue z) x, lz_used := x # lz_used z,
        lz_nodes := (lz_nodes z)(x := lr), lz_node := if account then lz_node z else Some x\<rparr>)" (is "limit_wf ?z")
    using limit_new_wf [of z x "ucast (ngx_crc32_short k)" "if account then lz_node z else Some x" "(lz_nodes z)(x := lr)"] assms(1,4,5)
    unfolding limit_zone_ok_def by blast
  have e: "limit_new x (ucast (ngx_crc32_short k)) k account now z = Some (if account then NGX_OK else NGX_AGAIN, 0, ?z)"
    using i(1) by (simp add: limit_new_def lr_def Let_def)
  have "limit_zone_ok K ?z" using i(2-4) assms(1,3,4) b by (auto simp: limit_zone_ok_def limit_fresh_def)
  then show thesis by (rule that [OF e, where lr = lr]) (use b in \<open>simp_all add: lr_def\<close>)
qed

subsection \<open>A sequence of requests\<close>

text \<open>Requests to a location with one limit: the time and the key of each.  The result has those that are not refused, and the zone.\<close>

fun limit_serve :: "limit_alloc \<Rightarrow> limit \<Rightarrow> (uint64_t \<times> bytes) list \<Rightarrow> limit_zone \<Rightarrow> ((uint64_t \<times> bytes) list \<times> limit_zone) option" where
  "limit_serve alloc limit [] z = Some ([], z)"
| "limit_serve alloc limit ((now, k) # reqs) z =
     (case ngx_http_limit_req_handler [alloc] [limit] [Some k] now True False [z] of
        None \<Rightarrow> None
      | Some (rc, _, _, zs) \<Rightarrow>
          map_option (\<lambda>(acc, z). (if rc \<noteq> NGX_HTTP_SERVICE_UNAVAILABLE then (now, k) # acc else acc, z))
            (limit_serve alloc limit reqs (zs ! 0)))"

lemma limit_handler_one:
  assumes "ngx_http_limit_req_lookup alloc limit (ucast (ngx_crc32_short k)) k True now z = Some (rc, e, z')"
    "0 < length k" "length k < 65536" "rc \<in> {NGX_OK, NGX_BUSY, NGX_ERROR}" "lz_rate z' \<noteq> 0"
  obtains rc' d where "ngx_http_limit_req_handler [alloc] [limit] [Some k] now True False [z] = Some (rc', True, d, [z'])"
    "rc' = NGX_HTTP_SERVICE_UNAVAILABLE \<longleftrightarrow> rc \<noteq> NGX_OK"
proof -
  have "limit_check [alloc] [limit] [Some k] now 0 NGX_DECLINED 0 [z] = Some (rc, 0, e, [z'])"
    using assms by (subst limit_check.simps) auto
  moreover define delay where "delay = (if e = 0 \<or> lim_nodelay limit then 0 else e * 1000 div lz_rate z')"
  ultimately have "ngx_http_limit_req_handler [alloc] [limit] [Some k] now True False [z] =
      Some (if rc = NGX_OK then if delay = 0 then NGX_DECLINED else NGX_AGAIN else NGX_HTTP_SERVICE_UNAVAILABLE, True,
        if rc = NGX_OK \<and> delay \<noteq> 0 then Some delay else None, [z'])"
    using assms(4,5) by (auto simp: ngx_http_limit_req_handler_def ngx_http_limit_req_account_def limit_delay_def Let_def)
  then show thesis by (rule that) simp
qed

lemma limit_serve_subset: "limit_serve alloc limit reqs z = Some (acc, z') \<Longrightarrow> set acc \<subseteq> set reqs"
  by (induction alloc limit reqs z arbitrary: acc z' rule: limit_serve.induct)
     (fastforce split: option.splits if_splits)+

text \<open>
  What holds of a zone after the requests up to the time \<open>now\<close>, \<open>c\<close> of which had the key \<open>k\<close>, came at \<open>w\<close> or later and were accepted: the
  excess accounts for them.
\<close>

definition limit_sound :: "bytes set \<Rightarrow> limit \<Rightarrow> uint64_t \<Rightarrow> nat \<Rightarrow> limit_zone \<Rightarrow> bool" where
  "limit_sound K limit rate now z \<longleftrightarrow> limit_zone_ok K z \<and> lz_rate z = rate \<and> lz_node z = None \<and>
     (\<forall>a\<in>set (lz_used z). lr_excess (lz_nodes z a) \<le> lim_burst limit \<and> unat (lr_last (lz_nodes z a)) \<le> now)"

definition limit_charged :: "uint64_t \<Rightarrow> bytes \<Rightarrow> nat \<Rightarrow> nat \<Rightarrow> limit_zone \<Rightarrow> bool" where
  "limit_charged rate k w c z \<longleftrightarrow> (\<exists>a. limit_entry z k a \<and> w \<le> unat (lr_last (lz_nodes z a)) \<and>
     1000000 * c \<le> 1000000 + 1000 * unat (lr_excess (lz_nodes z a)) + unat rate * (unat (lr_last (lz_nodes z a)) - w))"

text \<open>The charge is kept when a request is accepted.\<close>

lemma limit_charge_step:
  fixes c e r d l n w :: nat
  assumes "1000000 * c \<le> 1000000 + 1000 * e + r * (l - w)" "w \<le> l" "l \<le> n" "e + 1000 - r * (n - l) div 1000 \<le> e'"
  shows "1000000 * Suc c \<le> 1000000 + 1000 * e' + r * (n - w)"
proof -
  have "n - w = (n - l) + (l - w)" using assms(2,3) by simp
  then have "r * (n - w) = r * (n - l) + r * (l - w)" by (simp add: distrib_left)
  moreover have "1000 * (r * (n - l) div 1000) \<le> r * (n - l)" by simp
  ultimately show ?thesis using assms(1,4) by simp
qed

lemma recent_stays:
  assumes "unat l \<le> unat now" "unat now < unat l + 60000"
  shows "ngx_abs (now - l) <s 60000"
proof -
  have u: "unat (now - l) = unat now - unat l" using assms(1) by (simp add: unat_sub word_le_nat_alt)
  have "now - l = of_nat (unat (now - l))" by simp
  then have "now - l = of_nat (unat now - unat l)" unfolding u .
  moreover have "unat now - unat l < 60000" using assms by simp
  moreover have "sint (of_nat (unat now - unat l) :: uint64_t) = int (unat now - unat l)"
    by (rule sint_of_nat_64) (use assms in simp)
  ultimately show ?thesis using ngx_abs_small [of "unat now - unat l"] by (simp add: word_sless_alt)
qed

text \<open>What a request with the key \<open>k\<close> does to the nodes; \<open>ok\<close> tells whether it is accepted.\<close>

definition limit_effect :: "limit \<Rightarrow> bytes \<Rightarrow> uint64_t \<Rightarrow> bool \<Rightarrow> limit_zone \<Rightarrow> limit_zone \<Rightarrow> bool" where
  "limit_effect limit k now ok z z' \<longleftrightarrow>
     (\<forall>q a. q \<noteq> k \<longrightarrow> limit_entry z' q a \<longrightarrow> limit_entry z q a \<and> lz_nodes z' a = lz_nodes z a) \<and>
     (ok \<longrightarrow> (\<forall>a. limit_entry z' k a \<longrightarrow> lr_last (lz_nodes z' a) = now \<and>
        (lr_excess (lz_nodes z' a) = 0 \<or> (\<exists>b. limit_entry z k b \<and> lr_excess (lz_nodes z' a) = limit_excess (lz_rate z) (lz_nodes z b) now)))) \<and>
     (\<not> ok \<longrightarrow> (\<exists>b. limit_entry z k b \<and> lim_burst limit < limit_excess (lz_rate z) (lz_nodes z b) now))"

text \<open>One request with the key \<open>k\<close>; \<open>c\<close> are the charged requests with the key \<open>q\<close>.\<close>

lemma limit_found_step:
  assumes so: "limit_sound K limit rate t z" and ti: "t \<le> unat now" "0 < unat rate" "unat rate * unat now < 2 ^ 62" "unat (lim_burst limit) < 2 ^ 62"
    and a: "limit_entry z k a" "\<And>b. limit_entry z k b \<Longrightarrow> b = a"
    and c: "0 < c \<Longrightarrow> limit_charged rate q w c z" "c' = (if q = k \<and> w \<le> unat now \<and> limit_excess rate (lz_nodes z a) now \<le> lim_burst limit then Suc c else c)"
  obtains rc e z' where "limit_found limit a True now z = (rc, e, z')" "rc = (if limit_excess rate (lz_nodes z a) now \<le> lim_burst limit then NGX_OK else NGX_BUSY)"
    "limit_sound K limit rate (unat now) z'" "lz_sentinel z' = lz_sentinel z" "lz_queue z' = lz_queue z" "0 < c' \<Longrightarrow> limit_charged rate q w c' z'"
    "limit_effect limit k now (limit_excess rate (lz_nodes z a) now \<le> lim_burst limit) z z'"
proof -
  let ?lr = "lz_nodes z a"
  let ?e = "limit_excess rate ?lr now"
  let ?links = "ngx_queue_insert_head (ngx_queue_remove (lz_links z) a) (lz_queue z) a"
  have s: "limit_wf z" "lz_rate z = rate" "lz_node z = None" "unat (lr_last ?lr) \<le> t" "lr_excess ?lr \<le> lim_burst limit" "a \<in> set (lz_used z)" "lr_bytes ?lr = k"
    using so a(1) by (auto simp: limit_sound_def limit_zone_ok_def limit_entry_def)
  have e: "unat ?e = unat (lr_excess ?lr) + 1000 - unat rate * (unat now - unat (lr_last ?lr)) div 1000"
    by (rule limit_excess_nat) (use s ti in \<open>auto simp: word_le_nat_alt\<close>)
  show thesis
  proof (cases "?e \<le> lim_burst limit")
    case False
    define z' where "z' = z\<lparr>lz_links := ?links\<rparr>"
    have "limit_wf z'" using limit_bump_wf [OF s(1,6), of "lz_node z" "lz_nodes z"] by (simp add: z'_def)
    then have so': "limit_sound K limit rate (unat now) z'" using so ti(1) by (auto simp: limit_sound_def limit_zone_ok_def z'_def)
    have ch: "limit_charged rate q w c z' = limit_charged rate q w c z" by (simp add: limit_charged_def limit_entry_def z'_def)
    have f: "limit_found limit a True now z = (NGX_BUSY, ?e, z')" using False s(2) by (simp add: limit_found_def z'_def Let_def not_le)
    have ef: "limit_effect limit k now (?e \<le> lim_burst limit) z z'" using False a(1) s(2) by (auto simp: limit_effect_def limit_entry_def z'_def not_le)
    show thesis by (rule that [OF f _ so' _ _ _ ef]) (use False c ch in \<open>simp_all add: z'_def\<close>)
  next
    case True
    define z' where "z' = z\<lparr>lz_links := ?links, lz_nodes := (lz_nodes z)(a := ?lr\<lparr>lr_excess := ?e, lr_last := now\<rparr>)\<rparr>"
    have "limit_wf z'" unfolding z'_def using limit_bump_wf [OF s(1,6), of "lz_node z"] by simp
    then have so': "limit_sound K limit rate (unat now) z'" using so ti(1) True by (auto simp: limit_sound_def limit_zone_ok_def z'_def)
    have n: "limit_entry z' k b = limit_entry z k b" for k b by (auto simp: limit_entry_def z'_def)
    have ch: "limit_charged rate q w c' z'" if "0 < c'"
    proof (cases "q = k")
      case True
      have "1000000 * c' \<le> 1000000 + 1000 * unat ?e + unat rate * (unat now - w)" "w \<le> unat now"
      proof -
        have *: "1000000 * Suc c \<le> 1000000 + 1000 * unat ?e + unat rate * (unat now - w) \<and> w \<le> unat now" if "0 < c"
        proof -
          have "1000000 * c \<le> 1000000 + 1000 * unat (lr_excess ?lr) + unat rate * (unat (lr_last ?lr) - w)" "w \<le> unat (lr_last ?lr)"
            using c(1) [OF that] a(2) unfolding True limit_charged_def by auto
          then show ?thesis using limit_charge_step [of c "unat (lr_excess ?lr)" "unat rate" "unat (lr_last ?lr)" w "unat now" "unat ?e"] s(4) ti(1) e by simp
        qed
        show "1000000 * c' \<le> 1000000 + 1000 * unat ?e + unat rate * (unat now - w)" "w \<le> unat now"
          using * \<open>0 < c'\<close> c(2) by (cases "c = 0"; auto split: if_splits)+
      qed
      then show ?thesis unfolding limit_charged_def n by (intro exI [of _ a]) (simp add: True a(1), simp add: z'_def)
    next
      case False
      then have "0 < c" "c' = c" using that c(2) by auto
      then obtain b where b: "limit_entry z q b" "w \<le> unat (lr_last (lz_nodes z b))"
          "1000000 * c' \<le> 1000000 + 1000 * unat (lr_excess (lz_nodes z b)) + unat rate * (unat (lr_last (lz_nodes z b)) - w)"
        using c(1) by (auto simp: limit_charged_def)
      then have "b \<noteq> a" using False s(7) by (auto simp: limit_entry_def)
      then show ?thesis unfolding limit_charged_def n using b by (intro exI [of _ b]) (simp add: z'_def)
    qed
    have f: "limit_found limit a True now z = (NGX_OK, ?e, z')" using True s(2) by (simp add: limit_found_def z'_def Let_def not_less)
    have ef: "limit_effect limit k now (?e \<le> lim_burst limit) z z'"
    proof -
      have za: "lr_last (lz_nodes z' a) = now" "lr_excess (lz_nodes z' a) = ?e" "\<And>b. b \<noteq> a \<Longrightarrow> lz_nodes z' b = lz_nodes z b" by (simp_all add: z'_def)
      have "q \<noteq> k \<Longrightarrow> limit_entry z q b \<Longrightarrow> b \<noteq> a" for q b using s(7) by (auto simp: limit_entry_def)
      then show ?thesis unfolding limit_effect_def n using True a(1) a(2) za s(2) by metis
    qed
    show thesis by (rule that [OF f _ so' _ _ ch ef]) (use True in \<open>simp_all add: z'_def\<close>)
  qed
qed

lemma limit_new_step:
  assumes so: "limit_sound K limit rate t z" and K: "limit_keys K" "k \<in> K" and ti: "t \<le> unat now"
    and new: "\<And>a. \<not> limit_entry z k a" "limit_zone_ok K z1" "limit_trim z z1" "limit_fresh z1 p"
      "\<And>a. a \<in> set (lz_used z1) \<Longrightarrow> rb_key (lz_mem z1 a) \<noteq> ucast (ngx_crc32_short k)"
      "\<forall>a\<in>set (lz_used z) - set (lz_used z1). \<not> ngx_abs (now - lr_last (lz_nodes z a)) <s 60000"
    and c: "0 < c \<Longrightarrow> limit_charged rate q w c z" "0 < c \<Longrightarrow> unat now < w + 60000" "c' = (if q = k \<and> w \<le> unat now then Suc c else c)"
  obtains z' where "limit_new p (ucast (ngx_crc32_short k)) k True now z1 = Some (NGX_OK, 0, z')"
    "limit_sound K limit rate (unat now) z'" "lz_sentinel z' = lz_sentinel z" "lz_queue z' = lz_queue z" "0 < c' \<Longrightarrow> limit_charged rate q w c' z'" "limit_effect limit k now True z z'"
proof -
  obtain z' lr where z': "limit_new p (ucast (ngx_crc32_short k)) k True now z1 = Some (NGX_OK, 0, z')"
    "limit_zone_ok K z'" "lz_used z' = p # lz_used z1" "lz_nodes z' = (lz_nodes z1)(p := lr)" "lr_bytes lr = k" "lr_excess lr = 0"
    "lr_last lr = now" "lr_count lr = 0" "lz_node z' = lz_node z1" "lz_rate z' = lz_rate z1" "lz_sentinel z' = lz_sentinel z1" "lz_queue z' = lz_queue z1"
    by (rule limit_new_ok [OF new(2) K new(4,5), where account = True and now = now]) simp_all
  have t: "lz_nodes z1 = lz_nodes z" "lz_rate z1 = lz_rate z" "lz_node z1 = lz_node z" "lz_sentinel z1 = lz_sentinel z" "lz_queue z1 = lz_queue z"
      "set (lz_used z1) \<subseteq> set (lz_used z)" "p \<notin> set (lz_used z1)"
    using new(3,4) by (auto simp: limit_trim_def limit_fresh_def)
  have "unat (lr_last (lz_nodes z a)) \<le> unat now" "lr_excess (lz_nodes z a) \<le> lim_burst limit" if "a \<in> set (lz_used z)" for a
    using so that ti by (auto simp: limit_sound_def)
  then have so': "limit_sound K limit rate (unat now) z'" using so z' t by (auto simp: limit_sound_def)
  have ch: "limit_charged rate q w c' z'" if "0 < c'"
  proof (cases "0 < c")
    case True
    then obtain b where b: "limit_entry z q b" "w \<le> unat (lr_last (lz_nodes z b))"
        "1000000 * c \<le> 1000000 + 1000 * unat (lr_excess (lz_nodes z b)) + unat rate * (unat (lr_last (lz_nodes z b)) - w)"
      using c(1) by (auto simp: limit_charged_def)
    have "q \<noteq> k" using b(1) new(1) by auto
    then have c': "c' = c" using c(3) by simp
    have "ngx_abs (now - lr_last (lz_nodes z b)) <s 60000"
      by (rule recent_stays) (use so b ti c(2) True in \<open>auto simp: limit_sound_def limit_entry_def\<close>)
    then have "b \<in> set (lz_used z1)" using new(6) b(1) by (auto simp: limit_entry_def)
    then have "limit_entry z' q b" "lz_nodes z' b = lz_nodes z b" using b(1) z' t by (auto simp: limit_entry_def)
    then show ?thesis unfolding limit_charged_def c' using b by (intro exI [of _ b]) simp
  next
    case False
    then have "c' = 1" "q = k" "w \<le> unat now" using that c(3) by (auto split: if_splits)
    then show ?thesis using z' unfolding limit_charged_def by (intro exI [of _ p]) (simp add: limit_entry_def)
  qed
  have "limit_entry z' r b \<Longrightarrow> r = k \<and> b = p \<or> r \<noteq> k \<and> limit_entry z r b \<and> b \<noteq> p" for r b
    using z'(3-5) t new(1) by (auto simp: limit_entry_def split: if_splits)
  then have ef: "limit_effect limit k now True z z'" using z' t unfolding limit_effect_def by fastforce
  show thesis by (rule that [OF z'(1) so' _ _ ch ef]) (use z' t in simp_all)
qed

lemma limit_step:
  assumes so: "limit_sound K limit rate t z" and K: "limit_keys K" "k \<in> K"
    and pool: "limit_pool alloc z" "\<And>size used. alloc size used \<noteq> None"
    and ti: "t \<le> unat now" "0 < unat rate" "unat rate * unat now < 2 ^ 62" "unat (lim_burst limit) < 2 ^ 62"
    and c: "0 < c \<Longrightarrow> limit_charged rate q w c z" "0 < c \<Longrightarrow> unat now < w + 60000"
  obtains rc d z' where "ngx_http_limit_req_handler [alloc] [limit] [Some k] now True False [z] = Some (rc, True, d, [z'])"
    "limit_sound K limit rate (unat now) z'" "limit_pool alloc z'"
    "let c' = (if q = k \<and> w \<le> unat now \<and> rc \<noteq> NGX_HTTP_SERVICE_UNAVAILABLE then Suc c else c) in 0 < c' \<longrightarrow> limit_charged rate q w c' z'"
    "limit_effect limit k now (rc \<noteq> NGX_HTTP_SERVICE_UNAVAILABLE) z z'"
proof -
  have ok: "limit_zone_ok K z" using so by (simp add: limit_sound_def)
  have k: "0 < length k" "length k < 65536" using K by (auto simp: limit_keys_def)
  define adm where "adm rc = (if q = k \<and> w \<le> unat now \<and> rc = NGX_OK then Suc c else c)" for rc
  have "\<exists>rc e z'. ngx_http_limit_req_lookup alloc limit (ucast (ngx_crc32_short k)) k True now z = Some (rc, e, z') \<and> rc \<in> {NGX_OK, NGX_BUSY, NGX_ERROR} \<and>
      limit_sound K limit rate (unat now) z' \<and> lz_sentinel z' = lz_sentinel z \<and> lz_queue z' = lz_queue z \<and> (0 < adm rc \<longrightarrow> limit_charged rate q w (adm rc) z') \<and>
      limit_effect limit k now (rc = NGX_OK) z z'"
    using limit_lookup_cases [OF ok K pool(1), of limit True now]
  proof cases
    case (1 a)
    obtain rc e z' where "limit_found limit a True now z = (rc, e, z')" "rc = (if limit_excess rate (lz_nodes z a) now \<le> lim_burst limit then NGX_OK else NGX_BUSY)"
        "limit_sound K limit rate (unat now) z'" "lz_sentinel z' = lz_sentinel z" "lz_queue z' = lz_queue z"
        "0 < (if q = k \<and> w \<le> unat now \<and> limit_excess rate (lz_nodes z a) now \<le> lim_burst limit then Suc c else c) \<longrightarrow>
          limit_charged rate q w (if q = k \<and> w \<le> unat now \<and> limit_excess rate (lz_nodes z a) now \<le> lim_burst limit then Suc c else c) z'"
        "limit_effect limit k now (limit_excess rate (lz_nodes z a) now \<le> lim_burst limit) z z'"
      using limit_found_step [OF so ti 1(1,2) c(1) refl] by blast
    then show ?thesis using 1(3) by (auto simp: adm_def)
  next
    case (2 z1 p)
    obtain z' where "limit_new p (ucast (ngx_crc32_short k)) k True now z1 = Some (NGX_OK, 0, z')"
        "limit_sound K limit rate (unat now) z'" "lz_sentinel z' = lz_sentinel z" "lz_queue z' = lz_queue z"
        "0 < (if q = k \<and> w \<le> unat now then Suc c else c) \<longrightarrow> limit_charged rate q w (if q = k \<and> w \<le> unat now then Suc c else c) z'" "limit_effect limit k now True z z'"
      using limit_new_step [OF so K ti(1) 2(1-5) 2(7) [OF pool(2)] c refl] by blast
    then show ?thesis using 2(8) by (auto simp: adm_def)
  next
    case (3 z1)
    then show ?thesis using pool(2) by blast
  qed
  then obtain rc e z' where l: "ngx_http_limit_req_lookup alloc limit (ucast (ngx_crc32_short k)) k True now z = Some (rc, e, z')" "rc \<in> {NGX_OK, NGX_BUSY, NGX_ERROR}"
      "limit_sound K limit rate (unat now) z'" "lz_sentinel z' = lz_sentinel z" "lz_queue z' = lz_queue z" "0 < adm rc \<longrightarrow> limit_charged rate q w (adm rc) z'"
      "limit_effect limit k now (rc = NGX_OK) z z'"
    by (elim exE conjE) (rule that)
  have "lz_rate z' \<noteq> 0" using ti(2) l(3) by (auto simp: limit_sound_def)
  note one = limit_handler_one [OF l(1) k l(2) this]
  obtain rc' d where h: "ngx_http_limit_req_handler [alloc] [limit] [Some k] now True False [z] = Some (rc', True, d, [z'])"
      "rc' = NGX_HTTP_SERVICE_UNAVAILABLE \<longleftrightarrow> rc \<noteq> NGX_OK"
    using one .
  have "adm rc = (if q = k \<and> w \<le> unat now \<and> rc' \<noteq> NGX_HTTP_SERVICE_UNAVAILABLE then Suc c else c)" using h(2) by (simp add: adm_def)
  moreover have "limit_pool alloc z'" using pool(1) l(4,5) by (simp add: limit_pool_def)
  ultimately show thesis using that [OF h(1) l(3)] l(6,7) h(2) by simp
qed

subsection \<open>Pins\<close>

text \<open>A zone without a pinned node, and one whose node in the context is pinned once.\<close>

definition limit_idle :: "limit_zone \<Rightarrow> bool" where
  "limit_idle z \<longleftrightarrow> lz_node z = None \<and> (\<forall>a\<in>set (lz_used z). lr_count (lz_nodes z a) = 0)"

definition limit_pinned :: "limit_zone \<Rightarrow> bool" where
  "limit_pinned z \<longleftrightarrow> (\<exists>p. lz_node z = Some p \<and> lr_count (lz_nodes z p) = 1 \<and> (\<forall>a\<in>set (lz_used z). a \<noteq> p \<longrightarrow> lr_count (lz_nodes z a) = 0))"

lemma limit_lookup_pin:
  assumes "limit_zone_ok K z" "limit_keys K" "k \<in> K" "limit_pool alloc z" "limit_idle z"
  shows "\<exists>rc e z'. ngx_http_limit_req_lookup alloc limit (ucast (ngx_crc32_short k)) k account now z = Some (rc, e, z') \<and>
    limit_zone_ok K z' \<and> rc \<in> {NGX_OK, NGX_BUSY, NGX_ERROR, NGX_AGAIN} \<and> (if rc = NGX_AGAIN then limit_pinned z' else limit_idle z') \<and>
    lz_rate z' = lz_rate z"
  using limit_lookup_cases [OF assms(1-4), of limit account now]
proof cases
  case (1 a)
  have a: "a \<in> set (lz_used z)" "limit_wf z" using 1(1) assms(1) by (auto simp: limit_entry_def limit_zone_ok_def)
  define e where "e = limit_excess (lz_rate z) (lz_nodes z a) now"
  define nodes where "nodes = (if e > lim_burst limit then lz_nodes z else if account then (lz_nodes z)(a := (lz_nodes z a)\<lparr>lr_excess := e, lr_last := now\<rparr>)
    else (lz_nodes z)(a := (lz_nodes z a)\<lparr>lr_count := lr_count (lz_nodes z a) + 1\<rparr>))"
  define z' where "z' = z\<lparr>lz_links := ngx_queue_insert_head (ngx_queue_remove (lz_links z) a) (lz_queue z) a, lz_nodes := nodes,
    lz_node := if e > lim_burst limit \<or> account then lz_node z else Some a\<rparr>"
  have f: "limit_found limit a account now z = (if e > lim_burst limit then NGX_BUSY else if account then NGX_OK else NGX_AGAIN, e, z')"
    by (simp add: limit_found_def z'_def nodes_def e_def Let_def)
  have "limit_wf z'" using limit_bump_wf [OF a(2,1)] by (simp add: z'_def)
  then have "limit_zone_ok K z'" using assms(1) by (auto simp: limit_zone_ok_def z'_def nodes_def)
  then show ?thesis using 1(3) f assms(5) a(1) by (auto simp: limit_idle_def limit_pinned_def z'_def nodes_def)
next
  case (2 z1 p)
  obtain z' lr where z': "limit_new p (ucast (ngx_crc32_short k)) k account now z1 = Some (if account then NGX_OK else NGX_AGAIN, 0, z')"
    "limit_zone_ok K z'" "lz_used z' = p # lz_used z1" "lz_nodes z' = (lz_nodes z1)(p := lr)"
    "lr_count lr = (if account then 0 else 1)" "lz_node z' = (if account then lz_node z1 else Some p)" "lz_rate z' = lz_rate z1"
    by (rule limit_new_ok [OF 2(2) assms(2,3) 2(4,5), where account = account and now = now], assumption, rule that)
  have "limit_idle z1" using assms(5) 2(3) by (auto simp: limit_idle_def limit_trim_def)
  moreover have "p \<notin> set (lz_used z1)" "lz_rate z1 = lz_rate z" using 2(3,4) by (simp_all add: limit_fresh_def limit_trim_def)
  ultimately show ?thesis using 2(8) z' by (auto simp: limit_idle_def limit_pinned_def)
next
  case (3 z1)
  have "limit_idle z1" using assms(5) 3(3) by (auto simp: limit_idle_def limit_trim_def)
  then show ?thesis using 3(2,3,5) by (auto simp: limit_trim_def)
qed

text \<open>The zones in the middle of the loops: those below \<open>n\<close> may be pinned.\<close>

definition limit_zones :: "bytes set \<Rightarrow> nat \<Rightarrow> limit_zone list \<Rightarrow> bool" where
  "limit_zones K n zs \<longleftrightarrow> (\<forall>i<length zs. limit_zone_ok K (zs ! i) \<and> lz_rate (zs ! i) \<noteq> 0 \<and> (limit_idle (zs ! i) \<or> i < n \<and> limit_pinned (zs ! i)))"

lemma limit_zones_update:
  assumes "limit_zones K n zs" "limit_zone_ok K z" "lz_rate z \<noteq> 0" "limit_idle z \<or> n < m \<and> limit_pinned z" "n \<le> m"
  shows "limit_zones K m (zs[n := z])"
  unfolding limit_zones_def
proof (intro allI impI)
  fix i assume "i < length (zs[n := z])"
  then have e: "zs[n := z] ! i = (if i = n then z else zs ! i)" "i < length zs" by (auto simp: nth_list_update)
  show "limit_zone_ok K (zs[n := z] ! i) \<and> lz_rate (zs[n := z] ! i) \<noteq> 0 \<and> (limit_idle (zs[n := z] ! i) \<or> i < m \<and> limit_pinned (zs[n := z] ! i))"
    using assms e(2) unfolding e(1) by (auto simp: limit_zones_def)
qed

lemma limit_zones_clear:
  assumes "limit_zones K (Suc n) zs" "limit_zone_ok K z" "lz_rate z \<noteq> 0" "limit_idle z"
  shows "limit_zones K n (zs[n := z])"
  unfolding limit_zones_def
proof (intro allI impI)
  fix i assume "i < length (zs[n := z])"
  then have e: "zs[n := z] ! i = (if i = n then z else zs ! i)" "i < length zs" by (auto simp: nth_list_update)
  show "limit_zone_ok K (zs[n := z] ! i) \<and> lz_rate (zs[n := z] ! i) \<noteq> 0 \<and> (limit_idle (zs[n := z] ! i) \<or> i < n \<and> limit_pinned (zs[n := z] ! i))"
    using assms e(2) unfolding e(1) by (auto simp: limit_zones_def less_Suc_eq)
qed

lemma limit_unpin_ok:
  assumes "limit_zone_ok K z" "limit_idle z \<or> limit_pinned z"
  shows "limit_zone_ok K (limit_unpin z)" "limit_idle (limit_unpin z)" "lz_rate (limit_unpin z) = lz_rate z"
proof -
  have u: "lz_mem (limit_unpin z) = lz_mem z" "lz_used (limit_unpin z) = lz_used z" "limit_wf (limit_unpin z) = limit_wf z"
    "lr_bytes (lz_nodes (limit_unpin z) a) = lr_bytes (lz_nodes z a)" for a
    by (auto simp: limit_unpin_def limit_wf_def split: option.splits)
  show "lz_rate (limit_unpin z) = lz_rate z" by (simp add: limit_unpin_def split: option.splits)
  show "limit_zone_ok K (limit_unpin z)" using assms(1) by (simp add: limit_zone_ok_def u)
  show "limit_idle (limit_unpin z)" using assms(2) by (auto simp: limit_idle_def limit_pinned_def limit_unpin_def split: option.splits)
qed

lemma limit_check_ok:
  assumes "limit_zones K n zs" "limit_keys K" "length zs = length limits" "\<And>i. n \<le> i \<Longrightarrow> i < length zs \<Longrightarrow> limit_pool (allocs ! i) (zs ! i)"
    "\<And>i v. i < length zs \<Longrightarrow> vals ! i = Some v \<Longrightarrow> v = [] \<or> length v > 65535 \<or> v \<in> K"
    "rc = NGX_AGAIN \<or> rc = NGX_DECLINED \<and> limit_zones K 0 zs"
  shows "\<exists>rc' n' e zs'. limit_check allocs limits vals now n rc excess zs = Some (rc', n', e, zs') \<and> limit_zones K n' zs' \<and> length zs' = length zs \<and>
    (rc' = NGX_DECLINED \<longrightarrow> limit_zones K 0 zs') \<and> (n' < length zs \<or> n' = max n (length zs))"
  using assms(1,3-6)
proof (induction "length limits - n" arbitrary: n zs rc excess)
  case 0
  then show ?case by (subst limit_check.simps) auto
next
  case (Suc d)
  note zs = Suc.prems(1) and len = Suc.prems(2) and pool = Suc.prems(3) and vals = Suc.prems(4) and rc = Suc.prems(5)
  have n: "n < length limits" "d = length limits - Suc n" using Suc.hyps(2) by auto
  have rest: "\<exists>rc' n' e zs2. limit_check allocs limits vals now (Suc n) rc1 ex zs1 = Some (rc', n', e, zs2) \<and> limit_zones K n' zs2 \<and> length zs2 = length zs \<and>
      (rc' = NGX_DECLINED \<longrightarrow> limit_zones K 0 zs2) \<and> (n' < length zs \<or> n' = max n (length zs))"
    if "limit_zones K (Suc n) zs1" "length zs1 = length zs" "\<And>i. n < i \<Longrightarrow> zs1 ! i = zs ! i" "rc1 = NGX_AGAIN \<or> rc1 = NGX_DECLINED \<and> limit_zones K 0 zs1" for zs1 rc1 ex
  proof -
    have "\<exists>rc' n' e zs2. limit_check allocs limits vals now (Suc n) rc1 ex zs1 = Some (rc', n', e, zs2) \<and> limit_zones K n' zs2 \<and> length zs2 = length zs1 \<and>
      (rc' = NGX_DECLINED \<longrightarrow> limit_zones K 0 zs2) \<and> (n' < length zs1 \<or> n' = max (Suc n) (length zs1))"
      by (rule Suc.hyps(1)) (use n that len pool vals in auto)
    then show ?thesis using that(2) n(1) len by simp
  qed
  show ?case
  proof (cases "vals ! n = None \<or> (\<exists>v. vals ! n = Some v \<and> (length v = 0 \<or> length v > 65535))")
    case True
    have "limit_zones K (Suc n) zs" using zs by (auto simp: limit_zones_def)
    moreover have "limit_check allocs limits vals now n rc excess zs = limit_check allocs limits vals now (Suc n) rc excess zs"
      using True n by (subst limit_check.simps) auto
    ultimately show ?thesis using rest [of zs rc excess] rc by simp
  next
    case False
    then obtain v where v: "vals ! n = Some v" "v \<in> K" "\<not> (length v = 0 \<or> length v > 65535)" using vals [of n] n len by auto
    have zn: "limit_zone_ok K (zs ! n)" "limit_idle (zs ! n)" "limit_pool (allocs ! n) (zs ! n)" "lz_rate (zs ! n) \<noteq> 0" using zs pool len n by (auto simp: limit_zones_def)
    obtain rc' e z' where l: "ngx_http_limit_req_lookup (allocs ! n) (limits ! n) (ucast (ngx_crc32_short v)) v (n = length limits - 1) now (zs ! n) = Some (rc', e, z')"
        "limit_zone_ok K z'" "rc' \<in> {NGX_OK, NGX_BUSY, NGX_ERROR, NGX_AGAIN}" "if rc' = NGX_AGAIN then limit_pinned z' else limit_idle z'" "lz_rate z' \<noteq> 0"
      using limit_lookup_pin [OF zn(1) assms(2) v(2) zn(3,2)] zn(4) by metis
    show ?thesis
    proof (cases "rc' = NGX_AGAIN")
      case False
      have "limit_zones K n (zs[n := z'])" using limit_zones_update [OF zs l(2,5)] l(4) False by auto
      moreover have "limit_check allocs limits vals now n rc excess zs = Some (rc', n, e, zs[n := z'])"
        using n v l(1) False by (subst limit_check.simps) auto
      ultimately show ?thesis using n len l(3) False by auto
    next
      case True
      have "limit_zones K (Suc n) (zs[n := z'])" using limit_zones_update [OF zs l(2,5)] l(4) True by auto
      moreover have "limit_check allocs limits vals now n rc excess zs = limit_check allocs limits vals now (Suc n) NGX_AGAIN e (zs[n := z'])"
        using n v l(1) True by (subst limit_check.simps) auto
      ultimately show ?thesis using rest [of "zs[n := z']" NGX_AGAIN e] by simp
    qed
  qed
qed

lemma limit_zones_last:
  "limit_zones K (Suc n) zs \<Longrightarrow> n < length zs \<Longrightarrow>
   limit_zone_ok K (zs ! n) \<and> lz_rate (zs ! n) \<noteq> 0 \<and> (limit_idle (zs ! n) \<or> limit_pinned (zs ! n))"
  unfolding limit_zones_def by blast

lemma limit_account_loop_ok:
  "limit_zones K n zs \<Longrightarrow> n \<le> length zs \<Longrightarrow> \<exists>res' zs'. limit_account_loop limits now n res zs = Some (res', zs') \<and> limit_zones K 0 zs'"
proof (induction n arbitrary: res zs)
  case 0
  then show ?case by (cases res) auto
next
  case (Suc n)
  let ?z = "zs ! n"
  have z: "limit_zone_ok K ?z" "lz_rate ?z \<noteq> 0" "limit_idle ?z \<or> limit_pinned ?z" using limit_zones_last Suc.prems by auto
  show ?case
  proof (cases "lz_node ?z")
    case None
    then have "limit_idle ?z" using z(3) by (auto simp: limit_pinned_def)
    then have "limit_zones K n zs" using limit_zones_clear [OF Suc.prems(1) z(1,2)] by simp
    then show ?thesis using Suc None by (simp add: Let_def)
  next
    case (Some a)
    define e where "e = limit_excess (lz_rate ?z) (lz_nodes ?z a) now"
    define z' where "z' = ?z\<lparr>lz_nodes := (lz_nodes ?z)(a := (lz_nodes ?z a)\<lparr>lr_last := now, lr_excess := e, lr_count := lr_count (lz_nodes ?z a) - 1\<rparr>), lz_node := None\<rparr>"
    have "limit_zone_ok K z'" using z(1) by (auto simp: limit_zone_ok_def limit_wf_def z'_def)
    moreover have "limit_idle z'" using z(3) Some by (auto simp: limit_idle_def limit_pinned_def z'_def)
    moreover have "lz_rate z' \<noteq> 0" using z(2) by (simp add: z'_def)
    ultimately have "limit_zones K n (zs[n := z'])" using limit_zones_clear [OF Suc.prems(1)] by blast
    then have "\<exists>res' zs'. limit_account_loop limits now n res (zs[n := z']) = Some (res', zs') \<and> limit_zones K 0 zs'" for res using Suc by simp
    then show ?thesis using Some z(2) by (simp add: z'_def e_def limit_delay_def Let_def)
  qed
qed

lemma limit_unpin_loop_ok: "limit_zones K n zs \<Longrightarrow> n \<le> length zs \<Longrightarrow> limit_zones K 0 (limit_unpin_loop n zs)"
proof (induction n arbitrary: zs)
  case (Suc n)
  have "limit_zones K n (zs[n := limit_unpin (zs ! n)])"
    by (rule limit_zones_clear [OF Suc.prems(1)]) (use limit_zones_last [OF Suc.prems(1)] Suc.prems(2) limit_unpin_ok in auto)
  then show ?case using Suc by simp
qed simp

definition limit_window :: "bytes \<Rightarrow> nat \<Rightarrow> nat \<Rightarrow> (uint64_t \<times> bytes) list \<Rightarrow> nat" where
  "limit_window q w span acc = length (filter (\<lambda>(t, k). k = q \<and> w \<le> unat t \<and> unat t \<le> w + span) acc)"

lemma limit_charged_bound:
  assumes "limit_charged rate q w c z" "limit_sound K limit rate t z" "t \<le> w + span"
  shows "1000000 * c \<le> 1000000 + 1000 * unat (lim_burst limit) + unat rate * span"
proof -
  obtain a where a: "a \<in> set (lz_used z)" "1000000 * c \<le> 1000000 + 1000 * unat (lr_excess (lz_nodes z a)) + unat rate * (unat (lr_last (lz_nodes z a)) - w)"
    using assms(1) by (auto simp: limit_charged_def limit_entry_def)
  have "unat (lr_excess (lz_nodes z a)) \<le> unat (lim_burst limit)" "unat (lr_last (lz_nodes z a)) \<le> t"
    using assms(2) a(1) by (auto simp: limit_sound_def word_le_nat_alt)
  moreover have "unat rate * (unat (lr_last (lz_nodes z a)) - w) \<le> unat rate * span" using calculation(2) assms(3) by (intro mult_left_mono) simp_all
  ultimately show ?thesis using a(2) by linarith
qed

lemma limit_serve_ok:
  assumes "limit_sound K limit rate t z" "limit_keys K" "\<forall>(now, k)\<in>set reqs. k \<in> K \<and> t \<le> unat now \<and> unat rate * unat now < 2 ^ 62"
    "sorted (map (\<lambda>r. unat (fst r)) reqs)" "limit_pool alloc z" "\<And>size used. alloc size used \<noteq> None"
    "0 < unat rate" "unat (lim_burst limit) < 2 ^ 62" "span < 60000"
    "0 < c \<Longrightarrow> limit_charged rate q w c z" "0 < c \<Longrightarrow> t \<le> w + span"
  shows "\<exists>acc z'. limit_serve alloc limit reqs z = Some (acc, z') \<and>
    1000000 * (c + limit_window q w span acc) \<le> 1000000 + 1000 * unat (lim_burst limit) + unat rate * span"
  using assms(1,3-5,10,11)
proof (induction reqs arbitrary: t z c)
  case Nil
  then show ?case using limit_charged_bound [where rate = rate and q = q and w = w and c = c and z = z and K = K and limit = limit and t = t and span = span] by (cases "c = 0") (auto simp: limit_window_def)
next
  case (Cons r reqs)
  obtain now k where r: "r = (now, k)" by (cases r)
  have k: "k \<in> K" "t \<le> unat now" "unat rate * unat now < 2 ^ 62" using Cons.prems(2) r by auto
  have later: "unat now \<le> unat (fst r')" if "r' \<in> set reqs" for r' using Cons.prems(3) that r by auto
  have rest: "\<forall>(now', k)\<in>set reqs. k \<in> K \<and> unat now \<le> unat now' \<and> unat rate * unat now' < 2 ^ 62" "sorted (map (\<lambda>r. unat (fst r)) reqs)"
    using Cons.prems(2,3) later by fastforce+
  show ?case
  proof (cases "unat now \<le> w + span")
    case True
    have recent: "unat now < w + 60000" using True assms(9) by simp
    obtain rc d z' where s: "ngx_http_limit_req_handler [alloc] [limit] [Some k] now True False [z] = Some (rc, True, d, [z'])"
        "limit_sound K limit rate (unat now) z'" "limit_pool alloc z'"
        "let c' = (if q = k \<and> w \<le> unat now \<and> rc \<noteq> NGX_HTTP_SERVICE_UNAVAILABLE then Suc c else c) in 0 < c' \<longrightarrow> limit_charged rate q w c' z'"
      by (rule limit_step [OF Cons.prems(1) assms(2) k(1) Cons.prems(4) assms(6) k(2) assms(7) k(3) assms(8) Cons.prems(5) recent], assumption, rule that)
    define c' where "c' = (if q = k \<and> w \<le> unat now \<and> rc \<noteq> NGX_HTTP_SERVICE_UNAVAILABLE then Suc c else c)"
    obtain acc z'' where i: "limit_serve alloc limit reqs z' = Some (acc, z'')"
        "1000000 * (c' + limit_window q w span acc) \<le> 1000000 + 1000 * unat (lim_burst limit) + unat rate * span"
      using Cons.IH [OF s(2) rest s(3), of c'] s(4) True unfolding c'_def [symmetric] Let_def by blast
    show ?thesis using s(1) i True unfolding r c'_def by (auto simp: limit_window_def)
  next
    case False
    obtain rc d z' where s: "ngx_http_limit_req_handler [alloc] [limit] [Some k] now True False [z] = Some (rc, True, d, [z'])"
        "limit_sound K limit rate (unat now) z'" "limit_pool alloc z'"
      using limit_step [OF Cons.prems(1) assms(2) k(1) Cons.prems(4) assms(6) k(2) assms(7) k(3) assms(8), where c = 0 and q = q and w = w] by blast
    obtain acc z'' where i: "limit_serve alloc limit reqs z' = Some (acc, z'')"
      using Cons.IH [OF s(2) rest s(3), of 0] by auto
    have "\<not> unat (fst r') \<le> w + span" if "r' \<in> set acc" for r' using limit_serve_subset [OF i] that later [of r'] False by auto
    then have "limit_window q w span acc = 0" by (auto simp: limit_window_def filter_empty_conv)
    moreover have "1000000 * c \<le> 1000000 + 1000 * unat (lim_burst limit) + unat rate * span"
      using limit_charged_bound [OF Cons.prems(5,1,6)] by (cases "c = 0") auto
    ultimately show ?thesis using s(1) i False unfolding r by (auto simp: limit_window_def)
  qed
qed

definition limit_spaced :: "uint64_t \<Rightarrow> bytes \<Rightarrow> (uint64_t \<times> bytes) list \<Rightarrow> bool" where
  "limit_spaced rate q reqs \<longleftrightarrow>
     sorted_wrt (\<lambda>r r'. 1000000 \<le> unat rate * (unat (fst r') - unat (fst r))) (filter (\<lambda>r. snd r = q) reqs)"

lemma limit_excess_spaced:
  assumes "lr_excess lr = 0" "1000000 \<le> unat rate * (unat now - unat (lr_last lr))" "unat (lr_last lr) \<le> unat now" "0 < unat rate" "unat rate * unat now < 2 ^ 62"
  shows "limit_excess rate lr now = 0"
proof -
  have "1000 \<le> unat rate * (unat now - unat (lr_last lr)) div 1000" using div_le_mono [OF assms(2), of 1000] by simp
  then have "unat (limit_excess rate lr now) = 0" using limit_excess_nat [OF assms(3-5)] assms(1) by simp
  then show ?thesis by (simp add: unat_eq_0)
qed

lemma limit_serve_spaced:
  assumes "limit_sound K limit rate t z" "limit_keys K" "\<forall>(now, k)\<in>set reqs. k \<in> K \<and> t \<le> unat now \<and> unat rate * unat now < 2 ^ 62"
    "sorted (map (\<lambda>r. unat (fst r)) reqs)" "limit_pool alloc z" "\<And>size used. alloc size used \<noteq> None"
    "0 < unat rate" "unat (lim_burst limit) < 2 ^ 62" "limit_spaced rate q reqs"
    "\<And>a r. limit_entry z q a \<Longrightarrow> r \<in> set reqs \<Longrightarrow> snd r = q \<Longrightarrow> lr_excess (lz_nodes z a) = 0 \<and> 1000000 \<le> unat rate * (unat (fst r) - unat (lr_last (lz_nodes z a)))"
  shows "\<exists>acc z'. limit_serve alloc limit reqs z = Some (acc, z') \<and> filter (\<lambda>r. snd r = q) acc = filter (\<lambda>r. snd r = q) reqs"
  using assms(1,3-5,9,10)
proof (induction reqs arbitrary: t z)
  case (Cons r reqs)
  obtain now k where r: "r = (now, k)" by (cases r)
  have k: "k \<in> K" "t \<le> unat now" "unat rate * unat now < 2 ^ 62" using Cons.prems(2) r by auto
  have later: "unat now \<le> unat (fst r')" if "r' \<in> set reqs" for r' using Cons.prems(3) that r by auto
  have rest: "\<forall>(now', k)\<in>set reqs. k \<in> K \<and> unat now \<le> unat now' \<and> unat rate * unat now' < 2 ^ 62" "sorted (map (\<lambda>r. unat (fst r)) reqs)"
    using Cons.prems(2,3) later by fastforce+
  have sp: "limit_spaced rate q reqs" using Cons.prems(5) by (auto simp: limit_spaced_def split: if_splits)
  obtain rc d z' where s: "ngx_http_limit_req_handler [alloc] [limit] [Some k] now True False [z] = Some (rc, True, d, [z'])"
      "limit_sound K limit rate (unat now) z'" "limit_pool alloc z'" "limit_effect limit k now (rc \<noteq> NGX_HTTP_SERVICE_UNAVAILABLE) z z'"
    using limit_step [OF Cons.prems(1) assms(2) k(1) Cons.prems(4) assms(6) k(2) assms(7) k(3) assms(8), where c = 0 and q = q and w = 0] by blast
  have rate: "lz_rate z = rate" using Cons.prems(1) by (simp add: limit_sound_def)
  have e0: "limit_excess rate (lz_nodes z b) now = 0" if "limit_entry z q b" "k = q" for b
  proof -
    have "lr_excess (lz_nodes z b) = 0" "1000000 \<le> unat rate * (unat now - unat (lr_last (lz_nodes z b)))"
      using Cons.prems(6) [OF that(1), of r] that(2) r by simp_all
    moreover have "unat (lr_last (lz_nodes z b)) \<le> unat now" using Cons.prems(1) that(1) k(2) by (auto simp: limit_sound_def limit_entry_def)
    ultimately show ?thesis using limit_excess_spaced assms(7) k(3) by blast
  qed
  have ok: "rc \<noteq> NGX_HTTP_SERVICE_UNAVAILABLE" if "k = q"
  proof
    assume "rc = NGX_HTTP_SERVICE_UNAVAILABLE"
    then obtain b where "limit_entry z k b" "lim_burst limit < limit_excess (lz_rate z) (lz_nodes z b) now" using s(4) by (auto simp: limit_effect_def)
    then show False using e0 [of b] that rate by simp
  qed
  have inv: "lr_excess (lz_nodes z' a) = 0 \<and> 1000000 \<le> unat rate * (unat (fst r') - unat (lr_last (lz_nodes z' a)))"
    if "limit_entry z' q a" "r' \<in> set reqs" "snd r' = q" for a r'
  proof (cases "k = q")
    case True
    then have "lr_last (lz_nodes z' a) = now" "lr_excess (lz_nodes z' a) = 0" using s(4) that(1) ok e0 rate unfolding limit_effect_def by metis+
    moreover have "1000000 \<le> unat rate * (unat (fst r') - unat now)" using Cons.prems(5) that(2,3) True r by (auto simp: limit_spaced_def)
    ultimately show ?thesis by simp
  next
    case False
    then show ?thesis using s(4) that Cons.prems(6) [of a r'] unfolding limit_effect_def by (metis list.set_intros(2))
  qed
  obtain acc z'' where "limit_serve alloc limit reqs z' = Some (acc, z'')" "filter (\<lambda>r. snd r = q) acc = filter (\<lambda>r. snd r = q) reqs"
    using Cons.IH [OF s(2) rest s(3) sp inv] by blast
  then show ?case using s(1) ok unfolding r by auto
qed simp

lemma limit_sound_init:
  assumes "lz_used z = []" "lz_node z = None" "limit_pool alloc z"
  shows "limit_sound K limit (lz_rate z) 0 (limit_init_zone z)" "limit_pool alloc (limit_init_zone z)" "\<not> limit_entry (limit_init_zone z) q a"
  using limit_init_wf [OF assms(1)] assms
  by (auto simp: limit_sound_def limit_zone_ok_def limit_pool_def limit_entry_def limit_init_zone_def split: prod.splits)

subsection \<open>Properties\<close>

text \<open>
  C8: Of the requests with one key that come within less than a minute, at most \<open>1 + burst + rate * time\<close> are accepted (the rate and the burst are in
  thousandths), whatever requests with other keys come between them.  The requests come in the order of their times to a zone that starts empty, with a
  rate above zero; every allocation succeeds and gives memory that is not in use, so that no node is evicted by force; the keys have 1 to 255 bytes and no two of them the same hash; and the
  burst and the products of the rate with the times are below \<open>2\<^sup>6\<^sup>2\<close>.
\<close>

theorem limit_req_rate:
  assumes "lz_used z = []" "lz_node z = None" "limit_keys K" "\<forall>(now, k)\<in>set reqs. k \<in> K \<and> unat (lz_rate z) * unat now < 2 ^ 62"
    "sorted (map (\<lambda>r. unat (fst r)) reqs)" "limit_pool alloc z" "\<And>n used. alloc n used \<noteq> None"
    "0 < unat (lz_rate z)" "unat (lim_burst limit) < 2 ^ 62" "span < 60000"
  shows "\<exists>acc z'. limit_serve alloc limit reqs (limit_init_zone z) = Some (acc, z') \<and>
    1000000 * limit_window q w span acc \<le> 1000000 + 1000 * unat (lim_burst limit) + unat (lz_rate z) * span"
  using limit_serve_ok [where K = K and limit = limit and rate = "lz_rate z" and t = 0 and z = "limit_init_zone z" and reqs = reqs and alloc = alloc and
      span = span and c = 0 and q = q and w = w] limit_sound_init [OF assms(1,2,6)] assms(3-5,7-10) by (auto simp: case_prod_beta)

text \<open>
  C9: Requests with one key that come at least the time of one request at the rate after each other are all accepted, whatever requests with other
  keys come between them, under the conditions of C8: requests in the order of their times to a zone that starts empty, a rate above zero, allocations
  that all succeed and give memory not in use, keys of 1 to 255 bytes with different hashes, and a burst and products of rate and time below \<open>2\<^sup>6\<^sup>2\<close>.
\<close>

theorem limit_req_admits:
  assumes "lz_used z = []" "lz_node z = None" "limit_keys K" "\<forall>(now, k)\<in>set reqs. k \<in> K \<and> unat (lz_rate z) * unat now < 2 ^ 62"
    "sorted (map (\<lambda>r. unat (fst r)) reqs)" "limit_pool alloc z" "\<And>n used. alloc n used \<noteq> None"
    "0 < unat (lz_rate z)" "unat (lim_burst limit) < 2 ^ 62" "limit_spaced (lz_rate z) q reqs"
  shows "\<exists>acc z'. limit_serve alloc limit reqs (limit_init_zone z) = Some (acc, z') \<and> filter (\<lambda>r. snd r = q) acc = filter (\<lambda>r. snd r = q) reqs"
  using limit_serve_spaced [where K = K and limit = limit and rate = "lz_rate z" and t = 0 and z = "limit_init_zone z" and reqs = reqs and alloc = alloc and q = q]
    limit_sound_init [OF assms(1,2,6)] assms(3-5,7-10) by (auto simp: case_prod_beta)

text \<open>
  C10: Whatever a request passes on its way through any number of limits, whether allocations succeed or not, the handler ends and leaves every zone
  well-formed and no node pinned.  The zones were well-formed before and had no node pinned, their rates are not zero, each allocation gives memory that
  is not in use, and each value is empty, longer than 65535 bytes (both are passed over) or a key of 1 to 255 bytes, where no two keys have the same hash.
\<close>

theorem limit_req_unpins:
  assumes "\<forall>z\<in>set zs. limit_zone_ok K z \<and> limit_idle z \<and> lz_rate z \<noteq> 0" "limit_keys K" "length limits = length zs"
    "\<And>i. i < length zs \<Longrightarrow> limit_pool (allocs ! i) (zs ! i)"
    "\<And>i v. i < length zs \<Longrightarrow> vals ! i = Some v \<Longrightarrow> v = [] \<or> length v > 65535 \<or> v \<in> K"
  shows "\<exists>rc req_set' delay zs'. ngx_http_limit_req_handler allocs limits vals now read_ok req_set zs = Some (rc, req_set', delay, zs') \<and>
    (\<forall>z\<in>set zs'. limit_zone_ok K z \<and> limit_idle z)"
proof (cases req_set)
  case True
  then have "ngx_http_limit_req_handler allocs limits vals now read_ok req_set zs = Some (NGX_DECLINED, True, None, zs)"
    by (simp add: ngx_http_limit_req_handler_def)
  then show ?thesis using assms(1) by blast
next
  case False
  have all: "limit_zones K 0 zs' \<Longrightarrow> \<forall>z\<in>set zs'. limit_zone_ok K z \<and> limit_idle z" for zs'
    by (auto simp: limit_zones_def in_set_conv_nth)
  have z0: "limit_zones K 0 zs" using assms(1) by (simp add: limit_zones_def)
  obtain rc n e zs' where c: "limit_check allocs limits vals now 0 NGX_DECLINED 0 zs = Some (rc, n, e, zs')" "limit_zones K n zs'" "length zs' = length zs"
      "rc = NGX_DECLINED \<longrightarrow> limit_zones K 0 zs'" "n < length zs \<or> n = max 0 (length zs)"
    using limit_check_ok [OF z0 assms(2) assms(3) [symmetric], of allocs vals NGX_DECLINED now 0] assms(4,5) z0 by auto
  have n: "n \<le> length zs'" using c(3,5) by auto
  consider (declined) "rc = NGX_DECLINED" | (refused) "rc \<noteq> NGX_DECLINED" "rc = NGX_BUSY \<or> rc = NGX_ERROR" | (passed) "rc \<noteq> NGX_DECLINED" "\<not> (rc = NGX_BUSY \<or> rc = NGX_ERROR)"
    by blast
  then show ?thesis
  proof cases
    case declined
    have "ngx_http_limit_req_handler allocs limits vals now read_ok req_set zs = Some (NGX_DECLINED, False, None, zs')"
      using False c(1) declined by (simp add: ngx_http_limit_req_handler_def)
    then show ?thesis using all c(4) declined by blast
  next
    case refused
    have "ngx_http_limit_req_handler allocs limits vals now read_ok req_set zs = Some (NGX_HTTP_SERVICE_UNAVAILABLE, True, None, limit_unpin_loop n zs')"
      using False c(1) refused by (auto simp: ngx_http_limit_req_handler_def)
    then show ?thesis using all [OF limit_unpin_loop_ok [OF c(2) n]] by blast
  next
    case passed
    define l where "l = (if n < length limits then n else length limits - 1)"
    define ep where "ep = (if rc = NGX_AGAIN then 0 else e)"
    have "\<exists>res zs2. ngx_http_limit_req_account limits n ep l now zs' = Some (res, zs2) \<and> limit_zones K 0 zs2"
    proof (cases "length zs = 0")
      case True
      then have "rc = NGX_DECLINED" using c(1) assms(3) by (subst (asm) limit_check.simps) simp
      then show ?thesis using passed by simp
    next
      case 0: False
      then have "l < length zs'" using c(3) assms(3) by (auto simp: l_def)
      then have "lz_rate (zs' ! l) \<noteq> 0" using c(2) by (simp add: limit_zones_def)
      then have "\<exists>d. (if ep = 0 \<or> lim_nodelay (limits ! l) then Some 0 else limit_delay ep (lz_rate (zs' ! l))) = Some d"
        by (simp add: limit_delay_def)
      then obtain d where "(if ep = 0 \<or> lim_nodelay (limits ! l) then Some 0 else limit_delay ep (lz_rate (zs' ! l))) = Some d" ..
      then show ?thesis using limit_account_loop_ok [OF c(2) n, of limits now "(d, ep, l)"] by (simp add: ngx_http_limit_req_account_def)
    qed
    then obtain d x zs2 where a: "ngx_http_limit_req_account limits n ep l now zs' = Some ((d, x), zs2)" "limit_zones K 0 zs2" by auto
    moreover have "\<exists>rc d. ngx_http_limit_req_handler allocs limits vals now read_ok req_set zs = Some (rc, True, d, zs2)"
      using False c(1) passed a(1) unfolding ngx_http_limit_req_handler_def l_def ep_def by (simp add: Let_def)
    ultimately show ?thesis using all by blast
  qed
qed

text \<open>A zone without nodes, for one request each second, and an allocator that goes upwards.\<close>

definition limit_zone0 :: limit_zone where
  "limit_zone0 = \<lparr>lz_mem = (\<lambda>a. \<lparr>rb_key = 0, rb_left = 0, rb_right = 0, rb_parent = 0, rb_color = 0\<rparr>), lz_root = 0, lz_sentinel = 0,
     lz_links = (\<lambda>a. \<lparr>q_prev = 0, q_next = 0\<rparr>), lz_queue = 1,
     lz_nodes = (\<lambda>a. \<lparr>lr_len = 0, lr_last = 0, lr_excess = 0, lr_count = 0, lr_data = (\<lambda>i. 0)\<rparr>), lz_rate = 1000, lz_node = None, lz_used = []\<rparr>"

definition limit_alloc0 :: limit_alloc where
  "limit_alloc0 n used = Some (fold max used 10 + 1)"

lemma fold_max: "n \<le> fold max xs (n :: nat) \<and> (\<forall>x\<in>set xs. x \<le> fold max xs n)"
proof (induction xs arbitrary: n)
  case (Cons y xs)
  have "max y n \<le> fold max xs (max y n)" using Cons by blast
  then show ?case using Cons [of "max y n"] by simp
qed simp

lemma limit_pool0:
  assumes "lz_sentinel z = 0" "lz_queue z = 1"
  shows "limit_pool limit_alloc0 z"
proof -
  have "fold max used 10 + 1 \<notin> set used \<and> 10 \<le> fold max used 10" for used :: "nat list" using fold_max [of 10 used] by auto
  moreover from this have "0 < fold max used 10" for used :: "nat list" by (rule order.strict_trans2 [rotated, OF conjunct2]) simp
  ultimately show ?thesis using assms by (auto simp: limit_pool_def limit_alloc0_def)
qed

lemma limit_keys0: "limit_keys {[65], [66]}"
  by (simp add: limit_keys_def ngx_crc32_short_def crc32_short_step_def ngx_crc32_table16_def)

lemma limit_req_rate_witness:
  "\<exists>acc z'. limit_serve limit_alloc0 \<lparr>lim_burst = 0, lim_nodelay = False\<rparr> [(0, [65]), (100, [65]), (200, [66]), (1500, [65])] (limit_init_zone limit_zone0) = Some (acc, z') \<and>
    1000000 * limit_window [65] 0 200 acc \<le> 1200000"
  using limit_req_rate [OF _ _ limit_keys0 _ _ limit_pool0, of limit_zone0 "[(0, [65]), (100, [65]), (200, [66]), (1500, [65])]" "\<lparr>lim_burst = 0, lim_nodelay = False\<rparr>" 200 "[65]" 0]
  by (simp add: limit_zone0_def limit_alloc0_def)

lemma limit_req_admits_witness:
  "\<exists>acc z'. limit_serve limit_alloc0 \<lparr>lim_burst = 0, lim_nodelay = False\<rparr> [(0, [65]), (200, [66]), (1500, [65])] (limit_init_zone limit_zone0) = Some (acc, z') \<and>
    filter (\<lambda>r. snd r = [65]) acc = [(0, [65]), (1500, [65])]"
  using limit_req_admits [OF _ _ limit_keys0 _ _ limit_pool0, of limit_zone0 "[(0, [65]), (200, [66]), (1500, [65])]" "\<lparr>lim_burst = 0, lim_nodelay = False\<rparr>" "[65]"]
  by (simp add: limit_zone0_def limit_alloc0_def limit_spaced_def)

lemma limit_req_unpins_witness:
  "\<exists>rc req_set' delay zs'. ngx_http_limit_req_handler [limit_alloc0, limit_alloc0] [\<lparr>lim_burst = 0, lim_nodelay = False\<rparr>, \<lparr>lim_burst = 0, lim_nodelay = False\<rparr>]
      [Some [65], Some [66]] 5 True False [limit_init_zone limit_zone0, limit_init_zone limit_zone0] = Some (rc, req_set', delay, zs') \<and>
    (\<exists>K. list_all (\<lambda>z. limit_zone_ok K z \<and> limit_idle z) zs')"
proof -
  have z: "limit_zone_ok {[65], [66]} (limit_init_zone limit_zone0)" "limit_idle (limit_init_zone limit_zone0)" "lz_rate (limit_init_zone limit_zone0) \<noteq> 0"
      "limit_pool limit_alloc0 (limit_init_zone limit_zone0)"
    using limit_init_wf [of limit_zone0] limit_pool0 [of "limit_init_zone limit_zone0"]
    by (simp_all add: limit_zone_ok_def limit_idle_def limit_init_zone_def limit_zone0_def split: prod.splits)
  have "\<exists>rc req_set' delay zs'. ngx_http_limit_req_handler [limit_alloc0, limit_alloc0] [\<lparr>lim_burst = 0, lim_nodelay = False\<rparr>, \<lparr>lim_burst = 0, lim_nodelay = False\<rparr>]
      [Some [65], Some [66]] 5 True False [limit_init_zone limit_zone0, limit_init_zone limit_zone0] = Some (rc, req_set', delay, zs') \<and>
    (\<forall>z\<in>set zs'. limit_zone_ok {[65], [66]} z \<and> limit_idle z)"
    by (rule limit_req_unpins [OF _ limit_keys0]) (use z in \<open>auto simp: less_Suc_eq nth_Cons split: nat.splits\<close>)
  then show ?thesis unfolding list_all_iff by blast
qed

end
