(* ===== verification/Ngx_Utf8.thy ===== *)
theory Ngx_Utf8
  imports Ngx_Http
begin

text \<open>
  UTF-8, \<open>core/ngx_string.c\<close>: \<open>ngx_utf8_decode\<close>, \<open>ngx_utf8_length\<close> and \<open>ngx_utf8_cpystrn\<close> over a memory, against the encoding of
  code points.
\<close>

unbundle bit_operations_syntax

subsection \<open>The code\<close>

text \<open>The bytes behind the first one; \<open>len\<close> of them are left.\<close>

fun utf8_tail :: "memory \<Rightarrow> ptr \<Rightarrow> nat \<Rightarrow> uint32_t \<Rightarrow> uint32_t \<Rightarrow> uint32_t \<times> ptr" where
  "utf8_tail mem p 0 u valid = (if u > valid then u else 0xffffffff, p)"
| "utf8_tail mem p (Suc len) u valid =
     (let i = ucast (mem p)
      in if i < 0x80 then (0xffffffff, p + 1)
         else utf8_tail mem (p + 1) len (push_bit 6 u OR (i AND 0x3f)) valid)"

text \<open>The result has the value and the new position; \<open>n - 1\<close> wraps for the length 0.\<close>

definition ngx_utf8_decode :: "memory \<Rightarrow> ptr \<Rightarrow> nat \<Rightarrow> uint32_t \<times> ptr" where
  "ngx_utf8_decode mem p n =
     (let u = ucast (mem p);
          rest = (\<lambda>u valid len. if 0 < n \<and> n - 1 < len then (0xfffffffe, p) else utf8_tail mem (p + 1) len u valid)
      in if u \<ge> 0xf0 then rest (u AND 0x07) 0xffff 3
         else if u \<ge> 0xe0 then rest (u AND 0x0f) 0x7ff 2
         else if u \<ge> 0xc2 then rest (u AND 0x1f) 0x7f 1
         else (0xffffffff, p + 1))"

text \<open>The position grows in each round, as no value beyond \<open>0x10ffff\<close> is taken.\<close>

lemma utf8_tail_grows: "p \<le> snd (utf8_tail mem p len u valid)"
proof (induction len arbitrary: p u)
  case (Suc len)
  show ?case using Suc.IH [of "p + 1"] by (auto simp: Let_def intro: Suc_leD)
qed simp

lemma utf8_decode_grows: "fst (ngx_utf8_decode mem p n) \<le> 0x10ffff \<Longrightarrow> p < snd (ngx_utf8_decode mem p n)"
  using utf8_tail_grows [of "p + 1" mem] by (auto simp: ngx_utf8_decode_def Let_def Suc_le_eq split: if_splits)

function utf8_length_loop :: "memory \<Rightarrow> ptr \<Rightarrow> ptr \<Rightarrow> nat \<Rightarrow> nat \<Rightarrow> nat" where
  "utf8_length_loop mem lst p n len =
     (if p < lst then
        if mem p < 0x80 then utf8_length_loop mem lst (p + 1) n (len + 1)
        else if fst (ngx_utf8_decode mem p n) > 0x10ffff then n
        else utf8_length_loop mem lst (snd (ngx_utf8_decode mem p n)) n (len + 1)
      else len)"
  by pat_completeness auto
termination
  by (relation "measure (\<lambda>(mem, lst, p, n, len). lst - p)") (use utf8_decode_grows in \<open>auto simp: not_less diff_less_mono2\<close>)

declare utf8_length_loop.simps [simp del]

definition ngx_utf8_length :: "memory \<Rightarrow> ptr \<Rightarrow> nat \<Rightarrow> nat" where
  "ngx_utf8_length mem p n = utf8_length_loop mem (p + n) p n 0"

text \<open>\<open>while (src < next) { *dst++ = *src++; len--; }\<close>\<close>

fun utf8_copy :: "memory \<Rightarrow> ptr \<Rightarrow> ptr \<Rightarrow> nat \<Rightarrow> memory" where
  "utf8_copy mem dst src 0 = mem"
| "utf8_copy mem dst src (Suc k) = utf8_copy (mem(dst := mem src)) (dst + 1) (src + 1) k"

text \<open>\<open>len\<close> is a \<open>size_t\<close>.  The result has the memory and the new \<open>dst\<close>.\<close>

fun utf8_cpystrn_loop :: "memory \<Rightarrow> ptr \<Rightarrow> ptr \<Rightarrow> nat \<Rightarrow> uint64_t \<Rightarrow> memory \<times> ptr" where
  "utf8_cpystrn_loop mem dst src 0 len = (mem(dst := c_NUL), dst)"
| "utf8_cpystrn_loop mem dst src (Suc n) len =
     (let c = mem src;
          mem = mem(dst := c)
      in if c < 0x80 then
           if c \<noteq> c_NUL then utf8_cpystrn_loop mem (dst + 1) (src + 1) n (len - 1)
           else (mem, dst)
         else
           case ngx_utf8_decode mem src (unat len) of
             (u, nxt) \<Rightarrow>
               if u > 0x10ffff then (mem(dst := c_NUL), dst)
               else
                 let k = nxt - src
                 in utf8_cpystrn_loop (utf8_copy mem dst src k) (dst + k) nxt n (len - of_nat k))"

definition ngx_utf8_cpystrn :: "memory \<Rightarrow> ptr \<Rightarrow> ptr \<Rightarrow> nat \<Rightarrow> uint64_t \<Rightarrow> memory \<times> ptr" where
  "ngx_utf8_cpystrn mem dst src n len =
     (if n = 0 then (mem, dst) else utf8_cpystrn_loop mem dst src (n - 1) len)"

subsection \<open>Characters\<close>

text \<open>The code points and their encoding.\<close>

definition utf8_encode :: "nat \<Rightarrow> bytes" where
  "utf8_encode c =
     (if c < 0x80 then [of_nat c]
      else if c < 0x800 then [of_nat (0xc0 + c div 64), of_nat (0x80 + c mod 64)]
      else if c < 0x10000 then [of_nat (0xe0 + c div 4096), of_nat (0x80 + c div 64 mod 64), of_nat (0x80 + c mod 64)]
      else [of_nat (0xf0 + c div 262144), of_nat (0x80 + c div 4096 mod 64), of_nat (0x80 + c div 64 mod 64), of_nat (0x80 + c mod 64)])"

lemma unat_and_mask: "unat (u AND mask k) = unat u mod 2 ^ k" for u :: "'a::len word"
  by (simp only: take_bit_eq_mask [symmetric] unsigned_take_bit_eq) (simp add: take_bit_eq_mod)

lemma utf8_byte: "d < 256 \<Longrightarrow> unat (ucast (of_nat d :: u_char) :: uint32_t) = d"
  by (simp add: unat_ucast unat_of_nat)

lemma utf8_mask:
  assumes "d < 256" "2 ^ k - 1 = m" "d mod 2 ^ k = e"
  shows "(ucast (of_nat d :: u_char) AND of_nat m :: uint32_t) = of_nat e"
proof -
  have m: "of_nat m = (mask k :: uint32_t)" by (simp add: assms(2) [symmetric] mask_eq_exp_minus_1)
  have "unat (of_nat (d mod 2 ^ k) :: uint32_t) = d mod 2 ^ k"
  proof -
    have "d mod 2 ^ k < 256" using assms(1) by (rule le_less_trans [OF mod_less_eq_dividend])
    then show ?thesis by (simp add: unat_of_nat)
  qed
  then show ?thesis using utf8_byte [OF assms(1)] by (simp add: m word_unat_eq_iff unat_and_mask flip: assms(3))
qed

lemma utf8_shift: "d < 64 \<Longrightarrow> push_bit 6 (of_nat a) OR of_nat d = (of_nat (a * 64 + d) :: uint32_t)"
proof -
  assume "d < 64"
  then have "take_bit 6 d = d" by (simp add: take_bit_nat_eq_self)
  then have "of_nat d = (take_bit 6 (of_nat d) :: uint32_t)" by (metis take_bit_of_nat)
  then have "push_bit 6 (of_nat a) AND of_nat d = (0 :: uint32_t)"
    by (metis (no_types, opaque_lifting) bit_and_iff bit_push_bit_iff bit_take_bit_iff bit_0_eq bot_apply bit_word_eqI bot_bool_def not_le)
  then have "push_bit 6 (of_nat a) OR of_nat d = (push_bit 6 (of_nat a) + of_nat d :: uint32_t)" by (simp add: disjunctive_add_eq_or)
  then show ?thesis by (simp add: push_bit_eq_mult)
qed

lemma utf8_tail_ok:
  assumes "holds mem p (map (\<lambda>d. of_nat (0x80 + d)) ds)" "\<forall>d\<in>set ds. d < 64"
  shows "utf8_tail mem p (length ds) (of_nat a) valid =
    (let u = of_nat (foldl (\<lambda>a d. a * 64 + d) a ds) in (if u > valid then u else 0xffffffff, p + length ds))"
  using assms
proof (induction ds arbitrary: p a)
  case (Cons d ds)
  have d: "d < 64" "mem p = of_nat (0x80 + d)" using Cons.prems by auto
  have i: "\<not> (ucast (mem p) :: uint32_t) < 0x80" using utf8_byte [of "0x80 + d"] d by (simp add: word_less_nat_alt)
  have mod: "(0x80 + d) mod 64 = d" using d(1) by (subst mod_add_left_eq [symmetric]) simp
  have m: "(ucast (mem p) AND 0x3f :: uint32_t) = of_nat d" using utf8_mask [of "0x80 + d" 6 63 d] mod d by simp
  have e: "utf8_tail mem p (length (d # ds)) (of_nat a) valid = utf8_tail mem (p + 1) (length ds) (of_nat (a * 64 + d)) valid"
    using i m utf8_shift [OF d(1), of a] by (simp add: Let_def)
  have "holds mem (p + 1) (map (\<lambda>d. of_nat (0x80 + d)) ds)" "\<forall>d\<in>set ds. d < 64" using Cons.prems by auto
  then have "utf8_tail mem (p + 1) (length ds) (of_nat (a * 64 + d)) valid =
      (let u = of_nat (foldl (\<lambda>a d. a * 64 + d) (a * 64 + d) ds) in (if u > valid then u else 0xffffffff, p + 1 + length ds))"
    by (rule Cons.IH)
  then show ?case unfolding e by (simp del: of_nat_add of_nat_mult)
qed (simp add: Let_def)

text \<open>The first byte tells how many follow.\<close>

lemma utf8_head:
  assumes "mem p = of_nat (0xc0 + h)" "2 \<le> h" "h < 32" "n = 0 \<or> 2 \<le> n"
  shows "ngx_utf8_decode mem p n = utf8_tail mem (p + 1) 1 (of_nat h) 0x7f"
proof -
  have u: "unat (ucast (mem p) :: uint32_t) = 0xc0 + h" using utf8_byte [of "0xc0 + h"] assms by simp
  have mod: "(0xc0 + h) mod 32 = h" using assms by (subst mod_add_left_eq [symmetric]) simp
  have m: "(ucast (mem p) AND 0x1f :: uint32_t) = of_nat h" using utf8_mask [of "0xc0 + h" 5 31 h] mod assms by simp
  show ?thesis using assms(2-4) m by (auto simp: ngx_utf8_decode_def Let_def word_le_nat_alt u)
qed

lemma utf8_head3:
  assumes "mem p = of_nat (0xe0 + h)" "h < 16" "n = 0 \<or> 3 \<le> n"
  shows "ngx_utf8_decode mem p n = utf8_tail mem (p + 1) 2 (of_nat h) 0x7ff"
proof -
  have u: "unat (ucast (mem p) :: uint32_t) = 0xe0 + h" using utf8_byte [of "0xe0 + h"] assms by simp
  have mod: "(0xe0 + h) mod 16 = h" using assms by (subst mod_add_left_eq [symmetric]) simp
  have m: "(ucast (mem p) AND 0x0f :: uint32_t) = of_nat h" using utf8_mask [of "0xe0 + h" 4 15 h] mod assms by simp
  show ?thesis using assms(2-3) m by (auto simp: ngx_utf8_decode_def Let_def word_le_nat_alt u)
qed

lemma utf8_head4:
  assumes "mem p = of_nat (0xf0 + h)" "h < 8" "n = 0 \<or> 4 \<le> n"
  shows "ngx_utf8_decode mem p n = utf8_tail mem (p + 1) 3 (of_nat h) 0xffff"
proof -
  have u: "unat (ucast (mem p) :: uint32_t) = 0xf0 + h" using utf8_byte [of "0xf0 + h"] assms by simp
  have mod: "(0xf0 + h) mod 8 = h" using assms by (subst mod_add_left_eq [symmetric]) simp
  have m: "(ucast (mem p) AND 0x07 :: uint32_t) = of_nat h" using utf8_mask [of "0xf0 + h" 3 7 h] mod assms by simp
  show ?thesis using assms(2-3) m by (auto simp: ngx_utf8_decode_def Let_def word_le_nat_alt u)
qed

lemma utf8_encode_cases:
  assumes "0x80 \<le> c" "c \<le> 0x10ffff"
  obtains (two) h d where "2 \<le> h" "h < 32" "d < 64" "c = h * 64 + d" "utf8_encode c = [of_nat (0xc0 + h), of_nat (0x80 + d)]"
  | (three) h d e where "h < 16" "d < 64" "e < 64" "c = (h * 64 + d) * 64 + e" "0x800 \<le> c"
      "utf8_encode c = [of_nat (0xe0 + h), of_nat (0x80 + d), of_nat (0x80 + e)]"
  | (four) h d e f where "h < 8" "d < 64" "e < 64" "f < 64" "c = ((h * 64 + d) * 64 + e) * 64 + f" "0x10000 \<le> c"
      "utf8_encode c = [of_nat (0xf0 + h), of_nat (0x80 + d), of_nat (0x80 + e), of_nat (0x80 + f)]"
proof -
  consider "c < 0x800" | "0x800 \<le> c" "c < 0x10000" | "0x10000 \<le> c" by linarith
  then show thesis
  proof cases
    case 1
    have "2 \<le> c div 64" "c div 64 < 32" using 1 assms(1) by (simp_all add: less_eq_div_iff_mult_less_eq less_mult_imp_div_less)
    then show thesis by (rule two [of "c div 64" "c mod 64"]) (use 1 assms(1) in \<open>simp_all add: utf8_encode_def\<close>)
  next
    case 2
    have d: "c div 64 div 64 = c div 4096" by (simp flip: div_mult2_eq)
    have "c div 64 = c div 64 div 64 * 64 + c div 64 mod 64" by simp
    then have "c = (c div 4096 * 64 + c div 64 mod 64) * 64 + c mod 64" unfolding d by simp
    moreover have "c div 4096 < 16" using 2 by (simp add: less_mult_imp_div_less)
    ultimately show thesis by (intro three [of "c div 4096" "c div 64 mod 64" "c mod 64"]) (use 2 in \<open>simp_all add: utf8_encode_def\<close>)
  next
    case 3
    have d: "c div 64 div 64 = c div 4096" "c div 4096 div 64 = c div 262144" by (simp_all flip: div_mult2_eq)
    have "c div 4096 = c div 4096 div 64 * 64 + c div 4096 mod 64" by simp
    then have e: "c div 4096 = c div 262144 * 64 + c div 4096 mod 64" unfolding d .
    have "c div 64 = c div 64 div 64 * 64 + c div 64 mod 64" by simp
    then have "c = ((c div 262144 * 64 + c div 4096 mod 64) * 64 + c div 64 mod 64) * 64 + c mod 64" unfolding d e [symmetric] by simp
    moreover have "c div 262144 < 8" using assms(2) by (simp add: less_mult_imp_div_less)
    ultimately show thesis by (intro four [of "c div 262144" "c div 4096 mod 64" "c div 64 mod 64" "c mod 64"]) (use 3 in \<open>simp_all add: utf8_encode_def\<close>)
  qed
qed

lemma utf8_tail_char:
  assumes "holds mem p (map (\<lambda>d. of_nat (0x80 + d)) ds)" "\<forall>d\<in>set ds. d < 64" "foldl (\<lambda>a d. a * 64 + d) h ds = c" "length ds = k" "v < c" "c \<le> 0x10ffff"
  shows "utf8_tail mem p k (of_nat h) (of_nat v) = (of_nat c, p + k)"
proof -
  have "(of_nat v :: uint32_t) < of_nat c" using assms(5,6) by (simp add: word_less_nat_alt unat_of_nat)
  then show ?thesis using utf8_tail_ok [OF assms(1,2), of h "of_nat v"] assms(3,4) by (simp add: Let_def)
qed

lemma utf8_decode_ok:
  assumes "0x80 \<le> c" "c \<le> 0x10ffff" "holds mem p (utf8_encode c)" "length (utf8_encode c) \<le> n"
  shows "ngx_utf8_decode mem p n = (of_nat c, p + length (utf8_encode c))"
  using utf8_encode_cases [OF assms(1,2)]
proof cases
  case two: (1 h d)
  have "ngx_utf8_decode mem p n = utf8_tail mem (p + 1) 1 (of_nat h) (of_nat 0x7f)" using utf8_head [of mem p h n] assms(3,4) two by simp
  also have "\<dots> = (of_nat c, p + 1 + 1)" by (rule utf8_tail_char [of _ _ "[d]"]) (use assms two in auto)
  finally show ?thesis using two by simp
next
  case three: (2 h d e)
  have "ngx_utf8_decode mem p n = utf8_tail mem (p + 1) 2 (of_nat h) (of_nat 0x7ff)" using utf8_head3 [of mem p h n] assms(3,4) three by simp
  also have "\<dots> = (of_nat c, p + 1 + 2)" by (rule utf8_tail_char [of _ _ "[d, e]"]) (use assms three in auto)
  finally show ?thesis using three by simp
next
  case four: (3 h d e f)
  have "ngx_utf8_decode mem p n = utf8_tail mem (p + 1) 3 (of_nat h) (of_nat 0xffff)" using utf8_head4 [of mem p h n] assms(3,4) four by simp
  also have "\<dots> = (of_nat c, p + 1 + 3)" by (rule utf8_tail_char [of _ _ "[d, e, f]"]) (use assms four in auto)
  finally show ?thesis using four by simp
qed

lemma utf8_encode_first: "c \<le> 0x10ffff \<Longrightarrow> 0x80 \<le> c \<Longrightarrow> \<not> hd (utf8_encode c) < 0x80"
  by (rule utf8_encode_cases [of c]) (auto simp: word_less_nat_alt unat_of_nat simp del: of_nat_add)

lemma utf8_encode_ascii: "c < 0x80 \<Longrightarrow> utf8_encode c = [of_nat c] \<and> (of_nat c :: u_char) < 0x80 \<and> ((of_nat c :: u_char) = 0 \<longleftrightarrow> c = 0)"
  by (simp add: utf8_encode_def word_less_nat_alt unat_of_nat word_unat_eq_iff)

lemma utf8_encode_length: "c \<le> 0x10ffff \<Longrightarrow> 0 < length (utf8_encode c) \<and> length (utf8_encode c) \<le> 4"
  by (simp add: utf8_encode_def)

subsection \<open>Texts\<close>

definition utf8_text :: "nat list \<Rightarrow> bytes" where
  "utf8_text cs = concat (map utf8_encode cs)"

lemma utf8_text_simps [simp]: "utf8_text [] = []" "utf8_text (c # cs) = utf8_encode c @ utf8_text cs"
  by (simp_all add: utf8_text_def)

lemma utf8_length_loop_ok:
  assumes "holds mem p (utf8_text cs)" "\<forall>c\<in>set cs. c \<le> 0x10ffff" "length (utf8_text cs) \<le> n" "lst = p + length (utf8_text cs)"
  shows "utf8_length_loop mem lst p n k = k + length cs"
  using assms
proof (induction cs arbitrary: p k)
  case Nil
  then show ?case by (simp add: utf8_length_loop.simps)
next
  case (Cons c cs)
  have h: "holds mem p (utf8_encode c)" "holds mem (p + length (utf8_encode c)) (utf8_text cs)" using Cons.prems(1) by (simp_all add: holds_append)
  have c: "c \<le> 0x10ffff" and l: "0 < length (utf8_encode c)" using Cons.prems(2) utf8_encode_length [of c] by auto
  then have p: "p < lst" using Cons.prems(4) by simp
  have first: "mem p = hd (utf8_encode c)" using h(1) l by (cases "utf8_encode c") auto
  have rest: "utf8_length_loop mem lst (p + length (utf8_encode c)) n (k + 1) = k + 1 + length cs"
    by (rule Cons.IH) (use Cons.prems h in auto)
  show ?case
  proof (cases "c < 0x80")
    case True
    then show ?thesis using rest first p utf8_encode_ascii [OF True] by (subst utf8_length_loop.simps) simp
  next
    case False
    have d: "ngx_utf8_decode mem p n = (of_nat c, p + length (utf8_encode c))"
      by (rule utf8_decode_ok) (use False c h(1) Cons.prems(3) in auto)
    moreover have "\<not> (of_nat c :: uint32_t) > 0x10ffff" using c by (simp add: word_less_nat_alt unat_of_nat)
    ultimately show ?thesis using rest first p utf8_encode_first [OF c] False by (subst utf8_length_loop.simps) simp
  qed
qed

lemma utf8_copy_ok:
  "dst + k \<le> src \<or> src + k \<le> dst \<Longrightarrow> utf8_copy mem dst src k = (\<lambda>a. if dst \<le> a \<and> a < dst + k then mem (src + (a - dst)) else mem a)"
proof (induction k arbitrary: mem dst src)
  case (Suc k)
  have "utf8_copy (mem(dst := mem src)) (dst + 1) (src + 1) k =
      (\<lambda>a. if dst + 1 \<le> a \<and> a < dst + 1 + k then (mem(dst := mem src)) (src + 1 + (a - (dst + 1))) else (mem(dst := mem src)) a)"
    by (rule Suc.IH) (use Suc.prems in auto)
  also have "\<dots> = (\<lambda>a. if dst \<le> a \<and> a < dst + Suc k then mem (src + (a - dst)) else mem a)"
  proof
    fix a
    show "(if dst + 1 \<le> a \<and> a < dst + 1 + k then (mem(dst := mem src)) (src + 1 + (a - (dst + 1))) else (mem(dst := mem src)) a) =
        (if dst \<le> a \<and> a < dst + Suc k then mem (src + (a - dst)) else mem a)"
    proof (cases "dst + 1 \<le> a \<and> a < dst + 1 + k")
      case True
      then have "src + 1 + (a - (dst + 1)) = src + (a - dst)" "src + (a - dst) \<noteq> dst" using Suc.prems by auto
      then show ?thesis using True by simp
    next
      case False
      then show ?thesis by (cases "a = dst") auto
    qed
  qed
  finally show ?case by simp
qed (auto simp: fun_eq_iff)

definition utf8_apart :: "ptr \<Rightarrow> ptr \<Rightarrow> nat \<Rightarrow> bool" where
  "utf8_apart dst src k \<longleftrightarrow> dst + k \<le> src \<or> src + k \<le> dst"

text \<open>Writing before the source and its text keeps the text.\<close>

lemma holds_outside: "holds mem a s \<Longrightarrow> (\<And>b. a \<le> b \<Longrightarrow> b < a + length s \<Longrightarrow> mem' b = mem b) \<Longrightarrow> holds mem' a s"
  by (auto simp: holds_nth)

lemma utf8_cpystrn_loop_ok:
  assumes "holds mem src (utf8_text cs @ [0])" "\<forall>c\<in>set cs. 0 < c \<and> c \<le> 0x10ffff" "length (utf8_text cs) \<le> unat len"
    "utf8_apart dst src (length (utf8_text cs) + 1)"
  shows "\<exists>mem'. utf8_cpystrn_loop mem dst src n len = (mem', dst + length (utf8_text (take n cs))) \<and>
    holds mem' dst (utf8_text (take n cs) @ [0]) \<and> (\<forall>a. a < dst \<or> dst + length (utf8_text (take n cs)) < a \<longrightarrow> mem' a = mem a)"
  using assms
proof (induction n arbitrary: mem dst src cs len)
  case 0
  then show ?case by simp
next
  case (Suc n)
  show ?case
  proof (cases cs)
    case Nil
    then show ?thesis using Suc.prems(1) by (simp add: Let_def)
  next
    case (Cons c ds)
    let ?k = "length (utf8_encode c)"
    have c: "0 < c" "c \<le> 0x10ffff" and k: "0 < ?k" using Suc.prems(2) Cons utf8_encode_length [of c] by auto
    have h: "holds mem src (utf8_encode c)" "holds mem (src + ?k) (utf8_text ds @ [0])" using Suc.prems(1) Cons by (simp_all add: holds_append)
    have first: "mem src = hd (utf8_encode c)" using h(1) k by (cases "utf8_encode c") auto
    have len: "?k + length (utf8_text ds) \<le> unat len" using Suc.prems(3) Cons by simp
    have apart: "dst + (?k + length (utf8_text ds) + 1) \<le> src \<or> src + (?k + length (utf8_text ds) + 1) \<le> dst"
      using Suc.prems(4) Cons by (simp add: utf8_apart_def)
    define mem1 where "mem1 = (\<lambda>a. if dst \<le> a \<and> a < dst + ?k then mem (src + (a - dst)) else mem a)"
    have len': "unat (len - of_nat ?k) = unat len - ?k"
    proof -
      have "unat (of_nat ?k :: uint64_t) = ?k" using utf8_encode_length [OF c(2)] by (simp add: unat_of_nat)
      then show ?thesis using len by (simp add: unat_sub word_le_nat_alt)
    qed
    have step: "utf8_cpystrn_loop mem dst src (Suc n) len = utf8_cpystrn_loop mem1 (dst + ?k) (src + ?k) n (len - of_nat ?k)"
    proof (cases "c < 0x80")
      case True
      have "mem1 = mem(dst := mem src)" using utf8_encode_ascii [OF True] by (auto simp: mem1_def fun_eq_iff)
      then show ?thesis using utf8_encode_ascii [OF True] first c(1) by (simp add: Let_def)
    next
      case False
      have "holds (mem(dst := mem src)) src (utf8_encode c)" by (rule holds_outside [OF h(1)]) (use apart in auto)
      then have d: "ngx_utf8_decode (mem(dst := mem src)) src (unat len) = (of_nat c, src + ?k)"
        using utf8_decode_ok [of c _ src "unat len"] False c len by simp
      have "utf8_copy (mem(dst := mem src)) dst src ?k = mem1"
        using apart k by (subst utf8_copy_ok) (auto simp: mem1_def fun_eq_iff)
      moreover have "\<not> (of_nat c :: uint32_t) > 0x10ffff" using c by (simp add: word_less_nat_alt unat_of_nat)
      ultimately show ?thesis using d first utf8_encode_first [OF c(2)] False by (simp add: Let_def)
    qed
    have "holds mem1 (src + ?k) (utf8_text ds @ [0])" by (rule holds_outside [OF h(2)]) (use apart in \<open>auto simp: mem1_def\<close>)
    moreover have "\<forall>c\<in>set ds. 0 < c \<and> c \<le> 0x10ffff" using Suc.prems(2) Cons by simp
    moreover have "length (utf8_text ds) \<le> unat (len - of_nat ?k)" using len len' by simp
    moreover have "utf8_apart (dst + ?k) (src + ?k) (length (utf8_text ds) + 1)" using apart by (auto simp: utf8_apart_def)
    ultimately have "\<exists>mem'. utf8_cpystrn_loop mem1 (dst + ?k) (src + ?k) n (len - of_nat ?k) = (mem', dst + ?k + length (utf8_text (take n ds))) \<and>
        holds mem' (dst + ?k) (utf8_text (take n ds) @ [0]) \<and>
        (\<forall>a. a < dst + ?k \<or> dst + ?k + length (utf8_text (take n ds)) < a \<longrightarrow> mem' a = mem1 a)" by (rule Suc.IH)
    then obtain mem' where i: "utf8_cpystrn_loop mem1 (dst + ?k) (src + ?k) n (len - of_nat ?k) = (mem', dst + ?k + length (utf8_text (take n ds)))"
        "holds mem' (dst + ?k) (utf8_text (take n ds) @ [0])" "\<forall>a. a < dst + ?k \<or> dst + ?k + length (utf8_text (take n ds)) < a \<longrightarrow> mem' a = mem1 a"
      by blast
    have "holds mem' dst (utf8_encode c)" using h(1) i(3) by (auto simp: holds_nth mem1_def)
    then show ?thesis using step i Cons by (auto simp: holds_append mem1_def)
  qed
qed

subsection \<open>Properties\<close>

text \<open>
  C36: On a text of encoded characters \<open>ngx_utf8_length\<close> counts the characters, and \<open>ngx_utf8_cpystrn\<close> with the size \<open>n\<close> writes the first
  \<open>n - 1\<close> of them, whole, a zero byte behind them and nothing else.
\<close>

theorem utf8_text_copy:
  assumes "holds mem src (utf8_text cs @ [0])" "\<forall>c\<in>set cs. 0 < c \<and> c \<le> 0x10ffff" "len = of_nat (length (utf8_text cs))" "length (utf8_text cs) < 2 ^ 64"
    "utf8_apart dst src (length (utf8_text cs) + 1)"
  shows "ngx_utf8_length mem src (length (utf8_text cs)) = length cs \<and>
    (\<exists>mem'. ngx_utf8_cpystrn mem dst src (Suc n) len = (mem', dst + length (utf8_text (take n cs))) \<and>
      holds mem' dst (utf8_text (take n cs) @ [0]) \<and> (\<forall>a. a < dst \<or> dst + length (utf8_text (take n cs)) < a \<longrightarrow> mem' a = mem a))"
proof
  have h: "holds mem src (utf8_text cs)" using assms(1) by (simp add: holds_append)
  show "ngx_utf8_length mem src (length (utf8_text cs)) = length cs"
    using utf8_length_loop_ok [OF h, of "length (utf8_text cs)" _ 0] assms(2) by (simp add: ngx_utf8_length_def)
  have "length (utf8_text cs) \<le> unat len" using assms(3,4) by (simp add: unat_of_nat)
  then show "\<exists>mem'. ngx_utf8_cpystrn mem dst src (Suc n) len = (mem', dst + length (utf8_text (take n cs))) \<and>
      holds mem' dst (utf8_text (take n cs) @ [0]) \<and> (\<forall>a. a < dst \<or> dst + length (utf8_text (take n cs)) < a \<longrightarrow> mem' a = mem a)"
    using utf8_cpystrn_loop_ok [OF assms(1,2) _ assms(5)] by (simp add: ngx_utf8_cpystrn_def)
qed

text \<open>The letter A, the euro sign and a musical clef; two of them are copied.\<close>

lemma utf8_text_copy_witness:
  "ngx_utf8_length (mem_at 10 (utf8_text [65, 0x20ac, 0x1d11e] @ [0])) 10 8 = 3 \<and>
   (\<exists>mem'. ngx_utf8_cpystrn (mem_at 10 (utf8_text [65, 0x20ac, 0x1d11e] @ [0])) 100 10 3 8 = (mem', 104) \<and> holds mem' 100 [65, 0xe2, 0x82, 0xac, 0])"
proof -
  have t: "utf8_text [65, 0x20ac, 0x1d11e] = [65, 0xe2, 0x82, 0xac, 0xf0, 0x9d, 0x84, 0x9e]" "utf8_text (take 2 [65, 0x20ac, 0x1d11e]) = [65, 0xe2, 0x82, 0xac]"
    by (simp_all add: utf8_encode_def take_Cons')
  let ?m = "mem_at 10 (utf8_text [65, 0x20ac, 0x1d11e] @ [0])"
  have "ngx_utf8_length ?m 10 (length (utf8_text [65, 0x20ac, 0x1d11e])) = length [65, 0x20ac, 0x1d11e :: nat] \<and>
    (\<exists>mem'. ngx_utf8_cpystrn ?m 100 10 (Suc 2) 8 = (mem', 100 + length (utf8_text (take 2 [65, 0x20ac, 0x1d11e]))) \<and>
      holds mem' 100 (utf8_text (take 2 [65, 0x20ac, 0x1d11e]) @ [0]) \<and>
      (\<forall>a. a < 100 \<or> 100 + length (utf8_text (take 2 [65, 0x20ac, 0x1d11e])) < a \<longrightarrow> mem' a = ?m a))"
    by (rule utf8_text_copy) (simp_all add: mem_at_def utf8_encode_def utf8_apart_def)
  moreover have "length [65, 0xe2, 0x82, 0xac, 0xf0, 0x9d, 0x84, 0x9e :: u_char] = 8" "length [65, 0x20ac, 0x1d11e :: nat] = 3"
    "100 + length [65, 0xe2, 0x82, 0xac :: u_char] = 104" "Suc 2 = 3" "[65, 0xe2, 0x82, 0xac] @ [0] = [65, 0xe2, 0x82, 0xac, 0 :: u_char]" by simp_all
  ultimately show ?thesis unfolding t by metis
qed

end
