(* ===== verification/Ngx_Http_Args.thy ===== *)
theory Ngx_Http_Args
  imports Ngx_Http_Request_Line "HOL-Library.Sublist"
begin

text \<open>
  URIs and arguments, \<open>http/ngx_http_parse.c\<close>: \<open>ngx_http_parse_unsafe_uri\<close>, \<open>ngx_http_arg\<close>, \<open>ngx_http_split_args\<close> and
  \<open>ngx_http_parse_multi_header_lines\<close>, with the comparison and the searches of \<open>core/ngx_string.c\<close> that they call.  The flag for a message
  in the log is left out; a value that is not wanted, a null pointer in the code, is \<open>None\<close>.
\<close>

subsection \<open>Strings in memory\<close>

record ngx_str_t =
  str_len :: nat
  str_data :: ptr

definition tolower :: "u_char \<Rightarrow> u_char" where
  "tolower c = (if c_A \<le> c \<and> c \<le> c_Z then c OR 0x20 else c)"

fun ngx_strncasecmp :: "memory \<Rightarrow> ptr \<Rightarrow> ptr \<Rightarrow> nat \<Rightarrow> int" where
  "ngx_strncasecmp mem s1 s2 0 = 0"
| "ngx_strncasecmp mem s1 s2 (Suc n) =
     (let c1 = tolower (mem s1);
          c2 = tolower (mem s2)
      in if c1 = c2 then
           if c1 \<noteq> 0 then ngx_strncasecmp mem (s1 + 1) (s2 + 1) n else 0
         else uint c1 - uint c2)"

function mem_strlchr :: "memory \<Rightarrow> ptr \<Rightarrow> ptr \<Rightarrow> u_char \<Rightarrow> ptr option" where
  "mem_strlchr mem p lst c =
     (if p < lst then if mem p = c then Some p else mem_strlchr mem (p + 1) lst c
      else None)"
  by pat_completeness auto
termination by (relation "measure (\<lambda>(mem, p, lst, c). lst - p)") auto

declare mem_strlchr.simps [simp del]

function strlcasestrn_loop :: "memory \<Rightarrow> ptr \<Rightarrow> ptr \<Rightarrow> u_char \<Rightarrow> ptr \<Rightarrow> nat \<Rightarrow> ptr option" where
  "strlcasestrn_loop mem s1 lst c2 s2 n =
     (if s1 \<ge> lst then None
      else if tolower (mem s1) \<noteq> c2 \<or> ngx_strncasecmp mem (s1 + 1) s2 n \<noteq> 0 then strlcasestrn_loop mem (s1 + 1) lst c2 s2 n
      else Some s1)"
  by pat_completeness auto
termination by (relation "measure (\<lambda>(mem, s1, lst, c2, s2, n). lst - s1)") auto

declare strlcasestrn_loop.simps [simp del]

text \<open>\<open>n\<close> is the length of the text at \<open>s2\<close> less one.\<close>

definition ngx_strlcasestrn :: "memory \<Rightarrow> ptr \<Rightarrow> ptr \<Rightarrow> ptr \<Rightarrow> nat \<Rightarrow> ptr option" where
  "ngx_strlcasestrn mem s1 lst s2 n = strlcasestrn_loop mem s1 (lst - n) (tolower (mem s2)) (s2 + 1) n"

lemma strlcasestrn_range: "strlcasestrn_loop mem s1 lst c2 s2 n = Some p \<Longrightarrow> s1 \<le> p \<and> p < lst"
proof (induction mem s1 lst c2 s2 n rule: strlcasestrn_loop.induct)
  case (1 mem s1 lst c2 s2 n)
  then show ?case by (subst (asm) strlcasestrn_loop.simps) (auto split: if_splits)
qed

subsection \<open>Unsafe URIs\<close>

text \<open>The results are the return code, the length of the URI and the arguments.\<close>

fun unsafe_loop :: "memory \<Rightarrow> ptr \<Rightarrow> nat \<Rightarrow> ngx_str_t \<Rightarrow> ngx_str_t \<Rightarrow> int \<times> ngx_str_t \<times> ngx_str_t" where
  "unsafe_loop mem p 0 uri args = (NGX_OK, uri, args)"
| "unsafe_loop mem p (Suc n) uri args =
     (let len = Suc n;
          ch = mem p;
          p = p + 1
      in if is_usual ch then unsafe_loop mem p n uri args
         else if ch = c_quest then (NGX_OK, uri\<lparr>str_len := str_len uri - len\<rparr>, \<lparr>str_len = len - 1, str_data = p\<rparr>)
         else if ch = c_NUL then (NGX_ERROR, uri, args)
         else if ch = c_slash \<and> len > 2 \<and> mem p = c_dot \<and> mem (p + 1) = c_dot \<and> mem (p + 2) = c_slash then (NGX_ERROR, uri, args)
         else unsafe_loop mem p n uri args)"

definition ngx_http_parse_unsafe_uri :: "memory \<Rightarrow> ngx_str_t \<Rightarrow> ngx_str_t \<Rightarrow> int \<times> ngx_str_t \<times> ngx_str_t" where
  "ngx_http_parse_unsafe_uri mem uri args =
     (let len = str_len uri;
          p = str_data uri
      in if len = 0 \<or> mem p = c_quest then (NGX_ERROR, uri, args)
         else if mem p = c_dot \<and> len = 3 \<and> mem (p + 1) = c_dot \<and> mem (p + 2) = c_slash then (NGX_ERROR, uri, args)
         else unsafe_loop mem p len uri args)"

subsection \<open>Arguments\<close>

text \<open>The name has at least one byte.\<close>

function arg_loop :: "memory \<Rightarrow> ngx_str_t \<Rightarrow> ptr \<Rightarrow> ptr \<Rightarrow> ptr \<Rightarrow> nat \<Rightarrow> ngx_str_t \<Rightarrow> int \<times> ngx_str_t" where
  "arg_loop mem args p lst name len val =
     (if p < lst then
        case ngx_strlcasestrn mem p (lst - 1) name (len - 1) of
          None \<Rightarrow> (NGX_DECLINED, val)
        | Some p \<Rightarrow>
            if (p = str_data args \<or> mem (p - 1) = c_amp) \<and> mem (p + len) = c_eq then
              let data = p + len + 1;
                  q = (case mem_strlchr mem p lst c_amp of None \<Rightarrow> str_data args + str_len args | Some q \<Rightarrow> q)
              in (NGX_OK, \<lparr>str_len = q - data, str_data = data\<rparr>)
            else arg_loop mem args (p + 1) lst name len val
      else (NGX_DECLINED, val))"
  by pat_completeness auto
termination
proof (relation "measure (\<lambda>(mem, args, p, lst, name, len, val). lst - p)", goal_cases)
  case (2 mem args p lst name len val q)
  then show ?case using strlcasestrn_range [of mem p "lst - 1 - (len - 1)"] by (fastforce simp: ngx_strlcasestrn_def)
qed auto

declare arg_loop.simps [simp del]

definition ngx_http_arg :: "memory \<Rightarrow> ngx_str_t \<Rightarrow> ptr \<Rightarrow> nat \<Rightarrow> ngx_str_t \<Rightarrow> int \<times> ngx_str_t" where
  "ngx_http_arg mem args name len val =
     (if str_len args = 0 then (NGX_DECLINED, val)
      else arg_loop mem args (str_data args) (str_data args + str_len args) name len val)"

definition ngx_http_split_args :: "memory \<Rightarrow> ngx_str_t \<Rightarrow> ngx_str_t \<Rightarrow> ngx_str_t \<times> ngx_str_t" where
  "ngx_http_split_args mem uri args =
     (let lst = str_data uri + str_len uri
      in case mem_strlchr mem (str_data uri) lst c_quest of
           Some p \<Rightarrow> (uri\<lparr>str_len := p - str_data uri\<rparr>, \<lparr>str_len = lst - (p + 1), str_data = p + 1\<rparr>)
         | None \<Rightarrow> (uri, args\<lparr>str_len := 0\<rparr>))"

subsection \<open>What is unsafe\<close>

definition up_path :: bytes where
  "up_path = [c_slash, c_dot, c_dot, c_slash]"

definition uri_path :: "bytes \<Rightarrow> bytes" where
  "uri_path s = takeWhile (\<lambda>c. c \<noteq> c_quest) s"

text \<open>What the search for \<open>/../\<close> looks at: the path and, when there are no arguments, one byte behind it.\<close>

definition uri_view :: "bytes \<Rightarrow> u_char \<Rightarrow> bytes" where
  "uri_view s nx = (if uri_path s = s then s @ [nx] else uri_path s)"

lemma uri_path_simps [simp]: "uri_path [] = []" "uri_path (c # s) = (if c = c_quest then [] else c # uri_path s)"
  by (simp_all add: uri_path_def)

lemma uri_view_simps:
  "uri_view [] nx = [nx]" "uri_view (c # s) nx = (if c = c_quest then [] else c # uri_view s nx)"
  by (simp_all add: uri_view_def)

lemma usual_bytes: "is_usual c \<Longrightarrow> c \<noteq> c_quest \<and> c \<noteq> c_NUL \<and> c \<noteq> c_slash"
  by (auto simp: is_usual_iff)

lemma up_prefix:
  assumes "holds mem p s" "nx = mem (p + length s)"
  shows "prefix [c_dot, c_dot, c_slash] (uri_view s nx) \<longleftrightarrow> 2 \<le> length s \<and> mem p = c_dot \<and> mem (p + 1) = c_dot \<and> mem (p + 2) = c_slash"
proof (cases s)
  case Nil
  then show ?thesis by (simp add: uri_view_simps)
next
  case (Cons a s1)
  show ?thesis
  proof (cases s1)
    case Nil
    then show ?thesis using Cons by (simp add: uri_view_simps)
  next
    case c2: (Cons b s2)
    show ?thesis using assms Cons c2 by (cases s2) (auto simp: uri_view_simps)
  qed
qed

lemma unsafe_loop_ok:
  assumes "holds mem p s" "nx = mem (p + length s)"
  shows "unsafe_loop mem p (length s) uri args =
    (if c_NUL \<in> set (uri_path s) \<or> sublist up_path (uri_view s nx) then (NGX_ERROR, uri, args)
     else if uri_path s = s then (NGX_OK, uri, args)
     else (NGX_OK, uri\<lparr>str_len := str_len uri - (length s - length (uri_path s))\<rparr>,
       \<lparr>str_len = length s - length (uri_path s) - 1, str_data = p + length (uri_path s) + 1\<rparr>))"
  using assms
proof (induction s arbitrary: p)
  case Nil
  then show ?case by (simp add: uri_view_simps up_path_def sublist_Cons_right)
next
  case (Cons c s)
  have p: "mem p = c" "holds mem (p + 1) s" "nx = mem (p + 1 + length s)" using Cons.prems by auto
  note IH = Cons.IH [OF p(2,3)]
  have pre: "prefix [c_dot, c_dot, c_slash] (uri_view s nx) \<longleftrightarrow> 2 \<le> length s \<and> mem (p + 1) = c_dot \<and> mem (p + 1 + 1) = c_dot \<and> mem (p + 1 + 2) = c_slash"
    by (rule up_prefix [OF p(2,3)])
  show ?case
  proof (cases "c = c_slash")
    case True
    have "sublist up_path (uri_view (c # s) nx) \<longleftrightarrow> prefix [c_dot, c_dot, c_slash] (uri_view s nx) \<or> sublist up_path (uri_view s nx)"
      using True by (simp add: uri_view_simps sublist_Cons_right up_path_def)
    moreover have "\<not> is_usual c" using True usual_bytes by blast
    ultimately show ?thesis using True IH pre p(1) by (auto simp: Let_def)
  next
    case False
    then have "c \<noteq> c_quest \<Longrightarrow> sublist up_path (uri_view (c # s) nx) \<longleftrightarrow> sublist up_path (uri_view s nx)"
      by (simp add: uri_view_simps sublist_Cons_right up_path_def)
    moreover have "sublist up_path (uri_view (c_quest # s) nx) = False" by (simp add: uri_view_simps up_path_def)
    ultimately show ?thesis using False IH p(1) usual_bytes [of c] by (auto simp: Let_def)
  qed
qed

text \<open>
  C35: \<open>ngx_http_parse_unsafe_uri\<close> refuses exactly the texts that are empty or begin with the arguments, the bytes \<open>../\<close>, those with a
  zero byte in the path, and those with \<open>/../\<close> in it, where the byte behind the text counts when there are no arguments; it cuts the others at
  the question mark.
\<close>

theorem unsafe_uri_spec:
  assumes "holds mem p s"
  shows "ngx_http_parse_unsafe_uri mem \<lparr>str_len = length s, str_data = p\<rparr> args =
    (if uri_path s = [] \<or> s = [c_dot, c_dot, c_slash] \<or> c_NUL \<in> set (uri_path s) \<or> sublist up_path (uri_view s (mem (p + length s)))
     then (NGX_ERROR, \<lparr>str_len = length s, str_data = p\<rparr>, args)
     else (NGX_OK, \<lparr>str_len = length (uri_path s), str_data = p\<rparr>,
       if uri_path s = s then args
       else \<lparr>str_len = length s - length (uri_path s) - 1, str_data = p + length (uri_path s) + 1\<rparr>))"
proof (cases s)
  case Nil
  then show ?thesis by (simp add: ngx_http_parse_unsafe_uri_def)
next
  case (Cons c s1)
  have le: "length (uri_path s) \<le> length s" by (simp add: uri_path_def length_takeWhile_le)
  have dots: "mem p = c_dot \<and> length s = 3 \<and> mem (p + 1) = c_dot \<and> mem (p + 2) = c_slash \<longleftrightarrow> s = [c_dot, c_dot, c_slash]"
  proof
    assume a: "mem p = c_dot \<and> length s = 3 \<and> mem (p + 1) = c_dot \<and> mem (p + 2) = c_slash"
    then obtain x y z where s: "s = [x, y, z]" by (auto simp: numeral_3_eq_3 length_Suc_conv)
    then show "s = [c_dot, c_dot, c_slash]" using a assms by simp
  next
    assume "s = [c_dot, c_dot, c_slash]"
    then show "mem p = c_dot \<and> length s = 3 \<and> mem (p + 1) = c_dot \<and> mem (p + 2) = c_slash" using assms by simp
  qed
  have q: "uri_path s = [] \<longleftrightarrow> mem p = c_quest" and s: "length s \<noteq> 0" using assms Cons by auto
  show ?thesis
    unfolding ngx_http_parse_unsafe_uri_def Let_def ngx_str_t.simps dots q unsafe_loop_ok [OF assms refl]
    using le s q dots by (auto simp del: unsafe_loop.simps)
qed

lemma unsafe_uri_spec_witness:
  "fst (ngx_http_parse_unsafe_uri (mem_at 5 (bs ''/a/../b'')) \<lparr>str_len = 7, str_data = 5\<rparr> \<lparr>str_len = 0, str_data = 0\<rparr>) = NGX_ERROR \<and>
   fst (ngx_http_parse_unsafe_uri (mem_at 5 (bs ''../a/..'')) \<lparr>str_len = 7, str_data = 5\<rparr> \<lparr>str_len = 0, str_data = 0\<rparr>) = NGX_OK"
proof -
  have l: "length (bs ''/a/../b'') = 7" "length (bs ''../a/..'') = 7" by simp_all
  have "mem_at 5 (bs ''../a/..'') (5 + length (bs ''../a/..'')) = 0" unfolding l(2) by (simp add: mem_at_def)
  then have v: "\<not> sublist up_path (uri_view (bs ''../a/..'') (mem_at 5 (bs ''../a/..'') (5 + length (bs ''../a/..''))))"
    by (simp add: up_path_def uri_view_simps sublist_Cons_right)
  have w: "sublist up_path (uri_view (bs ''/a/../b'') x)" for x
    by (simp add: up_path_def uri_view_simps sublist_Cons_right)
  have "fst (ngx_http_parse_unsafe_uri (mem_at 5 (bs ''/a/../b'')) \<lparr>str_len = length (bs ''/a/../b''), str_data = 5\<rparr> \<lparr>str_len = 0, str_data = 0\<rparr>) = NGX_ERROR"
    using w by (subst unsafe_uri_spec [OF holds_mem_at]) simp
  moreover have "fst (ngx_http_parse_unsafe_uri (mem_at 5 (bs ''../a/..'')) \<lparr>str_len = length (bs ''../a/..''), str_data = 5\<rparr> \<lparr>str_len = 0, str_data = 0\<rparr>) = NGX_OK"
    using v by (subst unsafe_uri_spec [OF holds_mem_at]) (simp add: uri_path_def)
  ultimately show ?thesis unfolding l by blast
qed

subsection \<open>What an argument is\<close>

text \<open>The items of a query, and the rest of the first one that is the name and an equals sign.\<close>

function split_amp :: "bytes \<Rightarrow> bytes list" where
  "split_amp s =
     takeWhile (\<lambda>c. c \<noteq> c_amp) s # (case dropWhile (\<lambda>c. c \<noteq> c_amp) s of [] \<Rightarrow> [] | _ # t \<Rightarrow> split_amp t)"
  by pat_completeness auto
termination
proof (relation "measure length", goal_cases)
  case (2 s c t)
  then show ?case using length_dropWhile_le [of "\<lambda>c. c \<noteq> c_amp" s] by simp
qed simp

declare split_amp.simps [simp del]

definition is_arg :: "bytes \<Rightarrow> bytes \<Rightarrow> bool" where
  "is_arg name it \<longleftrightarrow> length name < length it \<and> map tolower (take (length name) it) = map tolower name \<and> it ! length name = c_eq"

definition args_lookup :: "bytes \<Rightarrow> bytes \<Rightarrow> bytes option" where
  "args_lookup name s = map_option (drop (length name + 1)) (find (is_arg name) (split_amp s))"

text \<open>The same, byte by byte; the flag is whether an item begins here.\<close>

fun arg_scan :: "bytes \<Rightarrow> bool \<Rightarrow> bytes \<Rightarrow> bytes option" where
  "arg_scan name f [] = None"
| "arg_scan name f (c # s) =
     (if f \<and> is_arg name (c # s) then Some (takeWhile (\<lambda>c. c \<noteq> c_amp) (drop (length name) s))
      else arg_scan name (c = c_amp) s)"

lemma tolower_unat: "unat (tolower c) = (if 65 \<le> unat c \<and> unat c \<le> 90 then unat c + 32 else unat c)"
proof (cases "65 \<le> unat c \<and> unat c \<le> 90")
  case True
  have "list_all (\<lambda>n. unat ((word_of_nat n :: u_char) OR 0x20) = n + 32) [65..<91]" by code_simp
  moreover have "unat c \<in> set [65..<91]" using True unfolding set_upt by simp
  ultimately have "unat (word_of_nat (unat c) OR 0x20 :: u_char) = unat c + 32" unfolding list_all_iff by blast
  then show ?thesis using True by (simp add: tolower_def word_le_nat_alt)
next
  case False
  then have "tolower c = c" by (auto simp: tolower_def word_le_nat_alt)
  then show ?thesis using False by simp
qed

lemma tolower_keeps: "c \<in> {c_amp, c_NUL, c_eq} \<Longrightarrow> tolower c' = tolower c \<longleftrightarrow> c' = c"
  using tolower_unat [of c] tolower_unat [of c'] by (auto simp: word_unat_eq_iff split: if_splits)

lemma strncasecmp_eq:
  assumes "holds mem p s" "holds mem q t" "length s = n" "length t = n" "c_NUL \<notin> set t"
  shows "ngx_strncasecmp mem p q n = 0 \<longleftrightarrow> map tolower s = map tolower t"
  using assms
proof (induction n arbitrary: p q s t)
  case (Suc n)
  obtain c s1 d t1 where s: "s = c # s1" "t = d # t1" using Suc.prems(3,4) by (cases s; cases t) auto
  have "tolower d \<noteq> c_NUL"
    using tolower_keeps [of c_NUL d] Suc.prems(5) s by (auto simp: tolower_def split: if_splits)
  moreover have "ngx_strncasecmp mem (p + 1) (q + 1) n = 0 \<longleftrightarrow> map tolower s1 = map tolower t1"
    by (rule Suc.IH) (use Suc.prems s in auto)
  moreover have "uint (tolower c) - uint (tolower d) = 0 \<longleftrightarrow> tolower c = tolower d" by (simp add: word_uint_eq_iff)
  ultimately show ?case using Suc.prems(1,2) s by (auto simp: Let_def)
qed simp

lemma holds_take: "holds mem p s \<Longrightarrow> holds mem p (take k s)"
  by (auto simp: holds_nth)

lemma holds_drop: "holds mem p s \<Longrightarrow> k \<le> length s \<Longrightarrow> holds mem (p + k) (drop k s)"
  by (metis append_take_drop_id holds_append length_take min.absorb2)

subsection \<open>The search\<close>

definition arg_match :: "bytes \<Rightarrow> bytes \<Rightarrow> bool" where
  "arg_match name s \<longleftrightarrow> length name < length s \<and> map tolower (take (length name) s) = map tolower name"

lemma strlcasestrn_step:
  assumes "holds mem p s" "holds mem q name" "name \<noteq> []" "c_NUL \<notin> set name" "lst = p + length s" "s \<noteq> []"
  shows "ngx_strlcasestrn mem p (lst - 1) q (length name - 1) =
    (if arg_match name s then Some p else ngx_strlcasestrn mem (p + 1) (lst - 1) q (length name - 1))"
proof -
  obtain d t where name: "name = d # t" using assms(3) by (cases name) auto
  obtain c r where s: "s = c # r" using assms(6) by (cases s) auto
  have l: "lst - 1 - length t = lst - Suc (length t)" by simp
  show ?thesis
  proof (cases "p < lst - Suc (length t)")
    case False
    then have "\<not> arg_match name s" using assms(5) name by (auto simp: arg_match_def)
    moreover have "\<not> p + 1 < lst - Suc (length t)" using False by simp
    ultimately show ?thesis using False name
      by (simp add: ngx_strlcasestrn_def strlcasestrn_loop.simps [of mem p] strlcasestrn_loop.simps [of mem "Suc p"])
  next
    case True
    then have len: "length t < length r" using assms(5) s by simp
    have "holds mem (p + 1) (take (length t) r)" using assms(1) s holds_take by auto
    moreover have "holds mem (q + 1) t" "c_NUL \<notin> set t" using assms(2,4) name by auto
    ultimately have "ngx_strncasecmp mem (p + 1) (q + 1) (length t) = 0 \<longleftrightarrow> map tolower (take (length t) r) = map tolower t"
      using len by (intro strncasecmp_eq) auto
    then have "arg_match name s \<longleftrightarrow> tolower (mem p) = tolower (mem q) \<and> ngx_strncasecmp mem (p + 1) (q + 1) (length t) = 0"
      using len assms(1,2) name s by (auto simp: arg_match_def)
    then show ?thesis using True name
      by (simp add: ngx_strlcasestrn_def strlcasestrn_loop.simps [of mem p])
  qed
qed

lemma arg_loop_step:
  assumes "holds mem p s" "holds mem q name" "name \<noteq> []" "c_NUL \<notin> set name" "lst = p + length s" "s \<noteq> []"
  shows "arg_loop mem args p lst q (length name) val =
    (if (p = str_data args \<or> mem (p - 1) = c_amp) \<and> is_arg name s then
       (NGX_OK, \<lparr>str_len = (case mem_strlchr mem p lst c_amp of None \<Rightarrow> str_data args + str_len args | Some r \<Rightarrow> r) - (p + length name + 1),
         str_data = p + length name + 1\<rparr>)
     else arg_loop mem args (p + 1) lst q (length name) val)"
proof (cases "arg_match name s")
  case True
  then have "mem (p + length name) = s ! length name" using assms(1) by (auto simp: holds_nth arg_match_def)
  then have "is_arg name s \<longleftrightarrow> mem (p + length name) = c_eq" using True by (auto simp: is_arg_def arg_match_def)
  then show ?thesis using True assms strlcasestrn_step [OF assms]
    by (subst arg_loop.simps) (simp add: Let_def)
next
  case False
  then have "\<not> is_arg name s" by (auto simp: is_arg_def arg_match_def)
  moreover have "arg_loop mem args p lst q (length name) val = arg_loop mem args (p + 1) lst q (length name) val"
  proof (cases "p + 1 < lst")
    case True
    then show ?thesis using False strlcasestrn_step [OF assms]
      by (simp add: arg_loop.simps [of mem args p] arg_loop.simps [of mem args "Suc p"])
  next
    case last: False
    then have "ngx_strlcasestrn mem (p + 1) (lst - 1) q (length name - 1) = None"
    proof -
      have "lst - 1 - (length name - 1) \<le> p + 1" using last by linarith
      then show ?thesis unfolding ngx_strlcasestrn_def strlcasestrn_loop.simps [of mem "p + 1"] by simp
    qed
    then show ?thesis using False last strlcasestrn_step [OF assms]
      by (simp add: arg_loop.simps [of mem args p] arg_loop.simps [of mem args "Suc p"])
  qed
  ultimately show ?thesis by simp
qed

lemma mem_strlchr_ok:
  assumes "holds mem p s" "lst = p + length s"
  shows "(case mem_strlchr mem p lst c of None \<Rightarrow> lst | Some r \<Rightarrow> r) = p + length (takeWhile (\<lambda>b. b \<noteq> c) s)"
  using assms
proof (induction s arbitrary: p)
  case (Cons b s)
  show ?case using Cons.IH [of "p + 1"] Cons.prems by (subst mem_strlchr.simps) simp
qed (simp add: mem_strlchr.simps)

text \<open>A name without an ampersand does not reach into the next item.\<close>

lemma arg_name_plain:
  assumes "map tolower (take (length name) s) = map tolower name" "c_amp \<notin> set name" "length name < length s"
  shows "takeWhile (\<lambda>c. c \<noteq> c_amp) s = take (length name) s @ takeWhile (\<lambda>c. c \<noteq> c_amp) (drop (length name) s)"
proof -
  have "c \<noteq> c_amp" if "c \<in> set (take (length name) s)" for c
  proof
    assume "c = c_amp"
    then have "tolower c_amp \<in> set (map tolower name)" using that by (metis assms(1) image_eqI list.set_map)
    then obtain d where "d \<in> set name" "tolower d = tolower c_amp" by force
    then show False using assms(2) tolower_keeps [of c_amp d] by auto
  qed
  then have "takeWhile (\<lambda>c. c \<noteq> c_amp) (take (length name) s @ drop (length name) s) =
      take (length name) s @ takeWhile (\<lambda>c. c \<noteq> c_amp) (drop (length name) s)" by (intro takeWhile_append2) auto
  then show ?thesis unfolding append_take_drop_id .
qed

lemma is_arg_item:
  assumes "c_amp \<notin> set name"
  shows "is_arg name (takeWhile (\<lambda>c. c \<noteq> c_amp) s) \<longleftrightarrow> is_arg name s"
proof
  assume a: "is_arg name (takeWhile (\<lambda>c. c \<noteq> c_amp) s)"
  have "s = takeWhile (\<lambda>c. c \<noteq> c_amp) s @ dropWhile (\<lambda>c. c \<noteq> c_amp) s" by simp
  moreover have "is_arg name (t @ u)" if "is_arg name t" for t u using that by (auto simp: is_arg_def nth_append)
  ultimately show "is_arg name s" using a by metis
next
  assume a: "is_arg name s"
  then obtain u where u: "drop (length name) s = c_eq # u" by (metis is_arg_def Cons_nth_drop_Suc)
  have "takeWhile (\<lambda>c. c \<noteq> c_amp) s = take (length name) s @ c_eq # takeWhile (\<lambda>c. c \<noteq> c_amp) u"
    using arg_name_plain [OF _ assms, of s] a u by (simp add: is_arg_def)
  then show "is_arg name (takeWhile (\<lambda>c. c \<noteq> c_amp) s)" using a by (simp add: is_arg_def nth_append)
qed

lemma arg_scan_item:
  assumes "c_amp \<notin> set name"
  shows "arg_scan name f s =
    (if f \<and> is_arg name s then Some (drop (length name + 1) (takeWhile (\<lambda>c. c \<noteq> c_amp) s))
     else case dropWhile (\<lambda>c. c \<noteq> c_amp) s of [] \<Rightarrow> None | _ # t \<Rightarrow> arg_scan name True t)"
proof (induction s arbitrary: f)
  case Nil
  then show ?case by (simp add: is_arg_def)
next
  case (Cons c s)
  show ?case
  proof (cases "f \<and> is_arg name (c # s)")
    case True
    then have a: "map tolower (take (length name) (c # s)) = map tolower name" "length name < length (c # s)" by (auto simp: is_arg_def)
    obtain u where u: "drop (length name) (c # s) = c_eq # u" using True by (metis is_arg_def Cons_nth_drop_Suc)
    have "drop (length name) s = drop 1 (drop (length name) (c # s))" by simp
    then have "drop (length name) s = u" unfolding u by simp
    moreover have "length (take (length name) (c # s)) = length name" using a by simp
    ultimately show ?thesis using True arg_name_plain [OF a(1) assms a(2)] u by simp
  next
    case False
    then show ?thesis using Cons.IH [of "c = c_amp"] by (auto split: if_splits)
  qed
qed

lemma arg_scan_lookup:
  assumes "c_amp \<notin> set name"
  shows "arg_scan name True s = args_lookup name s"
proof (induction s rule: split_amp.induct)
  case (1 s)
  show ?case
  proof (cases "dropWhile (\<lambda>c. c \<noteq> c_amp) s")
    case Nil
    then show ?thesis using is_arg_item [OF assms, of s]
      by (subst arg_scan_item [OF assms]) (simp add: args_lookup_def split_amp.simps [of s] del: dropWhile_eq_Nil_conv)
  next
    case (Cons c t)
    then show ?thesis using 1 is_arg_item [OF assms, of s]
      by (subst arg_scan_item [OF assms]) (simp add: args_lookup_def split_amp.simps [of s] del: dropWhile_eq_Cons_conv)
  qed
qed

lemma arg_loop_ok:
  assumes "holds mem p s" "holds mem q name" "name \<noteq> []" "c_NUL \<notin> set name" "c_amp \<notin> set name"
    "str_data args + str_len args = p + length s" "str_data args \<le> p" "f \<longleftrightarrow> p = str_data args \<or> mem (p - 1) = c_amp"
  shows "case arg_scan name f s of
      None \<Rightarrow> arg_loop mem args p (p + length s) q (length name) val = (NGX_DECLINED, val)
    | Some v \<Rightarrow> \<exists>d. arg_loop mem args p (p + length s) q (length name) val = (NGX_OK, \<lparr>str_len = length v, str_data = d\<rparr>) \<and> holds mem d v \<and>
        p \<le> d \<and> d + length v \<le> p + length s"
  using assms
proof (induction s arbitrary: p f)
  case Nil
  then show ?case by (simp add: arg_loop.simps)
next
  case (Cons c s)
  note step = arg_loop_step [OF Cons.prems(1-4) refl list.simps(3), of args val]
  show ?case
  proof (cases "f \<and> is_arg name (c # s)")
    case True
    define u where "u = drop (length name) s"
    have a: "map tolower (take (length name) (c # s)) = map tolower name" "length name < length (c # s)" using True by (auto simp: is_arg_def)
    obtain e where e: "drop (length name) (c # s) = c_eq # e" using True by (metis is_arg_def Cons_nth_drop_Suc)
    have "u = drop 1 (drop (length name) (c # s))" by (simp add: u_def)
    then have "e = u" unfolding e by simp
    then have tw: "takeWhile (\<lambda>c. c \<noteq> c_amp) (c # s) = take (length name) (c # s) @ c_eq # takeWhile (\<lambda>c. c \<noteq> c_amp) u"
      using arg_name_plain [OF a(1) Cons.prems(5) a(2)] e by simp
    have "length (take (length name) (c # s)) = length name" using a(2) by simp
    then have "length (takeWhile (\<lambda>c. c \<noteq> c_amp) (c # s)) = length name + 1 + length (takeWhile (\<lambda>c. c \<noteq> c_amp) u)"
      unfolding tw length_append by simp
    then have l: "(case mem_strlchr mem p (p + length (c # s)) c_amp of None \<Rightarrow> p + length (c # s) | Some r \<Rightarrow> r) - (p + length name + 1) =
        length (takeWhile (\<lambda>c. c \<noteq> c_amp) u)"
      using mem_strlchr_ok [OF Cons.prems(1) refl, of c_amp] by (simp del: takeWhile.simps)
    have "holds mem (p + length name + 1) u" using holds_drop [of mem "p + 1" s "length name"] Cons.prems(1) a(2) by (simp add: u_def add.commute)
    then have "holds mem (p + length name + 1) (takeWhile (\<lambda>c. c \<noteq> c_amp) u)"
      by (metis holds_append takeWhile_dropWhile_id)
    moreover have "length (takeWhile (\<lambda>c. c \<noteq> c_amp) u) \<le> length s - length name" using length_takeWhile_le [of _ u] by (simp add: u_def)
    moreover have "arg_loop mem args p (p + length (c # s)) q (length name) val =
        (NGX_OK, \<lparr>str_len = length (takeWhile (\<lambda>c. c \<noteq> c_amp) u), str_data = p + length name + 1\<rparr>)"
      using True Cons.prems(8) unfolding step Cons.prems(6) l by simp
    moreover have "arg_scan name f (c # s) = Some (takeWhile (\<lambda>c. c \<noteq> c_amp) u)" using True by (simp add: u_def)
    ultimately show ?thesis using a(2) by auto
  next
    case False
    have "case arg_scan name (c = c_amp) s of
      None \<Rightarrow> arg_loop mem args (p + 1) (p + 1 + length s) q (length name) val = (NGX_DECLINED, val)
    | Some v \<Rightarrow> \<exists>d. arg_loop mem args (p + 1) (p + 1 + length s) q (length name) val = (NGX_OK, \<lparr>str_len = length v, str_data = d\<rparr>) \<and> holds mem d v \<and>
        p + 1 \<le> d \<and> d + length v \<le> p + 1 + length s"
      by (rule Cons.IH) (use Cons.prems in auto)
    moreover have "arg_scan name f (c # s) = arg_scan name (c = c_amp) s" using False by auto
    moreover have "arg_loop mem args p (p + length (c # s)) q (length name) val = arg_loop mem args (p + 1) (p + 1 + length s) q (length name) val"
      using step False Cons.prems(8) by auto
    ultimately show ?thesis by (auto split: option.splits intro: Suc_leD)
  qed
qed

text \<open>
  C34: \<open>ngx_http_arg\<close> finds the value of the first item of the query, between ampersands, that is the name, in any case, and an equals sign
  with anything behind it, and declines when there is none.
\<close>

theorem http_arg_lookup:
  assumes "holds mem a s" "holds mem q name" "name \<noteq> []" "c_NUL \<notin> set name" "c_amp \<notin> set name"
  shows "case args_lookup name s of
      None \<Rightarrow> ngx_http_arg mem \<lparr>str_len = length s, str_data = a\<rparr> q (length name) val = (NGX_DECLINED, val)
    | Some v \<Rightarrow> \<exists>d. ngx_http_arg mem \<lparr>str_len = length s, str_data = a\<rparr> q (length name) val = (NGX_OK, \<lparr>str_len = length v, str_data = d\<rparr>) \<and>
        holds mem d v \<and> a \<le> d \<and> d + length v \<le> a + length s"
proof (cases "s = []")
  case True
  then have "args_lookup name s = None" by (simp add: args_lookup_def split_amp.simps is_arg_def)
  then show ?thesis using True by (simp add: ngx_http_arg_def)
next
  case False
  then show ?thesis
    using arg_loop_ok [OF assms, of "\<lparr>str_len = length s, str_data = a\<rparr>" True val] arg_scan_lookup [OF assms(5), of s]
    by (simp add: ngx_http_arg_def split: option.splits)
qed

text \<open>The argument \<open>B\<close> of the query \<open>ab=1&b=2\<close>; \<open>ab\<close> ends in the name and is passed over.\<close>

lemma http_arg_lookup_witness:
  "\<exists>d. ngx_http_arg (mem_at 10 (bs ''ab=1&b=2B'')) \<lparr>str_len = 8, str_data = 10\<rparr> 18 1 \<lparr>str_len = 0, str_data = 0\<rparr> = (NGX_OK, \<lparr>str_len = 1, str_data = d\<rparr>) \<and>
    holds (mem_at 10 (bs ''ab=1&b=2B'')) d (bs ''2'') \<and> d \<le> 17"
proof -
  have l: "length (bs ''ab=1&b=2'') = 8" "length (bs ''B'') = 1" "length (bs ''2'') = 1" by simp_all
  have "bs ''ab=1&b=2B'' = bs ''ab=1&b=2'' @ bs ''B''" by simp
  then have "holds (mem_at 10 (bs ''ab=1&b=2B'')) 10 (bs ''ab=1&b=2'' @ bs ''B'')" using holds_mem_at by metis
  then have h: "holds (mem_at 10 (bs ''ab=1&b=2B'')) 10 (bs ''ab=1&b=2'')" "holds (mem_at 10 (bs ''ab=1&b=2B'')) 18 (bs ''B'')"
    unfolding holds_append l(1) by simp_all
  have v: "args_lookup (bs ''B'') (bs ''ab=1&b=2'') = Some (bs ''2'')" by code_simp
  have "\<exists>d. ngx_http_arg (mem_at 10 (bs ''ab=1&b=2B'')) \<lparr>str_len = length (bs ''ab=1&b=2''), str_data = 10\<rparr> 18 (length (bs ''B'')) \<lparr>str_len = 0, str_data = 0\<rparr> =
      (NGX_OK, \<lparr>str_len = length (bs ''2''), str_data = d\<rparr>) \<and> holds (mem_at 10 (bs ''ab=1&b=2B'')) d (bs ''2'') \<and> 10 \<le> d \<and>
      d + length (bs ''2'') \<le> 10 + length (bs ''ab=1&b=2'')"
    using http_arg_lookup [OF h, of "\<lparr>str_len = 0, str_data = 0\<rparr>"] unfolding v by simp
  then show ?thesis unfolding l by auto
qed

subsection \<open>Headers on several lines\<close>

function skip_spaces :: "memory \<Rightarrow> ptr \<Rightarrow> ptr \<Rightarrow> ptr" where
  "skip_spaces mem p lst = (if p < lst \<and> mem p = c_space then skip_spaces mem (p + 1) lst else p)"
  by pat_completeness auto
termination by (relation "measure (\<lambda>(mem, p, lst). lst - p)") auto

function to_semicolon :: "memory \<Rightarrow> ptr \<Rightarrow> ptr \<Rightarrow> ptr" where
  "to_semicolon mem p lst = (if p < lst \<and> mem p \<noteq> c_semi then to_semicolon mem (p + 1) lst else p)"
  by pat_completeness auto
termination by (relation "measure (\<lambda>(mem, p, lst). lst - p)") auto

function skip_item :: "memory \<Rightarrow> ptr \<Rightarrow> ptr \<Rightarrow> ptr" where
  "skip_item mem p lst =
     (if p < lst then if mem p = c_semi \<or> mem p = c_comma then p + 1 else skip_item mem (p + 1) lst
      else p)"
  by pat_completeness auto
termination by (relation "measure (\<lambda>(mem, p, lst). lst - p)") auto

declare skip_spaces.simps [simp del] to_semicolon.simps [simp del] skip_item.simps [simp del]

definition next_item :: "memory \<Rightarrow> ptr \<Rightarrow> ptr \<Rightarrow> ptr" where
  "next_item mem p lst = skip_spaces mem (skip_item mem p lst) lst"

lemma skip_spaces_grows: "p \<le> skip_spaces mem p lst"
  by (induction mem p lst rule: skip_spaces.induct) (subst skip_spaces.simps, auto)

lemma skip_item_grows: "p \<le> skip_item mem p lst \<and> (p < lst \<longrightarrow> p < skip_item mem p lst)"
proof (induction mem p lst rule: skip_item.induct)
  case (1 mem p lst)
  then show ?case by (subst (1 2) skip_item.simps) auto
qed

lemma next_item_grows: "p \<le> next_item mem p lst" "p < lst \<Longrightarrow> p < next_item mem p lst"
  using skip_item_grows [of p mem lst] skip_spaces_grows [of "skip_item mem p lst" mem lst] by (auto simp: next_item_def)

text \<open>One line; no result when the name is not in it.  The value is not wanted when it is \<open>None\<close>.\<close>

function multi_line :: "memory \<Rightarrow> ptr \<Rightarrow> nat \<Rightarrow> ngx_str_t option \<Rightarrow> ptr \<Rightarrow> ptr \<Rightarrow> ngx_str_t option option" where
  "multi_line mem name len val start lst =
     (if start < lst then
        if ngx_strncasecmp mem start name len \<noteq> 0 then multi_line mem name len val (next_item mem start lst) lst
        else
          let p = skip_spaces mem (start + len) lst
          in if val = None then
               if p = lst \<or> mem p = c_comma then Some val
               else multi_line mem name len val (next_item mem p lst) lst
             else if p = lst \<or> mem p \<noteq> c_eq then
               multi_line mem name len val (next_item mem (if p = lst then p else p + 1) lst) lst
             else
               let start = skip_spaces mem (p + 1) lst;
                   q = to_semicolon mem start lst
               in Some (Some \<lparr>str_len = q - start, str_data = start\<rparr>)
      else None)"
  by pat_completeness auto
termination
proof (relation "measure (\<lambda>(mem, name, len, val, start, lst). lst - start)", goal_cases)
  case (3 mem name len val start lst p)
  then have "start \<le> p" using skip_spaces_grows [of "start + len" mem lst] by simp
  then show ?case using 3 next_item_grows(1) [of p mem lst] next_item_grows(2) [of p lst mem] by (cases "p < lst") auto
next
  case (4 mem name len val start lst p)
  then have "start \<le> p" using skip_spaces_grows [of "start + len" mem lst] by simp
  then show ?case using 4 next_item_grows(1) [of p mem lst] next_item_grows(1) [of "p + 1" mem lst] by auto
qed (use next_item_grows in \<open>auto simp: diff_less_mono2\<close>)

declare multi_line.simps [simp del]

fun multi_lines :: "memory \<Rightarrow> ptr \<Rightarrow> nat \<Rightarrow> ngx_str_t option \<Rightarrow> int \<Rightarrow> ngx_str_t list \<Rightarrow> int \<times> ngx_str_t option" where
  "multi_lines mem name len val i [] = (NGX_DECLINED, val)"
| "multi_lines mem name len val i (h # hs) =
     (if len > str_len h then multi_lines mem name len val (i + 1) hs
      else
        case multi_line mem name len val (str_data h) (str_data h + str_len h) of
          None \<Rightarrow> multi_lines mem name len val (i + 1) hs
        | Some v \<Rightarrow> (i, v))"

definition ngx_http_parse_multi_header_lines ::
  "memory \<Rightarrow> ngx_str_t list \<Rightarrow> ngx_str_t \<Rightarrow> ngx_str_t option \<Rightarrow> int \<times> ngx_str_t option" where
  "ngx_http_parse_multi_header_lines mem headers name val =
     multi_lines mem (str_data name) (str_len name) val 0 headers"

subsection \<open>Well-formed lines\<close>

text \<open>Items with a value, separated by a semicolon and a space, as a client sends its cookies.\<close>

fun cookie_line :: "(bytes \<times> bytes) list \<Rightarrow> bytes" where
  "cookie_line [] = []"
| "cookie_line ((n, v) # items) =
     n @ c_eq # v @ (if items = [] then [] else c_semi # c_space # cookie_line items)"

definition cookie_item :: "bytes \<times> bytes \<Rightarrow> bool" where
  "cookie_item nv \<longleftrightarrow> set (fst nv) \<inter> {c_semi, c_comma, c_eq, c_space} = {} \<and> set (snd nv) \<inter> {c_semi, c_comma, c_space} = {}"

definition cookie_lookup :: "bytes \<Rightarrow> (bytes \<times> bytes) list \<Rightarrow> bytes option" where
  "cookie_lookup name items = map_option snd (find (\<lambda>nv. map tolower (fst nv) = map tolower name) items)"

lemma strncasecmp_nth:
  assumes "holds mem q t" "c_NUL \<notin> set t" "k < length t" "ngx_strncasecmp mem p q (length t) = 0"
  shows "tolower (mem (p + k)) = tolower (t ! k)"
proof -
  have "holds mem p (map mem [p..<p + length t])" by (auto simp: holds_nth)
  then have "map tolower (map mem [p..<p + length t]) = map tolower t"
    using strncasecmp_eq [OF _ assms(1) _ refl assms(2)] assms(4) by simp
  then have "map tolower (map mem [p..<p + length t]) ! k = map tolower t ! k" by simp
  then show ?thesis using assms(3) by simp
qed

lemma skip_spaces_none: "holds mem p s \<Longrightarrow> s = [] \<or> hd s \<noteq> c_space \<Longrightarrow> skip_spaces mem p (p + length s) = p"
  by (cases s) (simp_all add: skip_spaces.simps)

lemma to_semicolon_ok: "holds mem p s \<Longrightarrow> to_semicolon mem p (p + length s) = p + length (takeWhile (\<lambda>c. c \<noteq> c_semi) s)"
proof (induction s arbitrary: p)
  case (Cons c s)
  show ?case using Cons.IH [of "p + 1"] Cons.prems by (subst to_semicolon.simps) simp
qed (simp add: to_semicolon.simps)

lemma skip_item_ok:
  "holds mem p (w @ t) \<Longrightarrow> set w \<inter> {c_semi, c_comma} = {} \<Longrightarrow> t = [] \<or> hd t = c_semi \<Longrightarrow>
   skip_item mem p (p + length (w @ t)) = p + length w + (if t = [] then 0 else 1)"
proof (induction w arbitrary: p)
  case Nil
  then show ?case by (cases t; subst skip_item.simps) simp_all
next
  case (Cons c w)
  show ?case using Cons.IH [of "p + 1"] Cons.prems by (subst skip_item.simps) simp
qed

text \<open>From anywhere in an item to the next one.\<close>

definition cookie_rest :: "(bytes \<times> bytes) list \<Rightarrow> bytes" where
  "cookie_rest items = (if items = [] then [] else c_semi # c_space # cookie_line items)"

lemma cookie_line_first: "items \<noteq> [] \<Longrightarrow> \<forall>nv\<in>set items. cookie_item nv \<Longrightarrow> cookie_line items \<noteq> [] \<and> hd (cookie_line items) \<noteq> c_space"
  by (cases items; cases "fst (hd items)") (auto simp: cookie_item_def)

lemma next_item_ok:
  assumes "holds mem p (w @ cookie_rest items)" "set w \<inter> {c_semi, c_comma} = {}" "\<forall>nv\<in>set items. cookie_item nv"
  shows "next_item mem p (p + length (w @ cookie_rest items)) = p + length (w @ cookie_rest items) - length (cookie_line items)"
proof (cases "items = []")
  case True
  then show ?thesis using skip_item_ok [of mem p w "[]"] assms(1,2) by (simp add: next_item_def cookie_rest_def skip_spaces.simps)
next
  case False
  let ?q = "p + length w + 1"
  have r: "cookie_rest items = c_semi # c_space # cookie_line items" using False by (simp add: cookie_rest_def)
  have "holds mem (?q + 1) (cookie_line items)" and sp: "mem ?q = c_space" using assms(1) unfolding r by (simp_all add: holds_append)
  then have "skip_spaces mem (?q + 1) (?q + 1 + length (cookie_line items)) = ?q + 1"
    using cookie_line_first [OF False assms(3)] by (intro skip_spaces_none) auto
  then have "skip_spaces mem ?q (?q + 1 + length (cookie_line items)) = ?q + 1"
    using sp by (subst skip_spaces.simps) simp
  moreover have "skip_item mem p (p + length (w @ cookie_rest items)) = ?q"
    using skip_item_ok [of mem p w "cookie_rest items"] assms(1,2) r by simp
  ultimately show ?thesis by (simp add: next_item_def r add.assoc)
qed

lemma multi_line_step:
  assumes "holds mem p (cookie_line ((n, v) # items))" "\<forall>nv\<in>set ((n, v) # items). cookie_item nv" "lst = p + length (cookie_line ((n, v) # items))"
    and name: "holds mem q name" "c_NUL \<notin> set name" "c_eq \<notin> set name"
  shows "multi_line mem q (length name) (Some val) p lst =
    (if map tolower n = map tolower name then Some (Some \<lparr>str_len = length v, str_data = p + length n + 1\<rparr>)
     else multi_line mem q (length name) (Some val) (lst - length (cookie_line items)) lst)"
proof -
  have line: "cookie_line ((n, v) # items) = n @ c_eq # v @ cookie_rest items" by (simp add: cookie_rest_def)
  have it: "set n \<inter> {c_semi, c_comma, c_eq, c_space} = {}" "set v \<inter> {c_semi, c_comma, c_space} = {}" "\<forall>nv\<in>set items. cookie_item nv"
    using assms(2) by (auto simp: cookie_item_def)
  have p: "p < lst" using assms(3) line by simp
  have n: "holds mem p n" and eq: "mem (p + length n) = c_eq" and v: "holds mem (p + length n + 1) (v @ cookie_rest items)"
    using assms(1) unfolding line by (simp_all add: holds_append)
  have skip: "next_item mem (p + k) lst = lst - length (cookie_line items)" if "k \<le> length n" for k
  proof -
    let ?w = "drop k n @ c_eq # v"
    have "holds mem (p + k) (drop k (cookie_line ((n, v) # items)))" by (rule holds_drop [OF assms(1)]) (use that line in simp)
    then have "holds mem (p + k) (?w @ cookie_rest items)" unfolding line using that by simp
    moreover have "set ?w \<inter> {c_semi, c_comma} = {}" using it(1,2) set_drop_subset [of k n] by auto
    moreover have "p + k + length (?w @ cookie_rest items) = lst" using assms(3) that unfolding line by simp
    ultimately show ?thesis using next_item_ok [of mem "p + k" ?w items] it(3) by simp
  qed
  have loop: "multi_line mem q (length name) (Some val) p lst =
    (if ngx_strncasecmp mem p q (length name) \<noteq> 0 then multi_line mem q (length name) (Some val) (next_item mem p lst) lst
     else let r = skip_spaces mem (p + length name) lst
       in if r = lst \<or> mem r \<noteq> c_eq then
            multi_line mem q (length name) (Some val) (next_item mem (if r = lst then r else r + 1) lst) lst
          else let a = skip_spaces mem (r + 1) lst in Some (Some \<lparr>str_len = to_semicolon mem a lst - a, str_data = a\<rparr>))"
    using p by (subst multi_line.simps) (simp add: Let_def)
  consider (short) "length n < length name" | (same) "length n = length name" | (long) "length name < length n" by linarith
  then show ?thesis
  proof cases
    case short
    have "ngx_strncasecmp mem p q (length name) \<noteq> 0"
    proof
      assume "ngx_strncasecmp mem p q (length name) = 0"
      then have "tolower c_eq = tolower (name ! length n)" using strncasecmp_nth [OF name(1,2) short, of p] eq by simp
      then have "name ! length n = c_eq" using tolower_keeps [of c_eq "name ! length n"] by simp
      then show False using name(3) short by (metis nth_mem)
    qed
    moreover have "map tolower n \<noteq> map tolower name" using short by (metis length_map less_irrefl)
    ultimately show ?thesis using loop skip [of 0] by simp
  next
    case same
    have c: "ngx_strncasecmp mem p q (length name) = 0 \<longleftrightarrow> map tolower n = map tolower name"
      by (rule strncasecmp_eq [OF n name(1) same refl name(2)])
    have "skip_spaces mem (p + length n) lst = p + length n" using eq by (subst skip_spaces.simps) simp
    moreover have r: "p + length n + 1 + length (v @ cookie_rest items) = lst" using assms(3) unfolding line by simp
    moreover have "skip_spaces mem (p + length n + 1) lst = p + length n + 1"
      using skip_spaces_none [OF v] it(2) unfolding r by (cases v) (auto simp: cookie_rest_def)
    moreover have "to_semicolon mem (p + length n + 1) lst = p + length n + 1 + length v"
    proof -
      have "takeWhile (\<lambda>c. c \<noteq> c_semi) (v @ cookie_rest items) = v" using it(2)
        by (subst takeWhile_append2) (auto simp: cookie_rest_def)
      then show ?thesis using to_semicolon_ok [OF v] unfolding r by simp
    qed
    ultimately show ?thesis using loop c same eq skip [of 0] by (simp add: Let_def)
  next
    case long
    let ?c = "mem (p + length name)"
    have m: "?c = n ! length name" using n long by (simp add: holds_nth)
    then have "?c \<in> set n" using long by simp
    then have ch: "?c \<noteq> c_eq" "?c \<noteq> c_space" using it(1) by auto
    have "skip_spaces mem (p + length name) lst = p + length name" using ch by (subst skip_spaces.simps) simp
    moreover have "p + length name < lst" using assms(3) long line by simp
    moreover have "map tolower n \<noteq> map tolower name" using long by (metis length_map less_irrefl)
    ultimately show ?thesis using loop ch skip [of 0] skip [of "length name + 1"] long by (auto simp: Let_def)
  qed
qed

lemma multi_line_ok:
  assumes "holds mem p (cookie_line items)" "\<forall>nv\<in>set items. cookie_item nv" "lst = p + length (cookie_line items)"
    "holds mem q name" "c_NUL \<notin> set name" "c_eq \<notin> set name"
  shows "case cookie_lookup name items of
      None \<Rightarrow> multi_line mem q (length name) (Some val) p lst = None
    | Some v \<Rightarrow> \<exists>d. multi_line mem q (length name) (Some val) p lst = Some (Some \<lparr>str_len = length v, str_data = d\<rparr>) \<and> holds mem d v"
  using assms(1-3)
proof (induction items arbitrary: p)
  case Nil
  then show ?case by (simp add: cookie_lookup_def multi_line.simps)
next
  case (Cons nv items)
  obtain n v where nv: "nv = (n, v)" by (cases nv)
  note step = multi_line_step [OF Cons.prems [unfolded nv] assms(4-6), of val]
  show ?case
  proof (cases "map tolower n = map tolower name")
    case True
    have "holds mem (p + length n + 1) v" using Cons.prems(1) unfolding nv by (auto simp: holds_append)
    then show ?thesis using True step by (simp add: nv cookie_lookup_def)
  next
    case False
    let ?p = "lst - length (cookie_line items)"
    have "holds mem ?p (cookie_line items)"
    proof (cases "items = []")
      case nonempty: False
      then have l: "cookie_line (nv # items) = (n @ c_eq # v @ [c_semi, c_space]) @ cookie_line items" by (simp add: nv)
      have "holds mem (p + length (n @ c_eq # v @ [c_semi, c_space])) (cookie_line items)" using Cons.prems(1) unfolding l holds_append by blast
      moreover have "?p = p + length (n @ c_eq # v @ [c_semi, c_space])" using Cons.prems(3) unfolding l by simp
      ultimately show ?thesis by simp
    qed simp
    moreover have "lst = ?p + length (cookie_line items)" using Cons.prems(3) nv by simp
    moreover have "\<forall>nv\<in>set items. cookie_item nv" using Cons.prems(2) by simp
    ultimately have "case cookie_lookup name items of
        None \<Rightarrow> multi_line mem q (length name) (Some val) ?p lst = None
      | Some v \<Rightarrow> \<exists>d. multi_line mem q (length name) (Some val) ?p lst = Some (Some \<lparr>str_len = length v, str_data = d\<rparr>) \<and> holds mem d v"
      using Cons.IH by blast
    moreover have "cookie_lookup name (nv # items) = cookie_lookup name items" using False by (simp add: nv cookie_lookup_def)
    ultimately show ?thesis using step False by (simp split: option.splits)
  qed
qed

lemma find_append: "find P (xs @ ys) = (case find P xs of None \<Rightarrow> find P ys | Some x \<Rightarrow> Some x)"
  by (induction xs) auto

lemma cookie_lookup_length: "cookie_lookup name items \<noteq> None \<Longrightarrow> length name \<le> length (cookie_line items)"
proof (induction items)
  case (Cons nv items)
  then show ?case by (cases nv) (auto simp: cookie_lookup_def dest: map_eq_imp_length_eq split: if_splits)
qed (simp add: cookie_lookup_def)

text \<open>The headers of a request, by their addresses and items.\<close>

definition cookie_header :: "ptr \<times> (bytes \<times> bytes) list \<Rightarrow> ngx_str_t" where
  "cookie_header h = \<lparr>str_len = length (cookie_line (snd h)), str_data = fst h\<rparr>"

definition cookies_in :: "memory \<Rightarrow> (ptr \<times> (bytes \<times> bytes) list) list \<Rightarrow> bool" where
  "cookies_in mem hs \<longleftrightarrow> (\<forall>h\<in>set hs. holds mem (fst h) (cookie_line (snd h)) \<and> (\<forall>nv\<in>set (snd h). cookie_item nv))"

definition cookie_index :: "bytes \<Rightarrow> (ptr \<times> (bytes \<times> bytes) list) list \<Rightarrow> nat" where
  "cookie_index name hs = length (takeWhile (\<lambda>h. cookie_lookup name (snd h) = None) hs)"

lemma multi_lines_ok:
  assumes "cookies_in mem hs" "holds mem q name" "c_NUL \<notin> set name" "c_eq \<notin> set name"
  shows "case cookie_lookup name (concat (map snd hs)) of
      None \<Rightarrow> multi_lines mem q (length name) (Some val) i (map cookie_header hs) = (NGX_DECLINED, Some val)
    | Some v \<Rightarrow> \<exists>d. multi_lines mem q (length name) (Some val) i (map cookie_header hs) =
        (i + int (cookie_index name hs), Some \<lparr>str_len = length v, str_data = d\<rparr>) \<and> holds mem d v"
  using assms(1)
proof (induction hs arbitrary: i)
  case Nil
  then show ?case by (simp add: cookie_lookup_def)
next
  case (Cons h hs)
  have h: "holds mem (fst h) (cookie_line (snd h))" "\<forall>nv\<in>set (snd h). cookie_item nv" and hs: "cookies_in mem hs"
    using Cons.prems by (auto simp: cookies_in_def)
  have app: "cookie_lookup name (concat (map snd (h # hs))) =
      (case cookie_lookup name (snd h) of None \<Rightarrow> cookie_lookup name (concat (map snd hs)) | Some v \<Rightarrow> Some v)"
    by (auto simp: cookie_lookup_def find_append split: option.splits)
  note line = multi_line_ok [OF h refl assms(2-4), of val]
  show ?case
  proof (cases "cookie_lookup name (snd h)")
    case None
    then have "multi_lines mem q (length name) (Some val) i (map cookie_header (h # hs)) =
        multi_lines mem q (length name) (Some val) (i + 1) (map cookie_header hs)"
      using line by (simp add: cookie_header_def)
    then show ?thesis using Cons.IH [OF hs, of "i + 1"] None app by (auto simp: cookie_index_def algebra_simps split: option.splits)
  next
    case (Some v)
    then have "length name \<le> length (cookie_line (snd h))" using cookie_lookup_length [of name "snd h"] by simp
    then show ?thesis using line Some app by (auto simp: cookie_header_def cookie_index_def)
  qed
qed

text \<open>
  C33: On headers whose lines are items with a value, \<open>ngx_http_parse_multi_header_lines\<close> finds the value of the first item with the name (one
  without an equals sign and a zero byte), in any case, over all the lines and returns the number of its line, and declines when no item has it.
\<close>

theorem multi_header_lookup:
  assumes "cookies_in mem hs" "holds mem q name" "c_NUL \<notin> set name" "c_eq \<notin> set name"
  shows "case cookie_lookup name (concat (map snd hs)) of
      None \<Rightarrow> ngx_http_parse_multi_header_lines mem (map cookie_header hs) \<lparr>str_len = length name, str_data = q\<rparr> (Some val) = (NGX_DECLINED, Some val)
    | Some v \<Rightarrow> \<exists>d. ngx_http_parse_multi_header_lines mem (map cookie_header hs) \<lparr>str_len = length name, str_data = q\<rparr> (Some val) =
        (int (cookie_index name hs), Some \<lparr>str_len = length v, str_data = d\<rparr>) \<and> holds mem d v"
  using multi_lines_ok [OF assms, of val 0] by (simp add: ngx_http_parse_multi_header_lines_def split: option.splits)

text \<open>The name is found in the second item of the second line, past an item it is a part of.\<close>

lemma multi_header_lookup_witness:
  "\<exists>d. ngx_http_parse_multi_header_lines (mem_at 10 (bs ''a=1c=2; B=3b'')) [\<lparr>str_len = 3, str_data = 10\<rparr>, \<lparr>str_len = 8, str_data = 13\<rparr>]
      \<lparr>str_len = 1, str_data = 21\<rparr> (Some \<lparr>str_len = 0, str_data = 0\<rparr>) = (1, Some \<lparr>str_len = 1, str_data = d\<rparr>) \<and>
    holds (mem_at 10 (bs ''a=1c=2; B=3b'')) d (bs ''3'')"
proof -
  let ?m = "mem_at 10 (bs ''a=1c=2; B=3b'')"
  let ?hs = "[(10, [(bs ''a'', bs ''1'')]), (13, [(bs ''c'', bs ''2''), (bs ''B'', bs ''3'')])] :: (ptr \<times> (bytes \<times> bytes) list) list"
  have t: "bs ''a=1c=2; B=3b'' = cookie_line (snd (?hs ! 0)) @ cookie_line (snd (?hs ! 1)) @ bs ''b''" by simp
  have l: "length (cookie_line (snd (?hs ! 0))) = 3" "length (cookie_line (snd (?hs ! 1))) = 8" "length (bs ''b'') = 1" "length (bs ''3'') = 1" by simp_all
  have "holds ?m 10 (cookie_line (snd (?hs ! 0)) @ cookie_line (snd (?hs ! 1)) @ bs ''b'')" using holds_mem_at t by metis
  then have "holds ?m 10 (cookie_line (snd (?hs ! 0)))" "holds ?m 13 (cookie_line (snd (?hs ! 1)))" "holds ?m 21 (bs ''b'')"
    unfolding holds_append l by simp_all
  then have h: "cookies_in ?m ?hs" "holds ?m 21 (bs ''b'')" by (simp_all add: cookies_in_def cookie_item_def)
  have v: "cookie_lookup (bs ''b'') (concat (map snd ?hs)) = Some (bs ''3'')" "cookie_index (bs ''b'') ?hs = 1" by code_simp+
  have "\<exists>d. ngx_http_parse_multi_header_lines ?m (map cookie_header ?hs) \<lparr>str_len = length (bs ''b''), str_data = 21\<rparr> (Some \<lparr>str_len = 0, str_data = 0\<rparr>) =
      (int (cookie_index (bs ''b'') ?hs), Some \<lparr>str_len = length (bs ''3''), str_data = d\<rparr>) \<and> holds ?m d (bs ''3'')"
    using multi_header_lookup [OF h, of "\<lparr>str_len = 0, str_data = 0\<rparr>"] unfolding v by simp
  moreover have "map cookie_header ?hs = [\<lparr>str_len = 3, str_data = 10\<rparr>, \<lparr>str_len = 8, str_data = 13\<rparr>]"
    using l by (simp add: cookie_header_def)
  ultimately show ?thesis unfolding v l by simp
qed

text \<open>An item without a value hides the one behind it, as its separator is stepped over.\<close>

lemma multi_header_hidden:
  "ngx_http_parse_multi_header_lines (mem_at 10 (bs ''b;b=3b'')) [\<lparr>str_len = 5, str_data = 10\<rparr>] \<lparr>str_len = 1, str_data = 15\<rparr>
    (Some \<lparr>str_len = 0, str_data = 0\<rparr>) = (NGX_DECLINED, Some \<lparr>str_len = 0, str_data = 0\<rparr>)"
  by code_simp

end
