(* ===== verification/Ngx_Hash.thy ===== *)
theory Ngx_Hash
  imports Ngx_Http_Args
begin

text \<open>
  Hash tables, \<open>core/ngx_hash.c\<close>: \<open>ngx_hash_init\<close> and \<open>ngx_hash_find\<close> over a memory of bytes in which the buckets lie one behind
  the other.  The results of the allocations are parameters.  A table is searched until a null value: a search that finds none has the
  value \<open>None\<close>, and the theorem shows that there is one.
\<close>

subsection \<open>Memory\<close>

text \<open>Numbers are stored with the low byte first.\<close>

fun le_bytes :: "nat \<Rightarrow> nat \<Rightarrow> bytes" where
  "le_bytes 0 v = []"
| "le_bytes (Suc k) v = of_nat v # le_bytes k (v div 256)"

fun le_load :: "memory \<Rightarrow> ptr \<Rightarrow> nat \<Rightarrow> nat" where
  "le_load mem a 0 = 0"
| "le_load mem a (Suc k) = unat (mem a) + 256 * le_load mem (a + 1) k"

definition mem_write :: "memory \<Rightarrow> ptr \<Rightarrow> bytes \<Rightarrow> memory" where
  "mem_write mem a s = (\<lambda>i. if a \<le> i \<and> i - a < length s then s ! (i - a) else mem i)"

text \<open>\<open>a\<close> is a power of two in the code, and the sum is masked.\<close>

definition ngx_align :: "nat \<Rightarrow> nat \<Rightarrow> nat" where
  "ngx_align d a = (d + (a - 1)) div a * a"

subsection \<open>The code\<close>

record ngx_hash_t =
  buckets :: "ptr list"
  hash_size :: nat

record ngx_hash_key_t =
  key_str :: bytes      \<comment> \<open>the bytes behind \<open>key.data\<close>, \<open>key.len\<close> of them\<close>
  key_null :: bool      \<comment> \<open>\<open>key.data == NULL\<close>\<close>
  key_hash :: nat
  key_value :: nat

record ngx_hash_init_t =
  max_size :: nat
  bucket_size :: nat
  cacheline_size :: nat

text \<open>An element has its value, 8 bytes, the length of its name, 2 bytes, and the name.\<close>

partial_function (option) hash_walk :: "memory \<Rightarrow> ptr \<Rightarrow> bytes \<Rightarrow> nat option" where
  "hash_walk mem elt name =
     (if le_load mem elt 8 \<noteq> 0 then
        if length name = le_load mem (elt + 8) 2 \<and> holds mem (elt + 10) name then Some (le_load mem elt 8)
        else hash_walk mem (ngx_align (elt + 10 + le_load mem (elt + 8) 2) 8) name
      else Some 0)"

definition ngx_hash_find :: "memory \<Rightarrow> ngx_hash_t \<Rightarrow> nat \<Rightarrow> bytes \<Rightarrow> nat option" where
  "ngx_hash_find mem hash key name =
     (let elt = buckets hash ! (key mod hash_size hash)
      in if elt = NULL then Some 0 else hash_walk mem elt name)"

definition hash_elt_size :: "ngx_hash_key_t \<Rightarrow> nat" where
  "hash_elt_size nm = 8 + ngx_align (length (key_str nm) + 2) 8"

fun hash_fits :: "nat \<Rightarrow> nat \<Rightarrow> nat list \<Rightarrow> ngx_hash_key_t list \<Rightarrow> bool" where
  "hash_fits n limit test [] = True"
| "hash_fits n limit test (nm # names) =
     (if key_null nm then hash_fits n limit test names
      else
        let key = key_hash nm mod n;
            test = test[key := (test ! key + hash_elt_size nm) mod 65536]
        in if test ! key > limit then False else hash_fits n limit test names)"

function hash_size_loop :: "ngx_hash_init_t \<Rightarrow> nat \<Rightarrow> ngx_hash_key_t list \<Rightarrow> nat \<Rightarrow> nat option" where
  "hash_size_loop hinit limit names n =
     (if n < max_size hinit then
        if hash_fits n (limit mod 65536) (replicate n 0) names then Some n
        else hash_size_loop hinit limit names (n + 1)
      else None)"
  by pat_completeness auto
termination by (relation "measure (\<lambda>(hinit, limit, names, n). max_size hinit - n)") auto

declare hash_size_loop.simps [simp del]

fun hash_count :: "nat \<Rightarrow> nat list \<Rightarrow> ngx_hash_key_t list \<Rightarrow> nat list" where
  "hash_count n test [] = test"
| "hash_count n test (nm # names) =
     (if key_null nm then hash_count n test names
      else
        let key = key_hash nm mod n
        in hash_count n (test[key := (test ! key + hash_elt_size nm) mod 65536]) names)"

fun hash_round :: "nat \<Rightarrow> nat list \<Rightarrow> nat list \<times> nat" where
  "hash_round cl [] = ([], 0)"
| "hash_round cl (t # test) =
     (case hash_round cl test of
        (test, len) \<Rightarrow>
          if t = 8 then (t # test, len)
          else let t = ngx_align t cl mod 65536 in (t # test, len + t))"

fun hash_spread :: "ptr \<Rightarrow> nat list \<Rightarrow> ptr list" where
  "hash_spread elts [] = []"
| "hash_spread elts (t # test) =
     (if t = 8 then NULL # hash_spread elts test else elts # hash_spread (elts + t) test)"

definition hash_store :: "memory \<Rightarrow> ptr \<Rightarrow> ngx_hash_key_t \<Rightarrow> memory" where
  "hash_store mem elt nm =
     (let mem = mem_write mem elt (le_bytes 8 (key_value nm));
          mem = mem_write mem (elt + 8) (le_bytes 2 (length (key_str nm)))
      in mem_write mem (elt + 10) (map tolower (key_str nm)))"

fun hash_place :: "nat \<Rightarrow> ptr list \<Rightarrow> memory \<Rightarrow> nat list \<Rightarrow> ngx_hash_key_t list \<Rightarrow> memory \<times> nat list" where
  "hash_place n bks mem test [] = (mem, test)"
| "hash_place n bks mem test (nm # names) =
     (if key_null nm then hash_place n bks mem test names
      else
        let key = key_hash nm mod n;
            mem = hash_store mem (bks ! key + test ! key) nm
        in hash_place n bks mem (test[key := (test ! key + hash_elt_size nm) mod 65536]) names)"

fun hash_close :: "memory \<Rightarrow> (ptr \<times> nat) list \<Rightarrow> memory" where
  "hash_close mem [] = mem"
| "hash_close mem ((b, t) # bts) =
     hash_close (if b = NULL then mem else mem_write mem (b + t) (le_bytes 8 0)) bts"

text \<open>The arguments \<open>test_ok\<close>, \<open>buckets_ok\<close> and \<open>palloc\<close> are the outcomes of the allocations.\<close>

definition hash_start :: "ngx_hash_init_t \<Rightarrow> nat \<Rightarrow> nat" where
  "hash_start hinit nelts =
     (let start = nelts div ((bucket_size hinit - 8) div 16);
          start = (if start = 0 then 1 else start)
      in if max_size hinit > 10000 \<and> nelts \<noteq> 0 \<and> max_size hinit div nelts < 100 then max_size hinit - 1000
         else start)"

definition hash_build :: "ngx_hash_init_t \<Rightarrow> bool \<Rightarrow> (nat \<Rightarrow> ptr option) \<Rightarrow> memory \<Rightarrow> ngx_hash_key_t list \<Rightarrow> nat \<Rightarrow>
    (ngx_hash_t \<times> memory) option" where
  "hash_build hinit buckets_ok palloc mem names n =
     (let (test, len) = hash_round (cacheline_size hinit) (hash_count n (replicate n 8) names)
      in if \<not> buckets_ok then None
         else
           case palloc (len + cacheline_size hinit) of
             None \<Rightarrow> None
           | Some elts \<Rightarrow>
               let bks = hash_spread (ngx_align elts (cacheline_size hinit)) test;
                   (mem, test) = hash_place n bks mem (replicate n 0) names;
                   mem = hash_close mem (zip bks test)
               in Some (\<lparr>buckets = bks, hash_size = n\<rparr>, mem))"

definition ngx_hash_init :: "ngx_hash_init_t \<Rightarrow> bool \<Rightarrow> bool \<Rightarrow> (nat \<Rightarrow> ptr option) \<Rightarrow> memory \<Rightarrow> ngx_hash_key_t list \<Rightarrow>
    (ngx_hash_t \<times> memory) option" where
  "ngx_hash_init hinit test_ok buckets_ok palloc mem names =
     (if list_ex (\<lambda>nm. bucket_size hinit < hash_elt_size nm + 8) names then None
      else if \<not> test_ok then None
      else
        case hash_size_loop hinit (bucket_size hinit - 8) names (hash_start hinit (length names)) of
          None \<Rightarrow> None
        | Some n \<Rightarrow> hash_build hinit buckets_ok palloc mem names n)"

subsection \<open>Elements in memory\<close>

lemma le_bytes_length [simp]: "length (le_bytes k v) = k"
  by (induction k arbitrary: v) auto

lemma le_load_ok: "holds mem a (le_bytes k v) \<Longrightarrow> le_load mem a k = v mod 256 ^ k"
proof (induction k arbitrary: a v)
  case (Suc k)
  have "le_load mem (a + 1) k = v div 256 mod 256 ^ k" using Suc by simp
  moreover have "unat (of_nat v :: u_char) = v mod 256" by (simp add: unat_of_nat)
  ultimately show ?case using Suc.prems by (simp add: mod_mult2_eq)
qed simp

lemma mem_write_holds: "holds (mem_write mem a s) a s"
  by (simp add: holds_nth mem_write_def)

lemma mem_write_other: "i < a \<or> a + length s \<le> i \<Longrightarrow> mem_write mem a s i = mem i"
  by (auto simp: mem_write_def)

lemma holds_same: "holds mem a s \<Longrightarrow> (\<And>i. a \<le> i \<Longrightarrow> i < a + length s \<Longrightarrow> mem' i = mem i) \<Longrightarrow> holds mem' a s"
  by (auto simp: holds_nth)

lemma align_dvd:
  assumes "a dvd x" "0 < a"
  shows "ngx_align (x + y) a = x + ngx_align y a"
proof -
  obtain k where k: "x = k * a" using assms(1) by (metis dvd_def mult.commute)
  have "(k * a + (y + (a - 1))) div a = k + (y + (a - 1)) div a" using assms(2) by (intro div_mult_self3) simp
  then show ?thesis by (simp only: ngx_align_def k add.assoc distrib_right)
qed

lemma align_is_dvd: "a dvd ngx_align x a"
  by (simp add: ngx_align_def)

lemma align_ge:
  assumes "0 < a"
  shows "x \<le> ngx_align x a"
proof -
  have "(x + (a - 1)) mod a \<le> a - 1" using mod_less_divisor [OF assms, of "x + (a - 1)"] by linarith
  moreover have "(x + (a - 1)) div a * a + (x + (a - 1)) mod a = x + (a - 1)" by (rule div_mult_mod_eq)
  ultimately show ?thesis unfolding ngx_align_def by linarith
qed

lemma align_less:
  assumes "0 < a"
  shows "ngx_align x a < x + a"
proof -
  have "(x + (a - 1)) div a * a \<le> x + (a - 1)" by (rule div_times_less_eq_dividend)
  then show ?thesis using assms unfolding ngx_align_def by linarith
qed

definition elt_bytes :: "ngx_hash_key_t \<Rightarrow> bytes" where
  "elt_bytes nm = le_bytes 8 (key_value nm) @ le_bytes 2 (length (key_str nm)) @ map tolower (key_str nm)"

lemma elt_bytes_length: "length (elt_bytes nm) = 10 + length (key_str nm)" "length (elt_bytes nm) \<le> hash_elt_size nm"
  using align_ge [of 8 "length (key_str nm) + 2"] by (auto simp: elt_bytes_def hash_elt_size_def)

lemma elt_size_dvd: "8 dvd hash_elt_size nm"
  by (simp add: hash_elt_size_def align_is_dvd)

lemma hash_store_ok:
  "holds (hash_store mem a nm) a (elt_bytes nm)" "i < a \<or> a + hash_elt_size nm \<le> i \<Longrightarrow> hash_store mem a nm i = mem i"
proof -
  let ?v = "le_bytes 8 (key_value nm)" and ?l = "le_bytes 2 (length (key_str nm))"
  define m1 where "m1 = mem_write mem a ?v"
  define m2 where "m2 = mem_write m1 (a + 8) ?l"
  have s: "hash_store mem a nm = mem_write m2 (a + 10) (map tolower (key_str nm))" by (simp add: hash_store_def m1_def m2_def)
  have "holds m2 a ?v" by (rule holds_same [OF mem_write_holds [of mem a ?v]]) (auto simp: m2_def m1_def mem_write_def)
  then have "holds (hash_store mem a nm) a ?v" by (rule holds_same) (simp add: s mem_write_def)
  moreover have "holds (hash_store mem a nm) (a + 8) ?l"
    by (rule holds_same [OF mem_write_holds [of m1 "a + 8" ?l]]) (auto simp: s m2_def mem_write_def)
  moreover have "holds (hash_store mem a nm) (a + 10) (map tolower (key_str nm))" unfolding s by (rule mem_write_holds)
  ultimately show "holds (hash_store mem a nm) a (elt_bytes nm)" by (simp add: elt_bytes_def holds_append add.commute [of 10])
  show "i < a \<or> a + hash_elt_size nm \<le> i \<Longrightarrow> hash_store mem a nm i = mem i"
    using elt_bytes_length [of nm] by (auto simp: s m1_def m2_def mem_write_def)
qed

text \<open>The elements of a bucket stand one behind the other.\<close>

fun elts_at :: "memory \<Rightarrow> ptr \<Rightarrow> ngx_hash_key_t list \<Rightarrow> bool" where
  "elts_at mem a [] = True"
| "elts_at mem a (nm # names) = (holds mem a (elt_bytes nm) \<and> elts_at mem (a + hash_elt_size nm) names)"

definition elts_size :: "ngx_hash_key_t list \<Rightarrow> nat" where
  "elts_size names = sum_list (map hash_elt_size names)"

lemma elts_size_simps [simp]:
  "elts_size [] = 0" "elts_size (nm # names) = hash_elt_size nm + elts_size names" "elts_size (xs @ ys) = elts_size xs + elts_size ys"
  by (simp_all add: elts_size_def)

lemma elts_at_append: "elts_at mem a (xs @ ys) \<longleftrightarrow> elts_at mem a xs \<and> elts_at mem (a + elts_size xs) ys"
  by (induction xs arbitrary: a) (auto simp: add.assoc)

lemma elts_at_same: "elts_at mem a names \<Longrightarrow> (\<And>i. a \<le> i \<Longrightarrow> i < a + elts_size names \<Longrightarrow> mem' i = mem i) \<Longrightarrow> elts_at mem' a names"
proof (induction names arbitrary: a)
  case (Cons nm names)
  have "holds mem' a (elt_bytes nm)"
    by (rule holds_same [of mem]) (use Cons.prems elt_bytes_length(2) [of nm] in auto)
  moreover have "elts_at mem' (a + hash_elt_size nm) names" by (rule Cons.IH) (use Cons.prems in auto)
  ultimately show ?case by simp
qed simp

definition hash_key_ok :: "ngx_hash_key_t \<Rightarrow> bool" where
  "hash_key_ok nm \<longleftrightarrow> 0 < key_value nm \<and> key_value nm < 2 ^ 64 \<and> length (key_str nm) < 65536"

lemma hash_walk_ok:
  assumes "elts_at mem a names" "holds mem (a + elts_size names) (le_bytes 8 0)" "8 dvd a" "\<forall>nm\<in>set names. hash_key_ok nm"
  shows "hash_walk mem a name = Some (case find (\<lambda>nm. map tolower (key_str nm) = name) names of None \<Rightarrow> 0 | Some nm \<Rightarrow> key_value nm)"
  using assms
proof (induction names arbitrary: a)
  case Nil
  then have "le_load mem a 8 = 0" using le_load_ok [of mem a 8 0] by simp
  then show ?case by (subst hash_walk.simps) simp
next
  case (Cons nm names)
  let ?l = "length (key_str nm)"
  have ok: "hash_key_ok nm" using Cons.prems(4) by simp
  have h: "holds mem a (le_bytes 8 (key_value nm))" "holds mem (a + 8) (le_bytes 2 ?l)" "holds mem (a + 10) (map tolower (key_str nm))"
    using Cons.prems(1) by (simp_all add: elt_bytes_def holds_append add.commute [of 10])
  have v: "le_load mem a 8 = key_value nm" using le_load_ok [OF h(1)] ok by (simp add: hash_key_ok_def)
  have l: "le_load mem (a + 8) 2 = ?l" using le_load_ok [OF h(2)] ok by (simp add: hash_key_ok_def)
  have e: "length name = ?l \<and> holds mem (a + 10) name \<longleftrightarrow> map tolower (key_str nm) = name"
    using h(3) holds_unique [OF h(3), of name] by auto
  have "ngx_align (a + (10 + ?l)) 8 = a + ngx_align (8 + (?l + 2)) 8" using align_dvd [OF Cons.prems(3), of "10 + ?l"] by simp
  also have "\<dots> = a + hash_elt_size nm" using align_dvd [of 8 8 "?l + 2"] by (simp add: hash_elt_size_def)
  finally have n: "ngx_align (a + 10 + ?l) 8 = a + hash_elt_size nm" by (simp add: add.assoc)
  have "hash_walk mem (a + hash_elt_size nm) name =
      Some (case find (\<lambda>nm. map tolower (key_str nm) = name) names of None \<Rightarrow> 0 | Some nm \<Rightarrow> key_value nm)"
    by (rule Cons.IH) (use Cons.prems elt_size_dvd [of nm] in \<open>auto simp: add.assoc\<close>)
  then show ?case using ok e n by (subst hash_walk.simps) (simp add: v l hash_key_ok_def)
qed

subsection \<open>The size of a bucket\<close>

definition in_bucket :: "nat \<Rightarrow> nat \<Rightarrow> ngx_hash_key_t list \<Rightarrow> ngx_hash_key_t list" where
  "in_bucket n k names = filter (\<lambda>nm. \<not> key_null nm \<and> key_hash nm mod n = k) names"

lemma in_bucket_simps [simp]:
  "in_bucket n k [] = []"
  "in_bucket n k (nm # names) = (if \<not> key_null nm \<and> key_hash nm mod n = k then nm # in_bucket n k names else in_bucket n k names)"
  "in_bucket n k (xs @ ys) = in_bucket n k xs @ in_bucket n k ys"
  by (simp_all add: in_bucket_def)

lemma hash_count_ok:
  assumes "length test = n" "k < n" "t ! k + elts_size (in_bucket n k names) < 65536" "test = t"
  shows "hash_count n test names ! k = test ! k + elts_size (in_bucket n k names)"
  using assms
proof (induction names arbitrary: test t)
  case (Cons nm names)
  show ?case
  proof (cases "key_null nm")
    case True
    then show ?thesis using Cons by simp
  next
    case False
    let ?k = "key_hash nm mod n"
    let ?t = "test[?k := (test ! ?k + hash_elt_size nm) mod 65536]"
    have e: "?t ! k = (if k = ?k then test ! k + hash_elt_size nm else test ! k)"
      using Cons.prems False by (auto simp: nth_list_update)
    have "hash_count n ?t names ! k = ?t ! k + elts_size (in_bucket n k names)"
      by (rule Cons.IH [OF _ _ _ refl]) (use Cons.prems False e in \<open>auto split: if_splits\<close>)
    then show ?thesis using False e by (cases "key_hash nm mod n = k") (simp_all add: Let_def)
  qed
qed simp

lemma hash_count_length [simp]: "length (hash_count n test names) = length test"
  by (induction names arbitrary: test) (auto simp: Let_def)

lemma hash_fits_ok:
  assumes "hash_fits n limit test names" "length test = n" "k < n" "test ! k \<le> limit" "\<forall>nm\<in>set names. limit + hash_elt_size nm < 65536"
  shows "test ! k + elts_size (in_bucket n k names) \<le> limit"
  using assms
proof (induction names arbitrary: test)
  case (Cons nm names)
  show ?case
  proof (cases "key_null nm")
    case True
    then show ?thesis using Cons by simp
  next
    case False
    let ?k = "key_hash nm mod n"
    let ?t = "test[?k := (test ! ?k + hash_elt_size nm) mod 65536]"
    have f: "\<not> ?t ! ?k > limit" "hash_fits n limit ?t names" using Cons.prems(1) False by (simp_all add: Let_def split: if_splits)
    have e: "?t ! k = (if k = ?k then test ! k + hash_elt_size nm else test ! k)"
      using Cons.prems(2-5) by (auto simp: nth_list_update)
    have "?t ! k + elts_size (in_bucket n k names) \<le> limit"
      by (rule Cons.IH) (use f Cons.prems e in \<open>auto split: if_splits\<close>)
    then show ?thesis using False e by (cases "key_hash nm mod n = k") simp_all
  qed
qed simp

subsection \<open>The layout of the buckets\<close>

definition spread_size :: "nat list \<Rightarrow> nat" where
  "spread_size ts = sum_list (map (\<lambda>t. if t = 8 then 0 else t) ts)"

lemma spread_size_simps [simp]:
  "spread_size [] = 0" "spread_size (t # ts) = (if t = 8 then 0 else t) + spread_size ts"
  "spread_size (xs @ ys) = spread_size xs + spread_size ys"
  by (simp_all add: spread_size_def)

lemma hash_spread_length [simp]: "length (hash_spread a ts) = length ts"
  by (induction ts arbitrary: a) auto

lemma hash_spread_nth: "i < length ts \<Longrightarrow> hash_spread a ts ! i = (if ts ! i = 8 then 0 else a + spread_size (take i ts))"
proof (induction ts arbitrary: a i)
  case (Cons t ts)
  then show ?case by (cases i) (auto simp: add.assoc)
qed simp

lemma spread_size_take: "i < j \<Longrightarrow> j \<le> length ts \<Longrightarrow> ts ! i \<noteq> 8 \<Longrightarrow> spread_size (take i ts) + ts ! i \<le> spread_size (take j ts)"
proof -
  assume a: "i < j" "j \<le> length ts" "ts ! i \<noteq> 8"
  then have "take j ts = take (Suc i) ts @ take (j - Suc i) (drop (Suc i) ts)" by (metis Suc_leI le_add_diff_inverse take_add)
  then show ?thesis using a by (simp add: take_Suc_conv_app_nth)
qed

lemma hash_round_ok:
  "length (fst (hash_round cl ts)) = length ts \<and> snd (hash_round cl ts) = spread_size (fst (hash_round cl ts)) \<and>
   (\<forall>i<length ts. fst (hash_round cl ts) ! i = (if ts ! i = 8 then 8 else ngx_align (ts ! i) cl mod 65536))"
  if "\<forall>t\<in>set ts. t \<noteq> 8 \<longrightarrow> ngx_align t cl mod 65536 \<noteq> 8"
  using that
proof (induction ts)
  case (Cons t ts)
  obtain us len where r: "hash_round cl ts = (us, len)" by (cases "hash_round cl ts")
  show ?case using Cons r by (auto simp: Let_def nth_Cons')
qed simp

text \<open>Buckets with elements have an address of their own, room for the elements and for a null behind them.\<close>

definition hash_layout :: "nat \<Rightarrow> ptr list \<Rightarrow> nat list \<Rightarrow> ptr \<Rightarrow> ptr \<Rightarrow> ngx_hash_key_t list \<Rightarrow> bool" where
  "hash_layout n bks caps lo hi names \<longleftrightarrow> length bks = n \<and>
     (\<forall>k<n. bks ! k \<noteq> 0 \<longleftrightarrow> in_bucket n k names \<noteq> []) \<and>
     (\<forall>k<n. bks ! k \<noteq> 0 \<longrightarrow> 8 dvd bks ! k \<and> lo \<le> bks ! k \<and> bks ! k + caps ! k \<le> hi \<and> elts_size (in_bucket n k names) + 8 \<le> caps ! k \<and> caps ! k < 65536) \<and>
     (\<forall>k<n. \<forall>j<n. k \<noteq> j \<longrightarrow> bks ! k \<noteq> 0 \<longrightarrow> bks ! j \<noteq> 0 \<longrightarrow> bks ! k + caps ! k \<le> bks ! j \<or> bks ! j + caps ! j \<le> bks ! k)"

lemma hash_layoutD:
  assumes "hash_layout n bks caps lo hi names" "k < n"
  shows "bks ! k \<noteq> 0 \<longleftrightarrow> in_bucket n k names \<noteq> []"
    "bks ! k \<noteq> 0 \<Longrightarrow> 8 dvd bks ! k" "bks ! k \<noteq> 0 \<Longrightarrow> lo \<le> bks ! k" "bks ! k \<noteq> 0 \<Longrightarrow> bks ! k + caps ! k \<le> hi"
    "bks ! k \<noteq> 0 \<Longrightarrow> elts_size (in_bucket n k names) + 8 \<le> caps ! k" "bks ! k \<noteq> 0 \<Longrightarrow> caps ! k < 65536"
    "j < n \<Longrightarrow> k \<noteq> j \<Longrightarrow> bks ! k \<noteq> 0 \<Longrightarrow> bks ! j \<noteq> 0 \<Longrightarrow> bks ! k + caps ! k \<le> bks ! j \<or> bks ! j + caps ! j \<le> bks ! k"
  using assms unfolding hash_layout_def by blast+

text \<open>What is in place while the elements are written.\<close>

definition hash_placed :: "nat \<Rightarrow> ptr list \<Rightarrow> memory \<Rightarrow> nat list \<Rightarrow> ngx_hash_key_t list \<Rightarrow> bool" where
  "hash_placed n bks mem test done \<longleftrightarrow> length test = n \<and>
     (\<forall>k<n. test ! k = elts_size (in_bucket n k done) \<and> elts_at mem (bks ! k) (in_bucket n k done))"

lemma hash_place_step:
  assumes "hash_layout n bks caps lo hi (done @ nm # rest)" "hash_placed n bks mem test done" "\<not> key_null nm" "key = key_hash nm mod n" "0 < n"
  shows "hash_placed n bks (hash_store mem (bks ! key + test ! key) nm) (test[key := (test ! key + hash_elt_size nm) mod 65536]) (done @ [nm])"
    "i < lo \<or> hi \<le> i \<Longrightarrow> hash_store mem (bks ! key + test ! key) nm i = mem i"
proof -
  have key: "key < n" and nonempty: "in_bucket n key (done @ nm # rest) \<noteq> []" using assms(3-5) by simp_all
  note lay = hash_layoutD [OF assms(1)]
  have b: "bks ! key \<noteq> 0" using lay(1) [OF key] nonempty by blast
  have test: "test ! key = elts_size (in_bucket n key done)" "length test = n" using assms(2) key by (simp_all add: hash_placed_def)
  have room: "test ! key + hash_elt_size nm + 8 \<le> caps ! key" "caps ! key < 65536" "lo \<le> bks ! key" "bks ! key + caps ! key \<le> hi"
  proof -
    have "in_bucket n key (done @ nm # rest) = in_bucket n key done @ nm # in_bucket n key rest" using assms(3,4) by simp
    then show "test ! key + hash_elt_size nm + 8 \<le> caps ! key" using lay(5) [OF key b] test(1) by simp
  qed (fact lay(6) [OF key b] lay(3) [OF key b] lay(4) [OF key b])+
  let ?mem = "hash_store mem (bks ! key + test ! key) nm"
  let ?test = "test[key := (test ! key + hash_elt_size nm) mod 65536]"
  show "?mem i = mem i" if "i < lo \<or> hi \<le> i" for i
    using hash_store_ok(2) [of i "bks ! key + test ! key" nm mem] that room by auto
  have "?test ! k = elts_size (in_bucket n k (done @ [nm])) \<and> elts_at ?mem (bks ! k) (in_bucket n k (done @ [nm]))" if k: "k < n" for k
  proof (cases "k = key")
    case True
    have "elts_at ?mem (bks ! key) (in_bucket n key done)"
      by (rule elts_at_same [of mem]) (use assms(2) key test hash_store_ok(2) [of _ "bks ! key + test ! key" nm mem] in \<open>auto simp: hash_placed_def\<close>)
    then have "elts_at ?mem (bks ! key) (in_bucket n key done @ [nm])"
      using hash_store_ok(1) [of mem "bks ! key + test ! key" nm] test by (simp add: elts_at_append)
    then show ?thesis using True key test room assms(3,4) by simp
  next
    case False
    have o: "in_bucket n k (done @ [nm]) = in_bucket n k done" using False assms(4) by simp
    have t: "?test ! k = elts_size (in_bucket n k done)" using False assms(2) k by (simp add: hash_placed_def)
    have "elts_at ?mem (bks ! k) (in_bucket n k done)"
    proof (cases "bks ! k = 0")
      case True
      then have "in_bucket n k (done @ nm # rest) = []" using lay(1) [OF k] by blast
      then have "in_bucket n k done = []" by (simp del: in_bucket_simps(2))
      then show ?thesis by simp
    next
      case nonnull: False
      have "elts_size (in_bucket n k done) \<le> caps ! k" using lay(5) [OF k nonnull] by (simp del: in_bucket_simps(2))
      moreover have "bks ! k + caps ! k \<le> bks ! key \<or> bks ! key + caps ! key \<le> bks ! k" by (rule lay(7) [OF k key False nonnull b])
      ultimately have m: "?mem i = mem i" if "bks ! k \<le> i" "i < bks ! k + elts_size (in_bucket n k done)" for i
        using that room by (intro hash_store_ok(2)) auto
      have "elts_at mem (bks ! k) (in_bucket n k done)" using assms(2) k by (simp add: hash_placed_def)
      then show ?thesis by (rule elts_at_same) (rule m)
    qed
    then show ?thesis using t o by simp
  qed
  then show "hash_placed n bks ?mem ?test (done @ [nm])" using test by (simp add: hash_placed_def)
qed

lemma hash_place_ok:
  assumes "hash_layout n bks caps lo hi (done @ rest)" "hash_placed n bks mem test done" "0 < n"
  shows "hash_placed n bks (fst (hash_place n bks mem test rest)) (snd (hash_place n bks mem test rest)) (done @ rest) \<and>
    (\<forall>i. i < lo \<or> hi \<le> i \<longrightarrow> fst (hash_place n bks mem test rest) i = mem i)"
  using assms
proof (induction rest arbitrary: "done" mem test)
  case (Cons nm rest)
  show ?case
  proof (cases "key_null nm")
    case True
    have "in_bucket n k (done @ [nm]) = in_bucket n k done" for k using True by simp
    then have "hash_placed n bks mem test (done @ [nm])" using Cons.prems(2) by (simp add: hash_placed_def)
    then show ?thesis using Cons.IH [of "done @ [nm]" mem test] Cons.prems True by simp
  next
    case False
    let ?k = "key_hash nm mod n"
    note step = hash_place_step [OF Cons.prems(1,2) False refl Cons.prems(3)]
    have "hash_layout n bks caps lo hi ((done @ [nm]) @ rest)" using Cons.prems(1) by simp
    from Cons.IH [OF this step(1) Cons.prems(3)] step(2) show ?thesis using False by (simp add: Let_def)
  qed
qed simp

lemma hash_close_ok:
  "hash_close mem bts i = (if \<exists>(b, t)\<in>set bts. b \<noteq> 0 \<and> b + t \<le> i \<and> i < b + t + 8 then 0 else mem i)"
proof (induction bts arbitrary: mem)
  case (Cons bt bts)
  obtain b t where bt: "bt = (b, t)" by (cases bt)
  have z: "mem_write mem a (le_bytes 8 0) i = (if a \<le> i \<and> i < a + 8 then 0 else mem i)" for a
  proof -
    have "le_bytes k 0 ! j = 0" if "j < k" for j k using that by (induction k arbitrary: j) (auto simp: nth_Cons')
    then have "i - a < 8 \<longrightarrow> le_bytes 8 0 ! (i - a) = 0" by blast
    moreover have "a \<le> i \<and> i - a < 8 \<longleftrightarrow> a \<le> i \<and> i < a + 8" by linarith
    ultimately show ?thesis unfolding mem_write_def le_bytes_length by auto
  qed
  show ?case unfolding bt hash_close.simps Cons.IH by (auto simp: z)
qed simp

subsection \<open>Initialisation\<close>

lemma hash_size_loop_ok:
  "hash_size_loop hinit limit names s = Some n \<Longrightarrow> s \<le> n \<and> n < max_size hinit \<and> hash_fits n (limit mod 65536) (replicate n 0) names"
proof (induction hinit limit names s rule: hash_size_loop.induct)
  case (1 hinit limit names s)
  have "(if s < max_size hinit then if hash_fits s (limit mod 65536) (replicate s 0) names then Some s
      else hash_size_loop hinit limit names (s + 1) else None) = Some n"
    using 1(2) by (subst (asm) hash_size_loop.simps)
  then show ?case using 1(1) by (auto split: if_splits)
qed

text \<open>The first size that fits is found.\<close>

lemma hash_size_loop_finds:
  "s \<le> m \<Longrightarrow> m < max_size hinit \<Longrightarrow> hash_fits m (limit mod 65536) (replicate m 0) names \<Longrightarrow> \<exists>n \<le> m. hash_size_loop hinit limit names s = Some n"
proof (induction hinit limit names s rule: hash_size_loop.induct)
  case (1 hinit limit names s)
  show ?case
  proof (cases "hash_fits s (limit mod 65536) (replicate s 0) names")
    case True
    then show ?thesis using 1(2,3) by (subst hash_size_loop.simps) auto
  next
    case False
    then have "s + 1 \<le> m" using 1(2,4) by (metis Suc_eq_plus1 le_neq_implies_less Suc_leI)
    then show ?thesis using 1 False by (subst hash_size_loop.simps) auto
  qed
qed

lemma spread_size_dvd: "\<forall>t\<in>set ts. t \<noteq> 8 \<longrightarrow> 8 dvd t \<Longrightarrow> 8 dvd spread_size ts"
  by (induction ts) auto

lemma elts_size_pos: "elts_size names = 0 \<longleftrightarrow> names = []"
  by (cases names) (auto simp: hash_elt_size_def)

lemma hash_build_layout:
  assumes fits: "\<And>k. k < n \<Longrightarrow> elts_size (in_bucket n k names) + 8 \<le> limit" and cl: "8 dvd cl" "0 < cl" "limit + cl \<le> 65536"
    and r: "hash_round cl (hash_count n (replicate n 8) names) = (caps, len)" and a: "8 dvd a" "0 < a"
  shows "hash_layout n (hash_spread a caps) caps a (a + len) names"
proof -
  let ?ts = "hash_count n (replicate n 8) names"
  have ts: "?ts ! k = 8 + elts_size (in_bucket n k names)" if "k < n" for k
    using hash_count_ok [of "replicate n 8" n k "replicate n 8" names] fits [OF that] cl that by simp
  have al: "8 + e \<le> ngx_align (8 + e) cl \<and> ngx_align (8 + e) cl < 65536" if "e + 8 \<le> limit" for e
    using align_ge [OF cl(2), of "8 + e"] align_less [OF cl(2), of "8 + e"] that cl(3) by linarith
  have up: "ngx_align t cl mod 65536 \<noteq> 8" if "t \<in> set ?ts" "t \<noteq> 8" for t
  proof -
    obtain k where k: "k < n" "t = 8 + elts_size (in_bucket n k names)" using \<open>t \<in> set ?ts\<close> ts by (auto simp: in_set_conv_nth)
    then show ?thesis using al [OF fits [OF k(1)]] that(2) by auto
  qed
  have len: "length caps = n" "len = spread_size caps" and caps: "\<And>k. k < n \<Longrightarrow> caps ! k = (if ?ts ! k = 8 then 8 else ngx_align (?ts ! k) cl mod 65536)"
    using hash_round_ok [of ?ts cl] up r by auto
  have cap: "caps ! k = 8 \<longleftrightarrow> in_bucket n k names = []" "in_bucket n k names \<noteq> [] \<longrightarrow> caps ! k = ngx_align (8 + elts_size (in_bucket n k names)) cl" if k: "k < n" for k
  proof -
    have "in_bucket n k names \<noteq> [] \<longrightarrow> 0 < elts_size (in_bucket n k names)" using elts_size_pos [of "in_bucket n k names"] by auto
    then show "caps ! k = 8 \<longleftrightarrow> in_bucket n k names = []" "in_bucket n k names \<noteq> [] \<longrightarrow> caps ! k = ngx_align (8 + elts_size (in_bucket n k names)) cl"
      using caps [OF k] ts [OF k] al [OF fits [OF k]] by (cases "in_bucket n k names = []"; simp)+
  qed
  have "\<forall>t\<in>set caps. t \<noteq> 8 \<longrightarrow> 8 dvd t"
  proof (intro ballI impI)
    fix t assume "t \<in> set caps" "t \<noteq> 8"
    then obtain k where "k < n" "t = caps ! k" using len by (auto simp: in_set_conv_nth)
    then have "cl dvd t" using cap [of k] \<open>t \<noteq> 8\<close> align_is_dvd by metis
    then show "8 dvd t" using cl(1) by (rule dvd_trans [rotated])
  qed
  then have d: "8 dvd spread_size (take k caps)" for k using spread_size_dvd [of "take k caps"] by (meson in_set_takeD)
  have b: "hash_spread a caps ! k = (if in_bucket n k names = [] then 0 else a + spread_size (take k caps))" if "k < n" for k
    using hash_spread_nth [of k caps a] cap(1) [OF that] len that by simp
  have up: "spread_size (take k caps) + caps ! k \<le> spread_size (take j caps)" if "k < j" "j \<le> n" "in_bucket n k names \<noteq> []" for k j
    using spread_size_take [of k j caps] that len cap(1) [of k] by simp
  show ?thesis unfolding hash_layout_def
  proof (intro conjI allI impI, goal_cases)
    case 1
    show ?case using len by simp
  next
    case (2 k)
    then show ?case using b a by simp
  next
    case (3 k)
    then show ?case using b [OF 3(1)] d [of k] a by (auto split: if_splits)
  next
    case (4 k)
    then show ?case using b [OF 4(1)] by (auto split: if_splits)
  next
    case (5 k)
    then have "in_bucket n k names \<noteq> []" using b [OF 5(1)] by (auto split: if_splits)
    then show ?case using b [OF 5(1)] up [of k n] 5 len by simp
  next
    case (6 k)
    then have "in_bucket n k names \<noteq> []" using b [OF 6(1)] by (auto split: if_splits)
    then show ?case using cap(2) [OF 6(1)] al [OF fits [OF 6(1)]] by simp
  next
    case (7 k)
    then have "in_bucket n k names \<noteq> []" using b [OF 7(1)] by (auto split: if_splits)
    then show ?case using cap(2) [OF 7(1)] al [OF fits [OF 7(1)]] by simp
  next
    case (8 k j)
    then have e: "in_bucket n k names \<noteq> []" "in_bucket n j names \<noteq> []" using b by (auto split: if_splits)
    consider "k < j" | "j < k" using 8(3) by linarith
    then show ?case using up [of k j] up [of j k] b 8(1,2) e by cases auto
  qed
qed

text \<open>What the search relies on.\<close>

definition hash_ready :: "nat \<Rightarrow> ptr list \<Rightarrow> memory \<Rightarrow> ngx_hash_key_t list \<Rightarrow> bool" where
  "hash_ready n bks mem names \<longleftrightarrow>
     (\<forall>k<n. if in_bucket n k names = [] then bks ! k = 0
       else bks ! k \<noteq> 0 \<and> 8 dvd bks ! k \<and> elts_at mem (bks ! k) (in_bucket n k names) \<and>
         holds mem (bks ! k + elts_size (in_bucket n k names)) (le_bytes 8 0))"

lemma le_bytes_zero: "j < k \<Longrightarrow> le_bytes k 0 ! j = 0"
  by (induction k arbitrary: j) (auto simp: nth_Cons')

lemma hash_build_ready:
  assumes lay: "hash_layout n bks caps lo hi names" and placed: "hash_placed n bks mem test names"
  shows "hash_ready n bks (hash_close mem (zip bks test)) names"
    "i < lo \<or> hi \<le> i \<Longrightarrow> hash_close mem (zip bks test) i = mem i"
proof -
  let ?mem = "hash_close mem (zip bks test)"
  have len: "length bks = n" "length test = n" using lay placed by (simp_all add: hash_layout_def hash_placed_def)
  have test: "test ! k = elts_size (in_bucket n k names)" "elts_at mem (bks ! k) (in_bucket n k names)" if "k < n" for k
    using placed that by (simp_all add: hash_placed_def)
  note layD = hash_layoutD [OF lay]
  have c: "?mem i = (if \<exists>k<n. bks ! k \<noteq> 0 \<and> bks ! k + test ! k \<le> i \<and> i < bks ! k + test ! k + 8 then 0 else mem i)" for i
  proof -
    have "(\<exists>(b, t)\<in>set (zip bks test). b \<noteq> 0 \<and> b + t \<le> i \<and> i < b + t + 8) \<longleftrightarrow>
        (\<exists>k<n. bks ! k \<noteq> 0 \<and> bks ! k + test ! k \<le> i \<and> i < bks ! k + test ! k + 8)"
      unfolding set_zip using len by force
    then show ?thesis by (simp only: hash_close_ok)
  qed
  show "?mem i = mem i" if "i < lo \<or> hi \<le> i" for i
  proof -
    have "\<not> (bks ! k + test ! k \<le> i \<and> i < bks ! k + test ! k + 8)" if "k < n" "bks ! k \<noteq> 0" for k
      using layD(3-5) [OF that] test(1) [OF that(1)] \<open>i < lo \<or> hi \<le> i\<close> by linarith
    then show ?thesis unfolding c by auto
  qed
  show "hash_ready n bks ?mem names" unfolding hash_ready_def
  proof (intro allI impI)
    fix k assume k: "k < n"
    show "if in_bucket n k names = [] then bks ! k = 0
       else bks ! k \<noteq> 0 \<and> 8 dvd bks ! k \<and> elts_at ?mem (bks ! k) (in_bucket n k names) \<and>
         holds ?mem (bks ! k + elts_size (in_bucket n k names)) (le_bytes 8 0)"
    proof (cases "in_bucket n k names = []")
      case True
      then show ?thesis using layD(1) [OF k] by auto
    next
      case False
      then have b: "bks ! k \<noteq> 0" using layD(1) [OF k] by blast
      have same: "?mem i = mem i" if i: "bks ! k \<le> i" "i < bks ! k + elts_size (in_bucket n k names)" for i
      proof -
        have "\<not> (bks ! j + test ! j \<le> i \<and> i < bks ! j + test ! j + 8)" if j: "j < n" "bks ! j \<noteq> 0" for j
        proof (cases "j = k")
          case True
          then show ?thesis using i test(1) [OF k] by simp
        next
          case False
          then show ?thesis using layD(7) [OF k j(1) _ b j(2)] layD(5) [OF k b] layD(5) [OF j] test(1) [OF j(1)] i by linarith
        qed
        then show ?thesis unfolding c by auto
      qed
      have "holds ?mem (bks ! k + elts_size (in_bucket n k names)) (le_bytes 8 0)"
        unfolding holds_nth le_bytes_length
      proof (intro allI impI)
        fix i :: nat assume i: "i < 8"
        let ?i = "bks ! k + elts_size (in_bucket n k names) + i"
        have "\<exists>k<n. bks ! k \<noteq> 0 \<and> bks ! k + test ! k \<le> ?i \<and> ?i < bks ! k + test ! k + 8"
          using b k test(1) [OF k] i by (intro exI [of _ k]) simp
        then have "?mem ?i = 0" unfolding c by simp
        then show "?mem ?i = le_bytes 8 0 ! i" using le_bytes_zero [OF i] by simp
      qed
      moreover have "elts_at ?mem (bks ! k) (in_bucket n k names)" by (rule elts_at_same [OF test(2) [OF k]]) (rule same)
      ultimately show ?thesis using False b layD(2) [OF k b] by simp
    qed
  qed
qed

lemma find_filter: "find P (filter Q xs) = find (\<lambda>x. Q x \<and> P x) xs"
  by (induction xs) auto

lemma find_cong_list: "(\<And>x. x \<in> set xs \<Longrightarrow> P x \<longleftrightarrow> Q x) \<Longrightarrow> find P xs = find Q xs"
  by (induction xs) auto

lemma hash_find_ready:
  assumes "hash_ready n bks mem names" "0 < n" "\<forall>nm\<in>set names. \<not> key_null nm \<longrightarrow> hash_key_ok nm \<and> key_hash nm = H (map tolower (key_str nm))"
  shows "ngx_hash_find mem \<lparr>buckets = bks, hash_size = n\<rparr> (H name) name =
    Some (case find (\<lambda>nm. \<not> key_null nm \<and> map tolower (key_str nm) = name) names of None \<Rightarrow> 0 | Some nm \<Rightarrow> key_value nm)"
proof -
  let ?k = "H name mod n"
  have k: "?k < n" using assms(2) by simp
  have "find (\<lambda>nm. map tolower (key_str nm) = name) (in_bucket n ?k names) =
      find (\<lambda>nm. \<not> key_null nm \<and> map tolower (key_str nm) = name) names"
    unfolding in_bucket_def find_filter by (rule find_cong_list) (use assms(3) in auto)
  then have f: "(case find (\<lambda>nm. \<not> key_null nm \<and> map tolower (key_str nm) = name) names of None \<Rightarrow> 0 | Some nm \<Rightarrow> key_value nm) =
      (case find (\<lambda>nm. map tolower (key_str nm) = name) (in_bucket n ?k names) of None \<Rightarrow> 0 | Some nm \<Rightarrow> key_value nm)" by simp
  show ?thesis
  proof (cases "in_bucket n ?k names = []")
    case True
    then have "bks ! ?k = 0" using assms(1) k by (auto simp: hash_ready_def)
    then show ?thesis unfolding f True by (simp add: ngx_hash_find_def)
  next
    case False
    then have r: "bks ! ?k \<noteq> 0" "8 dvd bks ! ?k" "elts_at mem (bks ! ?k) (in_bucket n ?k names)"
      "holds mem (bks ! ?k + elts_size (in_bucket n ?k names)) (le_bytes 8 0)" using assms(1) k by (auto simp: hash_ready_def)
    have "\<forall>nm\<in>set (in_bucket n ?k names). hash_key_ok nm" using assms(3) by (auto simp: in_bucket_def)
    then show ?thesis unfolding f using hash_walk_ok [OF r(3,4,2), of name] r(1) by (simp add: ngx_hash_find_def)
  qed
qed

subsection \<open>Properties\<close>

text \<open>
  What a table needs: the sizes of the buckets stay within 16 bits, values are not null, and the hashes of the keys are those of
  their lower-case names.
\<close>

definition hash_init_ok :: "ngx_hash_init_t \<Rightarrow> (bytes \<Rightarrow> nat) \<Rightarrow> ngx_hash_key_t list \<Rightarrow> bool" where
  "hash_init_ok hinit H names \<longleftrightarrow>
     8 dvd cacheline_size hinit \<and> 0 < cacheline_size hinit \<and> cacheline_size hinit \<le> 32768 \<and> bucket_size hinit \<le> 32768 \<and>
     list_all (\<lambda>nm. \<not> key_null nm \<longrightarrow> 0 < key_value nm \<and> key_value nm < 2 ^ 64 \<and> key_hash nm = H (map tolower (key_str nm))) names"

lemma hash_start_pos: "0 < hash_start hinit nelts"
  by (auto simp: hash_start_def Let_def)

lemma hash_init_sizes:
  assumes "\<not> list_ex (\<lambda>nm. bucket_size hinit < hash_elt_size nm + 8) names" "hash_fits n ((bucket_size hinit - 8) mod 65536) (replicate n 0) names"
    "hash_init_ok hinit H names" "k < n"
  shows "elts_size (in_bucket n k names) + 8 \<le> max 8 (bucket_size hinit)"
proof (cases "names = []")
  case False
  have e: "hash_elt_size nm + 8 \<le> bucket_size hinit" if "nm \<in> set names" for nm using assms(1) that by (auto simp: list_ex_iff not_less)
  have b: "8 \<le> bucket_size hinit" "bucket_size hinit \<le> 32768"
    using e [of "hd names"] False assms(3) by (auto simp: hash_init_ok_def)
  have "replicate n 0 ! k + elts_size (in_bucket n k names) \<le> bucket_size hinit - 8"
    by (rule hash_fits_ok) (use assms(2,4) b e in \<open>force+\<close>)
  then show ?thesis using assms(4) b by simp
qed simp

lemma hash_build_ok:
  assumes init: "hash_build hinit buckets_ok palloc mem names n = Some (hash, mem')"
    and fits: "\<And>k. k < n \<Longrightarrow> elts_size (in_bucket n k names) + 8 \<le> limit"
    and cl: "8 dvd cacheline_size hinit" "0 < cacheline_size hinit" "limit + cacheline_size hinit \<le> 65536"
    and n: "0 < n" and palloc: "\<forall>k. palloc k \<noteq> Some 0"
  shows "\<exists>bks e k. hash = \<lparr>buckets = bks, hash_size = n\<rparr> \<and> hash_ready n bks mem' names \<and> palloc k = Some e \<and>
    (\<forall>i. i < e \<or> e + k \<le> i \<longrightarrow> mem' i = mem i)"
proof -
  let ?cl = "cacheline_size hinit"
  obtain caps len where r: "hash_round ?cl (hash_count n (replicate n 8) names) = (caps, len)" by fastforce
  obtain e where e: "palloc (len + ?cl) = Some e" using init r by (auto simp: hash_build_def split: if_splits option.splits)
  let ?a = "ngx_align e ?cl"
  let ?bks = "hash_spread ?a caps"
  obtain m test where p: "hash_place n ?bks mem (replicate n 0) names = (m, test)" by fastforce
  have h: "hash = \<lparr>buckets = ?bks, hash_size = n\<rparr>" "mem' = hash_close m (zip ?bks test)"
    using init r e p by (auto simp: hash_build_def Let_def split: if_splits)
  have "0 < e" using e palloc by (metis gr0I)
  then have a: "8 dvd ?a" "0 < ?a" "e \<le> ?a" "?a < e + ?cl"
    using align_is_dvd [of ?cl e] align_ge [OF cl(2), of e] align_less [OF cl(2), of e] cl(1) by (auto intro: dvd_trans)
  have lay: "hash_layout n ?bks caps ?a (?a + len) names" by (rule hash_build_layout [OF fits cl r a(1,2)])
  have "hash_placed n ?bks mem (replicate n 0) []" by (simp add: hash_placed_def)
  from hash_place_ok [of n ?bks caps ?a "?a + len" "[]" names, OF _ this n]
  have placed: "hash_placed n ?bks m test names" "\<And>i. i < ?a \<or> ?a + len \<le> i \<Longrightarrow> m i = mem i" using lay p by auto
  have "mem' i = mem i" if "i < e \<or> e + (len + ?cl) \<le> i" for i
  proof -
    have "i < ?a \<or> ?a + len \<le> i" using that a by linarith
    then show ?thesis using hash_build_ready(2) [OF lay placed(1)] placed(2) h(2) by simp
  qed
  then show ?thesis using h hash_build_ready(1) [OF lay placed(1)] e by blast
qed

lemma hash_init_search:
  assumes "ngx_hash_init hinit test_ok buckets_ok palloc mem names = Some (hash, mem')" "hash_init_ok hinit H names" "\<forall>k. palloc k \<noteq> Some 0"
  shows "ngx_hash_find mem' hash (H name) name =
      Some (case find (\<lambda>nm. \<not> key_null nm \<and> map tolower (key_str nm) = name) names of None \<Rightarrow> 0 | Some nm \<Rightarrow> key_value nm) \<and>
    (\<exists>e k. palloc k = Some e \<and> (\<forall>i. i < e \<or> e + k \<le> i \<longrightarrow> mem' i = mem i))"
proof -
  let ?limit = "max 8 (bucket_size hinit)"
  have small: "\<not> list_ex (\<lambda>nm. bucket_size hinit < hash_elt_size nm + 8) names"
    using assms(1) by (auto simp: ngx_hash_init_def split: if_splits)
  then obtain n where n: "hash_size_loop hinit (bucket_size hinit - 8) names (hash_start hinit (length names)) = Some n"
      "hash_build hinit buckets_ok palloc mem names n = Some (hash, mem')"
    using assms(1) by (auto simp: ngx_hash_init_def split: if_splits option.splits)
  have fits: "hash_fits n ((bucket_size hinit - 8) mod 65536) (replicate n 0) names" and pos: "0 < n"
    using hash_size_loop_ok [OF n(1)] hash_start_pos [of hinit "length names"] by auto
  have "8 dvd cacheline_size hinit" "0 < cacheline_size hinit" "?limit + cacheline_size hinit \<le> 65536"
    using assms(2) by (auto simp: hash_init_ok_def)
  from hash_build_ok [OF n(2) hash_init_sizes [OF small fits assms(2)] this pos assms(3)]
  obtain bks e k where b: "hash = \<lparr>buckets = bks, hash_size = n\<rparr>" "hash_ready n bks mem' names" "palloc k = Some e"
    "\<forall>i. i < e \<or> e + k \<le> i \<longrightarrow> mem' i = mem i" by blast
  have "\<forall>nm\<in>set names. \<not> key_null nm \<longrightarrow> hash_key_ok nm \<and> key_hash nm = H (map tolower (key_str nm))"
  proof (intro ballI impI)
    fix nm assume nm: "nm \<in> set names" "\<not> key_null nm"
    have "length (key_str nm) < 65536"
    proof -
      have "hash_elt_size nm + 8 \<le> bucket_size hinit" using small nm(1) by (auto simp: list_ex_iff not_less)
      then show ?thesis using assms(2) elt_bytes_length [of nm] by (auto simp: hash_init_ok_def)
    qed
    then show "hash_key_ok nm \<and> key_hash nm = H (map tolower (key_str nm))" using assms(2) nm by (auto simp: hash_init_ok_def hash_key_ok_def list_all_iff)
  qed
  from hash_find_ready [OF b(2) pos this, of name] show ?thesis unfolding b(1) using b(3,4) by blast
qed

text \<open>
  C37: Searched by the hash of a name, a table that \<open>ngx_hash_init\<close> has built, with a \<open>bucket_size\<close> of at most 32768, gives the value of
  the first key with this name in lower case, and null when there is none; and the construction writes only to the block it was given.  The
  values are not null, each key comes with the hash of its lower-case name, and cache lines are a multiple of 8 of at most 32768 bytes.  Above 32768
  the 16-bit sum of the sizes in a bucket can wrap, and the construction then writes past its block.
\<close>

theorem hash_init_find:
  assumes "ngx_hash_init hinit test_ok buckets_ok palloc mem names = Some (hash, mem')" "hash_init_ok hinit H names" "\<forall>k. palloc k \<noteq> Some 0"
  shows "ngx_hash_find mem' hash (H name) name =
      Some (case find (\<lambda>nm. \<not> key_null nm \<and> map tolower (key_str nm) = name) names of None \<Rightarrow> 0 | Some nm \<Rightarrow> key_value nm) \<and>
    (\<exists>e k. palloc k = Some e \<and> (\<forall>i. i < e \<or> e + k \<le> i \<longrightarrow> mem' i = mem i))"
  using assms by (rule hash_init_search)

lemma hash_build_some: "hash_build hinit True (\<lambda>k. Some e) mem names n \<noteq> None"
  by (auto simp: hash_build_def Let_def split: prod.splits)

text \<open>Three keys, one of them deleted, in a table with two buckets.\<close>

definition hash_example :: "ngx_hash_key_t list" where
  "hash_example =
     [\<lparr>key_str = bs ''Host'', key_null = False, key_hash = 4, key_value = 11\<rparr>,
      \<lparr>key_str = bs ''Age'', key_null = True, key_hash = 3, key_value = 12\<rparr>,
      \<lparr>key_str = bs ''Range'', key_null = False, key_hash = 5, key_value = 13\<rparr>]"

lemma hash_init_find_witness:
  "\<exists>hash mem'. ngx_hash_init \<lparr>max_size = 10, bucket_size = 32, cacheline_size = 64\<rparr> True True (\<lambda>k. Some 1000) (\<lambda>i. 0xff) hash_example = Some (hash, mem') \<and>
    ngx_hash_find mem' hash 5 (bs ''range'') = Some 13"
proof -
  let ?hinit = "\<lparr>max_size = 10, bucket_size = 32, cacheline_size = 64\<rparr>"
  let ?init = "ngx_hash_init ?hinit True True (\<lambda>k. Some 1000) (\<lambda>i. 0xff) hash_example"
  define e0 e1 e2 where e: "e0 = hash_example ! 0" "e1 = hash_example ! 1" "e2 = hash_example ! 2"
  have ex: "hash_example = [e0, e1, e2]" by (simp add: e hash_example_def)
  have len: "hash_elt_size e0 = 16" "hash_elt_size e1 = 16" "hash_elt_size e2 = 16"
    by (simp_all add: e hash_example_def hash_elt_size_def ngx_align_def)
  have keys: "\<not> key_null e0" "key_null e1" "\<not> key_null e2" "key_hash e0 = 4" "key_hash e2 = 5" "key_value e0 = 11" "key_value e2 = 13"
    by (simp_all add: e hash_example_def)
  have low: "map tolower (key_str e0) = bs ''host''" "map tolower (key_str e2) = bs ''range''" unfolding e by code_simp+
  have r: "replicate 3 0 = [0, 0, 0 :: nat]" by (simp add: numeral_3_eq_3)
  have "hash_fits 3 24 (replicate 3 0) hash_example"
    unfolding r by (subst ex) (simp add: keys len Let_def)
  moreover have "hash_start ?hinit 3 = 3" by (simp add: hash_start_def)
  ultimately have "hash_size_loop ?hinit 24 hash_example (hash_start ?hinit 3) = Some 3"
    by (subst hash_size_loop.simps) simp
  moreover have "\<not> list_ex (\<lambda>nm. 32 < hash_elt_size nm + 8) hash_example" by (subst ex) (simp add: len)
  moreover have "length hash_example = 3" by (simp add: hash_example_def)
  ultimately have "?init \<noteq> None" using hash_build_some [of _ 1000] by (simp add: ngx_hash_init_def)
  then obtain hash mem' where i: "?init = Some (hash, mem')" by auto
  have ok: "hash_init_ok ?hinit length hash_example"
    unfolding hash_init_ok_def by (subst ex) (simp add: keys e hash_example_def)
  have f: "find (\<lambda>nm. \<not> key_null nm \<and> map tolower (key_str nm) = bs ''range'') hash_example = Some (e2)"
    by (subst ex) (simp add: keys low)
  have "ngx_hash_find mem' hash (length (bs ''range'')) (bs ''range'') = Some 13"
    using hash_init_find [OF i ok, of "bs ''range''"] unfolding f by (simp add: keys)
  moreover have "length (bs ''range'') = 5" by simp
  ultimately show ?thesis using i by metis
qed

subsection \<open>Wildcards\<close>

text \<open>The structures that the wildcard pointers lead to are found by a map from addresses; a table without buckets has none.\<close>

record ngx_hash_wildcard_t =
  wc_hash :: ngx_hash_t
  wc_value :: nat

record ngx_hash_combined_t =
  plain_hash :: ngx_hash_t
  wc_head :: ptr
  wc_tail :: ptr

type_synonym wildcards = "ptr \<Rightarrow> ngx_hash_wildcard_t"

definition label_key :: "bytes \<Rightarrow> nat" where
  "label_key l = unat (foldl ngx_hash 0 l)"

text \<open>\<open>while (n) { if (name[n - 1] == '.') break; n--; }\<close>\<close>

fun wc_label_start :: "bytes \<Rightarrow> nat \<Rightarrow> nat" where
  "wc_label_start name 0 = 0"
| "wc_label_start name (Suc n) = (if name ! n = c_dot then Suc n else wc_label_start name n)"

lemma wc_label_start_le: "wc_label_start name n \<le> n"
  by (induction n) (auto simp: le_Suc_eq)

text \<open>\<open>value & ~3\<close> and \<open>value & 2\<close>\<close>

definition wc_pointer :: "nat \<Rightarrow> ptr" where
  "wc_pointer v = v div 4 * 4"

definition wc_is_pointer :: "nat \<Rightarrow> bool" where
  "wc_is_pointer v \<longleftrightarrow> odd (v div 2)"

function ngx_hash_find_wc_head :: "memory \<Rightarrow> wildcards \<Rightarrow> ptr \<Rightarrow> bytes \<Rightarrow> nat option" where
  "ngx_hash_find_wc_head mem wcs hwc name =
     (let n = wc_label_start name (length name);
          key = label_key (drop n name)
      in case ngx_hash_find mem (wc_hash (wcs hwc)) key (drop n name) of
           None \<Rightarrow> None
         | Some v \<Rightarrow>
             if v \<noteq> 0 then
               if wc_is_pointer v then
                 if n = 0 then if odd v then Some 0 else Some (wc_value (wcs (wc_pointer v)))
                 else
                   case ngx_hash_find_wc_head mem wcs (wc_pointer v) (take (n - 1) name) of
                     None \<Rightarrow> None
                   | Some w \<Rightarrow> if w \<noteq> 0 then Some w else Some (wc_value (wcs (wc_pointer v)))
               else if odd v then if n = 0 then Some 0 else Some (wc_pointer v)
               else Some v
             else Some (wc_value (wcs hwc)))"
  by pat_completeness auto
termination
proof (relation "measure (\<lambda>(mem, wcs, hwc, name). length name)", goal_cases)
  case (2 mem wcs hwc name n key v)
  then show ?case using wc_label_start_le [of name "length name"] by simp
qed simp

function ngx_hash_find_wc_tail :: "memory \<Rightarrow> wildcards \<Rightarrow> ptr \<Rightarrow> bytes \<Rightarrow> nat option" where
  "ngx_hash_find_wc_tail mem wcs hwc name =
     (let i = length (takeWhile (\<lambda>c. c \<noteq> c_dot) name);
          key = label_key (take i name)
      in if i = length name then Some 0
         else
           case ngx_hash_find mem (wc_hash (wcs hwc)) key (take i name) of
             None \<Rightarrow> None
           | Some v \<Rightarrow>
               if v \<noteq> 0 then
                 if wc_is_pointer v then
                   case ngx_hash_find_wc_tail mem wcs (wc_pointer v) (drop (i + 1) name) of
                     None \<Rightarrow> None
                   | Some w \<Rightarrow> if w \<noteq> 0 then Some w else Some (wc_value (wcs (wc_pointer v)))
                 else Some v
               else Some (wc_value (wcs hwc)))"
  by pat_completeness auto
termination
proof (relation "measure (\<lambda>(mem, wcs, hwc, name). length name)", goal_cases)
  case (2 mem wcs hwc name i key v)
  then show ?case using length_takeWhile_le [of "\<lambda>c. c \<noteq> c_dot" name] by simp
qed simp

declare ngx_hash_find_wc_head.simps [simp del] ngx_hash_find_wc_tail.simps [simp del]

definition ngx_hash_find_combined :: "memory \<Rightarrow> wildcards \<Rightarrow> ngx_hash_combined_t \<Rightarrow> nat \<Rightarrow> bytes \<Rightarrow> nat option" where
  "ngx_hash_find_combined mem wcs hash key name =
     (let search = (\<lambda>p find next. if p then case find of None \<Rightarrow> None | Some v \<Rightarrow> if v \<noteq> 0 then Some v else next else next)
      in search (buckets (plain_hash hash) \<noteq> []) (ngx_hash_find mem (plain_hash hash) key name)
         (if name = [] then Some 0
          else
            search (wc_head hash \<noteq> NULL \<and> buckets (wc_hash (wcs (wc_head hash))) \<noteq> []) (ngx_hash_find_wc_head mem wcs (wc_head hash) name)
              (search (wc_tail hash \<noteq> NULL \<and> buckets (wc_hash (wcs (wc_tail hash))) \<noteq> []) (ngx_hash_find_wc_tail mem wcs (wc_tail hash) name)
                (Some 0))))"

subsection \<open>Tries of labels\<close>

text \<open>
  A table of wildcards stands for a trie: for each label nothing, a value or another table, which has a value of its own or 0.
  The flag says that the name itself is not meant.
\<close>

datatype wc_trie = Wc (wc_default: nat) (wc_kids: "bytes \<Rightarrow> wc_kid option")
  and wc_kid = Leaf bool nat | Sub bool wc_trie

inductive wc_rep :: "memory \<Rightarrow> wildcards \<Rightarrow> ptr \<Rightarrow> wc_trie \<Rightarrow> bool"
  and kid_rep :: "memory \<Rightarrow> wildcards \<Rightarrow> nat option \<Rightarrow> wc_kid option \<Rightarrow> bool"
  for mem :: memory and wcs :: wildcards where
  table: "wc_value (wcs hwc) = d \<Longrightarrow> (\<And>l. c_dot \<notin> set l \<Longrightarrow> kid_rep mem wcs (ngx_hash_find mem (wc_hash (wcs hwc)) (label_key l) l) (kids l)) \<Longrightarrow>
     wc_rep mem wcs hwc (Wc d kids)"
| none: "kid_rep mem wcs (Some 0) None"
| leaf: "0 < v \<Longrightarrow> 4 dvd v \<Longrightarrow> kid_rep mem wcs (Some (v + of_bool only)) (Some (Leaf only v))"
| sub: "4 dvd p \<Longrightarrow> wc_rep mem wcs p t \<Longrightarrow> kid_rep mem wcs (Some (p + 2 + of_bool only)) (Some (Sub only t))"

inductive_cases wc_repE: "wc_rep mem wcs hwc t"

fun wc_lookup_head :: "wc_trie \<Rightarrow> bytes list \<Rightarrow> nat" where
  "wc_lookup_head (Wc d kids) [] = d"
| "wc_lookup_head (Wc d kids) (l # ls) =
     (case kids l of
        None \<Rightarrow> d
      | Some (Leaf only v) \<Rightarrow> if only \<and> ls = [] then 0 else v
      | Some (Sub only t) \<Rightarrow>
          if ls = [] then if only then 0 else wc_default t
          else if wc_lookup_head t ls \<noteq> 0 then wc_lookup_head t ls else wc_default t)"

fun wc_lookup_tail :: "wc_trie \<Rightarrow> bytes list \<Rightarrow> nat" where
  "wc_lookup_tail (Wc d kids) (l # l' # ls) =
     (case kids l of
        None \<Rightarrow> d
      | Some (Leaf only v) \<Rightarrow> v + of_bool only
      | Some (Sub only t) \<Rightarrow> if wc_lookup_tail t (l' # ls) \<noteq> 0 then wc_lookup_tail t (l' # ls) else wc_default t)"
| "wc_lookup_tail t ls = 0"

text \<open>Names, by their labels from the last to the first and from the first to the last.\<close>

fun dotted_head :: "bytes list \<Rightarrow> bytes" where
  "dotted_head [] = []"
| "dotted_head (l # ls) = (if ls = [] then l else dotted_head ls @ c_dot # l)"

fun dotted_tail :: "bytes list \<Rightarrow> bytes" where
  "dotted_tail [] = []"
| "dotted_tail (l # ls) = (if ls = [] then l else l @ c_dot # dotted_tail ls)"

lemma wc_label_start_ok:
  "c_dot \<notin> set l \<Longrightarrow> a = [] \<or> last a = c_dot \<Longrightarrow> length a \<le> i \<Longrightarrow> i \<le> length (a @ l) \<Longrightarrow> wc_label_start (a @ l) i = length a"
proof (induction i)
  case (Suc i)
  show ?case
  proof (cases "Suc i = length a")
    case True
    then have "(a @ l) ! i = c_dot" using Suc.prems(2) by (cases a rule: rev_cases) (auto simp: nth_append)
    then have "wc_label_start (a @ l) (Suc i) = Suc i" by simp
    then show ?thesis using True by simp
  next
    case False
    then have "(a @ l) ! i = l ! (i - length a)" "i - length a < length l" using Suc.prems by (auto simp: nth_append)
    then have "(a @ l) ! i \<noteq> c_dot" using Suc.prems(1) by (metis nth_mem)
    then show ?thesis using Suc False by simp
  qed
qed simp

text \<open>Even values are data, and 2 and 3 mark pointers.\<close>

lemma wc_bits:
  "4 dvd v \<Longrightarrow> \<not> wc_is_pointer (v + of_bool only) \<and> wc_is_pointer (v + 2 + of_bool only) \<and> odd (v + of_bool only) = only \<and>
    odd (v + 2 + of_bool only) = only \<and> wc_pointer (v + of_bool only) = v \<and> wc_pointer (v + 2 + of_bool only) = v"
  by (cases only) (auto elim!: dvdE simp: wc_is_pointer_def wc_pointer_def)

lemma wc_find_head_ok:
  assumes "wc_rep mem wcs hwc t" "ls \<noteq> []" "\<forall>l\<in>set ls. c_dot \<notin> set l"
  shows "ngx_hash_find_wc_head mem wcs hwc (dotted_head ls) = Some (wc_lookup_head t ls)"
  using assms
proof (induction ls arbitrary: hwc t)
  case (Cons l ls)
  obtain d kids where t: "t = Wc d kids" by (cases t)
  have d: "wc_value (wcs hwc) = d" and kid: "kid_rep mem wcs (ngx_hash_find mem (wc_hash (wcs hwc)) (label_key l) l) (kids l)"
    using Cons.prems(1,3) unfolding t by (auto elim!: wc_repE)
  define a where "a = (if ls = [] then [] else dotted_head ls @ [c_dot])"
  have name: "dotted_head (l # ls) = a @ l" by (simp add: a_def)
  have n: "wc_label_start (a @ l) (length (a @ l)) = length a"
    by (rule wc_label_start_ok) (use Cons.prems(3) in \<open>auto simp: a_def\<close>)
  have rest: "take (length a - 1) (a @ l) = dotted_head ls" "length a = 0 \<longleftrightarrow> ls = []" by (simp_all add: a_def)
  note loop = ngx_hash_find_wc_head.simps [of mem wcs hwc "a @ l", unfolded n Let_def drop_append diff_self_eq_0 drop_all [OF order_refl] append_Nil drop_0 rest]
  from kid show ?case
  proof (cases rule: kid_rep.cases)
    case empty: none
    show ?thesis unfolding name loop t using empty d by simp
  next
    case leaf: (leaf v only)
    show ?thesis unfolding name loop t using leaf wc_bits [OF leaf(4), of only] by auto
  next
    case sub: (sub p t' only)
    have v: "wc_value (wcs p) = wc_default t'" using sub(4) by (auto elim: wc_repE)
    have "ls \<noteq> [] \<Longrightarrow> ngx_hash_find_wc_head mem wcs p (dotted_head ls) = Some (wc_lookup_head t' ls)"
      by (rule Cons.IH [OF sub(4)]) (use Cons.prems(3) in auto)
    then show ?thesis unfolding name loop t using wc_bits [OF sub(3), of only] sub(1,2) v by auto
  qed
qed simp

lemma wc_find_tail_ok:
  assumes "wc_rep mem wcs hwc t" "ls \<noteq> []" "\<forall>l\<in>set ls. c_dot \<notin> set l"
  shows "ngx_hash_find_wc_tail mem wcs hwc (dotted_tail ls) = Some (wc_lookup_tail t ls)"
  using assms
proof (induction ls arbitrary: hwc t)
  case (Cons l ls)
  obtain d kids where t: "t = Wc d kids" by (cases t)
  have d: "wc_value (wcs hwc) = d" and kid: "kid_rep mem wcs (ngx_hash_find mem (wc_hash (wcs hwc)) (label_key l) l) (kids l)"
    using Cons.prems(1,3) unfolding t by (auto elim!: wc_repE)
  have l: "\<forall>c\<in>set l. c \<noteq> c_dot" using Cons.prems(3) by auto
  show ?case
  proof (cases ls)
    case Nil
    have tw: "takeWhile (\<lambda>c. c \<noteq> c_dot) l = l" using l by (simp add: takeWhile_eq_all_conv)
    have "dotted_tail (l # ls) = l" using Nil by simp
    then show ?thesis unfolding Nil t by (subst ngx_hash_find_wc_tail.simps) (simp add: tw del: takeWhile_eq_all_conv)
  next
    case (Cons l' ls')
    have name: "dotted_tail (l # ls) = l @ c_dot # dotted_tail ls" using Cons by simp
    have tw: "takeWhile (\<lambda>c. c \<noteq> c_dot) (l @ c_dot # dotted_tail ls) = l" using l by (subst takeWhile_append2) auto
    have dr: "drop (length l + 1) (l @ c_dot # dotted_tail ls) = dotted_tail ls" by simp
    have ta: "take (length l) (l @ c_dot # dotted_tail ls) = l" by simp
    have loop: "ngx_hash_find_wc_tail mem wcs hwc (dotted_tail (l # ls)) =
       (case ngx_hash_find mem (wc_hash (wcs hwc)) (label_key l) l of
             None \<Rightarrow> None
           | Some v \<Rightarrow>
               if v \<noteq> 0 then
                 if wc_is_pointer v then
                   case ngx_hash_find_wc_tail mem wcs (wc_pointer v) (dotted_tail ls) of
                     None \<Rightarrow> None
                   | Some w \<Rightarrow> if w \<noteq> 0 then Some w else Some (wc_value (wcs (wc_pointer v)))
                 else Some v
               else Some (wc_value (wcs hwc)))"
      unfolding name ngx_hash_find_wc_tail.simps [of mem wcs hwc "l @ c_dot # dotted_tail ls"] Let_def tw dr ta by simp
    have look: "wc_lookup_tail t (l # ls) =
      (case kids l of
         None \<Rightarrow> d
       | Some (Leaf only v) \<Rightarrow> v + of_bool only
       | Some (Sub only t) \<Rightarrow> if wc_lookup_tail t ls \<noteq> 0 then wc_lookup_tail t ls else wc_default t)"
      unfolding Cons t by (rule wc_lookup_tail.simps(1))
    from kid show ?thesis
    proof (cases rule: kid_rep.cases)
      case empty: none
      show ?thesis unfolding loop look using empty d by simp
    next
      case leaf: (leaf v only)
      show ?thesis unfolding loop look using leaf wc_bits [OF leaf(4), of only] by auto
    next
      case sub: (sub p t' only)
      have v: "wc_value (wcs p) = wc_default t'" using sub(4) by (auto elim: wc_repE)
      have "ngx_hash_find_wc_tail mem wcs p (dotted_tail ls) = Some (wc_lookup_tail t' ls)"
        by (rule Cons.IH [OF sub(4)]) (use Cons Cons.prems(3) in auto)
      then show ?thesis unfolding loop look using wc_bits [OF sub(3), of only] sub(1,2) v by auto
    qed
  qed
qed simp

subsection \<open>The longest wildcard\<close>

text \<open>
  The patterns of a trie with their values, by their labels: a wildcard matches what is longer than its labels, and a plain name
  only itself.
\<close>

fun wc_pattern :: "wc_trie \<Rightarrow> bytes list \<Rightarrow> bool \<Rightarrow> nat \<Rightarrow> bool" where
  "wc_pattern t [] wild v = False"
| "wc_pattern (Wc d kids) (l # p) wild v =
     (case kids l of
        None \<Rightarrow> False
      | Some (Leaf only w) \<Rightarrow> p = [] \<and> (only \<longrightarrow> wild) \<and> v = w \<and> v \<noteq> 0
      | Some (Sub only t) \<Rightarrow> if p = [] then (only \<longrightarrow> wild) \<and> v = wc_default t \<and> v \<noteq> 0 else wc_pattern t p wild v)"

definition wc_matches :: "bytes list \<Rightarrow> bool \<Rightarrow> bytes list \<Rightarrow> bool" where
  "wc_matches p wild ls = (if wild then strict_prefix p ls else p = ls)"

lemma wc_matches_simps [simp]:
  "wc_matches (l # p) wild (l' # ls) \<longleftrightarrow> l = l' \<and> wc_matches p wild ls"
  "wc_matches [] wild ls \<longleftrightarrow> (if wild then ls \<noteq> [] else ls = [])"
  "wc_matches (l # p) wild [] = False"
  by (cases ls; auto simp: wc_matches_def)+

text \<open>The value is that of the longest pattern that matches, or there is none.\<close>

definition wc_best :: "wc_trie \<Rightarrow> bytes list \<Rightarrow> nat \<Rightarrow> bool" where
  "wc_best t ls v \<longleftrightarrow> v \<noteq> 0 \<and> (\<exists>p wild. wc_pattern t p wild v \<and> wc_matches p wild ls \<and>
     (\<forall>p' wild' v'. wc_pattern t p' wild' v' \<and> wc_matches p' wild' ls \<longrightarrow> length p' \<le> length p))"

definition wc_none :: "wc_trie \<Rightarrow> bytes list \<Rightarrow> bool" where
  "wc_none t ls \<longleftrightarrow> \<not> (\<exists>p wild v. wc_pattern t p wild v \<and> wc_matches p wild ls)"

lemma wc_pattern_first: "wc_pattern t p wild v \<Longrightarrow> wc_matches p wild (l # ls) \<Longrightarrow> \<exists>q. p = l # q \<and> wc_matches q wild ls"
  by (cases p) auto

lemma wc_head_spec: "ls \<noteq> [] \<Longrightarrow> wc_best t ls (wc_lookup_head t ls) \<or> wc_none t ls \<and> (wc_lookup_head t ls = 0 \<or> wc_lookup_head t ls = wc_default t)"
proof (induction ls arbitrary: t)
  case (Cons l ls)
  obtain d kids where t: "t = Wc d kids" by (cases t)
  have none: "wc_none t (l # ls)" if "\<And>q wild v. wc_matches q wild ls \<Longrightarrow> \<not> wc_pattern t (l # q) wild v"
    using that wc_pattern_first [of t _ _ _ l ls] unfolding wc_none_def by blast
  have best: "wc_best t (l # ls) v" if "v \<noteq> 0" "wc_pattern t (l # q) wild v" "wc_matches q wild ls"
    "\<And>q' wild' v'. wc_matches q' wild' ls \<Longrightarrow> wc_pattern t (l # q') wild' v' \<Longrightarrow> length q' \<le> length q" for v q wild
  proof -
    note longest = that(4)
    have "length p' \<le> length (l # q)" if p': "wc_pattern t p' wild' v'" "wc_matches p' wild' (l # ls)" for p' wild' v'
      using wc_pattern_first [OF p'] p'(1) longest by auto
    moreover have "wc_matches (l # q) wild (l # ls)" using that(3) by simp
    ultimately show ?thesis unfolding wc_best_def using that(1,2) by blast
  qed
  show ?case
  proof (cases "kids l")
    case None
    then show ?thesis using none t by simp
  next
    case kid: (Some k)
    show ?thesis
    proof (cases k)
      case (Leaf only v)
      show ?thesis
      proof (cases "v = 0 \<or> (only \<and> ls = [])")
        case True
        then have "wc_none t (l # ls)" using kid Leaf t by (intro none) (auto split: if_splits)
        moreover have "wc_lookup_head t (l # ls) = 0" using True kid Leaf t by auto
        ultimately show ?thesis by simp
      next
        case False
        then have "wc_best t (l # ls) v" using kid Leaf t by (intro best [of v "[]" "ls \<noteq> []"]) (auto split: if_splits)
        then show ?thesis using False kid Leaf t by auto
      qed
    next
      case (Sub only s)
      have pat: "wc_pattern t (l # q) wild v \<longleftrightarrow> (if q = [] then (only \<longrightarrow> wild) \<and> v = wc_default s \<and> v \<noteq> 0 else wc_pattern s q wild v)" for q wild v
        using kid Sub t by simp
      show ?thesis
      proof (cases "ls = []")
        case True
        have look: "wc_lookup_head t (l # ls) = (if only then 0 else wc_default s)" using True kid Sub t by simp
        show ?thesis
        proof (cases "only \<or> wc_default s = 0")
          case c: True
          then have "wc_none t (l # ls)" using True by (intro none) (auto simp: pat wc_matches_def split: if_splits)
          then show ?thesis using c look by auto
        next
          case c: False
          have "wc_best t (l # ls) (wc_default s)"
          proof (rule best [of _ "[]" False])
            show "wc_default s \<noteq> 0" "wc_pattern t [l] False (wc_default s)" "wc_matches [] False ls" using c True by (simp_all add: pat)
            fix q' wild' v' assume "wc_matches q' wild' ls"
            then show "length q' \<le> length ([] :: bytes list)" using True by (simp add: wc_matches_def split: if_splits)
          qed
          then show ?thesis using c look by simp
        qed
      next
        case ls: False
        have look: "wc_lookup_head t (l # ls) = (if wc_lookup_head s ls \<noteq> 0 then wc_lookup_head s ls else wc_default s)" using ls kid Sub t by simp
        from Cons.IH [OF ls, of s] show ?thesis
        proof
          assume b: "wc_best s ls (wc_lookup_head s ls)"
          then obtain q wild where q: "wc_lookup_head s ls \<noteq> 0" "wc_pattern s q wild (wc_lookup_head s ls)" "wc_matches q wild ls"
            "\<And>p' wild' v'. wc_pattern s p' wild' v' \<Longrightarrow> wc_matches p' wild' ls \<Longrightarrow> length p' \<le> length q" unfolding wc_best_def by blast
          have "q \<noteq> []" using q(2) by auto
          then have "wc_best t (l # ls) (wc_lookup_head s ls)"
            using q by (intro best [of _ q wild]) (auto simp: pat split: if_splits)
          then show ?thesis using look q(1) by simp
        next
          assume n: "wc_none s ls \<and> (wc_lookup_head s ls = 0 \<or> wc_lookup_head s ls = wc_default s)"
          then have v: "wc_lookup_head t (l # ls) = wc_default s" using look by auto
          show ?thesis
          proof (cases "wc_default s = 0")
            case True
            then have "wc_none t (l # ls)" using n by (intro none) (auto simp: pat wc_none_def)
            then show ?thesis using v True by simp
          next
            case False
            have "wc_best t (l # ls) (wc_default s)"
            proof (rule best [of _ "[]" True])
              show "wc_default s \<noteq> 0" "wc_pattern t [l] True (wc_default s)" "wc_matches [] True ls" using False ls by (simp_all add: pat)
              fix q' wild' v' assume "wc_matches q' wild' ls" "wc_pattern t (l # q') wild' v'"
              then show "length q' \<le> length ([] :: bytes list)" using n unfolding pat wc_none_def by (cases "q' = []") auto
            qed
            then show ?thesis using v by simp
          qed
        qed
      qed
    qed
  qed
qed simp

text \<open>In a trie of names that end in a wildcard no name is meant itself, and values have no mark.\<close>

primrec only_trie :: "wc_trie \<Rightarrow> wc_trie" and only_kid :: "wc_kid \<Rightarrow> wc_kid" where
  "only_trie (Wc d kids) = Wc d (map_option only_kid \<circ> kids)"
| "only_kid (Leaf only v) = Leaf True v"
| "only_kid (Sub only t) = Sub True (only_trie t)"

inductive wc_open :: "wc_trie \<Rightarrow> bool" where
  wc_open: "(\<And>l v. kids l \<noteq> Some (Leaf True v)) \<Longrightarrow> (\<And>l only t. kids l = Some (Sub only t) \<Longrightarrow> wc_open t) \<Longrightarrow> wc_open (Wc d kids)"

inductive_cases wc_openE: "wc_open (Wc d kids)"

lemma only_trie_default [simp]: "wc_default (only_trie t) = wc_default t"
  by (cases t) simp

lemma wc_tail_head:
  assumes "wc_open t" "2 \<le> length ls"
  shows "wc_lookup_tail t ls = wc_lookup_head (only_trie t) ls"
  using assms
proof (induction ls arbitrary: t)
  case (Cons l ls)
  obtain d kids where t: "t = Wc d kids" by (cases t)
  obtain l' ls' where ls: "ls = l' # ls'" using Cons.prems(2) by (cases ls) auto
  show ?case
  proof (cases "kids l")
    case None
    then show ?thesis using t ls by simp
  next
    case kid: (Some k)
    show ?thesis
    proof (cases k)
      case (Leaf only v)
      then have "\<not> only" using Cons.prems(1) kid t by (auto elim: wc_openE)
      then show ?thesis using Leaf kid t ls by simp
    next
      case (Sub only s)
      have s: "wc_open s" using Cons.prems(1) kid t Sub by (auto elim: wc_openE)
      have eq: "(if wc_lookup_tail s ls \<noteq> 0 then wc_lookup_tail s ls else wc_default s) =
          (if wc_lookup_head (only_trie s) ls \<noteq> 0 then wc_lookup_head (only_trie s) ls else wc_default s)"
      proof (cases ls')
        case Nil
        obtain e ks where "s = Wc e ks" by (cases s)
        moreover have "wc_lookup_head (only_trie s) [l'] = 0 \<or> wc_lookup_head (only_trie s) [l'] = wc_default s"
        proof (cases "ks l'")
          case None
          then show ?thesis using \<open>s = Wc e ks\<close> by simp
        next
          case (Some k)
          then show ?thesis using \<open>s = Wc e ks\<close> by (cases k) simp_all
        qed
        ultimately show ?thesis using ls Nil by auto
      next
        case (Cons l'' ls'')
        then show ?thesis using Cons.IH [OF s] ls by simp
      qed
      have "wc_lookup_tail t (l # ls) = (if wc_lookup_tail s ls \<noteq> 0 then wc_lookup_tail s ls else wc_default s)"
        unfolding t ls by (simp add: kid Sub)
      moreover have "wc_lookup_head (only_trie t) (l # ls) =
          (if wc_lookup_head (only_trie s) ls \<noteq> 0 then wc_lookup_head (only_trie s) ls else wc_default s)"
        unfolding t ls by (simp add: kid Sub)
      ultimately show ?thesis using eq by simp
    qed
  qed
qed simp

lemma wc_best_pos: "wc_best t ls v \<Longrightarrow> v \<noteq> 0" "wc_best t ls v \<Longrightarrow> \<not> wc_none t ls"
  by (auto simp: wc_best_def wc_none_def)

lemma wc_tail_spec:
  assumes "wc_open t" "wc_default t = 0" "ls \<noteq> []"
  shows "if wc_none (only_trie t) ls then wc_lookup_tail t ls = 0 else wc_best (only_trie t) ls (wc_lookup_tail t ls)"
proof -
  have "wc_lookup_tail t ls = wc_lookup_head (only_trie t) ls"
  proof (cases "2 \<le> length ls")
    case False
    then obtain l where ls: "ls = [l]" using assms(3) by (cases ls; cases "tl ls") auto
    obtain kids where t: "t = Wc 0 kids" using assms(2) by (cases t) auto
    show ?thesis
    proof (cases "kids l")
      case (Some k)
      then show ?thesis unfolding ls t by (cases k) simp_all
    qed (simp add: ls t)
  qed (use wc_tail_head assms(1) in blast)
  then show ?thesis using wc_head_spec [OF assms(3), of "only_trie t"] assms(2) wc_best_pos by auto
qed

lemma dotted_tail_snoc: "ls \<noteq> [] \<Longrightarrow> dotted_tail (ls @ [l]) = dotted_tail ls @ c_dot # l"
  by (induction ls) auto

lemma dotted_rev: "dotted_head ls = dotted_tail (rev ls)"
  by (induction ls) (auto simp: dotted_tail_snoc)

text \<open>A table that may be missing.\<close>

definition wc_table :: "memory \<Rightarrow> wildcards \<Rightarrow> ptr \<Rightarrow> wc_trie \<Rightarrow> bool" where
  "wc_table mem wcs p t \<longleftrightarrow>
     (if p = NULL \<or> buckets (wc_hash (wcs p)) = [] then t = Wc 0 (\<lambda>l. None) else wc_rep mem wcs p t \<and> wc_default t = 0)"

lemma wc_none_empty: "wc_none (Wc 0 (\<lambda>l. None)) ls" "wc_none (only_trie (Wc 0 (\<lambda>l. None))) ls"
proof -
  have "\<not> wc_pattern (Wc 0 (\<lambda>l. None)) p wild v" for p wild v by (cases p) auto
  then show "wc_none (Wc 0 (\<lambda>l. None)) ls" "wc_none (only_trie (Wc 0 (\<lambda>l. None))) ls" by (simp_all add: wc_none_def comp_def)
qed

text \<open>
  C38: A combined search returns the value of the name in the plain table, else the value of the longest matching wildcard at the head of
  the name, else that of the longest wildcard at its tail, else null.
\<close>

theorem hash_combined_order:
  assumes "if buckets (plain_hash h) = [] then pv = 0 else ngx_hash_find mem (plain_hash h) key (dotted_head ls) = Some pv"
    "wc_table mem wcs (wc_head h) th" "wc_table mem wcs (wc_tail h) tt" "wc_open tt" "dotted_head ls \<noteq> []" "\<forall>l\<in>set ls. c_dot \<notin> set l"
  shows "\<exists>v. ngx_hash_find_combined mem wcs h key (dotted_head ls) = Some v \<and>
    (if pv \<noteq> 0 then v = pv
     else if \<not> wc_none th ls then wc_best th ls v
     else if \<not> wc_none (only_trie tt) (rev ls) then wc_best (only_trie tt) (rev ls) v
     else v = 0)"
proof -
  have ls: "ls \<noteq> []" using assms(5) by auto
  define hp where "hp \<longleftrightarrow> wc_head h \<noteq> NULL \<and> buckets (wc_hash (wcs (wc_head h))) \<noteq> []"
  define tp where "tp \<longleftrightarrow> wc_tail h \<noteq> NULL \<and> buckets (wc_hash (wcs (wc_tail h))) \<noteq> []"
  define hv where "hv = (if hp then wc_lookup_head th ls else 0)"
  define tv where "tv = (if tp then wc_lookup_tail tt (rev ls) else 0)"
  have H: "hp \<longrightarrow> ngx_hash_find_wc_head mem wcs (wc_head h) (dotted_head ls) = Some hv" "if wc_none th ls then hv = 0 else wc_best th ls hv"
    using assms(2) wc_find_head_ok [OF _ ls assms(6)] wc_head_spec [OF ls, of th] wc_none_empty(1) [of ls]
    by (auto simp: wc_table_def hp_def hv_def wc_best_pos split: if_splits)
  have T: "tp \<longrightarrow> ngx_hash_find_wc_tail mem wcs (wc_tail h) (dotted_head ls) = Some tv"
    "if wc_none (only_trie tt) (rev ls) then tv = 0 else wc_best (only_trie tt) (rev ls) tv"
    using assms(3) wc_find_tail_ok [of mem wcs "wc_tail h" tt "rev ls"] wc_tail_spec [OF assms(4), of "rev ls"] wc_none_empty(2) [of "rev ls"] ls assms(6)
    by (auto simp: wc_table_def tp_def tv_def dotted_rev split: if_splits)
  have "ngx_hash_find_combined mem wcs h key (dotted_head ls) = Some (if pv \<noteq> 0 then pv else if hv \<noteq> 0 then hv else tv)"
    using assms(1,5) H(1) T(1) unfolding ngx_hash_find_combined_def Let_def hp_def [symmetric] tp_def [symmetric]
    by (auto simp: hv_def tv_def)
  then show ?thesis using H(2) T(2) wc_best_pos by (auto split: if_splits)
qed

lemma hash_round_length: "length (fst (hash_round cl ts)) = length ts"
  by (induction ts) (auto simp: Let_def split: prod.splits)

lemma hash_build_buckets: "hash_build hinit buckets_ok palloc mem names n = Some (hash, mem') \<Longrightarrow> length (buckets hash) = n"
  using hash_round_length [of "cacheline_size hinit" "hash_count n (replicate n 8) names"]
  by (auto simp: hash_build_def Let_def split: if_splits option.splits prod.splits)

text \<open>One pattern for the domains below \<open>com\<close>, in a table that \<open>ngx_hash_init\<close> builds.\<close>

lemma hash_combined_order_witness:
  "\<exists>mem wcs. ngx_hash_find_combined mem wcs \<lparr>plain_hash = \<lparr>buckets = [], hash_size = 0\<rparr>, wc_head = 8, wc_tail = 0\<rparr> 0 (bs ''a.com'') = Some 4"
proof -
  let ?h = "\<lparr>plain_hash = \<lparr>buckets = [], hash_size = 0\<rparr>, wc_head = 8, wc_tail = 0\<rparr>"
  let ?hinit = "\<lparr>max_size = 10, bucket_size = 32, cacheline_size = 64\<rparr>"
  define nm where "nm = \<lparr>key_str = bs ''com'', key_null = False, key_hash = label_key (bs ''com''), key_value = 5\<rparr>"
  have low: "map tolower (bs ''com'') = bs ''com''" by code_simp
  have nm: "hash_elt_size nm = 16" "\<not> key_null nm" "map tolower (key_str nm) = bs ''com''" "key_value nm = 5" "key_hash nm = label_key (bs ''com'')"
    using low by (simp_all add: nm_def hash_elt_size_def ngx_align_def)
  have loop: "hash_size_loop ?hinit 24 [nm] (hash_start ?hinit 1) = Some 1"
    by (subst hash_size_loop.simps) (simp add: hash_start_def nm)
  then have init: "ngx_hash_init ?hinit True True (\<lambda>k. Some 1000) (\<lambda>i. 0) [nm] = hash_build ?hinit True (\<lambda>k. Some 1000) (\<lambda>i. 0) [nm] 1"
    using nm by (simp add: ngx_hash_init_def)
  then have "ngx_hash_init ?hinit True True (\<lambda>k. Some 1000) (\<lambda>i. 0) [nm] \<noteq> None"
    using hash_build_some [of _ 1000] by simp
  then obtain hash mem where i: "ngx_hash_init ?hinit True True (\<lambda>k. Some 1000) (\<lambda>i. 0) [nm] = Some (hash, mem)" by auto
  have ok: "hash_init_ok ?hinit label_key [nm]" by (simp add: hash_init_ok_def nm)
  have find: "ngx_hash_find mem hash (label_key l) l = Some (if l = bs ''com'' then 5 else 0)" for l
    using hash_init_search [OF i ok, of l] nm by auto
  define wcs :: wildcards where "wcs = (\<lambda>p. \<lparr>wc_hash = hash, wc_value = 0\<rparr>)"
  define t where "t = Wc 0 (\<lambda>l. if l = bs ''com'' then Some (Leaf True 4) else None)"
  have "kid_rep mem wcs (Some 5) (Some (Leaf True 4))" using leaf [of 4 mem wcs True] by simp
  then have "wc_rep mem wcs 8 t" unfolding t_def using none by (intro table) (auto simp: wcs_def find)
  then have th: "wc_table mem wcs (wc_head ?h) (if buckets hash = [] then Wc 0 (\<lambda>l. None) else t)"
    by (simp add: wc_table_def wcs_def t_def)
  have "buckets hash \<noteq> []" using hash_build_buckets [OF i [unfolded init]] by auto
  then have th: "wc_table mem wcs (wc_head ?h) t" using th by simp
  have tt: "wc_table mem wcs (wc_tail ?h) (Wc 0 (\<lambda>l. None))" "wc_open (Wc 0 (\<lambda>l. None))" by (auto simp: wc_table_def intro: wc_open)
  define ls where "ls = [bs ''com'', bs ''a'']"
  have name: "dotted_head ls = bs ''a.com''" by (simp add: ls_def)
  have dots: "dotted_head ls \<noteq> []" "\<forall>l\<in>set ls. c_dot \<notin> set l" by (simp_all add: ls_def)
  have plain: "if buckets (plain_hash ?h) = [] then 0 = 0 else ngx_hash_find mem (plain_hash ?h) 0 (dotted_head ls) = Some 0" by simp
  obtain v where v: "ngx_hash_find_combined mem wcs ?h 0 (dotted_head ls) = Some v" "\<not> wc_none t ls \<Longrightarrow> wc_best t ls v"
    using hash_combined_order [OF plain th tt dots] by (metis (full_types))
  have p: "wc_pattern t p wild w \<longleftrightarrow> p = [bs ''com''] \<and> wild \<and> w = 4" for p wild w
    by (cases p) (auto simp: t_def)
  then have "\<not> wc_none t ls" by (auto simp: wc_none_def ls_def)
  then have "v = 4" using v(2) p by (auto simp: wc_best_def)
  then show ?thesis using v(1) unfolding name by blast
qed

end
