(* ===== verification/Ngx_Mail_Parse.thy ===== *)
theory Ngx_Mail_Parse
  imports Ngx_Http_Args
begin

text \<open>
  The commands of the mail proxy, \<open>mail/ngx_mail_parse.c\<close>: the scanners of POP3, IMAP and SMTP commands, by the interface \<open>scanner\<close>, with
  TLS configured.  The session is shared; the outcomes of \<open>ngx_array_push\<close> are a parameter.  \<open>ngx_mail_auth_parse\<close>, which speaks to the
  authentication modules, is left out.
\<close>

unbundle bit_operations_syntax

subsection \<open>The session\<close>

abbreviation c_lbrace :: u_char where "c_lbrace \<equiv> 123"
abbreviation c_rbrace :: u_char where "c_rbrace \<equiv> 125"
abbreviation c_bslash :: u_char where "c_bslash \<equiv> 92"

abbreviation NGX_IMAP_NEXT :: int where "NGX_IMAP_NEXT \<equiv> 6"
abbreviation NGX_MAIL_PARSE_INVALID_COMMAND :: int where "NGX_MAIL_PARSE_INVALID_COMMAND \<equiv> 20"

abbreviation NGX_POP3_USER :: nat where "NGX_POP3_USER \<equiv> 1"
abbreviation NGX_POP3_PASS :: nat where "NGX_POP3_PASS \<equiv> 2"
abbreviation NGX_POP3_AUTH :: nat where "NGX_POP3_AUTH \<equiv> 8"
abbreviation NGX_IMAP_AUTHENTICATE :: nat where "NGX_IMAP_AUTHENTICATE \<equiv> 7"
abbreviation NGX_SMTP_AUTH :: nat where "NGX_SMTP_AUTH \<equiv> 3"

text \<open>\<open>buffer->pos\<close> and \<open>state\<close> are arguments of the parsers.\<close>

record mail_session =
  ms_start :: ptr                  \<comment> \<open>\<open>buffer->start\<close>\<close>
  ms_command :: nat
  ms_args :: "ngx_str_t list"
  ms_tag :: ngx_str_t
  ms_cmd_start :: ptr
  ms_arg_start :: ptr
  ms_arg_end :: ptr
  ms_quoted :: bool
  ms_backslash :: bool
  ms_no_sync_literal :: bool
  ms_literal_len :: uint64_t

type_synonym 'st mail_outcome = "('st, mail_session) step_outcome"

text \<open>\<open>ngx_array_push\<close> on the arguments; \<open>alloc n\<close> is whether it succeeds when there are \<open>n\<close> of them.\<close>

definition mail_push :: "(nat \<Rightarrow> bool) \<Rightarrow> ptr \<Rightarrow> mail_session \<Rightarrow> mail_session option" where
  "mail_push alloc stop s =
     (if alloc (length (ms_args s)) then
        Some (s\<lparr>ms_args := ms_args s @ [\<lparr>str_len = stop - ms_arg_start s, str_data = ms_arg_start s\<rparr>], ms_arg_start := NULL\<rparr>)
      else None)"

definition ngx_toupper :: "u_char \<Rightarrow> u_char" where
  "ngx_toupper c = (if c_a \<le> c \<and> c \<le> c_z then c AND NOT 0x20 else c)"

text \<open>The bytes at \<open>c\<close> in upper case are a word; each of them is a letter of a word or its lower case.\<close>

fun upper_is :: "memory \<Rightarrow> ptr \<Rightarrow> bytes \<Rightarrow> bool" where
  "upper_is mem c [] = True"
| "upper_is mem c (u # w) = (ngx_toupper (mem c) = u \<and> upper_is mem (c + 1) w)"

fun letters_are :: "memory \<Rightarrow> ptr \<Rightarrow> bytes \<Rightarrow> bool" where
  "letters_are mem c [] = True"
| "letters_are mem c (u # w) = ((mem c = u \<or> mem c = tolower u) \<and> letters_are mem (c + 1) w)"

definition mail_letter :: "u_char \<Rightarrow> bool" where
  "mail_letter ch \<longleftrightarrow> \<not> ((ch < c_A \<or> ch > c_Z) \<and> (ch < c_a \<or> ch > c_z))"

subsection \<open>POP3\<close>

datatype pop_state = pop_start | pop_spaces_before_argument | pop_argument | pop_almost_done

definition pop_invalid :: "mail_session \<Rightarrow> 'st mail_outcome" where
  "pop_invalid s = Return NGX_MAIL_PARSE_INVALID_COMMAND (s\<lparr>ms_arg_start := NULL\<rparr>)"

definition pop3_command :: "memory \<Rightarrow> ptr \<Rightarrow> nat option" where
  "pop3_command mem c =
     (if upper_is mem c (bs ''USER'') then Some NGX_POP3_USER
      else if upper_is mem c (bs ''PASS'') then Some NGX_POP3_PASS
      else if upper_is mem c (bs ''APOP'') then Some 7
      else if upper_is mem c (bs ''QUIT'') then Some 4
      else if upper_is mem c (bs ''CAPA'') then Some 3
      else if upper_is mem c (bs ''AUTH'') then Some NGX_POP3_AUTH
      else if upper_is mem c (bs ''NOOP'') then Some 5
      else if upper_is mem c (bs ''STLS'') then Some 6
      else None)"

text \<open>The state behind a space or a line end.\<close>

definition mail_after :: "'st \<Rightarrow> 'st \<Rightarrow> u_char \<Rightarrow> mail_session \<Rightarrow> 'st mail_outcome" where
  "mail_after spaces almost_done ch s =
     (if ch = CR then Next almost_done s else if ch = LF then Goto l_done s else Next spaces s)"

definition pop_sw_start :: "memory \<Rightarrow> u_char \<Rightarrow> ptr \<Rightarrow> mail_session \<Rightarrow> pop_state mail_outcome" where
  "pop_sw_start mem ch p s =
     (if ch = c_space \<or> ch = CR \<or> ch = LF then
        case (if p - ms_start s = 4 then pop3_command mem (ms_start s) else None) of
          None \<Rightarrow> pop_invalid s
        | Some cmd \<Rightarrow> mail_after pop_spaces_before_argument pop_almost_done ch (s\<lparr>ms_command := cmd\<rparr>)
      else if \<not> mail_letter ch then pop_invalid s
      else Next pop_start s)"

text \<open>The arguments have at most \<open>n\<close> behind the first.\<close>

definition pop_sw_spaces :: "nat \<Rightarrow> u_char \<Rightarrow> ptr \<Rightarrow> mail_session \<Rightarrow> pop_state mail_outcome" where
  "pop_sw_spaces n ch p s =
     (if ch = c_space then Next pop_spaces_before_argument s
      else if ch = CR then Next pop_almost_done (s\<lparr>ms_arg_end := p\<rparr>)
      else if ch = LF then Goto l_done (s\<lparr>ms_arg_end := p\<rparr>)
      else if length (ms_args s) \<le> n then Next pop_argument (s\<lparr>ms_arg_start := p\<rparr>)
      else pop_invalid s)"

definition pop_end_argument :: "(nat \<Rightarrow> bool) \<Rightarrow> u_char \<Rightarrow> ptr \<Rightarrow> mail_session \<Rightarrow> pop_state mail_outcome" where
  "pop_end_argument alloc ch p s =
     (case mail_push alloc p s of
        None \<Rightarrow> Return NGX_ERROR s
      | Some s \<Rightarrow> mail_after pop_spaces_before_argument pop_almost_done ch s)"

definition pop_sw_argument :: "(nat \<Rightarrow> bool) \<Rightarrow> u_char \<Rightarrow> ptr \<Rightarrow> mail_session \<Rightarrow> pop_state mail_outcome" where
  "pop_sw_argument alloc ch p s =
     (if ch = c_space \<and> (ms_command s = NGX_POP3_USER \<or> ms_command s = NGX_POP3_PASS) then Next pop_argument s
      else if ch = c_space \<or> ch = CR \<or> ch = LF then pop_end_argument alloc ch p s
      else Next pop_argument s)"

definition pop_sw_almost_done :: "u_char \<Rightarrow> mail_session \<Rightarrow> pop_state mail_outcome" where
  "pop_sw_almost_done ch s = (if ch = LF then Goto l_done s else pop_invalid s)"

definition pop_step :: "(nat \<Rightarrow> bool) \<Rightarrow> memory \<Rightarrow> pop_state \<Rightarrow> u_char \<Rightarrow> ptr \<Rightarrow> mail_session \<Rightarrow> pop_state mail_outcome" where
  "pop_step alloc mem st ch p s =
     (case st of
        pop_start \<Rightarrow> pop_sw_start mem ch p s
      | pop_spaces_before_argument \<Rightarrow> pop_sw_spaces 2 ch p s
      | pop_argument \<Rightarrow> pop_sw_argument alloc ch p s
      | pop_almost_done \<Rightarrow> pop_sw_almost_done ch s)"

text \<open>
  What surrounds the three loops.  The results are the code, \<open>state\<close>, \<open>buffer->pos\<close> and the session; \<open>NGX_IMAP_NEXT\<close> is returned with
  \<open>buffer->pos\<close> and \<open>arg_start\<close> behind the line.
\<close>

definition mail_done :: "(nat \<Rightarrow> bool) \<Rightarrow> (mail_session \<Rightarrow> mail_session) \<Rightarrow> (nat \<Rightarrow> 'st) \<Rightarrow> 'st \<Rightarrow> ptr \<Rightarrow> mail_session \<Rightarrow>
    int \<times> 'st \<times> ptr \<times> mail_session" where
  "mail_done alloc reset next_state st p s =
     (if ms_arg_start s \<noteq> NULL then
        case mail_push alloc (ms_arg_end s) s of
          None \<Rightarrow> (NGX_ERROR, st, p + 1, s)
        | Some s \<Rightarrow> (NGX_OK, next_state (ms_command s), p + 1, reset s)
      else (NGX_OK, next_state (ms_command s), p + 1, s))"

definition mail_finish :: "'st \<Rightarrow> 'st \<Rightarrow> ('st \<Rightarrow> ptr \<Rightarrow> mail_session \<Rightarrow> int \<times> 'st \<times> ptr \<times> mail_session) \<Rightarrow> 'st \<Rightarrow> ptr \<Rightarrow>
    ('st, mail_session) scan_result \<Rightarrow> int \<times> 'st \<times> ptr \<times> mail_session" where
  "mail_finish start literal fin st pos r =
     (case r of
        Scan_again p st s \<Rightarrow> (NGX_AGAIN, st, p, s)
      | Scan_goto l p s \<Rightarrow> fin st p s
      | Scan_return c s \<Rightarrow>
          if c = NGX_MAIL_PARSE_INVALID_COMMAND then (c, start, pos, s)
          else if c = NGX_IMAP_NEXT then (c, literal, ms_arg_start s, s)
          else (c, st, pos, s))"

definition ngx_mail_pop3_parse_command :: "(nat \<Rightarrow> bool) \<Rightarrow> memory \<Rightarrow> ptr \<Rightarrow> pop_state \<Rightarrow> ptr \<Rightarrow> mail_session \<Rightarrow>
    int \<times> pop_state \<times> ptr \<times> mail_session" where
  "ngx_mail_pop3_parse_command alloc mem lst st pos s =
     mail_finish pop_start pop_argument (mail_done alloc id (\<lambda>cmd. if cmd \<noteq> NGX_POP3_AUTH then pop_start else pop_argument)) st pos
       (scan_loop (pop_step alloc) mem lst pos st s)"

subsection \<open>SMTP\<close>

definition smtp_command :: "memory \<Rightarrow> ptr \<Rightarrow> nat \<Rightarrow> nat option" where
  "smtp_command mem c len =
     (if len = 4 then
        if upper_is mem c (bs ''HELO'') then Some 1
        else if upper_is mem c (bs ''EHLO'') then Some 2
        else if upper_is mem c (bs ''QUIT'') then Some 4
        else if upper_is mem c (bs ''AUTH'') then Some NGX_SMTP_AUTH
        else if upper_is mem c (bs ''NOOP'') then Some 5
        else if upper_is mem c (bs ''MAIL'') then Some 6
        else if upper_is mem c (bs ''RSET'') then Some 7
        else if upper_is mem c (bs ''RCPT'') then Some 8
        else if upper_is mem c (bs ''VRFY'') then Some 10
        else if upper_is mem c (bs ''EXPN'') then Some 11
        else if upper_is mem c (bs ''HELP'') then Some 12
        else None
      else if len = 8 then if letters_are mem c (bs ''STARTTLS'') then Some 13 else None
      else None)"

definition smtp_sw_start :: "memory \<Rightarrow> u_char \<Rightarrow> ptr \<Rightarrow> mail_session \<Rightarrow> pop_state mail_outcome" where
  "smtp_sw_start mem ch p s =
     (if ch = c_space \<or> ch = CR \<or> ch = LF then
        case smtp_command mem (ms_start s) (p - ms_start s) of
          None \<Rightarrow> pop_invalid s
        | Some cmd \<Rightarrow> mail_after pop_spaces_before_argument pop_almost_done ch (s\<lparr>ms_command := cmd\<rparr>)
      else if \<not> mail_letter ch then pop_invalid s
      else Next pop_start s)"

definition smtp_sw_argument :: "(nat \<Rightarrow> bool) \<Rightarrow> u_char \<Rightarrow> ptr \<Rightarrow> mail_session \<Rightarrow> pop_state mail_outcome" where
  "smtp_sw_argument alloc ch p s =
     (if ch = c_space \<or> ch = CR \<or> ch = LF then pop_end_argument alloc ch p s else Next pop_argument s)"

definition smtp_step :: "(nat \<Rightarrow> bool) \<Rightarrow> memory \<Rightarrow> pop_state \<Rightarrow> u_char \<Rightarrow> ptr \<Rightarrow> mail_session \<Rightarrow> pop_state mail_outcome" where
  "smtp_step alloc mem st ch p s =
     (case st of
        pop_start \<Rightarrow> smtp_sw_start mem ch p s
      | pop_spaces_before_argument \<Rightarrow> pop_sw_spaces 10 ch p s
      | pop_argument \<Rightarrow> smtp_sw_argument alloc ch p s
      | pop_almost_done \<Rightarrow> pop_sw_almost_done ch s)"

definition ngx_mail_smtp_parse_command :: "(nat \<Rightarrow> bool) \<Rightarrow> memory \<Rightarrow> ptr \<Rightarrow> pop_state \<Rightarrow> ptr \<Rightarrow> mail_session \<Rightarrow>
    int \<times> pop_state \<times> ptr \<times> mail_session" where
  "ngx_mail_smtp_parse_command alloc mem lst st pos s =
     mail_finish pop_start pop_argument (mail_done alloc id (\<lambda>cmd. if cmd \<noteq> NGX_SMTP_AUTH then pop_start else pop_argument)) st pos
       (scan_loop (smtp_step alloc) mem lst pos st s)"

subsection \<open>IMAP\<close>

datatype imap_state = im_start | im_spaces_before_command | im_command | im_spaces_before_argument | im_argument | im_backslash
  | im_literal | im_no_sync_literal_argument | im_start_literal_argument | im_literal_argument | im_end_literal_argument | im_almost_done

type_synonym imap_outcome = "imap_state mail_outcome"

definition imap_reset :: "mail_session \<Rightarrow> mail_session" where
  "imap_reset s = s\<lparr>ms_quoted := False, ms_no_sync_literal := False, ms_literal_len := 0\<rparr>"

text \<open>\<open>goto invalid\<close>, which also resets the state\<close>

definition imap_invalid :: "mail_session \<Rightarrow> imap_outcome" where
  "imap_invalid s = Return NGX_MAIL_PARSE_INVALID_COMMAND (imap_reset s)"

definition imap_command :: "memory \<Rightarrow> ptr \<Rightarrow> nat \<Rightarrow> nat option" where
  "imap_command mem c len =
     (if len = 4 then if letters_are mem c (bs ''NOOP'') then Some 4 else None
      else if len = 5 then if letters_are mem c (bs ''LOGIN'') then Some 1 else None
      else if len = 6 then if letters_are mem c (bs ''LOGOUT'') then Some 2 else None
      else if len = 8 then if letters_are mem c (bs ''STARTTLS'') then Some 5 else None
      else if len = 10 then if letters_are mem c (bs ''CAPABILITY'') then Some 3 else None
      else if len = 12 then if letters_are mem c (bs ''AUTHENTICATE'') then Some NGX_IMAP_AUTHENTICATE else None
      else None)"

definition im_sw_start :: "u_char \<Rightarrow> ptr \<Rightarrow> mail_session \<Rightarrow> imap_outcome" where
  "im_sw_start ch p s =
     (if ch = c_space then
        Next im_spaces_before_command (s\<lparr>ms_tag := \<lparr>str_len = p - ms_start s + 1, str_data = ms_start s\<rparr>\<rparr>)
      else if ch = CR \<or> ch = LF then Return NGX_MAIL_PARSE_INVALID_COMMAND s
      else Next im_start s)"

definition im_sw_spaces_before_command :: "u_char \<Rightarrow> ptr \<Rightarrow> mail_session \<Rightarrow> imap_outcome" where
  "im_sw_spaces_before_command ch p s =
     (if ch = c_space then Next im_spaces_before_command s
      else if ch = CR \<or> ch = LF then Return NGX_MAIL_PARSE_INVALID_COMMAND s
      else Next im_command (s\<lparr>ms_cmd_start := p\<rparr>))"

definition im_sw_command :: "memory \<Rightarrow> u_char \<Rightarrow> ptr \<Rightarrow> mail_session \<Rightarrow> imap_outcome" where
  "im_sw_command mem ch p s =
     (if ch = c_space \<or> ch = CR \<or> ch = LF then
        case imap_command mem (ms_cmd_start s) (p - ms_cmd_start s) of
          None \<Rightarrow> imap_invalid s
        | Some cmd \<Rightarrow> mail_after im_spaces_before_argument im_almost_done ch (s\<lparr>ms_command := cmd\<rparr>)
      else if \<not> mail_letter ch then imap_invalid s
      else Next im_command s)"

definition im_sw_spaces_before_argument :: "u_char \<Rightarrow> ptr \<Rightarrow> mail_session \<Rightarrow> imap_outcome" where
  "im_sw_spaces_before_argument ch p s =
     (if ch = c_space then Next im_spaces_before_argument s
      else if ch = CR then Next im_almost_done (s\<lparr>ms_arg_end := p\<rparr>)
      else if ch = LF then Goto l_done (s\<lparr>ms_arg_end := p\<rparr>)
      else if \<not> length (ms_args s) \<le> 2 then imap_invalid s
      else if ch = c_quot then Next im_argument (s\<lparr>ms_quoted := True, ms_arg_start := p + 1\<rparr>)
      else if ch = c_lbrace then Next im_literal s
      else Next im_argument (s\<lparr>ms_arg_start := p\<rparr>))"

definition im_end_argument :: "(nat \<Rightarrow> bool) \<Rightarrow> u_char \<Rightarrow> ptr \<Rightarrow> mail_session \<Rightarrow> imap_outcome" where
  "im_end_argument alloc ch p s =
     (case mail_push alloc p s of
        None \<Rightarrow> Return NGX_ERROR s
      | Some s \<Rightarrow> mail_after im_spaces_before_argument im_almost_done ch s)"

definition im_sw_argument :: "(nat \<Rightarrow> bool) \<Rightarrow> u_char \<Rightarrow> ptr \<Rightarrow> mail_session \<Rightarrow> imap_outcome" where
  "im_sw_argument alloc ch p s =
     (if ch = c_space \<and> ms_quoted s then Next im_argument s
      else if ch = c_quot then
        if \<not> ms_quoted s then Next im_argument s else im_end_argument alloc ch p (s\<lparr>ms_quoted := False\<rparr>)
      else if ch = c_space \<or> ch = CR \<or> ch = LF then im_end_argument alloc ch p s
      else if ch = c_bslash \<and> ms_quoted s then Next im_backslash (s\<lparr>ms_backslash := True\<rparr>)
      else Next im_argument s)"

definition im_sw_backslash :: "u_char \<Rightarrow> mail_session \<Rightarrow> imap_outcome" where
  "im_sw_backslash ch s = (if ch = CR \<or> ch = LF then imap_invalid s else Next im_argument s)"

definition im_sw_literal :: "u_char \<Rightarrow> mail_session \<Rightarrow> imap_outcome" where
  "im_sw_literal ch s =
     (if c_0 \<le> ch \<and> ch \<le> c_9 then Next im_literal (s\<lparr>ms_literal_len := ms_literal_len s * 10 + ucast (ch - c_0)\<rparr>)
      else if ch = c_rbrace then Next im_start_literal_argument s
      else if ch = c_plus then Next im_no_sync_literal_argument s
      else imap_invalid s)"

definition im_sw_no_sync_literal_argument :: "u_char \<Rightarrow> mail_session \<Rightarrow> imap_outcome" where
  "im_sw_no_sync_literal_argument ch s =
     (if ch = c_rbrace then Next im_start_literal_argument (s\<lparr>ms_no_sync_literal := True\<rparr>) else imap_invalid s)"

definition im_sw_start_literal_argument :: "u_char \<Rightarrow> ptr \<Rightarrow> mail_session \<Rightarrow> imap_outcome" where
  "im_sw_start_literal_argument ch p s =
     (if ch = CR then Next im_start_literal_argument s
      else if ch = LF then
        let s = s\<lparr>ms_arg_start := p + 1\<rparr> in
        if \<not> ms_no_sync_literal s then Return NGX_IMAP_NEXT s
        else Next im_literal_argument (s\<lparr>ms_no_sync_literal := False\<rparr>)
      else imap_invalid s)"

definition im_sw_literal_argument :: "(nat \<Rightarrow> bool) \<Rightarrow> ptr \<Rightarrow> mail_session \<Rightarrow> imap_outcome" where
  "im_sw_literal_argument alloc p s =
     (let left = ms_literal_len s;
          s = (if left \<noteq> 0 then s\<lparr>ms_literal_len := left - 1\<rparr> else s)
      in if left \<noteq> 0 \<and> left - 1 \<noteq> 0 then Next im_literal_argument s
         else
           case mail_push alloc (p + 1) s of
             None \<Rightarrow> Return NGX_ERROR s
           | Some s \<Rightarrow> Next im_end_literal_argument s)"

definition im_sw_end_literal_argument :: "u_char \<Rightarrow> mail_session \<Rightarrow> imap_outcome" where
  "im_sw_end_literal_argument ch s =
     (if ch = c_lbrace then if length (ms_args s) \<le> 2 then Next im_literal s else imap_invalid s
      else if ch = CR then Next im_almost_done s
      else if ch = LF then Goto l_done s
      else Next im_spaces_before_argument s)"

definition im_sw_almost_done :: "u_char \<Rightarrow> mail_session \<Rightarrow> imap_outcome" where
  "im_sw_almost_done ch s = (if ch = LF then Goto l_done s else imap_invalid s)"

definition imap_step :: "(nat \<Rightarrow> bool) \<Rightarrow> memory \<Rightarrow> imap_state \<Rightarrow> u_char \<Rightarrow> ptr \<Rightarrow> mail_session \<Rightarrow> imap_outcome" where
  "imap_step alloc mem st ch p s =
     (case st of
        im_start \<Rightarrow> im_sw_start ch p s
      | im_spaces_before_command \<Rightarrow> im_sw_spaces_before_command ch p s
      | im_command \<Rightarrow> im_sw_command mem ch p s
      | im_spaces_before_argument \<Rightarrow> im_sw_spaces_before_argument ch p s
      | im_argument \<Rightarrow> im_sw_argument alloc ch p s
      | im_backslash \<Rightarrow> im_sw_backslash ch s
      | im_literal \<Rightarrow> im_sw_literal ch s
      | im_no_sync_literal_argument \<Rightarrow> im_sw_no_sync_literal_argument ch s
      | im_start_literal_argument \<Rightarrow> im_sw_start_literal_argument ch p s
      | im_literal_argument \<Rightarrow> im_sw_literal_argument alloc p s
      | im_end_literal_argument \<Rightarrow> im_sw_end_literal_argument ch s
      | im_almost_done \<Rightarrow> im_sw_almost_done ch s)"

definition ngx_mail_imap_parse_command :: "(nat \<Rightarrow> bool) \<Rightarrow> memory \<Rightarrow> ptr \<Rightarrow> imap_state \<Rightarrow> ptr \<Rightarrow> mail_session \<Rightarrow>
    int \<times> imap_state \<times> ptr \<times> mail_session" where
  "ngx_mail_imap_parse_command alloc mem lst st pos s =
     mail_finish im_start im_literal_argument
       (mail_done alloc (\<lambda>s. imap_reset (s\<lparr>ms_cmd_start := NULL\<rparr>)) (\<lambda>cmd. if cmd \<noteq> NGX_IMAP_AUTHENTICATE then im_start else im_argument))
       st pos (scan_loop (imap_step alloc) mem lst pos st s)"

subsection \<open>The steps as scanners\<close>

lemma upper_is_local: "same_mem lo hi mem mem' \<Longrightarrow> lo \<le> c \<Longrightarrow> c + length w \<le> hi \<Longrightarrow> upper_is mem' c w = upper_is mem c w"
  by (induction w arbitrary: c) (auto simp: same_mem_def)

lemma letters_are_local: "same_mem lo hi mem mem' \<Longrightarrow> lo \<le> c \<Longrightarrow> c + length w \<le> hi \<Longrightarrow> letters_are mem' c w = letters_are mem c w"
  by (induction w arbitrary: c) (auto simp: same_mem_def)

lemma pop3_command_local:
  assumes "same_mem lo hi mem mem'" "lo \<le> c" "c + 4 \<le> hi"
  shows "pop3_command mem' c = pop3_command mem c"
  using upper_is_local [OF assms(1,2)] assms(3) by (simp add: pop3_command_def del: bs_simps)

lemma smtp_command_local:
  assumes "same_mem lo hi mem mem'" "lo \<le> c" "c + len \<le> hi"
  shows "smtp_command mem' c len = smtp_command mem c len"
  using upper_is_local [OF assms(1,2)] letters_are_local [OF assms(1,2)] assms(3) by (auto simp: smtp_command_def simp del: bs_simps)

lemma imap_command_local:
  assumes "same_mem lo hi mem mem'" "lo \<le> c" "c + len \<le> hi"
  shows "imap_command mem' c len = imap_command mem c len"
  using letters_are_local [OF assms(1,2)] assms(3) by (auto simp: imap_command_def simp del: bs_simps)

definition pop_inv :: "memory \<Rightarrow> ptr \<Rightarrow> ptr \<Rightarrow> pop_state \<Rightarrow> mail_session \<Rightarrow> bool" where
  "pop_inv mem lo p st s \<longleftrightarrow> lo \<le> ms_start s \<and> ms_start s \<le> p"

definition imap_inv :: "memory \<Rightarrow> ptr \<Rightarrow> ptr \<Rightarrow> imap_state \<Rightarrow> mail_session \<Rightarrow> bool" where
  "imap_inv mem lo p st s \<longleftrightarrow> (st = im_command \<longrightarrow> lo \<le> ms_cmd_start s \<and> ms_cmd_start s \<le> p)"

lemmas pop_defs = pop_sw_start_def pop_sw_spaces_def pop_sw_argument_def pop_sw_almost_done_def pop_end_argument_def pop_invalid_def
  smtp_sw_start_def smtp_sw_argument_def mail_after_def

lemmas im_defs = im_sw_start_def im_sw_spaces_before_command_def im_sw_command_def im_sw_spaces_before_argument_def im_end_argument_def
  im_sw_argument_def im_sw_backslash_def im_sw_literal_def im_sw_no_sync_literal_argument_def im_sw_start_literal_argument_def
  im_sw_literal_argument_def im_sw_end_literal_argument_def im_sw_almost_done_def imap_invalid_def mail_after_def

lemma mail_push_start: "mail_push alloc q s = Some s' \<Longrightarrow> ms_start s' = ms_start s"
  by (auto simp: mail_push_def split: if_splits)

interpretation pop: scanner "pop_step alloc" pop_inv
proof unfold_locales
  fix mem lo p st s st' s'
  assume "pop_inv mem lo p st s" "pop_step alloc mem st (mem p) p s = Next st' s'"
  then show "pop_inv mem lo (Suc p) st' s'"
    by (cases st) (auto simp: pop_step_def pop_defs pop_inv_def mail_push_start split: if_splits option.splits)
next
  fix mem lo p st s mem'
  assume a: "pop_inv mem lo p st s" "same_mem lo (Suc p) mem mem'"
  have "p - ms_start s = 4 \<Longrightarrow> pop3_command mem' (ms_start s) = pop3_command mem (ms_start s)"
    by (rule pop3_command_local [OF a(2)]) (use a(1) in \<open>auto simp: pop_inv_def\<close>)
  then show "pop_step alloc mem' st (mem p) p s = pop_step alloc mem st (mem p) p s"
    by (cases st) (auto simp: pop_step_def pop_sw_start_def)
qed

interpretation smtp: scanner "smtp_step alloc" pop_inv
proof unfold_locales
  fix mem lo p st s st' s'
  assume "pop_inv mem lo p st s" "smtp_step alloc mem st (mem p) p s = Next st' s'"
  then show "pop_inv mem lo (Suc p) st' s'"
    by (cases st) (auto simp: smtp_step_def pop_defs pop_inv_def mail_push_start split: if_splits option.splits)
next
  fix mem lo p st s mem'
  assume a: "pop_inv mem lo p st s" "same_mem lo (Suc p) mem mem'"
  have "smtp_command mem' (ms_start s) (p - ms_start s) = smtp_command mem (ms_start s) (p - ms_start s)"
    by (rule smtp_command_local [OF a(2)]) (use a(1) in \<open>auto simp: pop_inv_def\<close>)
  then show "smtp_step alloc mem' st (mem p) p s = smtp_step alloc mem st (mem p) p s"
    by (cases st) (auto simp: smtp_step_def smtp_sw_start_def)
qed

interpretation imap: scanner "imap_step alloc" imap_inv
proof unfold_locales
  fix mem lo p st s st' s'
  assume "imap_inv mem lo p st s" "lo \<le> p" "imap_step alloc mem st (mem p) p s = Next st' s'"
  then show "imap_inv mem lo (Suc p) st' s'"
    by (cases st) (auto simp: imap_step_def im_defs imap_inv_def Let_def split: if_splits option.splits)
next
  fix mem lo p st s mem'
  assume a: "imap_inv mem lo p st s" "same_mem lo (Suc p) mem mem'"
  have "st = im_command \<Longrightarrow> imap_command mem' (ms_cmd_start s) (p - ms_cmd_start s) = imap_command mem (ms_cmd_start s) (p - ms_cmd_start s)"
    by (rule imap_command_local [OF a(2)]) (use a(1) in \<open>auto simp: imap_inv_def\<close>)
  then show "imap_step alloc mem' st (mem p) p s = imap_step alloc mem st (mem p) p s"
    by (cases st) (auto simp: imap_step_def im_sw_command_def)
qed

subsection \<open>Commands in two reads\<close>

text \<open>On an error the state and the position are not used, after an invalid command the position is not.\<close>

definition mail_seen :: "int \<times> 'st \<times> ptr \<times> mail_session \<Rightarrow> int \<times> 'st option \<times> ptr option \<times> mail_session" where
  "mail_seen = (\<lambda>(c, st, pos, s). (c, if c = NGX_ERROR then None else Some st,
     if c = NGX_ERROR \<or> c = NGX_MAIL_PARSE_INVALID_COMMAND then None else Some pos, s))"

lemma mail_finish_again:
  assumes "mail_finish start lit (mail_done alloc reset next_state) st pos r = (NGX_AGAIN, st1, pos1, s1)" "\<And>s. r \<noteq> Scan_return NGX_AGAIN s"
  shows "r = Scan_again pos1 st1 s1"
  using assms by (cases r) (auto simp: mail_finish_def mail_done_def split: if_splits option.splits)

lemma mail_finish_seen:
  "mail_seen (mail_finish start lit (mail_done alloc reset next_state) st1 pos1 r) = mail_seen (mail_finish start lit (mail_done alloc reset next_state) st2 pos2 r)"
  if "\<And>c s. r = Scan_return c s \<Longrightarrow> c \<in> {NGX_ERROR, NGX_MAIL_PARSE_INVALID_COMMAND, NGX_IMAP_NEXT}"
  using that by (cases r) (auto simp: mail_seen_def mail_finish_def mail_done_def split: option.splits)

lemma pop_step_return: "\<exists>mem st p s. pop_step alloc mem st (mem p) p s = Return c s' \<Longrightarrow> c \<in> {NGX_ERROR, NGX_MAIL_PARSE_INVALID_COMMAND}"
proof (elim exE)
  fix mem st p s
  assume "pop_step alloc mem st (mem p) p s = Return c s'"
  then show "c \<in> {NGX_ERROR, NGX_MAIL_PARSE_INVALID_COMMAND}" by (cases st) (auto simp: pop_step_def pop_defs split: if_splits option.splits)
qed

lemma pop_run_return: "scan_loop (pop_step alloc) mem lst p st s = Scan_return c s' \<Longrightarrow> c \<in> {NGX_ERROR, NGX_MAIL_PARSE_INVALID_COMMAND, NGX_IMAP_NEXT}"
  using pop_step_return [of alloc c s'] scan_loop_return [of "pop_step alloc" mem lst p st s c s'] by auto

lemma smtp_step_return: "\<exists>mem st p s. smtp_step alloc mem st (mem p) p s = Return c s' \<Longrightarrow> c \<in> {NGX_ERROR, NGX_MAIL_PARSE_INVALID_COMMAND}"
proof (elim exE)
  fix mem st p s
  assume "smtp_step alloc mem st (mem p) p s = Return c s'"
  then show "c \<in> {NGX_ERROR, NGX_MAIL_PARSE_INVALID_COMMAND}" by (cases st) (auto simp: smtp_step_def pop_defs split: if_splits option.splits)
qed

lemma smtp_run_return: "scan_loop (smtp_step alloc) mem lst p st s = Scan_return c s' \<Longrightarrow> c \<in> {NGX_ERROR, NGX_MAIL_PARSE_INVALID_COMMAND, NGX_IMAP_NEXT}"
  using smtp_step_return [of alloc c s'] scan_loop_return [of "smtp_step alloc" mem lst p st s c s'] by auto

lemma imap_step_return:
  "\<exists>mem st p s. imap_step alloc mem st (mem p) p s = Return c s' \<Longrightarrow> c \<in> {NGX_ERROR, NGX_MAIL_PARSE_INVALID_COMMAND, NGX_IMAP_NEXT}"
proof (elim exE)
  fix mem st p s
  assume "imap_step alloc mem st (mem p) p s = Return c s'"
  then show "c \<in> {NGX_ERROR, NGX_MAIL_PARSE_INVALID_COMMAND, NGX_IMAP_NEXT}"
    by (cases st) (auto simp: imap_step_def im_defs Let_def split: if_splits option.splits)
qed

lemma imap_run_return: "scan_loop (imap_step alloc) mem lst p st s = Scan_return c s' \<Longrightarrow> c \<in> {NGX_ERROR, NGX_MAIL_PARSE_INVALID_COMMAND, NGX_IMAP_NEXT}"
  using imap_step_return [of alloc c s'] scan_loop_return [of "imap_step alloc" mem lst p st s c s'] by auto

text \<open>
  C40: Each of the three parsers can be stopped at the end of the bytes that have arrived: a call that returns \<open>NGX_AGAIN\<close> and a call
  with more bytes give what one call with all of them gives.
\<close>

theorem mail_commands_resume:
  assumes "lo \<le> pos" "lst \<le> lst'" "same_mem lo lst mem mem'"
  shows "(pop_inv mem lo pos st s \<and> ngx_mail_pop3_parse_command alloc mem lst st pos s = (NGX_AGAIN, st1, pos1, s1) \<longrightarrow>
      mail_seen (ngx_mail_pop3_parse_command alloc mem' lst' st1 pos1 s1) = mail_seen (ngx_mail_pop3_parse_command alloc mem' lst' st pos s)) \<and>
    (pop_inv mem lo pos st s \<and> ngx_mail_smtp_parse_command alloc mem lst st pos s = (NGX_AGAIN, st1, pos1, s1) \<longrightarrow>
      mail_seen (ngx_mail_smtp_parse_command alloc mem' lst' st1 pos1 s1) = mail_seen (ngx_mail_smtp_parse_command alloc mem' lst' st pos s)) \<and>
    (imap_inv mem lo pos ist s \<and> ngx_mail_imap_parse_command alloc mem lst ist pos s = (NGX_AGAIN, ist1, pos1, s1) \<longrightarrow>
      mail_seen (ngx_mail_imap_parse_command alloc mem' lst' ist1 pos1 s1) = mail_seen (ngx_mail_imap_parse_command alloc mem' lst' ist pos s))"
proof (intro conjI impI; elim conjE)
  assume a: "pop_inv mem lo pos st s" "ngx_mail_pop3_parse_command alloc mem lst st pos s = (NGX_AGAIN, st1, pos1, s1)"
  have "scan_loop (pop_step alloc) mem lst pos st s = Scan_again pos1 st1 s1"
    by (rule mail_finish_again [OF a(2) [unfolded ngx_mail_pop3_parse_command_def]]) (use pop_run_return in force)
  from pop.run_resume [OF a(1) assms(1) this assms(2,3)]
  show "mail_seen (ngx_mail_pop3_parse_command alloc mem' lst' st1 pos1 s1) = mail_seen (ngx_mail_pop3_parse_command alloc mem' lst' st pos s)"
    unfolding ngx_mail_pop3_parse_command_def using mail_finish_seen pop_run_return by metis
next
  assume a: "pop_inv mem lo pos st s" "ngx_mail_smtp_parse_command alloc mem lst st pos s = (NGX_AGAIN, st1, pos1, s1)"
  have "scan_loop (smtp_step alloc) mem lst pos st s = Scan_again pos1 st1 s1"
    by (rule mail_finish_again [OF a(2) [unfolded ngx_mail_smtp_parse_command_def]]) (use smtp_run_return in force)
  from smtp.run_resume [OF a(1) assms(1) this assms(2,3)]
  show "mail_seen (ngx_mail_smtp_parse_command alloc mem' lst' st1 pos1 s1) = mail_seen (ngx_mail_smtp_parse_command alloc mem' lst' st pos s)"
    unfolding ngx_mail_smtp_parse_command_def using mail_finish_seen smtp_run_return by metis
next
  assume a: "imap_inv mem lo pos ist s" "ngx_mail_imap_parse_command alloc mem lst ist pos s = (NGX_AGAIN, ist1, pos1, s1)"
  have "scan_loop (imap_step alloc) mem lst pos ist s = Scan_again pos1 ist1 s1"
    by (rule mail_finish_again [OF a(2) [unfolded ngx_mail_imap_parse_command_def]]) (use imap_run_return in force)
  from imap.run_resume [OF a(1) assms(1) this assms(2,3)]
  show "mail_seen (ngx_mail_imap_parse_command alloc mem' lst' ist1 pos1 s1) = mail_seen (ngx_mail_imap_parse_command alloc mem' lst' ist pos s)"
    unfolding ngx_mail_imap_parse_command_def using mail_finish_seen imap_run_return by metis
qed

definition init_session :: "ptr \<Rightarrow> mail_session" where
  "init_session start = \<lparr>ms_start = start, ms_command = 0, ms_args = [], ms_tag = \<lparr>str_len = 0, str_data = NULL\<rparr>, ms_cmd_start = NULL,
     ms_arg_start = NULL, ms_arg_end = NULL, ms_quoted = False, ms_backslash = False, ms_no_sync_literal = False, ms_literal_len = 0\<rparr>"

lemma mail_commands_resume_witness:
  "\<exists>st1 pos1 s1. ngx_mail_pop3_parse_command (\<lambda>n. True) (mem_at 1 (bs ''q'')) 2 pop_start 1 (init_session 1) = (NGX_AGAIN, st1, pos1, s1) \<and>
    mail_seen (ngx_mail_pop3_parse_command (\<lambda>n. True) (mem_at 1 (bs ''quit'' @ [LF])) 6 st1 pos1 s1) =
    mail_seen (ngx_mail_pop3_parse_command (\<lambda>n. True) (mem_at 1 (bs ''quit'' @ [LF])) 6 pop_start 1 (init_session 1))"
proof -
  let ?m = "mem_at 1 (bs ''q'')" and ?m' = "mem_at 1 (bs ''quit'' @ [LF])"
  have a: "ngx_mail_pop3_parse_command (\<lambda>n. True) ?m 2 pop_start 1 (init_session 1) = (NGX_AGAIN, pop_start, 2, init_session 1)"
    by (simp add: ngx_mail_pop3_parse_command_def mail_finish_def scan_loop_step scan_loop_end pop_step_def pop_sw_start_def mem_at_def mail_letter_def)
  have m: "same_mem 1 2 ?m ?m'" by (auto simp: same_mem_def mem_at_def)
  have "pop_inv ?m 1 1 pop_start (init_session 1) \<and>
      ngx_mail_pop3_parse_command (\<lambda>n. True) ?m 2 pop_start 1 (init_session 1) = (NGX_AGAIN, pop_start, 2, init_session 1) \<longrightarrow>
    mail_seen (ngx_mail_pop3_parse_command (\<lambda>n. True) ?m' 6 pop_start 2 (init_session 1)) =
    mail_seen (ngx_mail_pop3_parse_command (\<lambda>n. True) ?m' 6 pop_start 1 (init_session 1))"
    by (rule conjunct1 [OF mail_commands_resume [OF _ _ m]]) simp_all
  moreover have "pop_inv ?m 1 1 pop_start (init_session 1)" by (simp add: pop_inv_def init_session_def)
  ultimately show ?thesis using a by blast
qed

subsection \<open>IMAP commands\<close>

datatype imap_arg = Atom bytes | Quoted bytes | Literal bytes bytes   \<comment> \<open>a literal has its length in digits\<close>

fun arg_text :: "imap_arg \<Rightarrow> bytes" where
  "arg_text (Atom v) = v"
| "arg_text (Quoted v) = c_quot # v @ [c_quot]"
| "arg_text (Literal ds v) = c_lbrace # ds @ [c_plus, c_rbrace, CR, LF] @ v"

fun arg_value :: "imap_arg \<Rightarrow> bytes" where
  "arg_value (Atom v) = v" | "arg_value (Quoted v) = v" | "arg_value (Literal ds v) = v"

fun arg_ok :: "imap_arg \<Rightarrow> bool" where
  "arg_ok (Atom v) \<longleftrightarrow> v \<noteq> [] \<and> hd v \<notin> {c_quot, c_lbrace} \<and> set v \<inter> {c_space, CR, LF} = {}"
| "arg_ok (Quoted v) \<longleftrightarrow> set v \<inter> {c_quot, c_bslash, CR, LF} = {}"
| "arg_ok (Literal ds v) \<longleftrightarrow> list_all is_digit ds \<and> dec_value ds = length v \<and> v \<noteq> [] \<and> length v < 2 ^ 64"

definition mail_ready :: "mail_session \<Rightarrow> bool" where
  "mail_ready s \<longleftrightarrow> \<not> ms_quoted s \<and> \<not> ms_no_sync_literal s \<and> ms_literal_len s = 0"

abbreviation "imap_run \<equiv> scan_loop (imap_step (\<lambda>n. True))"

text \<open>An argument is added.\<close>

definition add_arg :: "mail_session \<Rightarrow> ptr \<Rightarrow> nat \<Rightarrow> ptr \<Rightarrow> mail_session" where
  "add_arg s a n e = s\<lparr>ms_args := ms_args s @ [\<lparr>str_len = n, str_data = a\<rparr>], ms_arg_start := NULL, ms_arg_end := e\<rparr>"

definition after_arg :: "u_char \<Rightarrow> imap_state" where
  "after_arg d = (if d = c_space then im_spaces_before_argument else im_almost_done)"

lemma imap_skip:
  "(\<And>c q. c \<in> set w \<Longrightarrow> imap_step (\<lambda>n. True) mem st c q s = Next st s) \<Longrightarrow> holds mem p w \<Longrightarrow> p + length w \<le> lst \<Longrightarrow>
   imap_run mem lst p st s = imap_run mem lst (p + length w) st s"
proof (induction w arbitrary: p)
  case (Cons c w)
  then show ?case by (simp add: scan_loop_step)
qed simp

lemma imap_atom:
  assumes "holds mem p (v @ [d])" "arg_ok (Atom v)" "d \<in> {c_space, CR}" "p + length v < lst" "length (ms_args s) \<le> 2" "mail_ready s"
  shows "imap_run mem lst p im_spaces_before_argument s = imap_run mem lst (p + length v + 1) (after_arg d) (add_arg s p (length v) (ms_arg_end s))"
proof -
  obtain c w where v: "v = c # w" using assms(2) by (cases v) auto
  have c: "c \<notin> {c_space, CR, LF, c_quot, c_lbrace}" and w: "set w \<inter> {c_space, CR, LF} = {}" using assms(2) by (auto simp: v)
  have h: "mem p = c" "holds mem (p + 1) w" "mem (p + length v) = d" using assms(1) by (simp_all add: v holds_append)
  let ?s = "s\<lparr>ms_arg_start := p\<rparr>"
  have nq: "\<not> ms_quoted s" using assms(6) by (simp add: mail_ready_def)
  have "imap_run mem lst p im_spaces_before_argument s = imap_run mem lst (p + 1) im_argument ?s"
    by (rule scan_next) (use h c assms(4,5) in \<open>auto simp: imap_step_def im_sw_spaces_before_argument_def\<close>)
  also have "\<dots> = imap_run mem lst (p + 1 + length w) im_argument ?s"
    by (rule imap_skip) (use h w nq assms(4) v in \<open>auto simp: imap_step_def im_sw_argument_def\<close>)
  also have "p + 1 + length w = p + length v" by (simp add: v)
  also have "imap_run mem lst (p + length v) im_argument ?s = imap_run mem lst (p + length v + 1) (after_arg d) (add_arg s p (length v) (ms_arg_end s))"
    by (rule scan_next) (use h assms(3,4) nq in \<open>auto simp: imap_step_def im_sw_argument_def im_end_argument_def mail_push_def mail_after_def after_arg_def add_arg_def\<close>)
  finally show ?thesis .
qed

lemma push_quoted:
  "\<not> ms_quoted s \<Longrightarrow> mail_push (\<lambda>n. True) q (s\<lparr>ms_arg_start := a, ms_quoted := False\<rparr>) = Some (add_arg s a (q - a) (ms_arg_end s))"
  by (cases s) (simp add: mail_push_def add_arg_def)

lemma imap_quoted:
  assumes "holds mem p (c_quot # v @ [c_quot, d])" "arg_ok (Quoted v)" "d \<in> {c_space, CR}" "p + length v + 2 < lst" "length (ms_args s) \<le> 2" "mail_ready s"
  shows "\<exists>e. imap_run mem lst p im_spaces_before_argument s = imap_run mem lst (p + length v + 3) (after_arg d) (add_arg s (p + 1) (length v) e)"
proof -
  have h: "mem p = c_quot" "holds mem (p + 1) v" "mem (p + 1 + length v) = c_quot" "mem (p + 1 + length v + 1) = d" using assms(1) by (simp_all add: holds_append)
  let ?s = "s\<lparr>ms_quoted := True, ms_arg_start := p + 1\<rparr>"
  have q: "\<not> ms_quoted s" using assms(6) by (simp add: mail_ready_def)
  have v: "c \<notin> {c_quot, c_bslash, CR, LF}" if "c \<in> set v" for c using assms(2) that by auto
  have "imap_run mem lst p im_spaces_before_argument s = imap_run mem lst (p + 1) im_argument ?s"
    by (rule scan_next) (use h assms(4,5) in \<open>auto simp: imap_step_def im_sw_spaces_before_argument_def\<close>)
  also have "\<dots> = imap_run mem lst (p + 1 + length v) im_argument ?s"
    by (rule imap_skip) (use h v assms(4) in \<open>auto simp: imap_step_def im_sw_argument_def\<close>)
  also have "\<dots> = imap_run mem lst (p + 1 + length v + 1) im_spaces_before_argument (add_arg s (p + 1) (length v) (ms_arg_end s))"
  proof (rule scan_next)
    have "im_end_argument (\<lambda>n. True) c_quot (p + 1 + length v) (s\<lparr>ms_arg_start := p + 1, ms_quoted := False\<rparr>) =
        Next im_spaces_before_argument (add_arg s (p + 1) (length v) (ms_arg_end s))"
      unfolding im_end_argument_def push_quoted [OF q] by (simp add: mail_after_def)
    moreover have "?s\<lparr>ms_quoted := False\<rparr> = s\<lparr>ms_arg_start := p + 1, ms_quoted := False\<rparr>" by simp
    ultimately show "imap_step (\<lambda>n. True) mem im_argument (mem (p + 1 + length v)) (p + 1 + length v) ?s =
        Next im_spaces_before_argument (add_arg s (p + 1) (length v) (ms_arg_end s))"
      unfolding h(3) by (simp add: imap_step_def im_sw_argument_def)
  qed (use assms(4) in simp_all)
  also have "\<dots> = imap_run mem lst (p + 1 + length v + 2) (after_arg d)
      (add_arg s (p + 1) (length v) (if d = c_space then ms_arg_end s else p + 1 + length v + 1))"
  proof (rule scan_next)
    have "im_sw_spaces_before_argument d q t = Next (after_arg d) (if d = c_space then t else t\<lparr>ms_arg_end := q\<rparr>)" for q t
    proof (cases "d = c_space")
      case True
      show ?thesis unfolding True by (simp add: im_sw_spaces_before_argument_def after_arg_def)
    next
      case False
      then have d: "d = CR" using assms(3) by simp
      show ?thesis unfolding d by (simp add: im_sw_spaces_before_argument_def after_arg_def)
    qed
    then show "imap_step (\<lambda>n. True) mem im_spaces_before_argument (mem (p + 1 + length v + 1)) (p + 1 + length v + 1)
        (add_arg s (p + 1) (length v) (ms_arg_end s)) =
      Next (after_arg d) (add_arg s (p + 1) (length v) (if d = c_space then ms_arg_end s else p + 1 + length v + 1))"
      unfolding h(4) by (simp add: imap_step_def add_arg_def)
  qed (use assms(4) in simp_all)
  also have "p + 1 + length v + 2 = p + length v + 3" by simp
  finally show ?thesis by blast
qed

lemma imap_digits:
  "list_all is_digit ds \<Longrightarrow> holds mem p ds \<Longrightarrow> p + length ds \<le> lst \<Longrightarrow>
   imap_run mem lst p im_literal (s\<lparr>ms_literal_len := of_nat n\<rparr>) =
   imap_run mem lst (p + length ds) im_literal (s\<lparr>ms_literal_len := of_nat (pos_value 10 digit_value n ds)\<rparr>)"
proof (induction ds arbitrary: p n)
  case (Cons c ds)
  have d: "is_digit c" using Cons.prems(1) by simp
  then have u: "(ucast (c - c_0) :: uint64_t) = of_nat (digit_value c)"
    using digit_value_less [of c] by (simp add: word_unat_eq_iff unat_ucast unat_of_nat unat_digit_minus)
  have "imap_run mem lst p im_literal (s\<lparr>ms_literal_len := of_nat n\<rparr>) =
      imap_run mem lst (p + 1) im_literal (s\<lparr>ms_literal_len := of_nat (n * 10 + digit_value c)\<rparr>)"
    by (rule scan_next) (use Cons.prems d in \<open>auto simp: imap_step_def im_sw_literal_def is_digit_def u\<close>)
  then show ?case using Cons.IH [of "p + 1" "n * 10 + digit_value c"] Cons.prems by simp
qed simp

lemma imap_literal_bytes:
  "holds mem p v \<Longrightarrow> v \<noteq> [] \<Longrightarrow> length v < 2 ^ 64 \<Longrightarrow> p + length v \<le> lst \<Longrightarrow>
   imap_run mem lst p im_literal_argument (s\<lparr>ms_literal_len := of_nat (length v), ms_arg_start := a\<rparr>) =
   imap_run mem lst (p + length v) im_end_literal_argument
     (s\<lparr>ms_literal_len := 0, ms_args := ms_args s @ [\<lparr>str_len = p + length v - a, str_data = a\<rparr>], ms_arg_start := NULL\<rparr>)"
proof (induction v arbitrary: p)
  case (Cons c v)
  have u: "unat (of_nat (length (c # v)) :: uint64_t) = length (c # v)" "unat (of_nat (length v) :: uint64_t) = length v"
    using Cons.prems(3) by (simp_all only: unat_of_nat) simp_all
  have "of_nat (length (c # v)) \<noteq> (0 :: uint64_t)" by (simp only: word_unat_eq_iff u unat_0) simp
  moreover have "of_nat (length v) = (0 :: uint64_t) \<longleftrightarrow> v = []" by (simp only: word_unat_eq_iff u unat_0 length_0_conv)
  moreover have "(of_nat (length (c # v)) - 1 :: uint64_t) = of_nat (length v)" by simp
  ultimately have n: "of_nat (length (c # v)) \<noteq> (0 :: uint64_t)" "(of_nat (length (c # v)) - 1 :: uint64_t) = of_nat (length v)"
    "of_nat (length v) = (0 :: uint64_t) \<longleftrightarrow> v = []" by blast+
  show ?case
  proof (cases "v = []")
    case True
    have "imap_run mem lst p im_literal_argument (s\<lparr>ms_literal_len := of_nat (length (c # v)), ms_arg_start := a\<rparr>) =
      imap_run mem lst (p + 1) im_end_literal_argument
        (s\<lparr>ms_literal_len := 0, ms_args := ms_args s @ [\<lparr>str_len = p + 1 - a, str_data = a\<rparr>], ms_arg_start := NULL\<rparr>)"
      by (rule scan_next) (use Cons.prems True in \<open>auto simp: imap_step_def im_sw_literal_argument_def mail_push_def\<close>)
    then show ?thesis using True by simp
  next
    case False
    have "imap_run mem lst p im_literal_argument (s\<lparr>ms_literal_len := of_nat (length (c # v)), ms_arg_start := a\<rparr>) =
      imap_run mem lst (p + 1) im_literal_argument (s\<lparr>ms_literal_len := of_nat (length v), ms_arg_start := a\<rparr>)"
      by (rule scan_next) (use Cons.prems False n in \<open>auto simp: imap_step_def im_sw_literal_argument_def Let_def\<close>)
    then show ?thesis using Cons.IH [of "p + 1"] Cons.prems False by simp
  qed
qed simp

lemma imap_literal:
  assumes "holds mem p (arg_text (Literal ds v) @ [d])" "arg_ok (Literal ds v)" "d \<in> {c_space, CR}" "p + length (arg_text (Literal ds v)) < lst"
    "length (ms_args s) \<le> 2" "mail_ready s"
  shows "\<exists>a. holds mem a v \<and> imap_run mem lst p im_spaces_before_argument s =
    imap_run mem lst (p + length (arg_text (Literal ds v)) + 1) (after_arg d) (add_arg s a (length v) (ms_arg_end s))"
proof -
  have ok: "list_all is_digit ds" "dec_value ds = length v" "v \<noteq> []" "length v < 2 ^ 64" using assms(2) by auto
  define q where "q = p + 1 + length ds"
  define e where "e = q + 4 + length v"
  have "holds mem p ([c_lbrace] @ ds @ [c_plus, c_rbrace, CR, LF] @ v @ [d])" using assms(1) by simp
  then have h: "mem p = c_lbrace" "holds mem (p + 1) ds" "mem q = c_plus" "mem (q + 1) = c_rbrace" "mem (q + 2) = CR" "mem (q + 3) = LF"
    "holds mem (q + 4) v" "mem e = d"
    unfolding q_def e_def holds_append by (simp_all add: eval_nat_numeral)
  have len: "p + length (arg_text (Literal ds v)) = e" by (simp add: q_def e_def)
  have lt: "e < lst" using assms(4) unfolding len .
  have r: "\<not> ms_no_sync_literal s" "ms_literal_len s = 0" using assms(6) by (simp_all add: mail_ready_def)
  have s0: "s\<lparr>ms_literal_len := of_nat 0\<rparr> = s" using r(2) by (cases s) simp
  let ?s1 = "s\<lparr>ms_literal_len := of_nat (length v)\<rparr>"
  have "imap_run mem lst p im_spaces_before_argument s = imap_run mem lst (p + 1) im_literal (s\<lparr>ms_literal_len := of_nat 0\<rparr>)"
    unfolding s0 by (rule scan_next) (use lt h(1) assms(5) in \<open>simp_all add: imap_step_def im_sw_spaces_before_argument_def e_def q_def\<close>)
  also have "\<dots> = imap_run mem lst q im_literal ?s1"
    using imap_digits [OF ok(1) h(2), where lst = lst and s = s and n = 0] lt ok(2) by (simp add: q_def e_def)
  also have "\<dots> = imap_run mem lst (q + 1) im_no_sync_literal_argument ?s1"
    by (rule scan_next) (use lt h(3) in \<open>simp_all add: imap_step_def im_sw_literal_def e_def\<close>)
  also have "\<dots> = imap_run mem lst (q + 2) im_start_literal_argument (?s1\<lparr>ms_no_sync_literal := True\<rparr>)"
    by (rule scan_next) (use lt h(4) in \<open>simp_all add: imap_step_def im_sw_no_sync_literal_argument_def e_def\<close>)
  also have "\<dots> = imap_run mem lst (q + 3) im_start_literal_argument (?s1\<lparr>ms_no_sync_literal := True\<rparr>)"
    by (rule scan_next) (use lt h(5) in \<open>simp_all add: imap_step_def im_sw_start_literal_argument_def e_def\<close>)
  also have "\<dots> = imap_run mem lst (q + 4) im_literal_argument (s\<lparr>ms_literal_len := of_nat (length v), ms_arg_start := q + 4\<rparr>)"
  proof (rule scan_next)
    have "?s1\<lparr>ms_no_sync_literal := True, ms_arg_start := q + 3 + 1, ms_no_sync_literal := False\<rparr> =
        s\<lparr>ms_literal_len := of_nat (length v), ms_arg_start := q + 4\<rparr>" using r(1) by (cases s) simp
    then show "imap_step (\<lambda>n. True) mem im_start_literal_argument (mem (q + 3)) (q + 3) (?s1\<lparr>ms_no_sync_literal := True\<rparr>) =
        Next im_literal_argument (s\<lparr>ms_literal_len := of_nat (length v), ms_arg_start := q + 4\<rparr>)"
      unfolding h(6) by (simp add: imap_step_def im_sw_start_literal_argument_def Let_def)
  qed (use lt in \<open>simp_all add: e_def\<close>)
  also have "\<dots> = imap_run mem lst e im_end_literal_argument (add_arg s (q + 4) (length v) (ms_arg_end s))"
  proof -
    have "s\<lparr>ms_literal_len := 0, ms_args := ms_args s @ [\<lparr>str_len = e - (q + 4), str_data = q + 4\<rparr>], ms_arg_start := NULL\<rparr> =
        add_arg s (q + 4) (length v) (ms_arg_end s)" using r(2) by (cases s) (simp add: add_arg_def e_def)
    then show ?thesis using imap_literal_bytes [OF h(7) ok(3,4), where lst = lst and s = s and a = "q + 4"] lt by (simp add: e_def)
  qed
  also have "\<dots> = imap_run mem lst (e + 1) (after_arg d) (add_arg s (q + 4) (length v) (ms_arg_end s))"
  proof (rule scan_next)
    have "im_sw_end_literal_argument d t = Next (after_arg d) t" for t
    proof (cases "d = c_space")
      case True
      show ?thesis unfolding True by (simp add: im_sw_end_literal_argument_def after_arg_def)
    next
      case False
      then have d: "d = CR" using assms(3) by simp
      show ?thesis unfolding d by (simp add: im_sw_end_literal_argument_def after_arg_def)
    qed
    then show "imap_step (\<lambda>n. True) mem im_end_literal_argument (mem e) e (add_arg s (q + 4) (length v) (ms_arg_end s)) =
        Next (after_arg d) (add_arg s (q + 4) (length v) (ms_arg_end s))"
      unfolding h(8) by (simp add: imap_step_def)
  qed (use lt in simp_all)
  finally show ?thesis unfolding len using h(7) by blast
qed

text \<open>An argument and the byte behind it, whatever its form.\<close>

lemma imap_arg:
  assumes "holds mem p (arg_text a @ [d])" "arg_ok a" "d \<in> {c_space, CR}" "p + length (arg_text a) < lst" "length (ms_args s) \<le> 2" "mail_ready s"
  shows "\<exists>b e. holds mem b (arg_value a) \<and> imap_run mem lst p im_spaces_before_argument s =
    imap_run mem lst (p + length (arg_text a) + 1) (after_arg d) (add_arg s b (length (arg_value a)) e)"
proof (cases a)
  case (Atom v)
  then have "holds mem p v" using assms(1) by (simp add: holds_append)
  then show ?thesis using imap_atom [of mem p v d lst s] assms Atom by auto
next
  case (Quoted v)
  then have "holds mem (p + 1) v" using assms(1) by (simp add: holds_append)
  then show ?thesis using imap_quoted [of mem p v d lst s] assms Quoted by (auto simp: numeral_3_eq_3)
next
  case (Literal ds v)
  then show ?thesis using imap_literal [of mem p ds v d lst s] assms by auto
qed

text \<open>The rest of a line, from behind a space or a carriage return.\<close>

fun args_text :: "imap_arg list \<Rightarrow> bytes" where
  "args_text [] = [LF]"
| "args_text (a # as') = arg_text a @ (if as' = [] then CR else c_space) # args_text as'"

definition args_hold :: "memory \<Rightarrow> ngx_str_t list \<Rightarrow> imap_arg list \<Rightarrow> bool" where
  "args_hold mem xs as' \<longleftrightarrow> list_all2 (\<lambda>x a. str_len x = length (arg_value a) \<and> holds mem (str_data x) (arg_value a)) xs as'"

lemma imap_args:
  assumes "holds mem p (args_text as')" "\<forall>a\<in>set as'. arg_ok a" "p + length (args_text as') \<le> lst" "length (ms_args s) + length as' \<le> 3" "mail_ready s"
    "ms_arg_start s = NULL"
  shows "\<exists>s'. imap_run mem lst p (if as' = [] then im_almost_done else im_spaces_before_argument) s = Scan_goto l_done (p + length (args_text as') - 1) s' \<and>
    ms_command s' = ms_command s \<and> ms_tag s' = ms_tag s \<and> ms_arg_start s' = NULL \<and>
    (\<exists>xs. ms_args s' = ms_args s @ xs \<and> args_hold mem xs as')"
  using assms
proof (induction as' arbitrary: p s)
  case Nil
  then have "imap_run mem lst p im_almost_done s = Scan_goto l_done p s"
    by (intro scan_goto) (auto simp: imap_step_def im_sw_almost_done_def)
  then show ?case using Nil by (auto simp: args_hold_def)
next
  case (Cons a as')
  let ?d = "if as' = [] then CR else c_space"
  let ?p = "p + length (arg_text a) + 1"
  have h: "holds mem p (arg_text a @ [?d])" "holds mem ?p (args_text as')" using Cons.prems(1) by (auto simp: holds_append)
  have "p + length (arg_text a) < lst" "length (ms_args s) \<le> 2" "arg_ok a" "?d \<in> {c_space, CR}" using Cons.prems(2-4) by auto
  then obtain b e where b: "holds mem b (arg_value a)" "imap_run mem lst p im_spaces_before_argument s =
      imap_run mem lst ?p (after_arg ?d) (add_arg s b (length (arg_value a)) e)"
    using imap_arg [OF h(1)] Cons.prems(5) by blast
  let ?s = "add_arg s b (length (arg_value a)) e"
  have "\<exists>s'. imap_run mem lst ?p (if as' = [] then im_almost_done else im_spaces_before_argument) ?s = Scan_goto l_done (?p + length (args_text as') - 1) s' \<and>
    ms_command s' = ms_command ?s \<and> ms_tag s' = ms_tag ?s \<and> ms_arg_start s' = NULL \<and>
    (\<exists>xs. ms_args s' = ms_args ?s @ xs \<and> args_hold mem xs as')"
    by (rule Cons.IH [OF h(2)]) (use Cons.prems(2-5) in \<open>auto simp: add_arg_def mail_ready_def\<close>)
  then obtain s' xs where s': "imap_run mem lst ?p (if as' = [] then im_almost_done else im_spaces_before_argument) ?s = Scan_goto l_done (?p + length (args_text as') - 1) s'"
    "ms_command s' = ms_command s" "ms_tag s' = ms_tag s" "ms_arg_start s' = NULL" "ms_args s' = ms_args ?s @ xs" "args_hold mem xs as'"
    by (auto simp: add_arg_def)
  have d: "after_arg ?d = (if as' = [] then im_almost_done else im_spaces_before_argument)" by (simp add: after_arg_def)
  have e: "?p + length (args_text as') - 1 = p + length (args_text (a # as')) - 1" by simp
  have "imap_run mem lst p (if a # as' = [] then im_almost_done else im_spaces_before_argument) s =
      Scan_goto l_done (p + length (args_text (a # as')) - 1) s'"
    using b(2) s'(1) unfolding d e by (simp only: list.distinct if_False)
  moreover have "ms_args s' = ms_args s @ (\<lparr>str_len = length (arg_value a), str_data = b\<rparr> # xs)" using s'(5) by (simp add: add_arg_def)
  moreover have "args_hold mem (\<lparr>str_len = length (arg_value a), str_data = b\<rparr> # xs) (a # as')" using b(1) s'(6) by (simp add: args_hold_def)
  ultimately show ?case using s'(2-4) by blast
qed

definition imap_words :: "(bytes \<times> nat) list" where
  "imap_words = [(bs ''NOOP'', 4), (bs ''LOGIN'', 1), (bs ''LOGOUT'', 2), (bs ''STARTTLS'', 5), (bs ''CAPABILITY'', 3), (bs ''AUTHENTICATE'', 7)]"

definition imap_code :: "bytes \<Rightarrow> nat option" where
  "imap_code w = map_option snd (find (\<lambda>un. map tolower (fst un) = map tolower w) imap_words)"

lemma tolower_letter: "c_A \<le> u \<Longrightarrow> u \<le> c_Z \<Longrightarrow> x = u \<or> x = tolower u \<longleftrightarrow> tolower u = tolower x"
  using tolower_unat [of x] tolower_unat [of u] by (auto simp: word_unat_eq_iff word_le_nat_alt split: if_splits)

lemma letters_are_ok:
  "holds mem c w \<Longrightarrow> length w = length u \<Longrightarrow> list_all (\<lambda>x. c_A \<le> x \<and> x \<le> c_Z) u \<Longrightarrow> letters_are mem c u \<longleftrightarrow> map tolower u = map tolower w"
proof (induction w arbitrary: c u)
  case (Cons x w)
  then obtain y u' where u: "u = y # u'" by (cases u) auto
  then show ?case using Cons tolower_letter [of y x] by simp
qed simp

lemma imap_command_ok:
  assumes "holds mem c w"
  shows "imap_command mem c (length w) = imap_code w"
proof -
  have l: "letters_are mem c u \<longleftrightarrow> map tolower u = map tolower w" if "length w = length u" "u \<in> fst ` set imap_words" for u
  proof (rule letters_are_ok [OF assms that(1)])
    show "list_all (\<lambda>x. c_A \<le> x \<and> x \<le> c_Z) u" using that(2) by (auto simp: imap_words_def)
  qed
  have ne: "map tolower u \<noteq> map tolower w" if "length w \<noteq> length u" for u using that by (metis length_map)
  have w: "bs ''NOOP'' \<in> fst ` set imap_words" "bs ''LOGIN'' \<in> fst ` set imap_words" "bs ''LOGOUT'' \<in> fst ` set imap_words"
    "bs ''STARTTLS'' \<in> fst ` set imap_words" "bs ''CAPABILITY'' \<in> fst ` set imap_words" "bs ''AUTHENTICATE'' \<in> fst ` set imap_words"
    by (simp_all add: imap_words_def del: bs_simps)
  have code: "imap_code w =
    (if map tolower (bs ''NOOP'') = map tolower w then Some 4 else if map tolower (bs ''LOGIN'') = map tolower w then Some 1
     else if map tolower (bs ''LOGOUT'') = map tolower w then Some 2 else if map tolower (bs ''STARTTLS'') = map tolower w then Some 5
     else if map tolower (bs ''CAPABILITY'') = map tolower w then Some 3 else if map tolower (bs ''AUTHENTICATE'') = map tolower w then Some 7 else None)"
    by (simp add: imap_code_def imap_words_def del: bs_simps)
  have len: "length (bs ''NOOP'') = 4" "length (bs ''LOGIN'') = 5" "length (bs ''LOGOUT'') = 6" "length (bs ''STARTTLS'') = 8"
    "length (bs ''CAPABILITY'') = 10" "length (bs ''AUTHENTICATE'') = 12" by simp_all
  have "letters_are mem c u \<and> length w = length u \<longleftrightarrow> map tolower u = map tolower w" if "u \<in> fst ` set imap_words" for u
    using l [OF _ that] ne [of u] by blast
  note k = this [OF w(1)] this [OF w(2)] this [OF w(3)] this [OF w(4)] this [OF w(5)] this [OF w(6)]
  show ?thesis unfolding code k [symmetric] imap_command_def len by (simp del: bs_simps)
qed

text \<open>
  C39: A command of IMAP, a tag, a command word in any case and up to three arguments, is accepted with the code of the word, the tag and the
  values of the arguments, when all of it has arrived and memory is not short.  Each argument is an atom, a quoted string without a quote or a backslash
  in it, or a literal \<open>{n+}\<close> that the client does not wait for, with its \<open>n > 0\<close> bytes.  The literal \<open>{n}\<close>, at which the parser stops
  with \<open>NGX_IMAP_NEXT\<close>, and the literal \<open>{0+}\<close>, which is misread, are left out.
\<close>

theorem imap_accepts:
  assumes "holds mem pos (tag @ c_space # word @ (if args = [] then CR else c_space) # args_text args)"
    "pos + length tag + length word + length (args_text args) + 2 \<le> lst"
    "ms_start s = pos" "ms_args s = []" "ms_arg_start s = NULL" "mail_ready s"
    "set tag \<inter> {c_space, CR, LF} = {}" "list_all mail_letter word" "imap_code word = Some cmd" "length args \<le> 3" "\<forall>a\<in>set args. arg_ok a"
  shows "\<exists>s'. ngx_mail_imap_parse_command (\<lambda>n. True) mem lst im_start pos s =
      (NGX_OK, if cmd = NGX_IMAP_AUTHENTICATE then im_argument else im_start, pos + length tag + length word + length (args_text args) + 2, s') \<and>
    ms_command s' = cmd \<and> ms_tag s' = \<lparr>str_len = length tag + 1, str_data = pos\<rparr> \<and> args_hold mem (ms_args s') args"
proof -
  let ?d = "if args = [] then CR else c_space"
  define p where "p = pos + length tag + 1"
  define q where "q = p + length word"
  have "word \<noteq> []"
  proof
    assume "word = []"
    then show False using assms(9) by (simp add: imap_code_def imap_words_def)
  qed
  then obtain c w where word: "word = c # w" by (cases word) auto
  have "holds mem pos (tag @ [c_space] @ word @ [?d] @ args_text args)" using assms(1) by simp
  then have h: "holds mem pos tag" "mem (pos + length tag) = c_space" "holds mem p word" "mem q = ?d" "holds mem (q + 1) (args_text args)"
    unfolding holds_append p_def q_def by simp_all
  have lt: "q + 1 + length (args_text args) \<le> lst" using assms(2) by (simp add: p_def q_def)
  have L: "x \<noteq> c_space \<and> x \<noteq> CR \<and> x \<noteq> LF" if "mail_letter x" for x using that by (auto simp: mail_letter_def)
  let ?s1 = "s\<lparr>ms_tag := \<lparr>str_len = length tag + 1, str_data = pos\<rparr>\<rparr>"
  let ?s2 = "?s1\<lparr>ms_cmd_start := p\<rparr>"
  let ?s3 = "?s2\<lparr>ms_command := cmd\<rparr>"
  have "imap_run mem lst pos im_start s = imap_run mem lst (pos + length tag) im_start s"
    by (rule imap_skip) (use h(1) lt assms(7) in \<open>auto simp: imap_step_def im_sw_start_def p_def q_def\<close>)
  also have "\<dots> = imap_run mem lst p im_spaces_before_command ?s1"
    by (rule scan_next) (use h(2) lt assms(3) in \<open>simp_all add: imap_step_def im_sw_start_def p_def q_def\<close>)
  also have "\<dots> = imap_run mem lst (p + 1) im_command ?s2"
    by (rule scan_next) (use h(3) lt L [of c] assms(8) in \<open>simp_all add: imap_step_def im_sw_spaces_before_command_def word q_def\<close>)
  also have "\<dots> = imap_run mem lst (p + 1 + length w) im_command ?s2"
    by (rule imap_skip) (use h(3) lt L assms(8) in \<open>auto simp: imap_step_def im_sw_command_def word q_def list_all_iff\<close>)
  also have "p + 1 + length w = q" by (simp add: q_def word)
  also have "imap_run mem lst q im_command ?s2 = imap_run mem lst (q + 1) (after_arg ?d) ?s3"
  proof (rule scan_next)
    have "imap_command mem p (q - p) = Some cmd" using imap_command_ok [OF h(3)] assms(9) by (simp add: q_def)
    then show "imap_step (\<lambda>n. True) mem im_command (mem q) q ?s2 = Next (after_arg ?d) ?s3"
      unfolding h(4) by (simp add: imap_step_def im_sw_command_def mail_after_def after_arg_def)
  qed (use lt in simp_all)
  also have "after_arg ?d = (if args = [] then im_almost_done else im_spaces_before_argument)" by (simp add: after_arg_def)
  finally have run: "imap_run mem lst pos im_start s = imap_run mem lst (q + 1) (if args = [] then im_almost_done else im_spaces_before_argument) ?s3" .
  obtain s' where s': "imap_run mem lst pos im_start s = Scan_goto l_done (q + 1 + length (args_text args) - 1) s'"
    "ms_command s' = cmd" "ms_tag s' = \<lparr>str_len = length tag + 1, str_data = pos\<rparr>" "ms_arg_start s' = NULL" "args_hold mem (ms_args s') args"
    using imap_args [OF h(5) assms(11) lt, of ?s3] assms(4,5,6,10) unfolding run by (auto simp: mail_ready_def)
  have "0 < length (args_text args)" by (cases args) simp_all
  then have "q + 1 + length (args_text args) - 1 + 1 = pos + length tag + length word + length (args_text args) + 2" by (simp add: p_def q_def)
  then show ?thesis using s' by (simp add: ngx_mail_imap_parse_command_def mail_finish_def mail_done_def)
qed

lemma imap_accepts_witness:
  "\<exists>s'. ngx_mail_imap_parse_command (\<lambda>n. True) (mem_at 1 (bs ''a LOGIN joe {2+}'' @ [CR, LF] @ bs ''pw'' @ [CR, LF])) 23 im_start 1 (init_session 1) =
      (NGX_OK, im_start, 23, s') \<and> ms_command s' = 1 \<and> length (ms_args s') = 2"
proof -
  let ?args = "[Atom (bs ''joe''), Literal (bs ''2'') (bs ''pw'')]"
  let ?m = "mem_at 1 (bs ''a LOGIN joe {2+}'' @ [CR, LF] @ bs ''pw'' @ [CR, LF])"
  have t: "bs ''a LOGIN joe {2+}'' @ [CR, LF] @ bs ''pw'' @ [CR, LF] =
      bs ''a'' @ c_space # bs ''LOGIN'' @ (if ?args = [] then CR else c_space) # args_text ?args" by simp
  then have h: "holds ?m 1 (bs ''a'' @ c_space # bs ''LOGIN'' @ (if ?args = [] then CR else c_space) # args_text ?args)" using holds_mem_at by metis
  have l: "length (args_text ?args) = 14" "length (bs ''a'') = 1" "length (bs ''LOGIN'') = 5" by simp_all
  have code: "imap_code (bs ''LOGIN'') = Some 1" by code_simp
  have ok: "\<forall>a\<in>set ?args. arg_ok a" by (simp add: is_digit_def digit_value_def)
  have "\<exists>s'. ngx_mail_imap_parse_command (\<lambda>n. True) ?m 23 im_start 1 (init_session 1) =
      (NGX_OK, if (1 :: nat) = NGX_IMAP_AUTHENTICATE then im_argument else im_start,
        1 + length (bs ''a'') + length (bs ''LOGIN'') + length (args_text ?args) + 2, s') \<and>
    ms_command s' = 1 \<and> ms_tag s' = \<lparr>str_len = length (bs ''a'') + 1, str_data = 1\<rparr> \<and> args_hold ?m (ms_args s') ?args"
    by (rule imap_accepts [OF h _ _ _ _ _ _ _ code _ ok]) (simp_all add: l init_session_def mail_ready_def mail_letter_def)
  then show ?thesis unfolding l by (auto simp: args_hold_def dest: list_all2_lengthD)
qed

text \<open>A quoted string that a line end cuts short leaves the session quoted: the next command takes spaces as part of an argument.\<close>

lemma imap_stays_quoted:
  "\<exists>st pos s'. ngx_mail_imap_parse_command (\<lambda>n. True) (mem_at 1 (bs ''a LOGIN \"j'' @ [LF])) 12 im_start 1 (init_session 1) = (NGX_OK, st, pos, s') \<and>
    ms_quoted s'"
  by (simp add: ngx_mail_imap_parse_command_def init_session_def scan_loop_step scan_loop_end imap_step_def im_defs mail_push_def mem_at_def
      mail_letter_def imap_command_def mail_finish_def mail_done_def tolower_def)

text \<open>The announced length 0 takes one byte.\<close>

lemma imap_empty_literal:
  "\<exists>st pos s'. ngx_mail_imap_parse_command (\<lambda>n. True) (mem_at 1 (bs ''a LOGIN {0+}'' @ [CR, LF, CR, LF])) 17 im_start 1 (init_session 1) = (NGX_OK, st, pos, s') \<and>
    map str_len (ms_args s') = [1]"
  by (simp add: ngx_mail_imap_parse_command_def init_session_def scan_loop_step scan_loop_end imap_step_def im_defs mail_push_def mem_at_def
      mail_letter_def imap_command_def mail_finish_def mail_done_def tolower_def)

end
