(* ===== verification/Spec2Isabelle.thy ===== *)
theory Spec2Isabelle
  imports Ngx_Prelude Ngx_Number Ngx_Printf Ngx_Base64 Ngx_Escape Ngx_Http_Status_Line Ngx_Http_Header_Line
    Ngx_Http_Complex_Uri Ngx_Http_Parse_Time Ngx_Inet6 Ngx_Parse Ngx_Http_Geo Ngx_Shmtx
    Ngx_Http_Upstream_Round_Robin Ngx_Event_Timer Ngx_Str_Rbtree Ngx_Queue Ngx_Crc32 Ngx_Http_Limit_Req
    Ngx_Utf8 Ngx_Http_Args Ngx_Hash Ngx_Mail_Parse
begin

text \<open>
  A model of the core of nginx 1.2.0, the web server whose sources the repository holds under
  \<open>nginx-1.2.0/src\<close>, with the theorems that make it correct.

  \<^bold>\<open>The program.\<close>  A request arrives as bytes in a buffer.  \<open>http/ngx_http_parse.c\<close> scans its first
  line and its header lines, in as many calls as the bytes take to arrive, and leaves pointers into
  the buffer in the request; a URI that is not plain is then decoded and normalised.  The routines
  of \<open>core/\<close> serve these scanners, the configuration reader and the modules: conversion of numbers,
  formatted printing, escaping, addresses, dates, and tables such as the radix tree by which the
  \<open>geo\<close> module maps the address of a client to a value.

  \<^bold>\<open>Platform.\<close>  Little endian, 64-bit \<open>ngx_int_t\<close>, \<open>size_t\<close>, \<open>off_t\<close>, \<open>time_t\<close> and pointers, 32-bit
  \<open>int\<close>, IPv6 on, TLS on, no Windows.  Integers are words of their width where a sum, a product or a
  shift can leave the range of a number; lengths and addresses are natural numbers.  Signed
  arithmetic wraps, as the compilers in use make it.

  \<^bold>\<open>Theories and code.\<close>

  \<^item> \<open>Ngx_Prelude\<close>: bytes, characters and return codes of the source, digits and positional
    numerals, word facts.
  \<^item> \<open>Ngx_Number\<close>, \<open>Ngx_Printf\<close> (\<open>core/ngx_string.c\<close>): \<open>ngx_atoi\<close> and its kin, \<open>ngx_hextoi\<close>,
    \<open>ngx_hex_dump\<close>, \<open>ngx_sprintf_num\<close>; \<open>ngx_vslprintf\<close> and its wrappers.  The number readers share the
    interface \<open>decimal_parser\<close>.
  \<^item> \<open>Ngx_Base64\<close>, \<open>Ngx_Escape\<close>, \<open>Ngx_Bitmap\<close> (\<open>core/ngx_string.c\<close>): the base64 encoder and decoders,
    \<open>ngx_escape_uri\<close>, \<open>ngx_escape_html\<close>, \<open>ngx_unescape_uri\<close>, and tests of character bitmaps.
  \<^item> \<open>Ngx_Utf8\<close> (\<open>core/ngx_string.c\<close>): \<open>ngx_utf8_decode\<close>, \<open>ngx_utf8_length\<close>, \<open>ngx_utf8_cpystrn\<close>.
  \<^item> \<open>Ngx_Http\<close> (\<open>http/ngx_http_request.h\<close>, \<open>core/ngx_buf.h\<close>): the fields of a request that the scanners
    read and write, the buffer, the memory, and the locale \<open>scanner\<close>: a loop over a step function
    that may stop at the end of the buffer and be continued with more bytes.
  \<^item> \<open>Ngx_Http_Request_Line\<close>, \<open>Ngx_Http_Header_Line\<close>, \<open>Ngx_Http_Status_Line\<close>, \<open>Ngx_Http_Complex_Uri\<close>
    (\<open>http/ngx_http_parse.c\<close>): one definition for each state of \<open>ngx_http_parse_request_line\<close>,
    \<open>ngx_http_parse_header_line\<close>, \<open>ngx_http_parse_status_line\<close> and \<open>ngx_http_parse_complex_uri\<close>, a
    step that selects it, and the loop; the first three interpret \<open>scanner\<close>.
  \<^item> \<open>Ngx_Http_Args\<close> (\<open>http/ngx_http_parse.c\<close>): the test for unsafe URIs, the search for an argument of a query and for
    an item of a header on several lines.
  \<^item> \<open>Ngx_Mail_Parse\<close> (\<open>mail/ngx_mail_parse.c\<close>): the scanners of POP3, IMAP and SMTP commands; all three interpret \<open>scanner\<close>.
  \<^item> \<open>Ngx_Time\<close> (\<open>core/ngx_times.c\<close>), \<open>Ngx_Http_Parse_Time\<close> (\<open>http/ngx_http_parse_time.c\<close>): \<open>ngx_gmtime\<close>,
    \<open>ngx_http_time\<close>, \<open>ngx_http_cookie_time\<close>, and the reader of the three formats of a date.
  \<^item> \<open>Ngx_Inet\<close>, \<open>Ngx_Inet6\<close> (\<open>core/ngx_inet.c\<close>): readers and printers of addresses, \<open>ngx_ptocidr\<close>.
  \<^item> \<open>Ngx_Radix\<close> (\<open>core/ngx_radix_tree.c\<close>): the tree with its pointers, free list and pages.
  \<^item> \<open>Ngx_Http_Geo\<close> (\<open>http/modules/ngx_http_geo_module.c\<close>): a \<open>geo\<close> block of networks, a client of the
    radix tree through the locale \<open>prefix_table\<close> and of \<open>ngx_ptocidr\<close>.
  \<^item> \<open>Ngx_Parse\<close> (\<open>core/ngx_parse.c\<close>): sizes, offsets and times of the configuration.
  \<^item> \<open>Ngx_Sort\<close> (\<open>core/ngx_string.c\<close>): \<open>ngx_sort\<close>.
  \<^item> \<open>Ngx_Http_Upstream_Round_Robin\<close> (\<open>http/ngx_http_upstream_round_robin.c\<close>): the balancing of requests between
    the servers of an upstream, a client of \<open>ngx_sort\<close>.
  \<^item> \<open>Ngx_Rbtree\<close> (\<open>core/ngx_rbtree.c\<close>, \<open>core/ngx_rbtree.h\<close>): red-black trees over a memory of nodes, with the locales
    \<open>rbtree_order\<close> and \<open>rbtree_insertion\<close> for what a tree asks of its order and of its insertion function.
    \<open>Ngx_Event_Timer\<close> (\<open>event/ngx_event_timer.c\<close>, \<open>event/ngx_event_timer.h\<close>) and \<open>Ngx_Str_Rbtree\<close> (\<open>core/ngx_string.c\<close>) are clients.
  \<^item> \<open>Ngx_Hash\<close> (\<open>core/ngx_hash.c\<close>, \<open>core/ngx_hash.h\<close>): the hash tables of names and of names with wildcards over a memory of bytes.
  \<^item> \<open>Ngx_Queue\<close> (\<open>core/ngx_queue.h\<close>, \<open>core/ngx_queue.c\<close>): rings of links over a memory of links.
  \<^item> \<open>Ngx_Crc32\<close> (\<open>core/ngx_crc32.h\<close>, tables of \<open>core/ngx_crc32.c\<close>): the checksums and the shift register they stand for.
  \<^item> \<open>Ngx_Http_Limit_Req\<close> (\<open>http/modules/ngx_http_limit_req_module.c\<close>): the limits on the rate of requests, a client of the red-black tree
    through \<open>rbtree_insertion\<close>, of the queue and of CRC-32.
  \<^item> \<open>Ngx_Shmtx\<close> (\<open>core/ngx_shmtx.c\<close>): the mutex in shared memory, as a step relation over the accesses of
    all processes and as an executable scheduler.

  \<^bold>\<open>What the lemmas show.\<close>

  \<^item> Scanners of HTTP and mail: what is accepted and with which fields; that a parse in two calls is the parse in one;
    that the pointers of an accepted line are ordered and inside the buffer; for the URI, that the scanner
    computes percent decoding followed by a resolution of segments (\<open>complex_uri_refines\<close>), that its output is
    safe and stable, and that the flags of the request line scanner name every URI that needs it.
  \<^item> Conversions: round trips of each printer with its reader, the buffer each one needs, and the values
    at which an unchecked sum wraps.
  \<^item> UTF-8: length and copies of a text of encoded characters.  Arguments: which item of a query or of a header is found,
    against a split of the text into items; exactly which URIs count as unsafe.
  \<^item> Dates: agreement of the Gauss formula with a calendar that counts days one by one.
  \<^item> Radix tree: an invariant of the memory (tree, parent pointers, free list, unused pages, all
    disjoint) kept by every operation; refinement of a table of prefixes; termination of the search.
  \<^item> Red-black trees: insertion and deletion end, refine insertion into and removal from the list of nodes in order, and keep the
    colours and the balance; timers are set and expire in the order of their times, across an overflow of the clock.
  \<^item> Queues: each macro on the list of elements that a ring holds; the sort ends and is stable.  CRC-32: all computations agree with
    the bitwise one, and no change inside four adjacent bytes goes unseen.
  \<^item> Hash tables: the buckets lie apart and inside the block, so that a search finds what was put in; the search with wildcards
    finds the longest pattern, against a trie of labels.
  \<^item> Request limits: what a limit lets through in a time and what it never refuses, with the expiry of nodes and any other requests in
    between; no node stays pinned.
  \<^item> Geo: the configuration as a whole computes the longest match.
  \<^item> Load balancing: exact proportion over every period of requests, no server twice for one request, and the two
    ways in which backup servers go wrong.
  \<^item> Mutex: in every reachable state at most one holder, and while no process has died no sleeper without
    a process that can go on.

  \<^bold>\<open>Bounds and fuel.\<close>  Loops over a text recurse on it.  The loops of the radix tree over a bit that is
  shifted to the right recurse on its value; those that follow pointers are partial functions whose
  value \<open>None\<close> is a null pointer dereferenced or a loop that does not end, and the theorems on them
  show a value on every well-formed tree.  The loop of \<open>ngx_http_parse_complex_uri\<close> ends by a measure of
  the bytes left and the state.  No definition uses fuel.

  \<^bold>\<open>Not modelled.\<close>  Whatever is a call of the operating system or is driven by events: the event loop,
  sockets, files, processes, TLS, upstreams, the phases of a request, mail sessions
  beyond their commands, DNS.  Also the remaining
  copying and searching routines of \<open>core/ngx_string.c\<close>, digests, the construction of hash tables with
  wildcards, and the allocators.  Debug logs are
  left out everywhere.  In the formatted printer the numbers of \<open>%f\<close> are finite.  Pools are
  parameters: lists of the pages that an allocation returns.
\<close>

end
